(* ===== verification/Kernel_Prelude.thy ===== *)
theory Kernel_Prelude
  imports Main "HOL-Library.Word"
begin

text \<open>
  Shared material of the VNL development: the machine integer types of
  \<^verbatim>\<open>include/types.h\<close>, the errno values of \<^verbatim>\<open>include/errno.h\<close>, the alignment macros,
  the outcomes a kernel routine can have besides returning, byte-addressed memory with
  little-endian 64-bit accesses, the first-match table scan that almost every component of the
  kernel uses, and the simp collections the component theories extend.
\<close>

unbundle bit_operations_syntax

named_theorems frame_simps \<open>what an operation leaves unchanged\<close>
named_theorems invar_intros \<open>operations preserve component invariants\<close>
named_theorems c_simps \<open>unfolding of C idioms (casts, masks, alignment)\<close>

section \<open>Machine integers\<close>

type_synonym u8 = "8 word"
type_synonym u16 = "16 word"
type_synonym u32 = "32 word"
type_synonym u64 = "64 word"

text \<open>The C cast \<^verbatim>\<open>(int)x\<close> of a 64-bit value, and \<^verbatim>\<open>(int64_t)x\<close>.\<close>

definition c_int :: "u64 \<Rightarrow> int" where
  "c_int w = sint (ucast w :: u32)"

definition c_int64 :: "u64 \<Rightarrow> int" where
  "c_int64 w = sint w"

abbreviation (input) PAGE_SIZE :: u64 where "PAGE_SIZE \<equiv> 4096"

definition ALIGN_UP :: "u64 \<Rightarrow> u64 \<Rightarrow> u64" where
  "ALIGN_UP val align = (val + (align - 1)) AND NOT (align - 1)"

definition ALIGN_DOWN :: "u64 \<Rightarrow> u64 \<Rightarrow> u64" where
  "ALIGN_DOWN val align = val AND NOT (align - 1)"

section \<open>Error numbers\<close>

abbreviation (input) EPERM :: int where "EPERM \<equiv> 1"
abbreviation (input) ENOENT :: int where "ENOENT \<equiv> 2"
abbreviation (input) EIO :: int where "EIO \<equiv> 5"
abbreviation (input) E2BIG :: int where "E2BIG \<equiv> 7"
abbreviation (input) ENOEXEC :: int where "ENOEXEC \<equiv> 8"
abbreviation (input) EBADF :: int where "EBADF \<equiv> 9"
abbreviation (input) EAGAIN :: int where "EAGAIN \<equiv> 11"
abbreviation (input) ENOMEM :: int where "ENOMEM \<equiv> 12"
abbreviation (input) EFAULT :: int where "EFAULT \<equiv> 14"
abbreviation (input) EEXIST :: int where "EEXIST \<equiv> 17"
abbreviation (input) ENODEV :: int where "ENODEV \<equiv> 19"
abbreviation (input) ENOTDIR :: int where "ENOTDIR \<equiv> 20"
abbreviation (input) EINVAL :: int where "EINVAL \<equiv> 22"
abbreviation (input) EMFILE :: int where "EMFILE \<equiv> 24"
abbreviation (input) ENOTTY :: int where "ENOTTY \<equiv> 25"
abbreviation (input) EFBIG :: int where "EFBIG \<equiv> 27"
abbreviation (input) ERANGE :: int where "ERANGE \<equiv> 34"
abbreviation (input) ENOSYS :: int where "ENOSYS \<equiv> 38"
abbreviation (input) ENOTSOCK :: int where "ENOTSOCK \<equiv> 88"
abbreviation (input) EADDRINUSE :: int where "EADDRINUSE \<equiv> 98"
abbreviation (input) ENOTCONN :: int where "ENOTCONN \<equiv> 107"
abbreviation (input) ECONNREFUSED :: int where "ECONNREFUSED \<equiv> 111"

text \<open>
  Outcomes other than an ordinary return. \<open>Panic\<close> is a call of \<^verbatim>\<open>kpanic\<close> (which halts the
  machine) or a failed \<^verbatim>\<open>ASSERT\<close>; \<open>NullDeref\<close> and \<open>OutOfBounds\<close> are accesses the C
  program makes through a null pointer or outside an array; \<open>Diverges\<close> is a loop or recursion
  that has not returned within the bound its definition states; \<open>Overflow\<close> is signed arithmetic outside its type; \<open>Uninit\<close> is
  a read of an array nothing was written to.
\<close>

datatype fault = Panic string | NullDeref | OutOfBounds | Diverges | Overflow | Uninit

type_synonym 'a res = "fault + 'a"

section \<open>Alignment\<close>

lemma unat_less_2p64 [simp]: "unat (x :: u64) < 18446744073709551616"
  using unsigned_less [of x] by simp

lemma unat_eq_unat_iff: "unat (a :: u64) = unat b \<longleftrightarrow> a = b"
  by (simp add: word_unat_eq_iff)

lemma word_not_mask_push_drop: "(x :: 'a::len word) AND NOT (mask n) = push_bit n (drop_bit n x)"
  by (rule bit_word_eqI) (auto simp: bit_simps)

lemma page_mask_eq_mask: "(4095 :: u64) = mask 12"
  by (simp add: mask_eq_exp_minus_1)

text \<open>The simplifier writes \<open>NOT 4095\<close> as \<open>- 4096\<close>, so the lemmas do too.\<close>

lemma page_mask_push_drop: "(x :: u64) AND - 4096 = push_bit 12 (drop_bit 12 x)"
proof -
  have "(- 4096 :: u64) = NOT (mask 12)"
    by (simp add: mask_eq_exp_minus_1)
  then show ?thesis by (simp only: word_not_mask_push_drop)
qed

lemma unat_page_mask [c_simps]: "unat ((x :: u64) AND - 4096) = unat x div 4096 * 4096"
proof -
  have "unat x div 4096 * 4096 < 18446744073709551616"
    using unat_less_2p64 [of x] by linarith
  moreover have "unat (drop_bit 12 x) = unat x div 4096"
    by (simp add: drop_bit_eq_div unat_div)
  ultimately show ?thesis
    by (simp add: page_mask_push_drop push_bit_eq_mult unat_word_ariths mult.commute)
qed

lemma unat_page_off [c_simps]: "unat ((x :: u64) AND 4095) = unat x mod 4096"
proof -
  have "x AND 4095 = x mod 4096"
    unfolding page_mask_eq_mask by (simp add: take_bit_eq_mod flip: take_bit_eq_mask)
  then show ?thesis
    by (simp add: unat_mod)
qed

lemma unat_align_down_page: "unat (ALIGN_DOWN v 4096) = unat v div 4096 * 4096"
  by (simp add: ALIGN_DOWN_def unat_page_mask)

lemma unat_align_up_page:
  assumes "unat v + 4095 < 2 ^ 64"
  shows "unat (ALIGN_UP v 4096) = (unat v + 4095) div 4096 * 4096"
proof -
  have "unat (v + 4095) = unat v + 4095"
    using assms by (simp add: unat_word_ariths)
  then show ?thesis
    by (simp add: ALIGN_UP_def unat_page_mask)
qed

lemma align_up_page_ge:
  assumes "unat v + 4095 < 2 ^ 64"
  shows "unat v \<le> unat (ALIGN_UP v 4096)"
  using unat_align_up_page [OF assms] by simp

lemma scaled_disjoint:
  fixes a b k :: nat
  assumes "a \<noteq> b"
  shows "a * k + k \<le> b * k \<or> b * k + k \<le> a * k"
proof (cases "a < b")
  case True
  then have "Suc a * k \<le> b * k" by (intro mult_le_mono1) simp
  then show ?thesis by simp
next
  case False
  with assms have "Suc b * k \<le> a * k" by (intro mult_le_mono1) simp
  then show ?thesis by simp
qed

lemma c_int_small:
  assumes "unat w < 2 ^ 31"
  shows "c_int w = int (unat w)"
proof -
  have lt: "unat w < 2147483648" using assms by simp
  have e: "int (unat w) = uint w" by simp
  have "uint (ucast w :: u32) = take_bit 32 (uint w)" by (simp add: unsigned_ucast_eq)
  also have "\<dots> = uint w mod 4294967296" by (simp add: take_bit_eq_mod)
  also have "\<dots> = uint w" using lt e by (intro mod_pos_pos_trivial) linarith+
  finally have u: "uint (ucast w :: u32) = int (unat w)" using e by simp
  have "signed_take_bit 31 (int (unat w)) = int (unat w)"
  proof (rule signed_take_bit_int_eq_self)
    have p: "(2 :: int) ^ 31 = 2147483648" by simp
    show "- (2 ^ 31) \<le> int (unat w)" "int (unat w) < 2 ^ 31" unfolding p using lt by linarith+
  qed
  then show ?thesis unfolding c_int_def sint_uint u by simp
qed

lemma c_int_of_nat: "n < 2 ^ 31 \<Longrightarrow> c_int (of_nat n) = int n"
  by (simp add: c_int_small unat_of_nat)

lemma unat_of_nat_small: "n < 2 ^ 64 \<Longrightarrow> unat (of_nat n :: u64) = n"
  by (simp add: unat_of_nat)

section \<open>First match in a table\<close>

text \<open>
  The loop \<^verbatim>\<open>for (i = 0; i < N; i++) if (P(table[i])) ...\<close> that stops at the first match.
\<close>

fun find_idx :: "('a \<Rightarrow> bool) \<Rightarrow> 'a list \<Rightarrow> nat option" where
  "find_idx P [] = None"
| "find_idx P (x # xs) = (if P x then Some 0 else map_option Suc (find_idx P xs))"

lemma find_idx_None_iff: "find_idx P xs = None \<longleftrightarrow> (\<forall>x \<in> set xs. \<not> P x)"
  by (induction xs) auto

lemma find_idx_SomeD:
  assumes "find_idx P xs = Some i"
  shows "i < length xs" and "P (xs ! i)" and "\<And>j. j < i \<Longrightarrow> \<not> P (xs ! j)"
proof -
  have "i < length xs \<and> P (xs ! i) \<and> (\<forall>j < i. \<not> P (xs ! j))"
    using assms
  proof (induction xs arbitrary: i)
    case Nil
    then show ?case by simp
  next
    case (Cons x xs)
    then show ?case
      by (cases i) (auto split: if_splits simp: less_Suc_eq_0_disj)
  qed
  then show "i < length xs" and "P (xs ! i)" and "\<And>j. j < i \<Longrightarrow> \<not> P (xs ! j)"
    by auto
qed

lemma find_idx_Some_iff:
  "find_idx P xs = Some i \<longleftrightarrow> i < length xs \<and> P (xs ! i) \<and> (\<forall>j < i. \<not> P (xs ! j))"
proof
  assume "i < length xs \<and> P (xs ! i) \<and> (\<forall>j < i. \<not> P (xs ! j))"
  then show "find_idx P xs = Some i"
  proof (induction xs arbitrary: i)
    case Nil
    then show ?case by simp
  next
    case (Cons x xs)
    show ?case
    proof (cases i)
      case 0
      with Cons.prems show ?thesis by simp
    next
      case (Suc k)
      with Cons.prems have "\<not> P x" by fastforce
      moreover have "find_idx P xs = Some k"
        using Cons.prems Suc by (intro Cons.IH) (auto dest: spec [of _ "Suc _"])
      ultimately show ?thesis using Suc by simp
    qed
  qed
qed (auto dest: find_idx_SomeD)

lemma find_idx_exists: "\<exists>x \<in> set xs. P x \<Longrightarrow> \<exists>i. find_idx P xs = Some i"
  using find_idx_None_iff [of P xs] by (cases "find_idx P xs") auto

text \<open>A scan over a table whose matching key is unique finds exactly that entry.\<close>

lemma find_idx_unique:
  assumes "i < length xs" and "P (xs ! i)" and "\<And>j. j < length xs \<Longrightarrow> P (xs ! j) \<Longrightarrow> j = i"
  shows "find_idx P xs = Some i"
  unfolding find_idx_Some_iff using assms by (metis less_irrefl less_trans)

lemma find_idx_update_other:
  assumes "\<not> P v" and "i < length xs" and "\<not> P (xs ! i)"
  shows "find_idx P (xs[i := v]) = find_idx P xs"
  using assms by (induction xs arbitrary: i) (auto split: nat.splits)

section \<open>Byte memory\<close>

type_synonym bmem = "nat \<Rightarrow> u8"

definition rd64 :: "bmem \<Rightarrow> nat \<Rightarrow> u64" where
  "rd64 m a =
     ucast (m a) OR push_bit 8 (ucast (m (a + 1))) OR push_bit 16 (ucast (m (a + 2)))
       OR push_bit 24 (ucast (m (a + 3))) OR push_bit 32 (ucast (m (a + 4)))
       OR push_bit 40 (ucast (m (a + 5))) OR push_bit 48 (ucast (m (a + 6)))
       OR push_bit 56 (ucast (m (a + 7)))"

definition wr64 :: "bmem \<Rightarrow> nat \<Rightarrow> u64 \<Rightarrow> bmem" where
  "wr64 m a v =
     m(a := ucast v, a + 1 := ucast (drop_bit 8 v), a + 2 := ucast (drop_bit 16 v),
       a + 3 := ucast (drop_bit 24 v), a + 4 := ucast (drop_bit 32 v),
       a + 5 := ucast (drop_bit 40 v), a + 6 := ucast (drop_bit 48 v),
       a + 7 := ucast (drop_bit 56 v))"

text \<open>\<^verbatim>\<open>memset(p, c, n)\<close>, \<^verbatim>\<open>memcpy\<close> into and out of memory.\<close>

definition mem_fill :: "bmem \<Rightarrow> nat \<Rightarrow> nat \<Rightarrow> u8 \<Rightarrow> bmem" where
  "mem_fill m a n c = (\<lambda>x. if a \<le> x \<and> x < a + n then c else m x)"

fun store_bytes :: "bmem \<Rightarrow> nat \<Rightarrow> u8 list \<Rightarrow> bmem" where
  "store_bytes m a [] = m"
| "store_bytes m a (b # bs) = store_bytes (m(a := b)) (Suc a) bs"

definition load_bytes :: "bmem \<Rightarrow> nat \<Rightarrow> nat \<Rightarrow> u8 list" where
  "load_bytes m a n = map m [a..<a + n]"

lemma rd64_bytes:
  assumes "m a = ucast v" and "m (a + 1) = ucast (drop_bit 8 v)"
    and "m (a + 2) = ucast (drop_bit 16 v)" and "m (a + 3) = ucast (drop_bit 24 v)"
    and "m (a + 4) = ucast (drop_bit 32 v)" and "m (a + 5) = ucast (drop_bit 40 v)"
    and "m (a + 6) = ucast (drop_bit 48 v)" and "m (a + 7) = ucast (drop_bit 56 v)"
  shows "rd64 m a = v"
proof (rule bit_word_eqI)
  fix n
  assume "n < LENGTH(64)"
  then consider "n < 8" | "8 \<le> n" "n < 16" | "16 \<le> n" "n < 24" | "24 \<le> n" "n < 32"
    | "32 \<le> n" "n < 40" | "40 \<le> n" "n < 48" | "48 \<le> n" "n < 56" | "56 \<le> n" "n < 64"
    by fastforce
  then show "bit (rd64 m a) n = bit v n"
    unfolding rd64_def assms
    by cases (simp_all add: bit_simps less_diff_conv2)
qed

lemma rd64_wr64_same [simp]: "rd64 (wr64 m a v) a = v"
  by (rule rd64_bytes) (simp_all add: wr64_def)

lemma rd64_cong: "(\<And>x. a \<le> x \<Longrightarrow> x < a + 8 \<Longrightarrow> m x = m' x) \<Longrightarrow> rd64 m a = rd64 m' a"
  by (simp add: rd64_def)

lemma wr64_other_byte: "x < a \<or> a + 8 \<le> x \<Longrightarrow> wr64 m a v x = m x"
  by (auto simp: wr64_def)

lemma rd64_wr64_other: "a + 8 \<le> b \<or> b + 8 \<le> a \<Longrightarrow> rd64 (wr64 m a v) b = rd64 m b"
  by (rule rd64_cong) (auto intro: wr64_other_byte)

lemma rd64_mem_fill_other: "a + n \<le> b \<or> b + 8 \<le> a \<Longrightarrow> rd64 (mem_fill m a n c) b = rd64 m b"
  by (rule rd64_cong) (auto simp: mem_fill_def)

lemma rd64_mem_fill_zero:
  assumes "a \<le> b" and "b + 8 \<le> a + n"
  shows "rd64 (mem_fill m a n 0) b = 0"
  using assms by (simp add: rd64_def mem_fill_def)

lemma store_bytes_outside: "x < a \<or> a + length bs \<le> x \<Longrightarrow> store_bytes m a bs x = m x"
  by (induction m a bs rule: store_bytes.induct) auto

lemma store_bytes_inside: "i < length bs \<Longrightarrow> store_bytes m a bs (a + i) = bs ! i"
proof (induction m a bs arbitrary: i rule: store_bytes.induct)
  case (2 m a b bs)
  show ?case
  proof (cases i)
    case 0
    then show ?thesis by (simp add: store_bytes_outside)
  next
    case (Suc k)
    with "2.prems" have "store_bytes (m(a := b)) (Suc a) bs (Suc a + k) = bs ! k"
      by (intro "2.IH") simp
    with Suc show ?thesis by simp
  qed
qed simp

lemma length_load_bytes [simp]: "length (load_bytes m a n) = n"
  by (simp add: load_bytes_def)

lemma nth_load_bytes [simp]: "i < n \<Longrightarrow> load_bytes m a n ! i = m (a + i)"
  by (simp add: load_bytes_def)

lemma load_store_bytes_same: "load_bytes (store_bytes m a bs) a (length bs) = bs"
  by (rule nth_equalityI) (simp_all add: store_bytes_inside)

lemma load_store_bytes_other:
  "b + n \<le> a \<or> a + length bs \<le> b \<Longrightarrow> load_bytes (store_bytes m a bs) b n = load_bytes m b n"
  by (rule nth_equalityI) (auto simp: store_bytes_outside)

lemma load_bytes_append: "load_bytes m a (n + k) = load_bytes m a n @ load_bytes m (a + n) k"
  by (rule nth_equalityI) (auto simp: nth_append)

end
