(* ===== verification/KString.thy ===== *)
theory KString
  imports Kernel_Prelude
begin

text \<open>
  \<^verbatim>\<open>src/lib/string.c\<close>: the string and memory primitives. A \<^verbatim>\<open>char *\<close> argument is the list
  of the characters from the pointer to the end of the array it points into; a terminated string
  is \<open>cz s\<close>. Reading or writing outside that array is the result \<open>None\<close>. The block operations
  \<^verbatim>\<open>memset\<close>, \<^verbatim>\<open>memcpy\<close>, \<^verbatim>\<open>memmove\<close> work on byte memory, where regions may overlap.
\<close>

section \<open>C strings\<close>

abbreviation (input) NUL :: char where "NUL \<equiv> CHR 0x00"

definition cz :: "string \<Rightarrow> string" where
  "cz s = s @ [NUL]"

definition uchar :: "char \<Rightarrow> int" where
  "uchar c = int (of_char c)"

section \<open>String operations\<close>

fun strlen :: "string \<Rightarrow> nat option" where
  "strlen [] = None"
| "strlen (c # cs) = (if c = NUL then Some 0 else map_option Suc (strlen cs))"

fun strcmp :: "string \<Rightarrow> string \<Rightarrow> int option" where
  "strcmp (a # as) (b # bs) =
     (if a \<noteq> NUL \<and> a = b then strcmp as bs else Some (uchar a - uchar b))"
| "strcmp _ _ = None"

fun strncmp :: "string \<Rightarrow> string \<Rightarrow> nat \<Rightarrow> int option" where
  "strncmp as bs 0 = Some 0"
| "strncmp (a # as) (b # bs) (Suc n) =
     (if a \<noteq> NUL \<and> a = b then strncmp as bs n else Some (uchar a - uchar b))"
| "strncmp _ _ (Suc n) = None"

text \<open>The destination array after the copy.\<close>

fun strcpy :: "string \<Rightarrow> string \<Rightarrow> string option" where
  "strcpy (d # ds) (c # cs) = (if c = NUL then Some (c # ds) else map_option (Cons c) (strcpy ds cs))"
| "strcpy _ _ = None"

text \<open>\<^verbatim>\<open>while (n--) *dst++ = 0\<close>\<close>

fun write_nuls :: "nat \<Rightarrow> string \<Rightarrow> string option" where
  "write_nuls 0 ds = Some ds"
| "write_nuls (Suc n) (d # ds) = map_option (Cons NUL) (write_nuls n ds)"
| "write_nuls (Suc n) [] = None"

fun strncpy :: "string \<Rightarrow> string \<Rightarrow> nat \<Rightarrow> string option" where
  "strncpy ds cs 0 = Some ds"
| "strncpy (d # ds) (c # cs) (Suc n) =
     (if c = NUL then map_option (Cons NUL) (write_nuls (Suc n) ds)
      else map_option (Cons c) (strncpy ds cs n))"
| "strncpy _ _ (Suc n) = None"

fun strcat :: "string \<Rightarrow> string \<Rightarrow> string option" where
  "strcat [] src = None"
| "strcat (d # ds) src = (if d = NUL then strcpy (d # ds) src else map_option (Cons d) (strcat ds src))"

text \<open>The tail copy of \<open>strncat\<close>: at most \<open>n\<close> characters, then the terminator.\<close>

fun strncat_copy :: "string \<Rightarrow> string \<Rightarrow> nat \<Rightarrow> string option" where
  "strncat_copy [] cs n = None"
| "strncat_copy (d # ds) cs 0 = Some (NUL # ds)"
| "strncat_copy (d # ds) [] (Suc n) = None"
| "strncat_copy (d # ds) (c # cs) (Suc n) =
     (if c = NUL then Some (NUL # ds) else map_option (Cons c) (strncat_copy ds cs n))"

fun strncat :: "string \<Rightarrow> string \<Rightarrow> nat \<Rightarrow> string option" where
  "strncat [] src n = None"
| "strncat (d # ds) src n =
     (if d = NUL then strncat_copy (d # ds) src n else map_option (Cons d) (strncat ds src n))"

text \<open>
  Searches return the offset of the match; the outer option is an access outside the array, the
  inner one the returned null pointer.
\<close>

fun strchr :: "string \<Rightarrow> char \<Rightarrow> nat option option" where
  "strchr [] c = None"
| "strchr (a # as) c =
     (if a = NUL then Some None
      else if a = c then Some (Some 0)
      else map_option (map_option Suc) (strchr as c))"

fun strrchr_loop :: "string \<Rightarrow> char \<Rightarrow> nat \<Rightarrow> nat option \<Rightarrow> nat option option" where
  "strrchr_loop [] c i lst = None"
| "strrchr_loop (a # as) c i lst =
     (if a = NUL then Some lst
      else strrchr_loop as c (Suc i) (if a = c then Some i else lst))"

definition strrchr :: "string \<Rightarrow> char \<Rightarrow> nat option option" where
  "strrchr s c = strrchr_loop s c 0 None"

fun strstr_loop :: "string \<Rightarrow> string \<Rightarrow> nat \<Rightarrow> nat option option" where
  "strstr_loop [] needle nl = None"
| "strstr_loop (h # hs) needle nl =
     (if h = NUL then Some None
      else case strncmp (h # hs) needle nl of
             None \<Rightarrow> None
           | Some r \<Rightarrow> if r = 0 then Some (Some 0)
                       else map_option (map_option Suc) (strstr_loop hs needle nl))"

definition strstr :: "string \<Rightarrow> string \<Rightarrow> nat option option" where
  "strstr hay needle =
     (case needle of [] \<Rightarrow> None
      | n # _ \<Rightarrow>
          if n = NUL then Some (Some 0)
          else case strlen needle of None \<Rightarrow> None | Some nl \<Rightarrow> strstr_loop hay needle nl)"

section \<open>Numbers\<close>

text \<open>
  \<open>strtol\<close> returns the value and the unread rest. The accumulation \<^verbatim>\<open>v * base + d\<close> is signed
  64-bit arithmetic; a value outside the range is undefined behaviour, here \<open>None\<close>.
\<close>

fun skip_blanks :: "string \<Rightarrow> string" where
  "skip_blanks [] = []"
| "skip_blanks (c # cs) = (if c = CHR '' '' \<or> c = CHR 0x09 then skip_blanks cs else c # cs)"

definition digit_val :: "char \<Rightarrow> int option" where
  "digit_val c =
     (if uchar (CHR ''0'') \<le> uchar c \<and> uchar c \<le> uchar (CHR ''9'') then Some (uchar c - uchar (CHR ''0''))
      else if uchar (CHR ''a'') \<le> uchar c \<and> uchar c \<le> uchar (CHR ''f'') then Some (uchar c - uchar (CHR ''a'') + 10)
      else if uchar (CHR ''A'') \<le> uchar c \<and> uchar c \<le> uchar (CHR ''F'') then Some (uchar c - uchar (CHR ''A'') + 10)
      else None)"

definition in_int64 :: "int \<Rightarrow> bool" where
  "in_int64 v \<longleftrightarrow> - (2 ^ 63) \<le> v \<and> v < 2 ^ 63"

fun strtol_digits :: "string \<Rightarrow> int \<Rightarrow> int \<Rightarrow> (int \<times> string) option" where
  "strtol_digits [] base v = None"
| "strtol_digits (c # cs) base v =
     (if c = NUL then Some (v, c # cs)
      else case digit_val c of
             None \<Rightarrow> Some (v, c # cs)
           | Some d \<Rightarrow>
               if d \<ge> base then Some (v, c # cs)
               else if \<not> in_int64 (v * base + d) then None
               else strtol_digits cs base (v * base + d))"

definition is_x :: "char \<Rightarrow> bool" where
  "is_x c \<longleftrightarrow> c = CHR ''x'' \<or> c = CHR ''X''"

definition strtol_base :: "string \<Rightarrow> int \<Rightarrow> int \<times> string" where
  "strtol_base s base =
     (if base = 0 then
        (case s of
           a # b # r \<Rightarrow> if a = CHR ''0'' \<and> is_x b then (16, r)
                        else if a = CHR ''0'' then (8, b # r) else (10, s)
         | _ \<Rightarrow> (10, s))
      else if base = 16 then
        (case s of a # b # r \<Rightarrow> if a = CHR ''0'' \<and> is_x b then (16, r) else (16, s) | _ \<Rightarrow> (16, s))
      else (base, s))"

definition strtol :: "string \<Rightarrow> int \<Rightarrow> (int \<times> string) option" where
  "strtol str base =
     (case skip_blanks str of
        [] \<Rightarrow> None
      | c # cs \<Rightarrow>
          let neg = (c = CHR ''-'');
              s1 = (if c = CHR ''-'' \<or> c = CHR ''+'' then cs else c # cs);
              (b, s2) = strtol_base s1 base
          in case strtol_digits s2 b 0 of
               None \<Rightarrow> None
             | Some (v, rest) \<Rightarrow> Some (if neg then - v else v, rest))"

section \<open>Block operations\<close>

fun memset :: "bmem \<Rightarrow> nat \<Rightarrow> u8 \<Rightarrow> nat \<Rightarrow> bmem" where
  "memset m p c 0 = m"
| "memset m p c (Suc n) = memset (m(p := c)) (Suc p) c n"

fun memcpy :: "bmem \<Rightarrow> nat \<Rightarrow> nat \<Rightarrow> nat \<Rightarrow> bmem" where
  "memcpy m d s 0 = m"
| "memcpy m d s (Suc n) = memcpy (m(d := m s)) (Suc d) (Suc s) n"

fun memcpy_down :: "bmem \<Rightarrow> nat \<Rightarrow> nat \<Rightarrow> nat \<Rightarrow> bmem" where
  "memcpy_down m d s 0 = m"
| "memcpy_down m d s (Suc n) = memcpy_down (m(d + n := m (s + n))) d s n"

definition memmove :: "bmem \<Rightarrow> nat \<Rightarrow> nat \<Rightarrow> nat \<Rightarrow> bmem" where
  "memmove m d s n = (if d < s then memcpy m d s n else memcpy_down m d s n)"

fun memcmp :: "bmem \<Rightarrow> nat \<Rightarrow> nat \<Rightarrow> nat \<Rightarrow> int" where
  "memcmp m p q 0 = 0"
| "memcmp m p q (Suc n) =
     (if m p \<noteq> m q then int (unat (m p)) - int (unat (m q)) else memcmp m (Suc p) (Suc q) n)"

section \<open>Lemmas\<close>

lemma uchar_inj: "uchar a = uchar b \<longleftrightarrow> a = b"
  by (simp add: uchar_def)

lemma strlen_cz: "NUL \<notin> set s \<Longrightarrow> strlen (cz s) = Some (length s)"
  by (induction s) (auto simp: cz_def)

lemma cz_Cons: "cz (a # s) = a # cz s" and cz_Nil: "cz [] = [NUL]"
  by (simp_all add: cz_def)

lemma strcmp_total:
  assumes "NUL \<notin> set s" and "NUL \<notin> set t"
  shows "\<exists>r. strcmp (cz s) (cz t) = Some r \<and> (r = 0 \<longleftrightarrow> s = t)"
  using assms
proof (induction s arbitrary: t)
  case Nil
  then show ?case
    by (cases t) (auto simp: cz_Cons cz_Nil uchar_inj)
next
  case (Cons a s)
  then show ?case
    by (cases t) (auto simp: cz_Cons cz_Nil uchar_inj)
qed

lemma strncmp_prefix:
  assumes "NUL \<notin> set p"
  shows "strncmp h (cz p) (length p) = Some 0 \<longleftrightarrow> (\<exists>r. h = p @ r)"
  using assms
proof (induction p arbitrary: h)
  case Nil
  then show ?case by simp
next
  case (Cons a p)
  then show ?case
    by (cases h) (auto simp: cz_Cons uchar_inj)
qed

lemma write_nuls_eq:
  "write_nuls n ds = (if n \<le> length ds then Some (replicate n NUL @ drop n ds) else None)"
  by (induction n ds rule: write_nuls.induct) auto

lemma strncpy_long:
  assumes "NUL \<notin> set (take n cs)" and "n \<le> length cs" and "n \<le> length ds"
  shows "strncpy ds cs n = Some (take n cs @ drop n ds)"
  using assms by (induction ds cs n rule: strncpy.induct) auto

lemma strncpy_short:
  assumes "NUL \<notin> set s" and "length s < n"
  shows "strncpy ds (cz s @ r) n =
           (if n < length ds then Some (s @ replicate (Suc n - length s) NUL @ drop (Suc n) ds) else None)"
  using assms
proof (induction s arbitrary: ds n)
  case Nil
  then obtain k where "n = Suc k" by (cases n) auto
  then show ?case
    by (cases ds) (auto simp: cz_def write_nuls_eq)
next
  case (Cons a s)
  then obtain k where n: "n = Suc k" and "length s < k" by (cases n) auto
  with Cons show ?case
    by (cases ds) (auto simp: cz_Cons Suc_diff_le)
qed

lemma memset_eq: "memset m p c n = mem_fill m p n c"
proof (induction m p c n rule: memset.induct)
  case (2 m p c n)
  show ?case
    unfolding memset.simps "2.IH" by (auto simp: mem_fill_def fun_eq_iff)
qed (auto simp: mem_fill_def fun_eq_iff)

lemma memcpy_eq:
  assumes "d \<le> s \<or> s + n \<le> d"
  shows "memcpy m d s n x = (if d \<le> x \<and> x < d + n then m (s + (x - d)) else m x)"
  using assms
proof (induction m d s n arbitrary: x rule: memcpy.induct)
  case (2 m d s n)
  have "Suc d \<le> Suc s \<or> Suc s + n \<le> Suc d"
    using "2.prems" by auto
  then show ?case
    unfolding memcpy.simps "2.IH" [OF \<open>Suc d \<le> Suc s \<or> Suc s + n \<le> Suc d\<close>]
    using "2.prems" by (cases "x = d") (auto simp: Suc_diff_Suc)
qed auto

lemma memcpy_down_eq:
  assumes "s \<le> d"
  shows "memcpy_down m d s n x = (if d \<le> x \<and> x < d + n then m (s + (x - d)) else m x)"
  using assms
proof (induction m d s n arbitrary: x rule: memcpy_down.induct)
  case (2 m d s n)
  show ?case
    unfolding memcpy_down.simps "2.IH" [OF "2.prems"]
    using "2.prems" by (auto simp: less_Suc_eq)
qed auto

section \<open>Properties\<close>

text \<open>
  On terminated strings \<open>strcmp\<close> always returns, and it returns 0 exactly for equal strings.
\<close>

theorem strcmp_decides_equality:
  assumes "NUL \<notin> set s" and "NUL \<notin> set t"
  shows "\<exists>r. strcmp (cz s) (cz t) = Some r \<and> (r = 0 \<longleftrightarrow> s = t)"
  using assms by (rule strcmp_total)

theorem strcmp_decides_equality_witness:
  "NUL \<notin> set ''tmp'' \<and> (\<exists>r. strcmp (cz ''tmp'') (cz ''etc'') = Some r \<and> r \<noteq> 0)"
proof -
  have "NUL \<notin> set ''tmp''" and "NUL \<notin> set ''etc''" by simp_all
  from strcmp_decides_equality [OF this] this show ?thesis by simp
qed

text \<open>
  The routine \<open>strncpy\<close> with a source shorter than \<open>n\<close> writes \<open>n + 1\<close> bytes: it needs a destination of
  more than \<open>n\<close> bytes (with exactly \<open>n\<close> it writes outside the array), where the C standard's
  function writes exactly \<open>n\<close>. The first loop leaves \<open>n\<close> undecremented for the terminator it copied.
\<close>

theorem strncpy_writes_one_too_many:
  assumes "NUL \<notin> set s" and "length s < n"
  shows "(n < length ds \<longrightarrow>
            strncpy ds (cz s) n = Some (s @ replicate (Suc n - length s) NUL @ drop (Suc n) ds)) \<and>
         (length ds = n \<longrightarrow> strncpy ds (cz s) n = None)"
  using strncpy_short [OF assms, of ds "[]"] by simp

theorem strncpy_writes_one_too_many_witness:
  "strncpy ''xxxx'' (cz ''/'') 4 = None \<and> strncpy ''xxxxx'' (cz ''/'') 3 = Some (''/'' @ replicate 3 NUL @ ''x'')"
proof -
  have "NUL \<notin> set ''/''" and "length ''/'' < 4" and "length ''/'' < 3" by simp_all
  from strncpy_writes_one_too_many [OF this(1,2), of "''xxxx''"]
    strncpy_writes_one_too_many [OF this(1,3), of "''xxxxx''"]
  show ?thesis by (simp add: numeral_eq_Suc)
qed

text \<open>
  The routine \<open>memmove\<close> is correct for every pair of regions, overlapping or not: each destination byte gets
  the value its source byte had before the call, and nothing else changes.
\<close>

theorem memmove_copies_overlapping:
  "memmove m d s n = (\<lambda>x. if d \<le> x \<and> x < d + n then m (s + (x - d)) else m x)"
proof
  fix x
  show "memmove m d s n x = (if d \<le> x \<and> x < d + n then m (s + (x - d)) else m x)"
    by (cases "d < s") (simp_all add: memmove_def memcpy_eq memcpy_down_eq)
qed

end
