(* ===== verification/Pmm.thy ===== *)
theory Pmm
  imports Kernel_Prelude
begin

text \<open>
  \<^verbatim>\<open>src/mm/pmm.c\<close>: the physical frame allocator, one bit per 4 KiB frame (0 free, 1 used).
  The static array \<^verbatim>\<open>bitmap\<close> is a function from the byte index; indices at or above
  \<open>BITMAP_SIZE\<close> are outside the array, and \<open>pmm_free\<close>, the one operation that does not
  bound its index, reports such an access as \<open>OutOfBounds\<close>. The record is open: the later
  components of the kernel state extend it, and every operation here works on the extensions.
\<close>

section \<open>State and operations\<close>

record pmm =
  bitmap :: "nat \<Rightarrow> u8"
  total_frames :: u64
  free_frames :: u64

abbreviation (input) MAX_FRAMES :: nat where "MAX_FRAMES \<equiv> 1048576"
abbreviation (input) BITMAP_SIZE :: nat where "BITMAP_SIZE \<equiv> 131072"

definition bm_set :: "nat \<Rightarrow> 'a pmm_scheme \<Rightarrow> 'a pmm_scheme" where
  "bm_set frame s =
     s\<lparr>bitmap := (bitmap s)(frame div 8 := bitmap s (frame div 8) OR push_bit (frame mod 8) 1)\<rparr>"

definition bm_clear :: "nat \<Rightarrow> 'a pmm_scheme \<Rightarrow> 'a pmm_scheme" where
  "bm_clear frame s =
     s\<lparr>bitmap := (bitmap s)(frame div 8 := bitmap s (frame div 8) AND NOT (push_bit (frame mod 8) 1))\<rparr>"

definition bm_test :: "nat \<Rightarrow> 'a pmm_scheme \<Rightarrow> bool" where
  "bm_test frame s \<longleftrightarrow> bitmap s (frame div 8) AND push_bit (frame mod 8) 1 \<noteq> 0"

text \<open>The loop body of \<open>pmm_init\<close> and the loop body of \<open>pmm_reserve\<close>.\<close>

definition pmm_release_frame :: "nat \<Rightarrow> 'a pmm_scheme \<Rightarrow> 'a pmm_scheme" where
  "pmm_release_frame f s = (bm_clear f s)\<lparr>free_frames := free_frames s + 1\<rparr>"

definition pmm_take_frame :: "nat \<Rightarrow> 'a pmm_scheme \<Rightarrow> 'a pmm_scheme" where
  "pmm_take_frame f s =
     (if \<not> bm_test f s then (bm_set f s)\<lparr>free_frames := free_frames s - 1\<rparr> else s)"

definition pmm_init :: "u64 \<Rightarrow> 'a pmm_scheme \<Rightarrow> 'a pmm_scheme" where
  "pmm_init mem_upper_kb s =
     (let total0 = (mem_upper_kb * 1024) div PAGE_SIZE;
          total = (if total0 > of_nat MAX_FRAMES then of_nat MAX_FRAMES else total0);
          s1 = s\<lparr>total_frames := total,
                 bitmap := (\<lambda>i. if i < BITMAP_SIZE then 0xFF else bitmap s i),
                 free_frames := 0\<rparr>;
          first_free = ALIGN_UP 0x100000 PAGE_SIZE div PAGE_SIZE
      in fold pmm_release_frame [unat first_free ..< unat total] s1)"

definition pmm_reserve :: "u64 \<Rightarrow> u64 \<Rightarrow> 'a pmm_scheme \<Rightarrow> 'a pmm_scheme" where
  "pmm_reserve base len s =
     (let first = ALIGN_DOWN base PAGE_SIZE div PAGE_SIZE;
          last = ALIGN_UP (base + len) PAGE_SIZE div PAGE_SIZE
      in fold pmm_take_frame [unat first ..< min (unat last) (unat (total_frames s))] s)"

text \<open>The scan of \<open>pmm_alloc\<close>: the first clear bit of the first byte that is not \<open>0xFF\<close>.\<close>

function pmm_scan :: "nat \<Rightarrow> (nat \<Rightarrow> u8) \<Rightarrow> nat option" where
  "pmm_scan i bm =
     (if i < BITMAP_SIZE then
        if bm i = 0xFF then pmm_scan (Suc i) bm
        else case find_idx (\<lambda>b. bm i AND push_bit b 1 = 0) [0..<8] of
               Some b \<Rightarrow> Some (i * 8 + b)
             | None \<Rightarrow> pmm_scan (Suc i) bm
      else None)"
  by pat_completeness auto
termination
  by (relation "measure (\<lambda>(i, bm). BITMAP_SIZE - i)") auto

declare pmm_scan.simps [simp del]

definition pmm_alloc :: "'a pmm_scheme \<Rightarrow> u64 \<times> 'a pmm_scheme" where
  "pmm_alloc s =
     (case pmm_scan 0 (bitmap s) of
        None \<Rightarrow> (0, s)
      | Some frame \<Rightarrow>
          if of_nat frame \<ge> total_frames s then (0, s)
          else (of_nat frame * PAGE_SIZE, (bm_set frame s)\<lparr>free_frames := free_frames s - 1\<rparr>))"

definition pmm_free :: "u64 \<Rightarrow> 'a pmm_scheme \<Rightarrow> 'a pmm_scheme res" where
  "pmm_free frame s =
     (let f = unat (frame div PAGE_SIZE)
      in if f div 8 \<ge> BITMAP_SIZE then Inl OutOfBounds
         else if \<not> bm_test f s then Inr s
         else Inr ((bm_clear f s)\<lparr>free_frames := free_frames s + 1\<rparr>))"

definition pmm_free_pages :: "'a pmm_scheme \<Rightarrow> u64" where
  "pmm_free_pages s = free_frames s"

definition pmm_total_pages :: "'a pmm_scheme \<Rightarrow> u64" where
  "pmm_total_pages s = total_frames s"

section \<open>The abstract view: the set of free frames\<close>

definition frame_used :: "(nat \<Rightarrow> u8) \<Rightarrow> nat \<Rightarrow> bool" where
  "frame_used bm f \<longleftrightarrow> bit (bm (f div 8)) (f mod 8)"

definition free_set :: "'a pmm_scheme \<Rightarrow> nat set" where
  "free_set s = {f. f < MAX_FRAMES \<and> \<not> frame_used (bitmap s) f}"

text \<open>
  The counters agree with the bitmap, frame 0 is never free (its address is the null pointer
  that reports exhaustion) and no frame beyond the installed memory is.
\<close>

definition pmm_inv :: "'a pmm_scheme \<Rightarrow> bool" where
  "pmm_inv s \<longleftrightarrow>
     unat (total_frames s) \<le> MAX_FRAMES \<and>
     free_set s \<subseteq> {1..<unat (total_frames s)} \<and>
     unat (free_frames s) = card (free_set s)"

lemma finite_free_set [simp]: "finite (free_set s)"
  by (simp add: free_set_def)

lemma card_free_set_le: "card (free_set s) \<le> MAX_FRAMES"
proof -
  have "free_set s \<subseteq> {..<MAX_FRAMES}" by (auto simp: free_set_def)
  from card_mono [OF _ this] show ?thesis by simp
qed

lemma and_push_bit_1_eq_0: "((w :: u8) AND 2 ^ b = 0) \<longleftrightarrow> \<not> bit w b"
  by (rule and_exp_eq_0_iff_not_bit)

lemma bm_test_iff: "bm_test f s \<longleftrightarrow> frame_used (bitmap s) f"
  by (simp add: bm_test_def frame_used_def and_push_bit_1_eq_0)

lemma same_bit_index: "(f :: nat) div 8 = g div 8 \<Longrightarrow> f mod 8 = g mod 8 \<Longrightarrow> f = g"
  by (metis div_mult_mod_eq)

lemma frame_used_bm_set [simp]:
  "frame_used (bitmap (bm_set f s)) g \<longleftrightarrow> g = f \<or> frame_used (bitmap s) g"
  by (auto simp: frame_used_def bm_set_def bit_simps dest: same_bit_index)

lemma frame_used_bm_clear [simp]:
  "frame_used (bitmap (bm_clear f s)) g \<longleftrightarrow> g \<noteq> f \<and> frame_used (bitmap s) g"
  by (auto simp: frame_used_def bm_clear_def bit_simps dest: same_bit_index)

lemma free_set_bm_set: "free_set (bm_set f s) = free_set s - {f}"
  by (auto simp: free_set_def)

lemma free_set_bm_clear: "f < MAX_FRAMES \<Longrightarrow> free_set (bm_clear f s) = insert f (free_set s)"
  by (auto simp: free_set_def)

lemma free_set_updates [simp]:
  "free_set (s\<lparr>free_frames := x\<rparr>) = free_set s"
  "free_set (s\<lparr>total_frames := y\<rparr>) = free_set s"
  by (simp_all add: free_set_def)

lemma bm_frame [simp, frame_simps]:
  "total_frames (bm_set f s) = total_frames s" "free_frames (bm_set f s) = free_frames s"
  "total_frames (bm_clear f s) = total_frames s" "free_frames (bm_clear f s) = free_frames s"
  by (simp_all add: bm_set_def bm_clear_def)

subsection \<open>The scan finds the least free frame\<close>

lemma byte_full_iff: "(w :: u8) = 0xFF \<longleftrightarrow> (\<forall>b < 8. bit w b)"
proof
  assume "\<forall>b < 8. bit w b"
  then have "w = mask 8"
    by (intro bit_word_eqI) (auto simp: bit_simps)
  then show "w = 0xFF" by (simp add: mask_eq_exp_minus_1)
next
  assume "w = 0xFF"
  then have "w = mask 8" by (simp add: mask_eq_exp_minus_1)
  then show "\<forall>b < 8. bit w b" by (simp add: bit_simps)
qed

lemma pmm_scan_SomeD:
  assumes "pmm_scan i bm = Some f" and "\<forall>g < i * 8. frame_used bm g"
  shows "f < MAX_FRAMES \<and> \<not> frame_used bm f \<and> (\<forall>g < f. frame_used bm g)"
  using assms
proof (induction i bm rule: pmm_scan.induct)
  case (1 i bm)
  have step: "\<forall>g < Suc i * 8. frame_used bm g" if "\<forall>b < 8. bit (bm i) b"
  proof (intro allI impI)
    fix g assume "g < Suc i * 8"
    then consider "g < i * 8" | "g div 8 = i" by fastforce
    then show "frame_used bm g"
      using "1.prems"(2) that by cases (auto simp: frame_used_def)
  qed
  have i: "i < BITMAP_SIZE"
    using "1.prems"(1) by (simp add: pmm_scan.simps [of i] split: if_splits)
  show ?case
  proof (cases "bm i = 0xFF")
    case True
    with "1.prems"(1) i have "pmm_scan (Suc i) bm = Some f"
      by (simp add: pmm_scan.simps [of i])
    moreover have "\<forall>g < Suc i * 8. frame_used bm g"
      using True step byte_full_iff by blast
    ultimately show ?thesis
      using "1.IH"(1) [OF i True] by blast
  next
    case False
    show ?thesis
    proof (cases "find_idx (\<lambda>b. bm i AND push_bit b 1 = 0) [0..<8]")
      case None
      then have "\<forall>b < 8. bit (bm i) b"
        by (auto simp: find_idx_None_iff and_push_bit_1_eq_0)
      with False show ?thesis by (simp add: byte_full_iff)
    next
      case (Some b)
      then have b: "b < 8" "\<not> bit (bm i) b" "\<And>c. c < b \<Longrightarrow> bit (bm i) c"
        using find_idx_SomeD [OF Some] by (auto simp: and_push_bit_1_eq_0)
      from "1.prems"(1) i False Some have f: "f = i * 8 + b"
        by (simp add: pmm_scan.simps [of i])
      have "frame_used bm g" if "g < f" for g
      proof (cases "g < i * 8")
        case True
        with "1.prems"(2) show ?thesis by blast
      next
        case False
        with that f obtain c where "g = i * 8 + c" and "c < b"
          by (metis add_less_cancel_left le_add_diff_inverse linorder_not_less)
        with b(1,3) show ?thesis by (simp add: frame_used_def)
      qed
      with f b i show ?thesis by (simp add: frame_used_def)
    qed
  qed
qed

lemma pmm_scan_NoneD:
  assumes "pmm_scan i bm = None" and "i * 8 \<le> g" and "g < MAX_FRAMES"
  shows "frame_used bm g"
  using assms
proof (induction i bm rule: pmm_scan.induct)
  case (1 i bm)
  from "1.prems"(2,3) have i: "i < BITMAP_SIZE" by linarith
  have full: "\<forall>b < 8. bit (bm i) b"
    using "1.prems"(1) i
    by (auto simp: pmm_scan.simps [of i] byte_full_iff find_idx_None_iff and_push_bit_1_eq_0
        split: if_splits option.splits)
  then have "pmm_scan (Suc i) bm = None"
    using "1.prems"(1) i by (simp add: pmm_scan.simps [of i] flip: byte_full_iff)
  moreover have "frame_used bm g" if "\<not> Suc i * 8 \<le> g"
  proof -
    from that "1.prems"(2) have "g div 8 = i" by simp
    with full show ?thesis by (simp add: frame_used_def)
  qed
  ultimately show ?case
    using "1.IH"(1) [OF i] "1.prems"(3) full byte_full_iff by blast
qed

lemma pmm_scan_free_set:
  "pmm_scan 0 (bitmap s) = (if free_set s = {} then None else Some (Min (free_set s)))"
proof (cases "pmm_scan 0 (bitmap s)")
  case None
  then have "free_set s = {}"
    using pmm_scan_NoneD [OF None] by (auto simp: free_set_def)
  with None show ?thesis by simp
next
  case (Some f)
  then have f: "f < MAX_FRAMES" "\<not> frame_used (bitmap s) f" "\<And>g. g < f \<Longrightarrow> frame_used (bitmap s) g"
    using pmm_scan_SomeD [OF Some] by auto
  then have "f \<in> free_set s" by (simp add: free_set_def)
  moreover have "\<And>g. g \<in> free_set s \<Longrightarrow> f \<le> g"
    using f(3) by (metis (mono_tags) free_set_def mem_Collect_eq not_le)
  ultimately show ?thesis
    using Some by (auto intro!: Min_eqI [symmetric])
qed

section \<open>The allocator interface\<close>

text \<open>
  What the clients of the allocator (page tables, kernel heap, shared memory, program loading)
  rely on: allocation takes one frame out of a finite set of available frames and returns its
  non-null address, or reports exhaustion by the null pointer exactly when the set is empty;
  freeing an owned frame puts it back.
\<close>

locale frame_allocator =
  fixes alloc :: "'s \<Rightarrow> u64 \<times> 's"
    and free :: "u64 \<Rightarrow> 's \<Rightarrow> 's res"
    and avail :: "'s \<Rightarrow> nat set"
    and owned :: "'s \<Rightarrow> nat set"
    and invar :: "'s \<Rightarrow> bool"
  assumes avail_owned: "invar s \<Longrightarrow> avail s \<subseteq> owned s"
    and owned_range: "invar s \<Longrightarrow> owned s \<subseteq> {1..<MAX_FRAMES}"
    and alloc_empty: "invar s \<Longrightarrow> avail s = {} \<Longrightarrow> alloc s = (0, s)"
    and alloc_some: "invar s \<Longrightarrow> avail s \<noteq> {} \<Longrightarrow>
          \<exists>f s'. alloc s = (of_nat f * PAGE_SIZE, s') \<and> f \<in> avail s \<and>
                 avail s' = avail s - {f} \<and> owned s' = owned s \<and> invar s'"
    and free_owned: "invar s \<Longrightarrow> f \<in> owned s \<Longrightarrow> f \<notin> avail s \<Longrightarrow>
          \<exists>s'. free (of_nat f * PAGE_SIZE) s = Inr s' \<and>
               avail s' = insert f (avail s) \<and> owned s' = owned s \<and> invar s'"
begin

lemma frame_addr:
  assumes "f < MAX_FRAMES"
  shows "unat (of_nat f * PAGE_SIZE :: u64) = f * 4096"
  using assms by (simp add: unat_word_ariths unat_of_nat)

lemma alloc_cases:
  assumes "invar s"
  obtains (empty) "avail s = {}" and "alloc s = (0, s)"
    | (frame) f s' where "alloc s = (of_nat f * PAGE_SIZE, s')" and "f \<in> avail s" and "0 < f"
        and "f < MAX_FRAMES" and "avail s' = avail s - {f}" and "owned s' = owned s" and "invar s'"
proof (cases "avail s = {}")
  case True
  with assms show ?thesis by (intro empty) (simp_all add: alloc_empty)
next
  case False
  from alloc_some [OF assms False] obtain f s' where
    fs: "alloc s = (of_nat f * PAGE_SIZE, s')" "f \<in> avail s" "avail s' = avail s - {f}"
      "owned s' = owned s" "invar s'"
    by blast
  have "f \<in> {1..<MAX_FRAMES}"
    using fs(2) avail_owned [OF assms] owned_range [OF assms] by blast
  then have "0 < f" and "f < MAX_FRAMES" by auto
  with fs show ?thesis by (intro frame)
qed

lemma alloc_null_iff:
  assumes "invar s"
  shows "fst (alloc s) = 0 \<longleftrightarrow> avail s = {}"
  using assms
proof (cases rule: alloc_cases)
  case empty
  then show ?thesis by simp
next
  case (frame f s')
  then have "unat (fst (alloc s)) = f * 4096"
    using frame_addr by simp
  with frame show ?thesis by auto
qed

lemma alloc_then_free:
  assumes "invar s" and "avail s \<noteq> {}"
  shows "\<exists>a s1 s2. alloc s = (a, s1) \<and> free a s1 = Inr s2 \<and> avail s2 = avail s \<and> invar s2"
  using assms(1)
proof (cases rule: alloc_cases)
  case empty
  with assms show ?thesis by simp
next
  case (frame f s1)
  have "f \<in> owned s1" and "f \<notin> avail s1"
    using frame assms avail_owned by auto
  from free_owned [OF \<open>invar s1\<close> this] frame show ?thesis
    by (auto simp: insert_absorb)
qed

end

text \<open>A client that allocates \<open>n\<close> frames in a row.\<close>

fun alloc_list :: "('s \<Rightarrow> u64 \<times> 's) \<Rightarrow> nat \<Rightarrow> 's \<Rightarrow> u64 list \<times> 's" where
  "alloc_list alloc 0 s = ([], s)"
| "alloc_list alloc (Suc n) s =
     (case alloc s of (a, s1) \<Rightarrow> case alloc_list alloc n s1 of (as, s2) \<Rightarrow> (a # as, s2))"

context frame_allocator
begin

lemma alloc_list_frames:
  assumes "invar s" and "finite (avail s)" and "n \<le> card (avail s)"
  shows "\<exists>fs s'. alloc_list alloc n s = (map (\<lambda>f. of_nat f * PAGE_SIZE) fs, s') \<and>
           length fs = n \<and> distinct fs \<and> set fs \<subseteq> avail s \<and> avail s' = avail s - set fs \<and> invar s'"
  using assms
proof (induction n arbitrary: s)
  case 0
  then show ?case by simp
next
  case (Suc n)
  show ?case
    using Suc.prems(1)
  proof (cases rule: alloc_cases)
    case empty
    with Suc.prems show ?thesis by simp
  next
    case (frame f s1)
    have "n \<le> card (avail s1)"
      using frame Suc.prems by simp
    with frame Suc.prems Suc.IH [of s1] obtain fs s2 where
      fs: "alloc_list alloc n s1 = (map (\<lambda>f. of_nat f * PAGE_SIZE) fs, s2)" "length fs = n"
        "distinct fs" "set fs \<subseteq> avail s1" "avail s2 = avail s1 - set fs" "invar s2"
      by auto
    with frame have "alloc_list alloc (Suc n) s = (map (\<lambda>f. of_nat f * PAGE_SIZE) (f # fs), s2)"
      by simp
    moreover have "distinct (f # fs)" and "set (f # fs) \<subseteq> avail s" and "avail s2 = avail s - set (f # fs)"
      using frame fs by auto
    ultimately show ?thesis
      using fs by (metis length_Cons)
  qed
qed

lemma alloc_list_distinct:
  assumes "invar s" and "finite (avail s)" and "n \<le> card (avail s)"
  shows "distinct (fst (alloc_list alloc n s))" and "0 \<notin> set (fst (alloc_list alloc n s))"
proof -
  from alloc_list_frames [OF assms] obtain fs s' where
    fs: "alloc_list alloc n s = (map (\<lambda>f. of_nat f * PAGE_SIZE) fs, s')" "distinct fs" "set fs \<subseteq> avail s"
    by blast
  have range: "f \<in> {1..<MAX_FRAMES}" if "f \<in> set fs" for f
    using that fs(3) avail_owned [OF assms(1)] owned_range [OF assms(1)] by blast
  have "inj_on (\<lambda>f. of_nat f * PAGE_SIZE :: u64) (set fs)"
  proof (rule inj_onI)
    fix f g
    assume fg: "f \<in> set fs" "g \<in> set fs" and "of_nat f * PAGE_SIZE = (of_nat g * PAGE_SIZE :: u64)"
    then have "unat (of_nat f * PAGE_SIZE :: u64) = unat (of_nat g * PAGE_SIZE :: u64)"
      by simp
    then show "f = g"
      using range [OF fg(1)] range [OF fg(2)] by (simp add: frame_addr)
  qed
  with fs(1,2) show "distinct (fst (alloc_list alloc n s))"
    by (simp add: distinct_map)
  have "of_nat f * PAGE_SIZE \<noteq> (0 :: u64)" if "f \<in> set fs" for f
  proof
    assume "of_nat f * PAGE_SIZE = (0 :: u64)"
    then have "unat (of_nat f * PAGE_SIZE :: u64) = 0" by simp
    then show False using range [OF that] by (simp add: frame_addr)
  qed
  with fs(1) show "0 \<notin> set (fst (alloc_list alloc n s))"
    by auto
qed

end

section \<open>The bitmap allocator implements the interface\<close>

lemma pmm_inv_free_bounds:
  "pmm_inv s \<Longrightarrow> f \<in> free_set s \<Longrightarrow> 0 < f \<and> f < unat (total_frames s) \<and> f < MAX_FRAMES"
  by (auto simp: pmm_inv_def)

lemma free_frames_dec:
  assumes "pmm_inv s" and "f \<in> free_set s"
  shows "unat (free_frames s - 1) = card (free_set s - {f})"
proof -
  have "unat (free_frames s) = Suc (card (free_set s - {f}))"
    using assms card_Suc_Diff1 [OF finite_free_set assms(2)] by (simp add: pmm_inv_def)
  then show ?thesis
    using unat_minus_one [of "free_frames s"] by (metis diff_Suc_1 nat.distinct(1) unat_0)
qed

lemma free_frames_inc:
  assumes "pmm_inv s" and "f \<notin> free_set s"
  shows "unat (free_frames s + 1) = card (insert f (free_set s))"
  using assms card_free_set_le [of s]
  by (simp add: pmm_inv_def unat_word_ariths)

lemma pmm_alloc_empty: "free_set s = {} \<Longrightarrow> pmm_alloc s = (0, s)"
  by (simp add: pmm_alloc_def pmm_scan_free_set)

lemma pmm_alloc_frame:
  assumes "pmm_inv s" and "free_set s \<noteq> {}"
  shows "pmm_alloc s = (of_nat (Min (free_set s)) * PAGE_SIZE,
           (bm_set (Min (free_set s)) s)\<lparr>free_frames := free_frames s - 1\<rparr>)"
proof -
  have "Min (free_set s) \<in> free_set s"
    using assms by simp
  from pmm_inv_free_bounds [OF assms(1) this]
  have "of_nat (Min (free_set s)) < total_frames s"
    by (simp add: word_less_nat_alt unat_of_nat)
  with assms(2) show ?thesis
    by (simp add: pmm_alloc_def pmm_scan_free_set not_le [symmetric])
qed

lemma pmm_take_frame_free_set: "free_set (pmm_take_frame f s) = free_set s - {f}"
  by (auto simp: pmm_take_frame_def free_set_bm_set bm_test_iff) (auto simp: free_set_def)

lemma pmm_take_frame_inv:
  assumes "pmm_inv s" and "f < MAX_FRAMES"
  shows "pmm_inv (pmm_take_frame f s)"
proof (cases "f \<in> free_set s")
  case True
  then have "\<not> bm_test f s" by (simp add: free_set_def bm_test_iff)
  with assms free_frames_dec [OF assms(1) True] show ?thesis
    by (auto simp: pmm_inv_def pmm_take_frame_def free_set_bm_set)
next
  case False
  with assms have "bm_test f s" by (simp add: free_set_def bm_test_iff)
  with assms show ?thesis by (simp add: pmm_take_frame_def)
qed

lemma pmm_release_frame_inv:
  assumes "pmm_inv s" and "f \<in> {1..<unat (total_frames s)}" and "f \<notin> free_set s"
  shows "pmm_inv (pmm_release_frame f s)" and "free_set (pmm_release_frame f s) = insert f (free_set s)"
proof -
  have "f < MAX_FRAMES" using assms by (auto simp: pmm_inv_def)
  then show fs: "free_set (pmm_release_frame f s) = insert f (free_set s)"
    by (simp add: pmm_release_frame_def free_set_bm_clear)
  show "pmm_inv (pmm_release_frame f s)"
    using assms free_frames_inc [OF assms(1,3)] fs
    by (auto simp: pmm_inv_def pmm_release_frame_def)
qed

interpretation pa: frame_allocator pmm_alloc pmm_free free_set
  "\<lambda>s. {1..<unat (total_frames s)}" pmm_inv
proof
  fix s :: "'a pmm_scheme"
  assume inv: "pmm_inv s"
  show "free_set s \<subseteq> {1..<unat (total_frames s)}" and "{1..<unat (total_frames s)} \<subseteq> {1..<MAX_FRAMES}"
    using inv by (auto simp: pmm_inv_def)
  show "pmm_alloc s = (0, s)" if "free_set s = {}"
    using that by (rule pmm_alloc_empty)
  show "\<exists>f s'. pmm_alloc s = (of_nat f * PAGE_SIZE, s') \<and> f \<in> free_set s \<and>
          free_set s' = free_set s - {f} \<and> {1..<unat (total_frames s')} = {1..<unat (total_frames s)} \<and>
          pmm_inv s'"
    if ne: "free_set s \<noteq> {}"
  proof -
    let ?f = "Min (free_set s)" and ?s' = "(bm_set (Min (free_set s)) s)\<lparr>free_frames := free_frames s - 1\<rparr>"
    have f: "?f \<in> free_set s" using ne by simp
    have "pmm_inv ?s'"
      using inv free_frames_dec [OF inv f] by (auto simp: pmm_inv_def free_set_bm_set)
    with pmm_alloc_frame [OF inv ne] f show ?thesis
      by (intro exI [of _ ?f] exI [of _ ?s']) (simp add: free_set_bm_set)
  qed
  show "\<exists>s'. pmm_free (of_nat f * PAGE_SIZE) s = Inr s' \<and> free_set s' = insert f (free_set s) \<and>
          {1..<unat (total_frames s')} = {1..<unat (total_frames s)} \<and> pmm_inv s'"
    if f: "f \<in> {1..<unat (total_frames s)}" "f \<notin> free_set s" for f
  proof -
    have lt: "f < MAX_FRAMES" using f inv by (auto simp: pmm_inv_def)
    then have "unat ((of_nat f * PAGE_SIZE :: u64) div PAGE_SIZE) = f"
      by (simp add: unat_div unat_word_ariths unat_of_nat)
    moreover have "bm_test f s" using f lt by (simp add: free_set_def bm_test_iff)
    ultimately have "pmm_free (of_nat f * PAGE_SIZE) s = Inr (pmm_release_frame f s)"
      using lt by (simp add: pmm_free_def pmm_release_frame_def)
    with pmm_release_frame_inv [OF inv f] show ?thesis
      by (auto simp: pmm_release_frame_def)
  qed
qed

section \<open>Initialisation and reservation\<close>

lemma pmm_release_frames:
  assumes "pmm_inv s" and "distinct fs" and "set fs \<subseteq> {1..<unat (total_frames s)} - free_set s"
  shows "pmm_inv (fold pmm_release_frame fs s) \<and>
         free_set (fold pmm_release_frame fs s) = free_set s \<union> set fs"
  using assms
proof (induction fs arbitrary: s)
  case Nil
  then show ?case by simp
next
  case (Cons f fs)
  have f: "f \<in> {1..<unat (total_frames s)}" "f \<notin> free_set s"
    using Cons.prems(3) by auto
  note step = pmm_release_frame_inv [OF Cons.prems(1) f]
  have "total_frames (pmm_release_frame f s) = total_frames s"
    by (simp add: pmm_release_frame_def)
  then have "set fs \<subseteq> {1..<unat (total_frames (pmm_release_frame f s))} - free_set (pmm_release_frame f s)"
    using Cons.prems(2,3) step(2) by auto
  with Cons.IH [OF step(1)] Cons.prems(2) step(2) show ?case
    by auto
qed

lemma pmm_take_frames:
  assumes "pmm_inv s" and "set fs \<subseteq> {..<MAX_FRAMES}"
  shows "pmm_inv (fold pmm_take_frame fs s) \<and>
         free_set (fold pmm_take_frame fs s) = free_set s - set fs"
  using assms
  by (induction fs arbitrary: s) (auto simp: pmm_take_frame_inv pmm_take_frame_free_set)

lemma all_used_free_set:
  "free_set (s\<lparr>total_frames := t, bitmap := (\<lambda>i. if i < BITMAP_SIZE then 0xFF else b i), free_frames := n\<rparr>) = {}"
proof -
  have "bit (0xFF :: u8) (f mod 8)" for f :: nat
    using byte_full_iff [of "0xFF"] by simp
  then show ?thesis
    by (auto simp: free_set_def frame_used_def)
qed

definition pmm_frames_of_kb :: "u64 \<Rightarrow> nat" where
  "pmm_frames_of_kb kb = min (unat kb div 4) MAX_FRAMES"

lemma pmm_total_of_kb:
  assumes "unat kb * 1024 < 2 ^ 64"
  shows "unat (if (kb * 1024) div 4096 > (of_nat MAX_FRAMES :: u64) then of_nat MAX_FRAMES
               else (kb * 1024) div 4096) = pmm_frames_of_kb kb"
proof -
  have "unat (kb * 1024) = unat kb * 1024"
    using assms by (simp add: unat_word_ariths)
  then have "unat ((kb * 1024) div 4096) = unat kb div 4"
    by (simp add: unat_div)
  then show ?thesis
    by (simp add: pmm_frames_of_kb_def word_less_nat_alt min_def)
qed

text \<open>A machine with 258 frames, for the witnesses.\<close>

definition pmm_demo :: pmm where
  "pmm_demo = pmm_init 1032 \<lparr>bitmap = (\<lambda>_. 0), total_frames = 0, free_frames = 0\<rparr>"

lemma pmm_init_state:
  assumes "unat kb * 1024 < 2 ^ 64"
  shows "pmm_inv (pmm_init kb s) \<and> free_set (pmm_init kb s) = {256..<pmm_frames_of_kb kb}"
proof -
  define t where "t = (if (kb * 1024) div 4096 > (of_nat MAX_FRAMES :: u64) then of_nat MAX_FRAMES
                       else (kb * 1024) div 4096)"
  define s1 where "s1 = s\<lparr>total_frames := t, bitmap := (\<lambda>i. if i < BITMAP_SIZE then 0xFF else bitmap s i),
                          free_frames := 0\<rparr>"
  have t: "unat t = pmm_frames_of_kb kb"
    unfolding t_def by (rule pmm_total_of_kb [OF assms])
  have "ALIGN_UP 0x100000 4096 div 4096 = 256"
    by (simp add: ALIGN_UP_def)
  then have init: "pmm_init kb s = fold pmm_release_frame [256..<unat t] s1"
    by (simp add: pmm_init_def Let_def s1_def t_def)
  have empty: "free_set s1 = {}"
    unfolding s1_def by (rule all_used_free_set)
  moreover have "total_frames s1 = t" and "free_frames s1 = 0"
    by (simp_all add: s1_def)
  ultimately have "pmm_inv s1"
    using t by (simp add: pmm_inv_def pmm_frames_of_kb_def)
  moreover have "set [256..<unat t] \<subseteq> {1..<unat (total_frames s1)} - free_set s1"
    using empty \<open>total_frames s1 = t\<close> by auto
  ultimately show ?thesis
    using pmm_release_frames [of s1 "[256..<unat t]"] empty t init by simp
qed

lemma pmm_demo_state: "pmm_inv pmm_demo" "free_set pmm_demo = {256..<258}"
  using pmm_init_state [of 1032 "\<lparr>bitmap = (\<lambda>_. 0), total_frames = 0, free_frames = 0\<rparr>"]
  by (simp_all add: pmm_demo_def pmm_frames_of_kb_def)

section \<open>Properties\<close>

text \<open>
  After \<open>pmm_init\<close> (for a memory size whose byte count fits in 64 bits) the allocator is
  consistent and exactly the frames from 1 MiB up to the end of memory (at most 4 GiB) are free.
\<close>

theorem pmm_init_frees_above_1M:
  assumes "unat kb * 1024 < 2 ^ 64"
  shows "pmm_inv (pmm_init kb s) \<and> free_set (pmm_init kb s) = {256..<pmm_frames_of_kb kb}"
  using assms by (rule pmm_init_state)

theorem pmm_init_frees_above_1M_witness:
  "unat (1032 :: u64) * 1024 < 2 ^ 64 \<and> pmm_inv pmm_demo \<and> free_set pmm_demo = {256..<258}"
proof -
  have "unat (1032 :: u64) * 1024 < 2 ^ 64" by simp
  from pmm_init_frees_above_1M [OF this] show ?thesis
    by (simp add: pmm_demo_def pmm_frames_of_kb_def)
qed

text \<open>
  C13: \<open>pmm_alloc\<close> returns the address of the lowest free frame, takes exactly that frame out of
  the free set and keeps the counters consistent; it returns the null pointer, and changes nothing,
  exactly when no frame is free.
\<close>

theorem pmm_alloc_takes_least_free:
  assumes "pmm_inv s"
  shows "case pmm_alloc s of (a, s') \<Rightarrow>
           pmm_inv s' \<and>
           (if free_set s = {} then a = 0 \<and> s' = s
            else a \<noteq> 0 \<and> unat a = Min (free_set s) * 4096 \<and>
                 free_set s' = free_set s - {Min (free_set s)} \<and>
                 unat (free_frames s') = unat (free_frames s) - 1)"
  using assms
proof (cases rule: pa.alloc_cases)
  case empty
  with assms show ?thesis by simp
next
  case (frame f s')
  then have ne: "free_set s \<noteq> {}" by auto
  have "a \<noteq> 0" if "a = fst (pmm_alloc s)" for a
    using pa.alloc_null_iff [OF assms] ne that by simp
  moreover have "unat (fst (pmm_alloc s)) = Min (free_set s) * 4096"
    using pmm_inv_free_bounds [OF assms] ne
    by (simp add: pmm_alloc_frame [OF assms] pa.frame_addr)
  moreover have "free_set s' = free_set s - {Min (free_set s)}"
  proof -
    have "s' = (bm_set (Min (free_set s)) s)\<lparr>free_frames := free_frames s - 1\<rparr>"
      using frame(1) pmm_alloc_frame [OF assms ne] by simp
    then show ?thesis by (simp add: free_set_bm_set)
  qed
  ultimately show ?thesis
    using frame ne assms by (simp add: pmm_inv_def)
qed

theorem pmm_alloc_takes_least_free_witness:
  "pmm_inv pmm_demo \<and> unat (fst (pmm_alloc pmm_demo)) = 256 * 4096 \<and>
   free_set (snd (pmm_alloc pmm_demo)) = {257}"
proof -
  have "Min {256..<258 :: nat} = 256" by (rule Min_eqI) auto
  moreover have "{256..<258} - {256 :: nat} = {257}" by auto
  ultimately show ?thesis
    using pmm_alloc_takes_least_free [OF pmm_demo_state(1)] pmm_demo_state
    by (simp add: case_prod_unfold)
qed

text \<open>
  The call \<open>pmm_reserve base len\<close> removes from the free set exactly the frames that overlap the byte
  range, and keeps the counters consistent.
\<close>

theorem pmm_reserve_removes_range:
  assumes "pmm_inv s" and "unat base + unat len + 4095 < 2 ^ 64"
  shows "pmm_inv (pmm_reserve base len s) \<and>
         free_set (pmm_reserve base len s) =
           free_set s - {f. unat base < (f + 1) * 4096 \<and> f * 4096 < unat base + unat len}"
proof -
  have first: "unat (ALIGN_DOWN base 4096 div 4096) = unat base div 4096"
    by (simp add: unat_div unat_align_down_page)
  have sum: "unat (base + len) = unat base + unat len"
    using assms(2) by (simp add: unat_word_ariths)
  with assms(2) have last: "unat (ALIGN_UP (base + len) 4096 div 4096) = (unat base + unat len + 4095) div 4096"
    using unat_align_up_page [of "base + len"] by (simp add: unat_div)
  let ?fs = "[unat base div 4096..<min ((unat base + unat len + 4095) div 4096) (unat (total_frames s))]"
  have "pmm_reserve base len s = fold pmm_take_frame ?fs s"
    by (simp add: pmm_reserve_def Let_def first last)
  moreover have "set ?fs \<subseteq> {..<MAX_FRAMES}"
    using assms(1) by (auto simp: pmm_inv_def)
  moreover have "free_set s - set ?fs =
      free_set s - {f. unat base < (f + 1) * 4096 \<and> f * 4096 < unat base + unat len}"
    using pmm_inv_free_bounds [OF assms(1)] by auto
  ultimately show ?thesis
    using pmm_take_frames [OF assms(1), of ?fs] by simp
qed

theorem pmm_reserve_removes_range_witness:
  "pmm_inv pmm_demo \<and> free_set (pmm_reserve 0x100800 16 pmm_demo) = {257}"
proof -
  have "unat (0x100800 :: u64) + unat (16 :: u64) + 4095 < 2 ^ 64" by simp
  from pmm_reserve_removes_range [OF pmm_demo_state(1) this]
  have "free_set (pmm_reserve 0x100800 16 pmm_demo) =
      {256..<258} - {f. 1050624 < (f + 1) * 4096 \<and> f * 4096 < (1050640 :: nat)}"
    by (simp add: pmm_demo_state(2))
  also have "\<dots> = {257}" by auto
  finally show ?thesis using pmm_demo_state(1) by simp
qed

text \<open>
  As long as the free count allows it, consecutive allocations return pairwise distinct,
  non-null frame addresses.
\<close>

theorem pmm_alloc_list_distinct:
  assumes "pmm_inv s" and "n \<le> unat (pmm_free_pages s)"
  shows "distinct (fst (alloc_list pmm_alloc n s)) \<and> 0 \<notin> set (fst (alloc_list pmm_alloc n s))"
proof -
  have "n \<le> card (free_set s)"
    using assms by (simp add: pmm_inv_def pmm_free_pages_def)
  with pa.alloc_list_distinct [OF assms(1)] show ?thesis by simp
qed

theorem pmm_alloc_list_distinct_witness:
  "pmm_inv pmm_demo \<and> 2 \<le> unat (pmm_free_pages pmm_demo) \<and>
   distinct (fst (alloc_list pmm_alloc 2 pmm_demo)) \<and> 0 \<notin> set (fst (alloc_list pmm_alloc 2 pmm_demo))"
proof -
  have n: "2 \<le> unat (pmm_free_pages pmm_demo)"
    using pmm_demo_state by (simp add: pmm_inv_def pmm_free_pages_def)
  from pmm_alloc_list_distinct [OF pmm_demo_state(1) this] n pmm_demo_state(1) show ?thesis by simp
qed

text \<open>
  Freeing the frame that was just allocated gives back the previous set of free frames.
\<close>

theorem pmm_alloc_free_roundtrip:
  assumes "pmm_inv s" and "free_set s \<noteq> {}"
  shows "\<exists>a s1 s2. pmm_alloc s = (a, s1) \<and> pmm_free a s1 = Inr s2 \<and> free_set s2 = free_set s \<and> pmm_inv s2"
  using assms by (rule pa.alloc_then_free)

theorem pmm_alloc_free_roundtrip_witness:
  "\<exists>a s1 s2. pmm_alloc pmm_demo = (a, s1) \<and> pmm_free a s1 = Inr s2 \<and>
     free_set s2 = {256..<258} \<and> pmm_inv s2"
proof -
  have "free_set pmm_demo \<noteq> {}" using pmm_demo_state by simp
  from pmm_alloc_free_roundtrip [OF pmm_demo_state(1) this] pmm_demo_state(2) show ?thesis by simp
qed

end
