(* ===== verification/Vmm.thy ===== *)
theory Vmm
  imports Pmm
begin

text \<open>
  \<^verbatim>\<open>src/mm/vmm.c\<close> and \<^verbatim>\<open>src/mm/uspace.c\<close>: four-level page tables in physical memory.
  Physical memory is byte addressed and reached through the boot identity map (\<^verbatim>\<open>P2V\<close> is the
  identity), so a table pointer is a physical address. \<^verbatim>\<open>invlpg\<close> only drops a TLB entry and
  changes no memory: it is not modelled. \<^verbatim>\<open>kpanic\<close> and a store through the null pointer that a
  walk returns are outcomes of type \<open>fault\<close>.
\<close>

section \<open>State and operations\<close>

record mach = pmm +
  pmem :: bmem
  cr3 :: u64
  current_pml4 :: u64

abbreviation (input) VMM_FLAG_PRESENT :: u64 where "VMM_FLAG_PRESENT \<equiv> 1"
abbreviation (input) VMM_FLAG_WRITE :: u64 where "VMM_FLAG_WRITE \<equiv> 2"
abbreviation (input) VMM_FLAG_USER :: u64 where "VMM_FLAG_USER \<equiv> 4"
abbreviation (input) VMM_FLAG_HUGE :: u64 where "VMM_FLAG_HUGE \<equiv> 0x80"
abbreviation (input) PAGE_MASK :: u64 where "PAGE_MASK \<equiv> NOT (PAGE_SIZE - 1)"

definition PML4_IDX :: "u64 \<Rightarrow> u64" where "PML4_IDX va = drop_bit 39 va AND 0x1FF"
definition PDPT_IDX :: "u64 \<Rightarrow> u64" where "PDPT_IDX va = drop_bit 30 va AND 0x1FF"
definition PD_IDX :: "u64 \<Rightarrow> u64" where "PD_IDX va = drop_bit 21 va AND 0x1FF"
definition PT_IDX :: "u64 \<Rightarrow> u64" where "PT_IDX va = drop_bit 12 va AND 0x1FF"

definition level_idx :: "nat \<Rightarrow> u64 \<Rightarrow> u64" where
  "level_idx level virt =
     (if level = 3 then PML4_IDX virt else if level = 2 then PDPT_IDX virt
      else if level = 1 then PD_IDX virt else 0)"

definition alloc_pt_frame :: "'a mach_scheme \<Rightarrow> (u64 \<times> 'a mach_scheme) res" where
  "alloc_pt_frame s =
     (case pmm_alloc s of (frame, s1) \<Rightarrow>
        if frame = 0 then Inl (Panic ''VMM: out of physical memory'')
        else Inr (frame, s1\<lparr>pmem := mem_fill (pmem s1) (unat frame) 4096 0\<rparr>))"

text \<open>The loop over the levels 3, 2, 1 of \<open>vmm_get_pte_pml4_phys\<close>; the result 0 is \<^verbatim>\<open>NULL\<close>.\<close>

fun vmm_walk :: "nat \<Rightarrow> u64 \<Rightarrow> u64 \<Rightarrow> bool \<Rightarrow> 'a mach_scheme \<Rightarrow> (u64 \<times> 'a mach_scheme) res" where
  "vmm_walk 0 table virt create s = Inr (table + PT_IDX virt * 8, s)"
| "vmm_walk (Suc l) table virt create s =
     (let a = table + level_idx (Suc l) virt * 8;
          entry = rd64 (pmem s) (unat a)
      in if entry AND VMM_FLAG_PRESENT = 0 then
           if \<not> create then Inr (0, s)
           else case alloc_pt_frame s of
                  Inl e \<Rightarrow> Inl e
                | Inr (frame, s1) \<Rightarrow>
                    vmm_walk l frame virt create
                      (s1\<lparr>pmem := wr64 (pmem s1) (unat a) (frame OR VMM_FLAG_PRESENT OR VMM_FLAG_WRITE)\<rparr>)
         else if Suc l \<noteq> 3 \<and> entry AND VMM_FLAG_HUGE \<noteq> 0 then Inr (0, s)
         else vmm_walk l (entry AND PAGE_MASK) virt create s)"

definition vmm_get_pte_pml4_phys :: "u64 \<Rightarrow> u64 \<Rightarrow> bool \<Rightarrow> 'a mach_scheme \<Rightarrow> (u64 \<times> 'a mach_scheme) res" where
  "vmm_get_pte_pml4_phys root_phys virt create s = vmm_walk 3 root_phys virt create s"

definition vmm_get_pte :: "u64 \<Rightarrow> u64 \<Rightarrow> bool \<Rightarrow> 'a mach_scheme \<Rightarrow> (u64 \<times> 'a mach_scheme) res" where
  "vmm_get_pte pml4 virt create s = vmm_get_pte_pml4_phys pml4 virt create s"

definition vmm_init :: "'a mach_scheme \<Rightarrow> 'a mach_scheme" where
  "vmm_init s = s\<lparr>current_pml4 := cr3 s\<rparr>"

text \<open>The store \<^verbatim>\<open>*pte = v\<close>: the callers that create tables do not test \<^verbatim>\<open>pte\<close> for null.\<close>

definition pte_store :: "u64 \<times> 'a mach_scheme \<Rightarrow> u64 \<Rightarrow> 'a mach_scheme res" where
  "pte_store ps v =
     (case ps of (pte, s) \<Rightarrow>
        if pte = 0 then Inl NullDeref else Inr (s\<lparr>pmem := wr64 (pmem s) (unat pte) v\<rparr>))"

definition vmm_map_in_pml4 :: "u64 \<Rightarrow> u64 \<Rightarrow> u64 \<Rightarrow> u64 \<Rightarrow> 'a mach_scheme \<Rightarrow> 'a mach_scheme res" where
  "vmm_map_in_pml4 pml4_phys virt phys flags s =
     (case vmm_get_pte_pml4_phys pml4_phys virt True s of
        Inl e \<Rightarrow> Inl e
      | Inr ps \<Rightarrow> pte_store ps ((phys AND PAGE_MASK) OR flags OR VMM_FLAG_PRESENT))"

definition vmm_map :: "u64 \<Rightarrow> u64 \<Rightarrow> u64 \<Rightarrow> 'a mach_scheme \<Rightarrow> 'a mach_scheme res" where
  "vmm_map virt phys flags s =
     (case vmm_get_pte (current_pml4 s) virt True s of
        Inl e \<Rightarrow> Inl e
      | Inr ps \<Rightarrow> pte_store ps ((phys AND PAGE_MASK) OR flags OR VMM_FLAG_PRESENT))"

definition vmm_unmap :: "u64 \<Rightarrow> 'a mach_scheme \<Rightarrow> 'a mach_scheme res" where
  "vmm_unmap virt s =
     (case vmm_get_pte (current_pml4 s) virt False s of
        Inl e \<Rightarrow> Inl e
      | Inr (pte, s1) \<Rightarrow> Inr (if pte \<noteq> 0 then s1\<lparr>pmem := wr64 (pmem s1) (unat pte) 0\<rparr> else s1))"

definition vmm_get_phys :: "u64 \<Rightarrow> 'a mach_scheme \<Rightarrow> u64 res" where
  "vmm_get_phys virt s =
     (case vmm_get_pte (current_pml4 s) virt False s of
        Inl e \<Rightarrow> Inl e
      | Inr (pte, s1) \<Rightarrow>
          let v = rd64 (pmem s1) (unat pte)
          in Inr (if pte = 0 \<or> v AND VMM_FLAG_PRESENT = 0 then 0
                  else (v AND PAGE_MASK) OR (virt AND (PAGE_SIZE - 1))))"

text \<open>
  The loop of \<open>vmm_unmap_range_pml4\<close>. Its guard depends on \<open>v\<close> only, and \<open>v\<close> runs through the
  page-aligned addresses modulo $2^{64}$: if it has not left the loop after $2^{52}$ iterations it
  has come back to where it started and never will, so the bound below loses nothing.
\<close>

fun vmm_unmap_loop :: "nat \<Rightarrow> u64 \<Rightarrow> u64 \<Rightarrow> u64 \<Rightarrow> 'a mach_scheme \<Rightarrow> 'a mach_scheme res" where
  "vmm_unmap_loop 0 pml4_phys v end s = Inl Diverges"
| "vmm_unmap_loop (Suc n) pml4_phys v end s =
     (if v < end then
        case vmm_get_pte_pml4_phys pml4_phys v False s of
          Inl e \<Rightarrow> Inl e
        | Inr (pte, s1) \<Rightarrow>
            vmm_unmap_loop n pml4_phys (v + PAGE_SIZE) end
              (if pte \<noteq> 0 \<and> rd64 (pmem s1) (unat pte) AND VMM_FLAG_PRESENT \<noteq> 0
               then s1\<lparr>pmem := wr64 (pmem s1) (unat pte) 0\<rparr> else s1)
      else Inr s)"

definition vmm_unmap_range_pml4 :: "u64 \<Rightarrow> u64 \<Rightarrow> u64 \<Rightarrow> 'a mach_scheme \<Rightarrow> 'a mach_scheme res" where
  "vmm_unmap_range_pml4 pml4_phys virt nbytes s =
     (if nbytes = 0 then Inr s
      else vmm_unmap_loop (Suc (2 ^ 52)) pml4_phys (virt AND PAGE_MASK) (virt + nbytes) s)"

fun vmm_lookup_walk :: "nat \<Rightarrow> u64 \<Rightarrow> u64 \<Rightarrow> bmem \<Rightarrow> u64" where
  "vmm_lookup_walk 0 table virt m =
     (let pte = rd64 m (unat (table + PT_IDX virt * 8))
      in if pte AND VMM_FLAG_PRESENT = 0 then 0
         else (pte AND PAGE_MASK) OR (virt AND (PAGE_SIZE - 1)))"
| "vmm_lookup_walk (Suc l) table virt m =
     (let entry = rd64 m (unat (table + level_idx (Suc l) virt * 8))
      in if entry AND VMM_FLAG_PRESENT = 0 then 0
         else if Suc l \<noteq> 3 \<and> entry AND VMM_FLAG_HUGE \<noteq> 0 then 0
         else vmm_lookup_walk l (entry AND PAGE_MASK) virt m)"

definition vmm_lookup_phys_pml4 :: "u64 \<Rightarrow> u64 \<Rightarrow> 'a mach_scheme \<Rightarrow> u64" where
  "vmm_lookup_phys_pml4 root_phys virt s = vmm_lookup_walk 3 root_phys virt (pmem s)"

definition uspace_create_pml4 :: "'a mach_scheme \<Rightarrow> u64 \<times> 'a mach_scheme" where
  "uspace_create_pml4 s =
     (case pmm_alloc s of (pg, s1) \<Rightarrow>
        if pg = 0 then (0, s1)
        else let m = mem_fill (pmem s1) (unat pg) 4096 0
             in (pg, s1\<lparr>pmem := wr64 m (unat (pg + 511 * 8)) (rd64 m (unat (cr3 s1 + 511 * 8)))\<rparr>))"

section \<open>Index arithmetic\<close>

lemma and_1FF_less: "unat ((x :: u64) AND 0x1FF) < 512"
proof -
  have "x AND 0x1FF = x mod 512"
    using take_bit_eq_mask [of 9 x] by (simp add: mask_eq_exp_minus_1 take_bit_eq_mod)
  then show ?thesis by (simp add: unat_mod)
qed

lemma PT_IDX_less: "unat (PT_IDX v) < 512"
  by (simp add: PT_IDX_def and_1FF_less)

lemma level_idx_less: "unat (level_idx l v) < 512"
  by (simp add: level_idx_def PML4_IDX_def PDPT_IDX_def PD_IDX_def and_1FF_less)

definition page_aligned :: "u64 \<Rightarrow> bool" where
  "page_aligned a \<longleftrightarrow> unat a mod 4096 = 0"

lemma page_aligned_mask [simp]: "page_aligned (x AND - 4096)"
  by (simp add: page_aligned_def unat_page_mask)

lemma page_aligned_bound:
  assumes "page_aligned a"
  shows "unat a + 4096 \<le> 2 ^ 64"
proof -
  from assms obtain k where k: "unat a = 4096 * k"
    unfolding page_aligned_def by (auto simp: mod_eq_0_iff_dvd elim: dvdE)
  with unat_less_2p64 [of a] have "k < 4503599627370496" by linarith
  with k show ?thesis by simp
qed

lemma unat_entry_addr:
  assumes "page_aligned t" and "unat i < 512"
  shows "unat (t + i * 8) = unat t + unat i * 8"
proof -
  have "unat (i * 8) = unat i * 8"
    using assms(2) by (simp add: unat_word_ariths)
  moreover have "unat t + unat i * 8 < 2 ^ 64"
    using page_aligned_bound [OF assms(1)] assms(2) by linarith
  ultimately show ?thesis by (simp add: unat_word_ariths)
qed

lemma entry_addr_eq_iff:
  fixes s t i j :: nat
  assumes "s mod 4096 = 0" and "t mod 4096 = 0" and "i < 512" and "j < 512"
  shows "s + i * 8 = t + j * 8 \<longleftrightarrow> s = t \<and> i = j"
proof -
  obtain k where k: "s = 4096 * k" using assms(1) by (auto simp: mod_eq_0_iff_dvd elim: dvdE)
  obtain l where l: "t = 4096 * l" using assms(2) by (auto simp: mod_eq_0_iff_dvd elim: dvdE)
  have "k = l" if "4096 * k + i * 8 = 4096 * l + j * 8"
    using that assms(3,4) by linarith
  then show ?thesis using k l by auto
qed

text \<open>Two table entries are either the same cell or disjoint cells.\<close>

lemma entry_disjoint:
  fixes s t i j :: nat
  assumes "s mod 4096 = 0" and "t mod 4096 = 0" and "i < 512" and "j < 512"
    and "\<not> (s = t \<and> i = j)"
  shows "s + i * 8 + 8 \<le> t + j * 8 \<or> t + j * 8 + 8 \<le> s + i * 8"
proof -
  obtain k where k: "s = 4096 * k" using assms(1) by (auto simp: mod_eq_0_iff_dvd elim: dvdE)
  obtain l where l: "t = 4096 * l" using assms(2) by (auto simp: mod_eq_0_iff_dvd elim: dvdE)
  have "s + i * 8 = (512 * k + i) * 8" and "t + j * 8 = (512 * l + j) * 8"
    using k l by simp_all
  moreover from this have "512 * k + i \<noteq> 512 * l + j"
    using entry_addr_eq_iff [OF assms(1-4)] assms(5) by auto
  ultimately show ?thesis
    using scaled_disjoint [of "512 * k + i" "512 * l + j" 8] by simp
qed

section \<open>The table tree\<close>

text \<open>
  The table that a path of indices leads to, through present entries that are not huge pages (the
  huge bit is not looked at in the top level, as in the code).
\<close>

fun table_at :: "bmem \<Rightarrow> nat \<Rightarrow> u64 \<Rightarrow> nat list \<Rightarrow> u64 option" where
  "table_at m l t [] = Some t"
| "table_at m 0 t (i # is) = None"
| "table_at m (Suc l) t (i # is) =
     (let e = rd64 m (unat t + i * 8)
      in if e AND VMM_FLAG_PRESENT = 0 \<or> (Suc l \<noteq> 3 \<and> e AND VMM_FLAG_HUGE \<noteq> 0) then None
         else table_at m l (e AND PAGE_MASK) is)"

definition idx_path :: "u64 \<Rightarrow> nat list" where
  "idx_path v = [unat (PML4_IDX v), unat (PDPT_IDX v), unat (PD_IDX v)]"

definition valid_path :: "nat list \<Rightarrow> bool" where
  "valid_path p \<longleftrightarrow> length p \<le> 3 \<and> (\<forall>i \<in> set p. i < 512)"

text \<open>
  A page table is well formed when its root is page aligned, every table on a path is non-null, lies
  in a frame the allocator does not consider free, and no frame is reached by two paths.
\<close>

definition pt_wf :: "u64 \<Rightarrow> 'a mach_scheme \<Rightarrow> bool" where
  "pt_wf root s \<longleftrightarrow>
     page_aligned root \<and>
     (\<forall>p t. valid_path p \<longrightarrow> table_at (pmem s) 3 root p = Some t \<longrightarrow>
        t \<noteq> 0 \<and> unat t div 4096 \<notin> free_set s) \<and>
     (\<forall>p q t. valid_path p \<longrightarrow> valid_path q \<longrightarrow>
        table_at (pmem s) 3 root p = Some t \<longrightarrow> table_at (pmem s) 3 root q = Some t \<longrightarrow> p = q)"

text \<open>The page-table entry of a virtual address, 0 when a table on the way is missing.\<close>

definition pte_of :: "u64 \<Rightarrow> u64 \<Rightarrow> bmem \<Rightarrow> u64" where
  "pte_of root v m =
     (case table_at m 3 root (idx_path v) of
        None \<Rightarrow> 0
      | Some t \<Rightarrow> rd64 m (unat t + unat (PT_IDX v) * 8))"

lemma table_at_aligned:
  "page_aligned t \<Longrightarrow> table_at m l t p = Some t' \<Longrightarrow> page_aligned t'"
  by (induction m l t p rule: table_at.induct) (auto simp: Let_def split: if_splits)

lemma table_at_length: "table_at m l t p = Some t' \<Longrightarrow> length p \<le> l"
  by (induction m l t p rule: table_at.induct) (auto simp: Let_def split: if_splits)

lemma table_at_append:
  "table_at m l t (p @ q) =
     (case table_at m l t p of None \<Rightarrow> None | Some t' \<Rightarrow> table_at m (l - length p) t' q)"
  by (induction m l t p rule: table_at.induct) (auto simp: Let_def split: option.splits)

lemma idx_path_valid [simp]: "valid_path (idx_path v)"
  by (auto simp: valid_path_def idx_path_def PML4_IDX_def PDPT_IDX_def PD_IDX_def and_1FF_less)

lemma valid_path_append: "valid_path (p @ q) \<Longrightarrow> valid_path p"
  by (auto simp: valid_path_def)

text \<open>
  A store to one entry of one table changes nothing on the paths that do not go through it: the
  stored cell differs from every cell those paths read.
\<close>

lemma table_at_cong:
  assumes "page_aligned t"
    and "\<And>q r i t'. p = q @ i # r \<Longrightarrow> table_at m l t q = Some t' \<Longrightarrow>
           rd64 m' (unat t' + i * 8) = rd64 m (unat t' + i * 8)"
  shows "table_at m' l t p = table_at m l t p"
  using assms
proof (induction m l t p rule: table_at.induct)
  case (3 m l t i "is")
  have "rd64 m' (unat t + i * 8) = rd64 m (unat t + i * 8)"
    using "3.prems"(2) [of "[]" i "is" t] by simp
  moreover have "table_at m' l (rd64 m (unat t + i * 8) AND - 4096) is =
      table_at m l (rd64 m (unat t + i * 8) AND - 4096) is"
    if "rd64 m (unat t + i * 8) AND 1 \<noteq> 0" and "Suc l \<noteq> 3 \<longrightarrow> rd64 m (unat t + i * 8) AND 0x80 = 0"
  proof -
    have "rd64 m' (unat t' + j * 8) = rd64 m (unat t' + j * 8)"
      if "is = q @ j # r" and "table_at m l (rd64 m (unat t + i * 8) AND - 4096) q = Some t'" for q r j t'
      using that \<open>rd64 m (unat t + i * 8) AND 1 \<noteq> 0\<close>
        \<open>Suc l \<noteq> 3 \<longrightarrow> rd64 m (unat t + i * 8) AND 0x80 = 0\<close>
      by (intro "3.prems"(2) [of "i # q" j r]) (auto simp: Let_def)
    with that show ?thesis
      by (intro "3.IH" [unfolded Let_def, simplified]) auto
  qed
  ultimately show ?case
    by (auto simp: Let_def)
qed simp_all

lemma pt_wf_table:
  assumes "pt_wf root s" and "valid_path p" and "table_at (pmem s) 3 root p = Some t"
  shows "page_aligned t" and "t \<noteq> 0" and "unat t div 4096 \<notin> free_set s" and "unat t mod 4096 = 0"
  using assms table_at_aligned [of root "pmem s" 3 p t] by (auto simp: pt_wf_def page_aligned_def)

lemma pt_wf_inj:
  assumes "pt_wf root s" and "valid_path p" and "valid_path q"
    and "table_at (pmem s) 3 root p = Some t" and "table_at (pmem s) 3 root q = Some t"
  shows "p = q"
  using assms unfolding pt_wf_def by blast

section \<open>Creating one table\<close>

definition new_table :: "u64 \<Rightarrow> nat \<Rightarrow> u64 \<Rightarrow> bmem \<Rightarrow> bmem" where
  "new_table t i frame m =
     wr64 (mem_fill m (unat frame) 4096 0) (unat t + i * 8) (frame OR VMM_FLAG_PRESENT OR VMM_FLAG_WRITE)"

lemma table_entry_bits:
  assumes "page_aligned frame"
  shows "(frame OR 1 OR 2) AND - 4096 = frame" and "(frame OR 1 OR 2) AND 1 \<noteq> (0 :: u64)"
    and "(frame OR 1 OR 2) AND 0x80 = 0"
proof -
  have "unat (frame AND - 4096) = unat frame"
    using assms by (auto simp: unat_page_mask page_aligned_def mod_eq_0_iff_dvd)
  then have f: "frame = push_bit 12 (drop_bit 12 frame)"
    by (simp add: unat_eq_unat_iff page_mask_push_drop)
  have low: "\<not> bit frame n" if "n < 12" for n
    using that by (subst f) (simp add: bit_simps)
  then have high: "12 \<le> n" if "bit frame n" for n
    using that by (meson not_le)
  have "(frame OR 1 OR 2) AND - 4096 = push_bit 12 (drop_bit 12 (frame OR 1 OR 2))"
    by (rule page_mask_push_drop)
  also have "\<dots> = frame"
    by (rule bit_word_eqI) (auto simp: bit_simps bit_1_iff high)
  finally show "(frame OR 1 OR 2) AND - 4096 = frame" .
  show "(frame OR 1 OR 2) AND 1 \<noteq> (0 :: u64)"
    by (auto dest!: arg_cong [where f = "\<lambda>w. bit w 0"] simp: bit_simps)
  have "(0x80 :: u64) = 2 ^ 7" by simp
  moreover have "\<not> bit (frame OR 1 OR 2) 7"
    using low by (simp add: bit_simps bit_1_iff)
  ultimately show "(frame OR 1 OR 2) AND 0x80 = 0"
    by (metis and_exp_eq_0_iff_not_bit)
qed

lemma new_table_cell_other:
  assumes "page_aligned t" and "page_aligned t'" and "page_aligned frame" and "i < 512" and "j < 512"
    and "t' \<noteq> frame" and "\<not> (t' = t \<and> j = i)"
  shows "rd64 (new_table t i frame m) (unat t' + j * 8) = rd64 m (unat t' + j * 8)"
proof -
  have "\<not> (unat t = unat t' \<and> i = j)"
    using assms(7) by (auto simp: unat_eq_unat_iff)
  then have "unat t + i * 8 + 8 \<le> unat t' + j * 8 \<or> unat t' + j * 8 + 8 \<le> unat t + i * 8"
    using assms(1,2,4,5) by (intro entry_disjoint) (auto simp: page_aligned_def)
  moreover have "unat frame + 4096 \<le> unat t' + j * 8 \<or> unat t' + j * 8 + 8 \<le> unat frame"
  proof -
    obtain k where k: "unat frame = 4096 * k"
      using assms(3) by (auto simp: page_aligned_def mod_eq_0_iff_dvd elim: dvdE)
    obtain l where l: "unat t' = 4096 * l"
      using assms(2) by (auto simp: page_aligned_def mod_eq_0_iff_dvd elim: dvdE)
    have "k \<noteq> l" using assms(6) k l by (auto simp flip: unat_eq_unat_iff)
    with scaled_disjoint [of k l 4096] k l assms(5) show ?thesis by (auto simp: mult.commute)
  qed
  ultimately show ?thesis
    by (simp add: new_table_def rd64_wr64_other rd64_mem_fill_other)
qed

lemma new_table_cell_zero:
  assumes "page_aligned t" and "page_aligned frame" and "t \<noteq> frame" and "i < 512" and "j < 512"
  shows "rd64 (new_table t i frame m) (unat frame + j * 8) = 0"
proof -
  have "unat t + i * 8 + 8 \<le> unat frame + j * 8 \<or> unat frame + j * 8 + 8 \<le> unat t + i * 8"
    using assms by (intro entry_disjoint) (auto simp: page_aligned_def unat_eq_unat_iff)
  then show ?thesis
    using assms(5) by (simp add: new_table_def rd64_wr64_other rd64_mem_fill_zero)
qed

lemma new_table_paths:
  assumes wf: "pt_wf root s" and p: "valid_path p" "length p < 3" "table_at (pmem s) 3 root p = Some t"
    and i: "i < 512" "rd64 (pmem s) (unat t + i * 8) AND 1 = 0"
    and frame: "page_aligned frame" "unat frame div 4096 \<in> free_set s"
    and q: "valid_path q"
  shows "table_at (new_table t i frame (pmem s)) 3 root q =
           (if q = p @ [i] then Some frame else table_at (pmem s) 3 root q)"
proof -
  let ?m = "pmem s" and ?m' = "new_table t i frame (pmem s)"
  have t: "page_aligned t" "t \<noteq> frame"
    using pt_wf_table [OF wf p(1,3)] frame(2) by auto
  have root: "page_aligned root" using wf by (simp add: pt_wf_def)
  have cong: "table_at ?m' 3 root q = table_at ?m 3 root q"
    if vq: "valid_path q" and np: "\<And>r. q \<noteq> p @ i # r" for q
  proof (rule table_at_cong [OF root])
    fix q' r j t'
    assume split: "q = q' @ j # r" and t': "table_at ?m 3 root q' = Some t'"
    have v: "valid_path q'" and j: "j < 512"
      using vq split by (auto simp: valid_path_def)
    note tab = pt_wf_table [OF wf v t']
    have "\<not> (t' = t \<and> j = i)"
      using pt_wf_inj [OF wf v p(1) t'] p(3) np split by auto
    with tab frame t i j show "rd64 ?m' (unat t' + j * 8) = rd64 ?m (unat t' + j * 8)"
      by (intro new_table_cell_other) auto
  qed
  show ?thesis
  proof (cases "\<exists>r. q = p @ i # r")
    case False
    then have "q \<noteq> p @ [i]" by auto
    with cong [OF q] False show ?thesis by simp
  next
    case True
    then obtain r where r: "q = p @ i # r" by blast
    obtain l where l: "3 - length p = Suc l" using p(2) by (cases "3 - length p") auto
    have "table_at ?m' 3 root p = Some t"
      using cong [OF p(1)] p(3) by simp
    moreover have "rd64 ?m' (unat t + i * 8) = frame OR 1 OR 2"
      by (simp add: new_table_def)
    ultimately have m': "table_at ?m' 3 root q = table_at ?m' l frame r"
      using table_entry_bits [OF frame(1)] by (simp add: r table_at_append l)
    have m: "table_at ?m 3 root q = None"
      using p(3) i(2) by (simp add: r table_at_append l)
    have "table_at ?m' l frame r = None" if "r = j # r'" for j r'
    proof (cases l)
      case (Suc l')
      have "j < 512" using q r that by (auto simp: valid_path_def)
      with Suc that t frame i(1) show ?thesis by (simp add: new_table_cell_zero)
    qed (simp add: that)
    with m m' r show ?thesis by (cases r) auto
  qed
qed

lemma new_table_pte_of:
  assumes wf: "pt_wf root s" and p: "valid_path p" "length p < 3" "table_at (pmem s) 3 root p = Some t"
    and i: "i < 512" "rd64 (pmem s) (unat t + i * 8) AND 1 = 0"
    and frame: "page_aligned frame" "unat frame div 4096 \<in> free_set s"
  shows "pte_of root v (new_table t i frame (pmem s)) = pte_of root v (pmem s)"
proof -
  note paths = new_table_paths [OF wf p i frame, of "idx_path v", simplified]
  have t: "page_aligned t" "t \<noteq> frame"
    using pt_wf_table [OF wf p(1,3)] frame(2) by auto
  show ?thesis
  proof (cases "idx_path v = p @ [i]")
    case True
    obtain l where l: "3 - length p = Suc l" using p(2) by (cases "3 - length p") auto
    have "table_at (pmem s) 3 root (p @ [i]) = None"
      using p(3) i(2) by (simp add: table_at_append l)
    moreover have "rd64 (new_table t i frame (pmem s)) (unat frame + unat (PT_IDX v) * 8) = 0"
      using t frame(1) i(1) by (simp add: new_table_cell_zero PT_IDX_less)
    ultimately show ?thesis
      using paths True by (simp add: pte_of_def)
  next
    case False
    have "rd64 (new_table t i frame (pmem s)) (unat t' + unat (PT_IDX v) * 8) =
        rd64 (pmem s) (unat t' + unat (PT_IDX v) * 8)"
      if t': "table_at (pmem s) 3 root (idx_path v) = Some t'" for t'
    proof (rule new_table_cell_other)
      note tab = pt_wf_table [OF wf idx_path_valid t']
      show "page_aligned t" "page_aligned t'" "page_aligned frame" "i < 512" "unat (PT_IDX v) < 512" "t' \<noteq> frame"
        using t tab frame i by (auto simp: PT_IDX_less)
      show "\<not> (t' = t \<and> unat (PT_IDX v) = i)"
        using pt_wf_inj [OF wf idx_path_valid p(1) t'] p(2,3) by (auto simp: idx_path_def)
    qed
    with paths False show ?thesis
      by (auto simp: pte_of_def split: option.splits)
  qed
qed

section \<open>The walk that creates tables\<close>

lemma mach_frame_simps [simp, frame_simps]:
  "free_set (s\<lparr>pmem := m\<rparr>) = free_set s" "pmm_inv (s\<lparr>pmem := m\<rparr>) = pmm_inv s"
  by (simp_all add: free_set_def pmm_inv_def)

lemma pmm_alloc_pmem [simp, frame_simps]:
  "pmem (snd (pmm_alloc s)) = pmem s" "cr3 (snd (pmm_alloc s)) = cr3 s"
  "current_pml4 (snd (pmm_alloc s)) = current_pml4 s"
  by (simp_all add: pmm_alloc_def bm_set_def split: option.splits)

lemma alloc_pt_frame_cases:
  assumes "pmm_inv s"
  obtains (oom) "free_set s = {}" and "alloc_pt_frame s = Inl (Panic ''VMM: out of physical memory'')"
    | (frame) frame s1 where "alloc_pt_frame s = Inr (frame, s1)" and "pmem s1 = mem_fill (pmem s) (unat frame) 4096 0"
        and "page_aligned frame" and "frame \<noteq> 0" and "unat frame div 4096 \<in> free_set s"
        and "free_set s1 = free_set s - {unat frame div 4096}" and "pmm_inv s1"
        and "cr3 s1 = cr3 s" and "current_pml4 s1 = current_pml4 s"
  using assms
proof (cases rule: pa.alloc_cases)
  case empty
  then show ?thesis by (intro oom) (simp_all add: alloc_pt_frame_def)
next
  case (frame f s')
  let ?a = "of_nat f * 4096 :: u64"
  have a: "unat ?a = f * 4096"
    using frame(4) by (rule pa.frame_addr)
  then have "?a \<noteq> 0" using frame(3) by auto
  moreover have "page_aligned ?a" using a by (simp add: page_aligned_def)
  moreover have "pmem s' = pmem s" "cr3 s' = cr3 s" "current_pml4 s' = current_pml4 s"
    using pmm_alloc_pmem [of s] frame(1) by auto
  ultimately show ?thesis
    using frame a that(2) [of ?a "s'\<lparr>pmem := mem_fill (pmem s') (unat ?a) 4096 0\<rparr>"]
    by (simp add: alloc_pt_frame_def)
qed

lemma new_table_state:
  assumes wf: "pt_wf root s" and inv: "pmm_inv s"
    and p: "valid_path p" "length p < 3" "table_at (pmem s) 3 root p = Some t"
    and i: "i < 512" "rd64 (pmem s) (unat t + i * 8) AND 1 = 0"
    and frame: "page_aligned frame" "frame \<noteq> 0" "unat frame div 4096 \<in> free_set s"
    and s2: "pmem s2 = new_table t i frame (pmem s)" "free_set s2 = free_set s - {unat frame div 4096}"
  shows "pt_wf root s2" and "table_at (pmem s2) 3 root (p @ [i]) = Some frame"
    and "pte_of root v (pmem s2) = pte_of root v (pmem s)"
proof -
  note paths = new_table_paths [OF wf p i frame(1,3)]
  have vpi: "valid_path (p @ [i])" using p(1,2) i(1) by (simp add: valid_path_def)
  show "table_at (pmem s2) 3 root (p @ [i]) = Some frame"
    using paths [OF vpi] by (simp add: s2)
  show "pte_of root v (pmem s2) = pte_of root v (pmem s)"
    unfolding s2 by (rule new_table_pte_of [OF wf p i frame(1,3)])
  have new: "t' \<noteq> frame" if "valid_path q" and "table_at (pmem s) 3 root q = Some t'" for q t'
    using pt_wf_table(3) [OF wf that] frame(3) by auto
  show "pt_wf root s2"
    unfolding pt_wf_def
  proof (intro conjI allI impI)
    show "page_aligned root" using wf by (simp add: pt_wf_def)
  next
    fix q t'
    assume q: "valid_path q" "table_at (pmem s2) 3 root q = Some t'"
    then show "t' \<noteq> 0" and "unat t' div 4096 \<notin> free_set s2"
      using paths [OF q(1)] frame(2) pt_wf_table [OF wf q(1)] by (auto simp: s2 split: if_splits)
  next
    fix q r t'
    assume "valid_path q" "valid_path r" "table_at (pmem s2) 3 root q = Some t'"
      "table_at (pmem s2) 3 root r = Some t'"
    then show "q = r"
      using paths [of q] paths [of r] new pt_wf_inj [OF wf] by (auto simp: s2 split: if_splits)
  qed
qed

lemma idx_path_level:
  assumes "l < 3"
  shows "take (3 - l) (idx_path v) = take (3 - Suc l) (idx_path v) @ [unat (level_idx (Suc l) v)]"
proof -
  from assms consider "l = 0" | "l = 1" | "l = 2" by linarith
  then show ?thesis by cases (auto simp: idx_path_def level_idx_def numeral_eq_Suc)
qed

lemma valid_idx_path_take: "valid_path (take k (idx_path v))"
  using valid_path_append [of "take k (idx_path v)" "drop k (idx_path v)"] by simp

definition same_ptes :: "u64 \<Rightarrow> 'a mach_scheme \<Rightarrow> 'a mach_scheme \<Rightarrow> bool" where
  "same_ptes root s s' \<longleftrightarrow> (\<forall>v. pte_of root v (pmem s') = pte_of root v (pmem s))"

lemma vmm_walk_create:
  assumes "pt_wf root s" and "pmm_inv s" and "l \<le> 3"
    and "table_at (pmem s) 3 root (take (3 - l) (idx_path virt)) = Some t"
    and "vmm_walk l t virt True s = Inr (pte, s')" and "pte \<noteq> 0"
  shows "pt_wf root s' \<and> pmm_inv s' \<and> same_ptes root s s' \<and>
         (\<exists>t'. table_at (pmem s') 3 root (idx_path virt) = Some t' \<and> pte = t' + PT_IDX virt * 8)"
  using assms
proof (induction l arbitrary: s t)
  case 0
  then show ?case by (simp add: same_ptes_def idx_path_def)
next
  case (Suc l)
  let ?p = "take (3 - Suc l) (idx_path virt)" and ?i = "level_idx (Suc l) virt"
  have l: "l < 3" using Suc.prems(3) by simp
  have p: "valid_path ?p" "length ?p < 3" "table_at (pmem s) 3 root ?p = Some t"
    using Suc.prems(4) valid_idx_path_take by (simp_all add: idx_path_def)
  have t: "page_aligned t" using pt_wf_table(1) [OF Suc.prems(1) p(1,3)] .
  have i: "unat ?i < 512" by (rule level_idx_less)
  have a: "unat (t + ?i * 8) = unat t + unat ?i * 8" by (rule unat_entry_addr [OF t i])
  let ?e = "rd64 (pmem s) (unat t + unat ?i * 8)"
  note step = idx_path_level [OF l, of virt]
  show ?case
  proof (cases "?e AND 1 = 0")
    case True
    show ?thesis
      using Suc.prems(2)
    proof (cases rule: alloc_pt_frame_cases)
      case oom
      with Suc.prems(5) True show ?thesis by (simp add: a)
    next
      case (frame frame s1)
      let ?s2 = "s1\<lparr>pmem := wr64 (pmem s1) (unat t + unat ?i * 8) (frame OR 1 OR 2)\<rparr>"
      have s2: "pmem ?s2 = new_table t (unat ?i) frame (pmem s)"
        "free_set ?s2 = free_set s - {unat frame div 4096}"
        using frame by (simp_all add: new_table_def)
      note st = new_table_state [OF Suc.prems(1,2) p i True frame(3,4,5) s2]
      have "vmm_walk l frame virt True ?s2 = Inr (pte, s')"
        using Suc.prems(5) True frame(1) by (simp add: a)
      with Suc.IH [OF st(1), of frame] st(2,3) frame(7) Suc.prems(6) l show ?thesis
        by (simp add: step same_ptes_def)
    qed
  next
    case False
    have nh: "\<not> (Suc l \<noteq> 3 \<and> ?e AND 0x80 \<noteq> 0)"
      using Suc.prems(5,6) False by (auto simp: a split: if_splits)
    with Suc.prems(5) False have "vmm_walk l (?e AND - 4096) virt True s = Inr (pte, s')"
      by (auto simp: a)
    moreover have "table_at (pmem s) 3 root (take (3 - l) (idx_path virt)) = Some (?e AND - 4096)"
    proof -
      have "3 - length ?p = Suc l" using l by (simp add: idx_path_def)
      with p(3) False nh show ?thesis
        unfolding step by (auto simp: table_at_append Let_def)
    qed
    ultimately show ?thesis
      using Suc.IH [OF Suc.prems(1,2), of "?e AND - 4096"] Suc.prems(6) l by simp
  qed
qed


text \<open>
  With three free frames and no huge page on the way, the walk does reach a page-table entry: it
  neither panics nor returns null.
\<close>

definition no_huge :: "u64 \<Rightarrow> u64 \<Rightarrow> bmem \<Rightarrow> bool" where
  "no_huge root v m \<longleftrightarrow>
     (\<forall>k \<in> {1, 2}. \<forall>t. table_at m 3 root (take k (idx_path v)) = Some t \<longrightarrow>
        rd64 m (unat t + idx_path v ! k * 8) AND VMM_FLAG_PRESENT \<noteq> 0 \<longrightarrow>
        rd64 m (unat t + idx_path v ! k * 8) AND VMM_FLAG_HUGE = 0)"

fun path_clear :: "nat \<Rightarrow> u64 \<Rightarrow> u64 \<Rightarrow> bmem \<Rightarrow> bool" where
  "path_clear 0 t v m = True"
| "path_clear (Suc l) t v m =
     (let e = rd64 m (unat t + unat (level_idx (Suc l) v) * 8)
      in e AND 1 = 0 \<or> ((Suc l = 3 \<or> e AND 0x80 = 0) \<and> path_clear l (e AND PAGE_MASK) v m))"

lemma path_clear_zero:
  assumes "\<And>j. j < 512 \<Longrightarrow> rd64 m (unat t + j * 8) = 0"
  shows "path_clear l t v m"
  by (cases l) (simp_all add: assms level_idx_less Let_def)

lemma no_huge_path_clear:
  assumes "no_huge root v m" shows "path_clear 3 root v m"
proof -
  have 3: "3 = Suc (Suc (Suc 0))" by simp
  note h = assms [unfolded no_huge_def idx_path_def]
  show ?thesis
    using h [THEN bspec [of _ _ 1]] h [THEN bspec [of _ _ 2]]
    by (auto simp: 3 level_idx_def Let_def numeral_2_eq_2)
qed

lemma vmm_walk_create_succeeds:
  assumes "pt_wf root s" and "pmm_inv s" and "l \<le> 3" and "l \<le> card (free_set s)"
    and "table_at (pmem s) 3 root (take (3 - l) (idx_path virt)) = Some t"
    and "path_clear l t virt (pmem s)"
  shows "\<exists>pte s'. vmm_walk l t virt True s = Inr (pte, s') \<and> pte \<noteq> 0"
  using assms
proof (induction l arbitrary: s t)
  case 0
  then have tab: "page_aligned t" "t \<noteq> 0"
    using pt_wf_table [OF "0.prems"(1) valid_idx_path_take "0.prems"(5)] by auto
  have "unat (t + PT_IDX virt * 8) \<noteq> 0"
    unfolding unat_entry_addr [OF tab(1) PT_IDX_less] using tab(2) by (simp add: unat_eq_0)
  then show ?case by auto
next
  case (Suc l)
  let ?p = "take (3 - Suc l) (idx_path virt)" and ?i = "level_idx (Suc l) virt"
  have l: "l < 3" using Suc.prems(3) by simp
  have p: "valid_path ?p" "length ?p < 3" "table_at (pmem s) 3 root ?p = Some t"
    using Suc.prems(5) valid_idx_path_take by (simp_all add: idx_path_def)
  have t: "page_aligned t" using pt_wf_table(1) [OF Suc.prems(1) p(1,3)] .
  have i: "unat ?i < 512" by (rule level_idx_less)
  have a: "unat (t + ?i * 8) = unat t + unat ?i * 8" by (rule unat_entry_addr [OF t i])
  let ?e = "rd64 (pmem s) (unat t + unat ?i * 8)"
  note step = idx_path_level [OF l, of virt]
  show ?case
  proof (cases "?e AND 1 = 0")
    case True
    show ?thesis
      using Suc.prems(2)
    proof (cases rule: alloc_pt_frame_cases)
      case oom
      with Suc.prems(4) show ?thesis by simp
    next
      case (frame frame s1)
      let ?s2 = "s1\<lparr>pmem := wr64 (pmem s1) (unat t + unat ?i * 8) (frame OR 1 OR 2)\<rparr>"
      have s2: "pmem ?s2 = new_table t (unat ?i) frame (pmem s)"
        "free_set ?s2 = free_set s - {unat frame div 4096}"
        using frame by (simp_all add: new_table_def)
      note st = new_table_state [OF Suc.prems(1,2) p i True frame(3,4,5) s2]
      have "l \<le> card (free_set ?s2)"
        using Suc.prems(4) frame(5) by (simp add: frame(6) card_Diff_singleton)
      moreover have "path_clear l frame virt (pmem ?s2)"
        using pt_wf_table(3) [OF Suc.prems(1) p(1,3)] frame(3,5) i t
        unfolding s2 by (intro path_clear_zero new_table_cell_zero) auto
      ultimately have "\<exists>pte s'. vmm_walk l frame virt True ?s2 = Inr (pte, s') \<and> pte \<noteq> 0"
        using Suc.IH [OF st(1), of frame] st(2) frame(7) l by (simp add: step)
      with True frame(1) show ?thesis by (simp add: a)
    qed
  next
    case False
    with Suc.prems(6) have nh: "Suc l = 3 \<or> ?e AND 0x80 = 0" and pc: "path_clear l (?e AND PAGE_MASK) virt (pmem s)"
      by (auto simp: Let_def)
    have "table_at (pmem s) 3 root (take (3 - l) (idx_path virt)) = Some (?e AND PAGE_MASK)"
    proof -
      have "3 - length ?p = Suc l" using l by (simp add: idx_path_def)
      with p(3) False nh show ?thesis
        unfolding step by (auto simp: table_at_append Let_def)
    qed
    with Suc.IH [OF Suc.prems(1,2) _ _ _ pc] Suc.prems(4) l
    have "\<exists>pte s'. vmm_walk l (?e AND PAGE_MASK) virt True s = Inr (pte, s') \<and> pte \<noteq> 0" by simp
    with False nh show ?thesis by (auto simp: a Let_def)
  qed
qed

section \<open>Reading the tree and writing an entry\<close>

text \<open>The virtual page that a walk distinguishes: bits 12 to 47 of the address.\<close>

definition vpage :: "u64 \<Rightarrow> nat" where
  "vpage v = unat v div 4096 mod 2 ^ 36"

lemma unat_idx: "unat (drop_bit n (v :: u64) AND 0x1FF) = unat v div 2 ^ n mod 512"
proof -
  have "(0x1FF :: u64) = mask 9" by (simp add: mask_eq_exp_minus_1)
  then have "drop_bit n v AND 0x1FF = take_bit 9 (drop_bit n v)"
    by (simp only: take_bit_eq_mask)
  moreover have "unat (drop_bit n v) = unat v div 2 ^ n"
    unfolding unsigned_drop_bit_eq by (simp add: drop_bit_eq_div take_bit_eq_mod)
  ultimately show ?thesis
    by (simp add: take_bit_eq_mod unat_mod)
qed

lemma mod_mult_eq_iff:
  fixes n m b c :: nat
  shows "n mod (b * c) = m mod (b * c) \<longleftrightarrow> n mod b = m mod b \<and> n div b mod c = m div b mod c"
proof
  assume "n mod b = m mod b \<and> n div b mod c = m div b mod c"
  then show "n mod (b * c) = m mod (b * c)" by (simp add: mod_mult2_eq)
next
  assume e: "n mod (b * c) = m mod (b * c)"
  then have "n mod b = m mod b" by (metis mod_mult_right_eq mod_mod_cancel dvd_triv_left)
  moreover have "n div b mod c = m div b mod c"
    using e calculation by (cases "b = 0") (auto simp: mod_mult2_eq)
  ultimately show "n mod b = m mod b \<and> n div b mod c = m div b mod c" by blast
qed

lemma same_path_iff: "idx_path v = idx_path w \<and> PT_IDX v = PT_IDX w \<longleftrightarrow> vpage v = vpage w"
proof -
  have d: "unat x div 549755813888 = unat x div 4096 div 512 div 512 div 512"
    "unat x div 1073741824 = unat x div 4096 div 512 div 512"
    "unat x div 2097152 = unat x div 4096 div 512" for x :: u64
    by (simp_all add: div_mult2_eq [symmetric])
  have "(2 :: nat) ^ 36 = 512 * (512 * (512 * 512))" by simp
  then have "vpage v = vpage w \<longleftrightarrow>
      unat v div 4096 mod 512 = unat w div 4096 mod 512 \<and>
      unat v div 4096 div 512 mod 512 = unat w div 4096 div 512 mod 512 \<and>
      unat v div 4096 div 512 div 512 mod 512 = unat w div 4096 div 512 div 512 mod 512 \<and>
      unat v div 4096 div 512 div 512 div 512 mod 512 = unat w div 4096 div 512 div 512 div 512 mod 512"
    unfolding vpage_def by (simp only: mod_mult_eq_iff)
  then show ?thesis
    by (auto simp: idx_path_def PML4_IDX_def PDPT_IDX_def PD_IDX_def PT_IDX_def unat_idx d
        simp flip: unat_eq_unat_iff)
qed

lemma vmm_walk_lookup:
  assumes "page_aligned t" and "l \<le> 3"
  shows "vmm_walk l t virt False s =
     Inr (case table_at (pmem s) l t (drop (3 - l) (idx_path virt)) of
            None \<Rightarrow> 0 | Some t' \<Rightarrow> t' + PT_IDX virt * 8, s)"
  using assms
proof (induction l arbitrary: t)
  case 0
  then show ?case by (simp add: idx_path_def)
next
  case (Suc l)
  let ?i = "level_idx (Suc l) virt"
  have d: "drop (3 - Suc l) (idx_path virt) = unat ?i # drop (3 - l) (idx_path virt)"
  proof -
    from Suc.prems(2) consider "l = 0" | "l = 1" | "l = 2" by linarith
    then show ?thesis by cases (auto simp: idx_path_def level_idx_def numeral_eq_Suc)
  qed
  have a: "unat (t + ?i * 8) = unat t + unat ?i * 8"
    using Suc.prems(1) level_idx_less by (rule unat_entry_addr)
  from Suc.IH [of "rd64 (pmem s) (unat t + unat ?i * 8) AND - 4096"] Suc.prems show ?case
    unfolding d by (simp add: a Let_def)
qed

lemma vmm_lookup_walk_eq:
  assumes "page_aligned t" and "l \<le> 3"
  shows "vmm_lookup_walk l t virt m =
     (case table_at m l t (drop (3 - l) (idx_path virt)) of
        None \<Rightarrow> 0
      | Some t' \<Rightarrow> let e = rd64 m (unat t' + unat (PT_IDX virt) * 8)
                   in if e AND 1 = 0 then 0 else (e AND PAGE_MASK) OR (virt AND (PAGE_SIZE - 1)))"
  using assms
proof (induction l arbitrary: t)
  case 0
  then show ?case by (simp add: idx_path_def unat_entry_addr PT_IDX_less)
next
  case (Suc l)
  let ?i = "level_idx (Suc l) virt"
  have d: "drop (3 - Suc l) (idx_path virt) = unat ?i # drop (3 - l) (idx_path virt)"
  proof -
    from Suc.prems(2) consider "l = 0" | "l = 1" | "l = 2" by linarith
    then show ?thesis by cases (auto simp: idx_path_def level_idx_def numeral_eq_Suc)
  qed
  have a: "unat (t + ?i * 8) = unat t + unat ?i * 8"
    using Suc.prems(1) level_idx_less by (rule unat_entry_addr)
  from Suc.IH [of "rd64 m (unat t + unat ?i * 8) AND - 4096"] Suc.prems show ?case
    unfolding d by (simp add: a Let_def)
qed

text \<open>What a translation gives for a page-table entry.\<close>

definition translate :: "u64 \<Rightarrow> u64 \<Rightarrow> u64" where
  "translate e v = (if e AND VMM_FLAG_PRESENT = 0 then 0 else (e AND PAGE_MASK) OR (v AND (PAGE_SIZE - 1)))"

lemma vmm_lookup_pte_of:
  assumes "page_aligned root"
  shows "vmm_lookup_phys_pml4 root v s = translate (pte_of root v (pmem s)) v"
  using vmm_lookup_walk_eq [OF assms, of 3 v "pmem s"]
  by (simp add: vmm_lookup_phys_pml4_def pte_of_def translate_def split: option.splits)

lemma pte_write:
  assumes wf: "pt_wf root s" and t: "table_at (pmem s) 3 root (idx_path v) = Some t"
    and s': "pmem s' = wr64 (pmem s) (unat (t + PT_IDX v * 8)) x" "free_set s' = free_set s"
  shows "pt_wf root s'"
    and "pte_of root w (pmem s') = (if vpage w = vpage v then x else pte_of root w (pmem s))"
    and "valid_path q \<Longrightarrow> table_at (pmem s') 3 root q = table_at (pmem s) 3 root q"
proof -
  note tab = pt_wf_table [OF wf idx_path_valid t]
  have a: "unat (t + PT_IDX v * 8) = unat t + unat (PT_IDX v) * 8"
    by (rule unat_entry_addr [OF tab(1) PT_IDX_less])
  have root: "page_aligned root" using wf by (simp add: pt_wf_def)
  have cell: "rd64 (pmem s') (unat t' + j * 8) = rd64 (pmem s) (unat t' + j * 8)"
    if "page_aligned t'" "j < 512" "\<not> (t' = t \<and> j = unat (PT_IDX v))" for t' j
  proof -
    have "\<not> (unat t = unat t' \<and> unat (PT_IDX v) = j)"
      using that(3) by (auto simp: unat_eq_unat_iff)
    with that(1,2) tab(4) PT_IDX_less [of v] show ?thesis
      unfolding s'(1) a by (intro rd64_wr64_other entry_disjoint) (auto simp: page_aligned_def)
  qed
  have paths: "table_at (pmem s') 3 root q = table_at (pmem s) 3 root q" if vq: "valid_path q" for q
  proof (rule table_at_cong [OF root])
    fix q' r j t'
    assume split: "q = q' @ j # r" and t': "table_at (pmem s) 3 root q' = Some t'"
    have v: "valid_path q'" "length q' < 3" and j: "j < 512"
      using vq split by (auto simp: valid_path_def)
    have "t' \<noteq> t"
      using pt_wf_inj [OF wf v(1) idx_path_valid t'] t v(2) by (auto simp: idx_path_def)
    with cell pt_wf_table(1) [OF wf v(1) t'] j
    show "rd64 (pmem s') (unat t' + j * 8) = rd64 (pmem s) (unat t' + j * 8)" by simp
  qed
  then show "valid_path q \<Longrightarrow> table_at (pmem s') 3 root q = table_at (pmem s) 3 root q" .
  show "pt_wf root s'"
    using wf paths by (simp add: pt_wf_def s'(2))
  show "pte_of root w (pmem s') = (if vpage w = vpage v then x else pte_of root w (pmem s))"
  proof (cases "vpage w = vpage v")
    case True
    then have "idx_path w = idx_path v" "PT_IDX w = PT_IDX v" using same_path_iff by auto
    with paths [of "idx_path v"] t True show ?thesis
      by (simp add: pte_of_def s'(1) a)
  next
    case False
    have "rd64 (pmem s') (unat t' + unat (PT_IDX w) * 8) = rd64 (pmem s) (unat t' + unat (PT_IDX w) * 8)"
      if t': "table_at (pmem s) 3 root (idx_path w) = Some t'" for t'
    proof (rule cell)
      show "page_aligned t'" using pt_wf_table(1) [OF wf idx_path_valid t'] .
      show "\<not> (t' = t \<and> unat (PT_IDX w) = unat (PT_IDX v))"
        using pt_wf_inj [OF wf idx_path_valid idx_path_valid t'] t False same_path_iff [of w v]
        by (auto simp: unat_eq_unat_iff)
    qed (rule PT_IDX_less)
    with paths [of "idx_path w"] False show ?thesis
      by (simp add: pte_of_def split: option.splits)
  qed
qed

section \<open>Mapping and unmapping\<close>

definition ptes_updated :: "u64 \<Rightarrow> nat \<Rightarrow> u64 \<Rightarrow> 'a mach_scheme \<Rightarrow> 'a mach_scheme \<Rightarrow> bool" where
  "ptes_updated root pg x s s' \<longleftrightarrow>
     (\<forall>w. pte_of root w (pmem s') = (if vpage w = pg then x else pte_of root w (pmem s)))"

lemma vmm_map_in_pml4_ptes:
  assumes wf: "pt_wf root s" and inv: "pmm_inv s"
    and ok: "vmm_map_in_pml4 root virt phys flags s = Inr s'"
  shows "pt_wf root s' \<and> pmm_inv s' \<and>
         ptes_updated root (vpage virt) ((phys AND PAGE_MASK) OR flags OR VMM_FLAG_PRESENT) s s'"
proof -
  let ?x = "(phys AND PAGE_MASK) OR flags OR VMM_FLAG_PRESENT"
  from ok obtain pte s1 where w: "vmm_walk 3 root virt True s = Inr (pte, s1)" and nz: "pte \<noteq> 0"
    and s': "s' = s1\<lparr>pmem := wr64 (pmem s1) (unat pte) ?x\<rparr>"
    by (auto simp: vmm_map_in_pml4_def vmm_get_pte_pml4_phys_def pte_store_def
        split: sum.splits prod.splits if_splits)
  from vmm_walk_create [OF wf inv, of 3 virt root, simplified, OF w nz]
  obtain t where s1: "pt_wf root s1" "pmm_inv s1" "same_ptes root s s1"
    and t: "table_at (pmem s1) 3 root (idx_path virt) = Some t" "pte = t + PT_IDX virt * 8" by blast
  have p': "pmem s' = wr64 (pmem s1) (unat (t + PT_IDX virt * 8)) ?x" "free_set s' = free_set s1"
    using s' t(2) by simp_all
  note wr = pte_write [OF s1(1) t(1) p']
  show ?thesis
    unfolding ptes_updated_def
  proof (intro conjI allI)
    show "pt_wf root s'" by (rule wr)
    show "pmm_inv s'" using s' s1(2) by simp
    show "pte_of root w (pmem s') = (if vpage w = vpage virt then ?x else pte_of root w (pmem s))" for w
      using wr(2) [of w] s1(3) by (simp add: same_ptes_def)
  qed
qed

lemma lookup_of_pte:
  assumes "pt_wf root s"
  shows "vmm_lookup_phys_pml4 root w s = translate (pte_of root w (pmem s)) w"
  using assms by (simp add: vmm_lookup_pte_of pt_wf_def)

lemma translate_0 [simp]: "translate 0 v = 0"
  by (simp add: translate_def)

lemma translate_mapped:
  assumes "flags AND - 4096 = 0"
  shows "translate ((phys AND PAGE_MASK) OR flags OR VMM_FLAG_PRESENT) v =
         (phys AND PAGE_MASK) OR (v AND (PAGE_SIZE - 1))"
proof -
  have "((phys AND PAGE_MASK) OR flags OR 1) AND (1 :: u64) \<noteq> 0"
    by (auto dest!: arg_cong [where f = "\<lambda>w. bit w 0"] simp: bit_simps)
  moreover have "((phys AND - 4096) OR flags OR 1) AND - 4096 = phys AND (- 4096 :: u64)"
    using assms by (simp add: bit.conj_disj_distrib2 and.assoc)
  ultimately show ?thesis by (simp add: translate_def)
qed

lemma vmm_unmap_step:
  assumes wf: "pt_wf root s"
    and w: "vmm_get_pte_pml4_phys root v False s = Inr (pte, s1)"
  shows "s1 = s"
    and "pte = 0 \<Longrightarrow> pte_of root v (pmem s) = 0"
    and "pte \<noteq> 0 \<Longrightarrow> pte_of root v (pmem s) = rd64 (pmem s) (unat pte)"
    and "pte \<noteq> 0 \<Longrightarrow> pt_wf root (s\<lparr>pmem := wr64 (pmem s) (unat pte) 0\<rparr>)"
    and "pte \<noteq> 0 \<Longrightarrow> ptes_updated root (vpage v) 0 s (s\<lparr>pmem := wr64 (pmem s) (unat pte) 0\<rparr>)"
proof -
  have root: "page_aligned root" using wf by (simp add: pt_wf_def)
  note walk = vmm_walk_lookup [OF root, of 3 v s, simplified]
  from w walk show "s1 = s" by (simp add: vmm_get_pte_pml4_phys_def)
  show "pte_of root v (pmem s) = 0" if "pte = 0"
  proof (cases "table_at (pmem s) 3 root (idx_path v)")
    case None
    then show ?thesis by (simp add: pte_of_def)
  next
    case (Some t)
    note tab = pt_wf_table [OF wf idx_path_valid Some]
    have "unat (t + PT_IDX v * 8) \<noteq> 0"
      unfolding unat_entry_addr [OF tab(1) PT_IDX_less] using tab(2) by (simp add: unat_eq_0)
    with w walk Some that show ?thesis by (simp add: vmm_get_pte_pml4_phys_def)
  qed
  assume nz: "pte \<noteq> 0"
  with w walk obtain t where t: "table_at (pmem s) 3 root (idx_path v) = Some t" "pte = t + PT_IDX v * 8"
    by (auto simp: vmm_get_pte_pml4_phys_def split: option.splits)
  note a = unat_entry_addr [OF pt_wf_table(1) [OF wf idx_path_valid t(1)] PT_IDX_less [of v]]
  show "pte_of root v (pmem s) = rd64 (pmem s) (unat pte)"
    by (simp add: pte_of_def t a)
  have "pmem (s\<lparr>pmem := wr64 (pmem s) (unat pte) 0\<rparr>) = wr64 (pmem s) (unat (t + PT_IDX v * 8)) 0"
    "free_set (s\<lparr>pmem := wr64 (pmem s) (unat pte) 0\<rparr>) = free_set s" by (simp_all add: t)
  note wr = pte_write [OF wf t(1) this]
  show "pt_wf root (s\<lparr>pmem := wr64 (pmem s) (unat pte) 0\<rparr>)" by (rule wr)
  show "ptes_updated root (vpage v) 0 s (s\<lparr>pmem := wr64 (pmem s) (unat pte) 0\<rparr>)"
    unfolding ptes_updated_def using wr(2) by blast
qed

text \<open>What unmapping a set of pages does: they translate to nothing, every other page as before.\<close>

definition pages_unmapped :: "u64 \<Rightarrow> nat set \<Rightarrow> 'a mach_scheme \<Rightarrow> 'a mach_scheme \<Rightarrow> bool" where
  "pages_unmapped root P s s' \<longleftrightarrow>
     (\<forall>w. vmm_lookup_phys_pml4 root w s' = (if vpage w \<in> P then 0 else vmm_lookup_phys_pml4 root w s))"

lemma pte_of_same_page: "vpage w = vpage v \<Longrightarrow> pte_of root w m = pte_of root v m"
  using same_path_iff [of w v] by (auto simp: pte_of_def split: option.splits)

lemma vmm_unmap_one:
  assumes wf: "pt_wf root s" and w: "vmm_get_pte_pml4_phys root v False s = Inr (pte, s1)"
    and s': "s' = (if pte \<noteq> 0 \<and> (c \<or> rd64 (pmem s1) (unat pte) AND VMM_FLAG_PRESENT \<noteq> 0)
                   then s1\<lparr>pmem := wr64 (pmem s1) (unat pte) 0\<rparr> else s1)"
  shows "pt_wf root s'" and "pages_unmapped root {vpage v} s s'" and "\<exists>m. s' = s\<lparr>pmem := m\<rparr>"
proof -
  note st = vmm_unmap_step [OF wf w]
  show ps: "pt_wf root s'" using st wf by (simp add: s')
  show "\<exists>m. s' = s\<lparr>pmem := m\<rparr>"
    unfolding s' st(1) by (metis mach.surjective mach.update_convs(1))
  show "pages_unmapped root {vpage v} s s'"
    unfolding pages_unmapped_def
  proof
    fix u
    show "vmm_lookup_phys_pml4 root u s' = (if vpage u \<in> {vpage v} then 0 else vmm_lookup_phys_pml4 root u s)"
    proof (cases "pte \<noteq> 0 \<and> (c \<or> rd64 (pmem s1) (unat pte) AND 1 \<noteq> 0)")
      case True
      then have "ptes_updated root (vpage v) 0 s s'" using st by (simp add: s')
      then show ?thesis
        unfolding lookup_of_pte [OF ps] lookup_of_pte [OF wf] by (simp add: ptes_updated_def)
    next
      case False
      then have "s' = s" using s' st(1) by auto
      moreover have "pte_of root v (pmem s) AND 1 = 0"
        using False st by (cases "pte = 0") auto
      then have "vmm_lookup_phys_pml4 root u s = 0" if "vpage u = vpage v"
        unfolding lookup_of_pte [OF wf] pte_of_same_page [OF that] by (simp add: translate_def)
      ultimately show ?thesis by simp
    qed
  qed
qed

lemma vmm_get_pte_no_create:
  assumes "page_aligned root"
  obtains pte where "vmm_get_pte_pml4_phys root v False s = Inr (pte, s)"
  using vmm_walk_lookup [OF assms, of 3 v s] by (simp add: vmm_get_pte_pml4_phys_def)

text \<open>The pages of the byte range from \<open>v\<close> to \<open>e\<close>, as a walk numbers them.\<close>

definition range_pages :: "nat \<Rightarrow> nat \<Rightarrow> nat set" where
  "range_pages v e = (\<lambda>k. k mod 2 ^ 36) ` {k. v div 4096 \<le> k \<and> k * 4096 < e}"

lemma range_pages_step:
  assumes "v mod 4096 = 0" and "v < e"
  shows "range_pages v e = insert (v div 4096 mod 2 ^ 36) (range_pages (v + 4096) e)"
proof -
  have "v div 4096 * 4096 = v" using assms(1) by (simp add: mod_eq_0_iff_dvd)
  then have "{k. v div 4096 \<le> k \<and> k * 4096 < e} = insert (v div 4096) {k. Suc (v div 4096) \<le> k \<and> k * 4096 < e}"
    using assms(2) by (auto simp: le_less Suc_le_eq)
  moreover have "(v + 4096) div 4096 = Suc (v div 4096)" by simp
  ultimately show ?thesis by (simp only: range_pages_def image_insert)
qed

lemma range_pages_empty: "v mod 4096 = 0 \<Longrightarrow> e \<le> v \<Longrightarrow> range_pages v e = {}"
  by (auto simp: range_pages_def mod_eq_0_iff_dvd elim!: dvdE)

lemma vmm_unmap_loop_spec:
  assumes "pt_wf root s" and "page_aligned v" and "unat e + 4096 \<le> 2 ^ 64" and "unat e \<le> unat v + 4096 * n"
  shows "\<exists>s'. vmm_unmap_loop (Suc n) root v e s = Inr s' \<and> pt_wf root s' \<and>
           pages_unmapped root (range_pages (unat v) (unat e)) s s' \<and> (\<exists>m. s' = s\<lparr>pmem := m\<rparr>)"
  using assms
proof (induction n arbitrary: s v)
  case 0
  then have "\<not> v < e" by (simp add: word_less_nat_alt)
  with 0 show ?case
    by (auto simp: pages_unmapped_def range_pages_empty page_aligned_def intro!: exI [of _ "pmem s"])
next
  case (Suc n)
  show ?case
  proof (cases "v < e")
    case False
    then have "unat e \<le> unat v" by (simp add: word_less_nat_alt)
    with False Suc.prems show ?thesis
      by (auto simp: pages_unmapped_def range_pages_empty page_aligned_def intro!: exI [of _ "pmem s"])
  next
    case True
    have root: "page_aligned root" using Suc.prems(1) by (simp add: pt_wf_def)
    from vmm_get_pte_no_create [OF root, of v s]
    obtain pte where w: "vmm_get_pte_pml4_phys root v False s = Inr (pte, s)" by blast
    define s1 where "s1 = (if pte \<noteq> 0 \<and> (False \<or> rd64 (pmem s) (unat pte) AND VMM_FLAG_PRESENT \<noteq> 0)
                           then s\<lparr>pmem := wr64 (pmem s) (unat pte) 0\<rparr> else s)"
    note one = vmm_unmap_one [OF Suc.prems(1) w s1_def]
    have ve: "unat v < unat e" using True by (simp add: word_less_nat_alt)
    with Suc.prems(3) have v1: "unat (v + 4096) = unat v + 4096"
      by (simp add: unat_word_ariths)
    then have al: "page_aligned (v + 4096)" using Suc.prems(2) by (simp add: page_aligned_def)
    from Suc.IH [OF one(1) al Suc.prems(3)] Suc.prems(4) v1
    obtain s' where s': "vmm_unmap_loop (Suc n) root (v + 4096) e s1 = Inr s'" "pt_wf root s'"
      "pages_unmapped root (range_pages (unat v + 4096) (unat e)) s1 s'" "\<exists>m. s' = s1\<lparr>pmem := m\<rparr>"
      by auto
    have "vmm_unmap_loop (Suc (Suc n)) root v e s = Inr s'"
      using True w s'(1) by (simp add: s1_def del: vmm_unmap_loop.simps(2)
          add: vmm_unmap_loop.simps(2) [of "Suc n"])
    moreover have "pages_unmapped root (range_pages (unat v) (unat e)) s s'"
      using one(2) s'(3) range_pages_step [of "unat v" "unat e"] ve Suc.prems(2)
      by (auto simp: pages_unmapped_def page_aligned_def vpage_def)
    moreover have "\<exists>m. s' = s\<lparr>pmem := m\<rparr>"
      using s'(4) one(3) by auto
    ultimately show ?thesis using s'(2) by blast
  qed
qed

lemma vmm_unmap_loop_diverges:
  assumes "page_aligned root" and "page_aligned v" and "2 ^ 64 < unat e + 4096"
  shows "vmm_unmap_loop n root v e s = Inl Diverges"
  using assms(2)
proof (induction n arbitrary: s v)
  case (Suc n)
  have "unat v < unat e" using page_aligned_bound [OF Suc.prems] assms(3) by linarith
  then have "v < e" by (simp add: word_less_nat_alt)
  moreover obtain pte where "vmm_get_pte_pml4_phys root v False s = Inr (pte, s)"
    using vmm_get_pte_no_create [OF assms(1)] .
  moreover have "page_aligned (v + 4096)"
    using Suc.prems by (simp add: page_aligned_def unat_word_ariths mod_mod_cancel)
  ultimately show ?case by (simp add: Suc.IH)
qed simp

section \<open>A new address space\<close>

lemma vmm_lookup_frame_cong:
  assumes wf: "pt_wf root s"
    and same: "\<And>t j. page_aligned t \<Longrightarrow> unat t div 4096 \<notin> free_set s \<Longrightarrow> j < 512 \<Longrightarrow>
                 rd64 (pmem s') (unat t + j * 8) = rd64 (pmem s) (unat t + j * 8)"
  shows "vmm_lookup_phys_pml4 root v s' = vmm_lookup_phys_pml4 root v s"
proof -
  have root: "page_aligned root" using wf by (simp add: pt_wf_def)
  have tab: "table_at (pmem s') 3 root q = table_at (pmem s) 3 root q" if vq: "valid_path q" for q
  proof (rule table_at_cong [OF root])
    fix q' r j t'
    assume "q = q' @ j # r" and t': "table_at (pmem s) 3 root q' = Some t'"
    then have "valid_path q'" "j < 512" using vq by (auto simp: valid_path_def)
    with pt_wf_table [OF wf _ t'] same show "rd64 (pmem s') (unat t' + j * 8) = rd64 (pmem s) (unat t' + j * 8)"
      by simp
  qed
  have "pte_of root v (pmem s') = pte_of root v (pmem s)"
    using tab [OF idx_path_valid] pt_wf_table [OF wf idx_path_valid] same PT_IDX_less
    by (simp add: pte_of_def split: option.splits)
  then show ?thesis by (simp add: vmm_lookup_pte_of [OF root])
qed

lemma vmm_lookup_unfold:
  assumes "page_aligned root"
  shows "vmm_lookup_phys_pml4 root v s =
     (let e = rd64 (pmem s) (unat root + unat (PML4_IDX v) * 8)
      in if e AND 1 = 0 then 0 else vmm_lookup_walk 2 (e AND - 4096) v (pmem s))"
proof -
  have "unat (root + PML4_IDX v * 8) = unat root + unat (PML4_IDX v) * 8"
    using level_idx_less [of 3 v] by (intro unat_entry_addr [OF assms]) (simp add: level_idx_def)
  then show ?thesis
    by (simp add: vmm_lookup_phys_pml4_def numeral_3_eq_3 level_idx_def numeral_2_eq_2 Let_def
        del: vmm_lookup_walk.simps add: vmm_lookup_walk.simps(2) [of 2, simplified])
qed

lemma uspace_cells:
  assumes "page_aligned pg" and "page_aligned t" and "j < 512"
  shows "rd64 (wr64 (mem_fill m (unat pg) 4096 0) (unat (pg + 4088)) x) (unat t + j * 8) =
           (if t = pg then if j = 511 then x else 0 else rd64 m (unat t + j * 8))"
proof -
  have a: "unat (pg + 4088) = unat pg + 4088"
    using unat_entry_addr [OF assms(1), of 511] by simp
  show ?thesis
  proof (cases "t = pg \<and> j = 511")
    case True
    then show ?thesis by (simp add: a)
  next
    case False
    then have "\<not> (unat pg = unat t \<and> 511 = j)" by (auto simp: unat_eq_unat_iff)
    from entry_disjoint [OF _ _ _ _ this] assms
    have d: "unat pg + 4088 + 8 \<le> unat t + j * 8 \<or> unat t + j * 8 + 8 \<le> unat pg + 4088"
      by (simp add: page_aligned_def)
    show ?thesis
    proof (cases "t = pg")
      case True
      with False d assms(3) show ?thesis
        unfolding a by (simp add: rd64_wr64_other rd64_mem_fill_zero)
    next
      case ne: False
      obtain k where k: "unat pg = 4096 * k"
        using assms(1) by (auto simp: page_aligned_def mod_eq_0_iff_dvd elim: dvdE)
      obtain l where l: "unat t = 4096 * l"
        using assms(2) by (auto simp: page_aligned_def mod_eq_0_iff_dvd elim: dvdE)
      have "k \<noteq> l" using ne k l by (auto simp flip: unat_eq_unat_iff)
      with scaled_disjoint [of k l 4096] k l assms(3)
      have "unat pg + 4096 \<le> unat t + j * 8 \<or> unat t + j * 8 + 8 \<le> unat pg" by (auto simp: mult.commute)
      with ne d show ?thesis unfolding a by (simp add: rd64_wr64_other rd64_mem_fill_other)
    qed
  qed
qed

section \<open>Properties\<close>

text \<open>A machine with four free frames and an empty root table in frame 1, for the witnesses.\<close>

definition mach_demo :: mach where
  "mach_demo =
     (let d = pmm_init 1040 \<lparr>bitmap = (\<lambda>_. 0), total_frames = 0, free_frames = 0\<rparr>
      in \<lparr>bitmap = bitmap d, total_frames = total_frames d, free_frames = free_frames d,
          pmem = (\<lambda>_. 0), cr3 = 4096, current_pml4 = 4096\<rparr>)"

lemma table_at_zero: "table_at (\<lambda>_. 0) l t p = (if p = [] then Some t else None)"
  by (cases "((\<lambda>_. 0) :: bmem, l, t, p)" rule: table_at.cases) (auto simp: rd64_def)

lemma mach_demo_state:
  "pmm_inv mach_demo" "free_set mach_demo = {256..<260}" "pmem mach_demo = (\<lambda>_. 0)"
  "cr3 mach_demo = 4096" "current_pml4 mach_demo = 4096"
proof -
  let ?z = "\<lparr>bitmap = (\<lambda>_. 0), total_frames = 0, free_frames = 0\<rparr> :: pmm"
  have "pmm_inv (pmm_init 1040 ?z) \<and> free_set (pmm_init 1040 ?z) = {256..<260}"
    using pmm_init_state [of 1040 ?z] by (simp add: pmm_frames_of_kb_def)
  then show "pmm_inv mach_demo" "free_set mach_demo = {256..<260}"
    by (auto simp: mach_demo_def pmm_inv_def free_set_def Let_def)
qed (simp_all add: mach_demo_def Let_def)

lemma mach_demo_wf: "pt_wf 4096 mach_demo"
  by (auto simp: pt_wf_def mach_demo_state table_at_zero page_aligned_def)

lemma mach_demo_no_huge: "no_huge 4096 v (pmem mach_demo)"
  by (simp add: no_huge_def mach_demo_state rd64_def)

text \<open>
  C7: \<open>vmm_map_in_pml4\<close> on a well-formed page table, with three free frames and no huge page on the
  way, succeeds; afterwards the mapped page translates to the given frame (the page offset
  kept), every other page translates as before, and the page table and the frame allocator are
  still well formed.
\<close>

theorem vmm_map_then_translate:
  assumes "pt_wf root s" and "pmm_inv s" and "3 \<le> card (free_set s)" and "no_huge root virt (pmem s)"
    and "flags AND PAGE_MASK = 0"
  shows "\<exists>s'. vmm_map_in_pml4 root virt phys flags s = Inr s' \<and> pt_wf root s' \<and> pmm_inv s' \<and>
           (\<forall>v. vmm_lookup_phys_pml4 root v s' =
              (if vpage v = vpage virt then (phys AND PAGE_MASK) OR (v AND (PAGE_SIZE - 1))
               else vmm_lookup_phys_pml4 root v s))"
proof -
  have "table_at (pmem s) 3 root (take (3 - 3) (idx_path virt)) = Some root" by simp
  from vmm_walk_create_succeeds [OF assms(1,2) order.refl assms(3) this no_huge_path_clear [OF assms(4)]]
  obtain pte s1 where "vmm_walk 3 root virt True s = Inr (pte, s1)" "pte \<noteq> 0" by blast
  then obtain s' where s': "vmm_map_in_pml4 root virt phys flags s = Inr s'"
    by (simp add: vmm_map_in_pml4_def vmm_get_pte_pml4_phys_def pte_store_def)
  note m = vmm_map_in_pml4_ptes [OF assms(1,2) s']
  have "translate ((phys AND PAGE_MASK) OR flags OR VMM_FLAG_PRESENT) v =
        (phys AND PAGE_MASK) OR (v AND (PAGE_SIZE - 1))" for v
    using assms(5) by (intro translate_mapped) simp
  with m have "vmm_lookup_phys_pml4 root v s' =
      (if vpage v = vpage virt then (phys AND PAGE_MASK) OR (v AND (PAGE_SIZE - 1))
       else vmm_lookup_phys_pml4 root v s)" for v
    by (simp add: lookup_of_pte assms(1) ptes_updated_def)
  with s' m show ?thesis by blast
qed

theorem vmm_map_then_translate_witness:
  "pt_wf 4096 mach_demo \<and>
   (\<exists>s'. vmm_map_in_pml4 4096 0x400123 0x7000 6 mach_demo = Inr s' \<and>
         vmm_lookup_phys_pml4 4096 0x400456 s' = 0x7456 \<and> vmm_lookup_phys_pml4 4096 0x401000 s' = 0)"
proof -
  have "3 \<le> card (free_set mach_demo)" "(6 :: u64) AND PAGE_MASK = 0"
    by (simp_all add: mach_demo_state)
  from vmm_map_then_translate [OF mach_demo_wf mach_demo_state(1) this(1) mach_demo_no_huge this(2)]
  obtain s' where s': "vmm_map_in_pml4 4096 0x400123 0x7000 6 mach_demo = Inr s'"
    "\<forall>v. vmm_lookup_phys_pml4 4096 v s' =
       (if vpage v = vpage 0x400123 then (0x7000 AND PAGE_MASK) OR (v AND (PAGE_SIZE - 1))
        else vmm_lookup_phys_pml4 4096 v mach_demo)" by blast
  have "vpage 0x400456 = vpage 0x400123" "vpage 0x401000 \<noteq> vpage 0x400123"
    by (simp_all add: vpage_def)
  moreover have "vmm_lookup_phys_pml4 4096 0x401000 mach_demo = 0"
    by (simp add: lookup_of_pte [OF mach_demo_wf] pte_of_def mach_demo_state table_at_zero idx_path_def)
  ultimately show ?thesis using s' mach_demo_wf by auto
qed

text \<open>
  C32: \<open>vmm_unmap_range_pml4\<close> terminates when the range ends below the last page of the
  address space; then exactly the pages that overlap the range stop being translated, every
  other page translates as before, and nothing but physical memory has changed.
\<close>

theorem vmm_unmap_range_exact:
  assumes "pt_wf root s" and "nbytes \<noteq> 0" and "unat virt + unat nbytes + 4096 \<le> 2 ^ 64"
  shows "\<exists>s'. vmm_unmap_range_pml4 root virt nbytes s = Inr s' \<and> pt_wf root s' \<and>
           pages_unmapped root (range_pages (unat virt) (unat virt + unat nbytes)) s s' \<and>
           (\<exists>m. s' = s\<lparr>pmem := m\<rparr>)"
proof -
  have e: "unat (virt + nbytes) = unat virt + unat nbytes"
    using assms(3) by (simp add: unat_word_ariths)
  have v: "unat (virt AND - 4096) = unat virt div 4096 * 4096" by (rule unat_page_mask)
  have "range_pages (unat virt div 4096 * 4096) (unat virt + unat nbytes) =
      range_pages (unat virt) (unat virt + unat nbytes)"
    by (simp add: range_pages_def)
  with vmm_unmap_loop_spec [OF assms(1), of "virt AND - 4096" "virt + nbytes" "2 ^ 52"] assms e v
  show ?thesis by (simp add: vmm_unmap_range_pml4_def del: vmm_unmap_loop.simps)
qed

theorem vmm_unmap_range_exact_witness:
  "pt_wf 4096 mach_demo \<and>
   (\<exists>s'. vmm_unmap_range_pml4 4096 0x400ff0 0x20 mach_demo = Inr s' \<and>
      pages_unmapped 4096 (range_pages 0x400ff0 0x401010) mach_demo s')"
proof -
  have "(0x20 :: u64) \<noteq> 0" "unat (0x400ff0 :: u64) + unat (0x20 :: u64) + 4096 \<le> 2 ^ 64" by simp_all
  from vmm_unmap_range_exact [OF mach_demo_wf this] mach_demo_wf show ?thesis by auto
qed

text \<open>
  When the end of the range lies in the last page of the address space, the loop of
  \<open>vmm_unmap_range_pml4\<close> never ends: its counter wraps around below \<open>end\<close>.
\<close>

theorem vmm_unmap_range_diverges:
  assumes "page_aligned root" and "nbytes \<noteq> 0" and "2 ^ 64 < unat (virt + nbytes) + 4096"
  shows "vmm_unmap_range_pml4 root virt nbytes s = Inl Diverges \<and>
         (\<forall>n. vmm_unmap_loop n root (virt AND PAGE_MASK) (virt + nbytes) s = Inl Diverges)"
proof -
  have "\<forall>n. vmm_unmap_loop n root (virt AND PAGE_MASK) (virt + nbytes) s = Inl Diverges"
    by (intro allI vmm_unmap_loop_diverges [OF assms(1) _ assms(3)]) simp
  then show ?thesis using assms(2) by (simp only: vmm_unmap_range_pml4_def if_False) blast
qed

theorem vmm_unmap_range_diverges_witness:
  "page_aligned 4096 \<and> vmm_unmap_range_pml4 4096 0xfffffffffffff000 0x10 mach_demo = Inl Diverges"
proof -
  have "page_aligned 4096" "(0x10 :: u64) \<noteq> 0"
    "2 ^ 64 < unat (0xfffffffffffff000 + 0x10 :: u64) + 4096" by (simp_all add: page_aligned_def)
  from vmm_unmap_range_diverges [OF this] this(1) show ?thesis by blast
qed

text \<open>
  The two translation routines agree: \<open>vmm_get_phys\<close>, which walks the current page table
  to the entry's address, returns what \<open>vmm_lookup_phys_pml4\<close> computes for that root.
\<close>

theorem vmm_get_phys_is_lookup:
  assumes "pt_wf (current_pml4 s) s"
  shows "vmm_get_phys virt s = Inr (vmm_lookup_phys_pml4 (current_pml4 s) virt s)"
proof -
  let ?r = "current_pml4 s"
  have "page_aligned ?r" using assms by (simp add: pt_wf_def)
  from vmm_get_pte_no_create [OF this, of virt s]
  obtain pte where w: "vmm_get_pte_pml4_phys ?r virt False s = Inr (pte, s)" by blast
  note st = vmm_unmap_step [OF assms w]
  show ?thesis
    unfolding lookup_of_pte [OF assms] translate_def
    using w st(2,3) by (cases "pte = 0") (simp_all add: vmm_get_phys_def vmm_get_pte_def Let_def)
qed

theorem vmm_get_phys_is_lookup_witness:
  "pt_wf (current_pml4 mach_demo) mach_demo \<and>
   vmm_get_phys 0x5000 mach_demo = Inr (vmm_lookup_phys_pml4 4096 0x5000 mach_demo)"
proof -
  have "pt_wf (current_pml4 mach_demo) mach_demo" using mach_demo_wf by (simp add: mach_demo_state)
  from vmm_get_phys_is_lookup [OF this, where virt = "0x5000"] this show ?thesis by (simp add: mach_demo_state)
qed

text \<open>
  A walk that meets a huge page returns the null pointer, and \<open>vmm_map_in_pml4\<close> (like
  \<open>vmm_map\<close>) then stores through it without a test.
\<close>

theorem vmm_map_over_huge_page:
  assumes "page_aligned root" and "rd64 (pmem s) (unat root + unat (PML4_IDX virt) * 8) = e"
    and "e AND VMM_FLAG_PRESENT \<noteq> 0"
    and "rd64 (pmem s) (unat (e AND PAGE_MASK) + unat (PDPT_IDX virt) * 8) = e2"
    and "e2 AND VMM_FLAG_PRESENT \<noteq> 0" and "e2 AND VMM_FLAG_HUGE \<noteq> 0"
  shows "vmm_map_in_pml4 root virt phys flags s = Inl NullDeref"
proof -
  have "unat (root + PML4_IDX virt * 8) = unat root + unat (PML4_IDX virt) * 8"
    "unat ((e AND - 4096) + PDPT_IDX virt * 8) = unat (e AND - 4096) + unat (PDPT_IDX virt) * 8"
    by (rule unat_entry_addr [OF assms(1)], simp add: PML4_IDX_def and_1FF_less,
        rule unat_entry_addr [OF page_aligned_mask], simp add: PDPT_IDX_def and_1FF_less)
  then have "vmm_walk 3 root virt True s = Inr (0, s)"
    using assms(2-6) by (simp add: numeral_3_eq_3 numeral_2_eq_2 level_idx_def Let_def
        del: vmm_walk.simps add: vmm_walk.simps(2))
  then show ?thesis
    by (simp add: vmm_map_in_pml4_def vmm_get_pte_pml4_phys_def pte_store_def)
qed

text \<open>A root whose first entry leads to a table with a present 1 GiB page in its first entry.\<close>

definition huge_demo :: mach where
  "huge_demo = mach_demo\<lparr>pmem := wr64 (wr64 (\<lambda>_. 0) 4096 0x2003) 8192 0x83\<rparr>"

theorem vmm_map_over_huge_page_witness:
  "page_aligned 4096 \<and> vmm_map_in_pml4 4096 0x5000 0x7000 6 huge_demo = Inl NullDeref"
proof -
  have al: "page_aligned 4096" by (simp add: page_aligned_def)
  have i: "PML4_IDX 0x5000 = 0" "PDPT_IDX 0x5000 = 0" by (simp_all add: PML4_IDX_def PDPT_IDX_def)
  have "rd64 (pmem huge_demo) (unat (4096 :: u64) + unat (PML4_IDX 0x5000) * 8) = 0x2003"
    "rd64 (pmem huge_demo) (unat ((0x2003 :: u64) AND PAGE_MASK) + unat (PDPT_IDX 0x5000) * 8) = 0x83"
    by (simp_all add: huge_demo_def i rd64_wr64_other)
  from vmm_map_over_huge_page [OF al this(1) _ this(2)] al show ?thesis by simp
qed

text \<open>
  C31: \<open>uspace_create_pml4\<close> returns 0 exactly when no frame is free, and otherwise a new root
  in which the top 512 GiB (entry 511, the kernel) translate as in the current page table and
  nothing else is mapped.
\<close>

theorem uspace_create_shares_kernel_half:
  assumes "pt_wf (cr3 s) s" and "pmm_inv s"
  shows "case uspace_create_pml4 s of (pg, s') \<Rightarrow>
           pmm_inv s' \<and>
           (if free_set s = {} then pg = 0 \<and> s' = s
            else pg \<noteq> 0 \<and> page_aligned pg \<and> unat pg div 4096 \<in> free_set s \<and>
              free_set s' = free_set s - {unat pg div 4096} \<and>
              (\<forall>v. vmm_lookup_phys_pml4 pg v s' =
                 (if PML4_IDX v = 511 then vmm_lookup_phys_pml4 (cr3 s) v s else 0)))"
  using assms(2)
proof (cases rule: alloc_pt_frame_cases)
  case oom
  then have "pmm_alloc s = (0, s)" using pmm_alloc_empty assms(2) by blast
  with oom(1) assms(2) show ?thesis by (simp add: uspace_create_pml4_def)
next
  case (frame pg s1)
  let ?x = "rd64 (pmem s1) (unat (cr3 s + 4088))"
  let ?s2 = "s1\<lparr>pmem := wr64 (pmem s1) (unat (pg + 4088)) ?x\<rparr>"
  have us: "uspace_create_pml4 s = (pg, ?s2)"
    using frame(1,4,8)
    by (auto simp: uspace_create_pml4_def alloc_pt_frame_def Let_def split: prod.splits if_splits)
  have root: "page_aligned (cr3 s)" "unat (cr3 s) div 4096 \<notin> free_set s"
    using assms(1) pt_wf_table [OF assms(1), of "[]"] by (simp_all add: pt_wf_def valid_path_def)
  then have ne: "cr3 s \<noteq> pg" using frame(5) by auto
  note cells = uspace_cells [OF frame(3), of _ _ "pmem s" ?x]
  have m2: "pmem ?s2 = wr64 (mem_fill (pmem s) (unat pg) 4096 0) (unat (pg + 4088)) ?x"
    by (simp add: frame(2))
  have old: "vmm_lookup_phys_pml4 (cr3 s) v ?s2 = vmm_lookup_phys_pml4 (cr3 s) v s" for v
    by (rule vmm_lookup_frame_cong [OF assms(1)]) (use cells frame(5) in \<open>auto simp: m2\<close>)
  have a: "unat (cr3 s + 4088) = unat (cr3 s) + 4088"
    using unat_entry_addr [OF root(1), of 511] by simp
  have x: "?x = rd64 (pmem s) (unat (cr3 s) + 4088)"
  proof -
    have "unat pg div 4096 \<noteq> unat (cr3 s) div 4096" using root(2) frame(5) by metis
    from scaled_disjoint [OF this, of 4096]
    have "unat pg + 4096 \<le> unat (cr3 s) + 4088 \<or> unat (cr3 s) + 4088 + 8 \<le> unat pg"
      using frame(3) root(1) by (auto simp: page_aligned_def mod_eq_0_iff_dvd)
    then show ?thesis
      unfolding a frame(2) by (intro rd64_mem_fill_other) auto
  qed
  have "vmm_lookup_phys_pml4 pg v ?s2 = (if PML4_IDX v = 511 then vmm_lookup_phys_pml4 (cr3 s) v s else 0)" for v
  proof -
    have i: "unat (PML4_IDX v) < 512" by (simp add: PML4_IDX_def and_1FF_less)
    have "unat (PML4_IDX v) = 511 \<longleftrightarrow> PML4_IDX v = 511"
      using unat_eq_unat_iff [of "PML4_IDX v" 511] by simp
    moreover have "rd64 (pmem ?s2) (unat (cr3 s) + 4088) = ?x"
      using cells [OF root(1), of 511] ne x m2 by simp
    ultimately show ?thesis
      using cells [OF frame(3) i] old [of v]
      unfolding vmm_lookup_unfold [OF frame(3)] vmm_lookup_unfold [OF root(1)] m2
      by (auto simp: Let_def)
  qed
  with frame us show ?thesis by auto
qed

theorem uspace_create_shares_kernel_half_witness:
  "pt_wf (cr3 mach_demo) mach_demo \<and> pmm_inv mach_demo \<and>
   (\<forall>v. vmm_lookup_phys_pml4 (fst (uspace_create_pml4 mach_demo)) v (snd (uspace_create_pml4 mach_demo)) =
      (if PML4_IDX v = 511 then vmm_lookup_phys_pml4 4096 v mach_demo else 0))"
proof -
  have wf: "pt_wf (cr3 mach_demo) mach_demo" using mach_demo_wf by (simp add: mach_demo_state)
  from uspace_create_shares_kernel_half [OF wf mach_demo_state(1)] wf show ?thesis
    by (simp add: mach_demo_state case_prod_unfold)
qed

end
