(* ===== verification/Heap.thy ===== *)
theory Heap
  imports Vmm
begin

text \<open>
  \<^verbatim>\<open>src/mm/heap.c\<close>: the kernel heap, a boundary-tag allocator with a doubly linked free list
  that lives in the block headers. The bytes of the heap's virtual address range are the field
  \<open>hmem\<close>; the page tables that map the range, and the frames behind it, are those of the
  machine state, updated by \<open>heap_expand\<close> and \<open>heap_init\<close> as in the code. Pointers are 64-bit words,
  with 0 as \<^verbatim>\<open>NULL\<close>.
\<close>

section \<open>State and operations\<close>

record heap = mach +
  hmem :: bmem
  free_list :: u64
  heap_end :: u64

abbreviation (input) HDR :: u64 where "HDR \<equiv> 24"
abbreviation (input) FTR :: u64 where "FTR \<equiv> 8"
abbreviation (input) MIN_BLOCK :: u64 where "MIN_BLOCK \<equiv> 48"

definition blk_size :: "u64 \<Rightarrow> 'a heap_scheme \<Rightarrow> u64" where
  "blk_size h s = rd64 (hmem s) (unat h) AND NOT 1"

definition blk_used :: "u64 \<Rightarrow> 'a heap_scheme \<Rightarrow> bool" where
  "blk_used h s \<longleftrightarrow> rd64 (hmem s) (unat h) AND 1 \<noteq> 0"

definition get_footer :: "u64 \<Rightarrow> 'a heap_scheme \<Rightarrow> u64" where
  "get_footer h s = h + blk_size h s - FTR"

definition next_block :: "u64 \<Rightarrow> 'a heap_scheme \<Rightarrow> u64" where
  "next_block h s = h + blk_size h s"

definition prev_block :: "u64 \<Rightarrow> 'a heap_scheme \<Rightarrow> u64" where
  "prev_block h s = h - (rd64 (hmem s) (unat (h - FTR)) AND NOT 1)"

definition heap_store :: "u64 \<Rightarrow> u64 \<Rightarrow> 'a heap_scheme \<Rightarrow> 'a heap_scheme" where
  "heap_store a v s = s\<lparr>hmem := wr64 (hmem s) (unat a) v\<rparr>"

definition set_size :: "u64 \<Rightarrow> u64 \<Rightarrow> bool \<Rightarrow> 'a heap_scheme \<Rightarrow> 'a heap_scheme" where
  "set_size h sz used s =
     (let v = sz OR of_bool used;
          s1 = heap_store h v s
      in heap_store (get_footer h s1) v s1)"

text \<open>The fields \<^verbatim>\<open>prev_free\<close> and \<^verbatim>\<open>next_free\<close> of a header.\<close>

definition prev_free :: "u64 \<Rightarrow> 'a heap_scheme \<Rightarrow> u64" where
  "prev_free h s = rd64 (hmem s) (unat (h + 8))"

definition next_free :: "u64 \<Rightarrow> 'a heap_scheme \<Rightarrow> u64" where
  "next_free h s = rd64 (hmem s) (unat (h + 16))"

definition clear_links :: "u64 \<Rightarrow> 'a heap_scheme \<Rightarrow> 'a heap_scheme" where
  "clear_links h s = heap_store (h + 8) 0 (heap_store (h + 16) 0 s)"

definition free_list_remove :: "u64 \<Rightarrow> 'a heap_scheme \<Rightarrow> 'a heap_scheme" where
  "free_list_remove h s =
     (let s1 = (if prev_free h s \<noteq> 0 then heap_store (prev_free h s + 16) (next_free h s) s
                else s\<lparr>free_list := next_free h s\<rparr>);
          s2 = (if next_free h s1 \<noteq> 0 then heap_store (next_free h s1 + 8) (prev_free h s1) s1 else s1)
      in clear_links h s2)"

definition free_list_insert :: "u64 \<Rightarrow> 'a heap_scheme \<Rightarrow> 'a heap_scheme" where
  "free_list_insert h s =
     (let s1 = heap_store (h + 8) 0 (heap_store (h + 16) (free_list s) s);
          s2 = (if free_list s1 \<noteq> 0 then heap_store (free_list s1 + 8) h s1 else s1)
      in s2\<lparr>free_list := h\<rparr>)"

text \<open>
  The mapping loops of \<open>heap_expand\<close> and \<open>heap_init\<close>: \<open>n\<close> pages from \<open>v\<close> on; the loops
  count to a multiple of the page size, so the number of pages is known beforehand.
\<close>

fun heap_map_pages :: "string \<Rightarrow> nat \<Rightarrow> u64 \<Rightarrow> 'a heap_scheme \<Rightarrow> 'a heap_scheme res" where
  "heap_map_pages msg 0 v s = Inr s"
| "heap_map_pages msg (Suc n) v s =
     (case pmm_alloc s of (frame, s1) \<Rightarrow>
        if frame = 0 then Inl (Panic msg)
        else case vmm_map v frame (VMM_FLAG_PRESENT OR VMM_FLAG_WRITE) s1 of
               Inl e \<Rightarrow> Inl e
             | Inr s2 \<Rightarrow> heap_map_pages msg n (v + PAGE_SIZE) s2)"

definition heap_expand :: "u64 \<Rightarrow> 'a heap_scheme \<Rightarrow> 'a heap_scheme res" where
  "heap_expand extra0 s =
     (let extra = ALIGN_UP extra0 PAGE_SIZE
      in case heap_map_pages ''heap: OOM expanding heap'' (unat extra div 4096) (heap_end s) s of
           Inl e \<Rightarrow> Inl e
         | Inr s1 \<Rightarrow>
             let h = heap_end s1;
                 s2 = clear_links h (set_size h extra False s1)
             in Inr (free_list_insert h (s2\<lparr>heap_end := heap_end s2 + extra\<rparr>)))"

definition heap_init :: "u64 \<Rightarrow> u64 \<Rightarrow> 'a heap_scheme \<Rightarrow> 'a heap_scheme res" where
  "heap_init base initial_size0 s =
     (let initial_size = ALIGN_UP initial_size0 PAGE_SIZE
      in case heap_map_pages ''heap_init: OOM'' (unat initial_size div 4096) base (s\<lparr>heap_end := base\<rparr>) of
           Inl e \<Rightarrow> Inl e
         | Inr s1 \<Rightarrow>
             Inr ((clear_links base (set_size base initial_size False s1))
                    \<lparr>free_list := base, heap_end := base + initial_size\<rparr>))"

text \<open>
  The first-fit search. It only reads memory, so a walk of more than $2^{64}$ steps has met a
  header twice and never ends.
\<close>

definition WALK_BOUND :: nat where
  "WALK_BOUND = Suc (2 ^ 64)"

fun first_fit :: "nat \<Rightarrow> u64 \<Rightarrow> u64 \<Rightarrow> 'a heap_scheme \<Rightarrow> u64 res" where
  "first_fit 0 h need s = Inl Diverges"
| "first_fit (Suc n) h need s =
     (if h = 0 then Inr 0
      else if blk_size h s \<ge> need then Inr h
      else first_fit n (next_free h s) need s)"

text \<open>The body of the search loop of \<open>kmalloc\<close> once a block fits.\<close>

definition take_block :: "u64 \<Rightarrow> u64 \<Rightarrow> 'a heap_scheme \<Rightarrow> 'a heap_scheme" where
  "take_block h sz s =
     (let s1 = free_list_remove h s;
          leftover = blk_size h s1 - sz
      in if leftover \<ge> MIN_BLOCK then
           let s2 = set_size h sz True s1;
               rest = next_block h s2
           in free_list_insert rest (clear_links rest (set_size rest leftover False s2))
         else set_size h (blk_size h s1) True s1)"

definition request_size :: "u64 \<Rightarrow> u64" where
  "request_size sz =
     (let n = ALIGN_UP (sz + HDR + FTR) 8 in if n < MIN_BLOCK then MIN_BLOCK else n)"

text \<open>
  \<open>kmalloc\<close> calls itself after expanding the heap. A retry that has not run out of memory has
  mapped at least one frame, and there are at most \<open>MAX_FRAMES\<close> of them; theorem
  \<open>kmalloc_spec\<close> shows that a single retry is enough.
\<close>

definition RETRY_BOUND :: nat where
  "RETRY_BOUND = Suc MAX_FRAMES"

fun kmalloc_retry :: "nat \<Rightarrow> u64 \<Rightarrow> 'a heap_scheme \<Rightarrow> (u64 \<times> 'a heap_scheme) res" where
  "kmalloc_retry 0 size0 s = Inl Diverges"
| "kmalloc_retry (Suc n) size0 s =
     (if size0 = 0 then Inr (0, s)
      else let need = request_size size0
           in case first_fit WALK_BOUND (free_list s) need s of
                Inl e \<Rightarrow> Inl e
              | Inr h \<Rightarrow>
                  if h \<noteq> 0 then Inr (h + HDR, take_block h need s)
                  else case heap_expand (need + PAGE_SIZE) s of
                         Inl e \<Rightarrow> Inl e
                       | Inr s1 \<Rightarrow> kmalloc_retry n need s1)"

definition kmalloc :: "u64 \<Rightarrow> 'a heap_scheme \<Rightarrow> (u64 \<times> 'a heap_scheme) res" where
  "kmalloc sz s = kmalloc_retry (Suc RETRY_BOUND) sz s"

definition kcalloc :: "u64 \<Rightarrow> u64 \<Rightarrow> 'a heap_scheme \<Rightarrow> (u64 \<times> 'a heap_scheme) res" where
  "kcalloc n sz s =
     (let total = n * sz
      in case kmalloc total s of
           Inl e \<Rightarrow> Inl e
         | Inr (p, s1) \<Rightarrow>
             Inr (p, if p \<noteq> 0 then s1\<lparr>hmem := mem_fill (hmem s1) (unat p) (unat total) 0\<rparr> else s1))"

definition kfree :: "u64 \<Rightarrow> 'a heap_scheme \<Rightarrow> 'a heap_scheme res" where
  "kfree ptr s =
     (if ptr = 0 then Inr s
      else let h = ptr - HDR
           in if \<not> blk_used h s then Inl (Panic ''ASSERT(blk_used(h))'')
              else let s1 = set_size h (blk_size h s) False s;
                       nxt = next_block h s1;
                       s3 = (if nxt < heap_end s1 \<and> \<not> blk_used nxt s1
                             then let s2 = free_list_remove nxt s1
                                  in set_size h (blk_size h s2 + blk_size nxt s2) False s2
                             else s1)
                   in Inr (free_list_insert h s3))"

definition krealloc :: "u64 \<Rightarrow> u64 \<Rightarrow> 'a heap_scheme \<Rightarrow> (u64 \<times> 'a heap_scheme) res" where
  "krealloc ptr sz s =
     (if ptr = 0 then kmalloc sz s
      else let h = ptr - HDR;
               old_size = blk_size h s - HDR - FTR
           in case kmalloc sz s of
                Inl e \<Rightarrow> Inl e
              | Inr (new_ptr, s1) \<Rightarrow>
                  if new_ptr = 0 then Inr (0, s1)
                  else let n = (if old_size < sz then old_size else sz);
                           s2 = s1\<lparr>hmem := store_bytes (hmem s1) (unat new_ptr)
                                             (load_bytes (hmem s1) (unat ptr) (unat n))\<rparr>
                       in case kfree ptr s2 of Inl e \<Rightarrow> Inl e | Inr s3 \<Rightarrow> Inr (new_ptr, s3))"

section \<open>Memory outside a region\<close>

definition same_off :: "nat set \<Rightarrow> bmem \<Rightarrow> bmem \<Rightarrow> bool" where
  "same_off X m m' \<longleftrightarrow> (\<forall>x. x \<notin> X \<longrightarrow> m' x = m x)"

lemma same_off_refl [simp]: "same_off X m m"
  by (simp add: same_off_def)

lemma same_off_trans: "same_off X m m' \<Longrightarrow> same_off Y m' m'' \<Longrightarrow> same_off (X \<union> Y) m m''"
  by (simp add: same_off_def)

lemma same_off_chain: "same_off X m m' \<Longrightarrow> same_off X m' m'' \<Longrightarrow> same_off X m m''"
  by (simp add: same_off_def)

lemma same_off_mono: "same_off X m m' \<Longrightarrow> X \<subseteq> Y \<Longrightarrow> same_off Y m m'"
  by (auto simp: same_off_def)

lemma same_off_wr64: "same_off {a..<a + 8} m (wr64 m a v)"
  by (auto simp: same_off_def wr64_other_byte)

lemma rd64_same_off:
  assumes "same_off X m m'" and "{a..<a + 8} \<inter> X = {}"
  shows "rd64 m' a = rd64 m a"
  by (rule rd64_cong) (use assms in \<open>auto simp: same_off_def\<close>)

section \<open>The block map\<close>

text \<open>
  The abstract state of the heap: which addresses are block headers, with the block's size and
  whether it is allocated. \<open>heap_core B fl\<close> says that the memory represents the block map
  \<open>B\<close>, with the blocks of \<open>fl\<close> linked in this order in the free list.
\<close>

type_synonym blocks = "u64 \<rightharpoonup> u64 \<times> bool"

definition blocks_ok :: "blocks \<Rightarrow> u64 \<Rightarrow> bool" where
  "blocks_ok B E \<longleftrightarrow>
     (\<forall>p sz u. B p = Some (sz, u) \<longrightarrow>
        p \<noteq> 0 \<and> 48 \<le> unat sz \<and> 8 dvd unat sz \<and> unat p + unat sz \<le> unat E) \<and>
     (\<forall>p sz u q sz' u'. B p = Some (sz, u) \<longrightarrow> B q = Some (sz', u') \<longrightarrow> p \<noteq> q \<longrightarrow>
        unat p + unat sz \<le> unat q \<or> unat q + unat sz' \<le> unat p)"

text \<open>Every block is followed by a block, up to the end of the heap (which is not address 0).\<close>

definition blocks_next :: "blocks \<Rightarrow> u64 \<Rightarrow> bool" where
  "blocks_next B E \<longleftrightarrow>
     E \<noteq> 0 \<and> (\<forall>p sz u. B p = Some (sz, u) \<longrightarrow> unat p + unat sz < unat E \<longrightarrow> B (p + sz) \<noteq> None)"

definition tag_word :: "u64 \<Rightarrow> bool \<Rightarrow> u64" where
  "tag_word sz u = sz OR of_bool u"

definition tags_ok :: "blocks \<Rightarrow> bmem \<Rightarrow> bool" where
  "tags_ok B m \<longleftrightarrow>
     (\<forall>p sz u. B p = Some (sz, u) \<longrightarrow>
        rd64 m (unat p) = tag_word sz u \<and> rd64 m (unat p + unat sz - 8) = tag_word sz u)"

fun hd_or :: "u64 \<Rightarrow> u64 list \<Rightarrow> u64" where
  "hd_or nx [] = nx"
| "hd_or nx (x # xs) = x"

fun dll :: "bmem \<Rightarrow> u64 \<Rightarrow> u64 list \<Rightarrow> u64 \<Rightarrow> bool" where
  "dll m pr [] nx = True"
| "dll m pr (x # xs) nx =
     (rd64 m (unat x + 8) = pr \<and> rd64 m (unat x + 16) = hd_or nx xs \<and> dll m x xs nx)"

definition heap_core :: "blocks \<Rightarrow> u64 list \<Rightarrow> 'a heap_scheme \<Rightarrow> bool" where
  "heap_core B fl s \<longleftrightarrow>
     blocks_ok B (heap_end s) \<and> tags_ok B (hmem s) \<and> dll (hmem s) 0 fl 0 \<and> distinct fl \<and>
     (\<forall>p \<in> set fl. \<exists>sz. B p = Some (sz, False)) \<and> free_list s = hd_or 0 fl"

definition heap_ok :: "blocks \<Rightarrow> 'a heap_scheme \<Rightarrow> bool" where
  "heap_ok B s \<longleftrightarrow>
     blocks_next B (heap_end s) \<and>
     (\<exists>fl. heap_core B fl s \<and> set fl = {p. \<exists>sz. B p = Some (sz, False)})"

text \<open>The live allocations: user pointer to usable size.\<close>

definition live :: "blocks \<Rightarrow> u64 \<rightharpoonup> nat" where
  "live B p = (case B (p - HDR) of Some (sz, True) \<Rightarrow> Some (unat sz - 32) | _ \<Rightarrow> None)"

definition keeps :: "(u64 \<rightharpoonup> nat) \<Rightarrow> bmem \<Rightarrow> bmem \<Rightarrow> bool" where
  "keeps L m m' \<longleftrightarrow> (\<forall>p k. L p = Some k \<longrightarrow> (\<forall>x \<in> {unat p..<unat p + k}. m' x = m x))"

lemma keeps_refl [simp]: "keeps L m m"
  by (simp add: keeps_def)

lemma keepsD: "keeps L m m' \<Longrightarrow> L p = Some k \<Longrightarrow> i < k \<Longrightarrow> m' (unat p + i) = m (unat p + i)"
  by (simp add: keeps_def)

lemma keeps_trans: "keeps L m m' \<Longrightarrow> keeps L m' m'' \<Longrightarrow> keeps L m m''"
  by (simp add: keeps_def)

lemma keeps_antimono: "keeps L m m' \<Longrightarrow> L' \<subseteq>\<^sub>m L \<Longrightarrow> keeps L' m m'"
  unfolding keeps_def map_le_def by (metis domI)

lemma blocks_okD:
  assumes "blocks_ok B E" and "B p = Some (sz, u)"
  shows "p \<noteq> 0" and "48 \<le> unat sz" and "8 dvd unat sz" and "unat p + unat sz \<le> unat E"
    and "unat p + unat sz < 2 ^ 64"
proof -
  show b: "p \<noteq> 0" "48 \<le> unat sz" "8 dvd unat sz" "unat p + unat sz \<le> unat E"
    using assms unfolding blocks_ok_def by blast+
  show "unat p + unat sz < 2 ^ 64" using b(4) unat_less_2p64 [of E] by (simp add: le_less_trans)
qed

lemma blocks_ok_disj:
  assumes "blocks_ok B E" and "B p = Some (sz, u)" and "B q = Some (sz', u')" and "p \<noteq> q"
  shows "unat p + unat sz \<le> unat q \<or> unat q + unat sz' \<le> unat p"
  using assms unfolding blocks_ok_def by blast

lemma unat_block_off:
  assumes "blocks_ok B E" and "B p = Some (sz, u)" and "unat k \<le> unat sz"
  shows "unat (p + k) = unat p + unat k"
  using blocks_okD(5) [OF assms(1,2)] assms(3) by (simp add: unat_word_ariths)

lemma live_block:
  assumes "live B p = Some k"
  obtains sz where "B (p - 24) = Some (sz, True)" and "k = unat sz - 32"
  using assms by (auto simp: live_def split: option.splits prod.splits bool.splits)

lemma live_unat:
  assumes "blocks_ok B E" and "live B p = Some k"
  obtains sz where "B (p - 24) = Some (sz, True)" and "unat p = unat (p - 24) + 24" and "k + 32 = unat sz"
proof -
  from assms(2) obtain sz where sz: "B (p - 24) = Some (sz, True)" "k = unat sz - 32"
    by (rule live_block)
  note b = blocks_okD [OF assms(1) sz(1)]
  from unat_block_off [OF assms(1) sz(1), of 24] b(2) have "unat p = unat (p - 24) + 24" by simp
  with sz b show ?thesis by (intro that) auto
qed

lemma tag_word_bits:
  assumes "8 dvd unat sz"
  shows "tag_word sz u AND - 2 = sz" and "tag_word sz u AND 1 = of_bool u"
proof -
  have "even (unat sz)" using assms by (meson dvd_trans dvd_numeral_simp even_numeral)
  moreover have "bit (unat sz) 0 = bit sz 0" by (simp only: bit_unsigned_iff) simp
  ultimately have e: "\<not> bit sz 0" by (simp add: bit_0)
  have "tag_word sz u AND NOT 1 = sz"
    by (rule bit_word_eqI) (use e in \<open>auto simp: tag_word_def bit_simps bit_1_iff of_bool_def intro: gr0I\<close>)
  then show "tag_word sz u AND - 2 = sz" by simp
  show "tag_word sz u AND 1 = of_bool u"
    by (rule bit_word_eqI) (use e in \<open>auto simp: tag_word_def bit_simps bit_1_iff of_bool_def intro: gr0I\<close>)
qed

lemma core_blk:
  assumes "heap_core B fl s" and "B p = Some (sz, u)"
  shows "blk_size p s = sz" and "blk_used p s = u"
  using assms tag_word_bits [of sz u] blocks_okD(3) [of B "heap_end s" p sz u]
  by (auto simp: heap_core_def tags_ok_def blk_size_def blk_used_def)

lemma dll_cong:
  assumes "\<And>x. x \<in> set fl \<Longrightarrow> rd64 m' (unat x + 8) = rd64 m (unat x + 8)"
    and "\<And>x. x \<in> set fl \<Longrightarrow> rd64 m' (unat x + 16) = rd64 m (unat x + 16)"
  shows "dll m' pr fl nx = dll m pr fl nx"
  using assms by (induction fl arbitrary: pr) auto

lemma dll_append:
  "dll m pr (xs @ ys) nx \<longleftrightarrow> dll m pr xs (hd_or nx ys) \<and> dll m (last (pr # xs)) ys nx"
proof (induction xs arbitrary: pr)
  case (Cons x xs)
  have "hd_or nx (xs @ ys) = hd_or (hd_or nx ys) xs" by (cases xs) auto
  with Cons.IH show ?case by auto
qed simp

definition sep_links :: "u64 list \<Rightarrow> bool" where
  "sep_links fl \<longleftrightarrow>
     distinct fl \<and> (\<forall>x \<in> set fl. \<forall>y \<in> set fl. x \<noteq> y \<longrightarrow> unat x + 48 \<le> unat y \<or> unat y + 48 \<le> unat x)"

lemma sep_linksD:
  "sep_links fl \<Longrightarrow> x \<in> set fl \<Longrightarrow> y \<in> set fl \<Longrightarrow> x \<noteq> y \<Longrightarrow> unat x + 48 \<le> unat y \<or> unat y + 48 \<le> unat x"
  by (simp add: sep_links_def)

lemma dll_set_next:
  assumes "dll m pr xs nx" and "sep_links xs" and "xs \<noteq> []"
  shows "dll (wr64 m (unat (last xs) + 16) nx') pr xs nx'"
proof -
  obtain zs z where xs: "xs = zs @ [z]" using assms(3) by (cases xs rule: rev_cases) auto
  have d: "unat x + 48 \<le> unat z \<or> unat z + 48 \<le> unat x" if "x \<in> set zs" for x
    using sep_linksD [OF assms(2), of x z] assms(2) that by (auto simp: xs sep_links_def)
  have "dll (wr64 m (unat z + 16) nx') pr zs z = dll m pr zs z"
    by (rule dll_cong; rule rd64_wr64_other) (use d in force)+
  with assms(1) show ?thesis
    by (simp add: xs dll_append rd64_wr64_other)
qed

lemma dll_set_prev:
  assumes "dll m pr (y # ys) nx" and "sep_links (y # ys)"
  shows "dll (wr64 m (unat y + 8) pr') pr' (y # ys) nx"
proof -
  have d: "unat x + 48 \<le> unat y \<or> unat y + 48 \<le> unat x" if "x \<in> set ys" for x
    using sep_linksD [OF assms(2), of x y] assms(2) that by (auto simp: sep_links_def)
  have "dll (wr64 m (unat y + 8) pr') y ys nx = dll m y ys nx"
    by (rule dll_cong; rule rd64_wr64_other) (use d in force)+
  with assms(1) show ?thesis
    by (simp add: rd64_wr64_other)
qed

lemma dll_same_off:
  assumes "dll m pr xs nx" and "same_off X m m'"
    and "\<And>x. x \<in> set xs \<Longrightarrow> {unat x + 8..<unat x + 24} \<inter> X = {}"
  shows "dll m' pr xs nx"
proof -
  have "rd64 m' (unat x + 8) = rd64 m (unat x + 8)" if "x \<in> set xs" for x
    by (rule rd64_same_off [OF assms(2)]) (use assms(3) [OF that] in \<open>auto simp: disjoint_iff\<close>)
  moreover have "rd64 m' (unat x + 16) = rd64 m (unat x + 16)" if "x \<in> set xs" for x
    by (rule rd64_same_off [OF assms(2)]) (use assms(3) [OF that] in \<open>auto simp: disjoint_iff\<close>)
  ultimately show ?thesis using assms(1) dll_cong [of xs m' m pr nx] by simp
qed

lemma dll_wr64_far:
  assumes "dll m pr xs nx" and "\<And>x. x \<in> set xs \<Longrightarrow> unat x + 24 \<le> a \<or> a \<le> unat x"
  shows "dll (wr64 m a v) pr xs nx"
proof -
  have "rd64 (wr64 m a v) (unat x + 8) = rd64 m (unat x + 8)"
    "rd64 (wr64 m a v) (unat x + 16) = rd64 m (unat x + 16)" if "x \<in> set xs" for x
    using assms(2) [OF that] by (auto intro!: rd64_wr64_other)
  with assms(1) dll_cong [of xs "wr64 m a v" m pr nx] show ?thesis by simp
qed

section \<open>Elementary updates\<close>

lemma core_sep:
  assumes "heap_core B fl s"
  shows "sep_links fl"
  unfolding sep_links_def
proof (intro conjI ballI impI)
  show "distinct fl" using assms by (simp add: heap_core_def)
next
  fix x y
  assume xy: "x \<in> set fl" "y \<in> set fl" "x \<noteq> y"
  with assms obtain sz sz' where "B x = Some (sz, False)" "B y = Some (sz', False)" "blocks_ok B (heap_end s)"
    unfolding heap_core_def by blast
  with xy(3) blocks_ok_disj blocks_okD(2) show "unat x + 48 \<le> unat y \<or> unat y + 48 \<le> unat x"
    by (meson add_le_mono le_refl order.trans)
qed

lemma tags_same_off:
  assumes tags: "tags_ok B m" and ok: "blocks_ok B E" and off: "same_off X m m'"
    and hdr: "\<And>p sz u. B p = Some (sz, u) \<Longrightarrow> {unat p..<unat p + 8} \<inter> X = {}"
    and ftr: "\<And>p sz u. B p = Some (sz, u) \<Longrightarrow> {unat p + unat sz - 8..<unat p + unat sz} \<inter> X = {}"
  shows "tags_ok B m'"
  unfolding tags_ok_def
proof (intro allI impI)
  fix p sz u
  assume b: "B p = Some (sz, u)"
  have "unat p + unat sz - 8 + 8 = unat p + unat sz" using blocks_okD(2) [OF ok b] by simp
  with ftr [OF b] have "rd64 m' (unat p + unat sz - 8) = rd64 m (unat p + unat sz - 8)"
    by (intro rd64_same_off [OF off]) simp
  moreover have "rd64 m' (unat p) = rd64 m (unat p)"
    using hdr [OF b] by (intro rd64_same_off [OF off])
  ultimately show "rd64 m' (unat p) = tag_word sz u \<and> rd64 m' (unat p + unat sz - 8) = tag_word sz u"
    using tags b by (simp add: tags_ok_def)
qed

lemma core_mem_update:
  assumes core: "heap_core B fl s" and off: "same_off X (hmem s) m'"
    and links: "\<And>x. x \<in> set fl \<Longrightarrow> {unat x + 8..<unat x + 24} \<inter> X = {}"
    and hdr: "\<And>p sz u. B p = Some (sz, u) \<Longrightarrow> {unat p..<unat p + 8} \<inter> X = {}"
    and ftr: "\<And>p sz u. B p = Some (sz, u) \<Longrightarrow> {unat p + unat sz - 8..<unat p + unat sz} \<inter> X = {}"
  shows "heap_core B fl (s\<lparr>hmem := m'\<rparr>)"
proof -
  have "tags_ok B m'"
    using core by (intro tags_same_off [OF _ _ off hdr ftr, where E = "heap_end s"]) (simp_all add: heap_core_def)
  moreover have "dll m' 0 fl 0"
    using core by (intro dll_same_off [OF _ off links]) (simp_all add: heap_core_def)
  ultimately show ?thesis
    using core by (simp add: heap_core_def)
qed

text \<open>The link words of a set of blocks, where the free-list operations write.\<close>

definition link_words :: "u64 set \<Rightarrow> nat set" where
  "link_words P = (\<Union>p \<in> P. {unat p + 8..<unat p + 24})"

lemma link_words_tags:
  assumes ok: "blocks_ok B E" and P: "P \<subseteq> dom B" and b: "B p = Some (sz, u)"
  shows "{unat p..<unat p + 8} \<inter> link_words P = {}"
    and "{unat p + unat sz - 8..<unat p + unat sz} \<inter> link_words P = {}"
    and "{unat p + 24..<unat p + unat sz - 8} \<inter> link_words P = {}"
proof -
  have "{unat p..<unat p + 8} \<inter> {unat q + 8..<unat q + 24} = {} \<and>
      {unat p + unat sz - 8..<unat p + unat sz} \<inter> {unat q + 8..<unat q + 24} = {} \<and>
      {unat p + 24..<unat p + unat sz - 8} \<inter> {unat q + 8..<unat q + 24} = {}" if "q \<in> P" for q
  proof -
    from that P obtain sz' u' where q: "B q = Some (sz', u')" by auto
    note bp = blocks_okD [OF ok b] and bq = blocks_okD [OF ok q]
    show ?thesis
      using blocks_ok_disj [OF ok b q] bp(2) bq(2) by (cases "p = q") auto
  qed
  then show "{unat p..<unat p + 8} \<inter> link_words P = {}"
    and "{unat p + unat sz - 8..<unat p + unat sz} \<inter> link_words P = {}"
    and "{unat p + 24..<unat p + unat sz - 8} \<inter> link_words P = {}"
    unfolding link_words_def by blast+
qed

lemma keeps_same_off:
  assumes "blocks_ok B E" and "same_off X m m'"
    and "\<And>p sz. B p = Some (sz, True) \<Longrightarrow> {unat p + 24..<unat p + unat sz - 8} \<inter> X = {}"
  shows "keeps (live B) m m'"
  unfolding keeps_def
proof (intro allI impI ballI)
  fix p k x
  assume l: "live B p = Some k" and x: "x \<in> {unat p..<unat p + k}"
  from live_unat [OF assms(1) l] obtain sz where
    "B (p - 24) = Some (sz, True)" "unat p = unat (p - 24) + 24" "k + 32 = unat sz" .
  with assms(3) [of "p - 24" sz] x have "x \<notin> X" by fastforce
  with assms(2) show "m' x = m x" by (simp add: same_off_def)
qed

lemma tags_link_words:
  assumes "tags_ok B m" and "blocks_ok B E" and "P \<subseteq> dom B" and "same_off (link_words P) m m'"
  shows "tags_ok B m'"
  by (rule tags_same_off [OF assms(1,2,4) link_words_tags(1,2) [OF assms(2,3)]])

lemma same_off_link:
  "p \<in> P \<Longrightarrow> same_off (link_words P) m (wr64 m (unat p + 8) v)"
  "p \<in> P \<Longrightarrow> same_off (link_words P) m (wr64 m (unat p + 16) v)"
  by (rule same_off_mono [OF same_off_wr64]; auto simp: link_words_def)+

lemma keeps_link_words:
  assumes "blocks_ok B E" and "P \<subseteq> dom B" and "same_off (link_words P) m m'"
  shows "keeps (live B) m m'"
  by (rule keeps_same_off [OF assms(1,3) link_words_tags(3) [OF assms(1,2)]])

text \<open>Every store of the free-list operations, as memory updates.\<close>

lemma heap_store_sel [simp]:
  "hmem (heap_store a v s) = wr64 (hmem s) (unat a) v" "free_list (heap_store a v s) = free_list s"
  "heap_end (heap_store a v s) = heap_end s"
  by (simp_all add: heap_store_def)

lemma core_unat:
  assumes "heap_core B fl s" and "B p = Some (sz, u)"
  shows "unat (p + 8) = unat p + 8" and "unat (p + 16) = unat p + 16" and "unat (p + 24) = unat p + 24"
    and "p \<noteq> 0"
  using assms blocks_okD(1,2) [of B "heap_end s" p sz u] unat_block_off [of B "heap_end s" p sz u 8]
    unat_block_off [of B "heap_end s" p sz u 16] unat_block_off [of B "heap_end s" p sz u 24]
  by (simp_all add: heap_core_def)

lemma core_remove:
  assumes core: "heap_core B fl s" and h: "h \<in> set fl"
  shows "heap_core B (remove1 h fl) (free_list_remove h s)"
    and "keeps (live B) (hmem s) (hmem (free_list_remove h s))"
    and "heap_end (free_list_remove h s) = heap_end s"
proof -
  from core h obtain sz where b: "B h = Some (sz, False)" by (auto simp: heap_core_def)
  have ok: "blocks_ok B (heap_end s)" using core by (simp add: heap_core_def)
  obtain xs ys where fl: "fl = xs @ h # ys" and hx: "h \<notin> set xs" using h by (meson split_list_first)
  have dist: "distinct fl" using core by (simp add: heap_core_def)
  have rem: "remove1 h fl = xs @ ys" using fl hx by (simp add: remove1_append)
  note sep = core_sep [OF core]
  have dll: "dll (hmem s) 0 xs h" "rd64 (hmem s) (unat h + 8) = last (0 # xs)"
    "rd64 (hmem s) (unat h + 16) = hd_or 0 ys" "dll (hmem s) h ys 0"
    using core by (simp_all add: heap_core_def fl dll_append)
  have inB: "\<exists>sz. B x = Some (sz, False)" if "x \<in> set fl" for x
    using core that by (simp add: heap_core_def)
  have nz: "x \<noteq> 0" "unat (x + 8) = unat x + 8" "unat (x + 16) = unat x + 16" if "x \<in> set fl" for x
    using inB [OF that] core_unat [OF core] by blast+
  note uh = nz [OF h]
  have far: "unat h + 48 \<le> unat x \<or> unat x + 48 \<le> unat h" if "x \<in> set (xs @ ys)" for x
    using sep_linksD [OF sep, of h x] dist that by (auto simp: fl)
  let ?m = "hmem s"
  define m1 where "m1 = (if xs = [] then ?m else wr64 ?m (unat (last xs) + 16) (hd_or 0 ys))"
  define m2 where "m2 = (if ys = [] then m1 else wr64 m1 (unat (hd ys) + 8) (last (0 # xs)))"
  define m3 where "m3 = wr64 (wr64 m2 (unat h + 16) 0) (unat h + 8) 0"
  have p0: "prev_free h s = last (0 # xs)" "next_free h s = hd_or 0 ys"
    using dll uh by (simp_all add: prev_free_def next_free_def)
  have lastnz: "last (0 # xs) = 0 \<longleftrightarrow> xs = []"
    using nz(1) [of "last xs"] fl by auto
  have hdnz: "hd_or 0 ys = 0 \<longleftrightarrow> ys = []"
    using nz(1) [of "hd ys"] fl by (cases ys) auto
  have m1h: "rd64 m1 (unat h + 8) = last (0 # xs)" "rd64 m1 (unat h + 16) = hd_or 0 ys"
    using dll far [of "last xs"] by (auto simp: m1_def rd64_wr64_other)
  have sub: "sep_links xs" "sep_links ys"
    using sep by (auto simp: sep_links_def fl)
  have cross: "unat x + 48 \<le> unat y \<or> unat y + 48 \<le> unat x" if "x \<in> set xs" "y \<in> set ys" for x y
    using sep_linksD [OF sep, of x y] dist that by (auto simp: fl)
  have m1: "dll m1 0 xs (hd_or 0 ys)" "dll m1 h ys 0"
  proof -
    show "dll m1 0 xs (hd_or 0 ys)"
      using dll_set_next [OF dll(1) sub(1)] by (simp add: m1_def)
    show "dll m1 h ys 0"
    proof (cases "xs = []")
      case False
      then have "m1 = wr64 ?m (unat (last xs) + 16) (hd_or 0 ys)" by (simp add: m1_def)
      then show ?thesis
        using cross [OF last_in_set [OF False]] by (fastforce intro!: dll_wr64_far [OF dll(4)])
    qed (use dll(4) in \<open>simp add: m1_def\<close>)
  qed
  have m2: "dll m2 0 xs (hd_or 0 ys)" "dll m2 (last (0 # xs)) ys 0"
  proof -
    show "dll m2 0 xs (hd_or 0 ys)"
    proof (cases "ys = []")
      case False
      then have "m2 = wr64 m1 (unat (hd ys) + 8) (last (0 # xs))" by (simp add: m2_def)
      then show ?thesis
        using cross [OF _ hd_in_set [OF False]] by (fastforce intro!: dll_wr64_far [OF m1(1)])
    qed (use m1(1) in \<open>simp add: m2_def\<close>)
    show "dll m2 (last (0 # xs)) ys 0"
      using m1(2) sub(2) dll_set_prev by (cases ys) (auto simp: m2_def simp del: last.simps)
  qed
  have m3off: "same_off {unat h + 8..<unat h + 24} m2 m3"
    unfolding m3_def by (auto simp: same_off_def wr64_other_byte)
  have "dll m3 0 (xs @ ys) 0"
    using m2 by (intro dll_same_off [OF _ m3off]) (use far in \<open>force simp: dll_append\<close>)+
  moreover have "same_off (link_words (set fl)) ?m m3"
  proof -
    have "same_off (link_words (set fl)) ?m m1" "same_off (link_words (set fl)) m1 m2"
      by (auto simp: m1_def m2_def fl intro!: same_off_link)
    moreover have "same_off (link_words (set fl)) m2 m3"
      by (rule same_off_mono [OF m3off]) (auto simp: link_words_def fl)
    ultimately show ?thesis by (blast intro: same_off_chain)
  qed
  note off = this
  have dom: "set fl \<subseteq> dom B" using inB by blast
  have eq: "free_list_remove h s = s\<lparr>hmem := m3, free_list := hd_or 0 (xs @ ys)\<rparr>"
  proof -
    define s1 where "s1 = (if prev_free h s \<noteq> 0 then heap_store (prev_free h s + 16) (next_free h s) s
                           else s\<lparr>free_list := next_free h s\<rparr>)"
    have s1: "s1 = s\<lparr>hmem := m1, free_list := (if xs = [] then hd_or 0 ys else free_list s)\<rparr>"
      using nz [of "last xs"] by (auto simp: s1_def p0 m1_def heap_store_def fl)
    have p1: "prev_free h s1 = last (0 # xs)" "next_free h s1 = hd_or 0 ys"
      using m1h uh by (simp_all add: prev_free_def next_free_def s1)
    define s2 where "s2 = (if next_free h s1 \<noteq> 0 then heap_store (next_free h s1 + 8) (prev_free h s1) s1 else s1)"
    have s2: "s2 = s1\<lparr>hmem := m2\<rparr>"
    proof -
      have "hmem s1 = m1" "s1\<lparr>hmem := m1\<rparr> = s1" by (simp_all add: s1)
      with nz(1,2) [of "hd ys"] show ?thesis
        by (cases ys) (simp_all add: s2_def p1 m2_def heap_store_def fl)
    qed
    have "free_list_remove h s = clear_links h s2"
      by (simp add: free_list_remove_def Let_def s1_def s2_def)
    also have "\<dots> = s2\<lparr>hmem := m3\<rparr>"
      using uh by (simp add: clear_links_def heap_store_def m3_def s2)
    finally show ?thesis
      using core by (cases xs) (simp_all add: s1 s2 heap_core_def fl)
  qed
  show "heap_core B (remove1 h fl) (free_list_remove h s)"
    unfolding rem eq using core dom tags_link_words [OF _ ok dom off] calculation dist inB
    by (auto simp: heap_core_def fl)
  show "keeps (live B) (hmem s) (hmem (free_list_remove h s))"
    using keeps_link_words [OF ok dom off] by (simp add: eq)
  show "heap_end (free_list_remove h s) = heap_end s" by (simp add: eq)
qed

lemma core_insert:
  assumes core: "heap_core B fl s" and h: "B h = Some (sz, False)" "h \<notin> set fl"
  shows "heap_core B (h # fl) (free_list_insert h s)"
    and "keeps (live B) (hmem s) (hmem (free_list_insert h s))"
    and "heap_end (free_list_insert h s) = heap_end s"
proof -
  have ok: "blocks_ok B (heap_end s)" using core by (simp add: heap_core_def)
  note uh = core_unat [OF core h(1)]
  have inB: "\<exists>sz. B x = Some (sz, False)" if "x \<in> set fl" for x
    using core that by (simp add: heap_core_def)
  have nz: "x \<noteq> 0" "unat (x + 8) = unat x + 8" if "x \<in> set fl" for x
    using inB [OF that] core_unat [OF core] by blast+
  have far: "unat h + 48 \<le> unat x \<or> unat x + 48 \<le> unat h" if "x \<in> set fl" for x
    using inB [OF that] blocks_ok_disj [OF ok h(1)] blocks_okD(2) [OF ok] h that
    by (metis (no_types, lifting) add_le_mono le_refl order.trans)
  let ?m = "hmem s"
  define m1 where "m1 = wr64 (wr64 ?m (unat h + 16) (hd_or 0 fl)) (unat h + 8) 0"
  define m2 where "m2 = (if fl = [] then m1 else wr64 m1 (unat (hd fl) + 8) h)"
  have d1: "dll m1 0 fl 0"
    unfolding m1_def using core far by (intro dll_wr64_far) (fastforce simp: heap_core_def)+
  have d2: "dll m2 h fl 0"
    using d1 dll_set_prev core_sep [OF core] by (cases fl) (auto simp: m2_def)
  have h1: "rd64 m1 (unat h + 8) = 0" "rd64 m1 (unat h + 16) = hd_or 0 fl"
    by (simp_all add: m1_def rd64_wr64_other)
  have h2: "rd64 m2 (unat h + 8) = 0" "rd64 m2 (unat h + 16) = hd_or 0 fl"
    using h1 far [of "hd fl"] by (auto simp: m2_def rd64_wr64_other)
  have off: "same_off (link_words (set (h # fl))) ?m m2"
  proof -
    have "same_off (link_words (set (h # fl))) ?m (wr64 ?m (unat h + 16) (hd_or 0 fl))"
      "same_off (link_words (set (h # fl))) (wr64 ?m (unat h + 16) (hd_or 0 fl)) m1"
      "same_off (link_words (set (h # fl))) m1 m2"
      by (auto simp: m1_def m2_def intro!: same_off_link)
    then show ?thesis by (blast intro: same_off_chain)
  qed
  have dom: "set (h # fl) \<subseteq> dom B" using inB h by auto
  have eq: "free_list_insert h s = s\<lparr>hmem := m2, free_list := h\<rparr>"
  proof -
    have f: "free_list s = hd_or 0 fl" using core by (simp add: heap_core_def)
    show ?thesis
      using uh nz [of "hd fl"] by (cases fl) (simp_all add: free_list_insert_def Let_def f heap_store_def m1_def m2_def)
  qed
  show "heap_core B (h # fl) (free_list_insert h s)"
    using core h h2 d2 tags_link_words [OF _ ok dom off] by (simp add: eq heap_core_def)
  show "keeps (live B) (hmem s) (hmem (free_list_insert h s))"
    using keeps_link_words [OF ok dom off] by (simp add: eq)
  show "heap_end (free_list_insert h s) = heap_end s" by (simp add: eq)
qed

lemma set_size_mem:
  assumes "unat h + unat sz < 2 ^ 64" and "16 \<le> unat sz" and "8 dvd unat sz"
  shows "set_size h sz u s =
           s\<lparr>hmem := wr64 (wr64 (hmem s) (unat h) (tag_word sz u)) (unat h + unat sz - 8) (tag_word sz u)\<rparr>"
proof -
  let ?s1 = "heap_store h (tag_word sz u) s"
  have "blk_size h ?s1 = sz"
    using tag_word_bits(1) [OF assms(3), of u] by (simp add: blk_size_def)
  moreover have "unat (h + sz - 8) = unat h + unat sz - 8"
    using assms(1,2) by (simp add: unat_word_ariths unat_sub word_le_nat_alt)
  ultimately show ?thesis
    by (simp add: set_size_def Let_def get_footer_def heap_store_def tag_word_def)
qed

definition tag_cells :: "u64 \<Rightarrow> u64 \<Rightarrow> nat set" where
  "tag_cells h sz = {unat h..<unat h + 8} \<union> {unat h + unat sz - 8..<unat h + unat sz}"

lemma core_set_size:
  assumes core: "heap_core B fl s" and ok: "blocks_ok B' (heap_end s)" and h: "B' h = Some (sz, u)" "h \<notin> set fl"
    and other: "\<And>p. p \<noteq> h \<Longrightarrow> B' p \<noteq> None \<Longrightarrow> B' p = B p" "\<And>p. p \<in> set fl \<Longrightarrow> B' p = B p"
  shows "heap_core B' fl (set_size h sz u s)"
    and "same_off (tag_cells h sz) (hmem s) (hmem (set_size h sz u s))"
    and "heap_end (set_size h sz u s) = heap_end s"
proof -
  note b = blocks_okD [OF ok h(1)]
  define m1 where "m1 = wr64 (hmem s) (unat h) (tag_word sz u)"
  define m2 where "m2 = wr64 m1 (unat h + unat sz - 8) (tag_word sz u)"
  have eq: "set_size h sz u s = s\<lparr>hmem := m2\<rparr>"
    using b by (simp add: set_size_mem m1_def m2_def)
  have "{unat h + unat sz - 8..<unat h + unat sz - 8 + 8} \<subseteq> tag_cells h sz" using b(2) by (auto simp: tag_cells_def)
  then have off: "same_off (tag_cells h sz) (hmem s) m2"
    unfolding m2_def m1_def
    by (intro same_off_chain [OF same_off_mono [OF same_off_wr64] same_off_mono [OF same_off_wr64]])
      (auto simp: tag_cells_def)
  then show "same_off (tag_cells h sz) (hmem s) (hmem (set_size h sz u s))" by (simp add: eq)
  have sub: "tag_cells h sz \<subseteq> {unat h..<unat h + unat sz}" using b(2) by (auto simp: tag_cells_def)
  have apart: "{unat p..<unat p + unat sz'} \<inter> tag_cells h sz = {}" if "B' p = Some (sz', u')" "p \<noteq> h" for p sz' u'
    using blocks_ok_disj [OF ok that(1) h(1) that(2)] sub by fastforce
  have "tags_ok B' m2"
    unfolding tags_ok_def
  proof (intro allI impI)
    fix p sz' u'
    assume p: "B' p = Some (sz', u')"
    show "rd64 m2 (unat p) = tag_word sz' u' \<and> rd64 m2 (unat p + unat sz' - 8) = tag_word sz' u'"
    proof (cases "p = h")
      case True
      with p h b(2) show ?thesis by (simp add: m2_def m1_def rd64_wr64_other)
    next
      case False
      note bp = blocks_okD [OF ok p]
      have "rd64 m2 (unat p) = rd64 (hmem s) (unat p)"
        "rd64 m2 (unat p + unat sz' - 8) = rd64 (hmem s) (unat p + unat sz' - 8)"
        using apart [OF p False] bp(2) by (auto intro!: rd64_same_off [OF off] simp: disjoint_iff)
      moreover have "B p = Some (sz', u')" using other(1) [OF False] p by simp
      ultimately show ?thesis using core by (simp add: heap_core_def tags_ok_def)
    qed
  qed
  moreover have "dll m2 0 fl 0"
  proof (rule dll_same_off [OF _ off])
    show "dll (hmem s) 0 fl 0" using core by (simp add: heap_core_def)
    fix x assume x: "x \<in> set fl"
    with core other(2) obtain sz' where b': "B' x = Some (sz', False)" by (auto simp: heap_core_def)
    with apart [OF b'] x h(2) blocks_okD(2) [OF ok b'] show "{unat x + 8..<unat x + 24} \<inter> tag_cells h sz = {}"
      by (fastforce simp: disjoint_iff)
  qed
  ultimately show "heap_core B' fl (set_size h sz u s)"
    using core ok other(2) by (simp add: heap_core_def eq)
  show "heap_end (set_size h sz u s) = heap_end s" by (simp add: eq)
qed

lemma core_clear_links:
  assumes core: "heap_core B fl s" and h: "B h = Some (sz, u)" "h \<notin> set fl"
  shows "heap_core B fl (clear_links h s)"
    and "keeps (live B) (hmem s) (hmem (clear_links h s))"
    and "heap_end (clear_links h s) = heap_end s" "free_list (clear_links h s) = free_list s"
proof -
  have ok: "blocks_ok B (heap_end s)" using core by (simp add: heap_core_def)
  note uh = core_unat [OF core h(1)]
  define m where "m = wr64 (wr64 (hmem s) (unat h + 16) 0) (unat h + 8) 0"
  have eq: "clear_links h s = s\<lparr>hmem := m\<rparr>"
    using uh by (simp add: clear_links_def heap_store_def m_def)
  have off: "same_off (link_words {h}) (hmem s) m"
    unfolding m_def by (blast intro: same_off_chain same_off_link)
  have dom: "{h} \<subseteq> dom B" using h by auto
  note tags = link_words_tags [OF ok dom]
  show "heap_core B fl (clear_links h s)"
    unfolding eq
  proof (rule core_mem_update [OF core off])
    fix x assume x: "x \<in> set fl"
    with core obtain sz' where b': "B x = Some (sz', False)" by (auto simp: heap_core_def)
    have "x \<noteq> h" using x h(2) by auto
    with blocks_ok_disj [OF ok b' h(1)] blocks_okD(2) [OF ok b'] blocks_okD(2) [OF ok h(1)]
    show "{unat x + 8..<unat x + 24} \<inter> link_words {h} = {}" by (auto simp: link_words_def)
  qed (use tags in blast)+
  show "keeps (live B) (hmem s) (hmem (clear_links h s))"
    using keeps_link_words [OF ok dom off] by (simp add: eq)
qed (simp_all add: clear_links_def)

section \<open>Allocation\<close>

lemma heap_okE:
  assumes "heap_ok B s"
  obtains fl where "heap_core B fl s" and "\<forall>p. p \<in> set fl \<longleftrightarrow> (\<exists>sz. B p = Some (sz, False))"
    and "blocks_ok B (heap_end s)" and "blocks_next B (heap_end s)"
  using assms unfolding heap_ok_def heap_core_def by blast

lemma blocks_ok_retag:
  assumes "blocks_ok B E" and "B h = Some (sz, u)"
  shows "blocks_ok (B(h \<mapsto> (sz, u'))) E"
  using assms unfolding blocks_ok_def by (auto split: if_splits)

lemma blocks_next_retag:
  assumes "blocks_next B E" and "B h = Some (sz, u)"
  shows "blocks_next (B(h \<mapsto> (sz, u'))) E"
  unfolding blocks_next_def
proof (intro conjI allI impI)
  show "E \<noteq> 0" using assms(1) by (simp add: blocks_next_def)
next
  fix p z v
  assume p: "(B(h \<mapsto> (sz, u'))) p = Some (z, v)" and lt: "unat p + unat z < unat E"
  from p assms(2) obtain v' where "B p = Some (z, v')" by (auto split: if_splits)
  with assms(1) lt have "B (p + z) \<noteq> None" unfolding blocks_next_def by blast
  then show "(B(h \<mapsto> (sz, u'))) (p + z) \<noteq> None" by simp
qed

lemma blocks_ok_shrink:
  assumes ok: "blocks_ok B E" and h: "B h = Some (sz, u)"
    and n: "48 \<le> unat n" "8 dvd unat n" "unat n \<le> unat sz"
  shows "blocks_ok (B(h \<mapsto> (n, u'))) E"
proof -
  note b = blocks_okD [OF ok h]
  have "unat h + unat n \<le> unat q \<or> unat q + unat sz' \<le> unat h" if "B q = Some (sz', v)" "q \<noteq> h" for q sz' v
    using blocks_ok_disj [OF ok that(1) h that(2)] n(3) by linarith
  with ok b n show ?thesis
    unfolding blocks_ok_def by (auto split: if_splits)
qed

lemma blocks_ok_add:
  assumes ok: "blocks_ok B E" and r: "r \<noteq> 0" "48 \<le> unat l" "8 dvd unat l" "unat r + unat l \<le> unat E"
    and far: "\<And>q sz' v. B q = Some (sz', v) \<Longrightarrow> q \<noteq> r \<Longrightarrow> unat r + unat l \<le> unat q \<or> unat q + unat sz' \<le> unat r"
  shows "blocks_ok (B(r \<mapsto> (l, u))) E"
  unfolding blocks_ok_def
proof (intro conjI allI impI)
  fix p sz v q sz' v'
  assume "(B(r \<mapsto> (l, u))) p = Some (sz, v)" "(B(r \<mapsto> (l, u))) q = Some (sz', v')" "p \<noteq> q"
  then show "unat p + unat sz \<le> unat q \<or> unat q + unat sz' \<le> unat p"
    using far blocks_ok_disj [OF ok] by (cases "p = r"; cases "q = r") fastforce+
qed (use blocks_okD [OF ok] r in \<open>auto split: if_splits\<close>)

lemma block_free_avoids:
  assumes ok: "blocks_ok B E" and h: "B h = Some (sz, False)"
    and off: "same_off X m m'" and X: "X \<subseteq> {unat h..<unat h + unat sz}"
  shows "keeps (live B) m m'"
proof (rule keeps_same_off [OF ok off])
  fix p sz'
  assume p: "B p = Some (sz', True)"
  with h have "p \<noteq> h" by auto
  from blocks_ok_disj [OF ok p h this] X show "{unat p + 24..<unat p + unat sz' - 8} \<inter> X = {}"
    by fastforce
qed

lemma live_upd:
  "live (B(h \<mapsto> (sz, u))) = (live B)(h + 24 := (if u then Some (unat sz - 32) else None))"
proof
  fix p
  have "p - 24 = h \<longleftrightarrow> p = h + 24" by (auto simp: algebra_simps)
  then show "live (B(h \<mapsto> (sz, u))) p = ((live B)(h + 24 := (if u then Some (unat sz - 32) else None))) p"
    by (auto simp: live_def split: bool.splits)
qed

lemma live_None: "B h = None \<or> (\<exists>sz. B h = Some (sz, False)) \<Longrightarrow> live B (h + 24) = None"
  by (auto simp: live_def)

lemma map_le_upd_None: "f x = None \<Longrightarrow> f \<subseteq>\<^sub>m f(x := y)"
  by (auto simp: map_le_def)

text \<open>
  What a successful allocation does: the block map changes so that exactly one pointer is newly
  live, with at least \<open>n\<close> usable bytes, and the bytes of all live allocations stay as they are.
\<close>

definition allocates :: "blocks \<Rightarrow> nat \<Rightarrow> u64 \<Rightarrow> bmem \<Rightarrow> 'a heap_scheme \<Rightarrow> bool" where
  "allocates B n p m s' \<longleftrightarrow>
     p \<noteq> 0 \<and> live B p = None \<and> keeps (live B) m (hmem s') \<and>
     (\<exists>B' k. heap_ok B' s' \<and> n \<le> k \<and> live B' = (live B)(p \<mapsto> k))"

lemma take_block_split:
  assumes hok: "heap_ok B s" and h: "B h = Some (sz, False)"
    and n: "48 \<le> unat n" "8 dvd unat n" "unat n + 48 \<le> unat sz"
  shows "allocates B (unat n - 32) (h + 24) (hmem s) (take_block h n s)"
proof -
  obtain fl where core: "heap_core B fl s" and fl: "\<forall>p. p \<in> set fl \<longleftrightarrow> (\<exists>sz. B p = Some (sz, False))"
    and ok: "blocks_ok B (heap_end s)" and nxt: "blocks_next B (heap_end s)"
    using hok by (rule heap_okE)
  note b = blocks_okD [OF ok h] and rm = core_remove [OF core, of h]
  have hfl: "h \<in> set fl" using fl h by blast
  have dist: "distinct fl" using core by (simp add: heap_core_def)
  define fl1 where "fl1 = remove1 h fl"
  define s1 where "s1 = free_list_remove h s"
  define left where "left = sz - n"
  define rest where "rest = h + n"
  have fl1: "p \<in> set fl1 \<longleftrightarrow> p \<noteq> h \<and> (\<exists>sz. B p = Some (sz, False))" for p
    using fl dist by (auto simp: fl1_def)
  have left: "unat left = unat sz - unat n" "48 \<le> unat left" "8 dvd unat left"
    using n b(3) by (auto simp: left_def unat_sub word_le_nat_alt dvd_diff_nat)
  have rest: "unat rest = unat h + unat n" "rest \<noteq> h" "rest \<noteq> 0"
  proof -
    show u: "unat rest = unat h + unat n"
      unfolding rest_def using n(3) by (intro unat_block_off [OF ok h]) simp
    show "rest \<noteq> h" "rest \<noteq> 0" using u n(1) by auto
  qed
  have restB: "B rest = None"
  proof (rule ccontr)
    assume "B rest \<noteq> None"
    then obtain sz' u where "B rest = Some (sz', u)" by auto
    from blocks_ok_disj [OF ok h this] blocks_okD(2) [OF ok this] rest n(3) show False by auto
  qed
  define B1 where "B1 = B(h \<mapsto> (n, True))"
  define B2 where "B2 = B1(rest \<mapsto> (left, False))"
  define s2 where "s2 = set_size h n True s1"
  define s3 where "s3 = set_size rest left False s2"
  have c1: "heap_core B fl1 s1" "keeps (live B) (hmem s) (hmem s1)" "heap_end s1 = heap_end s"
    unfolding fl1_def s1_def using rm [OF hfl] by auto
  have ok1: "blocks_ok B1 (heap_end s)"
    unfolding B1_def using n by (intro blocks_ok_shrink [OF ok h]) auto
  have ok2: "blocks_ok B2 (heap_end s)"
    unfolding B2_def
  proof (rule blocks_ok_add [OF ok1 rest(3) left(2,3)])
    show "unat rest + unat left \<le> unat (heap_end s)" using b(4) rest(1) left(1) n(3) by simp
    fix q sz' v
    assume q: "B1 q = Some (sz', v)" "q \<noteq> rest"
    show "unat rest + unat left \<le> unat q \<or> unat q + unat sz' \<le> unat rest"
    proof (cases "q = h")
      case True
      with q rest(1) show ?thesis by (simp add: B1_def)
    next
      case False
      with q have "B q = Some (sz', v)" by (simp add: B1_def)
      from blocks_ok_disj [OF ok h this] False rest(1) left(1) n(3) show ?thesis by auto
    qed
  qed
  have hn: "h \<notin> set fl1" "rest \<notin> set fl1" using fl1 restB by auto
  have o1: "B1 h = Some (n, True)" "\<And>p. p \<noteq> h \<Longrightarrow> B1 p = B p" "\<And>p. p \<in> set fl1 \<Longrightarrow> B1 p = B p"
    using hn(1) by (auto simp: B1_def)
  have B2r: "B2 rest = Some (left, False)" by (simp add: B2_def)
  have o2: "\<And>p. p \<noteq> rest \<Longrightarrow> B2 p = B1 p" "\<And>p. p \<in> set fl1 \<Longrightarrow> B2 p = B1 p"
    using hn(2) by (auto simp: B2_def)
  note c2 = core_set_size [OF c1(1) ok1 [folded c1(3)] o1(1) hn(1) o1(2) o1(3), folded s2_def, simplified]
  have c2': "heap_end s2 = heap_end s" using c2(3) c1(3) by simp
  note c3 = core_set_size [OF c2(1) ok2 [folded c2'] B2r hn(2) o2(1) o2(2), folded s3_def, simplified]
  note c4 = core_clear_links [OF c3(1) B2r hn(2)]
  note c5 = core_insert [OF c4(1) B2r hn(2)]
  have tb: "take_block h n s = free_list_insert rest (clear_links rest s3)"
  proof -
    have "blk_size h s1 = sz" using core_blk(1) [OF c1(1) h] .
    moreover have "next_block h s2 = rest"
      using core_blk(1) [OF c2(1), of h n True] by (simp add: next_block_def B1_def rest_def)
    ultimately show ?thesis
      using left(2) by (simp add: take_block_def Let_def s3_def s2_def left_def s1_def [symmetric] word_le_nat_alt)
  qed
  have le: "live B \<subseteq>\<^sub>m live B2"
    using live_None [of B h] live_None [of B rest] h restB rest
    by (auto simp: B2_def B1_def live_upd map_le_def)
  have liveB2: "live B2 = (live B)(h + 24 \<mapsto> unat n - 32)"
    using live_None [of B rest] restB rest(2) by (auto simp: B2_def B1_def live_upd fun_eq_iff)
  have "keeps (live B) (hmem s) (hmem (take_block h n s))"
  proof -
    have "tag_cells h n \<subseteq> {unat h..<unat h + unat sz}" "tag_cells rest left \<subseteq> {unat h..<unat h + unat sz}"
      using n left rest(1) by (auto simp: tag_cells_def)
    then have "keeps (live B) (hmem s1) (hmem s2)" "keeps (live B) (hmem s2) (hmem s3)"
      by (auto intro: block_free_avoids [OF ok h] c2(2) c3(2))
    moreover have "keeps (live B) (hmem s3) (hmem (take_block h n s))"
      using keeps_trans [OF c4(2) c5(2)] keeps_antimono le by (simp add: tb)
    ultimately show ?thesis using c1(2) by (blast intro: keeps_trans)
  qed
  moreover have "heap_ok B2 (take_block h n s)"
    unfolding heap_ok_def
  proof (intro conjI exI)
    show "heap_core B2 (rest # fl1) (take_block h n s)" unfolding tb by (rule c5(1))
    show "set (rest # fl1) = {p. \<exists>sz. B2 p = Some (sz, False)}"
      using fl1 restB rest(2) by (auto simp: B2_def B1_def)
    have "rest + left = h + sz" by (simp add: rest_def left_def)
    moreover have "unat h + unat n + unat left = unat h + unat sz" using left(1) n(3) by simp
    ultimately show "blocks_next B2 (heap_end (take_block h n s))"
      using nxt h rest c5(3) c4(3) c3(3) c2'
      by (auto simp: blocks_next_def B2_def B1_def tb rest_def [symmetric])
  qed
  moreover have "h + 24 \<noteq> 0" using core_unat(3) [OF core h] by auto
  ultimately show ?thesis
    unfolding allocates_def using liveB2 live_None [of B h] h by blast
qed

lemma take_block_whole:
  assumes hok: "heap_ok B s" and h: "B h = Some (sz, False)"
    and n: "unat n \<le> unat sz" "unat sz < unat n + 48"
  shows "allocates B (unat n - 32) (h + 24) (hmem s) (take_block h n s)"
proof -
  obtain fl where core: "heap_core B fl s" and fl: "\<forall>p. p \<in> set fl \<longleftrightarrow> (\<exists>sz. B p = Some (sz, False))"
    and ok: "blocks_ok B (heap_end s)" and nxt: "blocks_next B (heap_end s)"
    using hok by (rule heap_okE)
  note b = blocks_okD [OF ok h]
  have hfl: "h \<in> set fl" using fl h by blast
  define fl1 where "fl1 = remove1 h fl"
  define s1 where "s1 = free_list_remove h s"
  define B1 where "B1 = B(h \<mapsto> (sz, True))"
  note c1 = core_remove [OF core hfl, folded fl1_def s1_def]
  have fl1: "p \<in> set fl1 \<longleftrightarrow> p \<noteq> h \<and> (\<exists>sz. B p = Some (sz, False))" for p
    using fl core by (auto simp: fl1_def heap_core_def)
  then have hn: "h \<notin> set fl1" by blast
  have o1: "B1 h = Some (sz, True)" "\<And>p. p \<noteq> h \<Longrightarrow> B1 p = B p" "\<And>p. p \<in> set fl1 \<Longrightarrow> B1 p = B p"
    using hn by (auto simp: B1_def)
  have ok1: "blocks_ok B1 (heap_end s1)" unfolding B1_def c1(3) by (rule blocks_ok_retag [OF ok h])
  note c2 = core_set_size [OF c1(1) ok1 o1(1) hn o1(2) o1(3), simplified]
  have size1: "blk_size h s1 = sz" using core_blk(1) [OF c1(1) h] .
  have "unat (sz - n) < 48" using n by (simp add: unat_sub word_le_nat_alt)
  then have tb: "take_block h n s = set_size h sz True s1"
    by (simp add: take_block_def Let_def s1_def [symmetric] size1 word_le_nat_alt)
  have "tag_cells h sz \<subseteq> {unat h..<unat h + unat sz}" using b(2) by (auto simp: tag_cells_def)
  then have "keeps (live B) (hmem s) (hmem (take_block h n s))"
    using keeps_trans [OF c1(2) block_free_avoids [OF ok h c2(2)]] by (simp add: tb)
  moreover have "heap_ok B1 (take_block h n s)"
    unfolding heap_ok_def tb
  proof (intro conjI exI)
    show "heap_core B1 fl1 (set_size h sz True s1)" by (rule c2(1))
    show "set fl1 = {p. \<exists>sz. B1 p = Some (sz, False)}" using fl1 by (auto simp: B1_def)
    show "blocks_next B1 (heap_end (set_size h sz True s1))"
      unfolding B1_def c1(3) c2(3) by (rule blocks_next_retag [OF nxt h])
  qed
  moreover have "live B1 = (live B)(h + 24 \<mapsto> unat sz - 32)" by (simp add: B1_def live_upd)
  moreover have "h + 24 \<noteq> 0" using core_unat(3) [OF core h] by auto
  moreover have "unat n - 32 \<le> unat sz - 32" using n(1) by simp
  ultimately show ?thesis
    unfolding allocates_def using live_None [of B h] h by blast
qed

lemma take_block_allocates:
  assumes "heap_ok B s" and "B h = Some (sz, False)"
    and "48 \<le> unat n" "8 dvd unat n" "unat n \<le> unat sz"
  shows "allocates B (unat n - 32) (h + 24) (hmem s) (take_block h n s)"
  using take_block_split [OF assms(1-4)] take_block_whole [OF assms(1,2,5)] by linarith

lemma first_fit_result:
  assumes "heap_core B fl s" and "dll (hmem s) pr xs 0" and "set xs \<subseteq> set fl" and "length xs < n"
  shows "(first_fit n (hd_or 0 xs) need s = Inr 0 \<and> (\<forall>h \<in> set xs. blk_size h s < need)) \<or>
         (\<exists>h \<in> set xs. first_fit n (hd_or 0 xs) need s = Inr h \<and> need \<le> blk_size h s)"
  using assms(2-4)
proof (induction xs arbitrary: pr n)
  case Nil
  then show ?case by (cases n) auto
next
  case (Cons x xs)
  from Cons.prems obtain n' where n: "n = Suc n'" "length xs < n'" by (cases n) auto
  from Cons.prems(2) assms(1) obtain sz where "B x = Some (sz, False)" by (auto simp: heap_core_def)
  from core_unat [OF assms(1) this] Cons.prems(1) have nf: "next_free x s = hd_or 0 xs" "x \<noteq> 0"
    by (simp_all add: next_free_def)
  show ?case
    using Cons.IH [of x n'] Cons.prems n nf by (auto simp: not_le)
qed

lemma heap_free_length: "distinct (fl :: u64 list) \<Longrightarrow> length fl < WALK_BOUND"
proof -
  assume "distinct fl"
  then have "length fl = card (set fl)" by (simp add: distinct_card)
  also have "\<dots> \<le> card (UNIV :: u64 set)" by (intro card_mono) simp_all
  finally show ?thesis by (simp add: card_word WALK_BOUND_def)
qed

lemma first_fit_heap:
  assumes "heap_ok B s"
  shows "(first_fit WALK_BOUND (free_list s) need s = Inr 0 \<and>
            (\<forall>h sz. B h = Some (sz, False) \<longrightarrow> sz < need)) \<or>
         (\<exists>h sz. first_fit WALK_BOUND (free_list s) need s = Inr h \<and> h \<noteq> 0 \<and>
            B h = Some (sz, False) \<and> need \<le> sz)"
proof -
  obtain fl where core: "heap_core B fl s" and fl: "\<forall>p. p \<in> set fl \<longleftrightarrow> (\<exists>sz. B p = Some (sz, False))"
    using assms by (rule heap_okE)
  have f: "free_list s = hd_or 0 fl" "dll (hmem s) 0 fl 0" "distinct fl"
    using core by (simp_all add: heap_core_def)
  have blk: "blk_size h s = sz \<and> h \<noteq> 0" if "B h = Some (sz, False)" for h sz
    using core_blk(1) [OF core that] core_unat(4) [OF core that] by simp
  from first_fit_result [OF core f(2) order.refl heap_free_length [OF f(3)], of need]
  consider "first_fit WALK_BOUND (free_list s) need s = Inr 0" "\<forall>h \<in> set fl. blk_size h s < need"
    | h where "h \<in> set fl" "first_fit WALK_BOUND (free_list s) need s = Inr h" "need \<le> blk_size h s"
    unfolding f(1) by blast
  then show ?thesis
  proof cases
    case 1
    then show ?thesis using fl blk by fastforce
  next
    case (2 h)
    from 2(1) fl obtain sz where "B h = Some (sz, False)" by blast
    with 2 blk show ?thesis by blast
  qed
qed

section \<open>Expansion\<close>

lemma pmm_alloc_heap:
  "hmem (snd (pmm_alloc s)) = hmem s" "free_list (snd (pmm_alloc s)) = free_list s"
  "heap_end (snd (pmm_alloc s)) = heap_end s" "heap.more (snd (pmm_alloc s)) = heap.more s"
  by (simp_all add: pmm_alloc_def bm_set_def split: option.splits)

definition same_heap :: "'a heap_scheme \<Rightarrow> 'a heap_scheme \<Rightarrow> bool" where
  "same_heap s s' \<longleftrightarrow> hmem s' = hmem s \<and> free_list s' = free_list s \<and> heap_end s' = heap_end s \<and>
     heap.more s' = heap.more s"

lemma alloc_pt_frame_heap: "alloc_pt_frame s = Inr (f, s') \<Longrightarrow> same_heap s s'"
  using pmm_alloc_heap [of s] by (auto simp: alloc_pt_frame_def same_heap_def split: prod.splits if_splits)

lemma vmm_walk_heap: "vmm_walk l t v c s = Inr (pte, s') \<Longrightarrow> same_heap s s'"
proof (induction l t v c s rule: vmm_walk.induct)
  case (1 t v c s)
  then show ?case by (simp add: same_heap_def)
next
  case (2 l t v c s)
  let ?a = "unat (t + level_idx (Suc l) v * 8)"
  let ?e = "rd64 (pmem s) ?a"
  show ?case
  proof (cases "?e AND 1 = 0")
    case True
    show ?thesis
    proof (cases c)
      case False
      with True "2.prems" show ?thesis by (simp add: same_heap_def)
    next
      case c: True
      with True "2.prems" obtain f s1 where a: "alloc_pt_frame s = Inr (f, s1)"
        by (auto simp: Let_def split: sum.splits)
      with "2.IH"(1) [OF refl refl True _ a refl] c True "2.prems" alloc_pt_frame_heap [OF a]
      show ?thesis by (simp add: Let_def same_heap_def)
    qed
  next
    case False
    with "2.IH"(2) [OF refl refl False] "2.prems" show ?thesis
      by (auto simp: Let_def same_heap_def split: if_splits)
  qed
qed

lemma vmm_map_heap:
  assumes "vmm_map v p f s = Inr s'" shows "same_heap s s'"
proof -
  from assms obtain pte s1 where "vmm_walk 3 (current_pml4 s) v True s = Inr (pte, s1)"
    and "s' = s1\<lparr>pmem := wr64 (pmem s1) (unat pte) ((p AND PAGE_MASK) OR f OR VMM_FLAG_PRESENT)\<rparr>"
    by (auto simp: vmm_map_def vmm_get_pte_def vmm_get_pte_pml4_phys_def pte_store_def
        split: sum.splits prod.splits if_splits)
  with vmm_walk_heap show ?thesis by (fastforce simp: same_heap_def)
qed

lemma heap_map_pages_heap: "heap_map_pages msg n v s = Inr s' \<Longrightarrow> same_heap s s'"
proof (induction n arbitrary: v s)
  case (Suc n)
  obtain f s1 where a: "pmm_alloc s = (f, s1)" by (cases "pmm_alloc s")
  with Suc.prems obtain s2 where m: "vmm_map v f 3 s1 = Inr s2" "heap_map_pages msg n (v + 4096) s2 = Inr s'"
    by (auto split: if_splits sum.splits)
  from Suc.IH [OF m(2)] vmm_map_heap [OF m(1)] pmm_alloc_heap [of s] a show ?case
    by (simp add: same_heap_def)
qed (simp add: same_heap_def)

lemma heap_expand_ok:
  assumes hok: "heap_ok B s" and n: "0 < unat n" "unat (heap_end s) + unat n + 4095 < 2 ^ 64"
    and ex: "heap_expand n s = Inr s'"
  obtains B' extra where "heap_ok B' s'" and "live B' = live B" and "keeps (live B) (hmem s) (hmem s')"
    and "B' (heap_end s) = Some (extra, False)" and "unat n \<le> unat extra"
proof -
  obtain fl where core: "heap_core B fl s" and fl: "\<forall>p. p \<in> set fl \<longleftrightarrow> (\<exists>sz. B p = Some (sz, False))"
    and ok: "blocks_ok B (heap_end s)" and nxt: "blocks_next B (heap_end s)"
    using hok by (rule heap_okE)
  define E where "E = heap_end s"
  define extra where "extra = ALIGN_UP n 4096"
  have "unat extra = (unat n + 4095) div 4096 * 4096"
    unfolding extra_def using n(2) by (intro unat_align_up_page) linarith
  moreover have "(unat n + 4095) div 4096 * 4096 \<le> unat n + 4095" by simp
  moreover have "0 < (unat n + 4095) div 4096" using n(1) by (simp add: div_greater_zero_iff)
  ultimately have e: "unat n \<le> unat extra" "48 \<le> unat extra" "8 dvd unat extra" "unat E + unat extra < 2 ^ 64"
    using n by (auto simp: E_def)
  have E: "unat (E + extra) = unat E + unat extra" using e(4) by (simp add: unat_word_ariths)
  have Enz: "E \<noteq> 0" using nxt by (simp add: blocks_next_def E_def)
  have EB: "B E = None"
    using blocks_okD(2,4) [OF ok, of E] by (cases "B E") (auto simp: E_def)
  from ex obtain s1 where s1: "heap_map_pages ''heap: OOM expanding heap'' (unat extra div 4096) E s = Inr s1"
    and s': "s' = free_list_insert (heap_end s1)
        ((clear_links (heap_end s1) (set_size (heap_end s1) extra False s1))
          \<lparr>heap_end := heap_end (clear_links (heap_end s1) (set_size (heap_end s1) extra False s1)) + extra\<rparr>)"
    by (auto simp: heap_expand_def Let_def extra_def E_def split: sum.splits)
  have sh: "hmem s1 = hmem s" "free_list s1 = free_list s" "heap_end s1 = E"
    using heap_map_pages_heap [OF s1] by (simp_all add: same_heap_def E_def)
  define s2 where "s2 = s1\<lparr>heap_end := E + extra\<rparr>"
  have s'2: "s' = free_list_insert E (clear_links E (set_size E extra False s2))"
    unfolding s' sh s2_def
    using sh(3) by (cases s1) (simp add: clear_links_def heap_store_def set_size_def get_footer_def blk_size_def Let_def)
  define B1 where "B1 = B(E \<mapsto> (extra, False))"
  have le: "unat p + unat sz \<le> unat E" if "B p = Some (sz, u)" for p sz u
    using blocks_okD(4) [OF ok that] by (simp add: E_def)
  have ok0: "blocks_ok B (E + extra)"
    unfolding blocks_ok_def
  proof (intro conjI allI impI)
    fix p sz u q sz' u'
    assume "B p = Some (sz, u)" "B q = Some (sz', u')" "p \<noteq> q"
    then show "unat p + unat sz \<le> unat q \<or> unat q + unat sz' \<le> unat p" by (rule blocks_ok_disj [OF ok])
  qed (use blocks_okD [OF ok] le E in \<open>auto intro: order.trans [OF le]\<close>)
  have core2: "heap_core B fl s2" using core ok0 by (simp add: heap_core_def s2_def sh)
  have ok1: "blocks_ok B1 (heap_end s2)"
    unfolding B1_def using Enz e E le by (intro blocks_ok_add) (auto simp: s2_def ok0)
  have En: "E \<notin> set fl" using fl EB by auto
  have o1: "B1 E = Some (extra, False)" "\<And>p. p \<noteq> E \<Longrightarrow> B1 p = B p" "\<And>p. p \<in> set fl \<Longrightarrow> B1 p = B p"
    using En by (auto simp: B1_def)
  note c3 = core_set_size [OF core2 ok1 o1(1) En o1(2) o1(3), simplified]
  note c4 = core_clear_links [OF c3(1) o1(1) En]
  note c5 = core_insert [OF c4(1) o1(1) En]
  have liveB1: "live B1 = live B"
    using live_None [of B E] EB by (auto simp: B1_def live_upd fun_eq_iff)
  have "keeps (live B) (hmem s2) (hmem (set_size E extra False s2))"
  proof (rule keeps_same_off [OF ok c3(2)])
    fix p sz
    assume "B p = Some (sz, True)"
    from le [OF this] e(2) show "{unat p + 24..<unat p + unat sz - 8} \<inter> tag_cells E extra = {}"
      by (auto simp: tag_cells_def)
  qed
  with keeps_trans [OF c4(2) c5(2)] have k: "keeps (live B) (hmem s) (hmem s')"
    unfolding s'2 liveB1 by (auto simp: s2_def sh intro: keeps_trans)
  have "heap_ok B1 s'"
    unfolding heap_ok_def
  proof (intro conjI exI)
    show "heap_core B1 (E # fl) s'" unfolding s'2 by (rule c5(1))
    show "set (E # fl) = {p. \<exists>sz. B1 p = Some (sz, False)}" using fl EB by (auto simp: B1_def)
    have he: "heap_end s' = E + extra" using c5(3) c4(3) c3(3) by (simp add: s'2 s2_def)
    show "blocks_next B1 (heap_end s')"
      unfolding blocks_next_def he
    proof (intro conjI allI impI)
      have "unat (E + extra) \<noteq> 0" using E e(2) by linarith
      then show "E + extra \<noteq> 0" by auto
    next
      fix p sz u
      assume p: "B1 p = Some (sz, u)" and lt: "unat p + unat sz < unat (E + extra)"
      have pE: "p \<noteq> E" using p lt E by (auto simp: B1_def)
      with p have bp: "B p = Some (sz, u)" by (simp add: B1_def)
      show "B1 (p + sz) \<noteq> None"
      proof (cases "unat p + unat sz < unat E")
        case True
        with nxt bp have "B (p + sz) \<noteq> None" by (auto simp: blocks_next_def E_def)
        then show ?thesis using o1(1,2) by (metis option.distinct(1))
      next
        case False
        with le [OF bp] have "unat (p + sz) = unat E"
          using unat_block_off [OF ok bp, of sz] by simp
        then have "p + sz = E" by (simp add: unat_eq_unat_iff)
        then show ?thesis using o1(1) by simp
      qed
    qed
  qed
  with that k liveB1 o1(1) e(1) show ?thesis unfolding E_def by blast
qed

section \<open>The allocation routines\<close>

lemma vmm_walk_not_diverges: "vmm_walk l t v c s = Inl e \<Longrightarrow> e \<noteq> Diverges"
  by (induction l t v c s rule: vmm_walk.induct)
    (auto simp: Let_def alloc_pt_frame_def split: if_splits prod.splits)

lemma heap_map_pages_not_diverges: "heap_map_pages msg n v s = Inl e \<Longrightarrow> e \<noteq> Diverges"
  by (induction msg n v s rule: heap_map_pages.induct)
    (auto simp: vmm_map_def vmm_get_pte_def vmm_get_pte_pml4_phys_def pte_store_def
      dest: vmm_walk_not_diverges split: if_splits prod.splits sum.splits)

lemma unat_mask8: "unat ((x :: u64) AND - 8) = unat x div 8 * 8"
proof -
  have "(- 8 :: u64) = NOT (mask 3)" by (simp add: mask_eq_exp_minus_1)
  then have "x AND - 8 = push_bit 3 (drop_bit 3 x)" by (simp only: word_not_mask_push_drop)
  moreover have "unat (drop_bit 3 x) = unat x div 8" by (simp add: drop_bit_eq_div unat_div)
  moreover have "unat x div 8 * 8 < 18446744073709551616"
    using unat_less_2p64 [of x] by (meson div_times_less_eq_dividend le_less_trans)
  ultimately show ?thesis by (simp add: push_bit_eq_mult unat_word_ariths mult.commute)
qed

lemma unat_request_size:
  assumes "unat n + 39 < 2 ^ 64"
  shows "unat (request_size n) = max 48 ((unat n + 39) div 8 * 8)"
proof -
  have "unat (n + 24 + 8 + 7) = unat n + 39" using assms by (simp add: unat_word_ariths)
  then have "unat (ALIGN_UP (n + 24 + 8) 8) = (unat n + 39) div 8 * 8"
    by (simp add: ALIGN_UP_def unat_mask8 add.assoc)
  then show ?thesis by (auto simp: request_size_def Let_def word_less_nat_alt)
qed

lemma request_size_bounds:
  assumes "unat n + 39 < 2 ^ 64"
  shows "48 \<le> unat (request_size n)" and "8 dvd unat (request_size n)"
    and "unat n + 32 \<le> unat (request_size n)" and "unat (request_size n) \<le> max 48 (unat n + 39)"
  using unat_request_size [OF assms] by (auto simp: max_def)

lemma allocates_mono: "allocates B n p m s' \<Longrightarrow> n' \<le> n \<Longrightarrow> allocates B n' p m s'"
  unfolding allocates_def by (meson order.trans)

lemma kmalloc_retry_fits:
  assumes hok: "heap_ok B s" and n: "n \<noteq> 0" "unat n + 39 < 2 ^ 64"
    and fit: "B h = Some (sz, False)" "unat (request_size n) \<le> unat sz"
  shows "\<exists>p s'. kmalloc_retry (Suc k) n s = Inr (p, s') \<and> allocates B (unat n) p (hmem s) s'"
proof -
  note r = request_size_bounds [OF n(2)]
  from first_fit_heap [OF hok, of "request_size n"] fit obtain h' sz' where
    h': "first_fit WALK_BOUND (free_list s) (request_size n) s = Inr h'" "h' \<noteq> 0"
    "B h' = Some (sz', False)" "request_size n \<le> sz'"
    by (fastforce simp: word_less_nat_alt)
  have "allocates B (unat (request_size n) - 32) (h' + 24) (hmem s) (take_block h' (request_size n) s)"
    using r h' by (intro take_block_allocates [OF hok]) (auto simp: word_le_nat_alt)
  then have "allocates B (unat n) (h' + 24) (hmem s) (take_block h' (request_size n) s)"
    using r(3) by (rule_tac allocates_mono) auto
  with h' n(1) show ?thesis by (simp add: Let_def del: first_fit.simps)
qed

lemma kmalloc_spec:
  assumes hok: "heap_ok B s" and n: "n \<noteq> 0" "unat (heap_end s) + unat n + 12288 < 2 ^ 64"
  shows "case kmalloc n s of Inl e \<Rightarrow> e \<noteq> Diverges | Inr (p, s') \<Rightarrow> allocates B (unat n) p (hmem s) s'"
proof -
  define r where "r = request_size n"
  have n39: "unat n + 39 < 2 ^ 64" using n(2) by linarith
  note rb = request_size_bounds [OF n39, folded r_def]
  show ?thesis
  proof (cases "\<exists>h sz. B h = Some (sz, False) \<and> unat r \<le> unat sz")
    case True
    then obtain h sz where "B h = Some (sz, False)" "unat (request_size n) \<le> unat sz"
      by (auto simp: r_def)
    from kmalloc_retry_fits [OF hok n(1) n39 this, of RETRY_BOUND] obtain p s' where
      "kmalloc_retry (Suc RETRY_BOUND) n s = Inr (p, s')" "allocates B (unat n) p (hmem s) s'" by blast
    then show ?thesis by (simp add: kmalloc_def del: kmalloc_retry.simps)
  next
    case False
    with first_fit_heap [OF hok, of r] have ff: "first_fit WALK_BOUND (free_list s) r s = Inr 0"
      by (auto simp: word_le_nat_alt simp del: first_fit.simps)
    have r4: "unat (r + 4096) = unat r + 4096"
      using rb(4) n(2) by (simp add: unat_word_ariths max_def split: if_splits)
    show ?thesis
    proof (cases "heap_expand (r + 4096) s")
      case (Inl e)
      then have "e \<noteq> Diverges"
        by (auto simp: heap_expand_def Let_def dest: heap_map_pages_not_diverges split: sum.splits)
      with Inl ff n(1) show ?thesis
        by (simp add: kmalloc_def r_def Let_def del: first_fit.simps)
    next
      case (Inr s1)
      have "0 < unat (r + 4096)" "unat (heap_end s) + unat (r + 4096) + 4095 < 2 ^ 64"
        unfolding r4 using rb(4) n(2) by auto
      from heap_expand_ok [OF hok this Inr] obtain B' extra where
        B': "heap_ok B' s1" "live B' = live B" "keeps (live B) (hmem s) (hmem s1)"
        "B' (heap_end s) = Some (extra, False)" "unat (r + 4096) \<le> unat extra" by metis
      have r39: "unat r + 39 < 2 ^ 64" using rb(4) n(2) by auto
      have "unat (request_size r) \<le> unat extra"
        using request_size_bounds(4) [OF r39] B'(5) rb(1) unfolding r4 by linarith
      moreover have "r \<noteq> 0" using rb(1) by auto
      ultimately obtain p s' where ps: "kmalloc_retry RETRY_BOUND r s1 = Inr (p, s')"
        "allocates B' (unat r) p (hmem s1) s'"
        using kmalloc_retry_fits [OF B'(1) _ r39 B'(4), of MAX_FRAMES] unfolding RETRY_BOUND_def by blast
      have "kmalloc n s = Inr (p, s')"
        using n(1) ff Inr ps(1) by (simp add: kmalloc_def r_def Let_def)
      moreover have "allocates B (unat n) p (hmem s) s'"
        using allocates_mono [OF ps(2), of "unat n"] rb(3) B'(2,3) by (auto simp: allocates_def intro: keeps_trans)
      ultimately show ?thesis by simp
    qed
  qed
qed

section \<open>Release\<close>

lemma kfree_plain:
  assumes hok: "heap_ok B s" and h: "B h = Some (sz, True)"
  defines "B1 \<equiv> B(h \<mapsto> (sz, False))" and "s1 \<equiv> set_size h sz False s"
  shows "\<exists>fl. heap_core B1 fl s1 \<and> h \<notin> set fl \<and> (\<forall>p. p \<in> set fl \<longleftrightarrow> (\<exists>sz. B p = Some (sz, False)))"
    and "blocks_ok B1 (heap_end s1)" and "blocks_next B1 (heap_end s1)" and "heap_end s1 = heap_end s"
    and "keeps (live B) (hmem s) (hmem s1)"
proof -
  obtain fl where core: "heap_core B fl s" and fl: "\<forall>p. p \<in> set fl \<longleftrightarrow> (\<exists>sz. B p = Some (sz, False))"
    and ok: "blocks_ok B (heap_end s)" and nxt: "blocks_next B (heap_end s)"
    using hok by (rule heap_okE)
  have hn: "h \<notin> set fl" using fl h by auto
  have ok1: "blocks_ok B1 (heap_end s)" unfolding B1_def by (rule blocks_ok_retag [OF ok h])
  have o1: "B1 h = Some (sz, False)" "\<And>p. p \<noteq> h \<Longrightarrow> B1 p = B p" "\<And>p. p \<in> set fl \<Longrightarrow> B1 p = B p"
    using hn by (auto simp: B1_def)
  note c = core_set_size [OF core ok1 o1(1) hn o1(2) o1(3), folded s1_def, simplified]
  show "\<exists>fl. heap_core B1 fl s1 \<and> h \<notin> set fl \<and> (\<forall>p. p \<in> set fl \<longleftrightarrow> (\<exists>sz. B p = Some (sz, False)))"
    using c(1) hn fl by blast
  show "heap_end s1 = heap_end s" by (rule c(3))
  then show "blocks_ok B1 (heap_end s1)" "blocks_next B1 (heap_end s1)"
    using ok1 blocks_next_retag [OF nxt h] by (simp_all add: B1_def)
  show "keeps (live B) (hmem s) (hmem s1)"
  proof (rule keeps_same_off [OF ok c(2)])
    fix p sz'
    assume p: "B p = Some (sz', True)"
    show "{unat p + 24..<unat p + unat sz' - 8} \<inter> tag_cells h sz = {}"
      using blocks_ok_disj [OF ok p h] p h blocks_okD(2) [OF ok h]
      by (cases "p = h") (auto simp: tag_cells_def)
  qed
qed

lemma blocks_ok_merge:
  assumes ok: "blocks_ok B E" and h: "B h = Some (sz, u)" and n: "B n = Some (sn, v)" "unat n = unat h + unat sz"
  shows "blocks_ok (B(n := None, h \<mapsto> (sz + sn, w))) E" and "unat (sz + sn) = unat sz + unat sn"
proof -
  note bh = blocks_okD [OF ok h] and bn = blocks_okD [OF ok n(1)]
  show sum: "unat (sz + sn) = unat sz + unat sn"
    using bn(5) n(2) by (simp add: unat_word_ariths)
  have ok': "blocks_ok (B(n := None)) E"
    using ok unfolding blocks_ok_def by (auto split: if_splits)
  show "blocks_ok (B(n := None, h \<mapsto> (sz + sn, w))) E"
  proof (rule blocks_ok_add [OF ok' bh(1)])
    show "48 \<le> unat (sz + sn)" "8 dvd unat (sz + sn)" "unat h + unat (sz + sn) \<le> unat E"
      using sum bh bn n(2) by auto
    fix q sz' v'
    assume q: "(B(n := None)) q = Some (sz', v')" "q \<noteq> h"
    then have bq: "B q = Some (sz', v')" "q \<noteq> n" by (auto split: if_splits)
    from blocks_ok_disj [OF ok bq(1) h q(2)] blocks_ok_disj [OF ok bq(1) n(1) bq(2)] blocks_okD(2) [OF ok bq(1)]
    show "unat h + unat (sz + sn) \<le> unat q \<or> unat q + unat sz' \<le> unat h"
      using sum n(2) by auto
  qed
qed

lemma blocks_next_merge:
  assumes ok: "blocks_ok B E" and nxt: "blocks_next B E" and h: "B h = Some (sz, u)"
    and n: "B n = Some (sn, v)" "unat n = unat h + unat sz"
  shows "blocks_next (B(n := None, h \<mapsto> (sz + sn, w))) E"
  unfolding blocks_next_def
proof (intro conjI allI impI)
  show "E \<noteq> 0" using nxt by (simp add: blocks_next_def)
next
  fix p z x
  assume p: "(B(n := None, h \<mapsto> (sz + sn, w))) p = Some (z, x)" and lt: "unat p + unat z < unat E"
  have nh: "n = h + sz" using n(2) unat_block_off [OF ok h, of sz] by (simp flip: unat_eq_unat_iff)
  have step: "B (q + y) \<noteq> None" if "B q = Some (y, x')" "unat q + unat y < unat E" for q y x'
    using nxt that unfolding blocks_next_def by blast
  have ne: "h \<noteq> n" using n(2) blocks_okD(2) [OF ok h] by auto
  show "(B(n := None, h \<mapsto> (sz + sn, w))) (p + z) \<noteq> None"
  proof (cases "p = h")
    case True
    then have z: "z = sz + sn" using p by simp
    have "unat n + unat sn < unat E" using lt True n(2) blocks_ok_merge(2) [OF ok h n] z by simp
    from step [OF n(1) this] have "B (h + (sz + sn)) \<noteq> None" by (simp add: nh add.assoc)
    moreover have "h + (sz + sn) \<noteq> n"
    proof
      assume "h + (sz + sn) = n"
      then have "sn = 0" by (simp add: nh)
      with blocks_okD(2) [OF ok n(1)] show False by simp
    qed
    ultimately show ?thesis using True z by simp
  next
    case False
    then have bp: "B p = Some (z, x)" "p \<noteq> n" using p by (auto split: if_splits)
    have "p + z \<noteq> n"
    proof
      assume "p + z = n"
      then have "unat p + unat z = unat n" using unat_block_off [OF ok bp(1), of z] by simp
      with blocks_ok_disj [OF ok bp(1) h False] n(2) blocks_okD(2) [OF ok h] blocks_okD(2) [OF ok bp(1)]
      show False by auto
    qed
    with step [OF bp(1) lt] show ?thesis by auto
  qed
qed

lemma kfree_spec:
  assumes hok: "heap_ok B s" and l: "live B ptr = Some k"
  obtains B' s' where "kfree ptr s = Inr s'" and "heap_ok B' s'" and "live B' = (live B)(ptr := None)"
    and "keeps (live B') (hmem s) (hmem s')" and "heap_end s' = heap_end s"
proof -
  define h where "h = ptr - 24"
  have ok: "blocks_ok B (heap_end s)" using hok by (rule heap_okE)
  from l obtain sz where h: "B h = Some (sz, True)" by (auto simp: h_def elim: live_block)
  have ptr: "ptr = h + 24" by (simp add: h_def)
  have pnz: "ptr \<noteq> 0" using live_unat [OF ok l] by (metis add_is_0 unat_0 zero_neq_numeral)
  define B1 where "B1 = B(h \<mapsto> (sz, False))"
  define s1 where "s1 = set_size h sz False s"
  note k1 = kfree_plain [OF hok h, folded B1_def s1_def]
  from k1(1) obtain fl where core1: "heap_core B1 fl s1" and hn: "h \<notin> set fl"
    and fl: "\<forall>p. p \<in> set fl \<longleftrightarrow> (\<exists>sz. B p = Some (sz, False))" by blast
  obtain fl0 where core0: "heap_core B fl0 s" using hok by (rule heap_okE)
  have used: "blk_used h s" "blk_size h s = sz" using core_blk [OF core0 h] by simp_all
  have h1: "B1 h = Some (sz, False)" by (simp add: B1_def)
  define nx where "nx = h + sz"
  have nb: "next_block h s1 = nx" using core_blk(1) [OF core1 h1] by (simp add: next_block_def nx_def)
  have unx: "unat nx = unat h + unat sz"
    unfolding nx_def by (rule unat_block_off [OF k1(2) h1]) simp
  have liveB1: "live B1 = (live B)(ptr := None)" by (simp add: B1_def live_upd ptr)
  have leB1: "live B1 \<subseteq>\<^sub>m live B" unfolding liveB1 by (auto simp: map_le_def)
  have nxh: "nx \<noteq> h" using unx blocks_okD(2) [OF k1(2) h1] by auto
  show ?thesis
  proof (cases "nx < heap_end s1 \<and> \<not> blk_used nx s1")
    case False
    have ks: "kfree ptr s = Inr (free_list_insert h s1)"
      using pnz used False by (auto simp: kfree_def Let_def h_def [symmetric] s1_def [symmetric] nb)
    note c = core_insert [OF core1 h1 hn]
    have "heap_ok B1 (free_list_insert h s1)"
      unfolding heap_ok_def
    proof (intro conjI exI)
      show "heap_core B1 (h # fl) (free_list_insert h s1)" by (rule c(1))
      show "set (h # fl) = {p. \<exists>sz. B1 p = Some (sz, False)}" using fl by (auto simp: B1_def)
      show "blocks_next B1 (heap_end (free_list_insert h s1))" using k1(3) c(3) by simp
    qed
    moreover have "keeps (live B1) (hmem s) (hmem (free_list_insert h s1))"
      using keeps_antimono [OF k1(5) leB1] c(2) by (rule keeps_trans)
    ultimately show ?thesis using that ks liveB1 c(3) k1(4) by metis
  next
    case True
    then have "unat h + unat sz < unat (heap_end s1)" using unx by (simp add: word_less_nat_alt)
    with k1(3) h1 have "B1 nx \<noteq> None" unfolding blocks_next_def nx_def by blast
    then obtain sn un where n1': "B1 nx = Some (sn, un)" by auto
    with True core_blk(2) [OF core1 n1'] have n1: "B1 nx = Some (sn, False)" by simp
    have nfl: "nx \<in> set fl" using n1 nxh fl by (simp add: B1_def)
    define s2 where "s2 = free_list_remove nx s1"
    define fl2 where "fl2 = remove1 nx fl"
    note c2 = core_remove [OF core1 nfl, folded s2_def fl2_def]
    have dist: "distinct fl" using core1 by (simp add: heap_core_def)
    define B2 where "B2 = B1(nx := None, h \<mapsto> (sz + sn, False))"
    note mg = blocks_ok_merge(1) [OF k1(2) h1 n1 unx, of False, folded B2_def]
      blocks_ok_merge(2) [OF k1(2) h1 n1 unx]
    have hn2: "h \<notin> set fl2" using hn by (auto simp: fl2_def dest: notin_set_remove1)
    have fl2: "p \<in> set fl2 \<longleftrightarrow> p \<noteq> nx \<and> (\<exists>sz. B p = Some (sz, False))" for p
      using fl dist by (auto simp: fl2_def)
    have o2: "B2 h = Some (sz + sn, False)" "\<And>p. p \<noteq> h \<Longrightarrow> B2 p \<noteq> None \<Longrightarrow> B2 p = B1 p"
      "\<And>p. p \<in> set fl2 \<Longrightarrow> B2 p = B1 p"
      using hn2 fl2 by (auto simp: B2_def)
    define s3 where "s3 = set_size h (sz + sn) False s2"
    note c3 = core_set_size [OF c2(1) mg(1) [folded c2(3)] o2(1) hn2 o2(2) o2(3), folded s3_def]
    note c4 = core_insert [OF c3(1) o2(1) hn2]
    have ks: "kfree ptr s = Inr (free_list_insert h s3)"
      using pnz used True core_blk(1) [OF c2(1) h1] core_blk(1) [OF c2(1) n1]
      by (simp add: kfree_def Let_def h_def [symmetric] s1_def [symmetric] nb s2_def [symmetric] s3_def)
    have liveB2: "live B2 = live B1"
    proof -
      have "live (B1(nx := None)) = live B1"
        using n1 by (auto simp: live_def fun_eq_iff split: option.splits)
      then show ?thesis using h1 live_None [of B1 h] by (auto simp: B2_def live_upd fun_eq_iff)
    qed
    have "tag_cells h (sz + sn) \<subseteq> {unat h..<unat h + unat sz} \<union> {unat nx..<unat nx + unat sn}"
      using mg(2) unx blocks_okD(2) [OF k1(2) h1] blocks_okD(2) [OF k1(2) n1] by (auto simp: tag_cells_def)
    then have "keeps (live B1) (hmem s2) (hmem s3)"
    proof (intro keeps_same_off [OF k1(2) c3(2)])
      fix p sz'
      assume sub: "tag_cells h (sz + sn) \<subseteq> {unat h..<unat h + unat sz} \<union> {unat nx..<unat nx + unat sn}"
        and p: "B1 p = Some (sz', True)"
      have "p \<noteq> h" "p \<noteq> nx" using p h1 n1 by auto
      with blocks_ok_disj [OF k1(2) p h1] blocks_ok_disj [OF k1(2) p n1] sub
      show "{unat p + 24..<unat p + unat sz' - 8} \<inter> tag_cells h (sz + sn) = {}" by fastforce
    qed
    with keeps_antimono [OF k1(5) leB1] c2(2) c4(2)
    have "keeps (live B1) (hmem s) (hmem (free_list_insert h s3))"
      unfolding liveB2 by (blast intro: keeps_trans)
    moreover have "heap_ok B2 (free_list_insert h s3)"
      unfolding heap_ok_def
    proof (intro conjI exI)
      show "heap_core B2 (h # fl2) (free_list_insert h s3)" by (rule c4(1))
      show "set (h # fl2) = {p. \<exists>sz. B2 p = Some (sz, False)}" using fl2 h by (auto simp: B2_def B1_def)
      have he: "heap_end (free_list_insert h s3) = heap_end s1" using c4(3) c3(3) c2(3) by simp
      show "blocks_next B2 (heap_end (free_list_insert h s3))"
        unfolding he unfolding B2_def by (rule blocks_next_merge [OF k1(2,3) h1 n1 unx])
    qed
    moreover have "heap_end (free_list_insert h s3) = heap_end s" using c4(3) c3(3) c2(3) k1(4) by simp
    ultimately show ?thesis using that ks liveB1 liveB2 by metis
  qed
qed

section \<open>The allocator interface\<close>

text \<open>The copy loop that \<open>krealloc\<close> is made of, over the operations of an allocator.\<close>

definition realloc_by ::
  "(u64 \<Rightarrow> 's \<Rightarrow> (u64 \<times> 's) res) \<Rightarrow> (u64 \<Rightarrow> 's \<Rightarrow> 's res) \<Rightarrow> (u64 \<Rightarrow> 's \<Rightarrow> u64) \<Rightarrow>
   ('s \<Rightarrow> bmem) \<Rightarrow> (bmem \<Rightarrow> 's \<Rightarrow> 's) \<Rightarrow> u64 \<Rightarrow> u64 \<Rightarrow> 's \<Rightarrow> (u64 \<times> 's) res" where
  "realloc_by malloc free usable mem set_mem ptr n s =
     (if ptr = 0 then malloc n s
      else let old = usable ptr s
           in case malloc n s of
                Inl e \<Rightarrow> Inl e
              | Inr (q, s1) \<Rightarrow>
                  if q = 0 then Inr (0, s1)
                  else let c = (if old < n then old else n);
                           s2 = set_mem (store_bytes (mem s1) (unat q) (load_bytes (mem s1) (unat ptr) (unat c))) s1
                       in case free ptr s2 of Inl e \<Rightarrow> Inl e | Inr s3 \<Rightarrow> Inr (q, s3))"

text \<open>
  What clients of a heap rely on: \<open>holds L s\<close> says that the live allocations are exactly those of
  \<open>L\<close>. An allocation that returns adds one pointer and a release removes one, neither touches
  the bytes of the other allocations, live ranges are disjoint, and a client may overwrite
  the bytes of its allocations.
\<close>

locale allocator =
  fixes holds :: "(u64 \<rightharpoonup> nat) \<Rightarrow> 's \<Rightarrow> bool"
    and mem :: "'s \<Rightarrow> bmem"
    and set_mem :: "bmem \<Rightarrow> 's \<Rightarrow> 's"
    and room :: "'s \<Rightarrow> nat \<Rightarrow> bool"
    and malloc :: "u64 \<Rightarrow> 's \<Rightarrow> (u64 \<times> 's) res"
    and free :: "u64 \<Rightarrow> 's \<Rightarrow> 's res"
    and usable :: "u64 \<Rightarrow> 's \<Rightarrow> u64"
  assumes malloc_ok: "holds L s \<Longrightarrow> n \<noteq> 0 \<Longrightarrow> room s (unat n) \<Longrightarrow> malloc n s = Inr (p, s') \<Longrightarrow>
        p \<noteq> 0 \<and> L p = None \<and> keeps L (mem s) (mem s') \<and> (\<exists>k \<ge> unat n. holds (L(p \<mapsto> k)) s')"
    and malloc_err: "holds L s \<Longrightarrow> n \<noteq> 0 \<Longrightarrow> room s (unat n) \<Longrightarrow> malloc n s = Inl e \<Longrightarrow> e \<noteq> Diverges"
    and free_ok: "holds L s \<Longrightarrow> L p = Some k \<Longrightarrow>
        \<exists>s'. free p s = Inr s' \<and> holds (L(p := None)) s' \<and> keeps (L(p := None)) (mem s) (mem s')"
    and set_mem_ok: "holds L s \<Longrightarrow> (\<And>x. \<forall>p k. L p = Some k \<longrightarrow> x \<notin> {unat p..<unat p + k} \<Longrightarrow> m x = mem s x) \<Longrightarrow>
        holds L (set_mem m s)"
    and mem_set_mem: "mem (set_mem m s) = m"
    and disjoint: "holds L s \<Longrightarrow> L p = Some k \<Longrightarrow> L q = Some j \<Longrightarrow> p \<noteq> q \<Longrightarrow>
        unat p + k \<le> unat q \<or> unat q + j \<le> unat p"
    and usable_ok: "holds L s \<Longrightarrow> L p = Some k \<Longrightarrow> p \<noteq> 0 \<and> unat (usable p s) = k"
begin

text \<open>Storing inside one live block is seen there and leaves the other live blocks alone.\<close>

lemma store_ok:
  assumes "holds L s" and "L p = Some k" and "off + length bs \<le> k"
  shows "holds L (set_mem (store_bytes (mem s) (unat p + off) bs) s)"
    and "keeps (L(p := None)) (mem s) (store_bytes (mem s) (unat p + off) bs)"
proof -
  show "holds L (set_mem (store_bytes (mem s) (unat p + off) bs) s)"
  proof (rule set_mem_ok [OF assms(1)])
    fix x
    assume "\<forall>p k. L p = Some k \<longrightarrow> x \<notin> {unat p..<unat p + k}"
    with assms(2) have "x \<notin> {unat p..<unat p + k}" by blast
    with assms(3) show "store_bytes (mem s) (unat p + off) bs x = mem s x"
      by (intro store_bytes_outside) auto
  qed
  show "keeps (L(p := None)) (mem s) (store_bytes (mem s) (unat p + off) bs)"
    unfolding keeps_def
  proof (intro allI impI ballI)
    fix q j x
    assume q: "(L(p := None)) q = Some j" and x: "x \<in> {unat q..<unat q + j}"
    then have "q \<noteq> p" "L q = Some j" by (auto split: if_splits)
    with disjoint [OF assms(1,2), of q j] x assms(3) show "store_bytes (mem s) (unat p + off) bs x = mem s x"
      by (intro store_bytes_outside) auto
  qed
qed

lemma realloc_err:
  assumes h: "holds L s" and p: "L p = Some k" and n: "n \<noteq> 0" "room s (unat n)"
    and r: "realloc_by malloc free usable mem set_mem p n s = Inl e"
  shows "e \<noteq> Diverges"
proof (cases "malloc n s")
  case (Inl e')
  with r usable_ok [OF h p] malloc_err [OF h n Inl] show ?thesis by (auto simp: realloc_by_def Let_def)
next
  case (Inr qs)
  obtain q s1 where m: "malloc n s = Inr (q, s1)" using Inr by (cases qs) auto
  from malloc_ok [OF h n m] obtain j where j: "q \<noteq> 0" "L q = None" "unat n \<le> j" "holds (L(q \<mapsto> j)) s1" by blast
  let ?c = "if usable p s < n then usable p s else n"
  have "length (load_bytes (mem s1) (unat p) (unat ?c)) \<le> j"
    using j(3) by (auto simp: word_less_nat_alt)
  from store_ok(1) [OF j(4), of q j 0, simplified, OF this]
  have "holds (L(q \<mapsto> j)) (set_mem (store_bytes (mem s1) (unat q) (load_bytes (mem s1) (unat p) (unat ?c))) s1)" .
  moreover have "(L(q \<mapsto> j)) p = Some k" using p j(2) by auto
  ultimately have
    "\<exists>s3. free p (set_mem (store_bytes (mem s1) (unat q) (load_bytes (mem s1) (unat p) (unat ?c))) s1) = Inr s3"
    using free_ok by blast
  with r m j(1) usable_ok [OF h p] show ?thesis by (auto simp: realloc_by_def Let_def)
qed

lemma realloc_ok:
  assumes h: "holds L s" and p: "L p = Some k" and n: "n \<noteq> 0" "room s (unat n)"
    and r: "realloc_by malloc free usable mem set_mem p n s = Inr (q, s')"
  shows "q \<noteq> 0 \<and> L q = None \<and> keeps (L(p := None)) (mem s) (mem s') \<and>
         load_bytes (mem s') (unat q) (min k (unat n)) = load_bytes (mem s) (unat p) (min k (unat n)) \<and>
         (\<exists>j \<ge> unat n. holds ((L(p := None))(q \<mapsto> j)) s')"
proof -
  note us = usable_ok [OF h p]
  from r us obtain q' s1 where m: "malloc n s = Inr (q', s1)"
    by (auto simp: realloc_by_def Let_def split: sum.splits)
  from malloc_ok [OF h n m] obtain j where
    j: "q' \<noteq> 0" "L q' = None" "keeps L (mem s) (mem s1)" "unat n \<le> j" "holds (L(q' \<mapsto> j)) s1" by blast
  define c where "c = min k (unat n)"
  have c: "unat (if usable p s < n then usable p s else n) = c"
    using us by (auto simp: c_def word_less_nat_alt)
  define bs where "bs = load_bytes (mem s1) (unat p) c"
  define s2 where "s2 = set_mem (store_bytes (mem s1) (unat q') bs) s1"
  have len: "length bs \<le> j" using j(4) by (simp add: bs_def c_def)
  note st = store_ok [OF j(5), of q' j 0 bs, simplified, OF len]
  have qp: "q' \<noteq> p" using j(2) p by auto
  have h2: "holds (L(q' \<mapsto> j)) s2" unfolding s2_def by (rule st(1))
  have p2: "(L(q' \<mapsto> j)) p = Some k" using qp p by simp
  from free_ok [OF h2 p2] obtain s3 where
    s3: "free p s2 = Inr s3" "holds ((L(q' \<mapsto> j))(p := None)) s3"
    "keeps ((L(q' \<mapsto> j))(p := None)) (mem s2) (mem s3)" by blast
  have qs: "q = q'" "s' = s3"
    using r m us j(1) s3(1) by (auto simp: realloc_by_def Let_def c bs_def [symmetric] s2_def [symmetric])
  have le: "L(p := None) \<subseteq>\<^sub>m L" "L(p := None) \<subseteq>\<^sub>m (L(q' \<mapsto> j))(p := None)" "L(p := None) \<subseteq>\<^sub>m L(q' := None)"
    using j(2) by (auto simp: map_le_def)
  have "keeps (L(p := None)) (mem s1) (mem s2)"
    using keeps_antimono [OF st(2) le(3)] by (simp add: s2_def mem_set_mem)
  with keeps_antimono [OF j(3) le(1)] keeps_antimono [OF s3(3) le(2)]
  have K: "keeps (L(p := None)) (mem s) (mem s')" unfolding qs by (blast intro: keeps_trans)
  have "load_bytes (mem s3) (unat q') c = bs"
  proof (rule nth_equalityI)
    fix i assume "i < length (load_bytes (mem s3) (unat q') c)"
    then have i: "i < c" by simp
    then have "mem s3 (unat q' + i) = mem s2 (unat q' + i)"
      using keepsD [OF s3(3), of q' j i] qp j(4) by (simp add: c_def)
    also have "\<dots> = bs ! i" using i by (simp add: s2_def mem_set_mem store_bytes_inside bs_def)
    finally show "load_bytes (mem s3) (unat q') c ! i = bs ! i" using i by simp
  qed (simp add: bs_def)
  also have "bs = load_bytes (mem s) (unat p) c"
    unfolding bs_def using j(3) p by (intro nth_equalityI) (auto simp: keeps_def c_def)
  finally show ?thesis
    using K j(1,2,4) s3(2) qp unfolding qs c_def by (auto simp: fun_upd_twist)
qed

end

definition heap_live :: "(u64 \<rightharpoonup> nat) \<Rightarrow> 'a heap_scheme \<Rightarrow> bool" where
  "heap_live L s \<longleftrightarrow> (\<exists>B. heap_ok B s \<and> L = live B)"

definition heap_room :: "'a heap_scheme \<Rightarrow> nat \<Rightarrow> bool" where
  "heap_room s n \<longleftrightarrow> unat (heap_end s) + n + 12288 < 2 ^ 64"

definition blk_usable :: "u64 \<Rightarrow> 'a heap_scheme \<Rightarrow> u64" where
  "blk_usable p s = blk_size (p - HDR) s - HDR - FTR"

lemma krealloc_eq:
  "krealloc = realloc_by kmalloc kfree blk_usable hmem (\<lambda>m s. s\<lparr>hmem := m\<rparr>)"
  by (intro ext) (simp add: krealloc_def realloc_by_def blk_usable_def Let_def)

lemma heap_ok_set_mem:
  assumes hok: "heap_ok B s"
    and m: "\<And>x. \<forall>p k. live B p = Some k \<longrightarrow> x \<notin> {unat p..<unat p + k} \<Longrightarrow> m x = hmem s x"
  shows "heap_ok B (s\<lparr>hmem := m\<rparr>)"
proof -
  obtain fl where core: "heap_core B fl s" and fl: "\<forall>p. p \<in> set fl \<longleftrightarrow> (\<exists>sz. B p = Some (sz, False))"
    and ok: "blocks_ok B (heap_end s)" and nxt: "blocks_next B (heap_end s)"
    using hok by (rule heap_okE)
  define X where "X = {x. \<exists>p k. live B p = Some k \<and> x \<in> {unat p..<unat p + k}}"
  have off: "same_off X (hmem s) m" unfolding same_off_def X_def using m by blast
  have X: "x \<notin> X" if b: "B p = Some (sz, u)" and x: "x \<in> {unat p..<unat p + 24} \<union> {unat p + unat sz - 8..<unat p + unat sz}"
    for p sz u x
  proof
    assume "x \<in> X"
    then obtain q k where q: "live B q = Some k" "x \<in> {unat q..<unat q + k}" by (auto simp: X_def)
    from live_unat [OF ok q(1)] obtain sz' where
      q': "B (q - 24) = Some (sz', True)" "unat q = unat (q - 24) + 24" "k + 32 = unat sz'" .
    show False
      using blocks_ok_disj [OF ok b q'(1)] q' q(2) x blocks_okD(2) [OF ok b] b
      by (cases "p = q - 24") auto
  qed
  have "heap_core B fl (s\<lparr>hmem := m\<rparr>)"
  proof (rule core_mem_update [OF core off])
    fix x assume "x \<in> set fl"
    with fl X show "{unat x + 8..<unat x + 24} \<inter> X = {}" by fastforce
  qed (use X in fastforce)+
  with fl nxt show ?thesis unfolding heap_ok_def by auto
qed

interpretation ka: allocator heap_live hmem "\<lambda>m s. s\<lparr>hmem := m\<rparr>" heap_room kmalloc kfree blk_usable
proof
  fix L :: "u64 \<rightharpoonup> nat" and s :: "'a heap_scheme" and n p s'
  assume "heap_live L s" "n \<noteq> 0" "heap_room s (unat n)" "kmalloc n s = Inr (p, s')"
  with kmalloc_spec [of _ s n] show "p \<noteq> 0 \<and> L p = None \<and> keeps L (hmem s) (hmem s') \<and>
      (\<exists>k \<ge> unat n. heap_live (L(p \<mapsto> k)) s')"
    unfolding heap_live_def heap_room_def allocates_def by fastforce
next
  fix L :: "u64 \<rightharpoonup> nat" and s :: "'a heap_scheme" and n e
  assume "heap_live L s" "n \<noteq> 0" "heap_room s (unat n)" "kmalloc n s = Inl e"
  with kmalloc_spec [of _ s n] show "e \<noteq> Diverges"
    unfolding heap_live_def heap_room_def by fastforce
next
  fix L :: "u64 \<rightharpoonup> nat" and s :: "'a heap_scheme" and p k
  assume "heap_live L s" and l: "L p = Some k"
  then obtain B where B: "heap_ok B s" "L = live B" by (auto simp: heap_live_def)
  from kfree_spec [OF B(1) l [unfolded B(2)]]
  show "\<exists>s'. kfree p s = Inr s' \<and> heap_live (L(p := None)) s' \<and> keeps (L(p := None)) (hmem s) (hmem s')"
    unfolding heap_live_def B(2) by metis
next
  fix L :: "u64 \<rightharpoonup> nat" and s :: "'a heap_scheme" and m
  assume "heap_live L s" and "\<And>x. \<forall>p k. L p = Some k \<longrightarrow> x \<notin> {unat p..<unat p + k} \<Longrightarrow> m x = hmem s x"
  then show "heap_live L (s\<lparr>hmem := m\<rparr>)"
    unfolding heap_live_def using heap_ok_set_mem by blast
next
  fix L :: "u64 \<rightharpoonup> nat" and s :: "'a heap_scheme" and p k q j
  assume "heap_live L s" and l: "L p = Some k" "L q = Some j" and ne: "p \<noteq> q"
  then obtain B where B: "heap_ok B s" "L = live B" by (auto simp: heap_live_def)
  then have ok: "blocks_ok B (heap_end s)" by (auto elim: heap_okE)
  from live_unat [OF ok l(1) [unfolded B(2)]] obtain sz where
    1: "B (p - 24) = Some (sz, True)" "unat p = unat (p - 24) + 24" "k + 32 = unat sz" .
  from live_unat [OF ok l(2) [unfolded B(2)]] obtain sz' where
    2: "B (q - 24) = Some (sz', True)" "unat q = unat (q - 24) + 24" "j + 32 = unat sz'" .
  from ne have "p - 24 \<noteq> q - 24" by simp
  from blocks_ok_disj [OF ok 1(1) 2(1) this] 1(2,3) 2(2,3)
  show "unat p + k \<le> unat q \<or> unat q + j \<le> unat p" by linarith
next
  fix L :: "u64 \<rightharpoonup> nat" and s :: "'a heap_scheme" and p k
  assume "heap_live L s" and l: "L p = Some k"
  then obtain B where B: "heap_ok B s" "L = live B" by (auto simp: heap_live_def)
  obtain fl where core: "heap_core B fl s" and ok: "blocks_ok B (heap_end s)"
    using B(1) by (rule heap_okE)
  from live_unat [OF ok l [unfolded B(2)]] obtain sz where
    1: "B (p - 24) = Some (sz, True)" "unat p = unat (p - 24) + 24" "k + 32 = unat sz" .
  have "unat (sz - 24 - 8) = k"
    using 1(3) by (simp add: unat_sub word_le_nat_alt unat_word_ariths)
  with core_blk(1) [OF core 1(1)] 1(2) show "p \<noteq> 0 \<and> unat (blk_usable p s) = k"
    by (auto simp: blk_usable_def)
qed simp

section \<open>What the heap leaves alone\<close>

lemma heap_ops_more [simp, frame_simps]:
  "heap.more (heap_store a v s) = heap.more s" "heap.more (set_size h sz u s) = heap.more s"
  "heap.more (clear_links h s) = heap.more s" "heap.more (free_list_remove h s) = heap.more s"
  "heap.more (free_list_insert h s) = heap.more s" "heap.more (take_block h sz s) = heap.more s"
  by (simp_all add: heap_store_def set_size_def clear_links_def free_list_remove_def free_list_insert_def
      take_block_def Let_def)

lemma heap_expand_more: "heap_expand n s = Inr s' \<Longrightarrow> heap.more s' = heap.more s"
  by (auto simp: heap_expand_def Let_def same_heap_def dest: heap_map_pages_heap split: sum.splits)

lemma kmalloc_retry_more: "kmalloc_retry k n s = Inr (p, s') \<Longrightarrow> heap.more s' = heap.more s"
proof (induction k n s rule: kmalloc_retry.induct)
  case (2 k n s)
  show ?case
  proof (cases "n = 0")
    case False
    from "2.prems" False obtain h where h: "first_fit WALK_BOUND (free_list s) (request_size n) s = Inr h"
      by (auto simp: Let_def split: sum.splits)
    show ?thesis
    proof (cases "h = 0")
      case True
      with "2.prems" False h obtain s1 where s1: "heap_expand (request_size n + 4096) s = Inr s1"
        by (auto simp: Let_def split: sum.splits)
      with "2.prems" "2.IH" [OF False refl h _ s1] False h True heap_expand_more [OF s1] show ?thesis
        by (simp add: Let_def)
    qed (use "2.prems" False h in \<open>auto simp: Let_def\<close>)
  qed (use "2.prems" in simp)
qed simp

lemma kmalloc_more: "kmalloc n s = Inr (p, s') \<Longrightarrow> heap.more s' = heap.more s"
  unfolding kmalloc_def by (rule kmalloc_retry_more)

lemma kfree_more: "kfree p s = Inr s' \<Longrightarrow> heap.more s' = heap.more s"
  by (auto simp: kfree_def Let_def split: if_splits)

lemma krealloc_more:
  assumes "krealloc p n s = Inr (q, s')" shows "heap.more s' = heap.more s"
proof (cases "p = 0")
  case False
  from assms False obtain q1 s1 where m: "kmalloc n s = Inr (q1, s1)"
    by (auto simp: krealloc_def Let_def split: sum.splits)
  with assms False show ?thesis
    using kmalloc_more [OF m] by (auto simp: krealloc_def Let_def dest!: kfree_more split: if_splits sum.splits)
qed (use assms kmalloc_more in \<open>auto simp: krealloc_def\<close>)

section \<open>Properties\<close>

lemma single_block_ok:
  fixes s :: "'a heap_scheme"
  assumes "base \<noteq> 0" and "48 \<le> unat n" and "8 dvd unat n" and "unat base + unat n < 2 ^ 64"
  defines "s' \<equiv> (clear_links base (set_size base n False s))\<lparr>free_list := base, heap_end := base + n\<rparr>"
  shows "heap_ok [base \<mapsto> (n, False)] s'"
proof -
  have E: "unat (base + n) = unat base + unat n" using assms(4) by (simp add: unat_word_ariths)
  have ok: "blocks_ok [base \<mapsto> (n, False)] (base + n)"
    using assms E by (auto simp: blocks_ok_def split: if_splits)
  define B where "B = [base \<mapsto> (n, False)]"
  define s0 where "s0 = s\<lparr>free_list := 0, heap_end := base + n\<rparr>"
  have c0: "heap_core Map.empty [] s0" by (simp add: heap_core_def blocks_ok_def tags_ok_def s0_def)
  have b: "B base = Some (n, False)" and other: "\<And>p. p \<noteq> base \<Longrightarrow> B p = None" by (simp_all add: B_def)
  have c1: "heap_core B [] (set_size base n False s0)"
    using ok other by (intro core_set_size(1) [where B' = B, OF c0 _ b]) (auto simp: s0_def B_def [symmetric])
  note u = core_unat [OF c1 b]
  have s': "s' = (clear_links base (set_size base n False s0))\<lparr>free_list := base\<rparr>"
    by (cases s) (simp add: s'_def s0_def clear_links_def heap_store_def set_size_def get_footer_def blk_size_def Let_def)
  have "heap_core B [base] s'"
    using core_clear_links(1) [OF c1 b] u b
    by (auto simp: s' heap_core_def clear_links_def rd64_wr64_other)
  moreover have "blocks_next B (heap_end s')"
  proof -
    have "unat (base + n) \<noteq> 0" using E assms(2) by linarith
    then show ?thesis using E by (auto simp: blocks_next_def B_def s'_def split: if_splits)
  qed
  moreover have "set [base] = {p. \<exists>sz. B p = Some (sz, False)}" by (auto simp: B_def split: if_splits)
  ultimately show ?thesis
    unfolding heap_ok_def B_def [symmetric] by blast
qed

text \<open>A heap with one free block of a page at \<open>0x10000\<close>, on the demo machine, for the witnesses.\<close>

definition heap_demo :: heap where
  "heap_demo =
     (clear_links 0x10000 (set_size 0x10000 4096 False
       \<lparr>bitmap = bitmap mach_demo, total_frames = total_frames mach_demo, free_frames = free_frames mach_demo,
        pmem = pmem mach_demo, cr3 = cr3 mach_demo, current_pml4 = current_pml4 mach_demo,
        hmem = (\<lambda>_. 0), free_list = 0, heap_end = 0\<rparr>))
       \<lparr>free_list := 0x10000, heap_end := 0x10000 + 4096\<rparr>"

definition demo_blocks :: blocks where
  "demo_blocks = [0x10000 \<mapsto> (4096, False)]"

lemma heap_demo_ok: "heap_ok demo_blocks heap_demo"
  unfolding heap_demo_def demo_blocks_def by (rule single_block_ok) simp_all

lemma heap_demo_end: "heap_end heap_demo = 0x11000"
  by (simp add: heap_demo_def)

text \<open>
  The routine \<open>heap_init\<close>, when it returns, leaves a heap that is one free block of the page-rounded
  size with no live allocation; otherwise it has panicked or met a huge page.
\<close>

theorem heap_init_single_block:
  assumes "base \<noteq> 0" and "0 < unat n" and "unat base + unat n + 4095 < 2 ^ 64"
  shows "case heap_init base n s of
           Inl e \<Rightarrow> e \<noteq> Diverges
         | Inr s' \<Rightarrow> heap_ok [base \<mapsto> (ALIGN_UP n 4096, False)] s' \<and> heap_live Map.empty s' \<and>
                    heap_end s' = base + ALIGN_UP n 4096"
proof (cases "heap_map_pages ''heap_init: OOM'' (unat (ALIGN_UP n 4096) div 4096) base (s\<lparr>heap_end := base\<rparr>)")
  case (Inl e)
  with heap_map_pages_not_diverges [OF Inl] show ?thesis by (simp add: heap_init_def Let_def)
next
  case (Inr s1)
  let ?n = "ALIGN_UP n 4096"
  have "unat ?n = (unat n + 4095) div 4096 * 4096"
    using assms(3) by (intro unat_align_up_page) linarith
  moreover have "(unat n + 4095) div 4096 * 4096 \<le> unat n + 4095" by simp
  moreover have "0 < (unat n + 4095) div 4096" using assms(2) by (simp add: div_greater_zero_iff)
  ultimately have e: "48 \<le> unat ?n" "8 dvd unat ?n" "unat base + unat ?n < 2 ^ 64"
    using assms(3) by auto
  note ok = single_block_ok [OF assms(1) e, of s1]
  moreover have "live [base \<mapsto> (?n, False)] = Map.empty" by (auto simp: live_def fun_eq_iff)
  ultimately show ?thesis
    using Inr unfolding heap_live_def by (auto simp: heap_init_def Let_def)
qed

theorem heap_init_single_block_witness:
  "(0x10000 :: u64) \<noteq> 0 \<and>
   (case heap_init 0x10000 100 heap_demo of
      Inl e \<Rightarrow> e \<noteq> Diverges
    | Inr s' \<Rightarrow> heap_ok [0x10000 \<mapsto> (4096, False)] s' \<and> heap_live Map.empty s' \<and> heap_end s' = 0x11000)"
proof -
  have "(0x10000 :: u64) \<noteq> 0" "0 < unat (100 :: u64)" "unat (0x10000 :: u64) + unat (100 :: u64) + 4095 < 2 ^ 64"
    by simp_all
  from heap_init_single_block [OF this, of heap_demo] show ?thesis
    by (simp add: ALIGN_UP_def split: sum.splits)
qed

text \<open>
  C5: \<open>kmalloc\<close> of a non-zero size never runs forever on a well-formed heap (one retry after
  expanding is enough); if it returns, the result is a non-null pointer to at least that many bytes, disjoint from
  everything live (the block map is again well formed with one more live pointer), and no
  byte of a live allocation has changed.
\<close>

theorem kmalloc_correct:
  assumes "heap_ok B s" and "n \<noteq> 0" and "unat (heap_end s) + unat n + 12288 < 2 ^ 64"
  shows "case kmalloc n s of Inl e \<Rightarrow> e \<noteq> Diverges | Inr (p, s') \<Rightarrow> allocates B (unat n) p (hmem s) s'"
  using assms by (rule kmalloc_spec)

theorem kmalloc_correct_witness:
  "heap_ok demo_blocks heap_demo \<and>
   (case kmalloc 100 heap_demo of
      Inl e \<Rightarrow> e \<noteq> Diverges | Inr (p, s') \<Rightarrow> allocates demo_blocks 100 p (hmem heap_demo) s')"
proof -
  have "(100 :: u64) \<noteq> 0" "unat (heap_end heap_demo) + unat (100 :: u64) + 12288 < 2 ^ 64"
    by (simp_all add: heap_demo_end)
  from kmalloc_correct [OF heap_demo_ok this] heap_demo_ok show ?thesis by (auto split: sum.splits)
qed

text \<open>
  Whenever some free block is large enough for the rounded request, \<open>kmalloc\<close> succeeds, without
  needing a frame or a mapping.
\<close>

theorem kmalloc_succeeds:
  assumes "heap_ok B s" and "n \<noteq> 0" and "unat n + 39 < 2 ^ 64"
    and "B h = Some (sz, False)" and "unat (request_size n) \<le> unat sz"
  shows "\<exists>p s'. kmalloc n s = Inr (p, s') \<and> allocates B (unat n) p (hmem s) s'"
  unfolding kmalloc_def using assms by (rule kmalloc_retry_fits)

theorem kmalloc_succeeds_witness:
  "unat (request_size 100) \<le> 4096 \<and>
   (\<exists>p s'. kmalloc 100 heap_demo = Inr (p, s') \<and> allocates demo_blocks 100 p (hmem heap_demo) s')"
proof -
  have r: "unat (request_size 100) = 136" using unat_request_size [of 100] by simp
  have "\<exists>p s'. kmalloc 100 heap_demo = Inr (p, s') \<and> allocates demo_blocks (unat (100 :: u64)) p (hmem heap_demo) s'"
    by (rule kmalloc_succeeds [OF heap_demo_ok, of 100 "0x10000" 4096]) (simp_all add: r demo_blocks_def)
  with r show ?thesis by simp
qed

text \<open>
  C6: \<open>kfree\<close> of a live pointer succeeds: the block map stays well formed, exactly that pointer
  stops being live, and no byte of the other live allocations changes, whether or not
  the block was merged with its successor.
\<close>

theorem kfree_releases:
  assumes "heap_ok B s" and "live B ptr = Some k"
  shows "\<exists>B' s'. kfree ptr s = Inr s' \<and> heap_ok B' s' \<and> live B' = (live B)(ptr := None) \<and>
           keeps (live B') (hmem s) (hmem s')"
  using kfree_spec [OF assms] by metis

theorem kfree_releases_witness:
  "\<exists>p s B' s'. kmalloc 100 heap_demo = Inr (p, s) \<and> kfree p s = Inr s' \<and> heap_ok B' s' \<and> live B' = Map.empty"
proof -
  have l: "live demo_blocks = Map.empty" by (auto simp: live_def fun_eq_iff demo_blocks_def)
  have r: "unat (request_size 100) = 136" using unat_request_size [of 100] by simp
  have "unat (request_size 100) \<le> unat (4096 :: u64)" by (simp add: r)
  from kmalloc_retry_fits [OF heap_demo_ok _ _ _ this, of "0x10000" RETRY_BOUND]
  obtain p s where k: "kmalloc 100 heap_demo = Inr (p, s)" and a: "allocates demo_blocks 100 p (hmem heap_demo) s"
    unfolding kmalloc_def by (auto simp: demo_blocks_def)
  from a obtain B j where B: "heap_ok B s" "live B = [p \<mapsto> j]" unfolding allocates_def l by auto
  then have "live B p = Some j" by simp
  from kfree_releases [OF B(1) this] B(2) have "\<exists>B' s'. kfree p s = Inr s' \<and> heap_ok B' s' \<and> live B' = Map.empty"
    by auto
  with k show ?thesis by blast
qed

text \<open>
  Freeing a pointer whose block is already free does not corrupt the heap: the assertion
  stops the kernel.
\<close>

theorem kfree_double_free_panics:
  assumes "heap_ok B s" and "B h = Some (sz, False)"
  shows "kfree (h + HDR) s = Inl (Panic ''ASSERT(blk_used(h))'')"
proof -
  obtain fl where core: "heap_core B fl s" using assms(1) by (rule heap_okE)
  with core_blk(2) [OF core assms(2)] core_unat(3) [OF core assms(2)] have "h + 24 \<noteq> 0" by auto
  with core_blk(2) [OF core assms(2)] show ?thesis by (simp add: kfree_def Let_def)
qed

theorem kfree_double_free_panics_witness:
  "kfree 0x10018 heap_demo = Inl (Panic ''ASSERT(blk_used(h))'')"
  using kfree_double_free_panics [OF heap_demo_ok, of "0x10000" 4096] by (simp add: demo_blocks_def)

text \<open>A heap whose only block, a page at \<open>0x10000\<close>, is allocated.\<close>

definition full_demo :: heap where
  "full_demo = set_size 0x10000 4096 True (heap_demo\<lparr>free_list := 0\<rparr>)"

lemma full_demo_live: "heap_live [0x10018 \<mapsto> 4064] full_demo" "heap_end full_demo = 0x11000"
proof -
  define B :: blocks where "B = [0x10000 \<mapsto> (4096, True)]"
  let ?s0 = "heap_demo\<lparr>free_list := 0\<rparr>"
  have b: "B 0x10000 = Some (4096, True)" and other: "\<And>p. p \<noteq> 0x10000 \<Longrightarrow> B p = None" by (simp_all add: B_def)
  have c0: "heap_core Map.empty [] ?s0" by (simp add: heap_core_def blocks_ok_def tags_ok_def)
  have ok: "blocks_ok B (heap_end ?s0)"
    by (auto simp: blocks_ok_def B_def heap_demo_end split: if_splits)
  have o: "\<And>p. p \<noteq> 0x10000 \<Longrightarrow> B p \<noteq> None \<Longrightarrow> B p = None" "\<And>p :: u64. p \<in> set [] \<Longrightarrow> B p = None" using other by auto
  note c = core_set_size [where B' = B, OF c0 ok b _ o, folded full_demo_def, simplified]
  show e: "heap_end full_demo = 0x11000" using c(3) by (simp add: heap_demo_end)
  have "blocks_next B (heap_end full_demo)"
    unfolding e by (auto simp: blocks_next_def B_def split: if_splits)
  moreover have "set [] = {p. \<exists>sz. B p = Some (sz, False)}" by (auto simp: B_def split: if_splits)
  ultimately have "heap_ok B full_demo" unfolding heap_ok_def using c(1) by blast
  moreover have "live B = [0x10018 \<mapsto> 4064]"
  proof -
    have "B = Map.empty(0x10000 \<mapsto> (4096, True))" by (simp add: B_def)
    then show ?thesis by (simp only: live_upd) (auto simp: live_def fun_eq_iff)
  qed
  ultimately show "heap_live [0x10018 \<mapsto> 4064] full_demo" unfolding heap_live_def by metis
qed

text \<open>
  C20: \<open>krealloc\<close> of a live pointer does not run forever, and when it returns it has moved the allocation: the
  first bytes (up to the smaller of the old and the new size) are the old ones, the old pointer is
  no longer live, the new one has the requested room, and no other live allocation is touched.
\<close>

theorem krealloc_moves_contents:
  assumes "heap_live L s" and "L p = Some k" and "n \<noteq> 0" and "heap_room s (unat n)"
  shows "case krealloc p n s of
           Inl e \<Rightarrow> e \<noteq> Diverges
         | Inr (q, s') \<Rightarrow>
             q \<noteq> 0 \<and> L q = None \<and> keeps (L(p := None)) (hmem s) (hmem s') \<and>
             load_bytes (hmem s') (unat q) (min k (unat n)) = load_bytes (hmem s) (unat p) (min k (unat n)) \<and>
             (\<exists>j \<ge> unat n. heap_live ((L(p := None))(q \<mapsto> j)) s')"
proof (cases "krealloc p n s")
  case (Inl e)
  with ka.realloc_err [OF assms Inl [unfolded krealloc_eq]] show ?thesis by simp
next
  case (Inr qs)
  then obtain q s' where r: "krealloc p n s = Inr (q, s')" by (cases qs) auto
  from ka.realloc_ok [OF assms r [unfolded krealloc_eq]] r show ?thesis by simp
qed

theorem krealloc_moves_contents_witness:
  "heap_live [0x10018 \<mapsto> 4064] full_demo \<and>
   (case krealloc 0x10018 8 full_demo of
      Inl e \<Rightarrow> e \<noteq> Diverges
    | Inr (q, s') \<Rightarrow> load_bytes (hmem s') (unat q) 8 = load_bytes (hmem full_demo) 0x10018 8)"
proof -
  have "[0x10018 \<mapsto> 4064 :: nat] 0x10018 = Some 4064" "(8 :: u64) \<noteq> 0" "heap_room full_demo (unat (8 :: u64))"
    by (simp_all add: heap_room_def full_demo_live)
  from krealloc_moves_contents [OF full_demo_live(1) this] full_demo_live(1) show ?thesis
    by (auto split: sum.splits)
qed

end
