(* ===== verification/Shm.thy ===== *)
theory Shm
  imports Heap
begin

text \<open>
  \<^verbatim>\<open>src/kernel/shm.c\<close>: named shared-memory objects, each a size and an array of physical frames.
  C strings are their characters before the terminator; \<^verbatim>\<open>strncpy\<close> into the zeroed
  64-byte name keeps the first 63. A read returns, besides the C result, the bytes it stored at the
  start of the caller's buffer and the new value of \<^verbatim>\<open>*off\<close>; a write takes the bytes of the buffer.
  Reading or writing \<^verbatim>\<open>pages[]\<close> outside its 1024 entries is the outcome \<open>OutOfBounds\<close>.
\<close>

section \<open>State and operations\<close>

abbreviation (input) SHM_MAX_OBJECTS :: nat where "SHM_MAX_OBJECTS \<equiv> 32"
abbreviation (input) SHM_NAME_MAX :: nat where "SHM_NAME_MAX \<equiv> 64"
abbreviation (input) SHM_MAX_PAGES :: nat where "SHM_MAX_PAGES \<equiv> 1024"

record shm_object =
  so_used :: bool
  so_name :: string
  so_pages :: "u64 list"
  so_size :: u64

record shm = heap +
  shm_objs :: "shm_object list"

definition shm_zero :: shm_object where
  "shm_zero = \<lparr>so_used = False, so_name = '''', so_pages = replicate SHM_MAX_PAGES 0, so_size = 0\<rparr>"

definition shm_init :: "'a shm_scheme \<Rightarrow> 'a shm_scheme" where
  "shm_init s = s\<lparr>shm_objs := replicate SHM_MAX_OBJECTS shm_zero\<rparr>"

definition shm_open_object :: "string \<Rightarrow> 'a shm_scheme \<Rightarrow> int \<times> 'a shm_scheme" where
  "shm_open_object name s =
     (case find_idx (\<lambda>ob. so_used ob \<and> so_name ob = name) (shm_objs s) of
        Some i \<Rightarrow> (int i, s)
      | None \<Rightarrow>
          (case find_idx (\<lambda>ob. \<not> so_used ob) (shm_objs s) of
             Some i \<Rightarrow>
               (int i, s\<lparr>shm_objs := (shm_objs s)[i := shm_zero\<lparr>so_name := take (SHM_NAME_MAX - 1) name,
                                                     so_used := True, so_size := 0\<rparr>]\<rparr>)
           | None \<Rightarrow> (- ENOMEM, s)))"

text \<open>The guard every operation starts with.\<close>

definition shm_valid :: "int \<Rightarrow> 'a shm_scheme \<Rightarrow> bool" where
  "shm_valid idx s \<longleftrightarrow> \<not> (idx < 0 \<or> idx \<ge> int SHM_MAX_OBJECTS \<or> \<not> so_used (shm_objs s ! nat idx))"

definition pages_for :: "u64 \<Rightarrow> u64" where
  "pages_for len = (len + PAGE_SIZE - 1) div PAGE_SIZE"

text \<open>
  The loops of \<open>shm_truncate\<close> and \<open>shm_destroy\<close> that give pages back: unconditionally after a failed
  allocation, otherwise only those that are present.
\<close>

fun shm_drop_pages :: "bool \<Rightarrow> nat list \<Rightarrow> u64 list \<Rightarrow> 'a shm_scheme \<Rightarrow> (u64 list \<times> 'a shm_scheme) res" where
  "shm_drop_pages always [] pg s = Inr (pg, s)"
| "shm_drop_pages always (j # js) pg s =
     (if j \<ge> length pg then Inl OutOfBounds
      else if always \<or> pg ! j \<noteq> 0 then
        case pmm_free (pg ! j) s of
          Inl e \<Rightarrow> Inl e
        | Inr s1 \<Rightarrow> shm_drop_pages always js (pg[j := 0]) s1
      else shm_drop_pages always js pg s)"

text \<open>The allocating loop: \<open>n\<close> more pages from index \<open>i\<close> on; the result says whether it got them all.\<close>

fun shm_grow :: "nat \<Rightarrow> nat \<Rightarrow> nat \<Rightarrow> u64 list \<Rightarrow> 'a shm_scheme \<Rightarrow> (bool \<times> u64 list \<times> 'a shm_scheme) res" where
  "shm_grow 0 old i pg s = Inr (True, pg, s)"
| "shm_grow (Suc n) old i pg s =
     (case pmm_alloc s of (frame, s1) \<Rightarrow>
        if frame = 0 then
          case shm_drop_pages True [old..<i] pg s1 of
            Inl e \<Rightarrow> Inl e
          | Inr (pg1, s2) \<Rightarrow> Inr (False, pg1, s2)
        else shm_grow n old (Suc i) (pg[i := frame])
               (s1\<lparr>pmem := mem_fill (pmem s1) (unat frame) 4096 0\<rparr>))"

definition shm_put :: "nat \<Rightarrow> shm_object \<Rightarrow> 'a shm_scheme \<Rightarrow> 'a shm_scheme" where
  "shm_put i ob s = s\<lparr>shm_objs := (shm_objs s)[i := ob]\<rparr>"

definition shm_truncate :: "int \<Rightarrow> u64 \<Rightarrow> 'a shm_scheme \<Rightarrow> (int \<times> 'a shm_scheme) res" where
  "shm_truncate idx len s =
     (if \<not> shm_valid idx s then Inr (- EINVAL, s)
      else let i = nat idx;
               ob = shm_objs s ! i;
               old_pages = unat (pages_for (so_size ob));
               new_pages = unat (pages_for len)
           in if new_pages > SHM_MAX_PAGES then Inr (- EFBIG, s)
              else case shm_grow (new_pages - old_pages) old_pages old_pages (so_pages ob) s of
                     Inl e \<Rightarrow> Inl e
                   | Inr (False, pg, s1) \<Rightarrow> Inr (- ENOMEM, shm_put i (ob\<lparr>so_pages := pg\<rparr>) s1)
                   | Inr (True, pg, s1) \<Rightarrow>
                       case shm_drop_pages False [new_pages..<old_pages] pg s1 of
                         Inl e \<Rightarrow> Inl e
                       | Inr (pg2, s2) \<Rightarrow> Inr (0, shm_put i (ob\<lparr>so_pages := pg2, so_size := len\<rparr>) s2))"

text \<open>
  The copy loops. Every iteration copies at least one byte, so \<open>n\<close>, the number of bytes still to be
  copied, decreases; the loop of \<open>shm_read\<close> collects what it has stored in the buffer.
\<close>

definition chunk_at :: "u64 \<Rightarrow> nat \<Rightarrow> nat" where
  "chunk_at off n = min (4096 - unat off mod 4096) n"

lemma chunk_at_pos: "0 < n \<Longrightarrow> 0 < chunk_at off n"
  by (simp add: chunk_at_def)

function (sequential) shm_read_loop :: "u64 list \<Rightarrow> u64 \<Rightarrow> nat \<Rightarrow> u8 list \<Rightarrow> bmem \<Rightarrow> (int option \<times> u8 list \<times> u64) res" where
  "shm_read_loop pg off 0 acc m = Inr (None, acc, off)"
| "shm_read_loop pg off n acc m =
     (let page_idx = unat off div 4096;
          page_off = unat off mod 4096;
          chunk = chunk_at off n
      in if page_idx \<ge> length pg then Inl OutOfBounds
         else if pg ! page_idx = 0 then Inr (Some (- EFAULT), acc, off)
         else shm_read_loop pg (off + of_nat chunk) (n - chunk)
                (acc @ load_bytes m (unat (pg ! page_idx) + page_off) chunk) m)"
  by pat_completeness auto
termination
  by (relation "measure (\<lambda>(pg, off, n, acc, m). n)") (auto simp: chunk_at_def)

definition shm_read :: "int \<Rightarrow> u64 \<Rightarrow> u64 \<Rightarrow> 'a shm_scheme \<Rightarrow> (int \<times> u8 list \<times> u64) res" where
  "shm_read idx len off s =
     (if \<not> shm_valid idx s then Inr (- EINVAL, [], off)
      else let ob = shm_objs s ! nat idx
           in if off \<ge> so_size ob then Inr (0, [], off)
              else let avail = so_size ob - off;
                       to_read = (if len < avail then len else avail)
                   in case shm_read_loop (so_pages ob) off (unat to_read) [] (pmem s) of
                        Inl e \<Rightarrow> Inl e
                      | Inr (Some r, bs, _) \<Rightarrow> Inr (r, bs, off)
                      | Inr (None, bs, off') \<Rightarrow> Inr (c_int (of_nat (length bs)), bs, off'))"

function (sequential) shm_write_loop :: "u64 list \<Rightarrow> u64 \<Rightarrow> u8 list \<Rightarrow> bmem \<Rightarrow> (int option \<times> u64 \<times> bmem) res" where
  "shm_write_loop pg off [] m = Inr (None, off, m)"
| "shm_write_loop pg off bs m =
     (let page_idx = unat off div 4096;
          page_off = unat off mod 4096;
          chunk = chunk_at off (length bs)
      in if page_idx \<ge> length pg then Inl OutOfBounds
         else if pg ! page_idx = 0 then Inr (Some (- EFAULT), off, m)
         else shm_write_loop pg (off + of_nat chunk) (drop chunk bs)
                (store_bytes m (unat (pg ! page_idx) + page_off) (take chunk bs)))"
  by pat_completeness auto
termination
  by (relation "measure (\<lambda>(pg, off, bs, m). length bs)") (auto simp: chunk_at_def)

definition shm_write :: "int \<Rightarrow> u8 list \<Rightarrow> u64 \<Rightarrow> 'a shm_scheme \<Rightarrow> (int \<times> u64 \<times> 'a shm_scheme) res" where
  "shm_write idx buf off s =
     (if \<not> shm_valid idx s then Inr (- EINVAL, off, s)
      else let new_end = off + of_nat (length buf)
           in case (if new_end > so_size (shm_objs s ! nat idx) then shm_truncate idx new_end s else Inr (0, s)) of
                Inl e \<Rightarrow> Inl e
              | Inr (r, s1) \<Rightarrow>
                  if r < 0 then Inr (r, off, s1)
                  else case shm_write_loop (so_pages (shm_objs s1 ! nat idx)) off buf (pmem s1) of
                         Inl e \<Rightarrow> Inl e
                       | Inr (Some r', _, m) \<Rightarrow> Inr (r', off, s1\<lparr>pmem := m\<rparr>)
                       | Inr (None, off', m) \<Rightarrow> Inr (c_int (of_nat (length buf)), off', s1\<lparr>pmem := m\<rparr>))"

definition shm_get_page_phys :: "int \<Rightarrow> u64 \<Rightarrow> 'a shm_scheme \<Rightarrow> u64" where
  "shm_get_page_phys idx page_offset s =
     (if \<not> shm_valid idx s then 0
      else let page_idx = unat (page_offset div PAGE_SIZE)
           in if page_idx \<ge> SHM_MAX_PAGES then 0 else so_pages (shm_objs s ! nat idx) ! page_idx)"

definition shm_destroy :: "int \<Rightarrow> 'a shm_scheme \<Rightarrow> 'a shm_scheme res" where
  "shm_destroy idx s =
     (if \<not> shm_valid idx s then Inr s
      else let ob = shm_objs s ! nat idx
           in case shm_drop_pages False [0..<unat (pages_for (so_size ob))] (so_pages ob) s of
                Inl e \<Rightarrow> Inl e
              | Inr (pg, s1) \<Rightarrow> Inr (shm_put (nat idx) (ob\<lparr>so_pages := pg, so_used := False\<rparr>) s1))"

section \<open>The byte view of an object\<close>

definition page_byte :: "u64 list \<Rightarrow> nat \<Rightarrow> nat" where
  "page_byte pg k = unat (pg ! (k div 4096)) + k mod 4096"

text \<open>Bytes \<open>a\<close> up to \<open>e\<close> of the page array are backed by distinct, page-aligned, non-null frames.\<close>

definition backed :: "u64 list \<Rightarrow> nat \<Rightarrow> bool" where
  "backed pg e \<longleftrightarrow>
     e \<le> 4096 * length pg \<and>
     (\<forall>i. 4096 * i < e \<longrightarrow> pg ! i \<noteq> 0 \<and> page_aligned (pg ! i)) \<and>
     (\<forall>i j. 4096 * i < e \<longrightarrow> 4096 * j < e \<longrightarrow> pg ! i = pg ! j \<longrightarrow> i = j)"

lemma backed_page:
  assumes "backed pg e" and "k < e"
  shows "k div 4096 < length pg" and "pg ! (k div 4096) \<noteq> 0" and "page_aligned (pg ! (k div 4096))"
proof -
  have d: "4096 * (k div 4096) \<le> k" by simp
  show "k div 4096 < length pg" using assms d unfolding backed_def by linarith
  have "4096 * (k div 4096) < e" using assms(2) d by linarith
  with assms(1) show "pg ! (k div 4096) \<noteq> 0" "page_aligned (pg ! (k div 4096))"
    by (simp_all add: backed_def)
qed

lemma page_byte_inj:
  assumes b: "backed pg e" and "a < e" and "c < e" and eq: "page_byte pg a = page_byte pg c"
  shows "a = c"
proof -
  have al: "unat (pg ! (k div 4096)) mod 4096 = 0" if "k < e" for k
    using backed_page(3) [OF b that] by (simp add: page_aligned_def)
  have "page_byte pg k mod 4096 = k mod 4096" "page_byte pg k div 4096 = unat (pg ! (k div 4096)) div 4096"
    if "k < e" for k
    using al [OF that] unfolding page_byte_def
    by (auto simp: mod_eq_0_iff_dvd elim!: dvdE)
  with assms(2-4) have m: "a mod 4096 = c mod 4096" and
    "unat (pg ! (a div 4096)) div 4096 = unat (pg ! (c div 4096)) div 4096" by metis+
  then have "unat (pg ! (a div 4096)) = unat (pg ! (c div 4096))"
    using al assms(2,3) by (metis add.right_neutral div_mult_mod_eq)
  then have "pg ! (a div 4096) = pg ! (c div 4096)" by (simp add: unat_eq_unat_iff)
  moreover have "4096 * (a div 4096) \<le> a" "4096 * (c div 4096) \<le> c" by simp_all
  ultimately have "a div 4096 = c div 4096" using b assms(2,3) unfolding backed_def by (meson le_less_trans)
  with m show ?thesis by (metis div_mult_mod_eq)
qed

lemma page_byte_chunk:
  assumes "j < chunk_at off n"
  shows "page_byte pg (unat off + j) = page_byte pg (unat off) + j"
proof -
  define q where "q = unat off div 4096"
  define r where "r = unat off mod 4096"
  have "j < 4096 - r" using assms by (simp add: chunk_at_def r_def)
  then have lt: "r + j < 4096" by linarith
  have e: "unat off + j = q * 4096 + (r + j)" by (simp add: q_def r_def)
  have "(unat off + j) div 4096 = q" "(unat off + j) mod 4096 = r + j"
    unfolding e using lt by simp_all
  then show ?thesis by (simp add: page_byte_def q_def r_def)
qed

lemma chunk_at_le: "chunk_at off n \<le> n"
  by (simp add: chunk_at_def)

lemma unat_off_chunk:
  assumes "unat off + n < 2 ^ 64"
  shows "unat (off + of_nat (chunk_at off n)) = unat off + chunk_at off n"
proof -
  have c: "chunk_at off n \<le> n" by (rule chunk_at_le)
  then have "unat (of_nat (chunk_at off n) :: u64) = chunk_at off n"
    using assms by (simp add: unat_of_nat)
  with assms c show ?thesis by (simp add: unat_word_ariths)
qed

lemma shm_read_loop_bytes:
  assumes "backed pg e" and "unat off + n \<le> e" and "unat off + n < 2 ^ 64"
  shows "shm_read_loop pg off n acc m =
           Inr (None, acc @ map (\<lambda>k. m (page_byte pg (unat off + k))) [0..<n], off + of_nat n)"
  using assms
proof (induction pg off n acc m rule: shm_read_loop.induct)
  case (1 pg off acc m)
  then show ?case by simp
next
  case (2 pg off v acc m)
  let ?n = "Suc v" and ?c = "chunk_at off (Suc v)"
  have lt: "unat off < e" using "2.prems"(2) by simp
  note pg = backed_page [OF "2.prems"(1) lt]
  note c = chunk_at_pos [of ?n off] chunk_at_le [of off ?n] unat_off_chunk [OF "2.prems"(3)]
  have bytes: "load_bytes m (unat (pg ! (unat off div 4096)) + unat off mod 4096) ?c =
      map (\<lambda>k. m (page_byte pg (unat off + k))) [0..<?c]"
    by (rule nth_equalityI) (simp_all add: page_byte_chunk, simp add: page_byte_def)
  have split: "[0..<?n] = [0..<?c] @ map (\<lambda>k. ?c + k) [0..<?n - ?c]"
    using c(2) by (auto intro!: nth_equalityI simp: nth_append)
  have sum: "off + of_nat ?c + of_nat (?n - ?c) = off + of_nat ?n"
    using c(2) by (metis (no_types, lifting) add.assoc le_add_diff_inverse of_nat_add)
  have "shm_read_loop pg off ?n acc m =
      shm_read_loop pg (off + of_nat ?c) (?n - ?c)
        (acc @ load_bytes m (unat (pg ! (unat off div 4096)) + unat off mod 4096) ?c) m"
    using pg by (simp add: Let_def)
  also have "\<dots> = Inr (None, (acc @ map (\<lambda>k. m (page_byte pg (unat off + k))) [0..<?c]) @
        map (\<lambda>k. m (page_byte pg (unat off + ?c + k))) [0..<?n - ?c], off + of_nat ?n)"
    using "2.IH" [OF refl refl refl, of] pg "2.prems" c sum unfolding bytes by simp
  also have "\<dots> = Inr (None, acc @ map (\<lambda>k. m (page_byte pg (unat off + k))) [0..<?n], off + of_nat ?n)"
    unfolding split by (simp add: comp_def add.assoc)
  finally show ?case .
qed

lemma shm_write_loop_bytes:
  assumes "backed pg e" and "unat off + length bs \<le> e" and "unat off + length bs < 2 ^ 64"
  shows "\<exists>m'. shm_write_loop pg off bs m = Inr (None, off + of_nat (length bs), m') \<and>
           (\<forall>k < length bs. m' (page_byte pg (unat off + k)) = bs ! k) \<and>
           (\<forall>x. x \<notin> page_byte pg ` {unat off..<unat off + length bs} \<longrightarrow> m' x = m x)"
  using assms
proof (induction pg off bs m rule: shm_write_loop.induct)
  case (1 pg off m)
  then show ?case by simp
next
  case (2 pg off b bs m)
  let ?bs = "b # bs" and ?c = "chunk_at off (length (b # bs))"
  have lt: "unat off < e" using "2.prems"(2) by simp
  note pg = backed_page [OF "2.prems"(1) lt]
  note c = chunk_at_pos [of "length ?bs" off] chunk_at_le [of off "length ?bs"] unat_off_chunk [OF "2.prems"(3)]
  define m1 where "m1 = store_bytes m (page_byte pg (unat off)) (take ?c ?bs)"
  have m1: "m1 (page_byte pg (unat off + k)) = ?bs ! k" if "k < ?c" for k
    using that c(2) page_byte_chunk [OF that] store_bytes_inside [of k "take ?c ?bs" m "page_byte pg (unat off)"]
    by (simp add: m1_def)
  have m1o: "m1 x = m x" if "x \<notin> page_byte pg ` {unat off..<unat off + ?c}" for x
  proof -
    have "x < page_byte pg (unat off) \<or> page_byte pg (unat off) + ?c \<le> x"
    proof (rule ccontr)
      assume "\<not> ?thesis"
      then have "x - page_byte pg (unat off) < ?c" "x = page_byte pg (unat off) + (x - page_byte pg (unat off))" by auto
      with page_byte_chunk have "x = page_byte pg (unat off + (x - page_byte pg (unat off)))" by metis
      with that \<open>x - page_byte pg (unat off) < ?c\<close> show False by (auto simp: image_iff)
    qed
    then show ?thesis using c(2) by (simp add: m1_def store_bytes_outside)
  qed
  have "\<exists>m'. shm_write_loop pg (off + of_nat ?c) (drop ?c ?bs) m1 =
        Inr (None, off + of_nat ?c + of_nat (length (drop ?c ?bs)), m') \<and>
      (\<forall>k < length (drop ?c ?bs). m' (page_byte pg (unat off + ?c + k)) = drop ?c ?bs ! k) \<and>
      (\<forall>x. x \<notin> page_byte pg ` {unat off + ?c..<unat off + ?c + length (drop ?c ?bs)} \<longrightarrow> m' x = m1 x)"
    using "2.IH" [OF refl refl refl] pg "2.prems" c unfolding m1_def page_byte_def by simp
  then obtain m' where m': "shm_write_loop pg (off + of_nat ?c) (drop ?c ?bs) m1 =
        Inr (None, off + of_nat ?c + of_nat (length (drop ?c ?bs)), m')"
      "\<And>k. k < length (drop ?c ?bs) \<Longrightarrow> m' (page_byte pg (unat off + ?c + k)) = drop ?c ?bs ! k"
      "\<And>x. x \<notin> page_byte pg ` {unat off + ?c..<unat off + ?c + length (drop ?c ?bs)} \<Longrightarrow> m' x = m1 x" by blast
  have len: "length (drop ?c ?bs) = length ?bs - ?c" by simp
  have sum: "off + of_nat ?c + of_nat (length (drop ?c ?bs)) = off + of_nat (length ?bs)"
    using c(2) unfolding len by (metis (no_types, lifting) add.assoc le_add_diff_inverse of_nat_add)
  have step: "shm_write_loop pg off ?bs m = shm_write_loop pg (off + of_nat ?c) (drop ?c ?bs) m1"
    using pg by (simp add: Let_def m1_def page_byte_def)
  show ?case
  proof (intro exI conjI allI impI)
    show "shm_write_loop pg off ?bs m = Inr (None, off + of_nat (length ?bs), m')"
      unfolding step m'(1) sum ..
  next
    fix k assume k: "k < length ?bs"
    show "m' (page_byte pg (unat off + k)) = ?bs ! k"
    proof (cases "k < ?c")
      case True
      have "page_byte pg (unat off + k) \<notin> page_byte pg ` {unat off + ?c..<unat off + ?c + length (drop ?c ?bs)}"
      proof
        assume "page_byte pg (unat off + k) \<in> page_byte pg ` {unat off + ?c..<unat off + ?c + length (drop ?c ?bs)}"
        then obtain y where y: "y \<in> {unat off + ?c..<unat off + ?c + length (drop ?c ?bs)}"
          "page_byte pg (unat off + k) = page_byte pg y" by blast
        have "unat off + k = y"
          using y(1) k True "2.prems"(2) c(2) by (intro page_byte_inj [OF "2.prems"(1) _ _ y(2)]) auto
        with y(1) True show False by simp
      qed
      with m'(3) m1 [OF True] show ?thesis by metis
    next
      case False
      with m'(2) [of "k - ?c"] k show ?thesis by simp
    qed
  next
    fix x assume x: "x \<notin> page_byte pg ` {unat off..<unat off + length ?bs}"
    have "m' x = m1 x" using x c(2) by (intro m'(3)) auto
    also have "m1 x = m x" using x c(2) by (intro m1o) auto
    finally show "m' x = m x" .
  qed
qed

section \<open>Taking and giving back pages\<close>

abbreviation frame_no :: "u64 \<Rightarrow> nat" where
  "frame_no p \<equiv> unat p div 4096"

text \<open>A frame address that the allocator has handed out.\<close>

definition taken :: "'a mach_scheme \<Rightarrow> u64 \<Rightarrow> bool" where
  "taken s p \<longleftrightarrow> page_aligned p \<and> frame_no p \<in> {1..<unat (total_frames s)} - free_set s"

lemma taken_nz: "taken s p \<Longrightarrow> p \<noteq> 0"
  by (auto simp: taken_def)

lemma aligned_frame_addr:
  assumes "page_aligned p"
  shows "p = of_nat (frame_no p) * 4096"
proof -
  from assms obtain k where k: "unat p = 4096 * k" by (auto simp: page_aligned_def mod_eq_0_iff_dvd elim: dvdE)
  with unat_less_2p64 [of p] have "k < 4503599627370496" by linarith
  with k have "unat (of_nat (frame_no p) * 4096 :: u64) = unat p"
    by (simp add: unat_word_ariths unat_of_nat)
  then show ?thesis by (simp add: unat_eq_unat_iff)
qed

lemma frame_no_inj: "page_aligned p \<Longrightarrow> page_aligned q \<Longrightarrow> frame_no p = frame_no q \<Longrightarrow> p = q"
  using aligned_frame_addr by metis

definition same_but_pmm :: "'a shm_scheme \<Rightarrow> 'a shm_scheme \<Rightarrow> bool" where
  "same_but_pmm s s' \<longleftrightarrow>
     total_frames s' = total_frames s \<and> cr3 s' = cr3 s \<and> current_pml4 s' = current_pml4 s \<and>
     same_heap s s' \<and> shm_objs s' = shm_objs s"

lemma same_but_pmm_refl [simp]: "same_but_pmm s s"
  by (simp add: same_but_pmm_def same_heap_def)

lemma same_but_pmm_trans: "same_but_pmm s s' \<Longrightarrow> same_but_pmm s' s'' \<Longrightarrow> same_but_pmm s s''"
  by (simp add: same_but_pmm_def same_heap_def)

lemma pmm_free_taken:
  assumes "pmm_inv s" and "taken s p"
  obtains s' where "pmm_free p s = Inr s'" and "free_set s' = insert (frame_no p) (free_set s)" and "pmm_inv s'"
    and "same_but_pmm s s'" and "pmem s' = pmem s"
proof -
  have "frame_no p \<in> {1..<unat (total_frames s)}" "frame_no p \<notin> free_set s" "page_aligned p"
    using assms(2) by (auto simp: taken_def)
  from pa.free_owned [OF assms(1) this(1,2)] aligned_frame_addr [OF this(3)]
  obtain s' where s': "pmm_free p s = Inr s'" "free_set s' = insert (frame_no p) (free_set s)" "pmm_inv s'" by metis
  have "same_but_pmm s s'" "pmem s' = pmem s"
    using s'(1) by (auto simp: pmm_free_def Let_def bm_clear_def same_but_pmm_def same_heap_def split: if_splits)
  with s' that show ?thesis by blast
qed

definition zero_at :: "nat set \<Rightarrow> u64 list \<Rightarrow> u64 list" where
  "zero_at J pg = map (\<lambda>j. if j \<in> J then 0 else pg ! j) [0..<length pg]"

lemma zero_at_sel [simp]: "length (zero_at J pg) = length pg"
  "j < length pg \<Longrightarrow> zero_at J pg ! j = (if j \<in> J then 0 else pg ! j)"
  by (simp_all add: zero_at_def)

lemma shm_drop_pages_ok:
  assumes "pmm_inv s" and "distinct js" and "\<forall>j \<in> set js. j < length pg \<and> taken s (pg ! j)"
    and "inj_on (\<lambda>j. pg ! j) (set js)"
  shows "\<exists>s'. shm_drop_pages a js pg s = Inr (zero_at (set js) pg, s') \<and> pmm_inv s' \<and>
           free_set s' = free_set s \<union> (\<lambda>j. frame_no (pg ! j)) ` set js \<and> same_but_pmm s s' \<and> pmem s' = pmem s"
  using assms
proof (induction js arbitrary: pg s)
  case Nil
  have "zero_at {} pg = pg" by (rule nth_equalityI) simp_all
  with Nil show ?case by simp
next
  case (Cons j js)
  have j: "j < length pg" "taken s (pg ! j)" "j \<notin> set js" using Cons.prems by auto
  from pmm_free_taken [OF Cons.prems(1) j(2)] obtain s1 where
    s1: "pmm_free (pg ! j) s = Inr s1" "free_set s1 = insert (frame_no (pg ! j)) (free_set s)" "pmm_inv s1"
    "same_but_pmm s s1" "pmem s1 = pmem s" .
  let ?pg = "pg[j := 0]"
  have same: "?pg ! i = pg ! i" if "i \<in> set js" for i using that j(3) by (metis nth_list_update_neq)
  have t: "\<forall>i \<in> set js. i < length ?pg \<and> taken s1 (?pg ! i)"
  proof
    fix i assume i: "i \<in> set js"
    then have ti: "taken s (pg ! i)" "i < length pg" using Cons.prems(3) by auto
    have "pg ! i \<noteq> pg ! j" using Cons.prems(4) i j(3) by (auto simp: inj_on_def)
    then have "frame_no (pg ! i) \<noteq> frame_no (pg ! j)" using frame_no_inj ti(1) j(2) by (metis taken_def)
    with ti s1(2,4) same [OF i] show "i < length ?pg \<and> taken s1 (?pg ! i)"
      by (auto simp: taken_def same_but_pmm_def)
  qed
  have inj: "inj_on (\<lambda>i. ?pg ! i) (set js)"
    using Cons.prems(4) same by (auto simp: inj_on_def)
  from Cons.IH [OF s1(3) _ t inj] Cons.prems(2) obtain s' where
    s': "shm_drop_pages a js ?pg s1 = Inr (zero_at (set js) ?pg, s')" "pmm_inv s'"
    "free_set s' = free_set s1 \<union> (\<lambda>i. frame_no (?pg ! i)) ` set js" "same_but_pmm s1 s'" "pmem s' = pmem s1" by auto
  have "zero_at (set js) ?pg = zero_at (set (j # js)) pg"
    by (rule nth_equalityI) (auto simp: nth_list_update)
  moreover have "(\<lambda>i. frame_no (?pg ! i)) ` set js = (\<lambda>i. frame_no (pg ! i)) ` set js"
    using same by (auto intro!: image_cong)
  ultimately show ?case
    using s' s1 j taken_nz [OF j(2)] by (auto intro: same_but_pmm_trans)
qed

text \<open>
  What the allocating loop has done when it got all its pages, and when it ran out: either it holds
  \<open>n\<close> new frames at the indices from \<open>i\<close> on, or the allocator is back where it was before
  index \<open>old\<close>.
\<close>

definition grown :: "nat \<Rightarrow> nat \<Rightarrow> u64 list \<Rightarrow> 'a shm_scheme \<Rightarrow> u64 list \<Rightarrow> 'a shm_scheme \<Rightarrow> bool" where
  "grown i n pg s pg' s' \<longleftrightarrow>
     pmm_inv s' \<and> same_but_pmm s s' \<and> length pg' = length pg \<and>
     (\<forall>j < length pg. j \<notin> {i..<i + n} \<longrightarrow> pg' ! j = pg ! j) \<and>
     (\<forall>j \<in> {i..<i + n}. page_aligned (pg' ! j) \<and> frame_no (pg' ! j) \<in> free_set s) \<and>
     inj_on (\<lambda>j. pg' ! j) {i..<i + n} \<and>
     free_set s' = free_set s - (\<lambda>j. frame_no (pg' ! j)) ` {i..<i + n} \<and>
     (\<forall>x. x div 4096 \<notin> free_set s \<longrightarrow> pmem s' x = pmem s x)"

definition rolled_back :: "nat \<Rightarrow> nat \<Rightarrow> u64 list \<Rightarrow> 'a shm_scheme \<Rightarrow> u64 list \<Rightarrow> 'a shm_scheme \<Rightarrow> bool" where
  "rolled_back old i pg s pg' s' \<longleftrightarrow>
     pmm_inv s' \<and> same_but_pmm s s' \<and> length pg' = length pg \<and>
     (\<forall>j < length pg. pg' ! j = pg ! j \<or> (old \<le> j \<and> pg' ! j = 0)) \<and>
     (\<forall>j \<in> {old..<i}. pg' ! j = 0) \<and>
     free_set s' = free_set s \<union> (\<lambda>j. frame_no (pg ! j)) ` {old..<i} \<and>
     (\<forall>x. x div 4096 \<notin> free_set s \<longrightarrow> pmem s' x = pmem s x)"

lemma shm_grow_ok:
  assumes "pmm_inv s" and "old \<le> i" and "i + n \<le> length pg"
    and "\<forall>j \<in> {old..<i}. taken s (pg ! j)" and "inj_on (\<lambda>j. pg ! j) {old..<i}"
  shows "if n \<le> card (free_set s)
         then \<exists>pg' s'. shm_grow n old i pg s = Inr (True, pg', s') \<and> grown i n pg s pg' s'
         else \<exists>pg' s'. shm_grow n old i pg s = Inr (False, pg', s') \<and> rolled_back old i pg s pg' s'"
  using assms
proof (induction n arbitrary: i pg s)
  case 0
  then show ?case by (simp add: grown_def)
next
  case (Suc n)
  show ?case
    using Suc.prems(1)
  proof (cases rule: pa.alloc_cases)
    case empty
    from Suc.prems shm_drop_pages_ok [OF Suc.prems(1), of "[old..<i]" pg True] obtain s' where
      "shm_drop_pages True [old..<i] pg s = Inr (zero_at {old..<i} pg, s')" "pmm_inv s'"
      "free_set s' = free_set s \<union> (\<lambda>j. frame_no (pg ! j)) ` {old..<i}" "same_but_pmm s s'" "pmem s' = pmem s"
      by auto
    with empty Suc.prems(2,3) show ?thesis by (auto simp: rolled_back_def)
  next
    case (frame f s1)
    let ?f = "of_nat f * 4096 :: u64"
    have uf: "unat ?f = f * 4096" using frame(4) by (rule pa.frame_addr)
    have fr: "frame_no ?f = f" "page_aligned ?f" "?f \<noteq> 0" using uf frame(3) by (auto simp: page_aligned_def)
    define s2 where "s2 = s1\<lparr>pmem := mem_fill (pmem s1) (unat ?f) 4096 0\<rparr>"
    have s1same: "same_but_pmm s s1" "pmem s1 = pmem s"
      using frame(1) by (auto simp: pmm_alloc_def bm_set_def same_but_pmm_def same_heap_def split: option.splits if_splits)
    have sb: "same_but_pmm s s2" using s1same by (simp add: s2_def same_but_pmm_def same_heap_def)
    have inv2: "pmm_inv s2" "free_set s2 = free_set s - {f}" using frame by (simp_all add: s2_def)
    have mem2: "pmem s2 x = pmem s x" if "x div 4096 \<noteq> f" for x
    proof -
      have "x < f * 4096 \<or> f * 4096 + 4096 \<le> x" using that by (auto simp: not_less not_le div_nat_eqI)
      then show ?thesis using s1same(2) by (auto simp: s2_def uf mem_fill_def)
    qed
    let ?pg = "pg[i := ?f]"
    have ilen: "i < length pg" using Suc.prems(3) by simp
    have old: "?pg ! j = pg ! j" if "j \<noteq> i" for j using that by simp
    have tak: "taken s2 (?pg ! j)" if "j \<in> {old..<Suc i}" for j
    proof (cases "j = i")
      case True
      with ilen fr frame(2,4) inv2(2) sb pmm_inv_free_bounds [OF Suc.prems(1) frame(2)] show ?thesis
        by (auto simp: taken_def same_but_pmm_def)
    next
      case False
      with that have "taken s (pg ! j)" using Suc.prems(4) by auto
      with False sb inv2(2) show ?thesis by (auto simp: taken_def same_but_pmm_def)
    qed
    have inj: "inj_on (\<lambda>j. ?pg ! j) {old..<Suc i}"
    proof (rule inj_onI)
      fix j k assume jk: "j \<in> {old..<Suc i}" "k \<in> {old..<Suc i}" "?pg ! j = ?pg ! k"
      have ne: "pg ! l \<noteq> ?f" if "l \<in> {old..<i}" for l
      proof -
        have "taken s (pg ! l)" using Suc.prems(4) that by blast
        then have "frame_no (pg ! l) \<notin> free_set s" by (simp add: taken_def)
        with frame(2) fr(1) show ?thesis by metis
      qed
      show "j = k"
        using jk ne [of j] ne [of k] Suc.prems(5) ilen
        by (cases "j = i"; cases "k = i") (auto simp: inj_on_def)
    qed
    have step: "shm_grow (Suc n) old i pg s = shm_grow n old (Suc i) ?pg s2"
      using frame(1) fr(3) by (simp add: s2_def)
    have card: "Suc n \<le> card (free_set s) \<longleftrightarrow> n \<le> card (free_set s2)"
    proof -
      have "card (free_set s2) = card (free_set s) - 1" "0 < card (free_set s)"
        using frame(2) by (auto simp: inv2(2) card_Diff_singleton card_gt_0_iff)
      then show ?thesis by linarith
    qed
    have IH: "Suc i + n \<le> length ?pg" "old \<le> Suc i" using Suc.prems(2,3) by simp_all
    note ih = Suc.IH [OF inv2(1) IH(2,1) _ inj]
    show ?thesis
    proof (cases "n \<le> card (free_set s2)")
      case True
      with ih tak obtain pg' s' where g: "shm_grow n old (Suc i) ?pg s2 = Inr (True, pg', s')"
        "grown (Suc i) n ?pg s2 pg' s'" by auto
      have r: "pmm_inv s'" "same_but_pmm s2 s'" "length pg' = length ?pg"
        using g(2) by (simp_all add: grown_def)
      have r3: "same_but_pmm s s'" by (rule same_but_pmm_trans [OF sb r(2)])
      have r5: "\<And>j. j < length pg \<Longrightarrow> j \<notin> {Suc i..<Suc i + n} \<Longrightarrow> pg' ! j = ?pg ! j"
        and r6: "\<And>j. j \<in> {Suc i..<Suc i + n} \<Longrightarrow> page_aligned (pg' ! j) \<and> frame_no (pg' ! j) \<in> free_set s2"
        and r7: "inj_on (\<lambda>j. pg' ! j) {Suc i..<Suc i + n}"
        and r8: "free_set s' = free_set s2 - (\<lambda>j. frame_no (pg' ! j)) ` {Suc i..<Suc i + n}"
        and r9: "\<And>x. x div 4096 \<notin> free_set s2 \<Longrightarrow> pmem s' x = pmem s2 x"
        using g(2) by (simp_all add: grown_def)
      have pi: "pg' ! i = ?f" using r5 [of i] ilen by simp
      have split: "{i..<i + Suc n} = insert i {Suc i..<Suc i + n}" by auto
      have "inj_on (\<lambda>j. pg' ! j) {i..<i + Suc n}"
        unfolding split using r7 r6 pi fr inv2(2) by (fastforce simp: inj_on_insert)
      moreover have "free_set s' = free_set s - (\<lambda>j. frame_no (pg' ! j)) ` {i..<i + Suc n}"
        unfolding split r8 inv2(2) using pi fr(1) by auto
      moreover have "\<forall>j \<in> {i..<i + Suc n}. page_aligned (pg' ! j) \<and> frame_no (pg' ! j) \<in> free_set s"
        unfolding split using r6 pi fr inv2(2) frame(2) by auto
      moreover have "\<forall>x. x div 4096 \<notin> free_set s \<longrightarrow> pmem s' x = pmem s x"
        using r9 mem2 inv2(2) frame(2) by (metis Diff_iff)
      moreover have "\<forall>j < length pg. j \<notin> {i..<i + Suc n} \<longrightarrow> pg' ! j = pg ! j"
        using r5 by (auto simp: not_le)
      ultimately have "grown i (Suc n) pg s pg' s'"
        unfolding grown_def using r r3 by (intro conjI) simp_all
      with True card step g(1) show ?thesis by auto
    next
      case False
      with ih tak obtain pg' s' where g: "shm_grow n old (Suc i) ?pg s2 = Inr (False, pg', s')"
        "rolled_back old (Suc i) ?pg s2 pg' s'" by auto
      have r: "pmm_inv s'" "same_but_pmm s2 s'" "length pg' = length ?pg"
        using g(2) by (simp_all add: rolled_back_def)
      have r3: "same_but_pmm s s'" by (rule same_but_pmm_trans [OF sb r(2)])
      have r5: "\<And>j. j < length pg \<Longrightarrow> pg' ! j = ?pg ! j \<or> (old \<le> j \<and> pg' ! j = 0)"
        and r6: "\<And>j. j \<in> {old..<Suc i} \<Longrightarrow> pg' ! j = 0"
        and r7: "free_set s' = free_set s2 \<union> (\<lambda>j. frame_no (?pg ! j)) ` {old..<Suc i}"
        and r8: "\<And>x. x div 4096 \<notin> free_set s2 \<Longrightarrow> pmem s' x = pmem s2 x"
        using g(2) by (simp_all add: rolled_back_def)
      have split: "{old..<Suc i} = insert i {old..<i}" using Suc.prems(2) by auto
      have "free_set s' = free_set s \<union> (\<lambda>j. frame_no (pg ! j)) ` {old..<i}"
        unfolding r7 split inv2(2) using fr(1) ilen frame(2) by auto
      moreover have "\<forall>j < length pg. pg' ! j = pg ! j \<or> (old \<le> j \<and> pg' ! j = 0)"
        using r5 r6 Suc.prems(2) old by (metis atLeastLessThan_iff lessI)
      moreover have "\<forall>x. x div 4096 \<notin> free_set s \<longrightarrow> pmem s' x = pmem s x"
        using r8 mem2 inv2(2) frame(2) by (metis Diff_iff)
      ultimately have "rolled_back old i pg s pg' s'"
        unfolding rolled_back_def using r r3 r6 by (intro conjI) simp_all
      with False card step g(1) show ?thesis by auto
    qed
  qed
qed

section \<open>The invariant of the object table\<close>

definition npages :: "nat \<Rightarrow> nat" where
  "npages n = (n + 4095) div 4096"

lemma unat_pages_for:
  assumes "unat len + 4095 < 2 ^ 64"
  shows "unat (pages_for len) = npages (unat len)"
proof -
  have "len + 4096 - 1 = len + 4095" by simp
  moreover have "unat (len + 4095) = unat len + 4095" using assms by (simp add: unat_word_ariths)
  ultimately show ?thesis by (simp only: pages_for_def npages_def unat_div) simp
qed

lemma npages_le: "n \<le> 4194304 \<Longrightarrow> npages n \<le> 1024"
  by (simp add: npages_def)

lemma npages_less_iff: "i < npages n \<longleftrightarrow> 4096 * i < n"
  by (auto simp: npages_def)

text \<open>
  A used object owns exactly the frames its size needs, frames that the allocator has handed
  out, and no frame belongs to two pages or two objects.
\<close>

definition shm_obj_ok :: "'a shm_scheme \<Rightarrow> shm_object \<Rightarrow> bool" where
  "shm_obj_ok s ob \<longleftrightarrow>
     length (so_pages ob) = SHM_MAX_PAGES \<and> unat (so_size ob) \<le> 4194304 \<and>
     (\<forall>i < SHM_MAX_PAGES. if i < npages (unat (so_size ob)) then taken s (so_pages ob ! i) else so_pages ob ! i = 0) \<and>
     inj_on (\<lambda>i. so_pages ob ! i) {..<npages (unat (so_size ob))}"

definition shm_inv :: "'a shm_scheme \<Rightarrow> bool" where
  "shm_inv s \<longleftrightarrow>
     pmm_inv s \<and> length (shm_objs s) = SHM_MAX_OBJECTS \<and>
     (\<forall>i < SHM_MAX_OBJECTS. so_used (shm_objs s ! i) \<longrightarrow> shm_obj_ok s (shm_objs s ! i)) \<and>
     (\<forall>i < SHM_MAX_OBJECTS. \<forall>j < SHM_MAX_OBJECTS. i \<noteq> j \<longrightarrow> so_used (shm_objs s ! i) \<longrightarrow> so_used (shm_objs s ! j) \<longrightarrow>
        (\<forall>a < npages (unat (so_size (shm_objs s ! i))). \<forall>b < npages (unat (so_size (shm_objs s ! j))).
           so_pages (shm_objs s ! i) ! a \<noteq> so_pages (shm_objs s ! j) ! b))"

lemma shm_obj_backed:
  assumes "shm_obj_ok s ob"
  shows "backed (so_pages ob) (unat (so_size ob))"
proof -
  have np: "npages (unat (so_size ob)) \<le> 1024" using assms npages_le by (auto simp: shm_obj_ok_def)
  have t: "taken s (so_pages ob ! i)" if "4096 * i < unat (so_size ob)" for i
  proof -
    have "i < npages (unat (so_size ob))" using that by (simp add: npages_less_iff)
    then show ?thesis using assms np by (auto simp: shm_obj_ok_def)
  qed
  have "inj_on (\<lambda>i. so_pages ob ! i) {..<npages (unat (so_size ob))}" using assms by (simp add: shm_obj_ok_def)
  then have "i = j" if "4096 * i < unat (so_size ob)" "4096 * j < unat (so_size ob)" "so_pages ob ! i = so_pages ob ! j" for i j
    using that by (auto simp: inj_on_def npages_less_iff)
  moreover have "unat (so_size ob) \<le> 4096 * length (so_pages ob)" using assms by (simp add: shm_obj_ok_def)
  ultimately show ?thesis
    using t taken_nz [OF t] unfolding backed_def by (auto simp: taken_def)
qed

lemma shm_put_sel [simp]:
  "free_set (shm_put i ob s) = free_set s" "total_frames (shm_put i ob s) = total_frames s"
  "pmem (shm_put i ob s) = pmem s" "shm_objs (shm_put i ob s) = (shm_objs s)[i := ob]"
  "pmm_inv (shm_put i ob s) = pmm_inv s" "taken (shm_put i ob s) p = taken s p"
  by (simp_all add: shm_put_def free_set_def pmm_inv_def taken_def)

lemma shm_obj_ok_put [simp]: "shm_obj_ok (shm_put i ob s) ob' = shm_obj_ok s ob'"
  by (simp add: shm_obj_ok_def)

lemma shm_inv_put:
  assumes inv: "shm_inv s" and i: "i < SHM_MAX_OBJECTS"
    and s1: "pmm_inv s1" "shm_objs s1 = shm_objs s"
    and others: "\<And>j p. j < SHM_MAX_OBJECTS \<Longrightarrow> j \<noteq> i \<Longrightarrow> so_used (shm_objs s ! j) \<Longrightarrow>
        p \<in> (\<lambda>a. so_pages (shm_objs s ! j) ! a) ` {..<npages (unat (so_size (shm_objs s ! j)))} \<Longrightarrow>
        taken s1 p \<and> p \<notin> (\<lambda>a. so_pages ob ! a) ` {..<npages (unat (so_size ob))}"
    and ob: "shm_obj_ok s1 ob"
  shows "shm_inv (shm_put i ob s1)"
proof -
  have len: "length (shm_objs s) = SHM_MAX_OBJECTS" using inv by (simp add: shm_inv_def)
  have ok: "shm_obj_ok s1 (shm_objs s ! j)"
    if j: "j < SHM_MAX_OBJECTS" "j \<noteq> i" "so_used (shm_objs s ! j)" for j
  proof -
    have "shm_obj_ok s (shm_objs s ! j)" using inv j by (simp add: shm_inv_def)
    moreover have "taken s1 (so_pages (shm_objs s ! j) ! a)" if "a < npages (unat (so_size (shm_objs s ! j)))" for a
      using others [OF j] that by blast
    ultimately show ?thesis by (simp add: shm_obj_ok_def)
  qed
  have disj: "so_pages ob ! a \<noteq> so_pages (shm_objs s ! j) ! b"
    if "j < SHM_MAX_OBJECTS" "j \<noteq> i" "so_used (shm_objs s ! j)" "a < npages (unat (so_size ob))"
      "b < npages (unat (so_size (shm_objs s ! j)))" for j a b
  proof -
    have "so_pages (shm_objs s ! j) ! b \<in> (\<lambda>a. so_pages (shm_objs s ! j) ! a) ` {..<npages (unat (so_size (shm_objs s ! j)))}"
      using that(5) by blast
    from others [OF that(1-3) this] that(4) show ?thesis by (metis imageI lessThan_iff)
  qed
  have old: "so_pages (shm_objs s ! j) ! a \<noteq> so_pages (shm_objs s ! k) ! b"
    if "j < SHM_MAX_OBJECTS" "k < SHM_MAX_OBJECTS" "j \<noteq> k" "so_used (shm_objs s ! j)" "so_used (shm_objs s ! k)"
      "a < npages (unat (so_size (shm_objs s ! j)))" "b < npages (unat (so_size (shm_objs s ! k)))" for j k a b
    using inv that unfolding shm_inv_def by blast
  show ?thesis
    unfolding shm_inv_def
  proof (intro conjI allI impI)
    show "pmm_inv (shm_put i ob s1)" "length (shm_objs (shm_put i ob s1)) = SHM_MAX_OBJECTS"
      using s1 len by simp_all
  next
    fix j assume "j < SHM_MAX_OBJECTS" "so_used (shm_objs (shm_put i ob s1) ! j)"
    then show "shm_obj_ok (shm_put i ob s1) (shm_objs (shm_put i ob s1) ! j)"
      using ok [of j] ob len s1(2) by (cases "j = i") simp_all
  next
    fix j k a b
    assume jk: "j < SHM_MAX_OBJECTS" "k < SHM_MAX_OBJECTS" "j \<noteq> k"
      "so_used (shm_objs (shm_put i ob s1) ! j)" "so_used (shm_objs (shm_put i ob s1) ! k)"
      "a < npages (unat (so_size (shm_objs (shm_put i ob s1) ! j)))"
      "b < npages (unat (so_size (shm_objs (shm_put i ob s1) ! k)))"
    show "so_pages (shm_objs (shm_put i ob s1) ! j) ! a \<noteq> so_pages (shm_objs (shm_put i ob s1) ! k) ! b"
    proof (cases "j = i \<or> k = i")
      case False
      with jk old s1(2) show ?thesis by simp
    next
      case True
      then show ?thesis
      proof
        assume "j = i"
        with jk disj [of k a b] s1(2) len show ?thesis by simp
      next
        assume "k = i"
        with jk disj [THEN not_sym, of j b a] s1(2) len show ?thesis by simp
      qed
    qed
  qed
qed

text \<open>
  The outcome of \<open>shm_truncate\<close>: success with the new size and the surviving pages in place and
  intact, or failure for lack of frames with nothing changed but free memory.
\<close>

definition shm_resized :: "nat \<Rightarrow> u64 \<Rightarrow> 'a shm_scheme \<Rightarrow> 'a shm_scheme \<Rightarrow> bool" where
  "shm_resized i len s s' \<longleftrightarrow>
     (let ob = shm_objs s ! i; ob' = shm_objs s' ! i
      in so_size ob' = len \<and> so_name ob' = so_name ob \<and> so_used ob' \<and>
         (\<forall>j < min (npages (unat (so_size ob))) (npages (unat len)). so_pages ob' ! j = so_pages ob ! j) \<and>
         (\<forall>j < SHM_MAX_OBJECTS. j \<noteq> i \<longrightarrow> shm_objs s' ! j = shm_objs s ! j))"

definition shm_unchanged :: "'a shm_scheme \<Rightarrow> 'a shm_scheme \<Rightarrow> bool" where
  "shm_unchanged s s' \<longleftrightarrow> shm_objs s' = shm_objs s \<and> free_set s' = free_set s"

lemma shm_grow_branch:
  assumes inv: "shm_inv s" and i: "i < SHM_MAX_OBJECTS" "so_used (shm_objs s ! i)"
    and len: "unat len \<le> 4194304"
    and np: "npages (unat (so_size (shm_objs s ! i))) \<le> npages (unat len)"
    and g: "grown (npages (unat (so_size (shm_objs s ! i)))) (npages (unat len) - npages (unat (so_size (shm_objs s ! i))))
              (so_pages (shm_objs s ! i)) s pg s1"
  defines "s' \<equiv> shm_put i ((shm_objs s ! i)\<lparr>so_pages := pg, so_size := len\<rparr>) s1"
  shows "shm_inv s' \<and> shm_resized i len s s'"
proof -
  let ?ob = "shm_objs s ! i"
  let ?o = "npages (unat (so_size ?ob))" and ?n = "npages (unat len)"
  have ok: "shm_obj_ok s ?ob" using inv i by (simp add: shm_inv_def)
  have n: "?n \<le> 1024" using len by (rule npages_le)
  have pmm1: "pmm_inv s1" and objs: "shm_objs s1 = shm_objs s" and tot: "total_frames s1 = total_frames s"
    and lpg: "length pg = length (so_pages ?ob)"
    and keep: "\<And>j. j < length (so_pages ?ob) \<Longrightarrow> j \<notin> {?o..<?o + (?n - ?o)} \<Longrightarrow> pg ! j = so_pages ?ob ! j"
    and new: "\<And>j. j \<in> {?o..<?o + (?n - ?o)} \<Longrightarrow> page_aligned (pg ! j) \<and> frame_no (pg ! j) \<in> free_set s"
    and injn: "inj_on (\<lambda>j. pg ! j) {?o..<?o + (?n - ?o)}"
    and fs: "free_set s1 = free_set s - (\<lambda>j. frame_no (pg ! j)) ` {?o..<?o + (?n - ?o)}"
    using g by (simp_all add: grown_def same_but_pmm_def)
  have rng: "?o + (?n - ?o) = ?n" using np by simp
  have lob: "length (so_pages ?ob) = 1024" using ok by (simp add: shm_obj_ok_def)
  have mono: "taken s1 p" if "taken s p" for p using that fs tot by (auto simp: taken_def)
  have oldp: "pg ! j = so_pages ?ob ! j \<and> taken s (pg ! j)" if "j < ?o" for j
    using that keep [of j] ok np n lob by (auto simp: shm_obj_ok_def)
  have newp: "taken s1 (pg ! j) \<and> frame_no (pg ! j) \<in> free_set s" if "j \<in> {?o..<?n}" for j
    using new [of j] that pmm_inv_free_bounds [of s "frame_no (pg ! j)"] inv fs tot rng
    by (auto simp: taken_def shm_inv_def)
  let ?ob' = "?ob\<lparr>so_pages := pg, so_size := len\<rparr>"
  have inj: "inj_on (\<lambda>j. pg ! j) {..<?n}"
  proof (rule inj_onI)
    fix j k assume jk: "j \<in> {..<?n}" "k \<in> {..<?n}" "pg ! j = pg ! k"
    have iob: "inj_on (\<lambda>i. so_pages ?ob ! i) {..<?o}" using ok by (simp add: shm_obj_ok_def)
    have x: "\<not> (a < ?o \<and> \<not> b < ?o \<and> b < ?n \<and> pg ! a = pg ! b)" for a b
      using oldp [of a] newp [of b] by (auto simp: taken_def)
    show "j = k"
    proof (cases "j < ?o"; cases "k < ?o")
      assume "j < ?o" "k < ?o"
      with oldp jk(3) iob show ?thesis by (auto simp: inj_on_def)
    next
      assume "\<not> j < ?o" "\<not> k < ?o"
      with injn jk rng show ?thesis by (auto simp: inj_on_def)
    qed (use x [of j k] x [of k j] jk in simp_all)
  qed
  have ok': "shm_obj_ok s1 ?ob'"
    unfolding shm_obj_ok_def
  proof (intro conjI allI impI)
    fix j assume j: "j < SHM_MAX_PAGES"
    show "if j < npages (unat (so_size ?ob')) then taken s1 (so_pages ?ob' ! j) else so_pages ?ob' ! j = 0"
    proof (cases "j < ?n")
      case True
      with oldp [of j] newp [of j] mono show ?thesis by (cases "j < ?o") auto
    next
      case False
      with keep [of j] j lob np ok show ?thesis by (auto simp: shm_obj_ok_def)
    qed
  qed (use lpg lob len inj in simp_all)
  have "shm_inv s'"
    unfolding s'_def
  proof (rule shm_inv_put [OF inv i(1) pmm1 objs _ ok'])
    fix j p
    assume j: "j < SHM_MAX_OBJECTS" "j \<noteq> i" "so_used (shm_objs s ! j)"
      and p: "p \<in> (\<lambda>a. so_pages (shm_objs s ! j) ! a) ` {..<npages (unat (so_size (shm_objs s ! j)))}"
    then obtain a where a: "a < npages (unat (so_size (shm_objs s ! j)))" "p = so_pages (shm_objs s ! j) ! a" by auto
    have "shm_obj_ok s (shm_objs s ! j)" using inv j by (simp add: shm_inv_def)
    then have tp: "taken s p" using a npages_le [of "unat (so_size (shm_objs s ! j))"] by (auto simp: shm_obj_ok_def)
    have "p \<noteq> pg ! b" if "b < ?n" for b
    proof (cases "b < ?o")
      case True
      then show ?thesis using inv j i a oldp [OF True] unfolding shm_inv_def by metis
    next
      case False
      then show ?thesis using newp [of b] that tp by (auto simp: taken_def)
    qed
    then show "taken s1 p \<and> p \<notin> (\<lambda>a. so_pages ?ob' ! a) ` {..<npages (unat (so_size ?ob'))}"
      using mono [OF tp] by auto
  qed
  moreover have "shm_resized i len s s'"
    using oldp objs inv i np by (simp add: shm_resized_def s'_def Let_def shm_inv_def)
  ultimately show ?thesis by blast
qed

lemma shm_shrink_branch:
  assumes inv: "shm_inv s" and i: "i < SHM_MAX_OBJECTS" "so_used (shm_objs s ! i)"
    and len: "unat len \<le> 4194304"
    and np: "npages (unat len) \<le> npages (unat (so_size (shm_objs s ! i)))"
    and g: "pmm_inv s1" "same_but_pmm s s1"
      "free_set s1 = free_set s \<union> (\<lambda>j. frame_no (so_pages (shm_objs s ! i) ! j)) `
         {npages (unat len)..<npages (unat (so_size (shm_objs s ! i)))}"
  defines "pg \<equiv> zero_at {npages (unat len)..<npages (unat (so_size (shm_objs s ! i)))} (so_pages (shm_objs s ! i))"
  defines "s' \<equiv> shm_put i ((shm_objs s ! i)\<lparr>so_pages := pg, so_size := len\<rparr>) s1"
  shows "shm_inv s' \<and> shm_resized i len s s'"
proof -
  let ?ob = "shm_objs s ! i"
  let ?o = "npages (unat (so_size ?ob))" and ?n = "npages (unat len)"
  have ok: "shm_obj_ok s ?ob" using inv i by (simp add: shm_inv_def)
  have o: "?o \<le> 1024" using ok npages_le by (auto simp: shm_obj_ok_def)
  have lob: "length (so_pages ?ob) = 1024" using ok by (simp add: shm_obj_ok_def)
  have tob: "taken s (so_pages ?ob ! j)" if "j < ?o" for j
    using that ok o by (auto simp: shm_obj_ok_def)
  have iob: "inj_on (\<lambda>i. so_pages ?ob ! i) {..<?o}" using ok by (simp add: shm_obj_ok_def)
  have still: "taken s1 p" if "taken s p" "\<And>j. j \<in> {?n..<?o} \<Longrightarrow> p \<noteq> so_pages ?ob ! j" for p
  proof -
    have "frame_no p \<noteq> frame_no (so_pages ?ob ! j)" if "j \<in> {?n..<?o}" for j
      using \<open>taken s p\<close> tob [of j] that \<open>\<And>j. j \<in> {?n..<?o} \<Longrightarrow> p \<noteq> so_pages ?ob ! j\<close> [OF that] frame_no_inj
      by (fastforce simp: taken_def)
    then have "frame_no p \<notin> (\<lambda>j. frame_no (so_pages ?ob ! j)) ` {?n..<?o}" by blast
    with \<open>taken s p\<close> g(2,3) show ?thesis by (simp add: taken_def same_but_pmm_def)
  qed
  have pgj: "pg ! j = (if j \<in> {?n..<?o} then 0 else so_pages ?ob ! j)" if "j < 1024" for j
    using that lob by (simp add: pg_def)
  let ?ob' = "?ob\<lparr>so_pages := pg, so_size := len\<rparr>"
  have ok': "shm_obj_ok s1 ?ob'"
    unfolding shm_obj_ok_def
  proof (intro conjI allI impI)
    fix j assume j: "j < SHM_MAX_PAGES"
    show "if j < npages (unat (so_size ?ob')) then taken s1 (so_pages ?ob' ! j) else so_pages ?ob' ! j = 0"
    proof (cases "j < ?n")
      case True
      have "so_pages ?ob ! j \<noteq> so_pages ?ob ! k" if "k \<in> {?n..<?o}" for k
        using inj_onD [OF iob, of j k] True that np by auto
      with True still [OF tob [of j]] np pgj [OF j] show ?thesis by auto
    next
      case False
      with pgj [OF j] ok j show ?thesis by (auto simp: shm_obj_ok_def)
    qed
  next
    show "inj_on (\<lambda>i. so_pages ?ob' ! i) {..<npages (unat (so_size ?ob'))}"
      using iob np pgj o by (auto simp: inj_on_def)
  qed (use len lob in \<open>simp_all add: pg_def\<close>)
  have "shm_inv s'"
    unfolding s'_def
  proof (rule shm_inv_put [OF inv i(1) g(1) _ _ ok'])
    show "shm_objs s1 = shm_objs s" using g(2) by (simp add: same_but_pmm_def)
    fix j p
    assume j: "j < SHM_MAX_OBJECTS" "j \<noteq> i" "so_used (shm_objs s ! j)"
      and p: "p \<in> (\<lambda>a. so_pages (shm_objs s ! j) ! a) ` {..<npages (unat (so_size (shm_objs s ! j)))}"
    then obtain a where a: "a < npages (unat (so_size (shm_objs s ! j)))" "p = so_pages (shm_objs s ! j) ! a" by auto
    have "shm_obj_ok s (shm_objs s ! j)" using inv j by (simp add: shm_inv_def)
    then have tp: "taken s p" using a npages_le [of "unat (so_size (shm_objs s ! j))"] by (auto simp: shm_obj_ok_def)
    have ne: "p \<noteq> so_pages ?ob ! b" if "b < ?o" for b
      using inv j i a that unfolding shm_inv_def by metis
    have "p \<noteq> pg ! b" if "b < ?n" for b
      using ne [of b] that np pgj [of b] o by auto
    with still [OF tp] ne show "taken s1 p \<and> p \<notin> (\<lambda>a. so_pages ?ob' ! a) ` {..<npages (unat (so_size ?ob'))}"
      by auto
  qed
  moreover have "shm_resized i len s s'"
    using g(2) inv i np pgj o by (simp add: shm_resized_def s'_def Let_def shm_inv_def same_but_pmm_def)
  ultimately show ?thesis by blast
qed

lemma shm_truncate_spec:
  assumes inv: "shm_inv s" and v: "shm_valid idx s" and len: "unat len \<le> 4194304"
  shows "\<exists>r s'. shm_truncate idx len s = Inr (r, s') \<and> shm_inv s' \<and>
           (r = 0 \<and> shm_resized (nat idx) len s s' \<or> r = - ENOMEM \<and> shm_unchanged s s')"
proof -
  define i where "i = nat idx"
  let ?ob = "shm_objs s ! i"
  have i: "i < SHM_MAX_OBJECTS" "so_used ?ob" using v by (auto simp: shm_valid_def i_def)
  have ok: "shm_obj_ok s ?ob" using inv i by (simp add: shm_inv_def)
  have sz: "unat (so_size ?ob) \<le> 4194304" using ok by (simp add: shm_obj_ok_def)
  define old where "old = npages (unat (so_size ?ob))"
  define new where "new = npages (unat len)"
  have pf: "unat (pages_for (so_size ?ob)) = old" "unat (pages_for len) = new"
    using sz len by (simp_all add: unat_pages_for old_def new_def)
  have bnd: "old \<le> 1024" "new \<le> 1024" using sz len npages_le by (simp_all add: old_def new_def)
  have lob: "length (so_pages ?ob) = 1024" using ok by (simp add: shm_obj_ok_def)
  have pm: "pmm_inv s" using inv by (simp add: shm_inv_def)
  note tr = shm_truncate_def [of idx len s, unfolded Let_def, folded i_def, unfolded pf]
  show ?thesis
  proof (cases "old \<le> new")
    case True
    have pre: "old + (new - old) \<le> length (so_pages ?ob)" "\<forall>j \<in> {old..<old}. taken s (so_pages ?ob ! j)"
      "inj_on (\<lambda>j. so_pages ?ob ! j) {old..<old}" using True bnd lob by simp_all
    note gr = shm_grow_ok [OF pm order.refl pre]
    show ?thesis
    proof (cases "new - old \<le> card (free_set s)")
      case enough: True
      with gr obtain pg s1 where g: "shm_grow (new - old) old old (so_pages ?ob) s = Inr (True, pg, s1)"
        "grown old (new - old) (so_pages ?ob) s pg s1" by auto
      note br = shm_grow_branch [OF inv i len, folded old_def new_def, OF True g(2)]
      have "shm_truncate idx len s = Inr (0, shm_put i (?ob\<lparr>so_pages := pg, so_size := len\<rparr>) s1)"
        using v bnd True g(1) by (simp add: tr)
      with br show ?thesis unfolding i_def [symmetric] by blast
    next
      case short: False
      with gr obtain pg s1 where g: "shm_grow (new - old) old old (so_pages ?ob) s = Inr (False, pg, s1)"
        "rolled_back old old (so_pages ?ob) s pg s1" by auto
      have rb: "pmm_inv s1" "same_but_pmm s s1" "length pg = 1024" "free_set s1 = free_set s"
        and pgj: "\<And>j. j < 1024 \<Longrightarrow> pg ! j = so_pages ?ob ! j \<or> (old \<le> j \<and> pg ! j = 0)"
        using g(2) lob by (simp_all add: rolled_back_def)
      have "pg = so_pages ?ob"
      proof (rule nth_equalityI)
        fix j assume "j < length pg"
        then have j: "j < 1024" using rb(3) by simp
        have "so_pages ?ob ! j = 0" if "old \<le> j" using ok that j by (auto simp: shm_obj_ok_def old_def)
        with pgj [OF j] show "pg ! j = so_pages ?ob ! j" by auto
      qed (simp add: rb(3) lob)
      then have eq: "shm_truncate idx len s = Inr (- ENOMEM, shm_put i ?ob s1)"
        using v bnd g(1) by (simp add: tr)
      have objs: "shm_objs (shm_put i ?ob s1) = shm_objs s" using rb(2) by (simp add: same_but_pmm_def)
      have "taken (shm_put i ?ob s1) p = taken s p" for p
        using rb(2,4) by (simp add: taken_def same_but_pmm_def)
      then have "shm_inv (shm_put i ?ob s1)"
        using inv rb(1) objs unfolding shm_inv_def shm_obj_ok_def by simp
      moreover have "shm_unchanged s (shm_put i ?ob s1)"
        using objs rb(4) unfolding shm_unchanged_def by simp
      ultimately show ?thesis using eq by blast
    qed
  next
    case False
    have pre: "distinct [new..<old]" "\<forall>j \<in> set [new..<old]. j < length (so_pages ?ob) \<and> taken s (so_pages ?ob ! j)"
      "inj_on (\<lambda>j. so_pages ?ob ! j) (set [new..<old])"
      using ok bnd lob by (auto simp: shm_obj_ok_def old_def inj_on_def)
    from shm_drop_pages_ok [OF pm pre, of False] obtain s1 where
      d: "shm_drop_pages False [new..<old] (so_pages ?ob) s = Inr (zero_at {new..<old} (so_pages ?ob), s1)" "pmm_inv s1"
      "free_set s1 = free_set s \<union> (\<lambda>j. frame_no (so_pages ?ob ! j)) ` {new..<old}" "same_but_pmm s s1" by auto
    have le: "new \<le> old" using False by simp
    note br = shm_shrink_branch [OF inv i len, folded old_def new_def, OF le d(2,4,3)]
    have "shm_truncate idx len s =
        Inr (0, shm_put i (?ob\<lparr>so_pages := zero_at {new..<old} (so_pages ?ob), so_size := len\<rparr>) s1)"
      using v bnd le d(1) by (simp add: tr)
    with br show ?thesis unfolding i_def [symmetric] by blast
  qed
qed

section \<open>Properties\<close>

lemma shm_inv_pmem [simp]: "shm_inv (s\<lparr>pmem := m\<rparr>) = shm_inv s"
  by (simp add: shm_inv_def shm_obj_ok_def taken_def)

lemma shm_write_read_backed:
  assumes v: "shm_valid idx s" and b: "backed (so_pages (shm_objs s ! nat idx)) (unat (so_size (shm_objs s ! nat idx)))"
    and n: "unat off + length bs \<le> unat (so_size (shm_objs s ! nat idx))" "length bs < 2 ^ 31"
  shows "\<exists>m. shm_write idx bs off s = Inr (int (length bs), off + of_nat (length bs), s\<lparr>pmem := m\<rparr>) \<and>
           shm_read idx (of_nat (length bs)) off (s\<lparr>pmem := m\<rparr>) = Inr (int (length bs), bs, off + of_nat (length bs))"
proof -
  let ?ob = "shm_objs s ! nat idx"
  have lt64: "unat off + length bs < 2 ^ 64" using le_less_trans [OF n(1) unat_less_2p64] by simp
  have len: "unat (of_nat (length bs) :: u64) = length bs" using n(2) by (intro unat_of_nat_small) simp
  have ne: "\<not> off + of_nat (length bs) > so_size ?ob"
    using n(1) lt64 len by (simp add: word_less_nat_alt unat_word_ariths)
  from shm_write_loop_bytes [OF b n(1) lt64, of "pmem s"] obtain m where
    m: "shm_write_loop (so_pages ?ob) off bs (pmem s) = Inr (None, off + of_nat (length bs), m)"
    "\<And>k. k < length bs \<Longrightarrow> m (page_byte (so_pages ?ob) (unat off + k)) = bs ! k" by blast
  have w: "shm_write idx bs off s = Inr (int (length bs), off + of_nat (length bs), s\<lparr>pmem := m\<rparr>)"
    using v ne m(1) n(2) by (simp add: shm_write_def Let_def c_int_of_nat)
  have v': "shm_valid idx (s\<lparr>pmem := m\<rparr>)" using v by (simp add: shm_valid_def)
  have bytes: "map (\<lambda>k. m (page_byte (so_pages ?ob) (unat off + k))) [0..<length bs] = bs"
    using m(2) by (intro nth_equalityI) simp_all
  have "shm_read idx (of_nat (length bs)) off (s\<lparr>pmem := m\<rparr>) = Inr (int (length bs), bs, off + of_nat (length bs))"
  proof (cases "off \<ge> so_size ?ob")
    case True
    then have "length bs = 0" using n(1) unfolding word_le_nat_alt by linarith
    then have "bs = []" by simp
    with True v' show ?thesis by (simp add: shm_read_def Let_def)
  next
    case False
    have av: "unat (so_size ?ob - off) = unat (so_size ?ob) - unat off"
      using False by (simp add: unat_sub word_le_nat_alt)
    have tr: "unat (if of_nat (length bs) < so_size ?ob - off then of_nat (length bs) else so_size ?ob - off) = length bs"
      using len av n(1) by (auto simp: word_less_nat_alt)
    from shm_read_loop_bytes [OF b n(1) lt64, of "[]" m] bytes
    have "shm_read_loop (so_pages ?ob) off (length bs) [] m = Inr (None, bs, off + of_nat (length bs))" by simp
    with False v' n(2) show ?thesis by (simp add: shm_read_def Let_def tr c_int_of_nat)
  qed
  with w show ?thesis by blast
qed

text \<open>A table with one open, empty object, on the demo machine.\<close>

definition shm_demo :: shm where
  "shm_demo =
     \<lparr>bitmap = bitmap heap_demo, total_frames = total_frames heap_demo, free_frames = free_frames heap_demo,
      pmem = pmem heap_demo, cr3 = cr3 heap_demo, current_pml4 = current_pml4 heap_demo,
      hmem = hmem heap_demo, free_list = free_list heap_demo, heap_end = heap_end heap_demo,
      shm_objs = (replicate 32 shm_zero)[0 := shm_zero\<lparr>so_used := True\<rparr>]\<rparr>"

lemma shm_demo_objs: "shm_objs shm_demo ! 0 = shm_zero\<lparr>so_used := True\<rparr>"
  "j < 32 \<Longrightarrow> j \<noteq> 0 \<Longrightarrow> shm_objs shm_demo ! j = shm_zero" "length (shm_objs shm_demo) = 32"
  by (simp_all add: shm_demo_def)

lemma shm_demo_inv: "shm_inv shm_demo"
proof -
  have "pmm_inv shm_demo"
    using mach_demo_state(1)
    by (simp add: shm_demo_def heap_demo_def pmm_inv_def free_set_def clear_links_def set_size_def heap_store_def Let_def)
  moreover have "so_used (shm_objs shm_demo ! j) \<Longrightarrow> j < 32 \<Longrightarrow> j = 0" for j
    using shm_demo_objs(2) [of j] by (cases "j = 0") (auto simp: shm_zero_def)
  moreover have "shm_obj_ok shm_demo (shm_objs shm_demo ! 0)"
    by (simp add: shm_demo_objs shm_obj_ok_def shm_zero_def npages_def)
  ultimately show ?thesis
    using shm_demo_objs(3) unfolding shm_inv_def by metis
qed

lemma shm_demo_valid: "shm_valid 0 shm_demo"
  by (simp add: shm_valid_def shm_demo_objs)

text \<open>
  C16: resizing an object to at most 4 MiB is atomic: \<open>shm_truncate\<close> either returns 0, with the new size, the
  surviving pages in place and every frame of the table still owned by one page of one
  object, or it returns \<^verbatim>\<open>-ENOMEM\<close> with all objects and the set of free frames as
  before.
\<close>

theorem shm_truncate_atomic:
  assumes "shm_inv s" and "shm_valid idx s" and "unat len \<le> 4194304"
  shows "\<exists>r s'. shm_truncate idx len s = Inr (r, s') \<and> shm_inv s' \<and>
           (r = 0 \<and> shm_resized (nat idx) len s s' \<or> r = - ENOMEM \<and> shm_unchanged s s')"
  using assms by (rule shm_truncate_spec)

theorem shm_truncate_atomic_witness:
  "shm_inv shm_demo \<and> shm_valid 0 shm_demo \<and>
   (\<exists>r s'. shm_truncate 0 10000 shm_demo = Inr (r, s') \<and> shm_inv s' \<and>
      (r = 0 \<and> shm_resized 0 10000 shm_demo s' \<or> r = - 12 \<and> shm_unchanged shm_demo s'))"
proof -
  have "unat (10000 :: u64) \<le> 4194304" by simp
  from shm_truncate_atomic [OF shm_demo_inv shm_demo_valid this] shm_demo_inv shm_demo_valid
  show ?thesis by simp
qed

text \<open>
  C27: what \<open>shm_write\<close> writes, growing the object when it has to, \<open>shm_read\<close> at the same offset
  reads back; the only other outcome is that growing ran out of frames.
\<close>

theorem shm_write_read_roundtrip:
  assumes "shm_inv s" and "shm_valid idx s" and "unat off + length bs \<le> 4194304"
  shows "\<exists>r off' s'. shm_write idx bs off s = Inr (r, off', s') \<and> shm_inv s' \<and>
           (r = - ENOMEM \<and> shm_unchanged s s' \<or>
            r = int (length bs) \<and> off' = off + of_nat (length bs) \<and>
            shm_read idx (of_nat (length bs)) off s' = Inr (int (length bs), bs, off'))"
proof -
  have len31: "length bs < 2 ^ 31" using assms(3) by simp
  have e: "unat (off + of_nat (length bs)) = unat off + length bs"
    using assms(3) by (simp add: unat_word_ariths unat_of_nat)
  define i where "i = nat idx"
  have i: "i < 32" "so_used (shm_objs s ! i)" using assms(2) by (auto simp: shm_valid_def i_def)
  show ?thesis
  proof (cases "off + of_nat (length bs) > so_size (shm_objs s ! i)")
    case False
    have b: "backed (so_pages (shm_objs s ! i)) (unat (so_size (shm_objs s ! i)))"
      using assms(1) i by (intro shm_obj_backed [of s]) (simp add: shm_inv_def)
    have "unat off + length bs \<le> unat (so_size (shm_objs s ! i))"
      using False e by (simp add: word_less_nat_alt)
    from shm_write_read_backed [OF assms(2), folded i_def, OF b this len31] assms(1) show ?thesis by fastforce
  next
    case True
    have "unat (off + of_nat (length bs)) \<le> 4194304" using e assms(3) by simp
    from shm_truncate_spec [OF assms(1,2) this] obtain r s1 where
      t: "shm_truncate idx (off + of_nat (length bs)) s = Inr (r, s1)" "shm_inv s1"
      "r = 0 \<and> shm_resized i (off + of_nat (length bs)) s s1 \<or> r = - ENOMEM \<and> shm_unchanged s s1"
      unfolding i_def by blast
    show ?thesis
    proof (cases "r = 0")
      case False
      with t(3) have "r = - ENOMEM" "shm_unchanged s s1" by auto
      with t True assms(2) show ?thesis by (simp add: shm_write_def Let_def i_def)
    next
      case ok: True
      with t(3) have rs: "shm_resized i (off + of_nat (length bs)) s s1" by simp
      then have s1: "so_size (shm_objs s1 ! i) = off + of_nat (length bs)" "so_used (shm_objs s1 ! i)"
        by (simp_all add: shm_resized_def Let_def)
      have v1: "shm_valid idx s1" using assms(2) s1(2) by (simp add: shm_valid_def i_def)
      have b: "backed (so_pages (shm_objs s1 ! i)) (unat (so_size (shm_objs s1 ! i)))"
        using t(2) i s1 by (intro shm_obj_backed [of s1]) (simp add: shm_inv_def)
      have le: "unat off + length bs \<le> unat (so_size (shm_objs s1 ! i))" using s1(1) e by simp
      from shm_write_read_backed [OF v1, folded i_def, OF b le len31] obtain m where
        m: "shm_write idx bs off s1 = Inr (int (length bs), off + of_nat (length bs), s1\<lparr>pmem := m\<rparr>)"
        "shm_read idx (of_nat (length bs)) off (s1\<lparr>pmem := m\<rparr>) = Inr (int (length bs), bs, off + of_nat (length bs))"
        by blast
      have "shm_write idx bs off s = shm_write idx bs off s1"
        using True ok t(1) assms(2) v1 s1(1) by (simp add: shm_write_def Let_def i_def)
      with m t(2) show ?thesis by fastforce
    qed
  qed
qed

theorem shm_write_read_roundtrip_witness:
  "shm_inv shm_demo \<and> shm_valid 0 shm_demo \<and>
   (\<exists>r off' s'. shm_write 0 [1, 2, 3] 4095 shm_demo = Inr (r, off', s') \<and>
      (r = - 12 \<or> shm_read 0 3 4095 s' = Inr (3, [1, 2, 3], off')))"
proof -
  have "unat (4095 :: u64) + length [1, 2, 3 :: u8] \<le> 4194304" by simp
  from shm_write_read_roundtrip [OF shm_demo_inv shm_demo_valid this] shm_demo_inv shm_demo_valid
  show ?thesis by fastforce
qed

text \<open>
  A length within a page of $2^{64}$ passes the size check of \<open>shm_truncate\<close>, because the page
  count wraps to 0: the object then claims that size with no page behind it, and \<open>shm_read\<close> at 4 MiB
  indexes \<^verbatim>\<open>pages[]\<close> out of bounds.
\<close>

theorem shm_truncate_wraps:
  assumes "shm_inv s" and "shm_valid idx s" and "so_size (shm_objs s ! nat idx) = 0"
  shows "\<exists>s'. shm_truncate idx (- 1) s = Inr (0, s') \<and> so_size (shm_objs s' ! nat idx) = - 1 \<and>
           shm_read idx 1 0x400000 s' = Inl OutOfBounds"
proof -
  have p: "pages_for (- 1) = 0" "pages_for 0 = 0" by (simp_all add: pages_for_def)
  define i where "i = nat idx"
  have i: "i < 32" "so_used (shm_objs s ! i)" "length (shm_objs s) = 32"
    using assms(1,2) by (auto simp: shm_valid_def i_def shm_inv_def)
  have lp: "length (so_pages (shm_objs s ! i)) = 1024"
    using assms(1) i by (auto simp: shm_inv_def shm_obj_ok_def)
  let ?s' = "shm_put i ((shm_objs s ! i)\<lparr>so_size := - 1\<rparr>) s"
  have t: "shm_truncate idx (- 1) s = Inr (0, ?s')"
    using assms(2,3) p by (simp add: shm_truncate_def Let_def i_def)
  have "shm_valid idx ?s'" using assms(2) i by (simp add: shm_valid_def i_def)
  moreover have "chunk_at 0x400000 1 = 1" by (simp add: chunk_at_def)
  moreover have "\<not> (- 1 :: u64) \<le> 0x400000" by code_simp
  moreover have "(1 :: u64) < - 0x400001" by code_simp
  ultimately have "shm_read idx 1 0x400000 ?s' = Inl OutOfBounds"
    using i lp by (simp add: shm_read_def Let_def i_def [symmetric])
  with t i show ?thesis unfolding i_def [symmetric] by auto
qed

theorem shm_truncate_wraps_witness:
  "shm_inv shm_demo \<and> shm_valid 0 shm_demo \<and>
   (\<exists>s'. shm_truncate 0 (- 1) shm_demo = Inr (0, s') \<and> shm_read 0 1 0x400000 s' = Inl OutOfBounds)"
proof -
  have "so_size (shm_objs shm_demo ! nat 0) = 0" by (simp add: shm_demo_objs shm_zero_def)
  from shm_truncate_wraps [OF shm_demo_inv shm_demo_valid this] shm_demo_inv shm_demo_valid
  show ?thesis by blast
qed

end
