(* ===== verification/Console.thy ===== *)
theory Console
  imports Pmm KString
begin

text \<open>
  \<^verbatim>\<open>src/lib/fonts.c\<close>, \<^verbatim>\<open>src/drivers/fb.c\<close> and \<^verbatim>\<open>src/drivers/vga.c\<close>: the glyph
  table, the linear framebuffer with its text mirror, and the 80x25 text console. The memory behind the framebuffer
  (which \<open>fb_multiboot_init\<close> takes away from the frame allocator) is \<open>fb_mem\<close>, the text cells of
  the VGA card are \<open>vga_mem\<close>, its cursor register is \<open>hw_cursor\<close>, and a registered hook is
  represented by the list of calls made to it. Coordinates keep the widths of the code.
\<close>

section \<open>Fonts\<close>

definition g_vnl_fonts :: "u8 list list" where
  "g_vnl_fonts =
    [[0x00, 0x00, 0x00, 0x00, 0x00, 0x00, 0x00, 0x00],
     [0x3C, 0x66, 0x66, 0x66, 0x66, 0x66, 0x3C, 0x00],
     [0x18, 0x38, 0x18, 0x18, 0x18, 0x18, 0x3C, 0x00],
     [0x3C, 0x66, 0x06, 0x0C, 0x18, 0x30, 0x7E, 0x00],
     [0x3C, 0x66, 0x06, 0x1C, 0x06, 0x66, 0x3C, 0x00],
     [0x0C, 0x1C, 0x3C, 0x6C, 0x7E, 0x0C, 0x0C, 0x00],
     [0x7E, 0x60, 0x7C, 0x06, 0x06, 0x66, 0x3C, 0x00],
     [0x3C, 0x66, 0x60, 0x7C, 0x66, 0x66, 0x3C, 0x00],
     [0x7E, 0x06, 0x0C, 0x18, 0x18, 0x18, 0x18, 0x00],
     [0x3C, 0x66, 0x66, 0x3C, 0x66, 0x66, 0x3C, 0x00],
     [0x3C, 0x66, 0x66, 0x3E, 0x06, 0x66, 0x3C, 0x00],
     [0x18, 0x3C, 0x66, 0x66, 0x7E, 0x66, 0x66, 0x00],
     [0x7C, 0x66, 0x66, 0x7C, 0x66, 0x66, 0x7C, 0x00],
     [0x3C, 0x66, 0x60, 0x60, 0x60, 0x66, 0x3C, 0x00],
     [0x78, 0x6C, 0x66, 0x66, 0x66, 0x6C, 0x78, 0x00],
     [0x7E, 0x60, 0x60, 0x7C, 0x60, 0x60, 0x7E, 0x00],
     [0x7E, 0x60, 0x60, 0x7C, 0x60, 0x60, 0x60, 0x00],
     [0x3C, 0x66, 0x60, 0x6E, 0x66, 0x66, 0x3C, 0x00],
     [0x66, 0x66, 0x66, 0x7E, 0x66, 0x66, 0x66, 0x00],
     [0x3C, 0x18, 0x18, 0x18, 0x18, 0x18, 0x3C, 0x00],
     [0x1E, 0x0C, 0x0C, 0x0C, 0x4C, 0x78, 0x30, 0x00],
     [0x66, 0x6C, 0x78, 0x70, 0x78, 0x6C, 0x66, 0x00],
     [0x60, 0x60, 0x60, 0x60, 0x60, 0x60, 0x7E, 0x00],
     [0x63, 0x77, 0x7F, 0x6B, 0x63, 0x63, 0x63, 0x00],
     [0x66, 0x76, 0x7E, 0x7E, 0x6E, 0x66, 0x66, 0x00],
     [0x3C, 0x66, 0x66, 0x66, 0x66, 0x66, 0x3C, 0x00],
     [0x7C, 0x66, 0x66, 0x7C, 0x60, 0x60, 0x60, 0x00],
     [0x3C, 0x66, 0x66, 0x6A, 0x6C, 0x38, 0x0E, 0x00],
     [0x7C, 0x66, 0x66, 0x7C, 0x6C, 0x66, 0x66, 0x00],
     [0x3C, 0x66, 0x60, 0x3C, 0x06, 0x66, 0x3C, 0x00],
     [0x7E, 0x18, 0x18, 0x18, 0x18, 0x18, 0x18, 0x00],
     [0x66, 0x66, 0x66, 0x66, 0x66, 0x66, 0x3C, 0x00],
     [0x66, 0x66, 0x66, 0x66, 0x3C, 0x3C, 0x18, 0x00],
     [0x63, 0x63, 0x63, 0x6B, 0x77, 0x63, 0x63, 0x00],
     [0x66, 0x66, 0x3C, 0x18, 0x3C, 0x66, 0x66, 0x00],
     [0x66, 0x66, 0x66, 0x3C, 0x18, 0x18, 0x18, 0x00],
     [0x7E, 0x06, 0x0C, 0x18, 0x30, 0x60, 0x7E, 0x00],
     [0x18, 0x18, 0x18, 0x18, 0x00, 0x18, 0x18, 0x00],
     [0x3C, 0x42, 0x5A, 0x5A, 0x42, 0x3C, 0x00, 0x00],
     [0x24, 0x24, 0x7E, 0x24, 0x7E, 0x24, 0x24, 0x00],
     [0x1C, 0x3E, 0x60, 0x3C, 0x06, 0x7C, 0x38, 0x00],
     [0x62, 0x66, 0x0C, 0x18, 0x30, 0x66, 0x46, 0x00],
     [0x3C, 0x66, 0x3C, 0x38, 0x6C, 0x66, 0x3B, 0x00],
     [0x3C, 0x66, 0x66, 0x3C, 0x6A, 0x66, 0x3B, 0x00],
     [0x18, 0x3C, 0x7E, 0x3C, 0x18, 0x00, 0x00, 0x00],
     [0x00, 0x00, 0x7E, 0x00, 0x00, 0x7E, 0x00, 0x00],
     [0x00, 0x00, 0x00, 0x7E, 0x00, 0x00, 0x00, 0x00],
     [0x18, 0x18, 0x7E, 0x18, 0x18, 0x00, 0x00, 0x00],
     [0x00, 0x00, 0x00, 0x00, 0x00, 0x00, 0x00, 0x7E],
     [0x30, 0x18, 0x0C, 0x06, 0x0C, 0x18, 0x30, 0x00],
     [0x06, 0x0C, 0x18, 0x30, 0x18, 0x0C, 0x06, 0x00],
     [0x0C, 0x18, 0x30, 0x30, 0x30, 0x18, 0x0C, 0x00],
     [0x30, 0x18, 0x0C, 0x0C, 0x0C, 0x18, 0x30, 0x00],
     [0x0E, 0x18, 0x18, 0x70, 0x18, 0x18, 0x0E, 0x00],
     [0x70, 0x18, 0x18, 0x0E, 0x18, 0x18, 0x70, 0x00],
     [0x3C, 0x60, 0x60, 0x60, 0x60, 0x60, 0x3C, 0x00],
     [0x3C, 0x06, 0x06, 0x06, 0x06, 0x06, 0x3C, 0x00],
     [0x00, 0x18, 0x18, 0x00, 0x18, 0x18, 0x00, 0x00],
     [0x00, 0x18, 0x18, 0x00, 0x18, 0x18, 0x08, 0x00],
     [0x00, 0x00, 0x00, 0x18, 0x18, 0x00, 0x00, 0x00],
     [0x00, 0x00, 0x00, 0x18, 0x18, 0x08, 0x00, 0x00],
     [0x18, 0x18, 0x00, 0x00, 0x00, 0x00, 0x00, 0x00],
     [0x36, 0x36, 0x00, 0x00, 0x00, 0x00, 0x00, 0x00],
     [0x0C, 0x18, 0x30, 0x60, 0x00, 0x00, 0x00, 0x00],
     [0x60, 0x30, 0x18, 0x0C, 0x00, 0x00, 0x00, 0x00],
     [0x18, 0x18, 0x18, 0x18, 0x18, 0x18, 0x18, 0x18],
     [0x00, 0x00, 0x3B, 0x6E, 0x00, 0x00, 0x00, 0x00],
     [0x3C, 0x42, 0x02, 0x04, 0x08, 0x00, 0x08, 0x00]] @
    replicate 60 [0, 0, 0, 0, 0, 0, 0, 0]"

definition glyph_index :: "u8 \<Rightarrow> int" where
  "glyph_index ch =
     (if ch = 32 then 0
      else if 48 \<le> ch \<and> ch \<le> 57 then 1 + int (unat (ch - 48))
      else if 65 \<le> ch \<and> ch \<le> 90 then 11 + int (unat (ch - 65))
      else if 97 \<le> ch \<and> ch \<le> 122 then 11 + int (unat (ch - 97))
      else case map_of [(33, 37), (64, 38), (35, 39), (36, 40), (37, 41), (94, 42), (38, 43), (42, 44), (61, 45), (45, 46), (43, 47), (95, 48), (60, 49), (62, 50), (40, 51), (41, 52), (123, 53), (125, 54), (91, 55), (93, 56), (58, 57), (59, 58), (46, 59), (44, 60), (39, 61), (34, 62), (47, 63), (92, 64), (124, 65), (126, 66), (63, 67)] ch of
             Some i \<Rightarrow> i
           | None \<Rightarrow> 0)"

section \<open>State\<close>

record console =
  fb_ok :: bool
  fb_addr :: u64
  fb_pitch :: u32
  fb_width :: u32
  fb_height :: u32
  fb_bpp :: u8
  fb_type :: u8
  fb_virt :: u64
  fb_mem :: bmem
  fb_m_row :: int
  fb_m_col :: int
  vga_mem :: "u16 list"
  cur_row :: int
  cur_col :: int
  cur_color :: u8
  hw_cursor :: u16
  vga_hook :: bool
  vga_events :: "(string \<times> int \<times> int \<times> u8 \<times> u8) list"

section \<open>Pixels\<close>

definition rd32 :: "bmem \<Rightarrow> nat \<Rightarrow> u32" where
  "rd32 m a =
     ucast (m a) OR push_bit 8 (ucast (m (a + 1))) OR push_bit 16 (ucast (m (a + 2)))
       OR push_bit 24 (ucast (m (a + 3)))"

definition wr32 :: "bmem \<Rightarrow> nat \<Rightarrow> u32 \<Rightarrow> bmem" where
  "wr32 m a v =
     m(a := ucast v, a + 1 := ucast (drop_bit 8 v), a + 2 := ucast (drop_bit 16 v),
       a + 3 := ucast (drop_bit 24 v))"

text \<open>\<^verbatim>\<open>s_fb_virt + y * s_fb.pitch + x * 4\<close>: the products are 32-bit.\<close>

definition pixel_addr :: "console \<Rightarrow> u32 \<Rightarrow> u32 \<Rightarrow> nat" where
  "pixel_addr s x y = unat (fb_virt s) + unat (y * fb_pitch s) + unat (x * 4)"

definition fb_plot :: "u32 \<Rightarrow> u32 \<Rightarrow> u32 \<Rightarrow> console \<Rightarrow> console" where
  "fb_plot x y c s =
     (if \<not> fb_ok s \<or> x \<ge> fb_width s \<or> y \<ge> fb_height s then s
      else s\<lparr>fb_mem := wr32 (fb_mem s) (pixel_addr s x y) c\<rparr>)"

definition fb_get_pixel :: "u32 \<Rightarrow> u32 \<Rightarrow> console \<Rightarrow> u32" where
  "fb_get_pixel x y s =
     (if \<not> fb_ok s \<or> x \<ge> fb_width s \<or> y \<ge> fb_height s then 0 else rd32 (fb_mem s) (pixel_addr s x y))"

text \<open>The inner loop \<^verbatim>\<open>for (col...) p[col] = c\<close>.\<close>

fun fill_row :: "nat \<Rightarrow> nat \<Rightarrow> u32 \<Rightarrow> bmem \<Rightarrow> bmem" where
  "fill_row 0 a c m = m"
| "fill_row (Suc n) a c m = fill_row n (a + 4) c (wr32 m a c)"

definition clip :: "u32 \<Rightarrow> u32 \<Rightarrow> u32 \<Rightarrow> u32" where
  "clip x w lim = (if x + w > lim then lim - x else w)"

definition fb_fill_rect :: "u32 \<Rightarrow> u32 \<Rightarrow> u32 \<Rightarrow> u32 \<Rightarrow> u32 \<Rightarrow> console \<Rightarrow> console" where
  "fb_fill_rect x y w h c s =
     (if \<not> fb_ok s \<or> w = 0 \<or> h = 0 then s
      else if x \<ge> fb_width s \<or> y \<ge> fb_height s then s
      else let w1 = clip x w (fb_width s); h1 = clip y h (fb_height s)
           in s\<lparr>fb_mem := fold (\<lambda>row. fill_row (unat w1) (pixel_addr s x (y + of_nat row)) c) [0..<unat h1] (fb_mem s)\<rparr>)"

text \<open>The colour channels of \<open>fb_fill_gradient\<close>; C division truncates towards zero.\<close>

definition c_div :: "int \<Rightarrow> int \<Rightarrow> int" where
  "c_div a b = (if a * b < 0 then - (\<bar>a\<bar> div \<bar>b\<bar>) else \<bar>a\<bar> div \<bar>b\<bar>)"

definition channel :: "nat \<Rightarrow> u32 \<Rightarrow> int" where
  "channel sh c = uint (drop_bit sh c AND 0xFF)"

definition blend :: "nat \<Rightarrow> u32 \<Rightarrow> u32 \<Rightarrow> nat \<Rightarrow> u32 \<Rightarrow> int" where
  "blend sh c1 c2 row h =
     channel sh c1 + c_div ((channel sh c2 - channel sh c1) * int row) (sint h)"

definition gradient_color :: "u32 \<Rightarrow> u32 \<Rightarrow> nat \<Rightarrow> u32 \<Rightarrow> u32" where
  "gradient_color c1 c2 row h =
     0xFF000000 OR push_bit 16 (word_of_int (blend 16 c1 c2 row h)) OR push_bit 8 (word_of_int (blend 8 c1 c2 row h))
       OR word_of_int (blend 0 c1 c2 row h)"

definition fb_fill_gradient :: "u32 \<Rightarrow> u32 \<Rightarrow> u32 \<Rightarrow> u32 \<Rightarrow> u32 \<Rightarrow> u32 \<Rightarrow> console \<Rightarrow> console" where
  "fb_fill_gradient x y w h c1 c2 s =
     (if \<not> fb_ok s \<or> w = 0 \<or> h = 0 then s
      else if x \<ge> fb_width s \<or> y \<ge> fb_height s then s
      else let w1 = clip x w (fb_width s); h1 = clip y h (fb_height s)
           in s\<lparr>fb_mem := fold (\<lambda>row. fill_row (unat w1) (pixel_addr s x (y + of_nat row)) (gradient_color c1 c2 row h1))
                            [0..<unat h1] (fb_mem s)\<rparr>)"

definition glyph_row :: "u32 \<Rightarrow> u32 \<Rightarrow> u8 \<Rightarrow> nat \<Rightarrow> u32 \<Rightarrow> u32 \<Rightarrow> console \<Rightarrow> console" where
  "glyph_row x y bits yy fg bg =
     fold (\<lambda>xx. fb_plot (x + of_nat xx) (y + of_nat yy) (if bit bits (7 - xx) then fg else bg)) [0..<8]"

definition glyph_blit :: "u32 \<Rightarrow> u32 \<Rightarrow> int \<Rightarrow> u32 \<Rightarrow> u32 \<Rightarrow> console \<Rightarrow> console" where
  "glyph_blit x y idx fg bg s =
     (if idx < 0 \<or> idx \<ge> 128 then s
      else fold (\<lambda>yy. glyph_row x y (g_vnl_fonts ! nat idx ! yy) yy fg bg) [0..<8] s)"

definition fb_draw_string :: "u32 \<Rightarrow> u32 \<Rightarrow> u8 list \<Rightarrow> u32 \<Rightarrow> u32 \<Rightarrow> console \<Rightarrow> console" where
  "fb_draw_string x y str fg bg s =
     (if \<not> fb_ok s then s
      else snd (fold (\<lambda>ch (cx, s). (cx + 8, glyph_blit cx y (glyph_index ch) fg bg s)) str (x, s)))"

section \<open>Finding the framebuffer\<close>

text \<open>
  \<open>parse_fb_tag\<close> walks the Multiboot 2 tags in memory \<open>m\<close>. A tag whose size is 0 makes the walk
  stand still for ever; since the walk only reads, $2^{32}$ steps without an end are such a
  walk (the pointer stays below \<^verbatim>\<open>end\<close>, which is less than $2^{32}$ bytes away).
\<close>

record fb_tag =
  tag_addr :: u64
  tag_pitch :: u32
  tag_width :: u32
  tag_height :: u32
  tag_bpp :: u8
  tag_type :: u8

definition read_fb_tag :: "bmem \<Rightarrow> nat \<Rightarrow> fb_tag" where
  "read_fb_tag m p =
     \<lparr>tag_addr = rd64 m (p + 8), tag_pitch = rd32 m (p + 16), tag_width = rd32 m (p + 20),
      tag_height = rd32 m (p + 24), tag_bpp = m (p + 28), tag_type = m (p + 29)\<rparr>"

definition ALIGN_UP32 :: "u32 \<Rightarrow> u32 \<Rightarrow> u32" where
  "ALIGN_UP32 val align = (val + (align - 1)) AND NOT (align - 1)"

fun parse_tags :: "nat \<Rightarrow> nat \<Rightarrow> nat \<Rightarrow> bmem \<Rightarrow> (bool \<times> fb_tag option) res" where
  "parse_tags 0 p e m = Inl Diverges"
| "parse_tags (Suc n) p e m =
     (if p < e then
        let ty = rd32 m p; sz = rd32 m (p + 4)
        in if ty = 0 then Inr (False, None)
           else if ty = 8 \<and> sz \<ge> 31 then
             let t = read_fb_tag m p
             in Inr (tag_width t > 0 \<and> tag_height t > 0 \<and> tag_pitch t > 0 \<and> tag_addr t \<noteq> 0, Some t)
           else parse_tags n (p + unat (ALIGN_UP32 sz 8)) e m
      else Inr (False, None))"

definition parse_fb_tag :: "u64 \<Rightarrow> bmem \<Rightarrow> (bool \<times> fb_tag option) res" where
  "parse_fb_tag mb_phys m =
     (let p = unat mb_phys in parse_tags (Suc (2 ^ 32)) (p + 8) (p + unat (rd32 m p)) m)"

definition set_fb :: "fb_tag \<Rightarrow> console \<Rightarrow> console" where
  "set_fb t s = s\<lparr>fb_addr := tag_addr t, fb_pitch := tag_pitch t, fb_width := tag_width t,
                   fb_height := tag_height t, fb_bpp := tag_bpp t, fb_type := tag_type t\<rparr>"

text \<open>The fields of the Multiboot 1 information block that the driver reads.\<close>

definition read_mb1 :: "bmem \<Rightarrow> nat \<Rightarrow> fb_tag" where
  "read_mb1 m p =
     \<lparr>tag_addr = rd64 m (p + 88), tag_pitch = rd32 m (p + 96), tag_width = rd32 m (p + 100),
      tag_height = rd32 m (p + 104), tag_bpp = m (p + 108), tag_type = m (p + 109)\<rparr>"

text \<open>The part of \<open>fb_multiboot_init\<close> after the description of the framebuffer has been read.\<close>

definition fb_install :: "console \<Rightarrow> 'a pmm_scheme \<Rightarrow> bool \<times> console \<times> 'a pmm_scheme" where
  "fb_install s k =
     (if fb_type s \<noteq> 1 then (False, s, k)
      else if fb_bpp s \<noteq> 32 then (False, s, k)
      else let nbytes = ucast (fb_pitch s) * ucast (fb_height s);
               p0 = ALIGN_DOWN (fb_addr s) PAGE_SIZE;
               p1 = ALIGN_UP (fb_addr s + nbytes) PAGE_SIZE
           in if fb_addr s > 0xFFFFFFFF \<or> p1 > 0x100000000 then (False, s\<lparr>fb_virt := 0, fb_ok := False\<rparr>, k)
              else (True, s\<lparr>fb_virt := fb_addr s, fb_ok := True\<rparr>, pmm_reserve p0 (p1 - p0) k))"

definition fb_multiboot_init ::
  "u32 \<Rightarrow> u64 \<Rightarrow> bmem \<Rightarrow> console \<Rightarrow> 'a pmm_scheme \<Rightarrow> (bool \<times> console \<times> 'a pmm_scheme) res" where
  "fb_multiboot_init magic mb m s0 k =
     (let s = s0\<lparr>fb_ok := False, fb_virt := 0\<rparr>
      in if mb = 0 then Inr (False, s, k)
         else if magic = 0x2BADB002 then
           if rd32 m (unat mb) AND push_bit 12 1 = 0 then Inr (False, s, k)
           else Inr (fb_install (set_fb (read_mb1 m (unat mb)) s) k)
         else case parse_fb_tag mb m of
                Inl e \<Rightarrow> Inl e
              | Inr (ok, t) \<Rightarrow>
                  let s1 = (case t of None \<Rightarrow> s | Some t \<Rightarrow> set_fb t s)
                  in Inr (if ok then fb_install s1 k else (False, s1, k)))"

definition fb_get_mmap_region :: "console \<Rightarrow> (u64 \<times> u64 \<times> u32 \<times> u32 \<times> u32 \<times> u32) option" where
  "fb_get_mmap_region s =
     (if \<not> fb_ok s then None
      else Some (fb_addr s, ucast (fb_pitch s) * ucast (fb_height s), fb_pitch s, fb_width s, fb_height s, ucast (fb_bpp s)))"

section \<open>The text mirror\<close>

definition fb_vga16_rgb :: "u8 \<Rightarrow> u32" where
  "fb_vga16_rgb idx =
     (let i = unat (idx AND 15);
          (r, g, b) = [(0, 0, 0), (0, 0, 170), (0, 170, 0), (0, 170, 170), (170, 0, 0), (170, 0, 170),
                       (170, 85, 0), (170, 170, 170), (85, 85, 85), (85, 85, 255), (85, 255, 85),
                       (85, 255, 255), (255, 85, 85), (255, 85, 255), (255, 255, 85), (255, 255, 255)] ! i
      in 0xFF000000 OR push_bit 16 r OR push_bit 8 g OR b)"

definition fb_attr_to_colors :: "u8 \<Rightarrow> u32 \<times> u32" where
  "fb_attr_to_colors attr = (fb_vga16_rgb (attr AND 0x0F), fb_vga16_rgb (drop_bit 4 attr AND 0x0F))"

definition fb_draw_gchar :: "u32 \<Rightarrow> u32 \<Rightarrow> u8 \<Rightarrow> u32 \<Rightarrow> u32 \<Rightarrow> console \<Rightarrow> console" where
  "fb_draw_gchar px py ch fg bg = glyph_blit px py (glyph_index ch) fg bg"

definition fb_console_scroll_gfx_one_line :: "console \<Rightarrow> console" where
  "fb_console_scroll_gfx_one_line s =
     (if \<not> fb_ok s then s
      else let text_w = (if 640 > fb_width s then fb_width s else 640);
               bot = (if 200 > fb_height s then fb_height s else 200);
               text_h = bot
           in if text_h \<le> 8 then s
              else let span = unat text_w * 4;
                       base = unat (fb_virt s);
                       m = fold (\<lambda>r m. memmove m (base + r * unat (fb_pitch s)) (base + (r + 8) * unat (fb_pitch s)) span)
                             [0..<unat (text_h - 8)] (fb_mem s)
                   in fb_fill_rect 0 (bot - 8) text_w 8 (snd (fb_attr_to_colors (cur_color s))) (s\<lparr>fb_mem := m\<rparr>))"

definition clamp :: "int \<Rightarrow> int \<Rightarrow> int" where
  "clamp v n = (if v < 0 then 0 else if v \<ge> n then n - 1 else v)"

definition fb_console_mirror_cursor :: "int \<Rightarrow> int \<Rightarrow> console \<Rightarrow> console" where
  "fb_console_mirror_cursor row col s =
     (if \<not> fb_ok s then s else s\<lparr>fb_m_row := clamp row 25, fb_m_col := clamp col 80\<rparr>)"

definition fb_console_reset :: "console \<Rightarrow> console" where
  "fb_console_reset s =
     (let s1 = s\<lparr>fb_m_row := 0, fb_m_col := 0\<rparr>
      in if \<not> fb_ok s then s1
         else if 0 < fb_height s
         then fb_fill_rect 0 0 (fb_width s) (fb_height s) (snd (fb_attr_to_colors (cur_color s))) s1
         else s1)"

definition import_cell :: "u16 list \<Rightarrow> nat \<Rightarrow> console \<Rightarrow> console" where
  "import_cell vram k s =
     (let cell = vram ! k;
          (fg, bg) = fb_attr_to_colors (ucast (drop_bit 8 cell))
      in fb_draw_gchar (of_nat (k mod 80) * 8) (of_nat (k div 80) * 8) (ucast cell) fg bg s)"

definition fb_console_import_vga_buffer :: "u16 list \<Rightarrow> int \<Rightarrow> int \<Rightarrow> console \<Rightarrow> console" where
  "fb_console_import_vga_buffer vram row col s =
     (if \<not> fb_ok s then s
      else fold (import_cell vram) [0..<2000] (s\<lparr>fb_m_row := clamp row 25, fb_m_col := clamp col 80\<rparr>))"

text \<open>The loop \<^verbatim>\<open>while (fb_m_row >= FB_MIRROR_ROWS)\<close>.\<close>

function fb_scroll_while :: "console \<Rightarrow> console" where
  "fb_scroll_while s =
     (if fb_m_row s \<ge> 25
      then fb_scroll_while ((fb_console_scroll_gfx_one_line s)\<lparr>fb_m_row := fb_m_row s - 1\<rparr>)
      else s)"
  by pat_completeness auto
termination
  by (relation "measure (\<lambda>s. nat (fb_m_row s))") auto

text \<open>\<^verbatim>\<open>(col + 8) & ~7\<close> for a non-negative column.\<close>

definition next_tab :: "int \<Rightarrow> int" where
  "next_tab col = (col + 8) AND NOT 7"

definition fb_advance :: "console \<Rightarrow> console" where
  "fb_advance s = (if fb_m_col s \<ge> 80 then s\<lparr>fb_m_col := 0, fb_m_row := fb_m_row s + 1\<rparr> else s)"

definition fb_console_putchar :: "u8 \<Rightarrow> console \<Rightarrow> console" where
  "fb_console_putchar c s =
     (if \<not> fb_ok s then s
      else let (fg, bg) = fb_attr_to_colors (cur_color s);
               draw = (\<lambda>ch s. fb_draw_gchar (word_of_int (fb_m_col s) * 8) (word_of_int (fb_m_row s) * 8) ch fg bg s);
               s1 = (if c = 10 then s\<lparr>fb_m_col := 0, fb_m_row := fb_m_row s + 1\<rparr>
                     else if c = 13 then s\<lparr>fb_m_col := 0\<rparr>
                     else if c = 8 then
                       if fb_m_col s > 0 then draw 32 (s\<lparr>fb_m_col := fb_m_col s - 1\<rparr>) else s
                     else if c = 9 then fb_advance (s\<lparr>fb_m_col := next_tab (fb_m_col s)\<rparr>)
                     else let s2 = draw c s in fb_advance (s2\<lparr>fb_m_col := fb_m_col s2 + 1\<rparr>))
           in fb_scroll_while s1)"

section \<open>The text console\<close>

definition vga_call_hook :: "string \<Rightarrow> int \<Rightarrow> int \<Rightarrow> u8 \<Rightarrow> console \<Rightarrow> console" where
  "vga_call_hook ev x y c s =
     (if vga_hook s then s\<lparr>vga_events := vga_events s @ [(ev, x, y, c, cur_color s)]\<rparr> else s)"

text \<open>The cast \<^verbatim>\<open>(uint16_t)c\<close> of a (signed) \<^verbatim>\<open>char\<close> extends the sign.\<close>

definition make_entry :: "u8 \<Rightarrow> u8 \<Rightarrow> u16" where
  "make_entry c color = scast c OR push_bit 8 (ucast color)"

definition update_hw_cursor :: "console \<Rightarrow> console" where
  "update_hw_cursor s = s\<lparr>hw_cursor := word_of_int (cur_row s * 80 + cur_col s)\<rparr>"

definition vga_set_color :: "u8 \<Rightarrow> u8 \<Rightarrow> console \<Rightarrow> console" where
  "vga_set_color fg bg s = s\<lparr>cur_color := push_bit 4 bg OR (fg AND 0x0F)\<rparr>"

definition vga_set_cursor :: "int \<Rightarrow> int \<Rightarrow> console \<Rightarrow> console" where
  "vga_set_cursor row0 col0 s =
     (let row = clamp row0 25; col = clamp col0 80
      in vga_call_hook ''CURSOR'' col row 0
           (fb_console_mirror_cursor row col (update_hw_cursor (s\<lparr>cur_row := row, cur_col := col\<rparr>))))"

definition vga_clear :: "console \<Rightarrow> console" where
  "vga_clear s =
     vga_call_hook ''CLEAR'' 0 0 0
       (fb_console_reset (update_hw_cursor
          (s\<lparr>vga_mem := replicate 2000 (make_entry 32 (cur_color s)), cur_row := 0, cur_col := 0\<rparr>)))"

definition vga_scroll :: "console \<Rightarrow> console" where
  "vga_scroll s =
     s\<lparr>vga_mem := map (\<lambda>i. if i < 1920 then vga_mem s ! (i + 80) else make_entry 32 (cur_color s)) [0..<2000],
       cur_row := 24\<rparr>"

definition vga_store :: "u8 \<Rightarrow> console \<Rightarrow> console res" where
  "vga_store c s =
     (let i = cur_row s * 80 + cur_col s
      in if i < 0 \<or> i \<ge> int (length (vga_mem s)) then Inl OutOfBounds
         else Inr (s\<lparr>vga_mem := (vga_mem s)[nat i := make_entry c (cur_color s)]\<rparr>))"

definition vga_wrap :: "console \<Rightarrow> console" where
  "vga_wrap s = (if cur_col s \<ge> 80 then s\<lparr>cur_col := 0, cur_row := cur_row s + 1\<rparr> else s)"

text \<open>The branches of \<open>vga_putchar\<close> on the character.\<close>

definition vga_edit :: "u8 \<Rightarrow> console \<Rightarrow> console res" where
  "vga_edit c s =
     (if c = 10 then Inr (s\<lparr>cur_col := 0, cur_row := cur_row s + 1\<rparr>)
      else if c = 13 then Inr (s\<lparr>cur_col := 0\<rparr>)
      else if c = 9 then Inr (vga_wrap (s\<lparr>cur_col := next_tab (cur_col s)\<rparr>))
      else if c = 8 then
        if cur_col s > 0 then vga_store 32 (s\<lparr>cur_col := cur_col s - 1\<rparr>) else Inr s
      else case vga_store c s of
             Inl e \<Rightarrow> Inl e
           | Inr s1 \<Rightarrow> Inr (vga_wrap (s1\<lparr>cur_col := cur_col s1 + 1\<rparr>)))"

definition vga_putchar :: "u8 \<Rightarrow> console \<Rightarrow> console res" where
  "vga_putchar c s =
     (case vga_edit c (vga_call_hook ''PUTCHAR'' (cur_col s) (cur_row s) c s) of
        Inl e \<Rightarrow> Inl e
      | Inr s1 \<Rightarrow>
          Inr (fb_console_putchar c (update_hw_cursor (if cur_row s1 \<ge> 25 then vga_scroll s1 else s1))))"

fun vga_puts :: "u8 list \<Rightarrow> console \<Rightarrow> console res" where
  "vga_puts [] s = Inr s"
| "vga_puts (c # cs) s = (case vga_putchar c s of Inl e \<Rightarrow> Inl e | Inr s1 \<Rightarrow> vga_puts cs s1)"

definition vga_init :: "console \<Rightarrow> console" where
  "vga_init s = vga_clear (vga_set_color 10 0 (s\<lparr>cur_color := 0\<rparr>))"

section \<open>Pixels and rectangles\<close>

lemma unat_less_2p32: "unat (x :: u32) < 4294967296"
  using unsigned_less [of x] by simp

lemma rd32_cong: "(\<And>x. a \<le> x \<Longrightarrow> x < a + 4 \<Longrightarrow> m x = m' x) \<Longrightarrow> rd32 m a = rd32 m' a"
  by (simp add: rd32_def)

lemma rd32_wr32_same [simp]: "rd32 (wr32 m a v) a = v"
proof (rule bit_word_eqI)
  fix n
  assume "n < LENGTH(32)"
  then consider "n < 8" | "8 \<le> n" "n < 16" | "16 \<le> n" "n < 24" | "24 \<le> n" "n < 32"
    by fastforce
  then show "bit (rd32 (wr32 m a v) a) n = bit v n"
    unfolding rd32_def wr32_def
    by cases (simp_all add: bit_simps less_diff_conv2)
qed

lemma wr32_other: "x < a \<or> a + 4 \<le> x \<Longrightarrow> wr32 m a v x = m x"
  by (auto simp: wr32_def)

lemma fill_row_other: "x < a \<or> a + 4 * n \<le> x \<Longrightarrow> fill_row n a c m x = m x"
  by (induction n a c m rule: fill_row.induct) (auto simp: wr32_other)

lemma rd32_fill_row:
  assumes "k < n"
  shows "rd32 (fill_row n a c m) (a + 4 * k) = c"
  using assms
proof (induction n a c m arbitrary: k rule: fill_row.induct)
  case (2 n a c m)
  show ?case
  proof (cases k)
    case 0
    have "rd32 (fill_row n (a + 4) c (wr32 m a c)) a = rd32 (wr32 m a c) a"
      by (rule rd32_cong) (simp add: fill_row_other)
    with 0 show ?thesis by simp
  next
    case (Suc j)
    with "2.IH" [of j] "2.prems" show ?thesis by (simp add: algebra_simps)
  qed
qed simp

lemma rd32_fill_row_other:
  assumes "b + 4 \<le> a \<or> a + 4 * n \<le> b"
  shows "rd32 (fill_row n a c m) b = rd32 m b"
  by (rule rd32_cong) (use assms in \<open>auto simp: fill_row_other\<close>)

text \<open>
  A usable framebuffer: lines are at least as long as their pixels, and the 32-bit products that
  address it do not wrap.
\<close>

definition fb_wf :: "console \<Rightarrow> bool" where
  "fb_wf s \<longleftrightarrow> fb_ok s \<and> 4 * unat (fb_width s) \<le> unat (fb_pitch s) \<and>
     unat (fb_height s) * unat (fb_pitch s) < 2 ^ 32"

lemma pixel_addr_nat:
  assumes "fb_wf s" and "unat x < unat (fb_width s)" and "unat y < unat (fb_height s)"
  shows "pixel_addr s x y = unat (fb_virt s) + unat y * unat (fb_pitch s) + 4 * unat x"
proof -
  have "unat y * unat (fb_pitch s) \<le> unat (fb_height s) * unat (fb_pitch s)"
    using assms(3) by (intro mult_le_mono1) simp
  also have "\<dots> < 4294967296" using assms(1) by (simp add: fb_wf_def)
  finally have yp: "unat y * unat (fb_pitch s) < 4294967296" .
  have "unat (fb_pitch s) < 4294967296" by (rule unat_less_2p32)
  then have "unat x * 4 < 4294967296" using assms(1,2) by (simp add: fb_wf_def)
  with yp show ?thesis by (simp add: pixel_addr_def unat_word_ariths)
qed

lemma pixel_rows_apart:
  fixes y y' :: nat
  assumes "y \<noteq> y'" and "4 * x + 4 * n \<le> p" and "4 * x' + 4 \<le> p"
  shows "b + y' * p + 4 * x' + 4 \<le> b + y * p + 4 * x \<or> b + y * p + 4 * x + 4 * n \<le> b + y' * p + 4 * x'"
  using scaled_disjoint [OF assms(1), of p] assms(2,3) by linarith

lemma fill_rows:
  assumes wf: "fb_wf s" and x: "unat x + n \<le> unat (fb_width s)" "0 < n" and y: "unat y + h \<le> unat (fb_height s)"
    and p: "unat px < unat (fb_width s)" "unat py < unat (fb_height s)"
  shows "rd32 (fold (\<lambda>row. fill_row n (pixel_addr s x (y + of_nat row)) c) [0..<h] m) (pixel_addr s px py) =
           (if unat x \<le> unat px \<and> unat px < unat x + n \<and> unat y \<le> unat py \<and> unat py < unat y + h then c
            else rd32 m (pixel_addr s px py))"
  using y
proof (induction h)
  case 0
  then show ?case by auto
next
  case (Suc h)
  let ?a = "pixel_addr s x (y + of_nat h)"
  have yh: "unat (y + of_nat h) = unat y + h"
  proof -
    have "unat y + h < 4294967296" using Suc.prems unat_less_2p32 [of "fb_height s"] by linarith
    then show ?thesis by (simp add: unat_word_ariths unat_of_nat)
  qed
  have a: "?a = unat (fb_virt s) + (unat y + h) * unat (fb_pitch s) + 4 * unat x"
    using pixel_addr_nat [OF wf, of x "y + of_nat h"] x Suc.prems yh by simp
  have b: "pixel_addr s px py = unat (fb_virt s) + unat py * unat (fb_pitch s) + 4 * unat px"
    by (rule pixel_addr_nat [OF wf p])
  have w: "4 * unat (fb_width s) \<le> unat (fb_pitch s)" using wf by (simp add: fb_wf_def)
  show ?case
  proof (cases "unat py = unat y + h")
    case True
    show ?thesis
    proof (cases "unat x \<le> unat px \<and> unat px < unat x + n")
      case in_row: True
      then have "pixel_addr s px py = ?a + 4 * (unat px - unat x)" unfolding a b True by auto
      moreover have "unat px - unat x < n" using in_row by linarith
      ultimately show ?thesis using in_row True by (simp add: rd32_fill_row)
    next
      case False
      then have "pixel_addr s px py + 4 \<le> ?a \<or> ?a + 4 * n \<le> pixel_addr s px py"
        unfolding a b True by auto
      with Suc.IH Suc.prems False show ?thesis by (auto simp: rd32_fill_row_other)
    qed
  next
    case False
    have "4 * unat x + 4 * n \<le> unat (fb_pitch s)" "4 * unat px + 4 \<le> unat (fb_pitch s)"
      using x p(1) w by linarith+
    from pixel_rows_apart [OF False [symmetric] this, of "unat (fb_virt s)"]
    have "pixel_addr s px py + 4 \<le> ?a \<or> ?a + 4 * n \<le> pixel_addr s px py"
      unfolding a b by simp
    with Suc.IH Suc.prems False show ?thesis by (auto simp: rd32_fill_row_other)
  qed
qed

lemma clip_nat:
  assumes "x < lim" and "unat x + unat w < 2 ^ 32"
  shows "unat (clip x w lim) = min (unat w) (unat lim - unat x)"
  using assms by (auto simp: clip_def word_less_nat_alt unat_word_ariths unat_sub word_le_nat_alt min_def)

section \<open>The cursor invariant\<close>

definition console_ok :: "console \<Rightarrow> bool" where
  "console_ok s \<longleftrightarrow> length (vga_mem s) = 2000 \<and> 0 \<le> cur_row s \<and> cur_row s < 25 \<and> 0 \<le> cur_col s \<and> cur_col s < 80"

definition same_text :: "console \<Rightarrow> console \<Rightarrow> bool" where
  "same_text s s' \<longleftrightarrow> vga_mem s' = vga_mem s \<and> cur_row s' = cur_row s \<and> cur_col s' = cur_col s"

lemma same_text_refl [simp]: "same_text s s"
  by (simp add: same_text_def)

lemma same_text_trans: "same_text s s' \<Longrightarrow> same_text s' s'' \<Longrightarrow> same_text s s''"
  by (simp add: same_text_def)

lemma same_text_ok: "same_text s s' \<Longrightarrow> console_ok s' = console_ok s"
  by (simp add: same_text_def console_ok_def)

lemma same_text_fold:
  assumes "\<And>x s. same_text s (f x s)"
  shows "same_text s (fold f xs s)"
  using assms by (induction xs arbitrary: s) (auto intro: same_text_trans)

lemma same_text_plot: "same_text s (fb_plot x y c s)"
  by (simp add: fb_plot_def same_text_def)

lemma same_text_fill: "same_text s (fb_fill_rect x y w h c s)"
  by (simp add: fb_fill_rect_def same_text_def Let_def)

lemma same_text_gchar: "same_text s (fb_draw_gchar x y ch fg bg s)"
  by (auto simp: fb_draw_gchar_def glyph_blit_def glyph_row_def intro!: same_text_fold same_text_plot)

lemma same_text_scroll_one: "same_text s (fb_console_scroll_gfx_one_line s)"
  using same_text_fill by (auto simp: fb_console_scroll_gfx_one_line_def Let_def same_text_def)

lemma same_text_mirror: "same_text s (s\<lparr>fb_m_row := r\<rparr>)" "same_text s (s\<lparr>fb_m_col := k\<rparr>)"
  "same_text s (s\<lparr>fb_m_col := k, fb_m_row := r\<rparr>)" "same_text s (s\<lparr>hw_cursor := w\<rparr>)"
  by (simp_all add: same_text_def)

lemma same_text_scroll_while: "same_text s (fb_scroll_while s)"
proof (induction s rule: fb_scroll_while.induct)
  case (1 s)
  have step: "same_text s ((fb_console_scroll_gfx_one_line s)\<lparr>fb_m_row := fb_m_row s - 1\<rparr>)"
    by (rule same_text_trans [OF same_text_scroll_one same_text_mirror(1)])
  show ?case
    using 1 same_text_trans [OF step]
    by (subst fb_scroll_while.simps) (auto simp del: fb_scroll_while.simps)
qed

lemma same_text_fb_putchar: "same_text s (fb_console_putchar c s)"
proof -
  have adv: "same_text s (fb_advance s)" for s by (simp add: fb_advance_def same_text_mirror)
  note chain = same_text_trans [OF same_text_gchar same_text_mirror(2)] same_text_trans [OF same_text_mirror(2) same_text_gchar]
  show ?thesis
    unfolding fb_console_putchar_def Let_def case_prod_unfold
    by (auto intro!: same_text_trans [OF _ same_text_scroll_while] intro: same_text_mirror chain
        same_text_trans [OF chain(1) adv] same_text_trans [OF same_text_mirror(2) adv] simp del: fb_scroll_while.simps)
qed

lemma next_tab_range: "0 \<le> c \<Longrightarrow> 0 \<le> next_tab c"
  by (simp add: next_tab_def)

lemma vga_call_hook_same: "same_text s (vga_call_hook ev x y c s)"
  by (simp add: vga_call_hook_def same_text_def)

lemma vga_store_ok:
  assumes "console_ok s"
  obtains s' where "vga_store c s = Inr s'" and "console_ok s'" and "cur_row s' = cur_row s" and "cur_col s' = cur_col s"
    and "vga_mem s' = (vga_mem s)[nat (cur_row s * 80 + cur_col s) := make_entry c (cur_color s)]"
proof -
  have "0 \<le> cur_row s * 80 + cur_col s" "cur_row s * 80 + cur_col s < 2000"
    using assms unfolding console_ok_def by linarith+
  with assms that show ?thesis by (simp add: vga_store_def Let_def console_ok_def)
qed

text \<open>A state whose cursor may be one line below the screen, as it is before the scroll.\<close>

definition console_pre :: "console \<Rightarrow> bool" where
  "console_pre s \<longleftrightarrow> length (vga_mem s) = 2000 \<and> 0 \<le> cur_row s \<and> cur_row s \<le> 25 \<and> 0 \<le> cur_col s \<and> cur_col s < 80"

lemma vga_wrap_pre:
  assumes "length (vga_mem s) = 2000" and "0 \<le> cur_row s" "cur_row s < 25" "0 \<le> cur_col s"
  shows "console_pre (vga_wrap s)"
  using assms by (auto simp: console_pre_def vga_wrap_def)

lemma vga_finish_ok:
  assumes "console_pre s"
  shows "console_ok (fb_console_putchar c (update_hw_cursor (if cur_row s \<ge> 25 then vga_scroll s else s)))"
proof -
  have "console_ok (if cur_row s \<ge> 25 then vga_scroll s else s)"
    using assms by (auto simp: console_pre_def console_ok_def vga_scroll_def)
  then show ?thesis
    using same_text_ok [OF same_text_trans [OF same_text_mirror(4) same_text_fb_putchar]]
    by (simp add: update_hw_cursor_def)
qed

lemma vga_edit_ok:
  assumes ok: "console_ok s"
  shows "\<exists>s1. vga_edit c s = Inr s1 \<and> console_pre s1"
proof -
  have c: "length (vga_mem s) = 2000" "0 \<le> cur_row s" "cur_row s < 25" "0 \<le> cur_col s" "cur_col s < 80"
    using ok by (simp_all add: console_ok_def)
  have pre: "console_pre s'" if "console_ok s'" for s'
    using that by (simp add: console_pre_def console_ok_def)
  consider "c = 10" | "c = 13" | "c = 9" | "c = 8" "cur_col s > 0" | "c = 8" "\<not> cur_col s > 0"
    | "c \<noteq> 10" "c \<noteq> 13" "c \<noteq> 9" "c \<noteq> 8" by blast
  then show ?thesis
  proof cases
    case 3
    have "console_pre (vga_wrap (s\<lparr>cur_col := next_tab (cur_col s)\<rparr>))"
      using c next_tab_range [OF c(4)] by (intro vga_wrap_pre) simp_all
    with 3 show ?thesis by (simp add: vga_edit_def)
  next
    case 4
    have "console_ok (s\<lparr>cur_col := cur_col s - 1\<rparr>)" using c 4 by (simp add: console_ok_def)
    then obtain s' where "vga_store 32 (s\<lparr>cur_col := cur_col s - 1\<rparr>) = Inr s'" "console_ok s'"
      by (rule vga_store_ok)
    with 4 pre show ?thesis by (simp add: vga_edit_def)
  next
    case 5
    with pre [OF ok] show ?thesis by (simp add: vga_edit_def)
  next
    case 6
    obtain s' where s': "vga_store c s = Inr s'" "console_ok s'" using vga_store_ok [OF ok] by metis
    then have "console_pre (vga_wrap (s'\<lparr>cur_col := cur_col s' + 1\<rparr>))"
      by (intro vga_wrap_pre) (simp_all add: console_ok_def)
    with 6 s' show ?thesis by (simp add: vga_edit_def)
  qed (use c in \<open>simp_all add: vga_edit_def console_pre_def\<close>)
qed

lemma vga_putchar_ok:
  assumes "console_ok s"
  shows "\<exists>s'. vga_putchar c s = Inr s' \<and> console_ok s'"
proof -
  have "console_ok (vga_call_hook ''PUTCHAR'' (cur_col s) (cur_row s) c s)"
    using assms same_text_ok [OF vga_call_hook_same] by simp
  from vga_edit_ok [OF this, of c] obtain s1 where
    "vga_edit c (vga_call_hook ''PUTCHAR'' (cur_col s) (cur_row s) c s) = Inr s1" "console_pre s1" by blast
  with vga_finish_ok show ?thesis by (simp add: vga_putchar_def)
qed

lemma vga_puts_ok:
  assumes "console_ok s"
  shows "\<exists>s'. vga_puts str s = Inr s' \<and> console_ok s'"
  using assms
proof (induction str arbitrary: s)
  case (Cons c cs)
  from vga_putchar_ok [OF Cons.prems, of c] obtain s1 where "vga_putchar c s = Inr s1" "console_ok s1" by blast
  with Cons.IH [of s1] show ?case by simp
qed simp

lemma vga_set_color_ok: "console_ok s \<Longrightarrow> console_ok (vga_set_color fg bg s)"
  by (simp add: vga_set_color_def console_ok_def)

lemma vga_set_cursor_ok:
  assumes "console_ok s"
  shows "console_ok (vga_set_cursor row col s)"
proof -
  have "console_ok (update_hw_cursor (s\<lparr>cur_row := clamp row 25, cur_col := clamp col 80\<rparr>))"
    using assms by (auto simp: console_ok_def update_hw_cursor_def clamp_def)
  then have "console_ok (fb_console_mirror_cursor (clamp row 25) (clamp col 80)
      (update_hw_cursor (s\<lparr>cur_row := clamp row 25, cur_col := clamp col 80\<rparr>)))"
    by (simp add: fb_console_mirror_cursor_def console_ok_def)
  then show ?thesis using same_text_ok [OF vga_call_hook_same] by (simp add: vga_set_cursor_def Let_def)
qed

section \<open>Properties\<close>

definition console_demo :: console where
  "console_demo =
     \<lparr>fb_ok = True, fb_addr = 0xE0000000, fb_pitch = 2560, fb_width = 640, fb_height = 480, fb_bpp = 32, fb_type = 1,
      fb_virt = 0xE0000000, fb_mem = (\<lambda>_. 0), fb_m_row = 0, fb_m_col = 0, vga_mem = replicate 2000 0,
      cur_row = 24, cur_col = 79, cur_color = 7, hw_cursor = 0, vga_hook = False, vga_events = []\<rparr>"

text \<open>
  C33: whatever is printed, \<open>vga_puts\<close> never writes outside the 80x25 text cells, and leaves the cursor on
  the screen.
\<close>

theorem vga_puts_stays_on_screen:
  assumes "console_ok s"
  shows "\<exists>s'. vga_puts str s = Inr s' \<and> console_ok s'"
  using assms by (rule vga_puts_ok)

theorem vga_puts_stays_on_screen_witness:
  "console_ok console_demo \<and> (\<exists>s'. vga_puts [65, 10, 9, 8, 13, 200] console_demo = Inr s' \<and> console_ok s')"
proof -
  have "console_ok console_demo" by (simp add: console_ok_def console_demo_def)
  from vga_puts_stays_on_screen [OF this, of "[65, 10, 9, 8, 13, 200]"] this show ?thesis by blast
qed

text \<open>
  On a usable framebuffer, and when the right and lower edges of the rectangle do not wrap around
  $2^{32}$, \<open>fb_fill_rect\<close> gives the colour to exactly the visible pixels of the rectangle.
\<close>

theorem fb_fill_rect_exact:
  assumes "fb_wf s" and "unat x + unat w < 2 ^ 32" and "unat y + unat h < 2 ^ 32"
    and "px < fb_width s" and "py < fb_height s"
  shows "fb_get_pixel px py (fb_fill_rect x y w h c s) =
           (if unat x \<le> unat px \<and> unat px < unat x + unat w \<and> unat y \<le> unat py \<and> unat py < unat y + unat h then c
            else fb_get_pixel px py s)"
proof (cases "w = 0 \<or> h = 0 \<or> x \<ge> fb_width s \<or> y \<ge> fb_height s")
  case True
  then have "fb_fill_rect x y w h c s = s" by (auto simp: fb_fill_rect_def Let_def)
  with True assms(4,5) show ?thesis by (auto simp: word_le_nat_alt word_less_nat_alt unat_eq_0)
next
  case False
  then have xy: "x < fb_width s" "y < fb_height s" "w \<noteq> 0" "h \<noteq> 0" by auto
  note cw = clip_nat [OF xy(1) assms(2)] and ch = clip_nat [OF xy(2) assms(3)]
  have w0: "unat w \<noteq> 0" using xy(3) by (simp add: unat_eq_0)
  have lt: "unat x < unat (fb_width s)" "unat y < unat (fb_height s)" "unat px < unat (fb_width s)" "unat py < unat (fb_height s)"
    using xy assms(4,5) by (simp_all add: word_less_nat_alt)
  have b: "unat x + unat (clip x w (fb_width s)) \<le> unat (fb_width s)" "0 < unat (clip x w (fb_width s))"
    "unat y + unat (clip y h (fb_height s)) \<le> unat (fb_height s)"
    unfolding cw ch using lt w0 by auto
  have "fb_get_pixel px py (fb_fill_rect x y w h c s) =
      rd32 (fold (\<lambda>row. fill_row (unat (clip x w (fb_width s))) (pixel_addr s x (y + of_nat row)) c)
             [0..<unat (clip y h (fb_height s))] (fb_mem s)) (pixel_addr s px py)"
  proof -
    have "\<not> fb_width s \<le> x" "\<not> fb_height s \<le> y" "\<not> fb_width s \<le> px" "\<not> fb_height s \<le> py"
      using xy assms(4,5) by (simp_all add: not_le)
    moreover have "fb_ok s" using assms(1) by (simp add: fb_wf_def)
    ultimately show ?thesis
      using xy by (simp add: fb_get_pixel_def fb_fill_rect_def Let_def pixel_addr_def)
  qed
  also have "\<dots> = (if unat x \<le> unat px \<and> unat px < unat x + unat (clip x w (fb_width s)) \<and>
        unat y \<le> unat py \<and> unat py < unat y + unat (clip y h (fb_height s)) then c
      else rd32 (fb_mem s) (pixel_addr s px py))"
    by (rule fill_rows [OF assms(1) b lt(3,4)])
  also have "rd32 (fb_mem s) (pixel_addr s px py) = fb_get_pixel px py s"
    using assms(1,4,5) by (auto simp: fb_get_pixel_def fb_wf_def)
  finally show ?thesis unfolding cw ch using lt by auto
qed

theorem fb_fill_rect_exact_witness:
  "fb_wf console_demo \<and> fb_get_pixel 639 5 (fb_fill_rect 600 0 100 10 0xFF00FF console_demo) = 0xFF00FF"
proof -
  have wf: "fb_wf console_demo" by (simp add: fb_wf_def console_demo_def)
  have "unat (600 :: u32) + unat (100 :: u32) < 2 ^ 32" "unat (0 :: u32) + unat (10 :: u32) < 2 ^ 32"
    "639 < fb_width console_demo" "5 < fb_height console_demo" by (simp_all add: console_demo_def)
  from fb_fill_rect_exact [OF wf this] wf show ?thesis by simp
qed

text \<open>
  The clipping of \<open>fb_fill_rect\<close> fails when \<open>x + w\<close> wraps around: the width is left as it is, and
  the rectangle that is filled reaches beyond the right edge.
\<close>

theorem fb_clip_wraps:
  assumes "2 ^ 32 \<le> unat x + unat w" and "unat x + unat w - 2 ^ 32 \<le> unat lim"
  shows "clip x w lim = w \<and> unat lim < unat x + unat (clip x w lim)"
proof -
  note lt = unat_less_2p32 [of x] unat_less_2p32 [of w] unat_less_2p32 [of lim]
  have "unat (x + w) = unat x + unat w - 4294967296"
    using assms(1) lt by (simp add: unat_word_ariths mod_if)
  with assms(2) have "clip x w lim = w" by (simp add: clip_def word_less_nat_alt)
  with assms(1) lt show ?thesis by simp
qed

theorem fb_clip_wraps_witness: "clip 10 0xFFFFFFFF 640 = 0xFFFFFFFF"
  using fb_clip_wraps [of 10 "0xFFFFFFFF" 640] by simp

end
