(* ===== verification/Ring.thy ===== *)
theory Ring
  imports Kernel_Prelude
begin

text \<open>
  The bounded ring buffer that the keyboard, the mouse and the local sockets all use: an array of
  \<open>cap\<close> slots, a head where the producer writes and a tail where the consumer reads, equal when the
  ring is empty, with one slot kept free. \<open>ring_list\<close> is the abstraction to the pending elements,
  oldest first; the locale states the queue contract and proves once that a ring is a FIFO.
\<close>

section \<open>The abstraction\<close>

definition ring_len :: "nat \<Rightarrow> nat \<Rightarrow> nat \<Rightarrow> nat" where
  "ring_len cap h t = (h + cap - t) mod cap"

definition ring_list :: "nat \<Rightarrow> 'a list \<Rightarrow> nat \<Rightarrow> nat \<Rightarrow> 'a list" where
  "ring_list cap buf h t = map (\<lambda>i. buf ! ((t + i) mod cap)) [0..<ring_len cap h t]"

definition ring_ok :: "nat \<Rightarrow> 'a list \<Rightarrow> nat \<Rightarrow> nat \<Rightarrow> bool" where
  "ring_ok cap buf h t \<longleftrightarrow> length buf = cap \<and> 2 \<le> cap \<and> h < cap \<and> t < cap"

definition ring_next :: "nat \<Rightarrow> nat \<Rightarrow> nat" where
  "ring_next cap i = (i + 1) mod cap"

lemma length_ring_list [simp]: "length (ring_list cap buf h t) = ring_len cap h t"
  by (simp add: ring_list_def)

lemma ring_len_eq:
  "h < cap \<Longrightarrow> t < cap \<Longrightarrow> ring_len cap h t = (if t \<le> h then h - t else h + cap - t)"
  by (auto simp: ring_len_def mod_if)

lemma ring_next_eq: "i < cap \<Longrightarrow> ring_next cap i = (if i + 1 = cap then 0 else i + 1)"
  by (auto simp: ring_next_def mod_if)

lemma Suc_mod_ring_next: "Suc i mod cap = ring_next cap i"
  by (simp add: ring_next_def)

lemma ring_next_less: "0 < cap \<Longrightarrow> ring_next cap i < cap"
  by (simp add: ring_next_def)

lemma ring_len_less: "0 < cap \<Longrightarrow> ring_len cap h t < cap"
  by (simp add: ring_len_def)

lemma ring_empty_iff:
  assumes "h < cap" and "t < cap"
  shows "ring_list cap buf h t = [] \<longleftrightarrow> h = t"
proof -
  have "ring_list cap buf h t = [] \<longleftrightarrow> ring_len cap h t = 0"
    by (metis length_0_conv length_ring_list)
  also have "\<dots> \<longleftrightarrow> h = t"
    using assms by (simp add: ring_len_eq)
  finally show ?thesis .
qed

lemma ring_full_iff:
  assumes "h < cap" and "t < cap"
  shows "ring_next cap h = t \<longleftrightarrow> length (ring_list cap buf h t) = cap - 1"
  using assms by (auto simp: ring_len_eq ring_next_eq)

lemma ring_slot:
  fixes t i cap :: nat
  assumes "t < cap" and "i < cap"
  shows "(t + i) mod cap = (if t + i < cap then t + i else t + i - cap)"
  using assms by (cases "t + i < cap") (simp_all add: le_mod_geq)

lemma ring_push:
  assumes "ring_ok cap buf h t" and "ring_next cap h \<noteq> t"
  shows "ring_list cap (buf[h := x]) (ring_next cap h) t = ring_list cap buf h t @ [x]"
proof (rule nth_equalityI)
  note ok = assms(1) [unfolded ring_ok_def]
  have len: "ring_len cap (ring_next cap h) t = Suc (ring_len cap h t)"
    using ok assms(2) by (auto simp: ring_len_eq ring_next_eq ring_next_less split: if_splits)
  then show "length (ring_list cap (buf[h := x]) (ring_next cap h) t) = length (ring_list cap buf h t @ [x])"
    by simp
  fix i
  assume "i < length (ring_list cap (buf[h := x]) (ring_next cap h) t)"
  then have i: "i < Suc (ring_len cap h t)"
    by (simp add: len)
  have less: "i < cap"
    using i ring_len_less [of cap h t] ok by linarith
  have h: "(t + ring_len cap h t) mod cap = h"
    using ok by (auto simp: ring_len_eq)
  have "(t + i) mod cap \<noteq> h" if "i < ring_len cap h t"
    using that ok less by (auto simp: ring_slot ring_len_eq split: if_splits)
  then show "ring_list cap (buf[h := x]) (ring_next cap h) t ! i = (ring_list cap buf h t @ [x]) ! i"
    using i h ok by (auto simp: ring_list_def len nth_append less_Suc_eq simp del: upt_Suc)
qed

lemma ring_pop:
  assumes "ring_ok cap buf h t" and "t \<noteq> h"
  shows "ring_list cap buf h t = buf ! t # ring_list cap buf h (ring_next cap t)"
proof (rule nth_equalityI)
  note ok = assms(1) [unfolded ring_ok_def]
  have len: "ring_len cap h t = Suc (ring_len cap h (ring_next cap t))"
    using ok assms(2) by (auto simp: ring_len_eq ring_next_eq ring_next_less split: if_splits)
  then show "length (ring_list cap buf h t) = length (buf ! t # ring_list cap buf h (ring_next cap t))"
    by simp
  fix i
  assume "i < length (ring_list cap buf h t)"
  then have "i < Suc (ring_len cap h (ring_next cap t))"
    by (simp add: len)
  moreover have "(ring_next cap t + k) mod cap = (t + Suc k) mod cap" for k
    using mod_add_left_eq [of "t + 1" cap k] by (simp add: ring_next_def)
  ultimately show "ring_list cap buf h t ! i = (buf ! t # ring_list cap buf h (ring_next cap t)) ! i"
    using ok by (cases i) (auto simp: ring_list_def len simp del: upt_Suc)
qed

lemma ring_ok_push: "ring_ok cap buf h t \<Longrightarrow> ring_ok cap (buf[h := x]) (ring_next cap h) t"
  by (simp add: ring_ok_def ring_next_less)

lemma ring_ok_pop: "ring_ok cap buf h t \<Longrightarrow> ring_ok cap buf h (ring_next cap t)"
  by (simp add: ring_ok_def ring_next_less)

section \<open>The queue contract\<close>

locale bounded_fifo =
  fixes push :: "'a \<Rightarrow> 's \<Rightarrow> 's"
    and pop :: "'s \<Rightarrow> ('a \<times> 's) option"
    and pending :: "'s \<Rightarrow> 'a list"
    and invar :: "'s \<Rightarrow> bool"
    and room :: nat
  assumes push_room: "invar s \<Longrightarrow> length (pending s) < room \<Longrightarrow> pending (push x s) = pending s @ [x]"
    and push_full: "invar s \<Longrightarrow> \<not> length (pending s) < room \<Longrightarrow> push x s = s"
    and pop_nil: "invar s \<Longrightarrow> pending s = [] \<Longrightarrow> pop s = None"
    and pop_cons: "invar s \<Longrightarrow> pending s = x # xs \<Longrightarrow> \<exists>s'. pop s = Some (x, s') \<and> pending s' = xs \<and> invar s'"
    and push_invar: "invar s \<Longrightarrow> invar (push x s)"
    and pending_room: "invar s \<Longrightarrow> length (pending s) \<le> room"

fun push_all :: "('a \<Rightarrow> 's \<Rightarrow> 's) \<Rightarrow> 'a list \<Rightarrow> 's \<Rightarrow> 's" where
  "push_all push [] s = s"
| "push_all push (x # xs) s = push_all push xs (push x s)"

fun pop_upto :: "('s \<Rightarrow> ('a \<times> 's) option) \<Rightarrow> nat \<Rightarrow> 's \<Rightarrow> 'a list \<times> 's" where
  "pop_upto pop 0 s = ([], s)"
| "pop_upto pop (Suc n) s =
     (case pop s of
        None \<Rightarrow> ([], s)
      | Some (x, s') \<Rightarrow> case pop_upto pop n s' of (xs, s'') \<Rightarrow> (x # xs, s''))"

context bounded_fifo
begin

lemma push_all_pending:
  assumes "invar s"
  shows "pending (push_all push xs s) = pending s @ take (room - length (pending s)) xs \<and>
         invar (push_all push xs s)"
  using assms
proof (induction xs arbitrary: s)
  case Nil
  then show ?case by simp
next
  case (Cons x xs)
  note IH = Cons.IH [OF push_invar [OF Cons.prems, of x]]
  show ?case
  proof (cases "length (pending s) < room")
    case True
    then have "room - length (pending s) = Suc (room - Suc (length (pending s)))" by simp
    with IH push_room [OF Cons.prems True, of x] show ?thesis by simp
  next
    case False
    with IH push_full [OF Cons.prems False, of x] show ?thesis by simp
  qed
qed

lemma pop_upto_pending:
  assumes "invar s"
  shows "fst (pop_upto pop n s) = take n (pending s) \<and>
         pending (snd (pop_upto pop n s)) = drop n (pending s) \<and> invar (snd (pop_upto pop n s))"
  using assms
proof (induction n arbitrary: s)
  case 0
  then show ?case by simp
next
  case (Suc n)
  show ?case
  proof (cases "pending s")
    case Nil
    with pop_nil [OF Suc.prems] Suc.prems show ?thesis by simp
  next
    case (Cons x xs)
    from pop_cons [OF Suc.prems this] obtain s' where
      s': "pop s = Some (x, s')" "pending s' = xs" "invar s'" by blast
    from Suc.IH [OF s'(3)] s' Cons show ?thesis
      by (simp add: case_prod_unfold)
  qed
qed

text \<open>First in, first out: what was put in while there was room comes out in order.\<close>

lemma fifo:
  assumes "invar s" and "length (pending s) + length xs \<le> room"
  shows "fst (pop_upto pop (length (pending s) + length xs) (push_all push xs s)) = pending s @ xs"
  using push_all_pending [OF assms(1), of xs] pop_upto_pending assms(2) by simp

end

end
