(* ===== verification/Input.thy ===== *)
theory Input
  imports Ring
begin

text \<open>
  \<^verbatim>\<open>src/drivers/keyboard.c\<close> and \<^verbatim>\<open>src/drivers/mouse.c\<close>: the PS/2 drivers. The 8042
  controller is hardware: what its status and data ports return during an interrupt is an argument,
  a list of (status, data) pairs, and a list that ends means the controller has nothing more
  (status bit 0 clear). The driver's statics are the records \<open>kbd\<close> and \<open>mouse\<close>.
\<close>

section \<open>Keyboard\<close>

record kbd =
  kbd_buf :: "u8 list"
  kbd_head :: nat
  kbd_tail :: nat
  kbd_raw_buf :: "u8 list"
  kbd_raw_head :: nat
  kbd_raw_tail :: nat
  shift_held :: bool
  caps_lock :: bool
  e0_pending :: bool

abbreviation (input) KBD_BUF_SIZE :: nat where "KBD_BUF_SIZE \<equiv> 256"

definition kbd_start :: kbd where
  "kbd_start = \<lparr>kbd_buf = replicate KBD_BUF_SIZE 0, kbd_head = 0, kbd_tail = 0,
     kbd_raw_buf = replicate KBD_BUF_SIZE 0, kbd_raw_head = 0, kbd_raw_tail = 0,
     shift_held = False, caps_lock = False, e0_pending = False\<rparr>"

definition bytes_of :: "string \<Rightarrow> u8 list" where
  "bytes_of s = map of_char s"

definition sc_lower :: "u8 list" where
  "sc_lower = [0, 27] @ bytes_of ''1234567890-='' @ [8, 9] @ bytes_of ''qwertyuiop[]'' @ [10, 0] @
     bytes_of ''asdfghjkl;'' @ [39, 96, 0, 92] @ bytes_of ''zxcvbnm,./'' @ [0, 42, 0, 32] @ replicate 70 0"

definition sc_upper :: "u8 list" where
  "sc_upper = [0, 27] @ bytes_of ''!@#$%^&*()_+'' @ [8, 9] @ bytes_of ''QWERTYUIOP{}'' @ [10, 0] @
     bytes_of ''ASDFGHJKL:'' @ [34, 126, 0, 124] @ bytes_of ''ZXCVBNM<>?'' @ [0, 42, 0, 32] @ replicate 70 0"

definition kbd_push :: "u8 \<Rightarrow> kbd \<Rightarrow> kbd" where
  "kbd_push c k =
     (let nxt = (kbd_head k + 1) mod KBD_BUF_SIZE
      in if nxt \<noteq> kbd_tail k then k\<lparr>kbd_buf := (kbd_buf k)[kbd_head k := c], kbd_head := nxt\<rparr> else k)"

definition kbd_push_raw :: "u8 \<Rightarrow> kbd \<Rightarrow> kbd" where
  "kbd_push_raw sc k =
     (let nxt = (kbd_raw_head k + 1) mod KBD_BUF_SIZE
      in if nxt \<noteq> kbd_raw_tail k
         then k\<lparr>kbd_raw_buf := (kbd_raw_buf k)[kbd_raw_head k := sc], kbd_raw_head := nxt\<rparr> else k)"

definition ext_key :: "u8 \<Rightarrow> u8" where
  "ext_key sc =
     (if sc = 0x48 then 0x80 else if sc = 0x50 then 0x81 else if sc = 0x4B then 0x82
      else if sc = 0x4D then 0x83 else if sc = 0x47 then 0x84 else if sc = 0x4F then 0x85
      else if sc = 0x53 then 0x86 else if sc = 0x49 then 0x87 else if sc = 0x51 then 0x88 else 0)"

definition key_char :: "kbd \<Rightarrow> u8 \<Rightarrow> u8" where
  "key_char k sc =
     (if shift_held k then sc_upper ! unat sc
      else let c = sc_lower ! unat sc
           in if caps_lock k \<and> 97 \<le> c \<and> c \<le> 122 then c - 97 + 65 else c)"

definition kbd_handle_byte :: "u8 \<Rightarrow> kbd \<Rightarrow> kbd" where
  "kbd_handle_byte b k =
     (if b = 0xE0 then k\<lparr>e0_pending := True\<rparr>
      else
        let released = (b AND 0x80 \<noteq> 0); sc = b AND 0x7F
        in if e0_pending k then
             let k1 = k\<lparr>e0_pending := False\<rparr>
             in if \<not> released \<and> ext_key sc \<noteq> 0 then kbd_push (ext_key sc) k1 else k1
           else if sc = 0x2A \<or> sc = 0x36 then k\<lparr>shift_held := \<not> released\<rparr>
           else if \<not> released \<and> sc = 0x3A then k\<lparr>caps_lock := \<not> caps_lock k\<rparr>
           else if \<not> released \<and> sc < 128 then
             let c = key_char k sc in if c \<noteq> 0 then kbd_push c k else k
           else k)"

text \<open>At most 32 controller reads per interrupt; bytes with status bit 5 set belong to the mouse.\<close>

fun keyboard_irq_loop :: "nat \<Rightarrow> (u8 \<times> u8) list \<Rightarrow> kbd \<Rightarrow> kbd" where
  "keyboard_irq_loop 0 io k = k"
| "keyboard_irq_loop (Suc n) [] k = k"
| "keyboard_irq_loop (Suc n) ((st, data) # io) k =
     (if st AND 0x01 = 0 then k
      else if st AND 0x20 \<noteq> 0 then keyboard_irq_loop n io k
      else keyboard_irq_loop n io (kbd_handle_byte data (kbd_push_raw data k)))"

definition keyboard_irq :: "(u8 \<times> u8) list \<Rightarrow> kbd \<Rightarrow> kbd" where
  "keyboard_irq io k = keyboard_irq_loop 32 io k"

definition keyboard_poll :: "kbd \<Rightarrow> int \<times> kbd" where
  "keyboard_poll k =
     (if kbd_head k = kbd_tail k then (-1, k)
      else (int (unat (kbd_buf k ! kbd_tail k)), k\<lparr>kbd_tail := (kbd_tail k + 1) mod KBD_BUF_SIZE\<rparr>))"

definition keyboard_poll_raw :: "kbd \<Rightarrow> int \<times> kbd" where
  "keyboard_poll_raw k =
     (if kbd_raw_head k = kbd_raw_tail k then (-1, k)
      else (int (unat (kbd_raw_buf k ! kbd_raw_tail k)),
            k\<lparr>kbd_raw_tail := (kbd_raw_tail k + 1) mod KBD_BUF_SIZE\<rparr>))"

text \<open>
  \<open>keyboard_getkey\<close> halts until an interrupt arrives; \<open>irqs\<close> is the sequence of interrupts that
  arrive while it waits, and \<open>None\<close> means it is still waiting when they are used up.
\<close>

fun keyboard_getkey :: "(u8 \<times> u8) list list \<Rightarrow> kbd \<Rightarrow> (int \<times> (u8 \<times> u8) list list \<times> kbd) option" where
  "keyboard_getkey irqs k =
     (case keyboard_poll k of (c, k') \<Rightarrow>
        if 0 \<le> c then Some (c, irqs, k')
        else case irqs of [] \<Rightarrow> None | io # rest \<Rightarrow> keyboard_getkey rest (keyboard_irq io k'))"

partial_function (option) keyboard_getchar ::
    "(u8 \<times> u8) list list \<Rightarrow> kbd \<Rightarrow> (int \<times> (u8 \<times> u8) list list \<times> kbd) option" where
  "keyboard_getchar irqs k =
     (case keyboard_getkey irqs k of
        None \<Rightarrow> None
      | Some (c, rest, k') \<Rightarrow> if 0x80 \<le> c then keyboard_getchar rest k' else Some (c, rest, k'))"

section \<open>Mouse\<close>

record mouse =
  s_q :: "(int \<times> int \<times> u8) list"
  s_head :: nat
  s_tail :: nat
  s_pkt :: "u8 list"
  s_pkt_len :: nat
  s_mouse_ready :: bool

abbreviation (input) MOUSE_QUEUE :: nat where "MOUSE_QUEUE \<equiv> 64"

definition mouse_start :: mouse where
  "mouse_start = \<lparr>s_q = replicate MOUSE_QUEUE (0, 0, 0), s_head = 0, s_tail = 0,
     s_pkt = [0, 0, 0], s_pkt_len = 0, s_mouse_ready = False\<rparr>"

definition mouse_enqueue :: "int \<times> int \<times> u8 \<Rightarrow> mouse \<Rightarrow> mouse" where
  "mouse_enqueue p m =
     (let n = (s_head m + 1) mod MOUSE_QUEUE
      in if n = s_tail m then m else m\<lparr>s_q := (s_q m)[s_head m := p], s_head := n\<rparr>)"

definition mouse_byte :: "u8 \<times> u8 \<Rightarrow> mouse \<Rightarrow> mouse" where
  "mouse_byte sb m =
     (case sb of (st, b) \<Rightarrow>
        if st AND 0x20 = 0 then m
        else if s_pkt_len m = 0 \<and> b AND 0x08 = 0 then m
        else
          let m1 = m\<lparr>s_pkt := (s_pkt m)[s_pkt_len m := b], s_pkt_len := s_pkt_len m + 1\<rparr>
          in if s_pkt_len m1 < 3 then m1
             else mouse_enqueue (sint (s_pkt m1 ! 1), sint (s_pkt m1 ! 2), s_pkt m1 ! 0 AND 7)
                    (m1\<lparr>s_pkt_len := 0\<rparr>))"

fun mouse_irq_loop :: "(u8 \<times> u8) list \<Rightarrow> mouse \<Rightarrow> mouse" where
  "mouse_irq_loop [] m = m"
| "mouse_irq_loop (sb # io) m =
     (if fst sb AND 0x01 = 0 then m else mouse_irq_loop io (mouse_byte sb m))"

definition mouse_irq :: "(u8 \<times> u8) list \<Rightarrow> mouse \<Rightarrow> mouse" where
  "mouse_irq io m = (if \<not> s_mouse_ready m then m else mouse_irq_loop io m)"

definition mouse_flush :: "mouse \<Rightarrow> mouse" where
  "mouse_flush m = m\<lparr>s_head := 0, s_tail := 0, s_pkt_len := 0\<rparr>"

definition mouse_poll :: "mouse \<Rightarrow> ((int \<times> int \<times> u8) \<times> mouse) option" where
  "mouse_poll m =
     (if s_tail m = s_head m then None
      else Some (s_q m ! s_tail m, m\<lparr>s_tail := (s_tail m + 1) mod MOUSE_QUEUE\<rparr>))"

section \<open>The rings behind the drivers\<close>

definition kbd_ok :: "kbd \<Rightarrow> bool" where
  "kbd_ok k \<longleftrightarrow> ring_ok KBD_BUF_SIZE (kbd_buf k) (kbd_head k) (kbd_tail k) \<and>
     ring_ok KBD_BUF_SIZE (kbd_raw_buf k) (kbd_raw_head k) (kbd_raw_tail k)"

definition kbd_pending :: "kbd \<Rightarrow> u8 list" where
  "kbd_pending k = ring_list KBD_BUF_SIZE (kbd_buf k) (kbd_head k) (kbd_tail k)"

definition kbd_raw_pending :: "kbd \<Rightarrow> u8 list" where
  "kbd_raw_pending k = ring_list KBD_BUF_SIZE (kbd_raw_buf k) (kbd_raw_head k) (kbd_raw_tail k)"

definition mouse_ok :: "mouse \<Rightarrow> bool" where
  "mouse_ok m \<longleftrightarrow> ring_ok MOUSE_QUEUE (s_q m) (s_head m) (s_tail m) \<and> length (s_pkt m) = 3 \<and> s_pkt_len m < 3"

definition mouse_pending :: "mouse \<Rightarrow> (int \<times> int \<times> u8) list" where
  "mouse_pending m = ring_list MOUSE_QUEUE (s_q m) (s_head m) (s_tail m)"

text \<open>A poll function as a partial pop: a negative result is the empty queue.\<close>

definition poll_pop :: "('s \<Rightarrow> int \<times> 's) \<Rightarrow> 's \<Rightarrow> (u8 \<times> 's) option" where
  "poll_pop poll s = (case poll s of (c, s') \<Rightarrow> if c < 0 then None else Some (word_of_int c, s'))"

lemmas kbd_ring_simps = kbd_ok_def kbd_pending_def kbd_raw_pending_def Suc_mod_ring_next

lemma ring_room:
  "ring_ok cap buf h t \<Longrightarrow> length (ring_list cap buf h t) < cap - 1 \<longleftrightarrow> ring_next cap h \<noteq> t"
  using ring_full_iff [of h cap t buf] ring_len_less [of cap h t] by (auto simp: ring_ok_def)

interpretation kq: bounded_fifo kbd_push "poll_pop keyboard_poll" kbd_pending kbd_ok 255
proof
  fix s :: kbd and x :: u8 and xs :: "u8 list"
  assume ok: "kbd_ok s"
  then have r: "ring_ok KBD_BUF_SIZE (kbd_buf s) (kbd_head s) (kbd_tail s)"
    by (simp add: kbd_ok_def)
  note room = ring_room [OF r]
  show "kbd_pending (kbd_push x s) = kbd_pending s @ [x]" if "length (kbd_pending s) < 255"
    using that room ring_push [OF r] by (simp add: kbd_push_def Let_def kbd_ring_simps)
  show "kbd_push x s = s" if "\<not> length (kbd_pending s) < 255"
    using that room by (simp add: kbd_push_def Let_def kbd_ring_simps)
  show "poll_pop keyboard_poll s = None" if "kbd_pending s = []"
    using that r by (simp add: poll_pop_def keyboard_poll_def kbd_pending_def ring_empty_iff ring_ok_def)
  show "\<exists>s'. poll_pop keyboard_poll s = Some (x, s') \<and> kbd_pending s' = xs \<and> kbd_ok s'"
    if "kbd_pending s = x # xs"
  proof -
    have "kbd_tail s \<noteq> kbd_head s"
      using that r ring_empty_iff [of "kbd_head s" 256 "kbd_tail s" "kbd_buf s"]
      by (auto simp: kbd_pending_def ring_ok_def)
    with that ok ring_pop [OF r] ring_ok_pop [OF r] show ?thesis
      by (auto simp: poll_pop_def keyboard_poll_def kbd_ring_simps)
  qed
  show "kbd_ok (kbd_push x s)"
    using ok ring_ok_push [OF r] by (auto simp: kbd_push_def Let_def kbd_ring_simps)
  show "length (kbd_pending s) \<le> 255"
    using ring_len_less [of 256 "kbd_head s" "kbd_tail s"] by (simp add: kbd_pending_def)
qed

interpretation krq: bounded_fifo kbd_push_raw "poll_pop keyboard_poll_raw" kbd_raw_pending kbd_ok 255
proof
  fix s :: kbd and x :: u8 and xs :: "u8 list"
  assume ok: "kbd_ok s"
  then have r: "ring_ok KBD_BUF_SIZE (kbd_raw_buf s) (kbd_raw_head s) (kbd_raw_tail s)"
    by (simp add: kbd_ok_def)
  note room = ring_room [OF r]
  show "kbd_raw_pending (kbd_push_raw x s) = kbd_raw_pending s @ [x]" if "length (kbd_raw_pending s) < 255"
    using that room ring_push [OF r] by (simp add: kbd_push_raw_def Let_def kbd_ring_simps)
  show "kbd_push_raw x s = s" if "\<not> length (kbd_raw_pending s) < 255"
    using that room by (simp add: kbd_push_raw_def Let_def kbd_ring_simps)
  show "poll_pop keyboard_poll_raw s = None" if "kbd_raw_pending s = []"
    using that r by (simp add: poll_pop_def keyboard_poll_raw_def kbd_raw_pending_def ring_empty_iff ring_ok_def)
  show "\<exists>s'. poll_pop keyboard_poll_raw s = Some (x, s') \<and> kbd_raw_pending s' = xs \<and> kbd_ok s'"
    if "kbd_raw_pending s = x # xs"
  proof -
    have "kbd_raw_tail s \<noteq> kbd_raw_head s"
      using that r ring_empty_iff [of "kbd_raw_head s" 256 "kbd_raw_tail s" "kbd_raw_buf s"]
      by (auto simp: kbd_raw_pending_def ring_ok_def)
    with that ok ring_pop [OF r] ring_ok_pop [OF r] show ?thesis
      by (auto simp: poll_pop_def keyboard_poll_raw_def kbd_ring_simps)
  qed
  show "kbd_ok (kbd_push_raw x s)"
    using ok ring_ok_push [OF r] by (auto simp: kbd_push_raw_def Let_def kbd_ring_simps)
  show "length (kbd_raw_pending s) \<le> 255"
    using ring_len_less [of 256 "kbd_raw_head s" "kbd_raw_tail s"] by (simp add: kbd_raw_pending_def)
qed

interpretation mq: bounded_fifo mouse_enqueue mouse_poll mouse_pending mouse_ok 63
proof
  fix s :: mouse and x :: "int \<times> int \<times> u8" and xs :: "(int \<times> int \<times> u8) list"
  assume ok: "mouse_ok s"
  then have r: "ring_ok MOUSE_QUEUE (s_q s) (s_head s) (s_tail s)"
    by (simp add: mouse_ok_def)
  note room = ring_room [OF r]
  show "mouse_pending (mouse_enqueue x s) = mouse_pending s @ [x]" if "length (mouse_pending s) < 63"
    using that room ring_push [OF r]
    by (simp add: mouse_enqueue_def Let_def mouse_pending_def Suc_mod_ring_next)
  show "mouse_enqueue x s = s" if "\<not> length (mouse_pending s) < 63"
    using that room by (simp add: mouse_enqueue_def Let_def mouse_pending_def Suc_mod_ring_next)
  show "mouse_poll s = None" if "mouse_pending s = []"
    using that r by (simp add: mouse_poll_def mouse_pending_def ring_empty_iff ring_ok_def)
  show "\<exists>s'. mouse_poll s = Some (x, s') \<and> mouse_pending s' = xs \<and> mouse_ok s'"
    if "mouse_pending s = x # xs"
  proof -
    have "s_tail s \<noteq> s_head s"
      using that r ring_empty_iff [of "s_head s" 64 "s_tail s" "s_q s"]
      by (auto simp: mouse_pending_def ring_ok_def)
    with that ok ring_pop [OF r] ring_ok_pop [OF r] show ?thesis
      by (auto simp: mouse_poll_def mouse_pending_def mouse_ok_def Suc_mod_ring_next)
  qed
  show "mouse_ok (mouse_enqueue x s)"
    using ok ring_ok_push [OF r]
    by (auto simp: mouse_enqueue_def Let_def mouse_ok_def Suc_mod_ring_next)
  show "length (mouse_pending s) \<le> 63"
    using ring_len_less [of 64 "s_head s" "s_tail s"] by (simp add: mouse_pending_def)
qed

section \<open>Lemmas about the interrupt handlers\<close>

lemma kbd_ok_flags [simp]:
  "kbd_ok (k\<lparr>e0_pending := b\<rparr>) = kbd_ok k" "kbd_ok (k\<lparr>shift_held := b\<rparr>) = kbd_ok k"
  "kbd_ok (k\<lparr>caps_lock := b\<rparr>) = kbd_ok k"
  by (simp_all add: kbd_ok_def)

lemma kbd_raw_pending_flags [simp]:
  "kbd_raw_pending (k\<lparr>e0_pending := b\<rparr>) = kbd_raw_pending k"
  "kbd_raw_pending (k\<lparr>shift_held := b\<rparr>) = kbd_raw_pending k"
  "kbd_raw_pending (k\<lparr>caps_lock := b\<rparr>) = kbd_raw_pending k"
  by (simp_all add: kbd_raw_pending_def)

lemma kbd_push_raw_pending [simp, frame_simps]: "kbd_raw_pending (kbd_push c k) = kbd_raw_pending k"
  by (simp add: kbd_push_def kbd_raw_pending_def Let_def)

lemma kbd_handle_byte_ok [invar_intros]: "kbd_ok k \<Longrightarrow> kbd_ok (kbd_handle_byte b k)"
  by (simp add: kbd_handle_byte_def Let_def kq.push_invar)

lemma kbd_handle_byte_raw [simp, frame_simps]: "kbd_raw_pending (kbd_handle_byte b k) = kbd_raw_pending k"
  by (simp add: kbd_handle_byte_def Let_def)

text \<open>The keyboard bytes one interrupt takes from the controller.\<close>

definition kbd_bytes :: "nat \<Rightarrow> (u8 \<times> u8) list \<Rightarrow> u8 list" where
  "kbd_bytes n io =
     map snd (filter (\<lambda>(st, _). st AND 0x20 = 0) (takeWhile (\<lambda>(st, _). st AND 0x01 \<noteq> 0) (take n io)))"

lemma keyboard_irq_loop_raw:
  assumes "kbd_ok k"
  shows "kbd_ok (keyboard_irq_loop n io k) \<and>
         kbd_raw_pending (keyboard_irq_loop n io k) =
           kbd_raw_pending k @ take (255 - length (kbd_raw_pending k)) (kbd_bytes n io)"
  using assms
proof (induction n io k rule: keyboard_irq_loop.induct)
  case (3 n st data io k)
  have ok: "kbd_ok (kbd_handle_byte data (kbd_push_raw data k))"
    using "3.prems" by (intro kbd_handle_byte_ok krq.push_invar)
  show ?case
  proof (cases "length (kbd_raw_pending k) < 255")
    case True
    then have "255 - length (kbd_raw_pending k) = Suc (254 - length (kbd_raw_pending k))" by simp
    with "3.IH" "3.prems" ok krq.push_room [OF "3.prems" True] show ?thesis
      by (simp add: kbd_bytes_def)
  next
    case False
    with "3.IH" "3.prems" ok krq.push_full [OF "3.prems" False] show ?thesis
      by (simp add: kbd_bytes_def)
  qed
qed (simp_all add: kbd_bytes_def)

lemma kbd_start_ok: "kbd_ok kbd_start" "kbd_pending kbd_start = []" "kbd_raw_pending kbd_start = []"
  by (simp_all add: kbd_ok_def kbd_start_def ring_ok_def kbd_pending_def kbd_raw_pending_def
      ring_list_def ring_len_def)

lemma sc_tables_length: "length sc_lower = 128" "length sc_upper = 128"
  by (simp_all add: sc_lower_def sc_upper_def bytes_of_def)

lemma sc_letters:
  "list_all2 (\<lambda>l u. 97 \<le> l \<and> l \<le> 122 \<longrightarrow> u = l - 97 + 65) sc_lower sc_upper"
  by (simp add: sc_lower_def sc_upper_def bytes_of_def list_all2_append list_all2_same)

lemma sc_upper_letter:
  assumes "i < 128" and "97 \<le> sc_lower ! i" and "sc_lower ! i \<le> 122"
  shows "sc_upper ! i = sc_lower ! i - 97 + 65"
  using list_all2_nthD [OF sc_letters, of i] assms by (simp add: sc_tables_length)

lemma mouse_ok_pkt: "mouse_ok m \<Longrightarrow> n < 3 \<Longrightarrow> mouse_ok (m\<lparr>s_pkt := (s_pkt m)[i := b], s_pkt_len := n\<rparr>)"
  by (simp add: mouse_ok_def)

lemma mouse_pending_pkt [simp]:
  "mouse_pending (m\<lparr>s_pkt := p, s_pkt_len := n\<rparr>) = mouse_pending m"
  "mouse_pending (m\<lparr>s_pkt := p\<rparr>) = mouse_pending m" "mouse_pending (m\<lparr>s_pkt_len := n\<rparr>) = mouse_pending m"
  by (simp_all add: mouse_pending_def)

lemma mouse_byte_ok [invar_intros]: "mouse_ok m \<Longrightarrow> mouse_ok (mouse_byte sb m)"
  using mq.push_invar [of "m\<lparr>s_pkt := (s_pkt m)[s_pkt_len m := snd sb], s_pkt_len := 0\<rparr>"] mouse_ok_pkt
  by (auto simp: mouse_byte_def Let_def split: prod.splits)

lemma mouse_irq_ok [invar_intros]: "mouse_ok m \<Longrightarrow> mouse_ok (mouse_irq io m)"
proof -
  have "mouse_ok m \<Longrightarrow> mouse_ok (mouse_irq_loop io m)" for m
    by (induction io m rule: mouse_irq_loop.induct) (simp_all add: mouse_byte_ok)
  then show "mouse_ok m \<Longrightarrow> mouse_ok (mouse_irq io m)"
    by (simp add: mouse_irq_def)
qed

definition mouse_demo :: mouse where
  "mouse_demo = mouse_start\<lparr>s_mouse_ready := True\<rparr>"

lemma mouse_demo_ok: "mouse_ok mouse_demo" "s_pkt_len mouse_demo = 0" "mouse_pending mouse_demo = []"
  "s_mouse_ready mouse_demo"
  by (simp_all add: mouse_demo_def mouse_start_def mouse_ok_def ring_ok_def mouse_pending_def
      ring_list_def ring_len_def)

section \<open>Properties\<close>

text \<open>
  One keyboard interrupt appends to the raw scancode queue exactly the keyboard's own bytes among
  the at most 32 the controller delivers, in order, dropping the newest when the queue holds 255; the
  ring indices stay in range.
\<close>

theorem keyboard_irq_raw_queue:
  assumes "kbd_ok k"
  shows "kbd_ok (keyboard_irq io k) \<and>
         kbd_raw_pending (keyboard_irq io k) =
           kbd_raw_pending k @ take (255 - length (kbd_raw_pending k)) (kbd_bytes 32 io)"
  unfolding keyboard_irq_def using assms by (rule keyboard_irq_loop_raw)

theorem keyboard_irq_raw_queue_witness:
  "kbd_ok kbd_start \<and> kbd_raw_pending (keyboard_irq [(1, 0x1E), (0x21, 7), (1, 0x9E)] kbd_start) = [0x1E, 0x9E]"
  using keyboard_irq_raw_queue [OF kbd_start_ok(1), of "[(1, 0x1E), (0x21, 7), (1, 0x9E)]"] kbd_start_ok
  by (simp add: kbd_bytes_def)

text \<open>
  Characters come out of \<open>keyboard_poll\<close> in the order in which they were pushed.
\<close>

theorem keyboard_poll_fifo:
  assumes "kbd_ok k" and "length (kbd_pending k) + length cs \<le> 255"
  shows "fst (pop_upto (poll_pop keyboard_poll) (length (kbd_pending k) + length cs) (push_all kbd_push cs k))
           = kbd_pending k @ cs"
  using assms by (rule kq.fifo)

theorem keyboard_poll_fifo_witness:
  "fst (pop_upto (poll_pop keyboard_poll) 3 (push_all kbd_push [104, 105, 10] kbd_start)) = [104, 105, 10]"
  using keyboard_poll_fifo [OF kbd_start_ok(1), of "[104, 105, 10]"] kbd_start_ok
  by (simp add: numeral_3_eq_3)

text \<open>
  Pressing a letter key (outside an extended sequence) enqueues the letter, in upper case exactly
  when shift is held or caps lock is on.
\<close>

theorem letter_key_case:
  assumes "\<not> e0_pending k" and "sc < 0x80" and "97 \<le> sc_lower ! unat sc" and "sc_lower ! unat sc \<le> 122"
  shows "kbd_handle_byte sc k =
           kbd_push (if shift_held k \<or> caps_lock k then sc_lower ! unat sc - 97 + 65 else sc_lower ! unat sc) k"
proof -
  have lt: "unat sc < 128"
    using assms(2) by (simp add: word_less_nat_alt)
  have low: "sc AND 0x7F = sc"
    using less_mask_eq [of sc 7] assms(2) by (simp add: mask_eq_exp_minus_1)
  have "sc AND 0x80 = (sc AND 0x7F) AND 0x80"
    by (simp only: low)
  also have "\<dots> = 0"
    by (simp add: and.assoc)
  finally have high: "sc AND 0x80 = 0" .
  have "sc_lower ! unat sc - 97 + 65 \<noteq> 0" and "sc_lower ! unat sc \<noteq> 0"
    using assms(3,4) by (auto simp: word_le_nat_alt unat_word_ariths unat_eq_0)
  moreover have "sc \<noteq> 0xE0" and "sc \<noteq> 0x2A" and "sc \<noteq> 0x36" and "sc \<noteq> 0x3A"
    using assms(2,3,4) by (auto simp: sc_lower_def bytes_of_def)
  ultimately show ?thesis
    using assms low high lt sc_upper_letter [OF lt assms(3,4)]
    by (simp add: kbd_handle_byte_def Let_def key_char_def)
qed

theorem letter_key_case_witness:
  "kbd_handle_byte 0x1E (kbd_start\<lparr>shift_held := True\<rparr>) = kbd_push 65 (kbd_start\<lparr>shift_held := True\<rparr>)"
proof -
  let ?k = "kbd_start\<lparr>shift_held := True\<rparr>"
  have e: "\<not> e0_pending ?k" by (simp add: kbd_start_def)
  have sc: "(0x1E :: u8) < 0x80" "sc_lower ! unat (0x1E :: u8) = 97"
    by (simp_all add: sc_lower_def bytes_of_def)
  show ?thesis
    using letter_key_case [OF e sc(1)] sc by simp
qed

text \<open>
  Three mouse bytes that start at a packet boundary with the sync bit set form one packet: signed
  movements and three button bits, appended to the packet queue (or dropped when it holds 63).
\<close>

theorem mouse_packet_decoded:
  assumes "mouse_ok m" and "s_mouse_ready m" and "s_pkt_len m = 0" and "b0 AND 0x08 \<noteq> 0"
  shows "mouse_pending (mouse_irq [(0x21, b0), (0x21, b1), (0x21, b2)] m) =
           mouse_pending m @ take (63 - length (mouse_pending m)) [(sint b1, sint b2, b0 AND 7)] \<and>
         s_pkt_len (mouse_irq [(0x21, b0), (0x21, b1), (0x21, b2)] m) = 0"
proof -
  obtain x y z where pkt: "s_pkt m = [x, y, z]"
    using assms(1) by (auto simp: mouse_ok_def numeral_3_eq_3 length_Suc_conv)
  let ?m = "m\<lparr>s_pkt := [b0, b1, b2], s_pkt_len := 0\<rparr>"
  have ok: "mouse_ok ?m" using assms(1) by (simp add: mouse_ok_def)
  have irq: "mouse_irq [(0x21, b0), (0x21, b1), (0x21, b2)] m = mouse_enqueue (sint b1, sint b2, b0 AND 7) ?m"
    using assms pkt by (simp add: mouse_irq_def mouse_byte_def Let_def)
  have "s_pkt_len (mouse_enqueue p m) = s_pkt_len m" for p m
    by (simp add: mouse_enqueue_def Let_def)
  moreover have "mouse_pending (mouse_enqueue (sint b1, sint b2, b0 AND 7) ?m) =
      mouse_pending m @ take (63 - length (mouse_pending m)) [(sint b1, sint b2, b0 AND 7)]"
    using mq.push_all_pending [OF ok, of "[(sint b1, sint b2, b0 AND 7)]"] by simp
  ultimately show ?thesis
    by (simp add: irq)
qed

theorem mouse_packet_decoded_witness:
  "mouse_pending (mouse_irq [(0x21, 0x09), (0x21, 0xFF), (0x21, 2)] mouse_demo) = [(-1, 2, 1)]"
proof -
  have "(0x09 :: u8) AND 0x08 \<noteq> 0" by simp
  from mouse_packet_decoded [OF mouse_demo_ok(1,4,2) this, of "0xFF" 2] mouse_demo_ok(3) show ?thesis
    by simp
qed

end
