(* ===== verification/Vfs.thy ===== *)
theory Vfs
  imports Shm Console Input
begin

text \<open>
  \<^verbatim>\<open>src/fs/vfs.c\<close>, \<^verbatim>\<open>src/fs/devfs.c\<close> and the port accesses of \<^verbatim>\<open>src/drivers/serial.c\<close>
  that they reach: the in-memory file system with its node table, descriptor table, file contents in the kernel heap and
  character devices. A path or a name is a C string without its terminator. Reads return the bytes stored in the
  caller's buffer, writes take the bytes of it. The bytes waiting in the serial port and those sent to it are
  lists; the devices' own state is that of their drivers' theories.
\<close>

section \<open>State\<close>

abbreviation (input) VFS_NAME_MAX :: nat where "VFS_NAME_MAX \<equiv> 64"
abbreviation (input) VFS_MAX_NODES :: nat where "VFS_MAX_NODES \<equiv> 256"
abbreviation (input) VFS_MAX_FDS :: nat where "VFS_MAX_FDS \<equiv> 64"
abbreviation (input) VFS_INODE_ROOT :: u32 where "VFS_INODE_ROOT \<equiv> 0"

datatype VFSNodeType = VFS_FILE | VFS_DIR | VFS_CHR

abbreviation (input) DEV_FB_MAJOR :: u16 where "DEV_FB_MAJOR \<equiv> 29"
abbreviation (input) DEV_NULL_MAJOR :: u16 where "DEV_NULL_MAJOR \<equiv> 1"
abbreviation (input) DEV_NULL_MINOR :: u16 where "DEV_NULL_MINOR \<equiv> 3"
abbreviation (input) DEV_SHM_MAJOR :: u16 where "DEV_SHM_MAJOR \<equiv> 24"
abbreviation (input) DEV_KEYBOARD_MAJOR :: u16 where "DEV_KEYBOARD_MAJOR \<equiv> 11"
abbreviation (input) DEV_MOUSE_MAJOR :: u16 where "DEV_MOUSE_MAJOR \<equiv> 12"
abbreviation (input) DEV_SERIAL_MAJOR :: u16 where "DEV_SERIAL_MAJOR \<equiv> 4"

record vfs_node =
  n_used :: bool
  n_type :: VFSNodeType
  n_inode :: u32
  n_parent :: u32
  n_major :: u16
  n_minor :: u16
  n_name :: string
  n_data :: u64
  n_size :: u64
  n_capacity :: u64

record fd_entry =
  f_open :: bool
  f_inode :: u32
  f_offset :: u64
  f_flags :: int

record vfs = shm +
  nodes :: "vfs_node list"
  next_inode :: u32
  vfs_cwd :: u32
  fds :: "fd_entry list"
  kbd_dev :: kbd
  mouse_dev :: mouse
  serial_in :: "u8 list"
  serial_out :: "u8 list"
  con :: console

definition node_zero :: vfs_node where
  "node_zero = \<lparr>n_used = False, n_type = VFS_FILE, n_inode = 0, n_parent = 0, n_major = 0, n_minor = 0,
                n_name = '''', n_data = 0, n_size = 0, n_capacity = 0\<rparr>"

definition fd_zero :: fd_entry where
  "fd_zero = \<lparr>f_open = False, f_inode = 0, f_offset = 0, f_flags = 0\<rparr>"

text \<open>Flag tests \<^verbatim>\<open>flags & VFS_O_...\<close>.\<close>

definition o_read :: "int \<Rightarrow> bool" where "o_read flags = bit flags 0"
definition o_write :: "int \<Rightarrow> bool" where "o_write flags = bit flags 1"
definition o_create :: "int \<Rightarrow> bool" where "o_create flags = bit flags 2"
definition o_trunc :: "int \<Rightarrow> bool" where "o_trunc flags = bit flags 3"

definition vfs_set_cwd :: "u32 \<Rightarrow> 'a vfs_scheme \<Rightarrow> 'a vfs_scheme" where
  "vfs_set_cwd inode s = s\<lparr>vfs_cwd := inode\<rparr>"

section \<open>Nodes and paths\<close>

text \<open>Pointers into the node table are indices.\<close>

definition node_get :: "vfs_node list \<Rightarrow> u32 \<Rightarrow> nat option" where
  "node_get ns inode = find_idx (\<lambda>n. n_used n \<and> n_inode n = inode) ns"

definition node_alloc :: "'a vfs_scheme \<Rightarrow> (nat \<times> 'a vfs_scheme) option" where
  "node_alloc s =
     (case find_idx (\<lambda>n. \<not> n_used n) (nodes s) of
        None \<Rightarrow> None
      | Some i \<Rightarrow> Some (i, s\<lparr>nodes := (nodes s)[i := node_zero]\<rparr>))"

definition put_node :: "nat \<Rightarrow> vfs_node \<Rightarrow> 'a vfs_scheme \<Rightarrow> 'a vfs_scheme" where
  "put_node i n s = s\<lparr>nodes := (nodes s)[i := n]\<rparr>"

definition path_comp :: "string \<Rightarrow> string" where
  "path_comp path = takeWhile (\<lambda>c. c \<noteq> CHR ''/'') (take (VFS_NAME_MAX - 1) path)"

definition skip_slash :: "string \<Rightarrow> string" where
  "skip_slash path = (case path of [] \<Rightarrow> [] | c # cs \<Rightarrow> if c = CHR ''/'' then cs else path)"

definition path_rest :: "string \<Rightarrow> string" where
  "path_rest path = skip_slash (drop (length (path_comp path)) path)"

lemma path_rest_shorter: "path \<noteq> [] \<Longrightarrow> length (path_rest path) < length path"
proof (cases path)
  case (Cons c cs)
  show ?thesis
  proof (cases "c = CHR ''/''")
    case True
    with Cons show ?thesis by (simp add: path_rest_def path_comp_def skip_slash_def)
  next
    case False
    have "length (skip_slash xs) \<le> length xs" for xs by (simp add: skip_slash_def split: list.splits)
    moreover have "path_comp path \<noteq> []" using Cons False by (simp add: path_comp_def)
    ultimately show ?thesis
      using Cons by (simp add: path_rest_def) (metis diff_less_Suc le_less_trans length_drop length_greater_0_conv
          length_Cons less_le_trans zero_less_Suc diff_less not_le)
  qed
qed simp

text \<open>The loop of \<open>vfs_resolve\<close> over the components of the path.\<close>

function vfs_walk :: "vfs_node list \<Rightarrow> string \<Rightarrow> u32 \<Rightarrow> u32 option" where
  "vfs_walk ns path cur =
     (if path = [] then Some cur
      else let comp = path_comp path; rest = path_rest path
           in if comp = ''.'' then vfs_walk ns rest cur
              else if comp = ''..'' then
                vfs_walk ns rest (case node_get ns cur of None \<Rightarrow> cur | Some i \<Rightarrow> n_parent (ns ! i))
              else case find_idx (\<lambda>n. n_used n \<and> n_parent n = cur \<and> n_name n = comp) ns of
                     None \<Rightarrow> None
                   | Some i \<Rightarrow> vfs_walk ns rest (n_inode (ns ! i)))"
  by pat_completeness auto
termination
  by (relation "measure (\<lambda>(ns, path, cur). length path)") (auto simp: path_rest_shorter)

declare vfs_walk.simps [simp del]

definition vfs_resolve :: "string \<Rightarrow> 'a vfs_scheme \<Rightarrow> int" where
  "vfs_resolve path s =
     (if path = [] then sint (vfs_cwd s)
      else let cur = (if hd path = CHR ''/'' then VFS_INODE_ROOT else vfs_cwd s)
           in case vfs_walk (nodes s) (skip_slash path) cur of
                None \<Rightarrow> - 1
              | Some c \<Rightarrow> sint c)"

definition leaf_of :: "string \<Rightarrow> string" where
  "leaf_of path = rev (takeWhile (\<lambda>c. c \<noteq> CHR ''/'') (rev path))"

definition resolve_parent :: "string \<Rightarrow> 'a vfs_scheme \<Rightarrow> int \<times> string" where
  "resolve_parent path s =
     (if CHR ''/'' \<notin> set path then (sint (vfs_cwd s), take (VFS_NAME_MAX - 1) path)
      else let leaf = leaf_of path;
               plen = length path - length leaf - 1;
               parent_path = (if plen = 0 then ''/'' else take (min plen 255) path)
           in (vfs_resolve parent_path s, take (VFS_NAME_MAX - 1) leaf))"

text \<open>
  The tail that \<open>vfs_mkdir\<close>, \<open>vfs_mknod_chr\<close> and the creating branch of \<open>vfs_open\<close> share: check the
  parent, take a free node and fill it in.
\<close>

definition make_node :: "VFSNodeType \<Rightarrow> u16 \<Rightarrow> u16 \<Rightarrow> int \<Rightarrow> string \<Rightarrow> 'a vfs_scheme \<Rightarrow> (u32 \<times> 'a vfs_scheme) option" where
  "make_node ty major minor parent leaf s =
     (case node_get (nodes s) (word_of_int parent) of
        None \<Rightarrow> None
      | Some p \<Rightarrow>
          if n_type (nodes s ! p) \<noteq> VFS_DIR then None
          else case node_alloc s of
                 None \<Rightarrow> None
               | Some (i, s1) \<Rightarrow>
                   Some (next_inode s1,
                     (put_node i (node_zero\<lparr>n_used := True, n_type := ty, n_inode := next_inode s1,
                        n_parent := word_of_int parent, n_major := major, n_minor := minor, n_name := leaf\<rparr>) s1)
                        \<lparr>next_inode := next_inode s1 + 1\<rparr>))"

definition vfs_mkdir :: "string \<Rightarrow> 'a vfs_scheme \<Rightarrow> int \<times> 'a vfs_scheme" where
  "vfs_mkdir path s =
     (if vfs_resolve path s \<ge> 0 then (- 1, s)
      else case resolve_parent path s of (parent, leaf) \<Rightarrow>
        if parent < 0 \<or> leaf = [] then (- 1, s)
        else case make_node VFS_DIR 0 0 parent leaf s of
               None \<Rightarrow> (- 1, s)
             | Some (_, s1) \<Rightarrow> (0, s1))"

definition vfs_mknod_chr :: "string \<Rightarrow> u16 \<Rightarrow> u16 \<Rightarrow> 'a vfs_scheme \<Rightarrow> int \<times> 'a vfs_scheme" where
  "vfs_mknod_chr path major minor s =
     (if vfs_resolve path s \<ge> 0 then (- 1, s)
      else case resolve_parent path s of (parent, leaf) \<Rightarrow>
        if parent < 0 \<or> leaf = [] then (- 1, s)
        else case make_node VFS_CHR major minor parent leaf s of
               None \<Rightarrow> (- 1, s)
             | Some (_, s1) \<Rightarrow> (0, s1))"

definition root_node :: vfs_node where
  "root_node = node_zero\<lparr>n_used := True, n_type := VFS_DIR, n_inode := VFS_INODE_ROOT,
                          n_parent := VFS_INODE_ROOT, n_name := ''/''\<rparr>"

definition vfs_init :: "'a vfs_scheme \<Rightarrow> 'a vfs_scheme" where
  "vfs_init s =
     fold (\<lambda>d s. snd (vfs_mkdir d s))
       [''/bin'', ''/etc'', ''/tmp'', ''/home'', ''/usr'', ''/usr/bin'', ''/var'', ''/var/cache'']
       (s\<lparr>nodes := (replicate VFS_MAX_NODES node_zero)[0 := root_node], fds := replicate VFS_MAX_FDS fd_zero,
          next_inode := 1\<rparr>)"

definition devfs_init :: "'a vfs_scheme \<Rightarrow> 'a vfs_scheme" where
  "devfs_init s =
     (let s1 = (if vfs_resolve ''/dev'' s < 0 then snd (vfs_mkdir ''/dev'' s) else s);
          s2 = snd (vfs_mkdir ''/dev/shm'' s1);
          s3 = snd (vfs_mkdir ''/dev/input'' s2);
          s4 = snd (vfs_mknod_chr ''/dev/fb0'' DEV_FB_MAJOR 0 s3);
          s5 = snd (vfs_mknod_chr ''/dev/null'' DEV_NULL_MAJOR DEV_NULL_MINOR s4);
          s6 = snd (vfs_mknod_chr ''/dev/input/keyboard'' DEV_KEYBOARD_MAJOR 0 s5);
          s7 = snd (vfs_mknod_chr ''/dev/input/mouse'' DEV_MOUSE_MAJOR 0 s6)
      in snd (vfs_mknod_chr ''/dev/ttyS0'' DEV_SERIAL_MAJOR 0 s7))"

section \<open>Descriptors\<close>

definition fd_bad :: "int \<Rightarrow> 'a vfs_scheme \<Rightarrow> bool" where
  "fd_bad fd s \<longleftrightarrow> fd < 0 \<or> fd \<ge> int VFS_MAX_FDS \<or> \<not> f_open (fds s ! nat fd)"

definition fd_free :: "'a vfs_scheme \<Rightarrow> nat option" where
  "fd_free s = map_option (\<lambda>i. i + 3) (find_idx (\<lambda>f. \<not> f_open f) (drop 3 (fds s)))"

definition put_fd :: "nat \<Rightarrow> fd_entry \<Rightarrow> 'a vfs_scheme \<Rightarrow> 'a vfs_scheme" where
  "put_fd i f s = s\<lparr>fds := (fds s)[i := f]\<rparr>"

text \<open>
  The first half of \<open>vfs_open\<close>: the inode to open, or -1 when the file has to be created. The left
  component is an early return.
\<close>

definition open_lookup :: "string \<Rightarrow> int \<Rightarrow> 'a vfs_scheme \<Rightarrow> (int + int) \<times> 'a vfs_scheme" where
  "open_lookup path flags s =
     (if take 9 path = ''/dev/shm/'' then
        case shm_open_object (drop 9 path) s of (shm_idx, s1) \<Rightarrow>
          if shm_idx < 0 then (Inl shm_idx, s1)
          else if vfs_resolve path s1 < 0 then
            if \<not> o_create flags then (Inl (- 1), s1)
            else case vfs_mknod_chr path DEV_SHM_MAJOR (word_of_int shm_idx) s1 of (r, s2) \<Rightarrow>
                   if r < 0 then (Inl (- 1), s2) else (Inr (vfs_resolve path s2), s2)
          else (Inr (vfs_resolve path s1), s1)
      else (Inr (vfs_resolve path s), s))"

definition open_create :: "string \<Rightarrow> int \<Rightarrow> 'a vfs_scheme \<Rightarrow> (int + int) \<times> 'a vfs_scheme" where
  "open_create path flags s =
     (if \<not> o_create flags then (Inl (- 1), s)
      else case resolve_parent path s of (parent, leaf) \<Rightarrow>
        if parent < 0 then (Inl (- 1), s)
        else case make_node VFS_FILE 0 0 parent leaf s of
               None \<Rightarrow> (Inl (- 1), s)
             | Some (ino, s1) \<Rightarrow> (Inr (sint ino), s1))"

definition open_finish :: "nat \<Rightarrow> int \<Rightarrow> int \<Rightarrow> 'a vfs_scheme \<Rightarrow> (int \<times> 'a vfs_scheme) res" where
  "open_finish fd inode flags s =
     (case node_get (nodes s) (word_of_int inode) of
        None \<Rightarrow> Inr (- 1, s)
      | Some i \<Rightarrow>
          let n = nodes s ! i
          in if n_type n \<noteq> VFS_FILE \<and> n_type n \<noteq> VFS_CHR then Inr (- 1, s)
             else case (if o_trunc flags \<and> n_type n = VFS_FILE
                        then case kfree (n_data n) s of
                               Inl e \<Rightarrow> Inl e
                             | Inr s1 \<Rightarrow> Inr (put_node i (n\<lparr>n_data := 0, n_size := 0, n_capacity := 0\<rparr>) s1)
                        else Inr s) of
                    Inl e \<Rightarrow> Inl e
                  | Inr s1 \<Rightarrow>
                      Inr (int fd, put_fd fd \<lparr>f_open = True, f_inode = word_of_int inode,
                             f_offset = (if o_write flags \<and> \<not> o_trunc flags then n_size (nodes s1 ! i) else 0),
                             f_flags = flags\<rparr> s1))"

definition vfs_open :: "string \<Rightarrow> int \<Rightarrow> 'a vfs_scheme \<Rightarrow> (int \<times> 'a vfs_scheme) res" where
  "vfs_open path flags s =
     (case fd_free s of
        None \<Rightarrow> Inr (- 1, s)
      | Some fd \<Rightarrow>
          (case open_lookup path flags s of
             (Inl r, s1) \<Rightarrow> Inr (r, s1)
           | (Inr inode, s1) \<Rightarrow>
               if inode < 0 then
                 case open_create path flags s1 of
                   (Inl r, s2) \<Rightarrow> Inr (r, s2)
                 | (Inr inode', s2) \<Rightarrow> open_finish fd inode' flags s2
               else open_finish fd inode flags s1))"

definition vfs_open_std :: "string \<Rightarrow> int \<Rightarrow> int \<Rightarrow> 'a vfs_scheme \<Rightarrow> int \<times> 'a vfs_scheme" where
  "vfs_open_std path flags target_fd s =
     (if target_fd < 0 \<or> target_fd \<ge> 3 then (- 1, s)
      else if f_open (fds s ! nat target_fd) then (- 1, s)
      else let inode = vfs_resolve path s
           in if inode < 0 then (- 1, s)
              else case node_get (nodes s) (word_of_int inode) of
                     None \<Rightarrow> (- 1, s)
                   | Some i \<Rightarrow>
                       if n_type (nodes s ! i) \<noteq> VFS_FILE \<and> n_type (nodes s ! i) \<noteq> VFS_CHR then (- 1, s)
                       else (target_fd, put_fd (nat target_fd) \<lparr>f_open = True, f_inode = word_of_int inode,
                                          f_offset = 0, f_flags = flags\<rparr> s))"

definition vfs_close :: "int \<Rightarrow> 'a vfs_scheme \<Rightarrow> int \<times> 'a vfs_scheme" where
  "vfs_close fd s =
     (if fd_bad fd s then (- 1, s)
      else (0, put_fd (nat fd) ((fds s ! nat fd)\<lparr>f_open := False\<rparr>) s))"

definition vfs_dup :: "int \<Rightarrow> 'a vfs_scheme \<Rightarrow> int \<times> 'a vfs_scheme" where
  "vfs_dup oldfd s =
     (if fd_bad oldfd s then (- EBADF, s)
      else case fd_free s of
             None \<Rightarrow> (- EMFILE, s)
           | Some newfd \<Rightarrow> (int newfd, put_fd newfd (fds s ! nat oldfd) s))"

definition vfs_dup2 :: "int \<Rightarrow> int \<Rightarrow> 'a vfs_scheme \<Rightarrow> int \<times> 'a vfs_scheme" where
  "vfs_dup2 oldfd newfd s =
     (if fd_bad oldfd s then (- EBADF, s)
      else if newfd < 0 \<or> newfd \<ge> int VFS_MAX_FDS then (- EBADF, s)
      else if oldfd = newfd then (newfd, s)
      else (newfd, put_fd (nat newfd) (fds s ! nat oldfd) s))"

definition vfs_node_from_fd :: "int \<Rightarrow> 'a vfs_scheme \<Rightarrow> nat option" where
  "vfs_node_from_fd fd s = (if fd_bad fd s then None else node_get (nodes s) (f_inode (fds s ! nat fd)))"

definition vfs_lseek :: "int \<Rightarrow> int \<Rightarrow> int \<Rightarrow> 'a vfs_scheme \<Rightarrow> int \<times> 'a vfs_scheme" where
  "vfs_lseek fd offset whence s =
     (if fd_bad fd s then (- EBADF, s)
      else let f = fds s ! nat fd
           in case node_get (nodes s) (f_inode f) of
                None \<Rightarrow> (- EBADF, s)
              | Some i \<Rightarrow>
                  if n_type (nodes s ! i) = VFS_CHR then (0, s)
                  else if whence \<notin> {0, 1, 2} then (- EINVAL, s)
                  else let new_offset = (if whence = 0 then offset
                                         else if whence = 1 then c_int64 (f_offset f) + offset
                                         else c_int64 (n_size (nodes s ! i)) + offset)
                       in if new_offset < 0 then (- EINVAL, s)
                          else (new_offset, put_fd (nat fd) (f\<lparr>f_offset := word_of_int new_offset\<rparr>) s))"

definition vfs_fcntl :: "int \<Rightarrow> int \<Rightarrow> int \<Rightarrow> 'a vfs_scheme \<Rightarrow> int \<times> 'a vfs_scheme" where
  "vfs_fcntl fd cmd arg s =
     (if fd_bad fd s then (- EBADF, s)
      else if cmd = 3 then (f_flags (fds s ! nat fd), s)
      else if cmd = 4 then (0, put_fd (nat fd) ((fds s ! nat fd)\<lparr>f_flags := c_int (word_of_int arg)\<rparr>) s)
      else (- EINVAL, s))"

section \<open>Character devices\<close>

text \<open>
  The transmitter of the serial port is always ready in the end, so \<open>serial_putchar\<close> sends its bytes; the
  receiver is ready exactly when a byte is waiting, and \<open>serial_getchar\<close> never returns without one.
\<close>

definition serial_received :: "'a vfs_scheme \<Rightarrow> bool" where
  "serial_received s \<longleftrightarrow> serial_in s \<noteq> []"

definition serial_getchar :: "'a vfs_scheme \<Rightarrow> (u8 \<times> 'a vfs_scheme) res" where
  "serial_getchar s =
     (case serial_in s of [] \<Rightarrow> Inl Diverges | c # cs \<Rightarrow> Inr (c, s\<lparr>serial_in := cs\<rparr>))"

definition serial_putchar :: "u8 \<Rightarrow> 'a vfs_scheme \<Rightarrow> 'a vfs_scheme" where
  "serial_putchar c s = s\<lparr>serial_out := serial_out s @ (if c = 10 then [13, 10] else [c])\<rparr>"

definition serial_puts :: "u8 list \<Rightarrow> 'a vfs_scheme \<Rightarrow> 'a vfs_scheme" where
  "serial_puts cs s = fold serial_putchar (takeWhile (\<lambda>c. c \<noteq> 0) cs) s"

fun serial_read_loop :: "nat \<Rightarrow> u8 list \<Rightarrow> 'a vfs_scheme \<Rightarrow> (u8 list \<times> 'a vfs_scheme) res" where
  "serial_read_loop 0 acc s = Inr (acc, s)"
| "serial_read_loop (Suc n) acc s =
     (if \<not> serial_received s then Inr (acc, s)
      else case serial_getchar s of Inl e \<Rightarrow> Inl e | Inr (c, s1) \<Rightarrow> serial_read_loop n (acc @ [c]) s1)"

definition mouse_pkt :: "int \<times> int \<times> u8 \<Rightarrow> u8 list" where
  "mouse_pkt p = (case p of (dx, dy, buttons) \<Rightarrow> [word_of_int dx, word_of_int dy, buttons])"

definition devfs_chr_read :: "vfs_node \<Rightarrow> u64 \<Rightarrow> u64 \<Rightarrow> 'a vfs_scheme \<Rightarrow> (int \<times> u8 list \<times> u64 \<times> 'a vfs_scheme) res" where
  "devfs_chr_read n len off s =
     (if n_type n \<noteq> VFS_CHR then Inr (- EIO, [], off, s)
      else if n_major n = DEV_NULL_MAJOR then Inr (0, [], off, s)
      else if n_major n = DEV_FB_MAJOR then Inr (0, [], off, s)
      else if n_major n = DEV_SHM_MAJOR then
        (case shm_read (uint (n_minor n)) len off s of
           Inl e \<Rightarrow> Inl e
         | Inr (r, bs, off') \<Rightarrow> Inr (r, bs, off', s))
      else if n_major n = DEV_KEYBOARD_MAJOR then
        (case pop_upto (poll_pop keyboard_poll_raw) (unat len) (kbd_dev s) of (bs, k) \<Rightarrow>
           Inr (int (length bs), bs, off, s\<lparr>kbd_dev := k\<rparr>))
      else if n_major n = DEV_MOUSE_MAJOR then
        (if len < 3 then Inr (- EINVAL, [], off, s)
         else case pop_upto mouse_poll (unat len div 3) (mouse_dev s) of (ps, m) \<Rightarrow>
           Inr (int (3 * length ps), concat (map mouse_pkt ps), off, s\<lparr>mouse_dev := m\<rparr>))
      else if n_major n = DEV_SERIAL_MAJOR then
        (case serial_read_loop (unat len) [] s of
           Inl e \<Rightarrow> Inl e
         | Inr (bs, s1) \<Rightarrow> Inr (int (length bs), bs, off, s1))
      else Inr (- ENODEV, [], off, s))"

definition devfs_chr_write :: "vfs_node \<Rightarrow> u8 list \<Rightarrow> u64 \<Rightarrow> 'a vfs_scheme \<Rightarrow> (int \<times> u64 \<times> 'a vfs_scheme) res" where
  "devfs_chr_write n buf off s =
     (if n_type n \<noteq> VFS_CHR then Inr (- EIO, off, s)
      else if n_major n = DEV_NULL_MAJOR then Inr (c_int (of_nat (length buf)), off, s)
      else if n_major n = DEV_FB_MAJOR then Inr (- EINVAL, off, s)
      else if n_major n = DEV_SHM_MAJOR then shm_write (uint (n_minor n)) buf off s
      else if n_major n = DEV_SERIAL_MAJOR then
        Inr (c_int (of_nat (length buf)), off, fold serial_putchar buf s)
      else Inr (- ENODEV, off, s))"

text \<open>Little-endian encodings of the fields of a packed struct.\<close>

definition le16 :: "u16 \<Rightarrow> u8 list" where "le16 w = map (\<lambda>i. ucast (drop_bit (8 * i) w)) [0..<2]"
definition le32 :: "u32 \<Rightarrow> u8 list" where "le32 w = map (\<lambda>i. ucast (drop_bit (8 * i) w)) [0..<4]"
definition le64 :: "u64 \<Rightarrow> u8 list" where "le64 w = map (\<lambda>i. ucast (drop_bit (8 * i) w)) [0..<8]"

definition fb_fix_screeninfo :: "u64 \<Rightarrow> u32 \<Rightarrow> u32 \<Rightarrow> u32 \<Rightarrow> u32 \<Rightarrow> u8 list" where
  "fb_fix_screeninfo smem_start smem_len line_length typ visual =
     bytes_of ''VNLFB'' @ replicate 11 0 @ le64 smem_start @ le32 smem_len @ le32 typ @ le32 0 @ le32 visual @
     replicate 6 0 @ le32 line_length @ replicate 20 0"

definition fb_var_screeninfo :: "u32 \<Rightarrow> u32 \<Rightarrow> u32 \<Rightarrow> u32 list \<Rightarrow> u8 list" where
  "fb_var_screeninfo xres yres bpp colour =
     concat (map le32 ([xres, yres, xres, yres, 0, 0, bpp, 0] @ colour @ replicate 23 0))"

text \<open>The second component is what the call stores at \<open>arg\<close>.\<close>

definition devfs_chr_ioctl :: "vfs_node \<Rightarrow> u64 \<Rightarrow> u64 \<Rightarrow> 'a vfs_scheme \<Rightarrow> int \<times> u8 list" where
  "devfs_chr_ioctl n request arg s =
     (if n_type n \<noteq> VFS_CHR \<or> arg = 0 then (- EINVAL, [])
      else if n_major n \<noteq> DEV_FB_MAJOR then (- ENOTTY, [])
      else if request = 0x4602 then
        (case fb_get_mmap_region (con s) of
           None \<Rightarrow> (- ENODEV, fb_fix_screeninfo 0 0 0 0 0)
         | Some (p0, ln, ll, w, h, bpp) \<Rightarrow>
             (0, fb_fix_screeninfo p0 (if ln > 0xFFFFFFFF then 0xFFFFFFFF else ucast ln) ll 1 2))
      else if request = 0x4600 then
        (case fb_get_mmap_region (con s) of
           None \<Rightarrow> (- ENODEV, fb_var_screeninfo 0 0 0 (replicate 9 0))
         | Some (p0, ln, ll, w, h, bpp) \<Rightarrow>
             (0, fb_var_screeninfo w h bpp [16, 8, 0, 8, 8, 0, 0, 8, 0]))
      else (- ENOTTY, []))"

section \<open>Reading and writing\<close>

definition vfs_ftruncate :: "int \<Rightarrow> u64 \<Rightarrow> 'a vfs_scheme \<Rightarrow> (int \<times> 'a vfs_scheme) res" where
  "vfs_ftruncate fd len s =
     (if fd_bad fd s then Inr (- EBADF, s)
      else case node_get (nodes s) (f_inode (fds s ! nat fd)) of
             None \<Rightarrow> Inr (- EBADF, s)
           | Some i \<Rightarrow>
               let n = nodes s ! i
               in if n_type n = VFS_CHR \<and> n_major n = DEV_SHM_MAJOR then shm_truncate (uint (n_minor n)) len s
                  else if n_type n = VFS_FILE then
                    if c_int64 len < 0 then Inr (- EINVAL, s)
                    else if len > n_capacity n then
                      let new_cap = ALIGN_UP (len + 256) PAGE_SIZE
                      in case krealloc (n_data n) new_cap s of
                           Inl e \<Rightarrow> Inl e
                         | Inr (new_data, s1) \<Rightarrow>
                             if new_data = 0 then Inr (- ENOMEM, s1)
                             else Inr (0, put_node i (n\<lparr>n_data := new_data, n_capacity := new_cap, n_size := len\<rparr>) s1)
                    else Inr (0, put_node i (n\<lparr>n_size := len\<rparr>) s)
                  else Inr (- EINVAL, s))"

definition vfs_read :: "int \<Rightarrow> u64 \<Rightarrow> 'a vfs_scheme \<Rightarrow> (int \<times> u8 list \<times> 'a vfs_scheme) res" where
  "vfs_read fd len s =
     (if fd_bad fd s then Inr (- 1, [], s)
      else let f = fds s ! nat fd
           in if \<not> o_read (f_flags f) then Inr (- 1, [], s)
              else case node_get (nodes s) (f_inode f) of
                None \<Rightarrow> Inr (- 1, [], s)
              | Some i \<Rightarrow>
                  let n = nodes s ! i
                  in if n_type n = VFS_CHR then
                       case devfs_chr_read n len (f_offset f) s of
                         Inl e \<Rightarrow> Inl e
                       | Inr (r, bs, off, s1) \<Rightarrow> Inr (r, bs, put_fd (nat fd) (f\<lparr>f_offset := off\<rparr>) s1)
                     else let avail = n_size n - f_offset f;
                              to_read = (if len < avail then len else avail)
                          in if avail = 0 then Inr (0, [], s)
                             else if n_data n = 0 \<and> to_read \<noteq> 0 then Inl NullDeref
                             else Inr (c_int to_read,
                                       load_bytes (hmem s) (unat (n_data n + f_offset f)) (unat to_read),
                                       put_fd (nat fd) (f\<lparr>f_offset := f_offset f + to_read\<rparr>) s))"

text \<open>The part of \<open>vfs_write\<close> that makes room for \<open>new_end\<close> bytes; \<open>None\<close> is its early return.\<close>

definition write_reserve :: "u64 \<Rightarrow> vfs_node \<Rightarrow> 'a vfs_scheme \<Rightarrow> (vfs_node option \<times> 'a vfs_scheme) res" where
  "write_reserve new_end n s =
     (if new_end > n_capacity n then
        let new_cap = new_end + 256
        in case krealloc (n_data n) new_cap s of
             Inl e \<Rightarrow> Inl e
           | Inr (new_data, s1) \<Rightarrow>
               if new_data = 0 then Inr (None, s1)
               else Inr (Some (n\<lparr>n_data := new_data, n_capacity := new_cap\<rparr>), s1)
      else Inr (Some n, s))"

definition vfs_write :: "int \<Rightarrow> u8 list \<Rightarrow> 'a vfs_scheme \<Rightarrow> (int \<times> 'a vfs_scheme) res" where
  "vfs_write fd buf s =
     (if fd_bad fd s then Inr (- 1, s)
      else let f = fds s ! nat fd
           in if \<not> o_write (f_flags f) then Inr (- 1, s)
              else case node_get (nodes s) (f_inode f) of
                None \<Rightarrow> Inr (- 1, s)
              | Some i \<Rightarrow>
                  let n = nodes s ! i
                  in if n_type n = VFS_CHR then
                       case devfs_chr_write n buf (f_offset f) s of
                         Inl e \<Rightarrow> Inl e
                       | Inr (r, off, s1) \<Rightarrow> Inr (r, put_fd (nat fd) (f\<lparr>f_offset := off\<rparr>) s1)
                     else if n_type n \<noteq> VFS_FILE then Inr (- 1, s)
                     else let off = f_offset f; new_end = off + of_nat (length buf)
                          in case write_reserve new_end n s of
                               Inl e \<Rightarrow> Inl e
                             | Inr (None, s1) \<Rightarrow> Inr (- 1, s1)
                             | Inr (Some n1, s1) \<Rightarrow>
                                 if n_data n1 = 0 \<and> buf \<noteq> [] then Inl NullDeref
                                 else Inr (c_int (of_nat (length buf)),
                                        put_fd (nat fd) (f\<lparr>f_offset := new_end\<rparr>)
                                          (put_node i (n1\<lparr>n_size := (if new_end > n_size n1 then new_end else n_size n1)\<rparr>)
                                            (s1\<lparr>hmem := store_bytes (hmem s1) (unat (n_data n1 + off)) buf\<rparr>))))"

definition has_child :: "u32 \<Rightarrow> vfs_node list \<Rightarrow> bool" where
  "has_child ino ns \<longleftrightarrow> (\<exists>n \<in> set ns. n_used n \<and> n_parent n = ino)"

definition vfs_unlink :: "string \<Rightarrow> 'a vfs_scheme \<Rightarrow> (int \<times> 'a vfs_scheme) res" where
  "vfs_unlink path s =
     (let inode = vfs_resolve path s; ino = word_of_int inode
      in if inode < 0 then Inr (- 1, s)
         else if ino = VFS_INODE_ROOT then Inr (- 1, s)
         else case node_get (nodes s) ino of
                None \<Rightarrow> Inr (- 1, s)
              | Some i \<Rightarrow>
                  let n = nodes s ! i
                  in if n_type n = VFS_DIR \<and> has_child ino (nodes s) then Inr (- 1, s)
                     else case (if n_type n = VFS_CHR \<and> n_major n = DEV_SHM_MAJOR
                                then shm_destroy (uint (n_minor n)) s else Inr s) of
                            Inl e \<Rightarrow> Inl e
                          | Inr s1 \<Rightarrow>
                              (case kfree (n_data n) s1 of
                                 Inl e \<Rightarrow> Inl e
                               | Inr s2 \<Rightarrow> Inr (0, put_node i node_zero s2)))"

section \<open>Directories\<close>

definition dir_name :: "vfs_node \<Rightarrow> string" where
  "dir_name n =
     (let nm = take (VFS_NAME_MAX - 1) (n_name n)
      in if n_type n = VFS_DIR \<and> length nm < VFS_NAME_MAX - 1 then nm @ ''/'' else nm)"

definition children :: "u32 \<Rightarrow> vfs_node list \<Rightarrow> vfs_node list" where
  "children ino ns = filter (\<lambda>n. n_used n \<and> n_parent n = ino \<and> n_inode n \<noteq> ino) ns"

text \<open>The names stored are those of the first \<open>mx\<close> children in table order.\<close>

definition vfs_readdir :: "string \<Rightarrow> int \<Rightarrow> 'a vfs_scheme \<Rightarrow> int \<times> string list" where
  "vfs_readdir path mx s =
     (let inode = vfs_resolve path s; ino = word_of_int inode
      in if inode < 0 then (- 1, [])
         else case node_get (nodes s) ino of
                None \<Rightarrow> (- 1, [])
              | Some i \<Rightarrow>
                  if n_type (nodes s ! i) \<noteq> VFS_DIR then (- 1, [])
                  else let names = map dir_name (take (nat mx) (children ino (nodes s)))
                       in (int (length names), names))"

definition reclen :: "string \<Rightarrow> nat" where
  "reclen name = (19 + length name + 1 + 7) div 8 * 8"

definition dirent64 :: "u32 \<Rightarrow> u64 \<Rightarrow> u8 \<Rightarrow> string \<Rightarrow> u8 list" where
  "dirent64 ino off typ name =
     le64 (ucast ino) @ le64 off @ le16 (of_nat (reclen name)) @ [typ] @ bytes_of name @
     replicate (reclen name - 19 - length name) 0"

definition dirent_type :: "VFSNodeType \<Rightarrow> u8" where
  "dirent_type t = (case t of VFS_DIR \<Rightarrow> 4 | VFS_CHR \<Rightarrow> 2 | VFS_FILE \<Rightarrow> 8)"

text \<open>The loop over the nodes of the directory, from the first one not passed yet.\<close>

fun getdents_loop :: "nat \<Rightarrow> vfs_node list \<Rightarrow> u8 list \<Rightarrow> u64 \<Rightarrow> u8 list \<times> u64" where
  "getdents_loop count [] buf off = (buf, off)"
| "getdents_loop count (n # ns) buf off =
     (if length buf + reclen (n_name n) > count then (buf, off)
      else getdents_loop count ns
             (buf @ dirent64 (n_inode n) (off + 1) (dirent_type (n_type n)) (n_name n)) (off + 1))"

definition vfs_getdents64 :: "int \<Rightarrow> u64 \<Rightarrow> 'a vfs_scheme \<Rightarrow> int \<times> u8 list \<times> 'a vfs_scheme" where
  "vfs_getdents64 fd cnt s =
     (if fd_bad fd s then (- EBADF, [], s)
      else let f = fds s ! nat fd
           in case node_get (nodes s) (f_inode f) of
                None \<Rightarrow> (- ENOTDIR, [], s)
              | Some i \<Rightarrow>
                  let dir = nodes s ! i; count = unat cnt;
                      emit = (\<lambda>(buf, off). (c_int (of_nat (length buf)), buf, put_fd (nat fd) (f\<lparr>f_offset := off\<rparr>) s))
                  in if n_type dir \<noteq> VFS_DIR then (- ENOTDIR, [], s)
                     else let start = f_offset f in
                       if start = 0 \<and> 24 > count then emit ([], start)
                       else let (b0, o0) = (if start = 0 then (dirent64 (n_inode dir) 1 4 ''.'', 1) else ([], start)) in
                         if o0 = 1 \<and> length b0 + 24 > count then emit (b0, o0)
                         else let (b1, o1) = (if o0 = 1 then (b0 @ dirent64 (n_parent dir) 2 4 ''..'', 2) else (b0, o0)) in
                           emit (getdents_loop count (drop (unat (o1 - 2)) (children (n_inode dir) (nodes s))) b1 o1))"

definition vfs_stat :: "string \<Rightarrow> 'a vfs_scheme \<Rightarrow> (VFSNodeType \<times> u64) option" where
  "vfs_stat path s =
     (let inode = vfs_resolve path s
      in if inode < 0 then None
         else map_option (\<lambda>i. (n_type (nodes s ! i), n_size (nodes s ! i))) (node_get (nodes s) (word_of_int inode)))"

definition vfs_ioctl :: "int \<Rightarrow> u64 \<Rightarrow> u64 \<Rightarrow> 'a vfs_scheme \<Rightarrow> int \<times> u8 list" where
  "vfs_ioctl fd request arg s =
     (if fd_bad fd s then (- EBADF, [])
      else case node_get (nodes s) (f_inode (fds s ! nat fd)) of
             None \<Rightarrow> (- ENOTTY, [])
           | Some i \<Rightarrow>
               if n_type (nodes s ! i) \<noteq> VFS_CHR then (- ENOTTY, [])
               else devfs_chr_ioctl (nodes s ! i) request arg s)"

text \<open>
  \<open>vfs_getcwd\<close> fills \<open>tmp[1024]\<close> from its end: \<open>pos\<close> is the index of the first character stored
  and \<open>acc\<close> the string that starts there. When a name does not fit, \<open>pos\<close> has already moved in front of
  it, and \<open>tmp[pos]\<close> is read although it is outside the array or was never written. \<open>buf\<close> is the caller's
  array.
\<close>

function getcwd_loop :: "vfs_node list \<Rightarrow> u32 \<Rightarrow> nat \<Rightarrow> string \<Rightarrow> string res" where
  "getcwd_loop ns cur pos acc =
     (if cur = VFS_INODE_ROOT then Inr acc
      else case node_get ns cur of
             None \<Rightarrow> Inr acc
           | Some i \<Rightarrow>
               let name = n_name (ns ! i); l = length name
               in if pos < l + 1 then (if l = 0 then Inr acc else Inl OutOfBounds)
                  else getcwd_loop ns (n_parent (ns ! i)) (pos - l - 1) (''/'' @ name @ acc))"
  by pat_completeness auto
termination
  by (relation "measure (\<lambda>(ns, cur, pos, acc). pos)") auto

declare getcwd_loop.simps [simp del]

definition vfs_getcwd :: "string \<Rightarrow> nat \<Rightarrow> 'a vfs_scheme \<Rightarrow> string option res" where
  "vfs_getcwd buf bufsz s =
     (if bufsz = 0 then Inr None
      else if vfs_cwd s = VFS_INODE_ROOT then
        (case strncpy buf (cz ''/'') bufsz of None \<Rightarrow> Inl OutOfBounds | Some b \<Rightarrow> Inr (Some b))
      else case getcwd_loop (nodes s) (vfs_cwd s) 1023 [] of
             Inl e \<Rightarrow> Inl e
           | Inr path \<Rightarrow>
               (case strncpy buf (cz (if path = [] then ''/'' else path)) (bufsz - 1) of
                  None \<Rightarrow> Inl OutOfBounds
                | Some b \<Rightarrow> if bufsz \<le> length b then Inr (Some (b[bufsz - 1 := NUL])) else Inl OutOfBounds))"

section \<open>Contents of files\<close>

definition node_bytes :: "bmem \<Rightarrow> vfs_node \<Rightarrow> u8 list" where
  "node_bytes m n = load_bytes m (unat (n_data n)) (unat (n_size n))"

definition file_bytes :: "'a vfs_scheme \<Rightarrow> nat \<Rightarrow> u8 list" where
  "file_bytes s i = node_bytes (hmem s) (nodes s ! i)"

definition fdata_ok :: "(u64 \<rightharpoonup> nat) \<Rightarrow> vfs_node \<Rightarrow> bool" where
  "fdata_ok L n \<longleftrightarrow>
     unat (n_size n) \<le> unat (n_capacity n) \<and>
     (if n_data n = 0 then n_capacity n = 0 else \<exists>k. L (n_data n) = Some k \<and> unat (n_capacity n) \<le> k)"

text \<open>Every file lives in an allocation of its own that has room for its capacity.\<close>

definition vfs_files :: "(u64 \<rightharpoonup> nat) \<Rightarrow> 'a vfs_scheme \<Rightarrow> bool" where
  "vfs_files L s \<longleftrightarrow>
     heap_live L s \<and>
     (\<forall>i < length (nodes s). n_used (nodes s ! i) \<longrightarrow> fdata_ok L (nodes s ! i)) \<and>
     (\<forall>i < length (nodes s). \<forall>j < length (nodes s). i \<noteq> j \<longrightarrow> n_used (nodes s ! i) \<longrightarrow> n_used (nodes s ! j) \<longrightarrow>
        n_data (nodes s ! i) = n_data (nodes s ! j) \<longrightarrow> n_data (nodes s ! i) = 0)"

lemma heap_more_vfs:
  fixes s s' :: "'a vfs_scheme"
  assumes "heap.more s' = heap.more s"
  shows "nodes s' = nodes s" "fds s' = fds s" "next_inode s' = next_inode s" "vfs_cwd s' = vfs_cwd s"
  using assms by (cases s; cases s'; simp)+

lemma live_0: "heap_live L s \<Longrightarrow> L 0 = None"
  using ka.usable_ok [of L s 0] by (cases "L 0") auto

lemma heap_live_cong:
  "hmem s' = hmem s \<Longrightarrow> free_list s' = free_list s \<Longrightarrow> heap_end s' = heap_end s \<Longrightarrow> heap_live L s' = heap_live L s"
  by (simp add: heap_live_def heap_ok_def heap_core_def)

lemma heap_live_table [simp]:
  "heap_live L (put_fd k f s) = heap_live L s" "heap_live L (put_node i n s) = heap_live L s"
  by (rule heap_live_cong; simp add: put_fd_def put_node_def)+

text \<open>What \<open>write_reserve\<close> promises: the node's bytes are kept and there is room for more.\<close>

definition reserved ::
  "u64 \<Rightarrow> (u64 \<rightharpoonup> nat) \<Rightarrow> vfs_node \<Rightarrow> 'a vfs_scheme \<Rightarrow> (u64 \<rightharpoonup> nat) \<Rightarrow> vfs_node \<Rightarrow> 'a vfs_scheme \<Rightarrow> bool" where
  "reserved new_end L n s L1 n1 s1 \<longleftrightarrow>
     heap_live L1 s1 \<and> fdata_ok L1 n1 \<and> unat new_end \<le> unat (n_capacity n1) \<and>
     n1\<lparr>n_data := n_data n, n_capacity := n_capacity n\<rparr> = n \<and>
     node_bytes (hmem s1) n1 = node_bytes (hmem s) n \<and>
     L1(n_data n1 := None) = L(n_data n := None) \<and>
     keeps (L(n_data n := None)) (hmem s) (hmem s1) \<and> heap.more s1 = heap.more s"

lemma krealloc_null: "krealloc 0 n s = kmalloc n s"
  by (simp add: krealloc_def)

lemma write_grow_new:
  fixes s :: "'a vfs_scheme"
  assumes h: "heap_live L s" and ok: "fdata_ok L n" and d: "n_data n = 0"
    and room: "heap_room s (unat new_end + 256)" and r: "kmalloc (new_end + 256) s = Inr (q, s1)"
  shows "q \<noteq> 0 \<and> (\<exists>L1. reserved new_end L n s L1 (n\<lparr>n_data := q, n_capacity := new_end + 256\<rparr>) s1)"
proof -
  from room have u: "unat (new_end + 256) = unat new_end + 256"
    by (simp add: heap_room_def unat_word_ariths)
  have ne: "new_end + 256 \<noteq> 0" using u by (metis add_eq_0_iff_both_eq_0 unat_0 zero_neq_numeral)
  from ka.malloc_ok [OF h ne _ r] room u obtain k where
    k: "q \<noteq> 0" "L q = None" "keeps L (hmem s) (hmem s1)" "unat new_end + 256 \<le> k" "heap_live (L(q \<mapsto> k)) s1"
    by auto
  from ok d have sz: "n_size n = 0" "n_capacity n = 0" by (auto simp: fdata_ok_def unat_eq_0)
  have "L(0 := None) = L" using live_0 [OF h] by auto
  with k sz d u kmalloc_more [OF r] have "reserved new_end L n s (L(q \<mapsto> k)) (n\<lparr>n_data := q, n_capacity := new_end + 256\<rparr>) s1"
    by (simp add: reserved_def fdata_ok_def node_bytes_def load_bytes_def fun_upd_idem)
  with k(1) show ?thesis by blast
qed

lemma load_bytes_prefix:
  assumes "load_bytes m a n = load_bytes m' b n" and "k \<le> n"
  shows "load_bytes m a k = load_bytes m' b k"
proof -
  have "load_bytes m a k = take k (load_bytes m a n)" for m a
    using assms(2) by (simp add: load_bytes_def take_map min_def)
  with assms(1) show ?thesis by metis
qed

lemma write_grow_move:
  fixes s :: "'a vfs_scheme"
  assumes h: "heap_live L s" and ok: "fdata_ok L n" and d: "n_data n \<noteq> 0" and more: "unat new_end > unat (n_capacity n)"
    and room: "heap_room s (unat new_end + 256)" and r: "krealloc (n_data n) (new_end + 256) s = Inr (q, s1)"
  shows "q \<noteq> 0 \<and> (\<exists>L1. reserved new_end L n s L1 (n\<lparr>n_data := q, n_capacity := new_end + 256\<rparr>) s1)"
proof -
  from room have u: "unat (new_end + 256) = unat new_end + 256"
    by (simp add: heap_room_def unat_word_ariths)
  have ne: "new_end + 256 \<noteq> 0" using u by (metis add_eq_0_iff_both_eq_0 unat_0 zero_neq_numeral)
  from ok d obtain k where k: "L (n_data n) = Some k" "unat (n_capacity n) \<le> k" "unat (n_size n) \<le> unat (n_capacity n)"
    by (auto simp: fdata_ok_def)
  from room u have room': "heap_room s (unat (new_end + 256))" by simp
  from ka.realloc_ok [OF h k(1) ne room' r [unfolded krealloc_eq]] u obtain j where
    j: "q \<noteq> 0" "L q = None" "keeps (L(n_data n := None)) (hmem s) (hmem s1)"
       "load_bytes (hmem s1) (unat q) (min k (unat new_end + 256)) = load_bytes (hmem s) (unat (n_data n)) (min k (unat new_end + 256))"
       "unat new_end + 256 \<le> j" "heap_live ((L(n_data n := None))(q \<mapsto> j)) s1"
    by auto
  have "load_bytes (hmem s1) (unat q) (unat (n_size n)) = load_bytes (hmem s) (unat (n_data n)) (unat (n_size n))"
    using k(2,3) more by (intro load_bytes_prefix [OF j(4)]) simp
  moreover have "(L(n_data n := None))(q := None) = L(n_data n := None)" using j(2) by auto
  ultimately have "reserved new_end L n s ((L(n_data n := None))(q \<mapsto> j)) (n\<lparr>n_data := q, n_capacity := new_end + 256\<rparr>) s1"
    using j u k more krealloc_more [OF r] by (simp add: reserved_def fdata_ok_def node_bytes_def)
  with j(1) show ?thesis by blast
qed

lemma write_reserve_ok:
  fixes s :: "'a vfs_scheme"
  assumes h: "heap_live L s" and ok: "fdata_ok L n" and room: "heap_room s (unat new_end + 256)"
    and r: "write_reserve new_end n s = Inr (res, s1)"
  shows "\<exists>n1 L1. res = Some n1 \<and> reserved new_end L n s L1 n1 s1"
proof (cases "new_end > n_capacity n")
  case True
  from r True obtain q where q: "krealloc (n_data n) (new_end + 256) s = Inr (q, s1)"
    and res: "res = (if q = 0 then None else Some (n\<lparr>n_data := q, n_capacity := new_end + 256\<rparr>))"
    by (auto simp: write_reserve_def Let_def split: sum.splits if_splits)
  have "q \<noteq> 0 \<and> (\<exists>L1. reserved new_end L n s L1 (n\<lparr>n_data := q, n_capacity := new_end + 256\<rparr>) s1)"
  proof (cases "n_data n = 0")
    case True
    with q show ?thesis by (intro write_grow_new [OF h ok True room]) (simp add: krealloc_null)
  next
    case False
    from \<open>new_end > n_capacity n\<close> have "unat new_end > unat (n_capacity n)" by (simp add: word_less_nat_alt)
    from write_grow_move [OF h ok False this room q] show ?thesis .
  qed
  with res show ?thesis by auto
next
  case False
  with r have "res = Some n" "s1 = s" by (simp_all add: write_reserve_def)
  with h ok False show ?thesis by (auto simp: reserved_def keeps_def word_less_nat_alt)
qed

lemma load_store_splice:
  assumes "off \<le> e"
  shows "load_bytes (store_bytes m (a + off) bs) a (max e (off + length bs)) =
         take off (load_bytes m a e) @ bs @ drop (off + length bs) (load_bytes m a e)"
proof (rule nth_equalityI)
  show "length (load_bytes (store_bytes m (a + off) bs) a (max e (off + length bs))) =
        length (take off (load_bytes m a e) @ bs @ drop (off + length bs) (load_bytes m a e))"
    using assms by simp
  fix i
  assume "i < length (load_bytes (store_bytes m (a + off) bs) a (max e (off + length bs)))"
  then have i: "i < max e (off + length bs)" by simp
  consider "i < off" | "off \<le> i" "i < off + length bs" | "off + length bs \<le> i" by linarith
  then show "load_bytes (store_bytes m (a + off) bs) a (max e (off + length bs)) ! i =
        (take off (load_bytes m a e) @ bs @ drop (off + length bs) (load_bytes m a e)) ! i"
  proof cases
    case 2
    then obtain j where j: "i = off + j" "j < length bs" by (metis add_less_cancel_left le_Suc_ex)
    with i assms store_bytes_inside [of j bs m "a + off"] show ?thesis
      by (simp add: nth_append add.assoc)
  qed (use i assms in \<open>auto simp: nth_append store_bytes_outside\<close>)
qed

lemma keeps_load:
  assumes "keeps L m m'" and "L p = Some k" and "n \<le> k"
  shows "load_bytes m' (unat p) n = load_bytes m (unat p) n"
  using assms by (auto simp: keeps_def load_bytes_def)

text \<open>A file with an allocation of its own keeps its bytes while another node's allocation changes.\<close>

lemma other_file_kept:
  assumes "fdata_ok L n'" and "n_data n' = n_data n \<longrightarrow> n_data n' = 0" and "keeps (L(n_data n := None)) m m'"
  shows "node_bytes m' n' = node_bytes m n'"
proof (cases "n_data n' = 0")
  case True
  with assms(1) have "n_size n' = 0" by (auto simp: fdata_ok_def unat_eq_0)
  then show ?thesis by (simp add: node_bytes_def load_bytes_def)
next
  case False
  with assms(1,2) obtain k where "(L(n_data n := None)) (n_data n') = Some k" "unat (n_size n') \<le> k"
    by (auto simp: fdata_ok_def)
  from keeps_load [OF assms(3) this] show ?thesis by (simp add: node_bytes_def)
qed

lemma other_file_ok:
  assumes "fdata_ok L n'" and "n_data n' = n_data n \<longrightarrow> n_data n' = 0" and "L1(d := None) = L(n_data n := None)"
  shows "fdata_ok L1 n' \<and> (n_data n' = d \<longrightarrow> n_data n' = 0)"
proof (cases "n_data n' = 0")
  case False
  with assms(2) have ne: "n_data n' \<noteq> n_data n" by blast
  from assms(1) False obtain k where k: "L (n_data n') = Some k" by (auto simp: fdata_ok_def)
  from assms(3) have "(L1(d := None)) (n_data n') = (L(n_data n := None)) (n_data n')" by simp
  with ne k have "n_data n' \<noteq> d" "L1 (n_data n') = Some k" by (auto split: if_splits)
  with assms(1) k False show ?thesis by (simp add: fdata_ok_def)
qed (use assms(1) in \<open>auto simp: fdata_ok_def\<close>)

text \<open>The update of one node together with its allocation keeps the invariant of all of them.\<close>

lemma vfs_files_upd:
  assumes f: "vfs_files L s" and i: "i < length (nodes s)" "n_used (nodes s ! i)"
    and h: "heap_live L1 s1" and n1: "fdata_ok L1 n1" and L1: "L1(n_data n1 := None) = L(n_data (nodes s ! i) := None)"
    and ns: "nodes s1 = (nodes s)[i := n1]"
  shows "vfs_files L1 s1"
proof -
  have other: "fdata_ok L1 (nodes s ! j) \<and> (n_data (nodes s ! j) = n_data n1 \<longrightarrow> n_data (nodes s ! j) = 0)"
    if "j < length (nodes s)" "n_used (nodes s ! j)" "j \<noteq> i" for j
    using f i that by (intro other_file_ok [OF _ _ L1]) (auto simp: vfs_files_def)
  have ok: "fdata_ok L1 (nodes s1 ! j)" if "j < length (nodes s1)" "n_used (nodes s1 ! j)" for j
    using that other [of j] n1 by (cases "j = i") (simp_all add: ns)
  have "n_data (nodes s1 ! j) = 0" if "j < length (nodes s1)" "k < length (nodes s1)" "j \<noteq> k" "n_used (nodes s1 ! j)"
    "n_used (nodes s1 ! k)" "n_data (nodes s1 ! j) = n_data (nodes s1 ! k)" for j k
  proof -
    consider "j = i" | "k = i" "j \<noteq> i" | "j \<noteq> i" "k \<noteq> i" by blast
    then show ?thesis
    proof cases
      case 1 with that i other [of k] show ?thesis by (simp add: ns)
    next
      case 2 with that i other [of j] show ?thesis by (simp add: ns)
    next
      case 3 with that f show ?thesis unfolding vfs_files_def ns by simp
    qed
  qed
  with h ok show ?thesis unfolding vfs_files_def by blast
qed

lemma live_below:
  assumes "heap_live L s" and "L p = Some k"
  shows "unat p + k < 2 ^ 64"
proof -
  from assms(1) obtain B where B: "heap_ok B s" "L = live B" by (auto simp: heap_live_def)
  obtain fl where ok: "blocks_ok B (heap_end s)" using B(1) by (rule heap_okE)
  from assms(2) have "live B p = Some k" using B(2) by simp
  with ok obtain sz where 1: "B (p - 24) = Some (sz, True)" "unat p = unat (p - 24) + 24" "k + 32 = unat sz"
    by (rule live_unat)
  have "unat (heap_end s) < 2 ^ 64" by simp
  with blocks_okD [OF ok 1(1)] 1(2,3) show ?thesis by linarith
qed

lemma word_add_unat: "unat a + n < 2 ^ 64 \<Longrightarrow> unat (a + of_nat n :: u64) = unat a + n"
  by (simp add: unat_word_ariths unat_of_nat_small)

text \<open>The store of \<open>vfs_write\<close> once there is room for it.\<close>

lemma write_store:
  fixes s s1 :: "'a vfs_scheme"
  assumes res: "reserved (off + of_nat (length buf)) L n s L1 n1 s1"
    and off: "unat off \<le> unat (n_size n)" and small: "unat off + length buf < 2 ^ 64"
    and d: "n_data n1 = 0 \<longrightarrow> buf = []"
  defines "e \<equiv> off + of_nat (length buf)"
  defines "n2 \<equiv> n1\<lparr>n_size := (if e > n_size n1 then e else n_size n1)\<rparr>"
    and "m2 \<equiv> store_bytes (hmem s1) (unat (n_data n1 + off)) buf"
  shows "heap_live L1 (s1\<lparr>hmem := m2\<rparr>)" "fdata_ok L1 n2"
    "node_bytes m2 n2 = take (unat off) (node_bytes (hmem s) n) @ buf @ drop (unat off + length buf) (node_bytes (hmem s) n)"
    "keeps (L(n_data n := None)) (hmem s) m2"
proof -
  have e: "unat e = unat off + length buf" unfolding e_def using small by (rule word_add_unat)
  have h: "heap_live L1 s1" and ok: "fdata_ok L1 n1" and cap: "unat e \<le> unat (n_capacity n1)"
    and n1: "n1\<lparr>n_data := n_data n, n_capacity := n_capacity n\<rparr> = n" and nb: "node_bytes (hmem s1) n1 = node_bytes (hmem s) n"
    and L1: "L1(n_data n1 := None) = L(n_data n := None)" and k: "keeps (L(n_data n := None)) (hmem s) (hmem s1)"
    using res by (simp_all add: reserved_def e_def)
  have size: "n_size n1 = n_size n" using n1 by (metis vfs_node.select_convs(9) vfs_node.surjective vfs_node.update_convs(8,10))
  have max: "unat (n_size n2) = max (unat (n_size n1)) (unat off + length buf)"
    using e by (simp add: n2_def word_less_nat_alt max_def)
  show "fdata_ok L1 n2" using ok cap by (auto simp: fdata_ok_def n2_def)
  have A: "heap_live L1 (s1\<lparr>hmem := m2\<rparr>) \<and> m2 = store_bytes (hmem s1) (unat (n_data n1) + unat off) buf \<and>
        keeps (L1(n_data n1 := None)) (hmem s1) m2"
  proof (cases "n_data n1 = 0")
    case True
    with d h show ?thesis by (simp add: m2_def keeps_def)
  next
    case False
    then obtain j where j: "L1 (n_data n1) = Some j" "unat (n_capacity n1) \<le> j" using ok by (auto simp: fdata_ok_def)
    have "unat (n_data n1) + j < 2 ^ 64" using h j(1) by (rule live_below)
    with e cap j(2) have u: "unat (n_data n1 + off) = unat (n_data n1) + unat off" by (simp add: unat_word_ariths)
    have "unat off + length buf \<le> j" using e cap j(2) by linarith
    from ka.store_ok [OF h j(1) this] u show ?thesis by (simp add: m2_def)
  qed
  then show "heap_live L1 (s1\<lparr>hmem := m2\<rparr>)" by blast
  show "keeps (L(n_data n := None)) (hmem s) m2" using A keeps_trans [OF k] unfolding L1 by blast
  show "node_bytes m2 n2 = take (unat off) (node_bytes (hmem s) n) @ buf @ drop (unat off + length buf) (node_bytes (hmem s) n)"
    using load_store_splice [of "unat off" "unat (n_size n1)" "hmem s1" "unat (n_data n1)" buf] off max size nb A
    by (simp add: node_bytes_def n2_def)
qed

text \<open>An open descriptor \<open>fd\<close> of the regular file at index \<open>i\<close> of the node table.\<close>

definition file_fd :: "int \<Rightarrow> nat \<Rightarrow> 'a vfs_scheme \<Rightarrow> bool" where
  "file_fd fd i s \<longleftrightarrow>
     \<not> fd_bad fd s \<and> length (fds s) = VFS_MAX_FDS \<and> node_get (nodes s) (f_inode (fds s ! nat fd)) = Some i \<and>
     n_type (nodes s ! i) = VFS_FILE"

abbreviation fd_off :: "int \<Rightarrow> 'a vfs_scheme \<Rightarrow> nat" where
  "fd_off fd s \<equiv> unat (f_offset (fds s ! nat fd))"

lemma file_fdD:
  assumes "file_fd fd i s"
  shows "\<not> fd_bad fd s" "nat fd < length (fds s)" "node_get (nodes s) (f_inode (fds s ! nat fd)) = Some i"
    "n_type (nodes s ! i) = VFS_FILE" "i < length (nodes s)" "n_used (nodes s ! i)"
  using assms by (auto simp: file_fd_def fd_bad_def node_get_def dest: find_idx_SomeD)

lemma vfs_write_spec:
  fixes s :: "'a vfs_scheme"
  assumes fs: "vfs_files L s" and fd: "file_fd fd i s" and w: "o_write (f_flags (fds s ! nat fd))"
    and off: "fd_off fd s \<le> length (file_bytes s i)" and len: "length buf < 2 ^ 31"
    and room: "heap_room s (fd_off fd s + length buf + 256)"
    and run: "vfs_write fd buf s = Inr (r, s')"
  shows "r = int (length buf) \<and> fd_off fd s' = fd_off fd s + length buf \<and>
         file_bytes s' i = take (fd_off fd s) (file_bytes s i) @ buf @ drop (fd_off fd s + length buf) (file_bytes s i) \<and>
         (\<forall>j < length (nodes s). j \<noteq> i \<longrightarrow> n_used (nodes s ! j) \<longrightarrow> file_bytes s' j = file_bytes s j) \<and>
         (\<exists>L'. vfs_files L' s')"
proof -
  note D = file_fdD [OF fd]
  define f where "f = fds s ! nat fd"
  define n where "n = nodes s ! i"
  define e where "e = f_offset f + of_nat (length buf)"
  have small: "unat (f_offset f) + length buf < 2 ^ 64" using room by (simp add: heap_room_def f_def)
  then have e: "unat e = unat (f_offset f) + length buf" unfolding e_def by (rule word_add_unat)
  have ok: "heap_live L s" "fdata_ok L n" using fs D(5,6) by (auto simp: vfs_files_def n_def)
  have room': "heap_room s (unat e + 256)" using room e by (simp add: f_def)
  from run D w obtain n1 s1 where rs: "write_reserve e n s = Inr (Some n1, s1) \<or> write_reserve e n s = Inr (None, s1)"
    by (auto simp: vfs_write_def Let_def f_def [symmetric] n_def [symmetric] e_def [symmetric] split: sum.splits option.splits)
  with write_reserve_ok [OF ok room'] obtain n1 L1 where n1: "write_reserve e n s = Inr (Some n1, s1)"
    and res: "reserved e L n s L1 n1 s1" by blast
  from n1 run D w have d: "n_data n1 = 0 \<longrightarrow> buf = []" and r: "r = c_int (of_nat (length buf))"
    and s': "s' = put_fd (nat fd) (f\<lparr>f_offset := e\<rparr>)
                (put_node i (n1\<lparr>n_size := (if e > n_size n1 then e else n_size n1)\<rparr>)
                  (s1\<lparr>hmem := store_bytes (hmem s1) (unat (n_data n1 + f_offset f)) buf\<rparr>))"
    by (auto simp: vfs_write_def Let_def f_def [symmetric] n_def [symmetric] e_def [symmetric] split: if_splits)
  have off': "unat (f_offset f) \<le> unat (n_size n)" using off by (simp add: f_def n_def file_bytes_def node_bytes_def)
  note st = write_store [OF res [unfolded e_def] off' small d, folded e_def]
  note more = heap_more_vfs [of s1 s]
  have m: "heap.more s1 = heap.more s" and L1: "L1(n_data n1 := None) = L(n_data n := None)" using res by (simp_all add: reserved_def)
  note ns = more(1) [OF m]
  have others: "file_bytes s' j = file_bytes s j" if "j < length (nodes s)" "j \<noteq> i" "n_used (nodes s ! j)" for j
    using other_file_kept [OF _ _ st(4), of "nodes s ! j"] fs D(5,6) that
    by (auto simp: vfs_files_def file_bytes_def s' put_fd_def put_node_def ns n_def)
  have "vfs_files L1 s'"
  proof (rule vfs_files_upd [OF fs D(5,6) _ st(2)])
    show "heap_live L1 s'" using st(1) by (simp add: s')
  qed (use L1 in \<open>simp_all add: s' put_fd_def put_node_def ns n_def\<close>)
  moreover have "file_bytes s' i = take (fd_off fd s) (file_bytes s i) @ buf @ drop (fd_off fd s + length buf) (file_bytes s i)"
    using st(3) D(5) by (simp add: file_bytes_def s' put_fd_def put_node_def ns n_def f_def)
  moreover have "fd_off fd s' = fd_off fd s + length buf"
    using e D(2) more(2) [OF m] by (simp add: s' put_fd_def put_node_def f_def)
  ultimately show ?thesis using r others c_int_of_nat [OF len] by blast
qed

lemma write_reserve_err:
  fixes s :: "'a vfs_scheme"
  assumes h: "heap_live L s" and ok: "fdata_ok L n" and room: "heap_room s (unat new_end + 256)"
    and r: "write_reserve new_end n s = Inl e"
  shows "e \<noteq> Diverges \<and> n_capacity n < new_end"
proof -
  from room have u: "unat (new_end + 256) = unat new_end + 256"
    by (simp add: heap_room_def unat_word_ariths)
  have ne: "new_end + 256 \<noteq> 0" using u by (metis add_eq_0_iff_both_eq_0 unat_0 zero_neq_numeral)
  from room u have room': "heap_room s (unat (new_end + 256))" by simp
  from r have k: "krealloc (n_data n) (new_end + 256) s = Inl e" and c: "n_capacity n < new_end"
    by (auto simp: write_reserve_def Let_def split: sum.splits if_splits)
  show ?thesis
  proof (cases "n_data n = 0")
    case True
    with k ka.malloc_err [OF h ne room'] c show ?thesis by (simp add: krealloc_null)
  next
    case False
    then obtain j where "L (n_data n) = Some j" using ok by (auto simp: fdata_ok_def)
    from ka.realloc_err [OF h this ne room' k [unfolded krealloc_eq]] c show ?thesis by simp
  qed
qed

lemma vfs_write_err:
  fixes s :: "'a vfs_scheme"
  assumes fs: "vfs_files L s" and fd: "file_fd fd i s" and w: "o_write (f_flags (fds s ! nat fd))"
    and room: "heap_room s (fd_off fd s + length buf + 256)"
    and run: "vfs_write fd buf s = Inl e"
  shows "e \<noteq> Diverges \<and> unat (n_capacity (nodes s ! i)) < fd_off fd s + length buf"
proof -
  note D = file_fdD [OF fd]
  define f where "f = fds s ! nat fd"
  define n where "n = nodes s ! i"
  define e' where "e' = f_offset f + of_nat (length buf)"
  have small: "unat (f_offset f) + length buf < 2 ^ 64" using room by (simp add: heap_room_def f_def)
  then have e: "unat e' = unat (f_offset f) + length buf" unfolding e'_def by (rule word_add_unat)
  have ok: "heap_live L s" "fdata_ok L n" using fs D(5,6) by (auto simp: vfs_files_def n_def)
  have room': "heap_room s (unat e' + 256)" using room e by (simp add: f_def)
  show ?thesis
  proof (cases "write_reserve e' n s")
    case (Inl e1)
    with run D w have "e1 = e"
      by (simp add: vfs_write_def Let_def f_def [symmetric] n_def [symmetric] e'_def [symmetric])
    with write_reserve_err [OF ok room' Inl] e show ?thesis by (simp add: n_def f_def word_less_nat_alt)
  next
    case (Inr x)
    then obtain n1 s1 L1 where x: "write_reserve e' n s = Inr (Some n1, s1)" "reserved e' L n s L1 n1 s1"
      using write_reserve_ok [OF ok room'] by (cases x) blast
    then have "n_data n1 = 0 \<Longrightarrow> unat e' = 0" by (auto simp: reserved_def fdata_ok_def)
    with x run D w e show ?thesis
      by (auto simp: vfs_write_def Let_def f_def [symmetric] n_def [symmetric] e'_def [symmetric] split: if_splits)
  qed
qed

section \<open>Properties of files\<close>

text \<open>A file system with one file of three bytes, open for reading and writing at its second byte.\<close>

definition demo_file :: vfs_node where
  "demo_file = \<lparr>n_used = True, n_type = VFS_FILE, n_inode = 1, n_parent = 0, n_major = 0, n_minor = 0,
                n_name = ''f'', n_data = 0x10018, n_size = 3, n_capacity = 4064\<rparr>"

definition vfs_demo :: vfs where
  "vfs_demo =
     \<lparr>bitmap = bitmap full_demo, total_frames = total_frames full_demo, free_frames = free_frames full_demo,
      pmem = pmem full_demo, cr3 = cr3 full_demo, current_pml4 = current_pml4 full_demo,
      hmem = hmem full_demo, free_list = free_list full_demo, heap_end = heap_end full_demo,
      shm_objs = replicate 32 shm_zero, nodes = [root_node, demo_file], next_inode = 2, vfs_cwd = 0,
      fds = (replicate 64 fd_zero)[3 := \<lparr>f_open = True, f_inode = 1, f_offset = 1, f_flags = 3\<rparr>],
      kbd_dev = kbd_start, mouse_dev = mouse_start, serial_in = [], serial_out = [], con = console_demo\<rparr>"

lemma vfs_demo_files: "vfs_files [0x10018 \<mapsto> 4064] vfs_demo"
proof -
  have "heap_live [0x10018 \<mapsto> 4064] vfs_demo"
    using full_demo_live(1) heap_live_cong [of vfs_demo full_demo] by (simp add: vfs_demo_def)
  moreover have "nodes vfs_demo = [root_node, demo_file]" by (simp add: vfs_demo_def)
  moreover have "fdata_ok L root_node" "fdata_ok [0x10018 \<mapsto> 4064] demo_file" "n_data root_node = 0" for L
    by (simp_all add: fdata_ok_def root_node_def node_zero_def demo_file_def)
  moreover have "n_data demo_file \<noteq> 0" by (simp add: demo_file_def)
  ultimately show ?thesis
    by (simp add: vfs_files_def) (auto simp: nth_Cons split: nat.splits)
qed

lemma vfs_demo_fd: "file_fd 3 1 vfs_demo" "o_write (f_flags (fds vfs_demo ! 3))" "o_read (f_flags (fds vfs_demo ! 3))"
  "fd_off 3 vfs_demo = 1" "length (file_bytes vfs_demo 1) = 3" "heap_end vfs_demo = 0x11000"
  using full_demo_live(2)
  by (simp_all add: file_fd_def fd_bad_def vfs_demo_def node_get_def root_node_def node_zero_def demo_file_def
      o_write_def o_read_def file_bytes_def node_bytes_def)

text \<open>
  C4: writing through a descriptor whose offset is within the file replaces the bytes at the offset, extends the file
  when they go past its end, advances the offset, leaves the contents of every other file alone and keeps the
  invariant that ties files to heap allocations. It fails only when it has to grow the
  file's allocation, and never by running forever.
\<close>

theorem vfs_write_splices:
  fixes s :: "'a vfs_scheme"
  assumes "vfs_files L s" and "file_fd fd i s" and "o_write (f_flags (fds s ! nat fd))"
    and "fd_off fd s \<le> length (file_bytes s i)" and "length buf < 2 ^ 31"
    and "heap_room s (fd_off fd s + length buf + 256)"
  shows "case vfs_write fd buf s of
           Inl e \<Rightarrow> e \<noteq> Diverges \<and> unat (n_capacity (nodes s ! i)) < fd_off fd s + length buf
         | Inr (r, s') \<Rightarrow>
             r = int (length buf) \<and> fd_off fd s' = fd_off fd s + length buf \<and>
             file_bytes s' i =
               take (fd_off fd s) (file_bytes s i) @ buf @ drop (fd_off fd s + length buf) (file_bytes s i) \<and>
             (\<forall>j < length (nodes s). j \<noteq> i \<longrightarrow> n_used (nodes s ! j) \<longrightarrow> file_bytes s' j = file_bytes s j) \<and>
             (\<exists>L'. vfs_files L' s')"
proof (cases "vfs_write fd buf s")
  case (Inl e)
  with vfs_write_err [OF assms(1-3,6) Inl] show ?thesis by simp
next
  case (Inr x)
  then obtain r s' where run: "vfs_write fd buf s = Inr (r, s')" by (cases x) auto
  show ?thesis unfolding run sum.case prod.case by (rule vfs_write_spec [OF assms run])
qed

theorem vfs_write_splices_witness:
  "vfs_files [0x10018 \<mapsto> 4064] vfs_demo \<and> file_fd 3 1 vfs_demo \<and>
   (\<exists>s'. vfs_write 3 [7, 8, 9] vfs_demo = Inr (3, s') \<and> file_bytes s' 1 = take 1 (file_bytes vfs_demo 1) @ [7, 8, 9])"
proof -
  have "heap_room vfs_demo (fd_off 3 vfs_demo + length [7, 8, 9 :: u8] + 256)" "fd_off 3 vfs_demo \<le> length (file_bytes vfs_demo 1)"
    "o_write (f_flags (fds vfs_demo ! nat 3))" "n_capacity (nodes vfs_demo ! 1) = 4064"
    using vfs_demo_fd by (simp_all add: heap_room_def) (simp add: vfs_demo_def demo_file_def)
  with vfs_write_splices [OF vfs_demo_files vfs_demo_fd(1), of "[7, 8, 9]"] vfs_demo_files vfs_demo_fd
  show ?thesis by (auto split: sum.splits)
qed

lemma load_bytes_sub:
  "take k (drop off (load_bytes m a n)) = load_bytes m (a + off) (min k (n - off))"
  by (rule nth_equalityI) (auto simp: add.assoc)

lemma vfs_read_eq:
  assumes "file_fd fd i s" and "o_read (f_flags (fds s ! nat fd))"
    and "f = fds s ! nat fd" and "n = nodes s ! i"
    and "avail = n_size n - f_offset f" and "to_read = (if len < avail then len else avail)"
  shows "vfs_read fd len s =
     (if avail = 0 then Inr (0, [], s)
      else if n_data n = 0 \<and> to_read \<noteq> 0 then Inl NullDeref
      else Inr (c_int to_read, load_bytes (hmem s) (unat (n_data n + f_offset f)) (unat to_read),
                put_fd (nat fd) (f\<lparr>f_offset := f_offset f + to_read\<rparr>) s))"
  using file_fdD [OF assms(1)] assms(2) unfolding vfs_read_def Let_def assms(3-6) by auto

lemma vfs_read_within:
  fixes s :: "'a vfs_scheme"
  assumes fs: "vfs_files L s" and fd: "file_fd fd i s" and rd: "o_read (f_flags (fds s ! nat fd))"
    and len: "unat len < 2 ^ 31" and off: "fd_off fd s \<le> length (file_bytes s i)"
  defines "bs \<equiv> take (unat len) (drop (fd_off fd s) (file_bytes s i))" and "f \<equiv> fds s ! nat fd"
  shows "vfs_read fd len s =
    Inr (int (length bs), bs, s\<lparr>fds := (fds s)[nat fd := f\<lparr>f_offset := f_offset f + of_nat (length bs)\<rparr>]\<rparr>)"
proof -
  note D = file_fdD [OF fd]
  define n where "n = nodes s ! i"
  define avail where "avail = n_size n - f_offset f"
  define to_read where "to_read = (if len < avail then len else avail)"
  have ok: "heap_live L s" "fdata_ok L n" using fs D(5,6) by (auto simp: vfs_files_def n_def)
  have u: "unat avail = unat (n_size n) - unat (f_offset f)"
    using off unfolding avail_def by (intro unat_sub) (simp add: word_le_nat_alt f_def n_def file_bytes_def node_bytes_def)
  have t: "unat to_read = min (unat len) (unat (n_size n) - unat (f_offset f))"
    by (simp add: to_read_def word_less_nat_alt u min_def)
  have bs: "bs = load_bytes (hmem s) (unat (n_data n) + unat (f_offset f)) (unat to_read)"
    by (simp add: bs_def t file_bytes_def node_bytes_def f_def n_def load_bytes_sub)
  have l: "of_nat (length bs) = to_read" by (simp add: bs)
  have "unat to_read < 2 ^ 31" using len t by simp
  then have c: "c_int to_read = int (length bs)" using c_int_of_nat [of "unat to_read"] by (simp add: bs)
  have keep: "s\<lparr>fds := (fds s)[nat fd := f]\<rparr> = s" by (cases s) (simp add: f_def)
  show ?thesis
  proof (cases "avail = 0 \<or> to_read = 0")
    case True
    then have "to_read = 0" by (auto simp: to_read_def)
    then show ?thesis
      by (auto simp: vfs_read_eq [OF fd rd f_def [THEN meta_eq_to_obj_eq] n_def avail_def to_read_def] l c put_fd_def bs load_bytes_def
          c_int_def keep)
  next
    case False
    have "n_data n \<noteq> 0" using ok(2) False u by (auto simp: fdata_ok_def unat_eq_0)
    then obtain k where k: "L (n_data n) = Some k" "unat (n_size n) \<le> k" using ok(2) by (auto simp: fdata_ok_def)
    from live_below [OF ok(1) k(1)] k(2) off
    have "unat (n_data n + f_offset f) = unat (n_data n) + unat (f_offset f)"
      by (simp add: unat_word_ariths f_def n_def file_bytes_def node_bytes_def)
    with False \<open>n_data n \<noteq> 0\<close> show ?thesis
      by (simp add: vfs_read_eq [OF fd rd f_def [THEN meta_eq_to_obj_eq] n_def avail_def to_read_def] l c put_fd_def bs)
  qed
qed

lemma vfs_read_behind:
  assumes fd: "file_fd fd i s" and rd: "o_read (f_flags (fds s ! nat fd))" and len: "unat len < 2 ^ 31"
    and off: "length (file_bytes s i) < fd_off fd s" "fd_off fd s + unat len < 2 ^ 64" and d: "n_data (nodes s ! i) \<noteq> 0"
  shows "\<exists>s'. vfs_read fd len s = Inr (int (unat len),
           load_bytes (hmem s) (unat (n_data (nodes s ! i) + f_offset (fds s ! nat fd))) (unat len), s')"
proof -
  define avail where "avail = n_size (nodes s ! i) - f_offset (fds s ! nat fd)"
  have "n_size (nodes s ! i) < f_offset (fds s ! nat fd)"
    using off(1) by (simp add: word_less_nat_alt file_bytes_def node_bytes_def)
  then have u: "unat avail = 2 ^ 64 + unat (n_size (nodes s ! i)) - fd_off fd s"
    by (simp add: avail_def unat_sub_if' word_less_nat_alt)
  with off have "unat len \<le> unat avail" "unat avail \<noteq> 0" by simp_all
  then have a: "(if len < avail then len else avail) = len" "avail \<noteq> 0"
    by (auto simp: word_less_nat_alt intro: word_unat_eq_iff [THEN iffD2])
  have "c_int len = int (unat len)" using c_int_of_nat [OF len] by simp
  with vfs_read_eq [OF fd rd refl refl avail_def refl, of len] a d show ?thesis by simp
qed

text \<open>
  C23: reading through a descriptor whose offset is within the file returns the bytes from the offset on, as many as were
  asked for and the file has, and advances the offset past them; nothing else changes.
  With the offset behind the end (after \<open>vfs_lseek\<close>) the number of bytes available wraps around and the
  call returns memory behind the file instead of 0.
\<close>

theorem vfs_read_returns_contents:
  fixes s :: "'a vfs_scheme"
  assumes "vfs_files L s" and "file_fd fd i s" and "o_read (f_flags (fds s ! nat fd))" and "unat len < 2 ^ 31"
  shows "(fd_off fd s \<le> length (file_bytes s i) \<longrightarrow>
            (let bs = take (unat len) (drop (fd_off fd s) (file_bytes s i));
                 f = fds s ! nat fd
             in vfs_read fd len s = Inr (int (length bs), bs,
                  s\<lparr>fds := (fds s)[nat fd := f\<lparr>f_offset := f_offset f + of_nat (length bs)\<rparr>]\<rparr>))) \<and>
         (length (file_bytes s i) < fd_off fd s \<and> fd_off fd s + unat len < 2 ^ 64 \<and> n_data (nodes s ! i) \<noteq> 0 \<longrightarrow>
            (\<exists>s'. vfs_read fd len s = Inr (int (unat len),
               load_bytes (hmem s) (unat (n_data (nodes s ! i) + f_offset (fds s ! nat fd))) (unat len), s')))"
  using vfs_read_within [OF assms] vfs_read_behind [OF assms(2-4)] by (auto simp: Let_def)

theorem vfs_read_returns_contents_witness:
  "vfs_files [0x10018 \<mapsto> 4064] vfs_demo \<and> file_fd 3 1 vfs_demo \<and>
   (\<exists>bs s'. vfs_read 3 100 vfs_demo = Inr (2, bs, s') \<and> bs = drop 1 (file_bytes vfs_demo 1))"
proof -
  have "fd_off 3 vfs_demo \<le> length (file_bytes vfs_demo 1)" "o_read (f_flags (fds vfs_demo ! nat 3))" using vfs_demo_fd by simp_all
  with vfs_read_returns_contents [OF vfs_demo_files vfs_demo_fd(1), of 100] vfs_demo_files vfs_demo_fd
  show ?thesis by (auto simp: Let_def)
qed

end
