(* ===== verification/Cpu.thy ===== *)
theory Cpu
  imports Kernel_Prelude
begin

text \<open>
  \<^verbatim>\<open>src/cpu/gdt.c\<close>, \<^verbatim>\<open>src/cpu/idt.c\<close>, \<^verbatim>\<open>src/cpu/irq.c\<close> and \<^verbatim>\<open>src/drivers/timer.c\<close>: the descriptor tables the processor
  reads, the table of C handlers, the interrupt controller and the tick counter. Port output is a register file that
  keeps the last byte written to each port (the mask registers of the interrupt controller read back that
  byte) together with the sequence of all writes. The addresses of the tables and of the assembly stubs are
  arguments; a C handler is known by a number.
\<close>

section \<open>Tables\<close>

record GDTEntry =
  limit_low :: u16
  base_low :: u16
  base_mid :: u8
  access :: u8
  granularity :: u8
  base_high :: u8

record TSS =
  tss_rsp :: "u64 list"
  tss_ist :: "u64 list"
  iopb_offset :: u16

record IDTEntry =
  offset_low :: u16
  selector :: u16
  ist :: u8
  type_attr :: u8
  offset_mid :: u16
  offset_high :: u32

record cpu =
  gdt :: "GDTEntry list"
  gdt_ptr :: "u16 \<times> u64"
  tss :: TSS
  idt :: "IDTEntry list"
  idt_ptr :: "u16 \<times> u64"
  handlers :: "nat option list"
  loaded_gdt :: "(u16 \<times> u64) option"
  loaded_idt :: "(u16 \<times> u64) option"
  loaded_tr :: u16
  ports :: "u16 \<Rightarrow> u8"
  port_log :: "(u16 \<times> u8) list"
  tick_count :: u64

definition gdt_zero :: GDTEntry where
  "gdt_zero = \<lparr>limit_low = 0, base_low = 0, base_mid = 0, access = 0, granularity = 0, base_high = 0\<rparr>"

definition tss_zero :: TSS where
  "tss_zero = \<lparr>tss_rsp = replicate 3 0, tss_ist = replicate 7 0, iopb_offset = 0\<rparr>"

definition idt_zero :: IDTEntry where
  "idt_zero = \<lparr>offset_low = 0, selector = 0, ist = 0, type_attr = 0, offset_mid = 0, offset_high = 0\<rparr>"

definition gdt_set_entry :: "nat \<Rightarrow> u32 \<Rightarrow> u32 \<Rightarrow> u8 \<Rightarrow> u8 \<Rightarrow> cpu \<Rightarrow> cpu" where
  "gdt_set_entry idx base lim acc gran c =
     c\<lparr>gdt := (gdt c)[idx :=
        \<lparr>limit_low = ucast (lim AND 0xFFFF), base_low = ucast (base AND 0xFFFF),
         base_mid = ucast (drop_bit 16 base AND 0xFF), access = acc,
         granularity = ucast (drop_bit 16 lim AND 0x0F) OR (gran AND 0xF0),
         base_high = ucast (drop_bit 24 base AND 0xFF)\<rparr>]\<rparr>"

text \<open>The upper half of the TSS descriptor overwrites the next entry with two 32-bit words.\<close>

definition gdt_set_tss :: "nat \<Rightarrow> u64 \<Rightarrow> u32 \<Rightarrow> cpu \<Rightarrow> cpu" where
  "gdt_set_tss idx base lim c =
     (let hi = drop_bit 32 base
      in c\<lparr>gdt := (gdt c)
            [idx := \<lparr>limit_low = ucast (lim AND 0xFFFF), base_low = ucast (base AND 0xFFFF),
                     base_mid = ucast (drop_bit 16 base AND 0xFF), access = 0x89,
                     granularity = ucast (drop_bit 16 lim AND 0x0F), base_high = ucast (drop_bit 24 base AND 0xFF)\<rparr>,
             idx + 1 := \<lparr>limit_low = ucast hi, base_low = ucast (drop_bit 16 hi), base_mid = 0, access = 0,
                         granularity = 0, base_high = 0\<rparr>]\<rparr>)"

definition gdt_init :: "u64 \<Rightarrow> u64 \<Rightarrow> u64 \<Rightarrow> cpu \<Rightarrow> cpu" where
  "gdt_init boot_stack_top tss_addr gdt_addr c =
     (let c1 = gdt_set_entry 0 0 0 0 0 c;
          c2 = gdt_set_entry 1 0 0xFFFFF 0x9A 0xA0 c1;
          c3 = gdt_set_entry 2 0 0xFFFFF 0x92 0xC0 c2;
          c4 = gdt_set_entry 3 0 0xFFFFF 0xFA 0xA0 c3;
          c5 = gdt_set_entry 4 0 0xFFFFF 0xF2 0xC0 c4;
          c6 = c5\<lparr>tss := tss_zero\<lparr>tss_rsp := (tss_rsp tss_zero)[0 := boot_stack_top], iopb_offset := 104\<rparr>\<rparr>;
          c7 = gdt_set_tss 5 tss_addr 103 c6
      in c7\<lparr>gdt_ptr := (55, gdt_addr), loaded_gdt := Some (55, gdt_addr), loaded_tr := 0x28\<rparr>)"

definition tss_set_rsp0 :: "u64 \<Rightarrow> cpu \<Rightarrow> cpu" where
  "tss_set_rsp0 rsp0 c = c\<lparr>tss := (tss c)\<lparr>tss_rsp := (tss_rsp (tss c))[0 := rsp0]\<rparr>\<rparr>"

definition idt_set_gate :: "u8 \<Rightarrow> u64 \<Rightarrow> u8 \<Rightarrow> u8 \<Rightarrow> cpu \<Rightarrow> cpu" where
  "idt_set_gate vec handler ist0 dpl c =
     c\<lparr>idt := (idt c)[unat vec :=
        \<lparr>offset_low = ucast (handler AND 0xFFFF), selector = 0x08, ist = ist0 AND 0x07,
         type_attr = 0x8E OR push_bit 5 (dpl AND 3), offset_mid = ucast (drop_bit 16 handler AND 0xFFFF),
         offset_high = ucast (drop_bit 32 handler)\<rparr>]\<rparr>"

definition idt_set_handler :: "u8 \<Rightarrow> nat option \<Rightarrow> cpu \<Rightarrow> cpu" where
  "idt_set_handler vec fn c = c\<lparr>handlers := (handlers c)[unat vec := fn]\<rparr>"

definition idt_set_raw_handler :: "u8 \<Rightarrow> u64 \<Rightarrow> cpu \<Rightarrow> cpu" where
  "idt_set_raw_handler vec addr c = idt_set_gate vec addr 0 0 c"

definition idt_set_interrupt_dpl :: "u8 \<Rightarrow> u8 \<Rightarrow> cpu \<Rightarrow> cpu" where
  "idt_set_interrupt_dpl vec dpl c =
     (let e = idt c ! unat vec
      in c\<lparr>idt := (idt c)[unat vec := e\<lparr>type_attr := (type_attr e AND NOT (push_bit 5 3)) OR push_bit 5 (dpl AND 3)\<rparr>],
           loaded_idt := Some (idt_ptr c)\<rparr>)"

text \<open>What the common interrupt entry does with vector \<open>int_no\<close>; an exception nobody handles stops the machine.\<close>

datatype isr_outcome = Called nat | Halted | Ignored

definition isr_handler :: "u64 \<Rightarrow> cpu \<Rightarrow> isr_outcome res" where
  "isr_handler int_no c =
     (if unat int_no \<ge> length (handlers c) then Inl OutOfBounds
      else case handlers c ! unat int_no of
             Some fn \<Rightarrow> Inr (Called fn)
           | None \<Rightarrow> Inr (if int_no < 32 then Halted else Ignored))"

definition idt_init :: "(nat \<Rightarrow> u64) \<Rightarrow> u64 \<Rightarrow> cpu \<Rightarrow> cpu" where
  "idt_init isr_stub_table idt_addr c =
     (let c1 = c\<lparr>idt := replicate 256 idt_zero, handlers := replicate 256 None\<rparr>;
          c2 = fold (\<lambda>i. idt_set_gate (of_nat i) (isr_stub_table i) 0 0) [0..<256] c1;
          c3 = idt_set_gate 8 (isr_stub_table 8) 1 0 c2
      in c3\<lparr>idt_ptr := (4095, idt_addr), loaded_idt := Some (4095, idt_addr)\<rparr>)"

section \<open>Interrupt controller and timer\<close>

definition outb :: "u16 \<Rightarrow> u8 \<Rightarrow> cpu \<Rightarrow> cpu" where
  "outb port v c = c\<lparr>ports := (ports c)(port := v), port_log := port_log c @ [(port, v)]\<rparr>"

definition irq_init :: "cpu \<Rightarrow> cpu" where
  "irq_init c =
     fold (\<lambda>(p, v). outb p v)
       [(0x20, 0x11), (0xA0, 0x11), (0x21, 0x20), (0xA1, 0x28), (0x21, 0x04), (0xA1, 0x02), (0x21, 0x01), (0xA1, 0x01),
        (0x21, 0x00), (0xA1, 0x00)] c"

definition irq_eoi :: "u8 \<Rightarrow> cpu \<Rightarrow> cpu" where
  "irq_eoi irq c = outb 0x20 0x20 (if irq \<ge> 8 then outb 0xA0 0x20 c else c)"

definition irq_port :: "u8 \<Rightarrow> u16" where
  "irq_port irq = (if irq < 8 then 0x21 else 0xA1)"

definition irq_mask :: "u8 \<Rightarrow> cpu \<Rightarrow> cpu" where
  "irq_mask irq c = outb (irq_port irq) (ports c (irq_port irq) OR push_bit (unat (irq AND 7)) 1) c"

definition irq_unmask :: "u8 \<Rightarrow> cpu \<Rightarrow> cpu" where
  "irq_unmask irq c = outb (irq_port irq) (ports c (irq_port irq) AND NOT (push_bit (unat (irq AND 7)) 1)) c"

definition timer_irq :: "cpu \<Rightarrow> cpu" where
  "timer_irq c = outb 0x20 0x20 (c\<lparr>tick_count := tick_count c + 1\<rparr>)"

text \<open>Division by zero is the processor's divide error.\<close>

definition timer_init :: "u32 \<Rightarrow> nat \<Rightarrow> cpu \<Rightarrow> cpu res" where
  "timer_init hz timer_irq_id c =
     (if hz = 0 then Inl (Panic ''Divide Error'')
      else let divisor = ucast ((1193182 :: u64) div ucast hz) :: u32
           in Inr (idt_set_handler 32 (Some timer_irq_id)
                (outb 0x40 (ucast (drop_bit 8 divisor)) (outb 0x40 (ucast (divisor AND 0xFF)) (outb 0x43 0x36 c)))))"

definition timer_ticks :: "cpu \<Rightarrow> u64" where
  "timer_ticks c = tick_count c"

text \<open>
  \<open>timer_sleep\<close> halts until an interrupt arrives and looks at the counter again; \<open>ticks\<close> are the numbers of timer
  interrupts that arrive at each halt, and \<open>None\<close> means that it still waits when they are used up.
\<close>

fun sleep_until_tick :: "u64 \<Rightarrow> nat list \<Rightarrow> cpu \<Rightarrow> cpu option" where
  "sleep_until_tick e [] c = (if tick_count c < e then None else Some c)"
| "sleep_until_tick e (n # ns) c = (if tick_count c < e then sleep_until_tick e ns ((timer_irq ^^ n) c) else Some c)"

definition timer_sleep :: "u64 \<Rightarrow> nat list \<Rightarrow> cpu \<Rightarrow> cpu option" where
  "timer_sleep ms ticks c = sleep_until_tick (tick_count c + ms) ticks c"

section \<open>What the processor reads from the tables\<close>

definition gate_offset :: "IDTEntry \<Rightarrow> u64" where
  "gate_offset e = ucast (offset_low e) OR push_bit 16 (ucast (offset_mid e)) OR push_bit 32 (ucast (offset_high e))"

definition gate_dpl :: "IDTEntry \<Rightarrow> u8" where
  "gate_dpl e = drop_bit 5 (type_attr e) AND 3"

text \<open>The stack of a gate: the interrupt stack table entry its index names, or none for index 0.\<close>

definition gate_stack :: "TSS \<Rightarrow> IDTEntry \<Rightarrow> u64 option" where
  "gate_stack t e = (if ist e = 0 then None else Some (tss_ist t ! (unat (ist e) - 1)))"

lemma word_split_16_16_32:
  fixes w :: u64
  shows "ucast (ucast (w AND 0xFFFF) :: u16) OR push_bit 16 (ucast (ucast (drop_bit 16 w AND 0xFFFF) :: u16))
           OR push_bit 32 (ucast (ucast (drop_bit 32 w) :: u32)) = w"
proof -
  have m: "(0xFFFF :: u64) = mask 16" by (simp add: mask_eq_exp_minus_1)
  show ?thesis
    unfolding m
  proof (rule bit_word_eqI)
    fix n
    assume "n < LENGTH(64)"
    then consider "n < 16" | k where "n = 16 + k" "k < 16" | k where "n = 32 + k" "k < 32"
      by (cases "n < 16"; cases "n < 32") (auto simp: le_iff_add not_less)
    then show "bit (ucast (ucast (w AND mask 16) :: u16) OR push_bit 16 (ucast (ucast (drop_bit 16 w AND mask 16) :: u16))
           OR push_bit 32 (ucast (ucast (drop_bit 32 w) :: u32)) :: u64) n = bit w n"
      by cases (auto simp: bit_simps)
  qed
qed

lemma gate_offset_set: "unat vec < length (idt c) \<Longrightarrow> gate_offset (idt (idt_set_gate vec h i d c) ! unat vec) = h"
  by (simp add: idt_set_gate_def gate_offset_def word_split_16_16_32)

lemma idt_set_gate_other: "unat vec \<noteq> k \<Longrightarrow> idt (idt_set_gate vec h i d c) ! k = idt c ! k"
  by (simp add: idt_set_gate_def)

lemma idt_set_gate_length [simp]: "length (idt (idt_set_gate vec h i d c)) = length (idt c)"
  by (simp add: idt_set_gate_def)

lemma idt_set_gate_ist: "unat vec < length (idt c) \<Longrightarrow> ist (idt (idt_set_gate vec h i d c) ! unat vec) = i AND 7"
  by (simp add: idt_set_gate_def)

lemma idt_gates:
  fixes stubs :: "nat \<Rightarrow> u64"
  assumes "length (idt c) = 256" and "n \<le> 256"
  defines "c' \<equiv> fold (\<lambda>i. idt_set_gate (of_nat i) (stubs i) 0 0) [0..<n] c"
  shows "length (idt c') = 256 \<and> (\<forall>k < n. gate_offset (idt c' ! k) = stubs k \<and> ist (idt c' ! k) = 0)"
  using assms(2) unfolding c'_def
proof (induction n)
  case 0
  then show ?case using assms(1) by simp
next
  case (Suc n)
  define d where "d = fold (\<lambda>i. idt_set_gate (of_nat i) (stubs i) 0 0) [0..<n] c"
  have u: "unat (of_nat n :: u8) = n" using Suc.prems by (simp add: unat_of_nat)
  from Suc have d: "length (idt d) = 256" "\<forall>k < n. gate_offset (idt d ! k) = stubs k \<and> ist (idt d ! k) = 0"
    by (simp_all add: d_def)
  have "gate_offset (idt (idt_set_gate (of_nat n) (stubs n) 0 0 d) ! k) = stubs k \<and> ist (idt (idt_set_gate (of_nat n) (stubs n) 0 0 d) ! k) = 0"
    if "k < Suc n" for k
    using that d Suc.prems u gate_offset_set [of "of_nat n" d "stubs n" 0 0] idt_set_gate_ist [of "of_nat n" d "stubs n" 0 0]
      idt_set_gate_other [of "of_nat n" k "stubs n" 0 0 d]
    by (cases "k = n") auto
  with d(1) show ?case by (simp add: d_def)
qed

lemma tss_after: "tss_ist (tss (gdt_init b ta ga c)) = replicate 7 0"
  by (simp add: gdt_init_def gdt_set_entry_def gdt_set_tss_def Let_def tss_zero_def)

lemma idt_init_tss: "tss (idt_init stubs ia c) = tss c"
proof -
  have "tss (fold (\<lambda>i. idt_set_gate (of_nat i) (stubs i) 0 0) ns c) = tss c" for ns c
    by (induction ns arbitrary: c) (simp_all add: idt_set_gate_def)
  then show ?thesis by (simp add: idt_init_def Let_def idt_set_gate_def)
qed

section \<open>Properties\<close>

text \<open>
  After \<open>idt_init\<close> every vector leads to its own stub with kernel-only gates, and the double fault gate alone names an
  interrupt stack. After \<open>gdt_init\<close> that stack pointer is 0: the double fault has no stack, although the comment
  promises a separate one.
\<close>

theorem idt_init_gates:
  assumes "k < 256"
  shows "gate_offset (idt (idt_init stubs ia (gdt_init b ta ga c)) ! k) = stubs k \<and>
         gate_stack (tss (idt_init stubs ia (gdt_init b ta ga c))) (idt (idt_init stubs ia (gdt_init b ta ga c)) ! k) =
           (if k = 8 then Some 0 else None)"
proof -
  define c0 where "c0 = gdt_init b ta ga c"
  define d where "d = fold (\<lambda>i. idt_set_gate (of_nat i) (stubs i) 0 0) [0..<256]
                        (c0\<lparr>idt := replicate 256 idt_zero, handlers := replicate 256 None\<rparr>)"
  have d: "length (idt d) = 256" "\<forall>k < 256. gate_offset (idt d ! k) = stubs k \<and> ist (idt d ! k) = 0"
    using idt_gates [of "c0\<lparr>idt := replicate 256 idt_zero, handlers := replicate 256 None\<rparr>" 256 stubs] by (simp_all add: d_def)
  have e: "idt (idt_init stubs ia c0) = idt (idt_set_gate 8 (stubs 8) 1 0 d)" by (simp add: idt_init_def Let_def d_def)
  have "gate_offset (idt (idt_set_gate 8 (stubs 8) 1 0 d) ! k) = stubs k \<and>
        ist (idt (idt_set_gate 8 (stubs 8) 1 0 d) ! k) = (if k = 8 then 1 else 0)"
    using assms d gate_offset_set [of 8 d "stubs 8" 1 0] idt_set_gate_ist [of 8 d "stubs 8" 1 0]
      idt_set_gate_other [of 8 k "stubs 8" 1 0 d] by (cases "k = 8") auto
  then show ?thesis
    unfolding c0_def [symmetric] e by (auto simp: gate_stack_def idt_init_tss c0_def tss_after split: if_splits)
qed

definition cpu_demo :: cpu where
  "cpu_demo = \<lparr>gdt = replicate 7 gdt_zero, gdt_ptr = (0, 0), tss = tss_zero, idt = [], idt_ptr = (0, 0), handlers = [],
     loaded_gdt = None, loaded_idt = None, loaded_tr = 0, ports = (\<lambda>_. 0), port_log = [], tick_count = 0\<rparr>"

theorem idt_init_gates_witness:
  "gate_offset (idt (idt_init (\<lambda>i. of_nat (16 * i)) 0 (gdt_init 1 2 3 cpu_demo)) ! 14) = 224 \<and>
   gate_stack (tss (idt_init (\<lambda>i. of_nat (16 * i)) 0 (gdt_init 1 2 3 cpu_demo)))
     (idt (idt_init (\<lambda>i. of_nat (16 * i)) 0 (gdt_init 1 2 3 cpu_demo)) ! 8) = Some 0"
  using idt_init_gates [of 14 "\<lambda>i. of_nat (16 * i)" 0 1 2 3 cpu_demo] idt_init_gates [of 8 "\<lambda>i. of_nat (16 * i)" 0 1 2 3 cpu_demo]
  by simp

end
