(* ===== verification/Sched.thy ===== *)
theory Sched
  imports Vfs Cpu
begin

text \<open>
  \<^verbatim>\<open>src/kernel/sched.c\<close>: the task table, the round-robin switch on timer and yield interrupts, task creation with its
  initial stack frame in the kernel heap, sleeping and exit. A handler that ends in \<^verbatim>\<open>int 0x81\<close> is
  the change of the table followed by the yield handler with the stack pointer \<open>rsp\<close> of the frame the
  processor has pushed. The linker symbols (the boot stack and the two assembly stubs) are arguments.
\<close>

section \<open>State\<close>

abbreviation (input) MAX_TASKS :: nat where "MAX_TASKS \<equiv> 16"
abbreviation (input) TASK_STACK_SZ :: u64 where "TASK_STACK_SZ \<equiv> 32768"

datatype TaskState = TASK_RUNNING | TASK_READY | TASK_SLEEPING | TASK_DEAD

record task =
  t_rsp :: u64
  stack_base :: u64
  cr3_phys :: u64
  t_state :: TaskState
  t_pid :: u32
  sleep_until :: u64
  t_name :: string
  brk_start :: u64
  brk_end :: u64
  mmap_next :: u64

record sched = vfs +
  tasks :: "task list"
  num_tasks :: nat
  current_idx :: nat
  next_pid :: u32
  sched_pending_cr3 :: u64
  cpu_st :: cpu

definition task_zero :: task where
  "task_zero = \<lparr>t_rsp = 0, stack_base = 0, cr3_phys = 0, t_state = TASK_RUNNING, t_pid = 0, sleep_until = 0,
                t_name = '''', brk_start = 0, brk_end = 0, mmap_next = 0\<rparr>"

definition put_task :: "nat \<Rightarrow> task \<Rightarrow> 'a sched_scheme \<Rightarrow> 'a sched_scheme" where
  "put_task i t s = s\<lparr>tasks := (tasks s)[i := t]\<rparr>"

definition set_state :: "nat \<Rightarrow> TaskState \<Rightarrow> 'a sched_scheme \<Rightarrow> 'a sched_scheme" where
  "set_state i st s = put_task i ((tasks s ! i)\<lparr>t_state := st\<rparr>) s"

section \<open>Initial frames\<close>

text \<open>The 26 words of an interrupt frame, stored below the top of the stack.\<close>

fun store_words :: "bmem \<Rightarrow> nat \<Rightarrow> u64 list \<Rightarrow> bmem" where
  "store_words m a [] = m"
| "store_words m a (w # ws) = store_words (wr64 m a w) (a + 8) ws"

definition frame_words :: "u64 \<Rightarrow> u64 \<Rightarrow> u64 \<Rightarrow> u64 \<Rightarrow> u64 list" where
  "frame_words seg cs rip rsp = replicate 4 seg @ replicate 15 0 @ [0, 0, rip, cs, 0x202, rsp, seg]"

definition build_fake_frame :: "u64 \<Rightarrow> u64 \<Rightarrow> 'a sched_scheme \<Rightarrow> u64 \<times> 'a sched_scheme" where
  "build_fake_frame stack_top entry s =
     (let frame = stack_top - 208
      in (frame, s\<lparr>hmem := store_words (hmem s) (unat frame) (frame_words 0x10 0x08 entry stack_top)\<rparr>))"

definition build_user_frame :: "u64 \<Rightarrow> u64 \<Rightarrow> u64 \<Rightarrow> 'a sched_scheme \<Rightarrow> u64 \<times> 'a sched_scheme" where
  "build_user_frame stack_top rip rsp3 s =
     (let frame = stack_top - 208
      in (frame, s\<lparr>hmem := store_words (hmem s) (unat frame) (frame_words 0x23 0x1B rip rsp3)\<rparr>))"

section \<open>Switching\<close>

definition pick_next :: "'a sched_scheme \<Rightarrow> nat option" where
  "pick_next s =
     List.find (\<lambda>idx. t_state (tasks s ! idx) = TASK_READY)
       (map (\<lambda>i. (current_idx s + i) mod num_tasks s) [1..<num_tasks s + 1])"

definition save_current :: "u64 \<Rightarrow> 'a sched_scheme \<Rightarrow> 'a sched_scheme" where
  "save_current cur_rsp s =
     (let t = tasks s ! current_idx s
      in put_task (current_idx s)
           (t\<lparr>t_rsp := cur_rsp, t_state := (if t_state t = TASK_RUNNING then TASK_READY else t_state t)\<rparr>) s)"

definition do_switch :: "u64 \<Rightarrow> u64 \<Rightarrow> 'a sched_scheme \<Rightarrow> u64 \<times> 'a sched_scheme" where
  "do_switch boot_stack_top cur_rsp s =
     (let s1 = save_current cur_rsp s
      in case pick_next s1 of
           None \<Rightarrow>
             (0, if t_state (tasks s1 ! current_idx s1) = TASK_READY then set_state (current_idx s1) TASK_RUNNING s1 else s1)
         | Some nxt \<Rightarrow>
             let s2 = (set_state nxt TASK_RUNNING s1)\<lparr>current_idx := nxt, sched_pending_cr3 := cr3_phys (tasks s1 ! nxt)\<rparr>;
                 ktop = (if stack_base (tasks s1 ! nxt) \<noteq> 0 then stack_base (tasks s1 ! nxt) + TASK_STACK_SZ else boot_stack_top)
             in (t_rsp (tasks s1 ! nxt), s2\<lparr>cpu_st := tss_set_rsp0 ktop (cpu_st s2)\<rparr>))"

definition wake_tasks :: "'a sched_scheme \<Rightarrow> 'a sched_scheme" where
  "wake_tasks s =
     s\<lparr>tasks := map (\<lambda>i. let t = tasks s ! i
                         in if i < num_tasks s \<and> t_state t = TASK_SLEEPING \<and> tick_count (cpu_st s) \<ge> sleep_until t
                            then t\<lparr>t_state := TASK_READY\<rparr> else t) [0..<length (tasks s)]\<rparr>"

definition sched_timer_c :: "u64 \<Rightarrow> u64 \<Rightarrow> 'a sched_scheme \<Rightarrow> u64 \<times> 'a sched_scheme" where
  "sched_timer_c boot_stack_top r s =
     do_switch boot_stack_top r
       (wake_tasks (s\<lparr>cpu_st := outb 0x20 0x20 ((cpu_st s)\<lparr>tick_count := tick_count (cpu_st s) + 1\<rparr>)\<rparr>))"

definition sched_yield_c :: "u64 \<Rightarrow> u64 \<Rightarrow> 'a sched_scheme \<Rightarrow> u64 \<times> 'a sched_scheme" where
  "sched_yield_c boot_stack_top r s = do_switch boot_stack_top r s"

definition sched_init :: "u64 \<Rightarrow> u64 \<Rightarrow> 'a sched_scheme \<Rightarrow> 'a sched_scheme" where
  "sched_init timer_stub yield_stub s =
     s\<lparr>tasks := (replicate MAX_TASKS task_zero)
         [0 := task_zero\<lparr>t_pid := next_pid s, t_state := TASK_RUNNING, cr3_phys := cr3 s, mmap_next := 0x40000000,
                          t_name := ''kernel''\<rparr>],
       next_pid := next_pid s + 1, num_tasks := 1, current_idx := 0,
       cpu_st := idt_set_raw_handler 0x81 yield_stub (idt_set_raw_handler 32 timer_stub (cpu_st s))\<rparr>"

section \<open>Tasks\<close>

definition add_task :: "task \<Rightarrow> 'a sched_scheme \<Rightarrow> int \<times> 'a sched_scheme" where
  "add_task t s =
     (sint (next_pid s),
      (put_task (num_tasks s) (t\<lparr>t_pid := next_pid s\<rparr>) s)\<lparr>next_pid := next_pid s + 1, num_tasks := num_tasks s + 1\<rparr>)"

definition task_create :: "string \<Rightarrow> u64 \<Rightarrow> 'a sched_scheme \<Rightarrow> (int \<times> 'a sched_scheme) res" where
  "task_create name entry s =
     (if num_tasks s \<ge> MAX_TASKS then Inr (- 1, s)
      else case kmalloc TASK_STACK_SZ s of
             Inl e \<Rightarrow> Inl e
           | Inr (stack, s1) \<Rightarrow>
               if stack = 0 then Inr (- 1, s1)
               else case build_fake_frame (stack + TASK_STACK_SZ) entry s1 of (frame, s2) \<Rightarrow>
                 Inr (add_task \<lparr>t_rsp = frame, stack_base = stack, cr3_phys = cr3_phys (tasks s1 ! 0), t_state = TASK_READY,
                        t_pid = 0, sleep_until = 0, t_name = take 31 name, brk_start = 0, brk_end = 0, mmap_next = 0\<rparr> s2))"

definition task_create_user ::
  "string \<Rightarrow> u64 \<Rightarrow> u64 \<Rightarrow> u64 \<Rightarrow> u64 \<Rightarrow> u64 \<Rightarrow> 'a sched_scheme \<Rightarrow> (int \<times> 'a sched_scheme) res" where
  "task_create_user name cr3p rip user_rsp brk0 brk1 s =
     (if num_tasks s \<ge> MAX_TASKS then Inr (- 1, s)
      else case kmalloc TASK_STACK_SZ s of
             Inl e \<Rightarrow> Inl e
           | Inr (stack, s1) \<Rightarrow>
               if stack = 0 then Inr (- 1, s1)
               else case build_user_frame (stack + TASK_STACK_SZ) rip user_rsp s1 of (frame, s2) \<Rightarrow>
                 Inr (add_task \<lparr>t_rsp = frame, stack_base = stack, cr3_phys = cr3p, t_state = TASK_READY,
                        t_pid = 0, sleep_until = 0, t_name = take 31 name, brk_start = brk0, brk_end = brk1,
                        mmap_next = 0x40000000\<rparr> s2))"

definition sched_pid_alive :: "u32 \<Rightarrow> 'a sched_scheme \<Rightarrow> bool" where
  "sched_pid_alive pid s =
     (case find_idx (\<lambda>t. t_pid t = pid) (take (num_tasks s) (tasks s)) of
        None \<Rightarrow> False
      | Some i \<Rightarrow> t_state (tasks s ! i) \<noteq> TASK_DEAD)"

definition task_exit :: "u64 \<Rightarrow> u64 \<Rightarrow> 'a sched_scheme \<Rightarrow> u64 \<times> 'a sched_scheme" where
  "task_exit boot_stack_top rsp s = sched_yield_c boot_stack_top rsp (set_state (current_idx s) TASK_DEAD s)"

definition task_sleep :: "u64 \<Rightarrow> u64 \<Rightarrow> u64 \<Rightarrow> 'a sched_scheme \<Rightarrow> u64 \<times> 'a sched_scheme" where
  "task_sleep boot_stack_top ms rsp s =
     (let t = tasks s ! current_idx s
      in sched_yield_c boot_stack_top rsp
           (put_task (current_idx s) (t\<lparr>t_state := TASK_SLEEPING, sleep_until := tick_count (cpu_st s) + ms\<rparr>) s))"

definition sched_yield :: "u64 \<Rightarrow> u64 \<Rightarrow> 'a sched_scheme \<Rightarrow> u64 \<times> 'a sched_scheme" where
  "sched_yield boot_stack_top rsp s = sched_yield_c boot_stack_top rsp s"

text \<open>
  \<open>sched_wait_pid\<close> yields until the task is dead. \<open>others\<close> are the changes the rest of the system makes until the
  waiting task runs again, one for each yield; \<open>None\<close> means that it still waits when they are used up.
\<close>

fun sched_wait_pid ::
  "u64 \<Rightarrow> u32 \<Rightarrow> (u64 \<times> ('a sched_scheme \<Rightarrow> 'a sched_scheme)) list \<Rightarrow> 'a sched_scheme \<Rightarrow> 'a sched_scheme option" where
  "sched_wait_pid boot_stack_top pid [] s = (if sched_pid_alive pid s then None else Some s)"
| "sched_wait_pid boot_stack_top pid ((rsp, others) # rest) s =
     (if sched_pid_alive pid s then sched_wait_pid boot_stack_top pid rest (others (snd (sched_yield boot_stack_top rsp s)))
      else Some s)"

definition sched_current :: "'a sched_scheme \<Rightarrow> task" where
  "sched_current s = tasks s ! current_idx s"

text \<open>A negative index passes the test of \<open>sched_get_task\<close> and is used.\<close>

definition sched_get_task :: "int \<Rightarrow> 'a sched_scheme \<Rightarrow> task option res" where
  "sched_get_task idx s =
     (if idx \<ge> int (num_tasks s) then Inr None else if idx < 0 then Inl OutOfBounds else Inr (Some (tasks s ! nat idx)))"

definition sched_task_count :: "'a sched_scheme \<Rightarrow> nat" where
  "sched_task_count s = num_tasks s"

section \<open>The table invariant\<close>

definition sched_ok :: "'a sched_scheme \<Rightarrow> bool" where
  "sched_ok s \<longleftrightarrow>
     length (tasks s) = MAX_TASKS \<and> num_tasks s \<le> MAX_TASKS \<and> current_idx s < num_tasks s \<and>
     (\<forall>i < num_tasks s. t_state (tasks s ! i) = TASK_RUNNING \<longrightarrow> i = current_idx s)"

text \<open>Whether task \<open>j\<close> is waiting for the processor.\<close>

definition waiting :: "nat \<Rightarrow> 'a sched_scheme \<Rightarrow> bool" where
  "waiting j s \<longleftrightarrow> j < num_tasks s \<and> j \<noteq> current_idx s \<and> t_state (tasks s ! j) = TASK_READY"

text \<open>The order in which the switch looks at the tasks.\<close>

definition scan_order :: "'a sched_scheme \<Rightarrow> nat list" where
  "scan_order s = map (\<lambda>i. (current_idx s + i) mod num_tasks s) [1..<num_tasks s + 1]"

lemma scan_order_sel:
  "length (scan_order s) = num_tasks s" "j < num_tasks s \<Longrightarrow> scan_order s ! j = (current_idx s + Suc j) mod num_tasks s"
  by (simp_all add: scan_order_def del: upt_Suc)

lemma pick_next_Some:
  assumes "pick_next s = Some k"
  obtains i where "1 \<le> i" "i \<le> num_tasks s" "k = (current_idx s + i) mod num_tasks s" "t_state (tasks s ! k) = TASK_READY"
    "\<And>j. 1 \<le> j \<Longrightarrow> j < i \<Longrightarrow> t_state (tasks s ! ((current_idx s + j) mod num_tasks s)) \<noteq> TASK_READY"
proof -
  from assms obtain i where i: "i < num_tasks s" "t_state (tasks s ! (scan_order s ! i)) = TASK_READY" "k = scan_order s ! i"
    "\<forall>j < i. t_state (tasks s ! (scan_order s ! j)) \<noteq> TASK_READY"
    unfolding pick_next_def scan_order_def [symmetric] find_Some_iff scan_order_sel(1) by blast
  show ?thesis
  proof (rule that [of "Suc i"])
    show "t_state (tasks s ! ((current_idx s + j) mod num_tasks s)) \<noteq> TASK_READY" if "1 \<le> j" "j < Suc i" for j
      using i(4) [rule_format, of "j - 1"] scan_order_sel(2) [of "j - 1" s] i(1) that by simp
  qed (use i scan_order_sel(2) [of i s] in auto)
qed

lemma pick_next_None:
  assumes "pick_next s = None" and "j < num_tasks s" and "current_idx s < num_tasks s"
  shows "t_state (tasks s ! j) \<noteq> TASK_READY"
proof -
  define i where "i = (if j > current_idx s then j - current_idx s else j + num_tasks s - current_idx s)"
  have i: "1 \<le> i" "i \<le> num_tasks s" "(current_idx s + i) mod num_tasks s = j" using assms(2,3) by (auto simp: i_def)
  then have "scan_order s ! (i - 1) = j" using scan_order_sel(2) [of "i - 1" s] by simp
  moreover have "i - 1 < length (scan_order s)" using i by (simp add: scan_order_sel)
  ultimately have "j \<in> set (scan_order s)" by (metis nth_mem)
  with assms(1) show ?thesis unfolding pick_next_def scan_order_def [symmetric] find_None_iff by blast
qed

lemma save_current_sel [simp]:
  "num_tasks (save_current r s) = num_tasks s" "current_idx (save_current r s) = current_idx s"
  "length (tasks (save_current r s)) = length (tasks s)" "j \<noteq> current_idx s \<Longrightarrow> tasks (save_current r s) ! j = tasks s ! j"
  by (simp_all add: save_current_def put_task_def Let_def)

lemma set_state_sel [simp]:
  "num_tasks (set_state i st s) = num_tasks s" "current_idx (set_state i st s) = current_idx s"
  "length (tasks (set_state i st s)) = length (tasks s)" "j \<noteq> i \<Longrightarrow> tasks (set_state i st s) ! j = tasks s ! j"
  "i < length (tasks s) \<Longrightarrow> t_state (tasks (set_state i st s) ! i) = st"
  by (simp_all add: set_state_def put_task_def)

text \<open>After saving the current task nobody is marked running.\<close>

lemma save_current_idle:
  assumes "sched_ok s" and "i < num_tasks s"
  shows "t_state (tasks (save_current r s) ! i) \<noteq> TASK_RUNNING"
proof (cases "i = current_idx s")
  case True
  with assms show ?thesis by (auto simp: save_current_def put_task_def Let_def sched_ok_def)
next
  case False
  with assms show ?thesis by (auto simp: sched_ok_def)
qed

lemma do_switch_fields:
  "num_tasks (snd (do_switch b r s)) = num_tasks s" "length (tasks (snd (do_switch b r s))) = length (tasks s)"
  by (simp_all add: do_switch_def Let_def split: option.splits)

lemma do_switch_ok:
  assumes ok: "sched_ok s"
  shows "sched_ok (snd (do_switch b r s))"
proof (cases "pick_next (save_current r s)")
  case None
  with ok save_current_idle [OF ok, of _ r] show ?thesis
    by (auto simp: do_switch_def Let_def sched_ok_def) (metis set_state_sel(4))
next
  case (Some k)
  obtain i where i: "k = (current_idx s + i) mod num_tasks s" using pick_next_Some [OF Some] by auto
  have k: "k < num_tasks s" using ok by (auto simp: i sched_ok_def)
  have "j = k" if "j < num_tasks s" "t_state (tasks (set_state k TASK_RUNNING (save_current r s)) ! j) = TASK_RUNNING" for j
    using save_current_idle [OF ok that(1), of r] that(2) by (cases "j = k") simp_all
  with ok k Some show ?thesis by (auto simp: do_switch_def Let_def sched_ok_def)
qed

section \<open>No starvation\<close>

definition rr_dist :: "nat \<Rightarrow> 'a sched_scheme \<Rightarrow> nat" where
  "rr_dist j s = (j + num_tasks s - current_idx s) mod num_tasks s"

lemma rr_dist_bounds:
  assumes "sched_ok s" and "j < num_tasks s" and "j \<noteq> current_idx s"
  shows "1 \<le> rr_dist j s" "rr_dist j s < num_tasks s" "(current_idx s + rr_dist j s) mod num_tasks s = j"
proof -
  have c: "current_idx s < num_tasks s" using assms(1) by (simp add: sched_ok_def)
  have d: "rr_dist j s = (if current_idx s \<le> j then j - current_idx s else j + num_tasks s - current_idx s)"
  proof (cases "current_idx s \<le> j")
    case True
    then have "j + num_tasks s - current_idx s = (j - current_idx s) + num_tasks s" using c by simp
    with True assms(2) show ?thesis unfolding rr_dist_def by (simp only: mod_add_self2) simp
  next
    case False
    with assms(2) show ?thesis by (simp add: rr_dist_def)
  qed
  show "1 \<le> rr_dist j s" "rr_dist j s < num_tasks s" "(current_idx s + rr_dist j s) mod num_tasks s = j"
    using c assms(2,3) by (auto simp: d)
qed

lemma cyclic_step:
  fixes c d i n :: nat
  assumes "c < n" and "1 \<le> i" and "i \<le> d" and "d < n"
  shows "((c + d) mod n + n - (c + i) mod n) mod n = d - i"
proof -
  consider "c + d < n" | "c + i < n" "n \<le> c + d" | "n \<le> c + i" by linarith
  then show ?thesis
  proof cases
    case 1
    then have "(c + d) mod n + n - (c + i) mod n = (d - i) + n" using assms by simp
    then show ?thesis using assms by (simp only: mod_add_self2) simp
  next
    case 2
    then have "(c + d) mod n = c + d - n" using assms by (simp add: le_mod_geq)
    with 2 assms have "(c + d) mod n + n - (c + i) mod n = d - i" by simp
    then show ?thesis using assms by simp
  next
    case 3
    then have "(c + d) mod n = c + d - n" "(c + i) mod n = c + i - n" using assms by (simp_all add: le_mod_geq)
    with 3 assms have "(c + d) mod n + n - (c + i) mod n = (d - i) + n" by simp
    then show ?thesis using assms by (simp only: mod_add_self2) simp
  qed
qed

lemma do_switch_progress:
  fixes b r :: u64
  assumes ok: "sched_ok s" and w: "waiting j s"
  defines "s' \<equiv> snd (do_switch b r s)"
  shows "current_idx s' = j \<or> waiting j s' \<and> rr_dist j s' < rr_dist j s"
proof -
  note d = rr_dist_bounds [OF ok, of j]
  have j: "j < num_tasks s" "j \<noteq> current_idx s" "t_state (tasks s ! j) = TASK_READY" using w by (simp_all add: waiting_def)
  let ?s1 = "save_current r s"
  have r1: "t_state (tasks ?s1 ! j) = TASK_READY" using j by simp
  have cur: "current_idx s < num_tasks s" using ok by (simp add: sched_ok_def)
  obtain k where k: "pick_next ?s1 = Some k"
    using pick_next_None [of ?s1 j] r1 j(1) cur by (cases "pick_next ?s1") auto
  obtain i where i: "1 \<le> i" "k = (current_idx s + i) mod num_tasks s"
    "\<And>m. 1 \<le> m \<Longrightarrow> m < i \<Longrightarrow> t_state (tasks ?s1 ! ((current_idx s + m) mod num_tasks s)) \<noteq> TASK_READY"
    using pick_next_Some [OF k] by auto
  have le: "i \<le> rr_dist j s"
  proof (rule ccontr)
    assume "\<not> ?thesis"
    with i(3) [of "rr_dist j s"] d j(1,2) r1 show False by simp
  qed
  have s': "current_idx s' = k" "num_tasks s' = num_tasks s" "\<And>m. m \<noteq> k \<Longrightarrow> tasks s' ! m = tasks ?s1 ! m"
    using k by (simp_all add: s'_def do_switch_def Let_def)
  show ?thesis
  proof (cases "k = j")
    case False
    have "rr_dist j s' = rr_dist j s - i"
      using cyclic_step [OF cur i(1) le d(2) [OF j(1,2)]] d(3) [OF j(1,2)] s' i(2) by (simp add: rr_dist_def [of j s'])
    moreover have "waiting j s'" using False j r1 s' by (simp add: waiting_def)
    ultimately show ?thesis using i(1) le by simp
  qed (use s' in simp)
qed

text \<open>What can happen on the processor between two creations of tasks.\<close>

datatype sched_event = Timer u64 | Yield u64 | Exit u64 | Sleep u64 u64

fun sched_event_run :: "u64 \<Rightarrow> sched_event \<Rightarrow> 'a sched_scheme \<Rightarrow> 'a sched_scheme" where
  "sched_event_run b (Timer r) s = snd (sched_timer_c b r s)"
| "sched_event_run b (Yield r) s = snd (sched_yield b r s)"
| "sched_event_run b (Exit r) s = snd (task_exit b r s)"
| "sched_event_run b (Sleep ms r) s = snd (task_sleep b ms r s)"

lemma event_is_switch:
  assumes "sched_ok s"
  obtains s1 r where "sched_event_run b e s = snd (do_switch b r s1)" "sched_ok s1" "num_tasks s1 = num_tasks s"
    "current_idx s1 = current_idx s" "\<And>j. waiting j s \<Longrightarrow> waiting j s1"
proof (cases e)
  case (Timer r)
  let ?s0 = "s\<lparr>cpu_st := outb 0x20 0x20 ((cpu_st s)\<lparr>tick_count := tick_count (cpu_st s) + 1\<rparr>)\<rparr>"
  show ?thesis
  proof (rule that [of r "wake_tasks ?s0"])
    show "sched_ok (wake_tasks ?s0)" using assms by (auto simp: sched_ok_def wake_tasks_def Let_def split: if_splits)
    show "waiting j (wake_tasks ?s0)" if "waiting j s" for j
      using that assms by (auto simp: waiting_def wake_tasks_def Let_def sched_ok_def)
  qed (simp_all add: Timer sched_timer_c_def wake_tasks_def)
next
  case (Yield r)
  then show ?thesis using assms by (intro that [of r s]) (simp_all add: sched_yield_def sched_yield_c_def)
next
  case (Exit r)
  have "sched_ok (set_state (current_idx s) TASK_DEAD s)"
    using assms by (auto simp: sched_ok_def) (metis set_state_sel(4))
  then show ?thesis
    using Exit by (intro that [of r "set_state (current_idx s) TASK_DEAD s"]) (auto simp: task_exit_def sched_yield_c_def waiting_def)
next
  case (Sleep ms r)
  let ?t = "(tasks s ! current_idx s)\<lparr>t_state := TASK_SLEEPING, sleep_until := tick_count (cpu_st s) + ms\<rparr>"
  have "sched_ok (put_task (current_idx s) ?t s)"
    using assms by (auto simp: sched_ok_def put_task_def nth_list_update split: if_splits)
  then show ?thesis
    using Sleep by (intro that [of r "put_task (current_idx s) ?t s"])
      (auto simp: task_sleep_def sched_yield_c_def waiting_def Let_def put_task_def)
qed

lemma event_progress:
  assumes ok: "sched_ok s" and w: "waiting j s"
  shows "sched_ok (sched_event_run b e s)"
    and "current_idx (sched_event_run b e s) = j \<or>
         waiting j (sched_event_run b e s) \<and> rr_dist j (sched_event_run b e s) < rr_dist j s"
proof -
  obtain s1 r where run: "sched_event_run b e s = snd (do_switch b r s1)" and s1: "sched_ok s1" "num_tasks s1 = num_tasks s"
    "current_idx s1 = current_idx s" "waiting j s1"
    using event_is_switch [OF ok] w by metis
  have "rr_dist j s1 = rr_dist j s" using s1 by (simp add: rr_dist_def)
  with do_switch_ok [OF s1(1)] do_switch_progress [OF s1(1,4)] run
  show "sched_ok (sched_event_run b e s)"
    and "current_idx (sched_event_run b e s) = j \<or>
         waiting j (sched_event_run b e s) \<and> rr_dist j (sched_event_run b e s) < rr_dist j s" by auto
qed

lemma runs_within:
  assumes "sched_ok s" and "waiting j s" and "rr_dist j s \<le> length es"
  shows "\<exists>k \<le> rr_dist j s. current_idx (fold (sched_event_run b) (take k es) s) = j"
  using assms
proof (induction es arbitrary: s)
  case Nil
  with rr_dist_bounds(1) [OF Nil.prems(1), of j] show ?case by (simp add: waiting_def)
next
  case (Cons e es)
  let ?s = "sched_event_run b e s"
  have "1 \<le> rr_dist j s" using rr_dist_bounds(1) [OF Cons.prems(1), of j] Cons.prems(2) by (simp add: waiting_def)
  from event_progress(2) [OF Cons.prems(1,2), of b e] show ?case
  proof
    assume "current_idx ?s = j"
    with \<open>1 \<le> rr_dist j s\<close> show ?thesis by (intro exI [of _ 1]) simp
  next
    assume w: "waiting j ?s \<and> rr_dist j ?s < rr_dist j s"
    with Cons.prems(3) have "rr_dist j ?s \<le> length es" by simp
    from Cons.IH [OF event_progress(1) [OF Cons.prems(1,2)] conjunct1 [OF w] this] obtain k where
      "k \<le> rr_dist j ?s" "current_idx (fold (sched_event_run b) (take k es) ?s) = j" by blast
    with w show ?thesis by (intro exI [of _ "Suc k"]) simp
  qed
qed

section \<open>New tasks\<close>

lemma store_words_outside: "x < a \<or> a + 8 * length ws \<le> x \<Longrightarrow> store_words m a ws x = m x"
proof (induction ws arbitrary: m a)
  case (Cons w ws)
  then have "store_words (wr64 m a w) (a + 8) ws x = wr64 m a w x" by (intro Cons.IH) auto
  moreover have "x < a \<or> a + 8 \<le> x" using Cons.prems by auto
  ultimately show ?case by (simp add: wr64_other_byte)
qed simp

lemma rd64_store_words: "i < length ws \<Longrightarrow> rd64 (store_words m a ws) (a + 8 * i) = ws ! i"
proof (induction ws arbitrary: m a i)
  case (Cons w ws)
  show ?case
  proof (cases i)
    case 0
    have "rd64 (store_words (wr64 m a w) (a + 8) ws) a = rd64 (wr64 m a w) a"
      by (rule rd64_cong) (simp add: store_words_outside)
    with 0 show ?thesis by simp
  next
    case (Suc k)
    with Cons.IH [of k "wr64 m a w" "a + 8"] Cons.prems show ?thesis by (simp add: algebra_simps)
  qed
qed simp

lemma length_frame_words [simp]: "length (frame_words seg cs rip rsp) = 26"
  by (simp add: frame_words_def)

lemma frame_words_nth:
  "frame_words seg cs rip rsp ! 21 = rip" "frame_words seg cs rip rsp ! 22 = cs" "frame_words seg cs rip rsp ! 23 = 0x202"
  "frame_words seg cs rip rsp ! 24 = rsp" "frame_words seg cs rip rsp ! 25 = seg"
  by (simp_all add: frame_words_def nth_append)

text \<open>A frame stored below the top of a fresh stack stays inside it.\<close>

lemma frame_in_stack:
  fixes s :: "'a heap_scheme"
  assumes h: "heap_live L s" and k: "L p = Some k" "32768 \<le> k" and ws: "length ws = 26"
  defines "f \<equiv> p + TASK_STACK_SZ - 208"
  shows "unat f = unat p + 32560" "heap_live L (s\<lparr>hmem := store_words (hmem s) (unat f) ws\<rparr>)"
    "keeps (L(p := None)) (hmem s) (store_words (hmem s) (unat f) ws)"
proof -
  have b: "unat p + k < 2 ^ 64" using live_below [OF h k(1)] .
  show u: "unat f = unat p + 32560"
  proof -
    have "f = p + 32560" by (simp add: f_def)
    then show ?thesis using b k(2) by (simp add: unat_word_ariths)
  qed
  have out: "store_words (hmem s) (unat f) ws x = hmem s x" if "x \<notin> {unat p..<unat p + k}" for x
    using that k(2) ws by (intro store_words_outside) (auto simp: u)
  then show "heap_live L (s\<lparr>hmem := store_words (hmem s) (unat f) ws\<rparr>)"
    using k(1) by (intro ka.set_mem_ok [OF h]) blast
  show "keeps (L(p := None)) (hmem s) (store_words (hmem s) (unat f) ws)"
    unfolding keeps_def
  proof (intro allI impI ballI)
    fix q j x
    assume q: "(L(p := None)) q = Some j" "x \<in> {unat q..<unat q + j}"
    then have "q \<noteq> p" "L q = Some j" by (auto split: if_splits)
    with ka.disjoint [OF h k(1), of q j] q(2) show "store_words (hmem s) (unat f) ws x = hmem s x"
      by (intro out) auto
  qed
qed

lemma heap_live_sched [simp]:
  "heap_live L (put_task i t s) = heap_live L s" "heap_live L (snd (add_task t s)) = heap_live L s"
  by (rule heap_live_cong; simp add: put_task_def add_task_def)+

lemma heap_more_sched:
  fixes s s' :: "'a sched_scheme"
  assumes "heap.more s' = heap.more s"
  shows "tasks s' = tasks s" "num_tasks s' = num_tasks s" "current_idx s' = current_idx s" "next_pid s' = next_pid s"
  using assms by (cases s; cases s'; simp)+

lemma task_create_user_spec:
  fixes s :: "'a sched_scheme"
  assumes ok: "sched_ok s" and h: "heap_live L s" and room: "heap_room s 32768" and n: "num_tasks s < 16"
    and run: "task_create_user name cr3p rip usp b0 b1 s = Inr (r, s')"
  shows "r = sint (next_pid s) \<and> sched_ok s' \<and> num_tasks s' = num_tasks s + 1 \<and> current_idx s' = current_idx s \<and>
         (\<forall>i < num_tasks s. tasks s' ! i = tasks s ! i) \<and>
         (let t = tasks s' ! num_tasks s
          in t_state t = TASK_READY \<and> t_pid t = next_pid s \<and> cr3_phys t = cr3p \<and> brk_start t = b0 \<and> brk_end t = b1 \<and>
             L (stack_base t) = None \<and> (\<exists>k \<ge> 32768. heap_live (L(stack_base t \<mapsto> k)) s') \<and>
             unat (t_rsp t) + 208 = unat (stack_base t) + 32768 \<and>
             rd64 (hmem s') (unat (t_rsp t) + 168) = rip \<and> rd64 (hmem s') (unat (t_rsp t) + 176) = 0x1B \<and>
             rd64 (hmem s') (unat (t_rsp t) + 192) = usp) \<and>
         keeps L (hmem s) (hmem s')"
proof -
  from run n obtain p s1 where m: "kmalloc TASK_STACK_SZ s = Inr (p, s1)"
    by (auto simp: task_create_user_def split: sum.splits)
  have room': "heap_room s (unat TASK_STACK_SZ)" using room by simp
  from ka.malloc_ok [OF h _ room' m] obtain k where
    k: "p \<noteq> 0" "L p = None" "keeps L (hmem s) (hmem s1)" "32768 \<le> k" "heap_live (L(p \<mapsto> k)) s1" by auto
  note T = heap_more_sched [OF kmalloc_more [OF m]]
  define f where "f = p + TASK_STACK_SZ - 208"
  define ws where "ws = frame_words 0x23 0x1B rip usp"
  define s2 where "s2 = s1\<lparr>hmem := store_words (hmem s1) (unat f) ws\<rparr>"
  define t where "t = \<lparr>t_rsp = f, stack_base = p, cr3_phys = cr3p, t_state = TASK_READY, t_pid = 0, sleep_until = 0,
                       t_name = take 31 name, brk_start = b0, brk_end = b1, mmap_next = 0x40000000\<rparr>"
  have rs: "(r, s') = add_task t s2"
    using run n m k(1) by (simp add: task_create_user_def build_user_frame_def Let_def f_def ws_def s2_def t_def)
  have "length ws = 26" by (simp add: ws_def)
  note F = frame_in_stack [OF k(5) _ k(4) this, of p, folded f_def]
  have s': "s' = (put_task (num_tasks s) (t\<lparr>t_pid := next_pid s\<rparr>) s2)\<lparr>next_pid := next_pid s + 1, num_tasks := num_tasks s + 1\<rparr>"
    and r: "r = sint (next_pid s)"
    using rs T by (simp_all add: add_task_def s2_def)
  have tk: "tasks s' = (tasks s)[num_tasks s := t\<lparr>t_pid := next_pid s\<rparr>]" by (simp add: s' put_task_def s2_def T)
  have hm: "hmem s' = store_words (hmem s1) (unat f) ws" by (simp add: s' put_task_def s2_def)
  have "heap_live (L(p \<mapsto> k)) s2" using F(2) by (simp add: s2_def)
  then have hl: "heap_live (L(p \<mapsto> k)) s'"
    using heap_live_cong [of s' s2] by (simp add: s' put_task_def)
  have keep: "keeps L (hmem s) (hmem s')"
  proof (rule keeps_trans [OF k(3)])
    have "(L(p \<mapsto> k))(p := None) = L" using k(2) by auto
    then show "keeps L (hmem s1) (hmem s')" using F(3) hm by simp
  qed
  have rd: "rd64 (hmem s') (unat f + 8 * i) = ws ! i" if "i < 26" for i
    using rd64_store_words [of i ws "hmem s1" "unat f"] that by (simp add: hm ws_def)
  have len: "length (tasks s) = 16" using ok by (simp add: sched_ok_def)
  have "sched_ok s'"
    using ok n len by (auto simp: sched_ok_def s' put_task_def s2_def T t_def nth_list_update)
  moreover have "num_tasks s' = num_tasks s + 1" "current_idx s' = current_idx s" by (simp_all add: s' put_task_def s2_def T)
  moreover have "tasks s' ! num_tasks s = t\<lparr>t_pid := next_pid s\<rparr>" using n len by (simp add: tk)
  ultimately show ?thesis
    using r hl keep k(2,4) rd [of 21] rd [of 22] rd [of 24] F(1)
    by (auto simp: tk t_def Let_def ws_def frame_words_nth)
qed

section \<open>Properties\<close>

text \<open>
  C12: no task starves. A task that is ready and not running is running after at most \<open>num_tasks - 1\<close> switches, whatever
  the switches are: timer interrupts, yields, exits and sleeps of the tasks that run in between.
\<close>

theorem sched_no_starvation:
  assumes "sched_ok s" and "waiting j s" and "num_tasks s - 1 \<le> length es"
  shows "\<exists>k \<le> num_tasks s - 1. current_idx (fold (sched_event_run boot_stack_top) (take k es) s) = j"
proof -
  have d: "rr_dist j s \<le> num_tasks s - 1" using rr_dist_bounds(2) [OF assms(1), of j] assms(2) by (simp add: waiting_def)
  with assms(3) have "rr_dist j s \<le> length es" by simp
  from runs_within [OF assms(1,2) this] d show ?thesis by (meson order_trans)
qed

definition sched_demo :: sched where
  "sched_demo =
     \<lparr>bitmap = bitmap full_demo, total_frames = total_frames full_demo, free_frames = free_frames full_demo,
      pmem = pmem full_demo, cr3 = cr3 full_demo, current_pml4 = current_pml4 full_demo,
      hmem = hmem full_demo, free_list = free_list full_demo, heap_end = heap_end full_demo,
      shm_objs = [], nodes = [], next_inode = 0, vfs_cwd = 0, fds = [],
      kbd_dev = kbd_start, mouse_dev = mouse_start, serial_in = [], serial_out = [], con = console_demo,
      tasks = (replicate 16 task_zero)[1 := task_zero\<lparr>t_state := TASK_READY, t_pid := 2\<rparr>, 2 := task_zero\<lparr>t_state := TASK_READY, t_pid := 3\<rparr>],
      num_tasks = 3, current_idx = 0, next_pid = 4, sched_pending_cr3 = 0, cpu_st = cpu_demo\<rparr>"

lemma sched_demo_ok: "sched_ok sched_demo" "waiting 2 sched_demo" "heap_live [0x10018 \<mapsto> 4064] sched_demo"
  "num_tasks sched_demo = 3" "heap_end sched_demo = 0x11000" "current_idx sched_demo = 0"
proof -
  show "heap_live [0x10018 \<mapsto> 4064] sched_demo"
    using full_demo_live(1) heap_live_cong [of sched_demo full_demo] by (simp add: sched_demo_def)
  have "i < 3 \<Longrightarrow> i = 0 \<or> i = 1 \<or> i = 2" for i :: nat by auto
  then show "sched_ok sched_demo" by (fastforce simp: sched_ok_def sched_demo_def)
qed (use full_demo_live(2) in \<open>simp_all add: waiting_def sched_demo_def\<close>)

theorem sched_no_starvation_witness:
  "waiting 2 sched_demo \<and> (\<exists>k \<le> 2. current_idx (fold (sched_event_run 0) (take k [Timer 64, Yield 72]) sched_demo) = 2)"
  using sched_no_starvation [OF sched_demo_ok(1,2), of "[Timer 64, Yield 72]" 0] sched_demo_ok(2,4) by simp

text \<open>
  C30: a new user task is put at the end of the table, ready, with the page table and heap bounds it was given, on a kernel
  stack that is a fresh allocation of at least 32 KiB. Its saved stack pointer is a frame at the top of that
  stack whose return address, code segment and stack pointer are the user's; other tasks and every live byte
  of the heap are untouched.
\<close>

theorem task_create_user_frame:
  fixes s :: "'a sched_scheme"
  assumes "sched_ok s" and "heap_live L s" and "heap_room s 32768" and "num_tasks s < 16"
  shows "case task_create_user name cr3p rip usp b0 b1 s of
           Inl e \<Rightarrow> e \<noteq> Diverges
         | Inr (r, s') \<Rightarrow>
             r = sint (next_pid s) \<and> sched_ok s' \<and> num_tasks s' = num_tasks s + 1 \<and> current_idx s' = current_idx s \<and>
             (\<forall>i < num_tasks s. tasks s' ! i = tasks s ! i) \<and>
             (let t = tasks s' ! num_tasks s
              in t_state t = TASK_READY \<and> t_pid t = next_pid s \<and> cr3_phys t = cr3p \<and> brk_start t = b0 \<and> brk_end t = b1 \<and>
                 L (stack_base t) = None \<and> (\<exists>k \<ge> 32768. heap_live (L(stack_base t \<mapsto> k)) s') \<and>
                 unat (t_rsp t) + 208 = unat (stack_base t) + 32768 \<and>
                 rd64 (hmem s') (unat (t_rsp t) + 168) = rip \<and> rd64 (hmem s') (unat (t_rsp t) + 176) = 0x1B \<and>
                 rd64 (hmem s') (unat (t_rsp t) + 192) = usp) \<and>
             keeps L (hmem s) (hmem s')"
proof (cases "task_create_user name cr3p rip usp b0 b1 s")
  case (Inl e)
  with assms(4) have "kmalloc TASK_STACK_SZ s = Inl e"
    by (auto simp: task_create_user_def build_user_frame_def Let_def split: sum.splits if_splits)
  with ka.malloc_err [OF assms(2), of TASK_STACK_SZ e] assms(3) Inl show ?thesis by simp
next
  case (Inr x)
  then obtain r s' where run: "task_create_user name cr3p rip usp b0 b1 s = Inr (r, s')" by (cases x) auto
  show ?thesis unfolding run sum.case prod.case by (rule task_create_user_spec [OF assms run])
qed

theorem task_create_user_frame_witness:
  "sched_ok sched_demo \<and> heap_live [0x10018 \<mapsto> 4064] sched_demo \<and>
   (case task_create_user ''init'' 1 2 3 4 5 sched_demo of
      Inl e \<Rightarrow> e \<noteq> Diverges
    | Inr (r, s') \<Rightarrow> num_tasks s' = 4 \<and> rd64 (hmem s') (unat (t_rsp (tasks s' ! 3)) + 168) = 2)"
proof -
  have "heap_room sched_demo 32768" "num_tasks sched_demo < 16" by (simp_all add: heap_room_def sched_demo_ok)
  from task_create_user_frame [OF sched_demo_ok(1,3) this, where name = "''init''" and cr3p = 1 and rip = 2 and usp = 3 and ?b0.0 = 4 and ?b1.0 = 5] sched_demo_ok
  show ?thesis by (auto simp: Let_def split: sum.splits)
qed

text \<open>
  The routine \<open>task_sleep\<close> does not wait when no other task is ready: the switch finds nobody, returns 0, and the caller goes on at
  once, marked as sleeping while it runs.
\<close>

theorem task_sleep_returns_at_once:
  assumes "sched_ok s" and "\<forall>i < num_tasks s. i \<noteq> current_idx s \<longrightarrow> t_state (tasks s ! i) \<noteq> TASK_READY"
  shows "fst (task_sleep boot_stack_top ms rsp s) = 0 \<and>
         current_idx (snd (task_sleep boot_stack_top ms rsp s)) = current_idx s \<and>
         t_state (sched_current (snd (task_sleep boot_stack_top ms rsp s))) = TASK_SLEEPING"
proof -
  let ?t = "(tasks s ! current_idx s)\<lparr>t_state := TASK_SLEEPING, sleep_until := tick_count (cpu_st s) + ms\<rparr>"
  define s1 where "s1 = save_current rsp (put_task (current_idx s) ?t s)"
  have c: "current_idx s < length (tasks s)" using assms(1) by (simp add: sched_ok_def)
  then have st: "t_state (tasks s1 ! current_idx s) = TASK_SLEEPING" "current_idx s1 = current_idx s" "num_tasks s1 = num_tasks s"
    by (simp_all add: s1_def save_current_def put_task_def Let_def)
  have "t_state (tasks s1 ! i) \<noteq> TASK_READY" if "i < num_tasks s" for i
    using that assms(2) st(1) by (cases "i = current_idx s") (simp_all add: s1_def put_task_def)
  note idle = this
  have "pick_next s1 = None"
  proof (rule ccontr)
    assume "pick_next s1 \<noteq> None"
    then obtain k where "pick_next s1 = Some k" by auto
    from pick_next_Some [OF this] obtain i where "k = (current_idx s1 + i) mod num_tasks s1" "t_state (tasks s1 ! k) = TASK_READY" by blast
    with idle [of k] assms(1) st show False by (simp add: sched_ok_def)
  qed
  then show ?thesis
    using st by (simp add: task_sleep_def sched_yield_c_def do_switch_def Let_def s1_def [symmetric] sched_current_def)
qed

theorem task_sleep_returns_at_once_witness:
  "fst (task_sleep 0 100 64 (sched_demo\<lparr>num_tasks := 1\<rparr>)) = 0"
proof -
  have "sched_ok (sched_demo\<lparr>num_tasks := 1\<rparr>)" using sched_demo_ok(1,6) by (simp add: sched_ok_def)
  moreover have "\<forall>i < num_tasks (sched_demo\<lparr>num_tasks := 1\<rparr>). i \<noteq> current_idx (sched_demo\<lparr>num_tasks := 1\<rparr>) \<longrightarrow>
      t_state (tasks (sched_demo\<lparr>num_tasks := 1\<rparr>) ! i) \<noteq> TASK_READY" using sched_demo_ok(6) by simp
  ultimately show ?thesis using task_sleep_returns_at_once by blast
qed

end
