(* ===== verification/Vfs_Tree.thy ===== *)
theory Vfs_Tree
  imports Vfs
begin

text \<open>
  The name space of \<^verbatim>\<open>src/fs/vfs.c\<close>: the invariant of the node and descriptor tables, path resolution
  over compound paths, and the operations of the file system as a step relation that keeps the invariant.
\<close>

section \<open>The invariant of the tables\<close>

definition node_ok :: "vfs_node list \<Rightarrow> nat \<Rightarrow> vfs_node \<Rightarrow> bool" where
  "node_ok ns lim n \<longleftrightarrow>
     unat (n_inode n) < lim \<and> (\<exists>p \<in> set ns. n_used p \<and> n_type p = VFS_DIR \<and> n_inode p = n_parent n)"

definition fd_ok :: "vfs_node list \<Rightarrow> nat \<Rightarrow> fd_entry \<Rightarrow> bool" where
  "fd_ok ns lim f \<longleftrightarrow>
     unat (f_inode f) < lim \<and> (\<forall>n \<in> set ns. n_used n \<longrightarrow> n_inode n = f_inode f \<longrightarrow> n_type n \<noteq> VFS_DIR)"

definition distinct_inodes :: "vfs_node list \<Rightarrow> bool" where
  "distinct_inodes ns \<longleftrightarrow>
     (\<forall>i < length ns. \<forall>j < length ns. n_used (ns ! i) \<longrightarrow> n_used (ns ! j) \<longrightarrow> n_inode (ns ! i) = n_inode (ns ! j) \<longrightarrow> i = j)"

text \<open>
  Inode numbers are unique and below the next one to be given out, every node hangs in a directory, and
  no open descriptor refers to a directory. The bound keeps inode numbers positive as \<^verbatim>\<open>int\<close>.
\<close>

definition ns_ok :: "'a vfs_scheme \<Rightarrow> bool" where
  "ns_ok s \<longleftrightarrow>
     length (nodes s) = VFS_MAX_NODES \<and> length (fds s) = VFS_MAX_FDS \<and> unat (next_inode s) \<le> 2 ^ 31 \<and>
     unat (vfs_cwd s) < unat (next_inode s) \<and> distinct_inodes (nodes s) \<and>
     (\<forall>n \<in> set (nodes s). n_used n \<longrightarrow> node_ok (nodes s) (unat (next_inode s)) n) \<and>
     (\<forall>f \<in> set (fds s). f_open f \<longrightarrow> fd_ok (nodes s) (unat (next_inode s)) f)"

lemma ns_okD:
  assumes "ns_ok s"
  shows "length (nodes s) = 256" "length (fds s) = 64" "unat (next_inode s) \<le> 2 ^ 31"
    "unat (vfs_cwd s) < unat (next_inode s)" "distinct_inodes (nodes s)"
    "n \<in> set (nodes s) \<Longrightarrow> n_used n \<Longrightarrow> node_ok (nodes s) (unat (next_inode s)) n"
    "f \<in> set (fds s) \<Longrightarrow> f_open f \<Longrightarrow> fd_ok (nodes s) (unat (next_inode s)) f"
  using assms by (auto simp: ns_ok_def)

lemma ns_ok_inode:
  assumes "ns_ok s" and "n \<in> set (nodes s)" and "n_used n"
  shows "unat (n_inode n) < unat (next_inode s)" "unat (n_parent n) < unat (next_inode s)"
proof -
  from ns_okD(6) [OF assms] have ok: "node_ok (nodes s) (unat (next_inode s)) n" .
  then show "unat (n_inode n) < unat (next_inode s)" by (simp add: node_ok_def)
  from ok obtain p where "p \<in> set (nodes s)" "n_used p" "n_inode p = n_parent n" by (auto simp: node_ok_def)
  with ns_okD(6) [OF assms(1) this(1,2)] show "unat (n_parent n) < unat (next_inode s)" by (auto simp: node_ok_def)
qed

lemma node_getD:
  assumes "node_get ns ino = Some i"
  shows "i < length ns" "n_used (ns ! i)" "n_inode (ns ! i) = ino" "ns ! i \<in> set ns"
  using find_idx_SomeD [OF assms [unfolded node_get_def]] by auto

lemma node_get_unique:
  assumes "distinct_inodes ns" and "i < length ns" and "n_used (ns ! i)"
  shows "node_get ns (n_inode (ns ! i)) = Some i"
proof (cases "node_get ns (n_inode (ns ! i))")
  case None
  with assms(2,3) show ?thesis by (auto simp: node_get_def find_idx_None_iff)
next
  case (Some j)
  with node_getD [OF Some] assms show ?thesis by (auto simp: distinct_inodes_def)
qed

section \<open>Paths\<close>

lemma path_comp_append_slash: "path_comp (p @ CHR ''/'' # q) = path_comp p"
proof (cases "63 \<le> length p")
  case True
  then show ?thesis by (simp add: path_comp_def)
next
  case False
  then obtain k where "63 - length p = Suc k" by (metis Suc_diff_Suc not_le)
  with False have "take 63 (p @ CHR ''/'' # q) = p @ CHR ''/'' # take k q" "take 63 p = p" by simp_all
  then show ?thesis by (auto simp: path_comp_def takeWhile_append takeWhile_eq_all_conv [THEN iffD2])
qed

lemma path_comp_le: "length (path_comp p) \<le> length p"
  unfolding path_comp_def using length_takeWhile_le [of _ "take 63 p"] by (metis diff_Suc_1 length_take min.boundedE eval_nat_numeral(2) One_nat_def diff_Suc_Suc numeral_nat)

lemma path_rest_append_slash:
  assumes "p \<noteq> []" and "last p \<noteq> CHR ''/''"
  shows "path_rest (p @ CHR ''/'' # q) = (if path_rest p = [] then q else path_rest p @ CHR ''/'' # q)"
    and "path_rest p \<noteq> [] \<Longrightarrow> last (path_rest p) = last p"
proof -
  define d where "d = drop (length (path_comp p)) p"
  have rest: "path_rest p = skip_slash d" by (simp add: path_rest_def d_def)
  have full: "path_rest (p @ CHR ''/'' # q) = skip_slash (d @ CHR ''/'' # q)"
    using path_comp_le [of p] by (simp add: path_rest_def path_comp_append_slash d_def)
  have last: "d \<noteq> [] \<Longrightarrow> last d = last p" by (auto simp: d_def)
  have "d \<noteq> ''/''" using last assms(2) by auto
  then show "path_rest (p @ CHR ''/'' # q) = (if path_rest p = [] then q else path_rest p @ CHR ''/'' # q)"
    by (cases d) (auto simp: rest full skip_slash_def)
  show "path_rest p \<noteq> [] \<Longrightarrow> last (path_rest p) = last p"
    using last by (cases d) (auto simp: rest skip_slash_def split: if_splits)
qed

text \<open>Walking a compound path is walking its front part and then the rest from there.\<close>

lemma vfs_walk_append:
  assumes "p \<noteq> []" and "last p \<noteq> CHR ''/''"
  shows "vfs_walk ns (p @ CHR ''/'' # q) cur = Option.bind (vfs_walk ns p cur) (vfs_walk ns q)"
  using assms
proof (induction p arbitrary: cur rule: length_induct)
  case (1 p)
  note rest = path_rest_append_slash [OF "1.prems"]
  have step: "vfs_walk ns (path_rest (p @ CHR ''/'' # q)) c = Option.bind (vfs_walk ns (path_rest p) c) (vfs_walk ns q)" for c
  proof (cases "path_rest p = []")
    case True
    then show ?thesis by (simp add: rest(1) vfs_walk.simps [of ns "[]"])
  next
    case False
    with rest(2) "1.prems" path_rest_shorter [of p] "1.IH" show ?thesis by (simp add: rest(1))
  qed
  show ?case
    using "1.prems"
    by (subst (1 2) vfs_walk.simps) (simp add: path_comp_append_slash step Let_def split: option.splits)
qed

lemma path_comp_leaf:
  assumes "leaf \<noteq> []" and "CHR ''/'' \<notin> set leaf" and "length leaf \<le> 63"
  shows "path_comp leaf = leaf" "path_rest leaf = []"
proof -
  have "takeWhile (\<lambda>c. c \<noteq> CHR ''/'') leaf = leaf" using assms(2) by (induction leaf) auto
  with assms(3) show "path_comp leaf = leaf" by (simp add: path_comp_def)
  then show "path_rest leaf = []" by (simp add: path_rest_def skip_slash_def)
qed

lemma vfs_walk_leaf:
  assumes "leaf \<noteq> []" and "CHR ''/'' \<notin> set leaf" and "length leaf \<le> 63" and "leaf \<noteq> ''.''" and "leaf \<noteq> ''..''"
  shows "vfs_walk ns leaf cur =
           map_option (\<lambda>i. n_inode (ns ! i)) (find_idx (\<lambda>n. n_used n \<and> n_parent n = cur \<and> n_name n = leaf) ns)"
  using assms path_comp_leaf [OF assms(1-3)]
  by (subst vfs_walk.simps) (simp add: Let_def vfs_walk.simps [of ns "[]"] split: option.splits)

text \<open>
  One step of the walk, and the two facts on it that the lemmas below need: where it ends, and that a new node does not
  change it unless it was looked for and missing.
\<close>

definition walk_one :: "vfs_node list \<Rightarrow> string \<Rightarrow> u32 \<Rightarrow> u32 option" where
  "walk_one ns nm cur =
     (if nm = ''.'' then Some cur
      else if nm = ''..'' then Some (case node_get ns cur of None \<Rightarrow> cur | Some i \<Rightarrow> n_parent (ns ! i))
      else map_option (\<lambda>i. n_inode (ns ! i)) (find_idx (\<lambda>n. n_used n \<and> n_parent n = cur \<and> n_name n = nm) ns))"

lemma vfs_walk_step:
  "vfs_walk ns path cur =
     (if path = [] then Some cur else Option.bind (walk_one ns (path_comp path) cur) (vfs_walk ns (path_rest path)))"
  by (subst vfs_walk.simps) (simp add: walk_one_def Let_def split: option.splits)

lemma walk_one_below:
  assumes "\<And>n. n \<in> set ns \<Longrightarrow> n_used n \<Longrightarrow> unat (n_inode n) < lim \<and> unat (n_parent n) < lim"
    and "unat cur < lim" and "walk_one ns nm cur = Some c"
  shows "unat c < lim"
proof -
  consider "c = cur" | i where "node_get ns cur = Some i" "c = n_parent (ns ! i)"
    | i where "find_idx (\<lambda>n. n_used n \<and> n_parent n = cur \<and> n_name n = nm) ns = Some i" "c = n_inode (ns ! i)"
    using assms(3) by (auto simp: walk_one_def split: if_splits option.splits)
  then show ?thesis
  proof cases
    case (2 i)
    with node_getD [OF 2(1)] assms(1) [of "ns ! i"] show ?thesis by simp
  next
    case (3 i)
    with find_idx_SomeD(1,2) [OF 3(1)] assms(1) [of "ns ! i"] show ?thesis by simp
  qed (use assms(2) in simp)
qed

lemma vfs_walk_below:
  assumes "\<And>n. n \<in> set ns \<Longrightarrow> n_used n \<Longrightarrow> unat (n_inode n) < lim \<and> unat (n_parent n) < lim"
    and "unat cur < lim" and "vfs_walk ns path cur = Some c"
  shows "unat c < lim"
  using assms(2,3)
proof (induction path arbitrary: cur rule: length_induct)
  case (1 path)
  show ?case
  proof (cases "path = []")
    case False
    with "1.prems"(2) obtain c' where c': "walk_one ns (path_comp path) cur = Some c'"
      "vfs_walk ns (path_rest path) c' = Some c"
      by (subst (asm) vfs_walk_step) (auto simp: Option.bind_eq_Some_conv)
    from walk_one_below [OF assms(1) "1.prems"(1) c'(1)] c'(2) "1.IH" path_rest_shorter [OF False] show ?thesis by blast
  qed (use "1.prems" vfs_walk_step [of ns path cur] in simp)
qed

lemma find_idx_new:
  assumes "i < length ns" and "\<not> P (ns ! i)"
  shows "find_idx P (ns[i := n]) = (if P n then (case find_idx P ns of Some j \<Rightarrow> Some (min i j) | None \<Rightarrow> Some i) else find_idx P ns)"
  using assms
proof (induction ns arbitrary: i)
  case (Cons a ns)
  show ?case
  proof (cases i)
    case 0
    with Cons.prems show ?thesis by (auto split: option.splits)
  next
    case (Suc k)
    with Cons.IH [of k] Cons.prems show ?thesis by (auto split: option.splits)
  qed
qed simp

lemma walk_one_new:
  assumes i: "i < length ns" "\<not> n_used (ns ! i)" and cur: "cur \<noteq> n_inode n"
    and new: "find_idx (\<lambda>m. n_used m \<and> n_parent m = n_parent n \<and> n_name m = n_name n) ns = None"
    and w: "walk_one ns nm cur = Some c"
  shows "walk_one (ns[i := n]) nm cur = Some c"
proof -
  have get: "node_get (ns[i := n]) cur = node_get ns cur"
    using i cur by (simp add: node_get_def find_idx_new)
  have same: "ns[i := n] ! j = ns ! j" if "n_used (ns ! j)" for j
    using that i(2) by (cases "j = i") auto
  show ?thesis
  proof (cases "nm = ''.'' \<or> nm = ''..''")
    case True
    then show ?thesis
      using w same node_getD(2) [of ns cur] by (auto simp: walk_one_def get split: if_splits option.splits)
  next
    case False
    then obtain j where j: "find_idx (\<lambda>m. n_used m \<and> n_parent m = cur \<and> n_name m = nm) ns = Some j" "n_inode (ns ! j) = c"
      using w by (auto simp: walk_one_def)
    moreover have "\<not> (n_used n \<and> n_parent n = cur \<and> n_name n = nm)" using j(1) new by auto
    ultimately have "find_idx (\<lambda>m. n_used m \<and> n_parent m = cur \<and> n_name m = nm) (ns[i := n]) = Some j"
      using i by (subst find_idx_update_other) auto
    with False j same [of j] find_idx_SomeD(2) [OF j(1)] show ?thesis by (simp add: walk_one_def)
  qed
qed

lemma vfs_walk_new:
  assumes i: "i < length ns" "\<not> n_used (ns ! i)"
    and new: "find_idx (\<lambda>m. n_used m \<and> n_parent m = n_parent n \<and> n_name m = n_name n) ns = None"
    and lim: "\<And>m. m \<in> set ns \<Longrightarrow> n_used m \<Longrightarrow> unat (n_inode m) < unat (n_inode n) \<and> unat (n_parent m) < unat (n_inode n)"
    and cur: "unat cur < unat (n_inode n)" and w: "vfs_walk ns path cur = Some c"
  shows "vfs_walk (ns[i := n]) path cur = Some c"
  using cur w
proof (induction path arbitrary: cur rule: length_induct)
  case (1 path)
  show ?case
  proof (cases "path = []")
    case False
    with "1.prems"(2) obtain c' where c': "walk_one ns (path_comp path) cur = Some c'"
      "vfs_walk ns (path_rest path) c' = Some c"
      by (subst (asm) vfs_walk_step) (auto simp: Option.bind_eq_Some_conv)
    have "cur \<noteq> n_inode n" using "1.prems"(1) by auto
    from walk_one_new [OF i this new c'(1)] walk_one_below [OF lim "1.prems"(1) c'(1)] c'(2) "1.IH" path_rest_shorter [OF False]
    show ?thesis using False by (subst vfs_walk_step) simp
  qed (use "1.prems" vfs_walk_step [of ns path cur] vfs_walk_step [of "ns[i := n]" path cur] in simp)
qed

section \<open>New nodes\<close>

lemma make_node_cases:
  assumes "make_node ty maj mi parent leaf s = Some (ino, s')"
  obtains i p where "i < length (nodes s)" "\<not> n_used (nodes s ! i)" "node_get (nodes s) (word_of_int parent) = Some p"
    "n_type (nodes s ! p) = VFS_DIR" "ino = next_inode s"
    "s' = s\<lparr>nodes := (nodes s)[i := node_zero\<lparr>n_used := True, n_type := ty, n_inode := next_inode s,
            n_parent := word_of_int parent, n_major := maj, n_minor := mi, n_name := leaf\<rparr>],
            next_inode := next_inode s + 1\<rparr>"
proof -
  from assms obtain p i where p: "node_get (nodes s) (word_of_int parent) = Some p" "n_type (nodes s ! p) = VFS_DIR"
    and i: "find_idx (\<lambda>n. \<not> n_used n) (nodes s) = Some i"
    by (auto simp: make_node_def node_alloc_def split: option.splits if_splits)
  with assms find_idx_SomeD(1,2) [OF i] show ?thesis
    by (intro that [of i p]) (auto simp: make_node_def node_alloc_def put_node_def)
qed

lemma node_ok_mono: "node_ok ns lim n \<Longrightarrow> (\<And>m. m \<in> set ns \<Longrightarrow> n_used m \<Longrightarrow> m \<in> set ns') \<Longrightarrow> lim \<le> lim' \<Longrightarrow> node_ok ns' lim' n"
  by (fastforce simp: node_ok_def)

lemma set_list_update_unused:
  assumes "i < length ns" and "\<not> n_used (ns ! i)" and "m \<in> set ns" and "n_used m"
  shows "m \<in> set (ns[i := n])"
proof -
  from assms(3) obtain j where "j < length ns" "ns ! j = m" by (auto simp: in_set_conv_nth)
  with assms show ?thesis by (cases "j = i") (auto simp: in_set_conv_nth intro!: exI [of _ j])
qed

lemma ns_ok_new:
  assumes ok: "ns_ok s" and lim: "unat (next_inode s) < 2 ^ 31"
    and i: "i < length (nodes s)" "\<not> n_used (nodes s ! i)"
    and n: "n_inode n = next_inode s" "p < length (nodes s)" "n_used (nodes s ! p)" "n_type (nodes s ! p) = VFS_DIR"
      "n_inode (nodes s ! p) = n_parent n"
  shows "ns_ok (s\<lparr>nodes := (nodes s)[i := n], next_inode := next_inode s + 1\<rparr>)"
proof -
  have u: "unat (next_inode s + 1) = unat (next_inode s) + 1" using lim by (simp add: unat_word_ariths)
  have keep: "m \<in> set ((nodes s)[i := n])" if "m \<in> set (nodes s)" "n_used m" for m
    using set_list_update_unused [OF i that] .
  have old: "m \<in> set (nodes s) \<or> m = n" if "m \<in> set ((nodes s)[i := n])" for m
    using that set_update_subset_insert [of "nodes s" i n] by blast
  have "nodes s ! p \<in> set ((nodes s)[i := n])" using keep n(2,3) nth_mem by blast
  then have "node_ok ((nodes s)[i := n]) (unat (next_inode s + 1)) n"
    using n u by (auto simp: node_ok_def)
  moreover have "node_ok ((nodes s)[i := n]) (unat (next_inode s + 1)) m" if "m \<in> set (nodes s)" "n_used m" for m
    using ns_okD(6) [OF ok that] keep u by (auto elim!: node_ok_mono)
  moreover have "fd_ok ((nodes s)[i := n]) (unat (next_inode s + 1)) f" if "f \<in> set (fds s)" "f_open f" for f
    using ns_okD(7) [OF ok that] old n(1) u by (fastforce simp: fd_ok_def)
  moreover have "distinct_inodes ((nodes s)[i := n])"
  proof -
    have less: "unat (n_inode (nodes s ! j)) < unat (next_inode s)" if "j < length (nodes s)" "n_used (nodes s ! j)" for j
      using ns_ok_inode(1) [OF ok nth_mem] that by blast
    have fresh: "n_inode (nodes s ! j) \<noteq> next_inode s" if "j < length (nodes s)" "n_used (nodes s ! j)" for j
      using less [OF that] by auto
    show ?thesis
      unfolding distinct_inodes_def
    proof (intro allI impI)
      fix j k
      assume a: "j < length ((nodes s)[i := n])" "k < length ((nodes s)[i := n])" "n_used ((nodes s)[i := n] ! j)"
        "n_used ((nodes s)[i := n] ! k)" "n_inode ((nodes s)[i := n] ! j) = n_inode ((nodes s)[i := n] ! k)"
      show "j = k"
        using a fresh [of j] fresh [of k] n(1) ns_okD(5) [OF ok] unfolding distinct_inodes_def
        by (cases "j = i"; cases "k = i") auto
    qed
  qed
  ultimately show ?thesis
    using ok lim u old unfolding ns_ok_def by auto
qed

lemma make_node_ok:
  assumes ok: "ns_ok s" and lim: "unat (next_inode s) < 2 ^ 31" and m: "make_node ty maj mi parent leaf s = Some (ino, s')"
  shows "ns_ok s' \<and> unat (next_inode s') = unat (next_inode s) + 1"
proof -
  have u: "unat (next_inode s + 1) = unat (next_inode s) + 1" using lim by (simp add: unat_word_ariths)
  obtain i p where i: "i < length (nodes s)" "\<not> n_used (nodes s ! i)" and p: "node_get (nodes s) (word_of_int parent) = Some p"
    "n_type (nodes s ! p) = VFS_DIR"
    and s': "s' = s\<lparr>nodes := (nodes s)[i := node_zero\<lparr>n_used := True, n_type := ty, n_inode := next_inode s,
            n_parent := word_of_int parent, n_major := maj, n_minor := mi, n_name := leaf\<rparr>],
            next_inode := next_inode s + 1\<rparr>"
    using m by (rule make_node_cases)
  have "ns_ok s'" unfolding s' by (rule ns_ok_new [OF ok lim i, of _ p]) (use p node_getD [OF p(1)] in simp_all)
  with u show ?thesis by (simp add: s')
qed

section \<open>A path and its parent\<close>

definition parent_part :: "string \<Rightarrow> string" where
  "parent_part path = take (length path - length (leaf_of path) - 1) path"

text \<open>
  A path that \<open>resolve_parent\<close> and \<open>vfs_resolve\<close> read in the same way: a leaf that is neither empty nor cut, a parent
  that fits \<open>parent_path\<close>, and no doubled slash in front of the leaf.
\<close>

definition plain_path :: "string \<Rightarrow> bool" where
  "plain_path path \<longleftrightarrow>
     leaf_of path \<noteq> [] \<and> length (leaf_of path) \<le> 63 \<and> length path \<le> 256 \<and>
     (parent_part path = [] \<or> last (parent_part path) \<noteq> CHR ''/'')"

lemma leaf_no_slash: "CHR ''/'' \<notin> set (leaf_of path)"
  by (auto simp: leaf_of_def dest: set_takeWhileD)

lemma leaf_no_slash_path:
  assumes "CHR ''/'' \<notin> set path"
  shows "leaf_of path = path"
proof -
  from assms have "\<forall>x \<in> set (rev path). x \<noteq> CHR ''/''" by auto
  then have "takeWhile (\<lambda>c. c \<noteq> CHR ''/'') (rev path) = rev path" by (simp only: takeWhile_eq_all_conv)
  then show ?thesis unfolding leaf_of_def by (simp only: rev_rev_ident)
qed

lemma path_split:
  assumes "CHR ''/'' \<in> set path"
  shows "path = parent_part path @ CHR ''/'' # leaf_of path"
proof -
  define d where "d = dropWhile (\<lambda>c. c \<noteq> CHR ''/'') (rev path)"
  have d: "d \<noteq> []" "hd d = CHR ''/''" using assms hd_dropWhile [of "\<lambda>c. c \<noteq> CHR ''/''" "rev path"] by (auto simp: d_def)
  have "rev path = rev (leaf_of path) @ d" by (simp add: leaf_of_def d_def)
  then have "path = rev d @ leaf_of path" by (metis rev_append rev_rev_ident)
  moreover obtain r where "d = CHR ''/'' # r" using d by (cases d) auto
  ultimately have "path = rev r @ CHR ''/'' # leaf_of path" by simp
  moreover from this have "parent_part path = rev r" unfolding parent_part_def by (metis add_diff_cancel_right' append_eq_conv_conj diff_diff_left length_Cons length_append plus_1_eq_Suc add.commute)
  ultimately show ?thesis by simp
qed

lemma sint_small:
  assumes "unat (w :: u32) < 2 ^ 31"
  shows "sint w = int (unat w)"
proof -
  have u: "uint w = int (unat w)" by simp
  have "int (unat w) < int (2 ^ 31)" using assms by (simp only: of_nat_less_iff)
  then have "uint w < 2 ^ 31" unfolding u by simp
  moreover have "- (2 ^ 31) \<le> uint w" using uint_ge_0 [of w] by (rule order_trans [rotated]) simp
  ultimately have "signed_take_bit 31 (uint w) = uint w" by (intro signed_take_bit_int_eq_self)
  then show ?thesis by (simp add: sint_uint)
qed

definition walk_result :: "u32 option \<Rightarrow> int" where
  "walk_result r = (case r of None \<Rightarrow> - 1 | Some c \<Rightarrow> sint c)"

definition path_start :: "string \<Rightarrow> 'a vfs_scheme \<Rightarrow> u32" where
  "path_start path s = (if path \<noteq> [] \<and> hd path = CHR ''/'' then VFS_INODE_ROOT else vfs_cwd s)"

lemma vfs_resolve_walk:
  "vfs_resolve path s = walk_result (vfs_walk (nodes s) (skip_slash path) (path_start path s))"
  by (auto simp: vfs_resolve_def walk_result_def path_start_def Let_def skip_slash_def vfs_walk_step [of "nodes s" "[]"] split: list.splits)

lemma ns_ok_lim:
  assumes "ns_ok s"
  shows "unat (path_start path s) < unat (next_inode s)"
  using ns_okD(4) [OF assms] by (auto simp: path_start_def)

lemma ns_ok_walk:
  assumes "ns_ok s" and "vfs_walk (nodes s) path cur = Some c" and "unat cur < unat (next_inode s)"
  shows "unat c < unat (next_inode s)" "sint c = int (unat c)" "word_of_int (sint c) = c"
proof -
  have "unat (n_inode n) < unat (next_inode s) \<and> unat (n_parent n) < unat (next_inode s)"
    if "n \<in> set (nodes s)" "n_used n" for n using ns_ok_inode [OF assms(1) that] by blast
  from vfs_walk_below [OF this assms(3,2)] show 1: "unat c < unat (next_inode s)" by blast
  with ns_okD(3) [OF assms(1)] have "unat c < 2 ^ 31" by simp
  then show "sint c = int (unat c)" by (rule sint_small)
  show "word_of_int (sint c) = c" by simp
qed

text \<open>The walk that \<open>resolve_parent\<close> does, and the one that \<open>vfs_resolve\<close> does on the whole path.\<close>

definition parent_walk :: "string \<Rightarrow> 'a vfs_scheme \<Rightarrow> u32 option" where
  "parent_walk path s = vfs_walk (nodes s) (skip_slash (parent_part path)) (path_start path s)"

lemma resolve_parent_walk:
  assumes "plain_path path"
  shows "resolve_parent path s = (walk_result (parent_walk path s), leaf_of path)"
proof (cases "CHR ''/'' \<in> set path")
  case False
  then have "parent_part path = []" "leaf_of path = path" by (simp_all add: parent_part_def leaf_no_slash_path)
  moreover have "path \<noteq> []" using assms by (auto simp: plain_path_def leaf_of_def)
  moreover have "hd path \<noteq> CHR ''/''" using False \<open>path \<noteq> []\<close> by (metis hd_in_set)
  ultimately show ?thesis
    using assms False
    by (simp add: resolve_parent_def parent_walk_def walk_result_def path_start_def skip_slash_def plain_path_def
        vfs_walk_step [of "nodes s" "[]"])
next
  case True
  note sp = path_split [OF True]
  let ?p = "parent_part path"
  have len: "length path = length ?p + 1 + length (leaf_of path)" by (subst sp) simp
  then have "length path - length (leaf_of path) - 1 = length ?p" by simp
  moreover have "length ?p \<le> 255" using assms len by (cases "leaf_of path") (auto simp: plain_path_def)
  moreover have "take (length ?p) path = ?p" using len by (simp add: parent_part_def)
  ultimately have "resolve_parent path s = (vfs_resolve (if ?p = [] then ''/'' else ?p) s, leaf_of path)"
    using True assms by (auto simp: resolve_parent_def Let_def plain_path_def min_def)
  moreover have "vfs_resolve (if ?p = [] then ''/'' else ?p) s = walk_result (parent_walk path s)"
  proof (cases "?p = []")
    case True
    with sp have "hd path = CHR ''/''" "path \<noteq> []" by (metis append_Nil list.sel(1)) (use sp True in force)
    with True show ?thesis by (simp add: vfs_resolve_walk parent_walk_def path_start_def skip_slash_def)
  next
    case False
    then have "hd path = hd ?p" "path \<noteq> []" by (metis hd_append2 sp) (use False in \<open>auto simp: parent_part_def\<close>)
    with False show ?thesis by (simp add: vfs_resolve_walk parent_walk_def path_start_def)
  qed
  ultimately show ?thesis by simp
qed

lemma vfs_resolve_parent:
  assumes "plain_path path"
  shows "vfs_resolve path s = walk_result (Option.bind (parent_walk path s) (vfs_walk (nodes s) (leaf_of path)))"
proof (cases "CHR ''/'' \<in> set path")
  case False
  then have "parent_part path = []" "leaf_of path = path" by (simp_all add: parent_part_def leaf_no_slash_path)
  moreover have "skip_slash path = path" using False by (cases path) (auto simp: skip_slash_def)
  ultimately show ?thesis
    by (simp add: vfs_resolve_walk parent_walk_def skip_slash_def [of "[]"] vfs_walk_step [of "nodes s" "[]"])
next
  case True
  note sp = path_split [OF True]
  let ?p = "parent_part path"
  show ?thesis
  proof (cases "?p = []")
    case True
    then have "skip_slash path = leaf_of path" by (subst sp) (simp add: skip_slash_def)
    with True show ?thesis
      by (simp add: vfs_resolve_walk parent_walk_def skip_slash_def [of "[]"] vfs_walk_step [of "nodes s" "[]"])
  next
    case False
    with assms have l: "last ?p \<noteq> CHR ''/''" by (simp add: plain_path_def)
    have "skip_slash ?p \<noteq> []" "last (skip_slash ?p) = last ?p" using False l
      by (auto simp: skip_slash_def split: list.splits)
    moreover have "skip_slash path = skip_slash ?p @ CHR ''/'' # leaf_of path"
      using False by (subst sp) (auto simp: skip_slash_def split: list.splits)
    ultimately show ?thesis using l
      by (simp add: vfs_resolve_walk parent_walk_def vfs_walk_append)
  qed
qed

text \<open>A new node does not disturb any path that already leads somewhere.\<close>

lemma new_node_keeps:
  assumes ok: "ns_ok s" and i: "i < length (nodes s)" "\<not> n_used (nodes s ! i)" and n: "n_inode n = next_inode s"
    and new: "find_idx (\<lambda>m. n_used m \<and> n_parent m = n_parent n \<and> n_name m = n_name n) (nodes s) = None"
    and ns: "nodes s' = (nodes s)[i := n]" and cwd: "vfs_cwd s' = vfs_cwd s"
  shows "\<And>c. parent_walk path s = Some c \<Longrightarrow> parent_walk path s' = Some c"
    and "\<And>q. 0 \<le> vfs_resolve q s \<Longrightarrow> vfs_resolve q s' = vfs_resolve q s"
proof -
  have keep: "vfs_walk (nodes s') q cur = Some c" if "vfs_walk (nodes s) q cur = Some c" "unat cur < unat (next_inode s)" for q cur c
    unfolding ns using ns_ok_inode [OF ok] that n by (intro vfs_walk_new [OF i new]) auto
  have st: "path_start q s' = path_start q s" for q by (simp add: path_start_def cwd)
  show "parent_walk path s' = Some c" if "parent_walk path s = Some c" for c
    using that keep [OF _ ns_ok_lim [OF ok]] unfolding parent_walk_def st by blast
  show "vfs_resolve q s' = vfs_resolve q s" if "0 \<le> vfs_resolve q s" for q
  proof -
    obtain c where "vfs_walk (nodes s) (skip_slash q) (path_start q s) = Some c"
      using \<open>0 \<le> vfs_resolve q s\<close> by (auto simp: vfs_resolve_walk walk_result_def split: option.splits)
    with keep [OF this ns_ok_lim [OF ok]] show ?thesis by (simp add: vfs_resolve_walk st)
  qed
qed

lemma leaf_step:
  assumes "plain_path path" and "vfs_walk ns (leaf_of path) cur = None"
  shows "leaf_of path \<noteq> ''.''" "leaf_of path \<noteq> ''..''"
    "find_idx (\<lambda>m. n_used m \<and> n_parent m = cur \<and> n_name m = leaf_of path) ns = None"
proof -
  have pc: "leaf_of path \<noteq> []" "path_comp (leaf_of path) = leaf_of path" "path_rest (leaf_of path) = []"
    using assms(1) path_comp_leaf [OF _ leaf_no_slash] by (auto simp: plain_path_def)
  with assms(2) show 1: "leaf_of path \<noteq> ''.''" and 2: "leaf_of path \<noteq> ''..''"
    by (auto simp: vfs_walk_step [of ns "leaf_of path"] vfs_walk_step [of ns "[]"] walk_one_def)
  from assms pc 1 2 vfs_walk_leaf [OF pc(1) leaf_no_slash _ 1 2, of ns cur]
  show "find_idx (\<lambda>m. n_used m \<and> n_parent m = cur \<and> n_name m = leaf_of path) ns = None"
    by (simp add: plain_path_def)
qed

lemma make_node_resolves:
  assumes ok: "ns_ok s" and lim: "unat (next_inode s) < 2 ^ 31" and pl: "plain_path path"
    and none: "vfs_resolve path s < 0" and par: "0 \<le> walk_result (parent_walk path s)"
    and mk: "make_node ty maj mi (walk_result (parent_walk path s)) (leaf_of path) s = Some (ino, s')"
  shows "ns_ok s' \<and> vfs_resolve path s' = int (unat (next_inode s)) \<and> vfs_stat path s' = Some (ty, 0) \<and>
         (\<forall>q. 0 \<le> vfs_resolve q s \<longrightarrow> vfs_resolve q s' = vfs_resolve q s)"
proof -
  obtain c where c: "parent_walk path s = Some c" using par by (auto simp: walk_result_def split: option.splits)
  have ci: "word_of_int (sint c) = c" and cl: "unat c < unat (next_inode s)"
    using ns_ok_walk [OF ok c [unfolded parent_walk_def] ns_ok_lim [OF ok]] by simp_all
  define n where "n = node_zero\<lparr>n_used := True, n_type := ty, n_inode := next_inode s,
            n_parent := c, n_major := maj, n_minor := mi, n_name := leaf_of path\<rparr>"
  obtain i where i: "i < length (nodes s)" "\<not> n_used (nodes s ! i)"
    and s': "s' = s\<lparr>nodes := (nodes s)[i := n], next_inode := next_inode s + 1\<rparr>"
    using mk by (rule make_node_cases) (auto simp: n_def c walk_result_def ci)
  have none': "vfs_walk (nodes s) (leaf_of path) c = None"
  proof (rule ccontr)
    assume "\<not> ?thesis"
    then obtain d where d: "vfs_walk (nodes s) (leaf_of path) c = Some d" by auto
    with ns_ok_walk(2) [OF ok d cl] none c show False by (simp add: vfs_resolve_parent [OF pl] walk_result_def)
  qed
  note leaf = leaf_step [OF pl none']
  have new: "find_idx (\<lambda>m. n_used m \<and> n_parent m = n_parent n \<and> n_name m = n_name n) (nodes s) = None"
    using leaf(3) by (simp add: n_def)
  note keep = new_node_keeps [OF ok i _ new, of s']
  have ok': "ns_ok s'" using make_node_ok [OF ok lim mk] by blast
  have f: "find_idx (\<lambda>m. n_used m \<and> n_parent m = c \<and> n_name m = leaf_of path) (nodes s') = Some i"
    using i leaf(3) by (simp add: s' find_idx_new n_def)
  have ne: "leaf_of path \<noteq> []" "length (leaf_of path) \<le> 63" using pl by (simp_all add: plain_path_def)
  have "vfs_walk (nodes s') (leaf_of path) c = Some (next_inode s)"
    using vfs_walk_leaf [OF ne(1) leaf_no_slash ne(2) leaf(1,2), of "nodes s'" c] f i by (simp add: s' n_def)
  with keep(1) [of path] c have r: "vfs_resolve path s' = int (unat (next_inode s))"
    using sint_small [OF lim] by (simp add: vfs_resolve_parent [OF pl] walk_result_def s' n_def)
  have "node_get (nodes s') (n_inode (nodes s' ! i)) = Some i"
    using i by (intro node_get_unique ns_okD(5) [OF ok']) (simp_all add: s' n_def)
  then have "vfs_stat path s' = Some (ty, 0)"
    using r i by (simp add: vfs_stat_def Let_def s' n_def node_zero_def)
  with ok' r keep(2) show ?thesis by (simp add: s' n_def)
qed

section \<open>What the layers below leave alone\<close>

definition same_tables :: "'a vfs_scheme \<Rightarrow> 'a vfs_scheme \<Rightarrow> bool" where
  "same_tables s s' \<longleftrightarrow> nodes s' = nodes s \<and> fds s' = fds s \<and> next_inode s' = next_inode s \<and> vfs_cwd s' = vfs_cwd s"

lemma same_tables_refl [simp]: "same_tables s s"
  by (simp add: same_tables_def)

lemma same_tables_trans: "same_tables s s' \<Longrightarrow> same_tables s' s'' \<Longrightarrow> same_tables s s''"
  by (simp add: same_tables_def)

lemma same_tables_heap: "heap.more s' = heap.more s \<Longrightarrow> same_tables s s'"
  using heap_more_vfs by (auto simp: same_tables_def)

lemma same_tables_shm: "shm.more s' = shm.more s \<Longrightarrow> same_tables s s'"
  by (cases s; cases s') (simp add: same_tables_def)

lemma pmm_alloc_more: "pmm_alloc s = (p, s') \<Longrightarrow> mach.more s' = mach.more s"
  by (auto simp: pmm_alloc_def bm_set_def split: option.splits if_splits)

lemma pmm_free_more: "pmm_free p s = Inr s' \<Longrightarrow> mach.more s' = mach.more s"
  by (auto simp: pmm_free_def Let_def bm_clear_def split: if_splits)

lemma shm_drop_pages_more: "shm_drop_pages always js pg s = Inr (pg', s') \<Longrightarrow> mach.more s' = mach.more s"
  by (induction always js pg s rule: shm_drop_pages.induct)
    (auto dest!: pmm_free_more split: if_splits sum.splits)

lemma shm_grow_more: "shm_grow n old i pg s = Inr (r, pg', s') \<Longrightarrow> mach.more s' = mach.more s"
proof (induction n old i pg s rule: shm_grow.induct)
  case (2 n old i pg s)
  obtain frame s1 where a: "pmm_alloc s = (frame, s1)" by fastforce
  with "2.prems" "2.IH" [OF a [symmetric]] pmm_alloc_more [OF a] show ?case
    by (auto dest!: shm_drop_pages_more split: if_splits sum.splits)
qed simp

lemma mach_more_shm: "mach.more s' = mach.more s \<Longrightarrow> shm.more s' = shm.more (s :: 'a shm_scheme)"
  by (cases s; cases s') simp

lemma shm_put_more: "shm.more (shm_put i ob s) = shm.more s"
  by (simp add: shm_put_def)

lemma shm_truncate_more: "shm_truncate idx len s = Inr (r, s') \<Longrightarrow> shm.more s' = shm.more s"
  by (auto simp: shm_truncate_def Let_def shm_put_more dest!: shm_grow_more shm_drop_pages_more mach_more_shm
      split: if_splits sum.splits bool.splits)

lemma shm_write_more: "shm_write idx buf off s = Inr (r, off', s') \<Longrightarrow> shm.more s' = shm.more s"
  by (auto simp: shm_write_def Let_def dest!: shm_truncate_more split: if_splits sum.splits option.splits)

lemma shm_destroy_more: "shm_destroy idx s = Inr s' \<Longrightarrow> shm.more s' = shm.more s"
  by (auto simp: shm_destroy_def Let_def shm_put_more dest!: shm_drop_pages_more mach_more_shm
      split: if_splits sum.splits)

lemma shm_open_object_more: "shm_open_object name s = (r, s') \<Longrightarrow> shm.more s' = shm.more s"
  by (auto simp: shm_open_object_def split: option.splits)

lemma serial_read_loop_tables: "serial_read_loop n acc s = Inr (bs, s') \<Longrightarrow> same_tables s s'"
  by (induction n acc s rule: serial_read_loop.induct)
    (auto simp: serial_getchar_def same_tables_def split: if_splits sum.splits list.splits)

lemma serial_putchar_tables: "same_tables s (fold serial_putchar cs s)"
  by (induction cs arbitrary: s) (auto simp: serial_putchar_def same_tables_def)

lemma devfs_chr_read_tables: "devfs_chr_read n len off s = Inr (r, bs, off', s') \<Longrightarrow> same_tables s s'"
  by (auto simp: devfs_chr_read_def same_tables_def serial_read_loop_tables [unfolded same_tables_def]
      split: if_splits sum.splits prod.splits dest: serial_read_loop_tables [unfolded same_tables_def])

lemma devfs_chr_write_tables: "devfs_chr_write n buf off s = Inr (r, off', s') \<Longrightarrow> same_tables s s'"
  using serial_putchar_tables [of s buf]
  by (auto simp: devfs_chr_write_def dest!: shm_write_more intro: same_tables_shm split: if_splits)

section \<open>Each operation keeps the invariant\<close>

text \<open>The invariant holds afterwards and at most \<open>k\<close> inode numbers were given out.\<close>

definition grows :: "nat \<Rightarrow> 'a vfs_scheme \<Rightarrow> 'a vfs_scheme \<Rightarrow> bool" where
  "grows k s s' \<longleftrightarrow> ns_ok s' \<and> unat (next_inode s) \<le> unat (next_inode s') \<and> unat (next_inode s') \<le> unat (next_inode s) + k"

lemma grows_tables: "ns_ok s \<Longrightarrow> same_tables s s' \<Longrightarrow> grows k s s'"
  by (simp add: grows_def same_tables_def ns_ok_def)

lemma grows_refl: "ns_ok s \<Longrightarrow> grows k s s"
  by (simp add: grows_def)

lemma grows_mono: "grows k s s' \<Longrightarrow> k \<le> k' \<Longrightarrow> grows k' s s'"
  by (simp add: grows_def)

lemma grows_trans: "grows j s s' \<Longrightarrow> grows k s' s'' \<Longrightarrow> grows (j + k) s s''"
  by (simp add: grows_def)

lemma grows_put_fd:
  assumes "ns_ok s" and "f_open f \<Longrightarrow> fd_ok (nodes s) (unat (next_inode s)) f"
  shows "grows k s (put_fd i f s)"
proof -
  have "fd_ok (nodes s) (unat (next_inode s)) g" if "g \<in> set ((fds s)[i := f])" "f_open g" for g
    using that assms(2) ns_okD(7) [OF assms(1)] set_update_subset_insert [of "fds s" i f] by blast
  with assms(1) show ?thesis by (auto simp: grows_def ns_ok_def put_fd_def)
qed

lemma fd_ok_shape:
  "fd_ok ns lim f \<Longrightarrow> f_inode g = f_inode f \<Longrightarrow> fd_ok ns lim g"
  by (simp add: fd_ok_def)

lemma fd_okI:
  assumes "ns_ok s" and "node_get (nodes s) ino = Some i" and "n_type (nodes s ! i) \<noteq> VFS_DIR" and "f_inode f = ino"
  shows "fd_ok (nodes s) (unat (next_inode s)) f"
proof -
  note g = node_getD [OF assms(2)]
  have "n = nodes s ! i" if "n \<in> set (nodes s)" "n_used n" "n_inode n = ino" for n
    using that g ns_okD(5) [OF assms(1)] unfolding distinct_inodes_def in_set_conv_nth by metis
  with assms(3,4) ns_ok_inode(1) [OF assms(1) g(4,2)] g(3) show ?thesis by (auto simp: fd_ok_def)
qed

lemma fd_used_ok:
  assumes "ns_ok s" and "\<not> fd_bad fd s"
  shows "fd_ok (nodes s) (unat (next_inode s)) (fds s ! nat fd)"
  using assms(2) ns_okD(2) [OF assms(1)] by (intro ns_okD(7) [OF assms(1)]) (auto simp: fd_bad_def)

lemma grows_fd_upd:
  assumes "ns_ok s" and "\<not> fd_bad fd s" and "f_inode f = f_inode (fds s ! nat fd)"
  shows "grows k s (put_fd i f s)"
  using fd_ok_shape [OF fd_used_ok [OF assms(1,2)] assms(3)] by (intro grows_put_fd [OF assms(1)])

lemma grows_put_data:
  assumes ok: "ns_ok s" and i: "i < length (nodes s)"
    and n: "n_used n = n_used (nodes s ! i)" "n_type n = n_type (nodes s ! i)" "n_inode n = n_inode (nodes s ! i)"
      "n_parent n = n_parent (nodes s ! i)"
  shows "grows k s (put_node i n s)"
proof -
  have key: "n_used ((nodes s)[i := n] ! j) = n_used (nodes s ! j)" "n_type ((nodes s)[i := n] ! j) = n_type (nodes s ! j)"
    "n_inode ((nodes s)[i := n] ! j) = n_inode (nodes s ! j)" "n_parent ((nodes s)[i := n] ! j) = n_parent (nodes s ! j)" for j
    using n i by (cases "j = i"; simp)+
  have shape: "\<exists>m' \<in> set (nodes s). n_used m' = n_used m \<and> n_type m' = n_type m \<and> n_inode m' = n_inode m \<and> n_parent m' = n_parent m"
    if "m \<in> set ((nodes s)[i := n])" for m using that key by (metis in_set_conv_nth length_list_update)
  have bwd: "\<exists>m' \<in> set ((nodes s)[i := n]). n_used m' = n_used m \<and> n_type m' = n_type m \<and> n_inode m' = n_inode m"
    if "m \<in> set (nodes s)" for m using that key by (metis in_set_conv_nth length_list_update)
  have "node_ok ((nodes s)[i := n]) (unat (next_inode s)) m" if m: "m \<in> set ((nodes s)[i := n])" "n_used m" for m
  proof -
    obtain m' where m': "m' \<in> set (nodes s)" "n_used m'" "n_inode m' = n_inode m" "n_parent m' = n_parent m"
      using shape [OF m(1)] m(2) by metis
    from ns_okD(6) [OF ok m'(1,2)] obtain q where "unat (n_inode m) < unat (next_inode s)" "q \<in> set (nodes s)" "n_used q"
      "n_type q = VFS_DIR" "n_inode q = n_parent m" using m' by (auto simp: node_ok_def)
    with bwd [of q] show ?thesis unfolding node_ok_def by metis
  qed
  moreover have "fd_ok ((nodes s)[i := n]) (unat (next_inode s)) f" if "f \<in> set (fds s)" "f_open f" for f
    using ns_okD(7) [OF ok that] shape unfolding fd_ok_def by metis
  moreover have "distinct_inodes ((nodes s)[i := n])"
    using ns_okD(5) [OF ok] by (simp add: distinct_inodes_def key)
  ultimately show ?thesis using ok by (auto simp: grows_def ns_ok_def put_node_def)
qed

lemma same_tables_ok: "same_tables s s' \<Longrightarrow> ns_ok s' \<longleftrightarrow> ns_ok s"
  by (simp add: same_tables_def ns_ok_def)

lemma same_tables_bad: "same_tables s s' \<Longrightarrow> fd_bad fd s' \<longleftrightarrow> fd_bad fd s"
  by (simp add: same_tables_def fd_bad_def)

lemma grows_tables_trans: "same_tables s s1 \<Longrightarrow> grows k s1 s' \<Longrightarrow> grows k s s'"
  by (simp add: grows_def same_tables_def)

lemma make_node_grows:
  assumes "ns_ok s" and "unat (next_inode s) < 2 ^ 31" and "make_node ty maj mi parent leaf s = Some (ino, s')"
  shows "grows 1 s s'"
  using make_node_ok [OF assms] by (simp add: grows_def)

lemma mkdir_grows:
  assumes "ns_ok s" and "unat (next_inode s) < 2 ^ 31"
  shows "grows 1 s (snd (vfs_mkdir path s))" and "grows 1 s (snd (vfs_mknod_chr path maj mi s))"
  using make_node_grows [OF assms] grows_refl [OF assms(1)]
  by (auto simp: vfs_mkdir_def vfs_mknod_chr_def split: prod.splits option.splits)

lemma open_lookup_grows:
  assumes ok: "ns_ok s" and lim: "unat (next_inode s) < 2 ^ 31" and run: "open_lookup path flags s = (r, s')"
  shows "grows 1 s s'"
proof (cases "take 9 path = ''/dev/shm/''")
  case True
  obtain idx s1 where o: "shm_open_object (drop 9 path) s = (idx, s1)" by fastforce
  from shm_open_object_more [OF o] have t: "same_tables s s1" by (rule same_tables_shm)
  then have ok1: "ns_ok s1" and lim1: "unat (next_inode s1) < 2 ^ 31"
    using ok lim by (simp_all add: same_tables_ok) (simp add: same_tables_def)
  have "s' = s1 \<or> s' = snd (vfs_mknod_chr path DEV_SHM_MAJOR (word_of_int idx) s1)"
    using run True o by (auto simp: open_lookup_def split: if_splits prod.splits)
  with mkdir_grows(2) [OF ok1 lim1] grows_refl [OF ok1] have "grows 1 s1 s'" by auto
  with t show ?thesis by (rule grows_tables_trans)
next
  case False
  with run grows_refl [OF ok] show ?thesis by (simp add: open_lookup_def)
qed

lemma open_create_grows:
  assumes "ns_ok s" and "unat (next_inode s) < 2 ^ 31" and "open_create path flags s = (r, s')"
  shows "grows 1 s s'"
  using assms make_node_grows [OF assms(1,2)] grows_refl [OF assms(1)]
  by (auto simp: open_create_def split: if_splits prod.splits option.splits)

lemma open_finish_grows:
  assumes ok: "ns_ok s" and run: "open_finish fd inode flags s = Inr (r, s')"
  shows "grows 0 s s'"
proof (cases "node_get (nodes s) (word_of_int inode)")
  case None
  with run grows_refl [OF ok] show ?thesis by (simp add: open_finish_def)
next
  case (Some i)
  note g = node_getD [OF Some]
  show ?thesis
  proof (cases "n_type (nodes s ! i) = VFS_DIR")
    case True
    with Some run grows_refl [OF ok] show ?thesis by (simp add: open_finish_def)
  next
    case False
    have put: "grows 0 s1 (put_fd fd f s1)" if "grows 0 s s1" "f_inode f = word_of_int inode"
      "node_get (nodes s1) (word_of_int inode) = Some i" "n_type (nodes s1 ! i) = n_type (nodes s ! i)" for s1 f
      using that False by (intro grows_put_fd fd_okI [of s1 "word_of_int inode" i]) (simp_all add: grows_def)
    show ?thesis
    proof (cases "o_trunc flags \<and> n_type (nodes s ! i) = VFS_FILE")
      case True
      with False Some run obtain s1 where k: "kfree (n_data (nodes s ! i)) s = Inr s1"
        and s': "\<exists>f. f_inode f = word_of_int inode \<and>
          s' = put_fd fd f (put_node i ((nodes s ! i)\<lparr>n_data := 0, n_size := 0, n_capacity := 0\<rparr>) s1)"
        by (force simp: open_finish_def Let_def split: sum.splits)
      have t: "same_tables s s1" using kfree_more [OF k] by (rule same_tables_heap)
      let ?s2 = "put_node i ((nodes s ! i)\<lparr>n_data := 0, n_size := 0, n_capacity := 0\<rparr>) s1"
      have n1: "nodes s1 = nodes s" using t by (simp add: same_tables_def)
      have g1: "grows 0 s1 ?s2"
        using ok t g(1) by (intro grows_put_data) (simp_all add: n1 same_tables_ok)
      have "node_get (nodes ?s2) (word_of_int inode) = Some i"
        using node_get_unique [of "nodes ?s2" i] ns_okD(5) [of ?s2] g1 g(1-3)
        by (simp add: put_node_def n1 grows_def)
      with put [of ?s2] grows_tables_trans [OF t g1] s' g(1)
      show ?thesis using grows_trans [of 0 s ?s2 0 s'] by (auto simp: put_node_def n1)
    next
      case False
      define f where "f = \<lparr>f_open = True, f_inode = word_of_int inode,
        f_offset = (if o_write flags \<and> \<not> o_trunc flags then n_size (nodes s ! i) else 0), f_flags = flags\<rparr>"
      have "s' = put_fd fd f s"
        using False \<open>n_type (nodes s ! i) \<noteq> VFS_DIR\<close> Some run
        by (cases "n_type (nodes s ! i)") (auto simp: open_finish_def Let_def f_def split: if_splits)
      moreover have "f_inode f = word_of_int inode" by (simp add: f_def)
      ultimately show ?thesis using put [OF grows_refl [OF ok]] Some by blast
    qed
  qed
qed

lemma vfs_open_grows:
  assumes ok: "ns_ok s" and lim: "unat (next_inode s) + 2 \<le> 2 ^ 31" and run: "vfs_open path flags s = Inr (r, s')"
  shows "grows 2 s s'"
proof (cases "fd_free s")
  case None
  with run grows_refl [OF ok] show ?thesis by (simp add: vfs_open_def)
next
  case (Some fd)
  obtain x s1 where l: "open_lookup path flags s = (x, s1)" by fastforce
  have g1: "grows 1 s s1" using lim by (intro open_lookup_grows [OF ok _ l]) simp
  show ?thesis
  proof (cases x)
    case (Inl a)
    with Some l run g1 grows_mono [OF g1, of 2] show ?thesis by (simp add: vfs_open_def)
  next
    case (Inr inode)
    have ok1: "ns_ok s1" and lim1: "unat (next_inode s1) < 2 ^ 31" using g1 lim by (simp_all add: grows_def)
    show ?thesis
    proof (cases "inode < 0")
      case True
      obtain y s2 where c: "open_create path flags s1 = (y, s2)" by fastforce
      have g2: "grows 2 s s2" using grows_trans [OF g1 open_create_grows [OF ok1 lim1 c]] by (simp add: numeral_2_eq_2)
      show ?thesis
      proof (cases y)
        case (Inl b)
        with Some l Inr True c run g2 show ?thesis by (simp add: vfs_open_def)
      next
        case (Inr ino)
        with Some l \<open>x = Inr inode\<close> True c run have "open_finish fd ino flags s2 = Inr (r, s')" by (simp add: vfs_open_def)
        with grows_trans [OF g2 open_finish_grows] g2 show ?thesis by (simp add: grows_def)
      qed
    next
      case False
      with Some l Inr run have "open_finish fd inode flags s1 = Inr (r, s')" by (simp add: vfs_open_def)
      from grows_mono [OF grows_trans [OF g1 open_finish_grows [OF ok1 this]], of 2] show ?thesis by simp
    qed
  qed
qed

lemma grows_remove:
  assumes ok: "ns_ok s" and i: "i < length (nodes s)" "n_used (nodes s ! i)"
    and leaf: "n_type (nodes s ! i) = VFS_DIR \<Longrightarrow> \<not> has_child (n_inode (nodes s ! i)) (nodes s)"
  shows "grows k s (put_node i node_zero s)"
proof -
  have un: "\<not> n_used node_zero" by (simp add: node_zero_def)
  have mem: "\<exists>j < length (nodes s). j \<noteq> i \<and> nodes s ! j = m" if "m \<in> set ((nodes s)[i := node_zero])" "n_used m" for m
  proof -
    from that(1) obtain j where "j < length (nodes s)" "(nodes s)[i := node_zero] ! j = m" by (auto simp: in_set_conv_nth)
    with that(2) un show ?thesis by (cases "j = i") auto
  qed
  have "node_ok ((nodes s)[i := node_zero]) (unat (next_inode s)) m"
    if m: "m \<in> set ((nodes s)[i := node_zero])" "n_used m" for m
  proof -
    from mem [OF m] obtain j where j: "j < length (nodes s)" "nodes s ! j = m" by blast
    with ns_okD(6) [OF ok nth_mem [OF j(1)]] m(2) obtain q where q: "unat (n_inode m) < unat (next_inode s)" "q < length (nodes s)"
      "n_used (nodes s ! q)" "n_type (nodes s ! q) = VFS_DIR" "n_inode (nodes s ! q) = n_parent m"
      by (auto simp: node_ok_def in_set_conv_nth)
    have "has_child (n_parent m) (nodes s)" unfolding has_child_def using nth_mem [OF j(1)] j(2) m(2) by blast
    then have "q \<noteq> i" using q leaf by auto
    with q show ?thesis unfolding node_ok_def by (metis length_list_update nth_list_update_neq nth_mem)
  qed
  moreover have "fd_ok ((nodes s)[i := node_zero]) (unat (next_inode s)) f" if "f \<in> set (fds s)" "f_open f" for f
    using ns_okD(7) [OF ok that] mem unfolding fd_ok_def by (metis nth_mem)
  moreover have "distinct_inodes ((nodes s)[i := node_zero])"
    using ns_okD(5) [OF ok] un unfolding distinct_inodes_def by (metis length_list_update nth_list_update nth_list_update_neq)
  ultimately show ?thesis using ok by (auto simp: grows_def ns_ok_def put_node_def)
qed

lemma grows_put_after:
  assumes "ns_ok s" and t: "same_tables s s1" and "i < length (nodes s)"
    and "n_used n = n_used (nodes s ! i)" "n_type n = n_type (nodes s ! i)" "n_inode n = n_inode (nodes s ! i)"
      "n_parent n = n_parent (nodes s ! i)"
  shows "grows k s (put_node i n s1)"
proof -
  have "ns_ok s1" "nodes s1 = nodes s" using assms(1) same_tables_ok [OF t] t by (simp_all add: same_tables_def)
  with assms(3-7) have "grows k s1 (put_node i n s1)" by (intro grows_put_data) simp_all
  with t show ?thesis by (rule grows_tables_trans)
qed

lemma fd_ops_grow:
  assumes ok: "ns_ok s"
  shows "grows 0 s (snd (vfs_open_std path flags fd s))" "grows 0 s (snd (vfs_close fd s))"
    "grows 0 s (snd (vfs_dup fd s))" "grows 0 s (snd (vfs_dup2 fd fd' s))" "grows 0 s (snd (vfs_lseek fd pos whence s))"
    "grows 0 s (snd (vfs_fcntl fd cmd arg s))"
proof -
  note r = grows_refl [OF ok]
  show "grows 0 s (snd (vfs_close fd s))"
    using r by (auto simp: vfs_close_def intro: grows_put_fd [OF ok])
  show "grows 0 s (snd (vfs_dup fd s))" "grows 0 s (snd (vfs_dup2 fd fd' s))" "grows 0 s (snd (vfs_fcntl fd cmd arg s))"
    "grows 0 s (snd (vfs_lseek fd pos whence s))"
    using r by (auto simp: vfs_dup_def vfs_dup2_def vfs_fcntl_def vfs_lseek_def Let_def intro: grows_fd_upd [OF ok] split: option.splits)
  show "grows 0 s (snd (vfs_open_std path flags fd s))"
    using r fd_okI [OF ok] by (auto simp: vfs_open_std_def Let_def intro!: grows_put_fd [OF ok] split: option.splits)
qed

lemma vfs_ftruncate_grows:
  assumes ok: "ns_ok s" and run: "vfs_ftruncate fd len s = Inr (r, s')"
  shows "grows 0 s s'"
proof (cases "fd_bad fd s \<or> node_get (nodes s) (f_inode (fds s ! nat fd)) = None")
  case True
  with run grows_refl [OF ok] show ?thesis by (auto simp: vfs_ftruncate_def split: if_splits)
next
  case False
  then obtain i where i: "node_get (nodes s) (f_inode (fds s ! nat fd)) = Some i" by auto
  have put: "grows 0 s (put_node i ((nodes s ! i)\<lparr>n_data := d, n_capacity := c, n_size := z\<rparr>) s1)"
    if "same_tables s s1" for s1 d c z
    using node_getD(1) [OF i] by (intro grows_put_after [OF ok that]) simp_all
  consider "same_tables s s'" | d c z s1 where "same_tables s s1"
      "s' = put_node i ((nodes s ! i)\<lparr>n_data := d, n_capacity := c, n_size := z\<rparr>) s1"
  proof (cases "n_type (nodes s ! i) = VFS_CHR \<and> n_major (nodes s ! i) = DEV_SHM_MAJOR")
    case True
    with run False i have "shm_truncate (uint (n_minor (nodes s ! i))) len s = Inr (r, s')" by (simp add: vfs_ftruncate_def Let_def)
    with that(1) same_tables_shm shm_truncate_more show ?thesis by blast
  next
    case nshm: False
    show ?thesis
    proof (cases "n_type (nodes s ! i) = VFS_FILE \<and> 0 \<le> c_int64 len \<and> len > n_capacity (nodes s ! i)")
      case True
      with run False i nshm obtain d s1 where k: "krealloc (n_data (nodes s ! i)) (ALIGN_UP (len + 256) PAGE_SIZE) s = Inr (d, s1)"
        and "s' = s1 \<or> s' = put_node i ((nodes s ! i)\<lparr>n_data := d, n_capacity := ALIGN_UP (len + 256) PAGE_SIZE, n_size := len\<rparr>) s1"
        by (auto simp: vfs_ftruncate_def Let_def split: sum.splits if_splits)
      with same_tables_heap [OF krealloc_more [OF k]] that show ?thesis by blast
    next
      case c: False
      have "(nodes s ! i)\<lparr>n_size := len\<rparr> = (nodes s ! i)\<lparr>n_data := n_data (nodes s ! i), n_capacity := n_capacity (nodes s ! i), n_size := len\<rparr>"
        by simp
      with run False i nshm c have "s' = s \<or>
          s' = put_node i ((nodes s ! i)\<lparr>n_data := n_data (nodes s ! i), n_capacity := n_capacity (nodes s ! i), n_size := len\<rparr>) s"
        by (auto simp: vfs_ftruncate_def Let_def split: if_splits)
      with that show ?thesis by (metis same_tables_refl)
    qed
  qed
  then show ?thesis using put grows_tables [OF ok] by cases auto
qed

lemma grows_fd_after:
  assumes "ns_ok s" and "\<not> fd_bad fd s" and "same_tables s s1" and "f_inode f = f_inode (fds s ! nat fd)"
  shows "grows k s (put_fd i f s1)"
  using assms
  by (intro grows_tables_trans [OF assms(3)] grows_fd_upd [of s1 fd])
    (simp_all add: same_tables_ok same_tables_bad, simp_all add: same_tables_def)

lemma vfs_read_grows:
  assumes ok: "ns_ok s" and run: "vfs_read fd len s = Inr (r, bs, s')"
  shows "grows 0 s s'"
  using run grows_refl [OF ok]
  by (auto simp: vfs_read_def Let_def intro: grows_fd_upd [OF ok] grows_fd_after [OF ok _ devfs_chr_read_tables]
      split: if_splits option.splits sum.splits)

lemma write_reserve_tables:
  assumes "write_reserve e n s = Inr (x, s1)"
  shows "same_tables s s1" and "x = Some n1 \<Longrightarrow> \<exists>d c. n1 = n\<lparr>n_data := d, n_capacity := c\<rparr>"
proof -
  show "same_tables s s1"
    using assms by (auto simp: write_reserve_def Let_def intro: same_tables_heap dest!: krealloc_more split: if_splits sum.splits)
  show "\<exists>d c. n1 = n\<lparr>n_data := d, n_capacity := c\<rparr>" if "x = Some n1"
  proof (cases "e > n_capacity n")
    case True
    with assms that obtain d where "n1 = n\<lparr>n_data := d, n_capacity := e + 256\<rparr>"
      by (auto simp: write_reserve_def Let_def split: if_splits sum.splits)
    then show ?thesis by blast
  next
    case False
    with assms that have "n1 = n\<lparr>n_data := n_data n, n_capacity := n_capacity n\<rparr>" by (simp add: write_reserve_def)
    then show ?thesis by blast
  qed
qed

lemma vfs_write_grows:
  assumes ok: "ns_ok s" and run: "vfs_write fd buf s = Inr (r, s')"
  shows "grows 0 s s'"
proof (cases "fd_bad fd s \<or> \<not> o_write (f_flags (fds s ! nat fd)) \<or> node_get (nodes s) (f_inode (fds s ! nat fd)) = None")
  case True
  with run grows_refl [OF ok] show ?thesis by (auto simp: vfs_write_def Let_def split: if_splits)
next
  case False
  then obtain i where i: "node_get (nodes s) (f_inode (fds s ! nat fd)) = Some i" by auto
  show ?thesis
  proof (cases "n_type (nodes s ! i)")
    case VFS_FILE
    define e where "e = f_offset (fds s ! nat fd) + of_nat (length buf)"
    from run False i VFS_FILE obtain x s1 where x: "write_reserve e (nodes s ! i) s = Inr (x, s1)"
      by (auto simp: vfs_write_def Let_def e_def split: sum.splits option.splits)
    note t = write_reserve_tables [OF x]
    show ?thesis
    proof (cases x)
      case None
      with run False i VFS_FILE x have "s' = s1" by (simp add: vfs_write_def Let_def e_def)
      with t(1) grows_tables [OF ok] show ?thesis by blast
    next
      case (Some n1)
      from t(2) [OF Some] obtain d c where n1: "n1 = (nodes s ! i)\<lparr>n_data := d, n_capacity := c\<rparr>" by blast
      define s2 where "s2 = s1\<lparr>hmem := store_bytes (hmem s1) (unat (n_data n1 + f_offset (fds s ! nat fd))) buf\<rparr>"
      define n2 where "n2 = n1\<lparr>n_size := (if e > n_size n1 then e else n_size n1)\<rparr>"
      have s': "s' = put_fd (nat fd) ((fds s ! nat fd)\<lparr>f_offset := e\<rparr>) (put_node i n2 s2)"
        using run False i VFS_FILE x Some by (auto simp: vfs_write_def Let_def e_def s2_def n2_def split: if_splits)
      have t2: "same_tables s s2" using t(1) by (simp add: s2_def same_tables_def)
      have g: "grows 0 s (put_node i n2 s2)"
        using node_getD(1) [OF i] by (intro grows_put_after [OF ok t2]) (simp_all add: n2_def n1)
      have "\<not> fd_bad fd (put_node i n2 s2)" "fds (put_node i n2 s2) = fds s"
        using False t2 by (simp_all add: put_node_def fd_bad_def same_tables_def)
      then have "grows 0 (put_node i n2 s2) s'"
        using g unfolding s' by (intro grows_fd_upd [of _ fd]) (simp_all add: grows_def)
      with grows_trans [OF g] show ?thesis by fastforce
    qed
  next
    case VFS_DIR
    with run False i grows_refl [OF ok] show ?thesis by (simp add: vfs_write_def Let_def)
  next
    case VFS_CHR
    with run False i obtain s1 off where c: "devfs_chr_write (nodes s ! i) buf (f_offset (fds s ! nat fd)) s = Inr (r, off, s1)"
      and s': "s' = put_fd (nat fd) ((fds s ! nat fd)\<lparr>f_offset := off\<rparr>) s1"
      by (auto simp: vfs_write_def Let_def split: sum.splits)
    have "\<not> fd_bad fd s" using False by simp
    from grows_fd_after [OF ok this devfs_chr_write_tables [OF c]] show ?thesis unfolding s' by simp
  qed
qed

lemma vfs_unlink_grows:
  assumes ok: "ns_ok s" and run: "vfs_unlink path s = Inr (r, s')"
  shows "grows 0 s s'"
proof -
  define ino :: u32 where "ino = word_of_int (vfs_resolve path s)"
  consider "s' = s" | i s1 s2 where "node_get (nodes s) ino = Some i" "n_type (nodes s ! i) = VFS_DIR \<Longrightarrow> \<not> has_child ino (nodes s)"
      "same_tables s s1" "same_tables s1 s2" "s' = put_node i node_zero s2"
  proof (cases "vfs_resolve path s < 0 \<or> ino = 0 \<or> node_get (nodes s) ino = None")
    case True
    with run that(1) show ?thesis by (auto simp: vfs_unlink_def Let_def ino_def split: if_splits)
  next
    case False
    then obtain i where i: "node_get (nodes s) ino = Some i" by auto
    show ?thesis
    proof (cases "n_type (nodes s ! i) = VFS_DIR \<and> has_child ino (nodes s)")
      case True
      with False i run that(1) show ?thesis by (simp add: vfs_unlink_def Let_def ino_def)
    next
      case leaf: False
      define d where "d = (if n_type (nodes s ! i) = VFS_CHR \<and> n_major (nodes s ! i) = DEV_SHM_MAJOR
                           then shm_destroy (uint (n_minor (nodes s ! i))) s else Inr s)"
      from False leaf i run obtain s1 s2 where d: "d = Inr s1" and k: "kfree (n_data (nodes s ! i)) s1 = Inr s2"
        and s': "s' = put_node i node_zero s2"
        by (auto simp: vfs_unlink_def Let_def ino_def d_def split: sum.splits)
      have "same_tables s s1" using d by (auto simp: d_def intro: same_tables_shm dest!: shm_destroy_more split: if_splits)
      with same_tables_heap [OF kfree_more [OF k]] i leaf s' that(2) show ?thesis by blast
    qed
  qed
  then show ?thesis
  proof cases
    case (2 i s1 s2)
    have t: "same_tables s s2" using 2(3,4) by (rule same_tables_trans)
    have "grows 0 s2 s'"
      unfolding 2(5) using t node_getD [OF 2(1)] 2(2) ok
      by (intro grows_remove) (simp_all add: same_tables_ok, simp_all add: same_tables_def)
    with t show ?thesis by (rule grows_tables_trans)
  qed (use grows_refl [OF ok] in simp)
qed

lemma vfs_getdents64_fails:
  assumes ok: "ns_ok s"
  shows "fst (vfs_getdents64 fd cnt s) < 0" "snd (snd (vfs_getdents64 fd cnt s)) = s"
proof -
  have "n_type (nodes s ! i) \<noteq> VFS_DIR"
    if "\<not> fd_bad fd s" "node_get (nodes s) (f_inode (fds s ! nat fd)) = Some i" for i
    using fd_used_ok [OF ok that(1)] node_getD [OF that(2)] by (auto simp: fd_ok_def)
  then show "fst (vfs_getdents64 fd cnt s) < 0" "snd (snd (vfs_getdents64 fd cnt s)) = s"
    by (auto simp: vfs_getdents64_def Let_def split: option.splits)
qed

section \<open>The file system as a transition system\<close>

text \<open>
  One call of the interface of \<^verbatim>\<open>vfs.h\<close> that returns. \<open>vfs_set_cwd\<close> is called by its users with the
  inode of a path they have just resolved.
\<close>

inductive vfs_step :: "'a vfs_scheme \<Rightarrow> 'a vfs_scheme \<Rightarrow> bool" where
  Mkdir: "vfs_step s (snd (vfs_mkdir path s))"
| Mknod: "vfs_step s (snd (vfs_mknod_chr path maj mi s))"
| Open: "vfs_open path flags s = Inr (r, s') \<Longrightarrow> vfs_step s s'"
| OpenStd: "vfs_step s (snd (vfs_open_std path flags fd s))"
| Close: "vfs_step s (snd (vfs_close fd s))"
| Dup: "vfs_step s (snd (vfs_dup fd s))"
| Dup2: "vfs_step s (snd (vfs_dup2 fd fd' s))"
| Lseek: "vfs_step s (snd (vfs_lseek fd pos whence s))"
| Fcntl: "vfs_step s (snd (vfs_fcntl fd cmd arg s))"
| Ftruncate: "vfs_ftruncate fd len s = Inr (r, s') \<Longrightarrow> vfs_step s s'"
| Read: "vfs_read fd len s = Inr (r, bs, s') \<Longrightarrow> vfs_step s s'"
| Write: "vfs_write fd buf s = Inr (r, s') \<Longrightarrow> vfs_step s s'"
| Unlink: "vfs_unlink path s = Inr (r, s') \<Longrightarrow> vfs_step s s'"
| Getdents: "vfs_step s (snd (snd (vfs_getdents64 fd cnt s)))"
| Chdir: "0 \<le> vfs_resolve path s \<Longrightarrow> vfs_step s (vfs_set_cwd (word_of_int (vfs_resolve path s)) s)"

inductive vfs_run :: "nat \<Rightarrow> 'a vfs_scheme \<Rightarrow> 'a vfs_scheme \<Rightarrow> bool" where
  Start: "vfs_run 0 s s"
| Step: "vfs_run n s s' \<Longrightarrow> vfs_step s' s'' \<Longrightarrow> vfs_run (Suc n) s s''"

lemma chdir_grows:
  assumes ok: "ns_ok s" and "0 \<le> vfs_resolve path s"
  shows "grows 0 s (vfs_set_cwd (word_of_int (vfs_resolve path s)) s)"
proof -
  from assms(2) obtain c where c: "vfs_walk (nodes s) (skip_slash path) (path_start path s) = Some c"
    by (auto simp: vfs_resolve_walk walk_result_def split: option.splits)
  from ns_ok_walk [OF ok c ns_ok_lim [OF ok]] ok c show ?thesis
    by (simp add: grows_def vfs_set_cwd_def vfs_resolve_walk walk_result_def ns_ok_def)
qed

lemma vfs_step_grows:
  assumes "vfs_step s s'" and "ns_ok s" and "unat (next_inode s) + 2 \<le> 2 ^ 31"
  shows "grows 2 s s'"
  using assms
proof (induction rule: vfs_step.induct)
  case (Mkdir s path) then show ?case using mkdir_grows(1) [of s path] by (auto elim: grows_mono)
next
  case (Mknod s path maj mi) then show ?case using mkdir_grows(2) [of s path maj mi] by (auto elim: grows_mono)
next
  case (Open path flags s r s') then show ?case using vfs_open_grows by blast
next
  case (Ftruncate fd len s r s') then show ?case using vfs_ftruncate_grows by (blast intro: grows_mono)
next
  case (Read fd len s r bs s') then show ?case using vfs_read_grows by (blast intro: grows_mono)
next
  case (Write fd buf s r s') then show ?case using vfs_write_grows by (blast intro: grows_mono)
next
  case (Unlink path s r s') then show ?case using vfs_unlink_grows by (blast intro: grows_mono)
next
  case (Getdents s fd cnt) then show ?case using vfs_getdents64_fails(2) grows_refl by fastforce
next
  case (Chdir path s) then show ?case using chdir_grows by (blast intro: grows_mono)
qed (blast intro: grows_mono fd_ops_grow)+

lemma vfs_run_grows:
  assumes "vfs_run n s s'" and "ns_ok s" and "unat (next_inode s) + 2 * n \<le> 2 ^ 31"
  shows "grows (2 * n) s s'"
  using assms
proof (induction rule: vfs_run.induct)
  case (Start s)
  then show ?case by (simp add: grows_refl)
next
  case (Step n s s' s'')
  then have g: "grows (2 * n) s s'" by simp
  with Step have "grows 2 s' s''" by (intro vfs_step_grows) (auto simp: grows_def)
  with grows_trans [OF g this] show ?case by simp
qed

section \<open>The initial tree\<close>

lemma vfs_base_ok:
  assumes "vfs_cwd s = 0"
  shows "ns_ok (s\<lparr>nodes := (replicate 256 node_zero)[0 := root_node], fds := replicate 64 fd_zero, next_inode := 1\<rparr>)"
proof -
  define ns where "ns = (replicate 256 node_zero)[0 := root_node]"
  have len: "length ns = 256" by (simp add: ns_def)
  have used: "n_used (ns ! j) \<Longrightarrow> j = 0" if "j < 256" for j
    using that by (cases "j = 0") (auto simp: ns_def node_zero_def)
  have root: "ns ! 0 = root_node" by (simp add: ns_def)
  have only: "n = root_node" if "n \<in> set ns" "n_used n" for n
    using that used root len by (metis in_set_conv_nth)
  have "root_node \<in> set ns" using nth_mem [of 0 ns] root len by simp
  moreover have "n_used root_node" "n_inode root_node = 0" "n_parent root_node = 0" "n_type root_node = VFS_DIR"
    by (simp_all add: root_node_def)
  ultimately have "node_ok ns 1 n" if "n \<in> set ns" "n_used n" for n
    using only [OF that] by (auto simp: node_ok_def)
  moreover have "distinct_inodes ns" unfolding distinct_inodes_def len using used by blast
  moreover have "\<not> f_open f" if "f \<in> set (replicate 64 fd_zero)" for f using that by (simp add: fd_zero_def)
  ultimately show ?thesis
    unfolding ns_def [symmetric] using assms len by (auto simp: ns_ok_def)
qed

lemma mkdirs_grow:
  assumes "ns_ok s" and "unat (next_inode s) + length ds \<le> 2 ^ 31"
  shows "grows (length ds) s (fold (\<lambda>d s. snd (vfs_mkdir d s)) ds s)"
  using assms
proof (induction ds arbitrary: s)
  case Nil
  then show ?case by (simp add: grows_refl)
next
  case (Cons d ds)
  have g: "grows 1 s (snd (vfs_mkdir d s))" using Cons.prems by (intro mkdir_grows) auto
  with Cons.prems have "grows (length ds) (snd (vfs_mkdir d s)) (fold (\<lambda>d s. snd (vfs_mkdir d s)) ds (snd (vfs_mkdir d s)))"
    by (intro Cons.IH) (auto simp: grows_def)
  from grows_trans [OF g this] show ?case by simp
qed

lemma vfs_boot_ok:
  assumes "vfs_cwd s = 0"
  shows "ns_ok (devfs_init (vfs_init s))" "unat (next_inode (devfs_init (vfs_init s))) \<le> 17"
proof -
  define b where "b = s\<lparr>nodes := (replicate 256 node_zero)[0 := root_node], fds := replicate 64 fd_zero, next_inode := 1\<rparr>"
  have b: "ns_ok b" "unat (next_inode b) = 1" using vfs_base_ok [OF assms] by (simp_all add: b_def)
  define ds where "ds = [''/bin'', ''/etc'', ''/tmp'', ''/home'', ''/usr'', ''/usr/bin'', ''/var'', ''/var/cache'']"
  have l: "length ds = 8" by (simp add: ds_def)
  have g0: "grows 8 b (vfs_init s)"
    unfolding vfs_init_def b_def [symmetric] ds_def [symmetric] using mkdirs_grow [OF b(1), of ds] b(2) l by simp
  have mk: "grows (Suc k) b (snd (vfs_mkdir path t))" "grows (Suc k) b (snd (vfs_mknod_chr path maj mi t))"
    if "grows k b t" "k < 100" for k t path maj mi
  proof -
    have t: "ns_ok t" "unat (next_inode t) < 2 ^ 31" using that b(2) by (simp_all add: grows_def)
    show "grows (Suc k) b (snd (vfs_mkdir path t))" "grows (Suc k) b (snd (vfs_mknod_chr path maj mi t))"
      using grows_trans [OF that(1) mkdir_grows(1) [OF t]] grows_trans [OF that(1) mkdir_grows(2) [OF t]] by simp_all
  qed
  define s1 where "s1 = (if vfs_resolve ''/dev'' (vfs_init s) < 0 then snd (vfs_mkdir ''/dev'' (vfs_init s)) else vfs_init s)"
  have g1: "grows 9 b s1" using mk(1) [OF g0] grows_mono [OF g0, of 9] by (simp add: s1_def)
  have "grows 16 b (devfs_init (vfs_init s))"
    unfolding devfs_init_def Let_def s1_def [symmetric]
    using mk(2) [OF mk(2) [OF mk(2) [OF mk(2) [OF mk(2) [OF mk(1) [OF mk(1) [OF g1]]]]]]] by simp
  then show "ns_ok (devfs_init (vfs_init s))" "unat (next_inode (devfs_init (vfs_init s))) \<le> 17"
    using b(2) by (simp_all add: grows_def)
qed

section \<open>Properties\<close>

text \<open>
  C21: creating a directory at a plain path puts it where resolution finds it: afterwards the path resolves to the
  new inode, which is an empty directory, every path that led somewhere still leads to the same place, and the
  invariant of the tables holds. (With a doubled slash in front of the leaf \<open>vfs_mkdir\<close> also succeeds, but the path
  does not resolve, so the same directory can be made again and again.)
\<close>

theorem vfs_mkdir_resolves:
  assumes "ns_ok s" and "unat (next_inode s) < 2 ^ 31" and "plain_path path" and "vfs_mkdir path s = (0, s')"
  shows "ns_ok s' \<and> vfs_resolve path s' = int (unat (next_inode s)) \<and> vfs_stat path s' = Some (VFS_DIR, 0) \<and>
         (\<forall>q. 0 \<le> vfs_resolve q s \<longrightarrow> vfs_resolve q s' = vfs_resolve q s)"
proof -
  from assms(4) obtain ino where "vfs_resolve path s < 0" "0 \<le> walk_result (parent_walk path s)"
    "make_node VFS_DIR 0 0 (walk_result (parent_walk path s)) (leaf_of path) s = Some (ino, s')"
    by (auto simp: vfs_mkdir_def resolve_parent_walk [OF assms(3)] split: if_splits option.splits)
  from make_node_resolves [OF assms(1-3) this] show ?thesis .
qed

text \<open>The witness makes a directory in the file system that has only its root.\<close>

definition tree_demo :: vfs where
  "tree_demo = vfs_demo\<lparr>nodes := (replicate 256 node_zero)[0 := root_node], fds := replicate 64 fd_zero, next_inode := 1\<rparr>"

lemma tree_demo_ok: "ns_ok tree_demo" "unat (next_inode tree_demo) = 1" "plain_path ''/bin''"
proof -
  have "vfs_cwd vfs_demo = 0" by (simp add: vfs_demo_def)
  then show "ns_ok tree_demo" unfolding tree_demo_def by (rule vfs_base_ok)
  show "unat (next_inode tree_demo) = 1" by (simp add: tree_demo_def)
  show "plain_path ''/bin''" by (simp add: plain_path_def leaf_of_def parent_part_def)
qed

lemma tree_demo_nodes: "n \<in> set (nodes tree_demo) \<Longrightarrow> n = root_node \<or> n = node_zero" "nodes tree_demo ! 0 = root_node"
  "nodes tree_demo ! 1 = node_zero" "length (nodes tree_demo) = 256"
  using set_update_subset_insert [of "replicate 256 node_zero" 0 root_node] by (auto simp: tree_demo_def)

lemma tree_demo_mkdir: "\<exists>s'. vfs_mkdir ''/bin'' tree_demo = (0, s')"
proof -
  have leaf: "leaf_of ''/bin'' = ''bin''" "parent_part ''/bin'' = []" by (simp_all add: leaf_of_def parent_part_def)
  have pw: "parent_walk ''/bin'' tree_demo = Some 0"
    by (simp add: parent_walk_def leaf skip_slash_def path_start_def vfs_walk_step [of _ "[]"])
  have "find_idx (\<lambda>n. n_used n \<and> n_parent n = 0 \<and> n_name n = ''bin'') (nodes tree_demo) = None"
    unfolding find_idx_None_iff
  proof
    fix x
    assume "x \<in> set (nodes tree_demo)"
    from tree_demo_nodes(1) [OF this] show "\<not> (n_used x \<and> n_parent x = 0 \<and> n_name x = ''bin'')"
      by (elim disjE) (simp_all add: root_node_def node_zero_def)
  qed
  then have r: "vfs_resolve ''/bin'' tree_demo = - 1"
    by (simp add: vfs_resolve_parent [OF tree_demo_ok(3)] pw leaf vfs_walk_leaf walk_result_def)
  have "node_get (nodes tree_demo) 0 = Some 0"
    using node_get_unique [OF ns_okD(5) [OF tree_demo_ok(1)], of 0] tree_demo_nodes(2,4) by (simp add: root_node_def node_zero_def)
  moreover obtain i where "find_idx (\<lambda>n. \<not> n_used n) (nodes tree_demo) = Some i"
  proof -
    have "node_zero \<in> set (nodes tree_demo)" using nth_mem [of 1 "nodes tree_demo"] unfolding tree_demo_nodes(3,4) by simp
    moreover have "\<not> n_used node_zero" by (simp add: node_zero_def)
    ultimately show ?thesis using find_idx_exists [of "nodes tree_demo" "\<lambda>n. \<not> n_used n"] that by blast
  qed
  ultimately show ?thesis
    using r pw tree_demo_nodes(2)
    by (simp add: vfs_mkdir_def resolve_parent_walk [OF tree_demo_ok(3)] leaf walk_result_def make_node_def node_alloc_def
        root_node_def node_zero_def)
qed

theorem vfs_mkdir_resolves_witness:
  "ns_ok tree_demo \<and> plain_path ''/bin'' \<and>
   (\<exists>s'. vfs_mkdir ''/bin'' tree_demo = (0, s') \<and> vfs_resolve ''/bin'' s' = 1 \<and> vfs_stat ''/bin'' s' = Some (VFS_DIR, 0))"
proof -
  obtain s' where m: "vfs_mkdir ''/bin'' tree_demo = (0, s')" using tree_demo_mkdir by blast
  have "unat (next_inode tree_demo) < 2 ^ 31" using tree_demo_ok(2) by simp
  from vfs_mkdir_resolves [OF tree_demo_ok(1) this tree_demo_ok(3) m] m tree_demo_ok show ?thesis by auto
qed



end
