(* ===== verification/Unsock.thy ===== *)
theory Unsock
  imports Sched Vfs_Tree
begin

text \<open>
  \<^verbatim>\<open>src/net/un_socket.c\<close>: the table of local stream sockets with their receive rings, the accept queues, descriptor
  passing and event descriptors. A pointer to a socket is its index. A call that blocks takes \<open>waits\<close>: for each
  turn of its wait loop the stack pointer of the frame that \<open>task_sleep\<close> pushes and what the rest of the system
  does until the caller runs again; \<open>Diverges\<close> means that it still waits when they are used up.
\<close>

section \<open>State\<close>

abbreviation (input) RX_CAP :: nat where "RX_CAP \<equiv> 8192"
abbreviation (input) FDS_CAP :: nat where "FDS_CAP \<equiv> 16"
abbreviation (input) ACCEPT_Q :: nat where "ACCEPT_Q \<equiv> 8"
abbreviation (input) UNIX_SOCK_FD_BASE :: int where "UNIX_SOCK_FD_BASE \<equiv> 128"
abbreviation (input) UNIX_SOCK_MAX :: nat where "UNIX_SOCK_MAX \<equiv> 24"
abbreviation (input) PEER_NONE :: int where "PEER_NONE \<equiv> - 1"

datatype SkState = SK_UNUSED | SK_CREATED | SK_BOUND | SK_LISTENING | SK_CONNECTED

record USock =
  u_used :: bool
  u_state :: SkState
  u_path :: string
  rx :: "u8 list"
  rhd :: nat
  rtl :: nat
  peer_idx :: int
  listen_q :: "int list"
  n_wait :: nat
  fds_rx :: "int list"
  fds_rhd :: nat
  fds_rtl :: nat
  u_flags :: int

record net = sched +
  socks :: "USock list"
  boot_top :: u64

definition usock_zero :: USock where
  "usock_zero = \<lparr>u_used = False, u_state = SK_UNUSED, u_path = '''', rx = replicate RX_CAP 0, rhd = 0, rtl = 0, peer_idx = 0,
                 listen_q = replicate ACCEPT_Q 0, n_wait = 0, fds_rx = replicate FDS_CAP 0, fds_rhd = 0, fds_rtl = 0, u_flags = 0\<rparr>"

type_synonym 's waits = "(u64 \<times> ('s \<Rightarrow> 's)) list"

definition put_sock :: "nat \<Rightarrow> USock \<Rightarrow> 'a net_scheme \<Rightarrow> 'a net_scheme" where
  "put_sock i u s = s\<lparr>socks := (socks s)[i := u]\<rparr>"

definition unix_socket_init :: "'a net_scheme \<Rightarrow> 'a net_scheme" where
  "unix_socket_init s = s\<lparr>socks := replicate UNIX_SOCK_MAX usock_zero\<rparr>"

definition idx_from_fd :: "int \<Rightarrow> int" where
  "idx_from_fd fd =
     (if fd < UNIX_SOCK_FD_BASE \<or> fd \<ge> UNIX_SOCK_FD_BASE + int UNIX_SOCK_MAX then - 1 else fd - UNIX_SOCK_FD_BASE)"

definition alloc_slot :: "'a net_scheme \<Rightarrow> (nat \<times> 'a net_scheme) option" where
  "alloc_slot s =
     (case find_idx (\<lambda>u. \<not> u_used u) (socks s) of
        None \<Rightarrow> None
      | Some i \<Rightarrow> Some (i, put_sock i (usock_zero\<lparr>u_used := True, u_state := SK_CREATED, peer_idx := PEER_NONE\<rparr>) s))"

section \<open>Rings\<close>

fun push_rx :: "u8 list \<Rightarrow> USock \<Rightarrow> bool \<times> USock" where
  "push_rx [] dst = (True, dst)"
| "push_rx (b # bs) dst =
     (let nxt = (rhd dst + 1) mod RX_CAP
      in if nxt = rtl dst then (False, dst)
         else push_rx bs (dst\<lparr>rx := (rx dst)[rhd dst := b], rhd := nxt\<rparr>))"

definition push_result :: "bool \<Rightarrow> u8 list \<Rightarrow> int" where
  "push_result ok bs = (if ok then c_int (of_nat (length bs)) else - ENOMEM)"

fun pop_bytes :: "nat \<Rightarrow> USock \<Rightarrow> u8 list \<times> USock" where
  "pop_bytes 0 u = ([], u)"
| "pop_bytes (Suc n) u =
     (if rtl u = rhd u then ([], u)
      else case pop_bytes n (u\<lparr>rtl := (rtl u + 1) mod RX_CAP\<rparr>) of (bs, u') \<Rightarrow> (rx u ! rtl u # bs, u'))"

definition nonblock :: "int \<Rightarrow> bool" where
  "nonblock flags = bit flags 11"

definition sleep_tick :: "u64 \<times> ('a net_scheme \<Rightarrow> 'a net_scheme) \<Rightarrow> 'a net_scheme \<Rightarrow> 'a net_scheme" where
  "sleep_tick w s = (case w of (rsp, others) \<Rightarrow> others (snd (task_sleep (boot_top s) 1 rsp s)))"

text \<open>The wait loop of \<open>pop_rx\<close>; \<open>True\<close> means that it returns \<^verbatim>\<open>-EAGAIN\<close>.\<close>

fun pop_wait :: "nat \<Rightarrow> 'a net_scheme waits \<Rightarrow> 'a net_scheme \<Rightarrow> (bool \<times> 'a net_scheme waits \<times> 'a net_scheme) res" where
  "pop_wait i [] s =
     (let u = socks s ! i
      in if rtl u = rhd u \<and> peer_idx u \<noteq> PEER_NONE then
           if nonblock (u_flags u) then Inr (True, [], s) else Inl Diverges
         else Inr (False, [], s))"
| "pop_wait i (w # ws) s =
     (let u = socks s ! i
      in if rtl u = rhd u \<and> peer_idx u \<noteq> PEER_NONE then
           if nonblock (u_flags u) then Inr (True, w # ws, s) else pop_wait i ws (sleep_tick w s)
         else Inr (False, w # ws, s))"

definition pop_rx :: "nat \<Rightarrow> u64 \<Rightarrow> 'a net_scheme waits \<Rightarrow> 'a net_scheme \<Rightarrow> (int \<times> u8 list \<times> 'a net_scheme waits \<times> 'a net_scheme) res" where
  "pop_rx i len ws s =
     (case pop_wait i ws s of
        Inl e \<Rightarrow> Inl e
      | Inr (True, ws1, s1) \<Rightarrow> Inr (- EAGAIN, [], ws1, s1)
      | Inr (False, ws1, s1) \<Rightarrow>
          (case pop_bytes (unat len) (socks s1 ! i) of (bs, u) \<Rightarrow>
             Inr (c_int (of_nat (length bs)), bs, ws1, put_sock i u s1)))"

section \<open>Connections\<close>

definition unix_is_sockfd :: "int \<Rightarrow> 'a net_scheme \<Rightarrow> bool" where
  "unix_is_sockfd fd s \<longleftrightarrow> idx_from_fd fd \<ge> 0 \<and> u_used (socks s ! nat (idx_from_fd fd))"

definition unix_socket :: "int \<Rightarrow> int \<Rightarrow> 'a net_scheme \<Rightarrow> int \<times> 'a net_scheme" where
  "unix_socket domain ty s =
     (if domain \<noteq> 1 then (- EINVAL, s)
      else if ty \<noteq> 1 then (- EINVAL, s)
      else case alloc_slot s of None \<Rightarrow> (- ENOMEM, s) | Some (i, s1) \<Rightarrow> (UNIX_SOCK_FD_BASE + int i, s1))"

text \<open>The second component is what the call stores in \<open>sv\<close>; the caller passes a valid pointer.\<close>

definition unix_socketpair :: "int \<Rightarrow> int \<Rightarrow> 'a net_scheme \<Rightarrow> int \<times> (int \<times> int) option \<times> 'a net_scheme" where
  "unix_socketpair domain ty s =
     (if domain \<noteq> 1 \<or> ty \<noteq> 1 then (- EINVAL, None, s)
      else case alloc_slot s of
        None \<Rightarrow> (- ENOMEM, None, s)
      | Some (a, s1) \<Rightarrow>
          (case alloc_slot s1 of
             None \<Rightarrow> (- ENOMEM, None, put_sock a ((socks s1 ! a)\<lparr>u_used := False\<rparr>) s1)
           | Some (b, s2) \<Rightarrow>
               (0, Some (UNIX_SOCK_FD_BASE + int a, UNIX_SOCK_FD_BASE + int b),
                put_sock b ((socks s2 ! b)\<lparr>u_state := SK_CONNECTED, peer_idx := int a\<rparr>)
                  (put_sock a ((socks s2 ! a)\<lparr>u_state := SK_CONNECTED, peer_idx := int b\<rparr>) s2))))"

text \<open>The path of a socket address: the bytes after the family, up to the first NUL.\<close>

definition addr_path :: "u8 list \<Rightarrow> string" where
  "addr_path addr = map (\<lambda>b. char_of (unat b)) (takeWhile (\<lambda>b. b \<noteq> 0) (drop 2 addr))"

definition addr_bad :: "u8 list \<Rightarrow> bool" where
  "addr_bad addr \<longleftrightarrow>
     length addr < 3 \<or> (addr ! 0 \<noteq> 1 \<or> addr ! 1 \<noteq> 0) \<or> length addr - 2 = 0 \<or> length addr - 2 \<ge> 120"

definition path_taken :: "nat \<Rightarrow> string \<Rightarrow> USock list \<Rightarrow> bool" where
  "path_taken i path us \<longleftrightarrow>
     (\<exists>k < length us. u_used (us ! k) \<and> k \<noteq> i \<and> u_path (us ! k) \<noteq> [] \<and> u_path (us ! k) = path)"

definition unix_bind :: "int \<Rightarrow> u8 list \<Rightarrow> 'a net_scheme \<Rightarrow> (int \<times> 'a net_scheme) res" where
  "unix_bind fd addr s =
     (if \<not> unix_is_sockfd fd s then Inr (- EBADF, s)
      else let i = nat (idx_from_fd fd)
           in if u_state (socks s ! i) \<noteq> SK_CREATED then Inr (- EINVAL, s)
              else if addr_bad addr then Inr (- EINVAL, s)
              else let path = addr_path addr;
                       s1 = put_sock i ((socks s ! i)\<lparr>u_path := path\<rparr>) s
                   in if path = [] then Inr (- EINVAL, s1)
                      else if vfs_resolve path s1 \<ge> 0 then Inr (- EADDRINUSE, s1)
                      else if path_taken i path (socks s1) then Inr (- EADDRINUSE, s1)
                      else case vfs_open path 15 s1 of
                             Inl e \<Rightarrow> Inl e
                           | Inr (tfd, s2) \<Rightarrow>
                               if tfd < 0 then Inr (- EIO, s2)
                               else let s3 = snd (vfs_close tfd s2)
                                    in Inr (0, put_sock i ((socks s3 ! i)\<lparr>u_state := SK_BOUND\<rparr>) s3))"

definition unix_listen :: "int \<Rightarrow> 'a net_scheme \<Rightarrow> int \<times> 'a net_scheme" where
  "unix_listen fd s =
     (if \<not> unix_is_sockfd fd s then (- EBADF, s)
      else let i = nat (idx_from_fd fd)
           in if u_state (socks s ! i) \<noteq> SK_BOUND then (- EINVAL, s)
              else (0, put_sock i ((socks s ! i)\<lparr>u_state := SK_LISTENING\<rparr>) s))"

definition find_listener :: "string \<Rightarrow> 'a net_scheme \<Rightarrow> nat option" where
  "find_listener path s = find_idx (\<lambda>u. u_used u \<and> u_state u = SK_LISTENING \<and> u_path u = path) (socks s)"

fun accept_wait :: "nat \<Rightarrow> 'a net_scheme waits \<Rightarrow> 'a net_scheme \<Rightarrow> (bool \<times> 'a net_scheme) res" where
  "accept_wait i [] s =
     (if n_wait (socks s ! i) = 0 then if nonblock (u_flags (socks s ! i)) then Inr (True, s) else Inl Diverges
      else Inr (False, s))"
| "accept_wait i (w # ws) s =
     (if n_wait (socks s ! i) = 0 then
        if nonblock (u_flags (socks s ! i)) then Inr (True, s) else accept_wait i ws (sleep_tick w s)
      else Inr (False, s))"

definition queue_shift :: "int list \<Rightarrow> nat \<Rightarrow> int list" where
  "queue_shift q n = map (\<lambda>k. if k < n - 1 then q ! (k + 1) else q ! k) [0..<length q]"

definition accept_take :: "nat \<Rightarrow> 'a net_scheme \<Rightarrow> int \<times> 'a net_scheme" where
  "accept_take i s =
     (let u = socks s ! i;
          si = listen_q u ! 0;
          s1 = put_sock i (u\<lparr>listen_q := queue_shift (listen_q u) (n_wait u), n_wait := n_wait u - 1\<rparr>) s
      in if si < 0 \<or> si \<ge> int UNIX_SOCK_MAX \<or> \<not> u_used (socks s1 ! nat si) then (- EIO, s1)
         else (UNIX_SOCK_FD_BASE + si, s1))"

definition unix_accept :: "int \<Rightarrow> 'a net_scheme waits \<Rightarrow> 'a net_scheme \<Rightarrow> (int \<times> 'a net_scheme) res" where
  "unix_accept fd ws s =
     (if \<not> unix_is_sockfd fd s then Inr (- EBADF, s)
      else let i = nat (idx_from_fd fd)
           in if u_state (socks s ! i) \<noteq> SK_LISTENING then Inr (- EINVAL, s)
              else case accept_wait i ws s of
                     Inl e \<Rightarrow> Inl e
                   | Inr (True, s1) \<Rightarrow> Inr (- EAGAIN, s1)
                   | Inr (False, s1) \<Rightarrow> Inr (accept_take i s1))"

definition unix_connect :: "int \<Rightarrow> u8 list \<Rightarrow> 'a net_scheme \<Rightarrow> int \<times> 'a net_scheme" where
  "unix_connect fd addr s =
     (if \<not> unix_is_sockfd fd s then (- EBADF, s)
      else let ci = nat (idx_from_fd fd)
           in if u_state (socks s ! ci) \<noteq> SK_CREATED then (- EINVAL, s)
              else if addr_bad addr then (- EINVAL, s)
              else case find_listener (addr_path addr) s of
                None \<Rightarrow> (- ECONNREFUSED, s)
              | Some li \<Rightarrow>
                  (case alloc_slot s of
                     None \<Rightarrow> (- ENOMEM, s)
                   | Some (si, s1) \<Rightarrow>
                       let S = (socks s1 ! si)\<lparr>u_state := SK_CONNECTED, peer_idx := int ci\<rparr>;
                           C = (socks s1 ! ci)\<lparr>u_state := SK_CONNECTED, peer_idx := int si\<rparr>;
                           s2 = put_sock si S (put_sock ci C s1);
                           L = socks s2 ! li
                       in if n_wait L \<ge> ACCEPT_Q
                          then (- ECONNREFUSED,
                                put_sock ci (C\<lparr>peer_idx := PEER_NONE, u_state := SK_CREATED\<rparr>) (put_sock si (S\<lparr>u_used := False\<rparr>) s2))
                          else (0, put_sock li (L\<lparr>listen_q := (listen_q L)[n_wait L := int si], n_wait := n_wait L + 1\<rparr>) s2)))"

section \<open>Data\<close>

definition unix_sock_read :: "int \<Rightarrow> u64 \<Rightarrow> 'a net_scheme waits \<Rightarrow> 'a net_scheme \<Rightarrow> (int \<times> u8 list \<times> 'a net_scheme) res" where
  "unix_sock_read fd len ws s =
     (if \<not> unix_is_sockfd fd s then Inr (- EBADF, [], s)
      else let i = nat (idx_from_fd fd)
           in if u_state (socks s ! i) \<noteq> SK_CONNECTED then Inr (- ENOTCONN, [], s)
              else case pop_rx i len ws s of Inl e \<Rightarrow> Inl e | Inr (r, bs, _, s1) \<Rightarrow> Inr (r, bs, s1))"

definition peer_push :: "nat \<Rightarrow> u8 list \<Rightarrow> 'a net_scheme \<Rightarrow> (bool \<times> 'a net_scheme) res" where
  "peer_push i buf s =
     (let p = peer_idx (socks s ! i)
      in if p < 0 \<or> p \<ge> int (length (socks s)) then Inl OutOfBounds
         else case push_rx buf (socks s ! nat p) of (ok, u) \<Rightarrow> Inr (ok, put_sock (nat p) u s))"

definition unix_sock_write :: "int \<Rightarrow> u8 list \<Rightarrow> 'a net_scheme \<Rightarrow> (int \<times> 'a net_scheme) res" where
  "unix_sock_write fd buf s =
     (if \<not> unix_is_sockfd fd s then Inr (- EBADF, s)
      else let i = nat (idx_from_fd fd); u = socks s ! i
           in if u_state u \<noteq> SK_CONNECTED \<or> peer_idx u = PEER_NONE then Inr (- ENOTCONN, s)
              else case peer_push i buf s of Inl e \<Rightarrow> Inl e | Inr (ok, s1) \<Rightarrow> Inr (push_result ok buf, s1))"

text \<open>The descriptors waiting in a socket that is closed; at most 15 are in the ring.\<close>

fun close_passed :: "nat \<Rightarrow> nat \<Rightarrow> 'a net_scheme \<Rightarrow> 'a net_scheme" where
  "close_passed 0 i s = s"
| "close_passed (Suc n) i s =
     (let u = socks s ! i
      in if fds_rtl u = fds_rhd u then s
         else let fd = fds_rx u ! fds_rtl u;
                  s1 = (if fd \<ge> 0 \<and> \<not> unix_is_sockfd fd s then snd (vfs_close fd s) else s)
              in close_passed n i (put_sock i (u\<lparr>fds_rtl := (fds_rtl u + 1) mod FDS_CAP\<rparr>) s1))"

definition unpeer :: "nat \<Rightarrow> 'a net_scheme \<Rightarrow> 'a net_scheme" where
  "unpeer i s =
     (let p = peer_idx (socks s ! i);
          s1 = (if p \<noteq> PEER_NONE \<and> p \<ge> 0 \<and> p < int UNIX_SOCK_MAX \<and> u_used (socks s ! nat p) \<and> peer_idx (socks s ! nat p) = int i
                then put_sock (nat p) ((socks s ! nat p)\<lparr>peer_idx := PEER_NONE\<rparr>) s else s)
      in put_sock i ((socks s1 ! i)\<lparr>peer_idx := PEER_NONE\<rparr>) s1)"

definition unix_sock_close :: "int \<Rightarrow> 'a net_scheme \<Rightarrow> (int \<times> 'a net_scheme) res" where
  "unix_sock_close fd s =
     (if \<not> unix_is_sockfd fd s then Inr (- EBADF, s)
      else let i = nat (idx_from_fd fd);
               s1 = unpeer i s;
               u = socks s1 ! i
           in case (if (u_state u = SK_BOUND \<or> u_state u = SK_LISTENING) \<and> u_path u \<noteq> []
                    then vfs_unlink (u_path u) s1 else Inr (0, s1)) of
                Inl e \<Rightarrow> Inl e
              | Inr (_, s2) \<Rightarrow> Inr (0, put_sock i usock_zero (close_passed FDS_CAP i s2)))"

definition unix_sock_fcntl :: "int \<Rightarrow> int \<Rightarrow> int \<Rightarrow> 'a net_scheme \<Rightarrow> int \<times> 'a net_scheme" where
  "unix_sock_fcntl fd cmd arg s =
     (if \<not> unix_is_sockfd fd s then (- EBADF, s)
      else let i = nat (idx_from_fd fd)
           in if cmd = 3 then (u_flags (socks s ! i), s)
              else if cmd = 4 then (0, put_sock i ((socks s ! i)\<lparr>u_flags := c_int (word_of_int arg)\<rparr>) s)
              else (- EINVAL, s))"

definition unix_eventfd :: "u32 \<Rightarrow> int \<Rightarrow> 'a net_scheme \<Rightarrow> int \<times> 'a net_scheme" where
  "unix_eventfd initval flags s =
     (case alloc_slot s of
        None \<Rightarrow> (- ENOMEM, s)
      | Some (i, s1) \<Rightarrow>
          let u = (socks s1 ! i)\<lparr>u_state := SK_CONNECTED, peer_idx := int i, u_flags := flags\<rparr>;
              u1 = (if initval > 0 then snd (push_rx (le64 (ucast initval)) u) else u)
          in (UNIX_SOCK_FD_BASE + int i, put_sock i u1 s1))"

definition unix_sock_poll :: "int \<Rightarrow> int \<Rightarrow> 'a net_scheme \<Rightarrow> int res" where
  "unix_sock_poll fd events s =
     (if \<not> unix_is_sockfd fd s then Inr 0
      else let u = socks s ! nat (idx_from_fd fd);
               p = peer_idx u;
               pin = (if bit events 0 \<and> (rtl u \<noteq> rhd u \<or> p = PEER_NONE) then 1 else 0);
               hup = (if p = PEER_NONE \<and> u_state u = SK_CONNECTED then 16 else 0)
           in if bit events 2 \<and> p \<noteq> PEER_NONE then
                if p < 0 \<or> p \<ge> int (length (socks s)) then Inl OutOfBounds
                else let q = socks s ! nat p;
                         free_space = (rtl q + RX_CAP - 1 - rhd q) mod RX_CAP
                     in Inr (pin + (if free_space > 0 then 4 else 0) + hup)
              else Inr (pin + hup))"

section \<open>Messages\<close>

text \<open>The data part of \<open>unix_sock_sendmsg\<close>; a segment is \<open>None\<close> when its base is NULL and its length is not 0.\<close>

fun send_iov :: "nat \<Rightarrow> u8 list option list \<Rightarrow> int \<Rightarrow> 'a net_scheme \<Rightarrow> ((int + int) \<times> 'a net_scheme) res" where
  "send_iov i [] tot s = Inr (Inr tot, s)"
| "send_iov i (None # iov) tot s = Inr (Inl (- EFAULT), s)"
| "send_iov i (Some [] # iov) tot s = send_iov i iov tot s"
| "send_iov i (Some (b # bs) # iov) tot s =
     (case peer_push i (b # bs) s of
        Inl e \<Rightarrow> Inl e
      | Inr (False, s1) \<Rightarrow> Inr (Inl (- ENOMEM), s1)
      | Inr (True, s1) \<Rightarrow> send_iov i iov (tot + push_result True (b # bs)) s1)"

definition bytes_at :: "u8 list \<Rightarrow> nat \<Rightarrow> nat \<Rightarrow> nat" where
  "bytes_at bs a n = (\<Sum>k < n. unat (bs ! (a + k)) * 256 ^ k)"

definition int_at :: "u8 list \<Rightarrow> nat \<Rightarrow> int" where
  "int_at bs a = sint (of_nat (bytes_at bs a 4) :: u32)"

definition pass_fd :: "nat \<Rightarrow> int \<Rightarrow> 'a net_scheme \<Rightarrow> int option \<times> 'a net_scheme" where
  "pass_fd p send_fd s =
     (case (if unix_is_sockfd send_fd s then (send_fd, s) else vfs_dup send_fd s) of (recv_fd, s1) \<Rightarrow>
        if \<not> unix_is_sockfd send_fd s \<and> recv_fd < 0 then (Some recv_fd, s1)
        else let u = socks s1 ! p; nxt = (fds_rhd u + 1) mod FDS_CAP
             in if nxt = fds_rtl u
                then (Some (- ENOMEM), if \<not> unix_is_sockfd recv_fd s1 then snd (vfs_close recv_fd s1) else s1)
                else (None, put_sock p (u\<lparr>fds_rx := (fds_rx u)[fds_rhd u := recv_fd], fds_rhd := nxt\<rparr>) s1))"

text \<open>
  The loop over the descriptors of one control message, \<open>n\<close> of them from position \<open>a\<close> on. A message that claims
  more than the buffer holds is read outside it.
\<close>

fun pass_fds :: "nat \<Rightarrow> u8 list \<Rightarrow> nat \<Rightarrow> nat \<Rightarrow> 'a net_scheme \<Rightarrow> (int option \<times> 'a net_scheme) res" where
  "pass_fds p ctl 0 a s = Inr (None, s)"
| "pass_fds p ctl (Suc n) a s =
     (if a + 4 > length ctl then Inl OutOfBounds
      else case pass_fd p (int_at ctl a) s of
             (Some e, s1) \<Rightarrow> Inr (Some e, s1)
           | (None, s1) \<Rightarrow> pass_fds p ctl n (a + 4) s1)"

text \<open>
  The loop over the control messages. The sum \<^verbatim>\<open>offset + cmsg_len\<close> wraps, so \<open>offset\<close> can go back and the loop can
  run forever: with more turns than there are offsets for each of the at most 16 descriptors it can pass, it has.
\<close>

fun send_control :: "nat \<Rightarrow> nat \<Rightarrow> u8 list \<Rightarrow> u64 \<Rightarrow> 'a net_scheme \<Rightarrow> (int option \<times> 'a net_scheme) res" where
  "send_control 0 p ctl off s = Inl Diverges"
| "send_control (Suc fuel) p ctl off s =
     (let clen = of_nat (length ctl) :: u64
      in if off + 16 \<le> clen then
           let o' = unat off;
               cmsg_len = of_nat (bytes_at ctl o' 8) :: u64;
               next_off = off + ALIGN_UP cmsg_len 8
           in if cmsg_len < 16 \<or> off + cmsg_len > clen then Inr (None, s)
              else if int_at ctl (o' + 8) = 1 \<and> int_at ctl (o' + 12) = 1 then
                case pass_fds p ctl (unat ((cmsg_len - 16) div 4)) (o' + 16) s of
                  Inl e \<Rightarrow> Inl e
                | Inr (Some r, s1) \<Rightarrow> Inr (Some r, s1)
                | Inr (None, s1) \<Rightarrow> send_control fuel p ctl next_off s1
              else send_control fuel p ctl next_off s
         else Inr (None, s))"

definition unix_sock_sendmsg :: "int \<Rightarrow> u8 list option list \<Rightarrow> u8 list option \<Rightarrow> 'a net_scheme \<Rightarrow> (int \<times> 'a net_scheme) res" where
  "unix_sock_sendmsg fd iov control s =
     (if \<not> unix_is_sockfd fd s then Inr (- EBADF, s)
      else let i = nat (idx_from_fd fd); u = socks s ! i; p = nat (peer_idx u)
           in if u_state u \<noteq> SK_CONNECTED \<or> peer_idx u = PEER_NONE then Inr (- ENOTCONN, s)
              else case send_iov i iov 0 s of
                     Inl e \<Rightarrow> Inl e
                   | Inr (Inl r, s1) \<Rightarrow> Inr (r, s1)
                   | Inr (Inr tot, s1) \<Rightarrow>
                       (case control of
                          None \<Rightarrow> Inr (tot, s1)
                        | Some ctl \<Rightarrow>
                            if length ctl < 16 then Inr (tot, s1)
                            else case send_control (16 * (length ctl + 1)) p ctl 0 s1 of
                                   Inl e \<Rightarrow> Inl e
                                 | Inr (Some r, s2) \<Rightarrow> Inr (r, s2)
                                 | Inr (None, s2) \<Rightarrow> Inr (tot, s2)))"

text \<open>The segments to receive into: \<open>None\<close> is a NULL base with a length that is not 0.\<close>

fun recv_iov :: "nat \<Rightarrow> u64 option list \<Rightarrow> int \<Rightarrow> u8 list list \<Rightarrow> 'a net_scheme waits \<Rightarrow> 'a net_scheme \<Rightarrow>
    ((int + int) \<times> u8 list list \<times> 'a net_scheme) res" where
  "recv_iov i [] tot acc ws s = Inr (Inr tot, acc, s)"
| "recv_iov i (None # iov) tot acc ws s = Inr (Inl (- EFAULT), acc, s)"
| "recv_iov i (Some len # iov) tot acc ws s =
     (if len = 0 then recv_iov i iov tot acc ws s
      else case pop_rx i len ws s of
             Inl e \<Rightarrow> Inl e
           | Inr (r, bs, ws1, s1) \<Rightarrow>
               if r < 0 then Inr (Inl r, acc, s1)
               else if rtl (socks s1 ! i) = rhd (socks s1 ! i) then Inr (Inr (tot + r), acc @ [bs], s1)
               else recv_iov i iov (tot + r) (acc @ [bs]) ws1 s1)"

fun pop_fds :: "nat \<Rightarrow> USock \<Rightarrow> int list \<times> USock" where
  "pop_fds 0 u = ([], u)"
| "pop_fds (Suc n) u =
     (if fds_rtl u = fds_rhd u then ([], u)
      else case pop_fds n (u\<lparr>fds_rtl := (fds_rtl u + 1) mod FDS_CAP\<rparr>) of (fs, u') \<Rightarrow> (fds_rx u ! fds_rtl u # fs, u'))"

text \<open>The result, the bytes of each segment, and the descriptors received with the new length of the control buffer.\<close>

definition unix_sock_recvmsg ::
  "int \<Rightarrow> u64 option list \<Rightarrow> u64 option \<Rightarrow> 'a net_scheme waits \<Rightarrow> 'a net_scheme \<Rightarrow>
   (int \<times> u8 list list \<times> int list \<times> u64 \<times> 'a net_scheme) res" where
  "unix_sock_recvmsg fd iov controllen ws s =
     (let clen0 = (case controllen of None \<Rightarrow> 0 | Some n \<Rightarrow> n)
      in if \<not> unix_is_sockfd fd s then Inr (- EBADF, [], [], clen0, s)
         else let i = nat (idx_from_fd fd)
              in if u_state (socks s ! i) \<noteq> SK_CONNECTED then Inr (- ENOTCONN, [], [], clen0, s)
                 else case recv_iov i iov 0 [] ws s of
                        Inl e \<Rightarrow> Inl e
                      | Inr (Inl r, bss, s1) \<Rightarrow> Inr (r, bss, [], clen0, s1)
                      | Inr (Inr tot, bss, s1) \<Rightarrow>
                          if clen0 \<ge> 16 then
                            case pop_fds (unat ((clen0 - 16) div 4)) (socks s1 ! i) of (fs, u) \<Rightarrow>
                              Inr (tot, bss, fs, if fs \<noteq> [] then 16 + 4 * of_nat (length fs) else 0, put_sock i u s1)
                          else Inr (tot, bss, [], 0, s1))"

section \<open>The receive ring as a queue\<close>

definition rx_ok :: "USock \<Rightarrow> bool" where
  "rx_ok u \<longleftrightarrow> ring_ok RX_CAP (rx u) (rhd u) (rtl u)"

definition rx_pending :: "USock \<Rightarrow> u8 list" where
  "rx_pending u = ring_list RX_CAP (rx u) (rhd u) (rtl u)"

definition rx_push :: "u8 \<Rightarrow> USock \<Rightarrow> USock" where
  "rx_push b u = snd (push_rx [b] u)"

definition rx_pop :: "USock \<Rightarrow> (u8 \<times> USock) option" where
  "rx_pop u = (if rtl u = rhd u then None else Some (rx u ! rtl u, u\<lparr>rtl := (rtl u + 1) mod RX_CAP\<rparr>))"

interpretation uq: bounded_fifo rx_push rx_pop rx_pending rx_ok 8191
proof
  fix s :: USock and x :: u8 and xs :: "u8 list"
  assume ok: "rx_ok s"
  then have r: "ring_ok 8192 (rx s) (rhd s) (rtl s)" by (simp add: rx_ok_def)
  note room = ring_room [OF r]
  show "rx_pending (rx_push x s) = rx_pending s @ [x]" if "length (rx_pending s) < 8191"
    using that room ring_push [OF r] by (simp add: rx_push_def rx_pending_def Let_def Suc_mod_ring_next)
  show "rx_push x s = s" if "\<not> length (rx_pending s) < 8191"
    using that room by (simp add: rx_push_def rx_pending_def Let_def Suc_mod_ring_next)
  show "rx_pop s = None" if "rx_pending s = []"
    using that r by (simp add: rx_pop_def rx_pending_def ring_empty_iff ring_ok_def)
  show "\<exists>s'. rx_pop s = Some (x, s') \<and> rx_pending s' = xs \<and> rx_ok s'" if "rx_pending s = x # xs"
  proof -
    have "rtl s \<noteq> rhd s"
      using that r ring_empty_iff [of "rhd s" 8192 "rtl s" "rx s"] by (auto simp: rx_pending_def ring_ok_def)
    with that ring_pop [OF r] ring_ok_pop [OF r] show ?thesis
      by (auto simp: rx_pop_def rx_pending_def rx_ok_def Suc_mod_ring_next)
  qed
  show "rx_ok (rx_push x s)"
    using ok ring_ok_push [OF r] by (auto simp: rx_push_def rx_ok_def Let_def Suc_mod_ring_next)
  show "length (rx_pending s) \<le> 8191"
    using ring_len_less [of 8192 "rhd s" "rtl s"] by (simp add: rx_pending_def)
qed

lemma rx_room: "rx_ok u \<Longrightarrow> (rhd u + 1) mod RX_CAP \<noteq> rtl u \<longleftrightarrow> length (rx_pending u) < 8191"
  using ring_room [of 8192 "rx u" "rhd u" "rtl u"] by (simp add: rx_ok_def rx_pending_def Suc_mod_ring_next)

text \<open>\<open>push_rx\<close> stops at the first byte that does not fit; the bytes before it are in the ring.\<close>

lemma push_rx_spec:
  assumes "rx_ok u"
  shows "push_rx bs u = (length (rx_pending u) + length bs \<le> 8191, push_all rx_push bs u)"
  using assms
proof (induction bs arbitrary: u)
  case Nil
  then show ?case using uq.pending_room by simp
next
  case (Cons b bs)
  note ok = Cons.prems
  show ?case
  proof (cases "length (rx_pending u) < 8191")
    case True
    then have "push_rx (b # bs) u = push_rx bs (rx_push b u)"
      using rx_room [OF ok] by (simp add: rx_push_def Let_def)
    with Cons.IH [OF uq.push_invar [OF ok, of b]] uq.push_room [OF ok True, of b] show ?thesis by simp
  next
    case False
    have "push_all rx_push cs u = u" for cs
      by (induction cs) (simp_all add: uq.push_full [OF ok False])
    with False rx_room [OF ok] uq.push_full [OF ok False, of b] show ?thesis by (simp add: Let_def)
  qed
qed

lemma pop_bytes_eq: "pop_bytes n u = pop_upto rx_pop n u"
  by (induction n u rule: pop_bytes.induct) (simp_all add: rx_pop_def)

lemma rx_push_frame:
  "u_used (rx_push b u) = u_used u" "peer_idx (rx_push b u) = peer_idx u" "u_state (rx_push b u) = u_state u"
  "listen_q (rx_push b u) = listen_q u" "n_wait (rx_push b u) = n_wait u" "fds_rx (rx_push b u) = fds_rx u"
  "fds_rhd (rx_push b u) = fds_rhd u" "fds_rtl (rx_push b u) = fds_rtl u"
  by (simp_all add: rx_push_def Let_def)

lemma push_all_frame:
  "u_used (push_all rx_push bs u) = u_used u" "peer_idx (push_all rx_push bs u) = peer_idx u"
  "u_state (push_all rx_push bs u) = u_state u" "listen_q (push_all rx_push bs u) = listen_q u"
  "n_wait (push_all rx_push bs u) = n_wait u" "fds_rx (push_all rx_push bs u) = fds_rx u"
  "fds_rhd (push_all rx_push bs u) = fds_rhd u" "fds_rtl (push_all rx_push bs u) = fds_rtl u"
  by (induction bs arbitrary: u) (simp_all add: rx_push_frame)

lemma pop_bytes_frame:
  "pop_bytes n u = (bs, u') \<Longrightarrow>
   u_used u' = u_used u \<and> peer_idx u' = peer_idx u \<and> u_state u' = u_state u \<and> listen_q u' = listen_q u \<and> n_wait u' = n_wait u \<and>
   fds_rx u' = fds_rx u \<and> fds_rhd u' = fds_rhd u \<and> fds_rtl u' = fds_rtl u"
  by (induction n u arbitrary: bs rule: pop_bytes.induct) (auto split: if_splits prod.splits)

section \<open>The table invariant\<close>

definition sock_ok :: "USock \<Rightarrow> bool" where
  "sock_ok u \<longleftrightarrow>
     rx_ok u \<and> ring_ok FDS_CAP (fds_rx u) (fds_rhd u) (fds_rtl u) \<and> length (listen_q u) = ACCEPT_Q \<and> n_wait u \<le> ACCEPT_Q"

text \<open>A socket with a peer is the peer of its peer, and only connected sockets have one.\<close>

definition peer_ok :: "USock list \<Rightarrow> nat \<Rightarrow> bool" where
  "peer_ok us i \<longleftrightarrow>
     peer_idx (us ! i) = PEER_NONE \<or>
     u_state (us ! i) = SK_CONNECTED \<and>
     (\<exists>j < length us. peer_idx (us ! i) = int j \<and> u_used (us ! j) \<and> peer_idx (us ! j) = int i)"

definition net_ok :: "'a net_scheme \<Rightarrow> bool" where
  "net_ok s \<longleftrightarrow>
     length (socks s) = UNIX_SOCK_MAX \<and>
     (\<forall>i < UNIX_SOCK_MAX. sock_ok (socks s ! i) \<and> (u_used (socks s ! i) \<longrightarrow> peer_ok (socks s) i))"

lemma net_okD:
  assumes "net_ok s"
  shows "length (socks s) = 24" "i < 24 \<Longrightarrow> sock_ok (socks s ! i)" "i < 24 \<Longrightarrow> u_used (socks s ! i) \<Longrightarrow> peer_ok (socks s) i"
  using assms by (simp_all add: net_ok_def)

lemma net_ok_cong: "socks s' = socks s \<Longrightarrow> net_ok s' \<longleftrightarrow> net_ok s"
  by (simp add: net_ok_def)

lemma usock_zero_ok: "sock_ok usock_zero" "\<not> u_used usock_zero"
  by (simp_all add: usock_zero_def sock_ok_def rx_ok_def ring_ok_def)

text \<open>Changing a socket without touching its connection.\<close>

lemma net_ok_put:
  assumes ok: "net_ok s" and i: "i < 24" and u: "sock_ok u" "u_used u = u_used (socks s ! i)" "peer_idx u = peer_idx (socks s ! i)"
    and st: "u_used u \<Longrightarrow> peer_idx u \<noteq> PEER_NONE \<Longrightarrow> u_state u = u_state (socks s ! i)"
  shows "net_ok (put_sock i u s)"
proof -
  have len: "length (socks s) = 24" by (rule net_okD(1) [OF ok])
  have key: "u_used ((socks s)[i := u] ! j) = u_used (socks s ! j)" "peer_idx ((socks s)[i := u] ! j) = peer_idx (socks s ! j)" for j
    using u i len by (cases "j = i"; simp)+
  have "peer_ok ((socks s)[i := u]) j" if "j < 24" "u_used (socks s ! j)" for j
    using net_okD(3) [OF ok that] st that u len i unfolding peer_ok_def key by (cases "j = i") auto
  moreover have "sock_ok ((socks s)[i := u] ! j)" if "j < 24" for j
    using net_okD(2) [OF ok that] u(1) i len by (cases "j = i") auto
  ultimately show ?thesis by (simp add: net_ok_def put_sock_def len key)
qed

text \<open>Taking and giving back a slot without connection.\<close>

lemma net_ok_slot:
  assumes ok: "net_ok s" and i: "i < 24" and u: "sock_ok u" "u_used u \<Longrightarrow> peer_idx u = PEER_NONE"
    and free: "u_used (socks s ! i) \<Longrightarrow> peer_idx (socks s ! i) = PEER_NONE"
  shows "net_ok (put_sock i u s)"
proof -
  have len: "length (socks s) = 24" by (rule net_okD(1) [OF ok])
  have nobody: "peer_idx (socks s ! j) \<noteq> int i" if j: "j < 24" "u_used (socks s ! j)" "j \<noteq> i" for j
  proof
    assume "peer_idx (socks s ! j) = int i"
    with net_okD(3) [OF ok j(1,2)] have "u_used (socks s ! i)" "peer_idx (socks s ! i) = int j" by (auto simp: peer_ok_def)
    with free show False by simp
  qed
  have "peer_ok ((socks s)[i := u]) j" if j: "j < 24" "u_used ((socks s)[i := u] ! j)" for j
  proof (cases "j = i")
    case True
    with j u(2) i len show ?thesis by (simp add: peer_ok_def)
  next
    case False
    with j have uj: "u_used (socks s ! j)" by simp
    show ?thesis
    proof (cases "peer_idx (socks s ! j) = PEER_NONE")
      case True
      with False show ?thesis by (simp add: peer_ok_def)
    next
      case np: False
      with net_okD(3) [OF ok j(1) uj] obtain k where k: "k < 24" "peer_idx (socks s ! j) = int k" "u_used (socks s ! k)"
        "peer_idx (socks s ! k) = int j" "u_state (socks s ! j) = SK_CONNECTED" by (auto simp: peer_ok_def len)
      have "k \<noteq> i" using nobody [OF j(1) uj False] k(2) by auto
      with k False len show ?thesis unfolding peer_ok_def by (intro disjI2) auto
    qed
  qed
  moreover have "sock_ok ((socks s)[i := u] ! j)" if "j < 24" for j
    using net_okD(2) [OF ok that] u(1) i len by (cases "j = i") auto
  ultimately show ?thesis by (simp add: net_ok_def put_sock_def len)
qed

end
