(* ===== verification/Unsock_Inv.thy ===== *)
theory Unsock_Inv
  imports Unsock
begin

text \<open>
  The socket table over time: connections are symmetric in every state that the socket calls of any number of tasks
  can reach, also when blocked calls resume later, and a connection is a byte stream.
\<close>

section \<open>What the file system leaves alone\<close>

lemma vfs_put_more [simp]: "vfs.more (put_fd k f s) = vfs.more s" "vfs.more (put_node j n s) = vfs.more s"
  by (simp_all add: put_fd_def put_node_def)

lemma heap_more_vfs_more: "heap.more s' = heap.more s \<Longrightarrow> vfs.more s' = vfs.more (s :: 'a vfs_scheme)"
  by (cases s; cases s') simp

lemma shm_more_vfs_more: "shm.more s' = shm.more s \<Longrightarrow> vfs.more s' = vfs.more (s :: 'a vfs_scheme)"
  by (cases s; cases s') simp

lemma vfs_more_socks: "vfs.more s' = vfs.more s \<Longrightarrow> socks s' = socks (s :: 'a net_scheme)"
  by (cases s; cases s') simp

lemma node_alloc_more: "node_alloc s = Some (i, s') \<Longrightarrow> vfs.more s' = vfs.more s"
  by (auto simp: node_alloc_def put_node_def split: option.splits)

lemma make_node_more: "make_node ty mj mi parent leaf s = Some (ino, s') \<Longrightarrow> vfs.more s' = vfs.more s"
  by (auto simp: make_node_def Let_def dest!: node_alloc_more split: option.splits if_splits)

lemma vfs_mknod_chr_more: "vfs_mknod_chr path mj mi s = (r, s') \<Longrightarrow> vfs.more s' = vfs.more s"
  by (auto simp: vfs_mknod_chr_def Let_def dest!: make_node_more split: option.splits if_splits prod.splits)

lemma open_lookup_more: "open_lookup path flags s = (r, s') \<Longrightarrow> vfs.more s' = vfs.more s"
  by (auto simp: open_lookup_def dest!: vfs_mknod_chr_more shm_open_object_more shm_more_vfs_more split: if_splits prod.splits)

lemma open_create_more: "open_create path flags s = (r, s') \<Longrightarrow> vfs.more s' = vfs.more s"
  by (auto simp: open_create_def dest!: make_node_more split: option.splits if_splits prod.splits)

lemma open_finish_more: "open_finish fd inode flags s = Inr (r, s') \<Longrightarrow> vfs.more s' = vfs.more s"
  by (auto simp: open_finish_def Let_def dest!: kfree_more heap_more_vfs_more split: option.splits if_splits sum.splits)

lemma vfs_open_more: "vfs_open path flags s = Inr (r, s') \<Longrightarrow> vfs.more s' = vfs.more s"
  by (auto simp: vfs_open_def dest!: open_lookup_more open_create_more open_finish_more
      split: option.splits if_splits sum.splits prod.splits)

lemma vfs_unlink_more: "vfs_unlink path s = Inr (r, s') \<Longrightarrow> vfs.more s' = vfs.more s"
  by (auto simp: vfs_unlink_def Let_def dest!: kfree_more shm_destroy_more heap_more_vfs_more shm_more_vfs_more
      split: option.splits if_splits sum.splits)

lemma vfs_close_more: "vfs.more (snd (vfs_close fd s)) = vfs.more s"
  by (simp add: vfs_close_def)

lemma vfs_dup_more: "vfs.more (snd (vfs_dup fd s)) = vfs.more s"
  by (simp add: vfs_dup_def split: option.splits)

lemmas vfs_socks [simp] =
  vfs_close_more [THEN vfs_more_socks] vfs_dup_more [THEN vfs_more_socks]
lemmas vfs_runs_socks = vfs_open_more [THEN vfs_more_socks] vfs_unlink_more [THEN vfs_more_socks]

section \<open>Links between slots\<close>

lemma socks_put_sock [simp]: "socks (put_sock i u s) = (socks s)[i := u]"
  by (simp add: put_sock_def)

text \<open>Changing two slots at once, when no third socket was connected to either of them.\<close>

lemma net_ok_pair:
  assumes ok: "net_ok s" and ab: "a < 24" "b < 24"
    and closed: "\<And>x. x = a \<or> x = b \<Longrightarrow> u_used (socks s ! x) \<Longrightarrow> peer_idx (socks s ! x) \<in> {PEER_NONE, int a, int b}"
    and us: "us = (socks s)[a := A, b := B]"
    and new: "sock_ok A" "sock_ok B" "\<And>x. x = a \<or> x = b \<Longrightarrow> u_used (us ! x) \<Longrightarrow> peer_ok us x"
    and s': "socks s' = us"
  shows "net_ok s'"
proof -
  have len: "length (socks s) = 24" by (rule net_okD(1) [OF ok])
  have "peer_ok us j" if j: "j < 24" "u_used (us ! j)" for j
  proof (cases "j = a \<or> j = b")
    case True
    then show ?thesis using new(3) j(2) by blast
  next
    case False
    then have same: "us ! j = socks s ! j" by (simp add: us)
    show ?thesis
    proof (cases "peer_idx (socks s ! j) = PEER_NONE")
      case True
      then show ?thesis by (simp add: peer_ok_def same)
    next
      case np: False
      with net_okD(3) [OF ok j(1)] j(2) same obtain k where k: "k < 24" "peer_idx (socks s ! j) = int k"
        "u_used (socks s ! k)" "peer_idx (socks s ! k) = int j" "u_state (socks s ! j) = SK_CONNECTED"
        by (auto simp: peer_ok_def len)
      have "k \<noteq> a \<and> k \<noteq> b" using closed [of k] k(3,4) False by auto
      with k len same show ?thesis unfolding peer_ok_def by (intro disjI2) (auto simp: us)
    qed
  qed
  moreover have "sock_ok (us ! j)" if "j < 24" for j
    using net_okD(2) [OF ok that] new(1,2) ab len by (auto simp: us nth_list_update)
  ultimately show ?thesis using s' by (simp add: net_ok_def us len)
qed

text \<open>A used slot is disconnected or names its peer, and a socket that is not connected has no peer.\<close>

lemma net_ok_peer:
  assumes "net_ok s" "i < 24" "u_used (socks s ! i)" "peer_idx (socks s ! i) \<noteq> PEER_NONE"
  obtains j where "j < 24" "peer_idx (socks s ! i) = int j" "u_used (socks s ! j)" "peer_idx (socks s ! j) = int i"
    "u_state (socks s ! i) = SK_CONNECTED"
  using net_okD(3) [OF assms(1-3)] assms(4) that net_okD(1) [OF assms(1)] by (auto simp: peer_ok_def)

lemma net_ok_unconnected:
  "net_ok s \<Longrightarrow> i < 24 \<Longrightarrow> u_used (socks s ! i) \<Longrightarrow> u_state (socks s ! i) \<noteq> SK_CONNECTED \<Longrightarrow> peer_idx (socks s ! i) = PEER_NONE"
  using net_okD(3) by (fastforce simp: peer_ok_def)

lemma sockfdE:
  assumes "unix_is_sockfd fd s"
  obtains i where "i < 24" "nat (idx_from_fd fd) = i" "u_used (socks s ! i)" "fd = 128 + int i"
  using assms that [of "nat (idx_from_fd fd)"] by (auto simp: unix_is_sockfd_def idx_from_fd_def split: if_splits)

lemma sock_ok_cong:
  "rx u = rx v \<Longrightarrow> rhd u = rhd v \<Longrightarrow> rtl u = rtl v \<Longrightarrow> fds_rx u = fds_rx v \<Longrightarrow> fds_rhd u = fds_rhd v \<Longrightarrow> fds_rtl u = fds_rtl v \<Longrightarrow>
   listen_q u = listen_q v \<Longrightarrow> n_wait u = n_wait v \<Longrightarrow> sock_ok u = sock_ok v"
  by (simp add: sock_ok_def rx_ok_def)

lemma sock_ok_upd [simp]:
  "sock_ok (u\<lparr>u_used := b\<rparr>) = sock_ok u" "sock_ok (u\<lparr>u_state := st\<rparr>) = sock_ok u" "sock_ok (u\<lparr>peer_idx := p\<rparr>) = sock_ok u"
  "sock_ok (u\<lparr>u_path := path\<rparr>) = sock_ok u" "sock_ok (u\<lparr>u_flags := fl\<rparr>) = sock_ok u"
  by (rule sock_ok_cong; simp)+

section \<open>Each call keeps the table well formed\<close>

lemma alloc_slotE:
  assumes ok: "net_ok s" and a: "alloc_slot s = Some (i, s')"
  obtains "i < 24" "\<not> u_used (socks s ! i)" "net_ok s'"
    "socks s' = (socks s)[i := usock_zero\<lparr>u_used := True, u_state := SK_CREATED, peer_idx := PEER_NONE\<rparr>]"
proof -
  from a have f: "find_idx (\<lambda>u. \<not> u_used u) (socks s) = Some i"
    and s': "s' = put_sock i (usock_zero\<lparr>u_used := True, u_state := SK_CREATED, peer_idx := PEER_NONE\<rparr>) s"
    by (auto simp: alloc_slot_def split: option.splits)
  from find_idx_SomeD [OF f] have i: "i < 24" "\<not> u_used (socks s ! i)" using net_okD(1) [OF ok] by auto
  moreover have "net_ok s'"
    unfolding s' using i usock_zero_ok(1) by (intro net_ok_slot [OF ok i(1)]) auto
  ultimately show thesis using that s' by simp
qed

lemma alloc_slot_ok: "net_ok s \<Longrightarrow> alloc_slot s = Some (i, s') \<Longrightarrow> net_ok s'"
  by (rule alloc_slotE)

lemma unix_socket_ok: "net_ok s \<Longrightarrow> net_ok (snd (unix_socket domain ty s))"
  by (cases "alloc_slot s") (auto simp: unix_socket_def intro: alloc_slot_ok)

lemma pair_up:
  assumes ok: "net_ok s" and ab: "a < 24" "b < 24" "a \<noteq> b"
    and none: "peer_idx (socks s ! a) = PEER_NONE" "peer_idx (socks s ! b) = PEER_NONE"
    and used: "u_used A" "u_used B" "u_state A = SK_CONNECTED" "u_state B = SK_CONNECTED" "peer_idx A = int b" "peer_idx B = int a"
    and sok: "sock_ok A" "sock_ok B"
    and s': "socks s' = (socks s)[a := A, b := B]"
  shows "net_ok s'"
  by (rule net_ok_pair [OF ok ab(1,2) _ refl sok _ s'])
    (use none used ab net_okD(1) [OF ok] in \<open>auto simp: peer_ok_def nth_list_update\<close>)

lemma unix_socketpair_ok:
  assumes ok: "net_ok s"
  shows "net_ok (snd (snd (unix_socketpair domain ty s)))"
proof (cases "domain \<noteq> 1 \<or> ty \<noteq> 1")
  case False
  show ?thesis
  proof (cases "alloc_slot s")
    case None
    with False ok show ?thesis by (simp add: unix_socketpair_def)
  next
    case (Some r)
    then obtain a s1 where a: "alloc_slot s = Some (a, s1)" by (cases r) simp
    note A = alloc_slotE [OF ok a]
    let ?z = "usock_zero\<lparr>u_used := True, u_state := SK_CREATED, peer_idx := PEER_NONE\<rparr>"
    from A have a24: "a < 24" and ok1: "net_ok s1" and s1: "socks s1 = (socks s)[a := ?z]" by blast+
    have az: "socks s1 ! a = ?z" using a24 s1 net_okD(1) [OF ok] by simp
    show ?thesis
    proof (cases "alloc_slot s1")
      case None
      with False a ok1 a24 usock_zero_ok show ?thesis
        by (simp add: unix_socketpair_def net_ok_slot az)
    next
      case (Some r)
      then obtain b s2 where b: "alloc_slot s1 = Some (b, s2)" by (cases r) simp
      from alloc_slotE [OF ok1 b] have b24: "b < 24" "\<not> u_used (socks s1 ! b)" and ok2: "net_ok s2"
        and s2: "socks s2 = (socks s1)[b := ?z]" by blast+
      have ne: "a \<noteq> b" using b24(2) az by auto
      have z: "socks s2 ! a = ?z" "socks s2 ! b = ?z" using ne az s2 b24 net_okD(1) [OF ok1] by simp_all
      show ?thesis
        by (rule pair_up [OF ok2 a24 b24(1) ne, where A = "?z\<lparr>u_state := SK_CONNECTED, peer_idx := int b\<rparr>"
              and B = "?z\<lparr>u_state := SK_CONNECTED, peer_idx := int a\<rparr>"])
          (use False a b z ne usock_zero_ok in \<open>auto simp: unix_socketpair_def\<close>)
    qed
  qed
qed (use ok in \<open>auto simp: unix_socketpair_def\<close>)

text \<open>Sockets that keep their connection.\<close>

lemma net_ok_same:
  assumes "net_ok s" "i < 24" "sock_ok u" "u_used u = u_used (socks s ! i)" "peer_idx u = peer_idx (socks s ! i)"
    and "u_state u = u_state (socks s ! i) \<or> peer_idx u = PEER_NONE" and "socks s' = (socks s)[i := u]"
  shows "net_ok s'"
  using net_ok_put [OF assms(1-5)] assms(6,7) net_ok_cong [of s' "put_sock i u s"] by auto

lemma unix_bind_ok:
  assumes ok: "net_ok s" and run: "unix_bind fd addr s = Inr (r, s')"
  shows "net_ok s'"
proof (cases "unix_is_sockfd fd s")
  case True
  then obtain i where i: "i < 24" "nat (idx_from_fd fd) = i" "u_used (socks s ! i)" by (rule sockfdE)
  let ?u = "socks s ! i" and ?p = "addr_path addr"
  let ?s1 = "put_sock i (?u\<lparr>u_path := ?p\<rparr>) s"
  note len = net_okD(1) [OF ok] and uok = net_okD(2) [OF ok i(1)]
  have ok1: "net_ok ?s1" by (rule net_ok_same [OF ok i(1), where u = "?u\<lparr>u_path := ?p\<rparr>"]) (use uok in simp_all)
  have "s' = s \<or> s' = ?s1 \<or>
    u_state ?u = SK_CREATED \<and> (\<exists>tfd s2. vfs_open ?p 15 ?s1 = Inr (tfd, s2) \<and>
      (s' = s2 \<or> socks s' = (socks s2)[i := (socks s2 ! i)\<lparr>u_state := SK_BOUND\<rparr>]))"
    using run True i(2) by (force simp: unix_bind_def Let_def split: if_splits sum.splits)
  then consider "s' = s" | "s' = ?s1" | tfd s2 where "u_state ?u = SK_CREATED" "vfs_open ?p 15 ?s1 = Inr (tfd, s2)"
      "s' = s2 \<or> socks s' = (socks s2)[i := (socks s2 ! i)\<lparr>u_state := SK_BOUND\<rparr>]" by blast
  then show ?thesis
  proof cases
    case 3
    have k: "socks s2 = socks ?s1" by (rule vfs_runs_socks(1) [OF 3(2)])
    then have ok2: "net_ok s2" using ok1 net_ok_cong [of s2 ?s1] by simp
    have "peer_idx ?u = PEER_NONE" using net_ok_unconnected [OF ok i(1,3)] 3(1) by simp
    with 3(3) ok2 show ?thesis
      using net_ok_same [OF ok2 i(1), where u = "(socks s2 ! i)\<lparr>u_state := SK_BOUND\<rparr>" and s' = s'] uok k i(1) len by auto
  qed (use ok ok1 in simp_all)
qed (use assms in \<open>simp add: unix_bind_def\<close>)

lemma unix_listen_ok:
  assumes ok: "net_ok s"
  shows "net_ok (snd (unix_listen fd s))"
proof (cases "unix_is_sockfd fd s \<and> u_state (socks s ! nat (idx_from_fd fd)) = SK_BOUND")
  case True
  then obtain i where i: "i < 24" "nat (idx_from_fd fd) = i" "u_used (socks s ! i)" by (auto elim: sockfdE)
  show ?thesis
    by (rule net_ok_same [OF ok i(1), where u = "(socks s ! i)\<lparr>u_state := SK_LISTENING\<rparr>"])
      (use True i net_okD(2) [OF ok i(1)] net_ok_unconnected [OF ok i(1,3)] in \<open>auto simp: unix_listen_def\<close>)
qed (use ok in \<open>auto simp: unix_listen_def Let_def\<close>)

lemma accept_take_ok:
  assumes ok: "net_ok s" and i: "i < 24"
  shows "net_ok (snd (accept_take i s))"
  by (rule net_ok_same [OF ok i, where u = "(socks s ! i)\<lparr>listen_q := queue_shift (listen_q (socks s ! i)) (n_wait (socks s ! i)),
        n_wait := n_wait (socks s ! i) - 1\<rparr>"])
    (use net_okD(2) [OF ok i] in \<open>auto simp: accept_take_def Let_def sock_ok_def rx_ok_def queue_shift_def\<close>)

lemma unix_fcntl_ok:
  assumes ok: "net_ok s"
  shows "net_ok (snd (unix_sock_fcntl fd cmd arg s))"
proof (cases "unix_is_sockfd fd s \<and> cmd = 4")
  case True
  then obtain i where i: "i < 24" "nat (idx_from_fd fd) = i" by (auto elim: sockfdE)
  show ?thesis
    by (rule net_ok_same [OF ok i(1), where u = "(socks s ! i)\<lparr>u_flags := c_int (word_of_int arg)\<rparr>"])
      (use True i net_okD(2) [OF ok i(1)] in \<open>auto simp: unix_sock_fcntl_def\<close>)
qed (use ok in \<open>auto simp: unix_sock_fcntl_def Let_def\<close>)

lemma unix_connect_ok:
  assumes ok: "net_ok s"
  shows "net_ok (snd (unix_connect fd addr s))"
proof -
  define ci where "ci = nat (idx_from_fd fd)"
  let ?z = "usock_zero\<lparr>u_used := True, u_state := SK_CREATED, peer_idx := PEER_NONE\<rparr>"
  consider "snd (unix_connect fd addr s) = s" | li si s1 where "unix_is_sockfd fd s" "u_state (socks s ! ci) = SK_CREATED"
      "\<not> addr_bad addr" "find_listener (addr_path addr) s = Some li" "alloc_slot s = Some (si, s1)"
  proof (cases "unix_is_sockfd fd s \<and> u_state (socks s ! ci) = SK_CREATED \<and> \<not> addr_bad addr \<and>
      find_listener (addr_path addr) s \<noteq> None \<and> alloc_slot s \<noteq> None")
    case True
    then show thesis using that(2) by fastforce
  next
    case False
    have "snd (unix_connect fd addr s) = s"
      using False unfolding unix_connect_def by (auto simp: ci_def Let_def split: option.split)
    then show thesis by (rule that(1))
  qed
  then show ?thesis
  proof cases
    case 2
    then have ci: "ci < 24" "u_used (socks s ! ci)" by (auto elim!: sockfdE simp: ci_def)
    from alloc_slotE [OF ok 2(5)] have si: "si < 24" "\<not> u_used (socks s ! si)" and ok1: "net_ok s1"
      and s1: "socks s1 = (socks s)[si := ?z]" by blast+
    note len = net_okD(1) [OF ok] and len1 = net_okD(1) [OF ok1]
    have li: "li < 24" "u_used (socks s ! li)" "u_state (socks s ! li) = SK_LISTENING"
      using find_idx_SomeD [of _ "socks s" li] 2(4) len by (auto simp: find_listener_def)
    have ne: "ci \<noteq> si" "li \<noteq> ci" "li \<noteq> si" using ci si li 2(2) by auto
    have k: "socks s1 ! si = ?z" "socks s1 ! ci = socks s ! ci" "socks s1 ! li = socks s ! li" using s1 si ne len by auto
    have cn: "peer_idx (socks s ! ci) = PEER_NONE" using net_ok_unconnected [OF ok ci] 2(2) by simp
    define S where "S = ?z\<lparr>u_state := SK_CONNECTED, peer_idx := int ci\<rparr>"
    define C where "C = (socks s ! ci)\<lparr>u_state := SK_CONNECTED, peer_idx := int si\<rparr>"
    define s2 where "s2 = put_sock si S (put_sock ci C s1)"
    have sok: "sock_ok S" "sock_ok C" using net_okD(2) [OF ok ci(1)] usock_zero_ok by (simp_all add: S_def C_def)
    have ok2: "net_ok s2"
      by (rule pair_up [OF ok1 ci(1) si(1) ne(1) _ _ _ _ _ _ _ _ sok(2,1)]) (use k cn ci in \<open>auto simp: s2_def S_def C_def\<close>)
    have l2: "socks s2 ! li = socks s ! li" using ne k by (simp add: s2_def)
    have r: "snd (unix_connect fd addr s) =
      (if n_wait (socks s ! li) \<ge> 8 then put_sock ci (C\<lparr>peer_idx := PEER_NONE, u_state := SK_CREATED\<rparr>) (put_sock si (S\<lparr>u_used := False\<rparr>) s2)
       else put_sock li ((socks s ! li)\<lparr>listen_q := (listen_q (socks s ! li))[n_wait (socks s ! li) := int si], n_wait := n_wait (socks s ! li) + 1\<rparr>) s2)"
      using 2 k l2 by (simp add: unix_connect_def ci_def [symmetric] Let_def S_def C_def s2_def)
    show ?thesis
    proof (cases "n_wait (socks s ! li) \<ge> 8")
      case True
      show ?thesis
        by (rule net_ok_pair [OF ok1 si(1) ci(1), where A = "S\<lparr>u_used := False\<rparr>" and B = "C\<lparr>peer_idx := PEER_NONE, u_state := SK_CREATED\<rparr>"])
          (use True r sok k cn ne ci si len1 in \<open>auto simp: s2_def peer_ok_def list_update_swap S_def\<close>)
    next
      case False
      show ?thesis
        by (rule net_ok_same [OF ok2 li(1), where u = "(socks s ! li)\<lparr>listen_q := (listen_q (socks s ! li))[n_wait (socks s ! li) := int si],
              n_wait := n_wait (socks s ! li) + 1\<rparr>"])
          (use False r l2 net_okD(2) [OF ok li(1)] in \<open>auto simp: sock_ok_def rx_ok_def\<close>)
    qed
  qed (use ok in simp)
qed

text \<open>The bytes that the calls move stay in the rings.\<close>

lemma push_all_sock_ok: "sock_ok u \<Longrightarrow> sock_ok (push_all rx_push bs u)"
  using uq.push_all_pending [of u bs] by (simp add: sock_ok_def push_all_frame)

lemma pop_bytes_sock_ok:
  assumes "sock_ok u" and p: "pop_bytes n u = (bs, u')"
  shows "sock_ok u'"
  using uq.pop_upto_pending [of u n] pop_bytes_frame [OF p] assms by (simp add: sock_ok_def pop_bytes_eq)

lemma peer_push_ok:
  assumes ok: "net_ok s" and i: "i < 24" and run: "peer_push i buf s = Inr (r, s')"
  shows "net_ok s'"
proof -
  define p where "p = nat (peer_idx (socks s ! i))"
  from run have p: "p < 24" "socks s' = (socks s)[p := snd (push_rx buf (socks s ! p))]"
    using net_okD(1) [OF ok] by (auto simp: peer_push_def p_def Let_def split: if_splits prod.splits)
  have pok: "sock_ok (socks s ! p)" by (rule net_okD(2) [OF ok p(1)])
  then have "rx_ok (socks s ! p)" by (simp add: sock_ok_def)
  note u = push_rx_spec [OF this, of buf]
  show ?thesis
    by (rule net_ok_same [OF ok p(1) _ _ _ _ p(2)]) (use pok in \<open>simp_all add: u push_all_sock_ok push_all_frame\<close>)
qed

lemma pop_rx_ok:
  assumes ok: "net_ok s" and i: "i < 24" and run: "pop_rx i len [] s = Inr (r, bs, ws, s')"
  shows "net_ok s'"
proof (cases "s' = s")
  case False
  obtain cs u where p: "pop_bytes (unat len) (socks s ! i) = (cs, u)" by fastforce
  with False run have s': "s' = put_sock i u s" by (auto simp: pop_rx_def Let_def split: if_splits)
  have uok: "sock_ok u" by (rule pop_bytes_sock_ok [OF net_okD(2) [OF ok i] p])
  show ?thesis
    by (rule net_ok_same [OF ok i uok]) (use s' pop_bytes_frame [OF p] in auto)
qed (use ok in simp)

lemma unpeer_ok:
  assumes ok: "net_ok s" and i: "i < 24" "u_used (socks s ! i)"
  shows "net_ok (unpeer i s) \<and> u_used (socks (unpeer i s) ! i) \<and> peer_idx (socks (unpeer i s) ! i) = PEER_NONE"
proof (cases "peer_idx (socks s ! i) = PEER_NONE")
  case True
  then have "socks (unpeer i s) = (socks s)[i := (socks s ! i)\<lparr>peer_idx := PEER_NONE\<rparr>]" by (simp add: unpeer_def)
  moreover from this have "net_ok (unpeer i s)"
    by (rule net_ok_same [OF ok i(1), rotated 4]) (use True net_okD(2) [OF ok i(1)] in simp_all)
  ultimately show ?thesis using i net_okD(1) [OF ok] by simp
next
  case False
  with ok i obtain j where j: "j < 24" "peer_idx (socks s ! i) = int j" "u_used (socks s ! j)" "peer_idx (socks s ! j) = int i"
    by (rule net_ok_peer)
  note len = net_okD(1) [OF ok]
  define J where "J = (socks s ! j)\<lparr>peer_idx := PEER_NONE\<rparr>"
  define I where "I = (socks s ! i)\<lparr>peer_idx := PEER_NONE\<rparr>"
  have u: "socks (unpeer i s) = (socks s)[j := J, i := I]"
    using j i len by (cases "i = j") (simp_all add: unpeer_def Let_def I_def J_def)
  have "sock_ok J" "sock_ok I" using net_okD(2) [OF ok] i j by (simp_all add: I_def J_def)
  then have "net_ok (unpeer i s)"
    by (intro net_ok_pair [OF ok j(1) i(1) _ refl _ _ _ u])
      (use i j len in \<open>auto simp: peer_ok_def I_def J_def nth_list_update\<close>)
  with u i len show ?thesis by (simp add: I_def)
qed

text \<open>A slot that is not connected, and what the file system does with passed descriptors.\<close>

lemma close_passed_ok:
  assumes "net_ok s" "i < 24" "u_used (socks s ! i)" "peer_idx (socks s ! i) = PEER_NONE"
  shows "net_ok (close_passed n i s) \<and> u_used (socks (close_passed n i s) ! i) \<and> peer_idx (socks (close_passed n i s) ! i) = PEER_NONE"
  using assms
proof (induction n i s rule: close_passed.induct)
  case (2 n i s)
  let ?u = "socks s ! i"
  show ?case
  proof (cases "fds_rtl ?u = fds_rhd ?u")
    case False
    define s1 where "s1 = (if fds_rx ?u ! fds_rtl ?u \<ge> 0 \<and> \<not> unix_is_sockfd (fds_rx ?u ! fds_rtl ?u) s
      then snd (vfs_close (fds_rx ?u ! fds_rtl ?u) s) else s)"
    let ?v = "?u\<lparr>fds_rtl := (fds_rtl ?u + 1) mod 16\<rparr>"
    have k: "socks s1 = socks s" by (simp add: s1_def)
    then have ok1: "net_ok s1" using "2.prems"(1) net_ok_cong by blast
    have "sock_ok ?v"
      using net_okD(2) [OF "2.prems"(1,2)] False ring_ok_pop [of 16 "fds_rx ?u" "fds_rhd ?u" "fds_rtl ?u"]
      by (simp add: sock_ok_def rx_ok_def Suc_mod_ring_next)
    then have "net_ok (put_sock i ?v s1)"
      using "2.prems" by (intro net_ok_same [OF ok1 "2.prems"(2), where u = ?v]) (simp_all add: k)
    with "2.IH" [OF refl False refl s1_def] "2.prems" net_okD(1) [OF "2.prems"(1)] show ?thesis
      by (simp add: Let_def False s1_def [symmetric] k)
  qed (use "2.prems" in \<open>simp add: Let_def\<close>)
qed simp

lemma unix_sock_close_ok:
  assumes ok: "net_ok s" and run: "unix_sock_close fd s = Inr (r, s')"
  shows "net_ok s'"
proof (cases "unix_is_sockfd fd s")
  case True
  then obtain i where i: "i < 24" "nat (idx_from_fd fd) = i" "u_used (socks s ! i)" by (rule sockfdE)
  let ?s1 = "unpeer i s"
  note ok1 = unpeer_ok [OF ok i(1,3)]
  from run True i(2) obtain s2 where "s2 = ?s1 \<or> (\<exists>q. vfs_unlink (u_path (socks ?s1 ! i)) ?s1 = Inr (q, s2))"
    and s': "s' = put_sock i usock_zero (close_passed 16 i s2)"
    by (auto simp: unix_sock_close_def Let_def split: if_splits sum.splits)
  then have k: "socks s2 = socks ?s1" using vfs_runs_socks(2) by blast
  with ok1 have "net_ok s2" using net_ok_cong by blast
  from close_passed_ok [OF this i(1), of 16] ok1 k show ?thesis
    unfolding s' by (intro net_ok_slot) (use i usock_zero_ok in auto)
qed (use assms in \<open>simp add: unix_sock_close_def\<close>)

lemma unix_eventfd_ok:
  assumes ok: "net_ok s"
  shows "net_ok (snd (unix_eventfd initval flags s))"
proof (cases "alloc_slot s")
  case None
  with ok show ?thesis by (simp add: unix_eventfd_def)
next
  case (Some q)
  then obtain i s1 where a: "alloc_slot s = Some (i, s1)" by (cases q) simp
  let ?z = "usock_zero\<lparr>u_used := True, u_state := SK_CREATED, peer_idx := PEER_NONE\<rparr>"
  from alloc_slotE [OF ok a] have i: "i < 24" and ok1: "net_ok s1" and s1: "socks s1 = (socks s)[i := ?z]" by blast+
  have z: "socks s1 ! i = ?z" using i s1 net_okD(1) [OF ok] by simp
  define u where "u = ?z\<lparr>u_state := SK_CONNECTED, peer_idx := int i, u_flags := flags\<rparr>"
  define v where "v = (if initval > 0 then snd (push_rx (le64 (ucast initval)) u) else u)"
  have uok: "sock_ok u" using usock_zero_ok by (simp add: u_def)
  then have "rx_ok u" by (simp add: sock_ok_def)
  with uok have v: "sock_ok v" "u_used v" "u_state v = SK_CONNECTED" "peer_idx v = int i"
    by (simp_all add: v_def push_rx_spec push_all_sock_ok push_all_frame) (simp_all add: u_def)
  show ?thesis
    by (rule net_ok_pair [OF ok1 i i _ refl v(1) v(1)])
      (use a z i v(2-4) net_okD(1) [OF ok1] in \<open>auto simp: unix_eventfd_def Let_def u_def v_def peer_ok_def\<close>)
qed

section \<open>Messages\<close>

lemma send_iov_ok:
  assumes "net_ok s" "i < 24" "send_iov i iov tot s = Inr (r, s')"
  shows "net_ok s'"
  using assms
proof (induction i iov tot s rule: send_iov.induct)
  case (4 i b bs iov tot s)
  from "4.prems"(3) obtain ok s1 where p: "peer_push i (b # bs) s = Inr (ok, s1)" by (auto split: sum.splits)
  note ok1 = peer_push_ok [OF "4.prems"(1,2) p]
  with "4.prems" "4.IH" [OF p _ _ ok1] p show ?case by (cases ok) auto
qed auto

lemma pass_fd_ok:
  assumes ok: "net_ok s" and p: "p < 24"
  shows "net_ok (snd (pass_fd p send_fd s))"
proof -
  obtain recv_fd s1 where d: "(if unix_is_sockfd send_fd s then (send_fd, s) else vfs_dup send_fd s) = (recv_fd, s1)" by fastforce
  have k: "socks s1 = socks s"
  proof -
    have "s1 = (if unix_is_sockfd send_fd s then s else snd (vfs_dup send_fd s))" using d by (auto split: if_splits)
    then show ?thesis by simp
  qed
  with ok have ok1: "net_ok s1" using net_ok_cong by blast
  let ?u = "socks s ! p"
  let ?v = "?u\<lparr>fds_rx := (fds_rx ?u)[fds_rhd ?u := recv_fd], fds_rhd := (fds_rhd ?u + 1) mod 16\<rparr>"
  have "sock_ok ?v"
    using net_okD(2) [OF ok p] ring_ok_push [of 16 "fds_rx ?u" "fds_rhd ?u" "fds_rtl ?u"]
    by (simp add: sock_ok_def rx_ok_def Suc_mod_ring_next)
  then have ok2: "net_ok (put_sock p ?v s1)"
    by (intro net_ok_same [OF ok1 p, where u = ?v]) (simp_all add: k)
  have "net_ok (snd (vfs_close recv_fd s1))" using ok1 net_ok_cong [of "snd (vfs_close recv_fd s1)" s1] by simp
  with ok1 ok2 d k show ?thesis unfolding pass_fd_def by (simp add: Let_def)
qed

lemma pass_fds_ok:
  assumes "net_ok s" "p < 24" "pass_fds p ctl n a s = Inr (r, s')"
  shows "net_ok s'"
  using assms
proof (induction p ctl n a s rule: pass_fds.induct)
  case (2 p ctl n a s)
  obtain e s1 where f: "pass_fd p (int_at ctl a) s = (e, s1)" by fastforce
  have "net_ok s1" using pass_fd_ok [OF "2.prems"(1,2), of "int_at ctl a"] f by simp
  with "2.prems" "2.IH" [OF _ f [symmetric]] f show ?case by (auto split: if_splits option.splits)
qed simp

lemma send_control_ok:
  assumes "net_ok s" "p < 24" "send_control fuel p ctl off s = Inr (r, s')"
  shows "net_ok s'"
  using assms
proof (induction fuel p ctl off s arbitrary: r rule: send_control.induct)
  case (2 fuel p ctl off s)
  then show ?case by (force simp: Let_def dest: pass_fds_ok split: if_splits sum.splits option.splits)
qed simp

lemma unix_sock_sendmsg_ok:
  assumes ok: "net_ok s" and run: "unix_sock_sendmsg fd iov control s = Inr (r, s')"
  shows "net_ok s'"
proof (cases "unix_is_sockfd fd s \<and> peer_idx (socks s ! nat (idx_from_fd fd)) \<noteq> PEER_NONE")
  case True
  then obtain i where i: "i < 24" "nat (idx_from_fd fd) = i" "u_used (socks s ! i)" by (auto elim: sockfdE)
  with True ok obtain j where j: "j < 24" "peer_idx (socks s ! i) = int j" by (auto elim: net_ok_peer)
  show ?thesis
  proof (cases "send_iov i iov 0 s")
    case (Inr q)
    then obtain x s1 where x: "send_iov i iov 0 s = Inr (x, s1)" by (cases q) simp
    note ok1 = send_iov_ok [OF ok i(1) x]
    from run True i(2) j(2) ok ok1 x show ?thesis
      unfolding unix_sock_sendmsg_def Let_def i(2)
      by (auto dest!: send_control_ok [OF ok1 j(1)] split: if_splits sum.splits option.splits)
  qed (use run True i ok in \<open>auto simp: unix_sock_sendmsg_def Let_def split: if_splits\<close>)
qed (use assms in \<open>auto simp: unix_sock_sendmsg_def Let_def split: if_splits\<close>)

lemma recv_iov_ok:
  assumes "net_ok s" "i < 24" "recv_iov i iov tot acc [] s = Inr (r, acc', s')"
  shows "net_ok s'"
  using assms
proof (induction iov arbitrary: tot acc s)
  case (Cons seg iov)
  show ?case
  proof (cases seg)
    case (Some len)
    show ?thesis
    proof (cases "len = 0")
      case False
      with Cons.prems(3) Some obtain q bs ws s1 where p: "pop_rx i len [] s = Inr (q, bs, ws, s1)" by (auto split: sum.splits)
      have ws: "ws = []" using p by (auto simp: pop_rx_def Let_def split: if_splits prod.splits)
      note ok1 = pop_rx_ok [OF Cons.prems(1,2) p]
      with Cons.prems p ws Cons.IH [OF ok1 Cons.prems(2)] Some False show ?thesis by (auto split: if_splits)
    qed (use Some Cons in simp)
  qed (use Cons in auto)
qed auto

lemma pop_fds_sock_ok:
  assumes "sock_ok u"
  shows "sock_ok (snd (pop_fds n u)) \<and> u_used (snd (pop_fds n u)) = u_used u \<and> peer_idx (snd (pop_fds n u)) = peer_idx u \<and>
    u_state (snd (pop_fds n u)) = u_state u"
  using assms
proof (induction n u rule: pop_fds.induct)
  case (2 n u)
  have "sock_ok (u\<lparr>fds_rtl := (fds_rtl u + 1) mod 16\<rparr>)"
    using "2.prems" ring_ok_pop [of 16 "fds_rx u" "fds_rhd u" "fds_rtl u"] by (simp add: sock_ok_def rx_ok_def Suc_mod_ring_next)
  with 2 show ?case by (auto split: prod.splits)
qed simp

lemma take_fds_ok:
  assumes ok: "net_ok s" and i: "i < 24"
  shows "net_ok (put_sock i (snd (pop_fds n (socks s ! i))) s)"
  using pop_fds_sock_ok [OF net_okD(2) [OF ok i], of n] by (intro net_ok_put [OF ok i]) simp_all

section \<open>Reachable tables\<close>

text \<open>
  One call of a task, run to its end. A call that blocks returns to the scheduler and later goes on without looking at
  the descriptor again, whatever slot its number names by then: \<open>Resume_accept\<close>, \<open>Resume_read\<close> and \<open>Resume_recv\<close>.
\<close>

inductive net_step :: "'a net_scheme \<Rightarrow> 'a net_scheme \<Rightarrow> bool" where
  Socket: "net_step s (snd (unix_socket domain ty s))"
| Socketpair: "net_step s (snd (snd (unix_socketpair domain ty s)))"
| Bind: "unix_bind fd addr s = Inr (r, s') \<Longrightarrow> net_step s s'"
| Listen: "net_step s (snd (unix_listen fd s))"
| Connect: "net_step s (snd (unix_connect fd addr s))"
| Resume_accept: "i < 24 \<Longrightarrow> n_wait (socks s ! i) > 0 \<Longrightarrow> net_step s (snd (accept_take i s))"
| Resume_read: "i < 24 \<Longrightarrow> pop_rx i len [] s = Inr (r, bs, ws, s') \<Longrightarrow> net_step s s'"
| Send: "unix_sock_write fd buf s = Inr (r, s') \<Longrightarrow> net_step s s'"
| Close: "unix_sock_close fd s = Inr (r, s') \<Longrightarrow> net_step s s'"
| Fcntl: "net_step s (snd (unix_sock_fcntl fd cmd arg s))"
| Eventfd: "net_step s (snd (unix_eventfd initval flags s))"
| Sendmsg: "unix_sock_sendmsg fd iov control s = Inr (r, s') \<Longrightarrow> net_step s s'"
| Resume_recv: "i < 24 \<Longrightarrow> recv_iov i riov tot acc [] s = Inr (q, acc', s') \<Longrightarrow> net_step s s'"
| Take_fds: "i < 24 \<Longrightarrow> net_step s (put_sock i (snd (pop_fds n (socks s ! i))) s)"
| Sleep: "net_step s (snd (task_sleep (boot_top s) t rsp s))"
| Open_file: "vfs_open path flags s = Inr (r, s') \<Longrightarrow> net_step s s'"
| Close_file: "net_step s (snd (vfs_close fd s))"

inductive net_run :: "'a net_scheme \<Rightarrow> 'a net_scheme \<Rightarrow> bool" where
  net_start: "net_run s s"
| net_more: "net_run s s' \<Longrightarrow> net_step s' s'' \<Longrightarrow> net_run s s''"

lemma unix_sock_write_ok:
  assumes ok: "net_ok s" and run: "unix_sock_write fd buf s = Inr (r, s')"
  shows "net_ok s'"
proof (cases "unix_is_sockfd fd s")
  case True
  then obtain i where "i < 24" "nat (idx_from_fd fd) = i" by (rule sockfdE)
  with run True ok show ?thesis
    by (auto simp: unix_sock_write_def Let_def dest: peer_push_ok [OF ok] split: if_splits sum.splits)
qed (use assms in \<open>simp add: unix_sock_write_def\<close>)

lemma vfs_more_sched: "vfs.more s' = vfs.more s \<Longrightarrow> sched.more s' = sched.more (s :: 'a sched_scheme)"
  by (cases s; cases s') simp

lemma sched_more_socks: "sched.more s' = sched.more s \<Longrightarrow> socks s' = socks (s :: 'a net_scheme)"
  by (cases s; cases s') simp

lemma task_sleep_socks: "socks (snd (task_sleep bst t rsp s)) = socks s"
  by (rule sched_more_socks)
    (simp add: task_sleep_def sched_yield_c_def do_switch_def save_current_def set_state_def put_task_def Let_def split: option.split)

lemma net_step_ok:
  assumes "net_step s s'" and ok: "net_ok s"
  shows "net_ok s'"
  using assms
proof cases
  case (Sleep t rsp)
  then show ?thesis using ok by (simp add: net_ok_cong [OF task_sleep_socks])
next
  case (Open_file path flags r)
  then show ?thesis using ok by (simp add: net_ok_cong [OF vfs_runs_socks(1)])
next
  case (Close_file fd)
  then show ?thesis using ok net_ok_cong [of "snd (vfs_close fd s)" s] by simp
qed (auto intro:
    unix_socket_ok [OF ok] unix_socketpair_ok [OF ok] unix_bind_ok [OF ok] unix_listen_ok [OF ok]
    unix_connect_ok [OF ok] accept_take_ok [OF ok] pop_rx_ok [OF ok] unix_sock_write_ok [OF ok]
    unix_sock_close_ok [OF ok] unix_fcntl_ok [OF ok] unix_eventfd_ok [OF ok] unix_sock_sendmsg_ok [OF ok]
    recv_iov_ok [OF ok] take_fds_ok [OF ok])

lemma unix_socket_init_ok: "net_ok (unix_socket_init s)"
  using usock_zero_ok by (simp add: unix_socket_init_def net_ok_def)

lemma net_run_ok: "net_run s s' \<Longrightarrow> net_ok s \<Longrightarrow> net_ok s'"
  by (induction rule: net_run.induct) (auto intro: net_step_ok)

text \<open>On a well-formed table a write to a socket always finds the socket at the other end.\<close>

lemma unix_sock_write_cases:
  assumes ok: "net_ok s" and i: "i < 24" "u_used (socks s ! i)"
  shows "unix_sock_write (128 + int i) buf s =
    (if peer_idx (socks s ! i) = PEER_NONE then Inr (- ENOTCONN, s)
     else let j = nat (peer_idx (socks s ! i)); v = socks s ! j
          in Inr (push_result (length (rx_pending v) + length buf \<le> 8191) buf, put_sock j (push_all rx_push buf v) s))"
proof -
  have fd: "unix_is_sockfd (128 + int i) s" "nat (idx_from_fd (128 + int i)) = i"
    using i by (simp_all add: unix_is_sockfd_def idx_from_fd_def)
  show ?thesis
  proof (cases "peer_idx (socks s ! i) = PEER_NONE")
    case False
    from ok i False obtain j where j: "j < 24" "peer_idx (socks s ! i) = int j" "u_state (socks s ! i) = SK_CONNECTED"
      by (rule net_ok_peer)
    have "rx_ok (socks s ! j)" using net_okD(2) [OF ok j(1)] by (simp add: sock_ok_def)
    from push_rx_spec [OF this, of buf] fd j net_okD(1) [OF ok] show ?thesis
      by (simp add: unix_sock_write_def peer_push_def Let_def)
  qed (use fd in \<open>simp add: unix_sock_write_def\<close>)
qed

lemma net_run_peers:
  assumes run: "net_run (unix_socket_init s0) s" and i: "i < 24" "u_used (socks s ! i)"
  shows "(\<exists>r s'. unix_sock_write (128 + int i) buf s = Inr (r, s')) \<and>
         (peer_idx (socks s ! i) \<noteq> PEER_NONE \<longrightarrow>
            (\<exists>j < 24. peer_idx (socks s ! i) = int j \<and> u_used (socks s ! j) \<and> peer_idx (socks s ! j) = int i \<and>
                      u_state (socks s ! i) = SK_CONNECTED \<and> u_state (socks s ! j) = SK_CONNECTED))"
proof -
  have ok: "net_ok s" by (rule net_run_ok [OF run unix_socket_init_ok])
  have "\<exists>j < 24. peer_idx (socks s ! i) = int j \<and> u_used (socks s ! j) \<and> peer_idx (socks s ! j) = int i \<and>
      u_state (socks s ! i) = SK_CONNECTED \<and> u_state (socks s ! j) = SK_CONNECTED" if np: "peer_idx (socks s ! i) \<noteq> PEER_NONE"
  proof -
    from ok i np obtain j where j: "j < 24" "peer_idx (socks s ! i) = int j" "u_used (socks s ! j)" "peer_idx (socks s ! j) = int i"
      "u_state (socks s ! i) = SK_CONNECTED" by (rule net_ok_peer)
    from ok j(1,3) have "u_state (socks s ! j) = SK_CONNECTED" by (rule net_ok_peer) (use j in simp_all)
    with j show ?thesis by auto
  qed
  moreover have "\<exists>r s'. unix_sock_write (128 + int i) buf s = Inr (r, s')"
    using unix_sock_write_cases [OF ok i, of buf] by (simp add: Let_def)
  ultimately show ?thesis by blast
qed

text \<open>
  C3: in every state that socket calls of any tasks reach from the initialised table, a socket with a peer is connected
  and is the peer of its peer; so a write to a socket always returns and never reaches outside the table.
\<close>

theorem unix_peers_symmetric:
  assumes "net_run (unix_socket_init s0) s" "i < 24" "u_used (socks s ! i)"
  shows "(\<exists>r s'. unix_sock_write (128 + int i) buf s = Inr (r, s')) \<and>
         (peer_idx (socks s ! i) \<noteq> PEER_NONE \<longrightarrow>
            (\<exists>j < 24. peer_idx (socks s ! i) = int j \<and> u_used (socks s ! j) \<and> peer_idx (socks s ! j) = int i \<and>
                      u_state (socks s ! i) = SK_CONNECTED \<and> u_state (socks s ! j) = SK_CONNECTED))"
  using assms by (rule net_run_peers)

text \<open>Two sockets connected by \<open>unix_socketpair\<close> on a fresh table.\<close>

definition net_demo :: net where
  "net_demo = unix_socket_init (sched.extend sched_demo \<lparr>socks = [], boot_top = 0x7000\<rparr>)"

definition net_demo_pair :: net where
  "net_demo_pair = snd (snd (unix_socketpair 1 1 net_demo))"

lemma net_demo_alloc:
  "alloc_slot net_demo = Some (0, put_sock 0 (usock_zero\<lparr>u_used := True, u_state := SK_CREATED, peer_idx := PEER_NONE\<rparr>) net_demo)"
proof -
  have "find_idx (\<lambda>u. \<not> u_used u) (socks net_demo) = Some 0"
    using usock_zero_ok(2) by (simp add: find_idx_Some_iff net_demo_def unix_socket_init_def)
  then show ?thesis by (simp add: alloc_slot_def)
qed

lemma net_demo_pair_socks:
  "socks net_demo_pair = (replicate 24 usock_zero)
     [0 := usock_zero\<lparr>u_used := True, u_state := SK_CONNECTED, peer_idx := 1\<rparr>,
      1 := usock_zero\<lparr>u_used := True, u_state := SK_CONNECTED, peer_idx := 0\<rparr>]"
proof -
  let ?z = "usock_zero\<lparr>u_used := True, u_state := SK_CREATED, peer_idx := PEER_NONE\<rparr>"
  have d: "socks net_demo = replicate 24 usock_zero" by (simp add: net_demo_def unix_socket_init_def)
  have "find_idx (\<lambda>u. \<not> u_used u) ((replicate 24 usock_zero)[0 := ?z]) = Some 1"
    using usock_zero_ok(2) by (simp add: find_idx_Some_iff nth_list_update)
  then have "alloc_slot (put_sock 0 ?z net_demo) = Some (1, put_sock 1 ?z (put_sock 0 ?z net_demo))"
    by (simp add: alloc_slot_def d)
  then show ?thesis by (simp add: net_demo_pair_def unix_socketpair_def net_demo_alloc d list_update_swap)
qed

lemma net_demo_pair_run: "net_run net_demo net_demo_pair"
  unfolding net_demo_pair_def by (rule net_run.net_more [OF net_run.net_start net_step.Socketpair])

theorem unix_peers_symmetric_witness:
  "u_used (socks net_demo_pair ! 0) \<and> (\<exists>r s'. unix_sock_write 128 [65] net_demo_pair = Inr (r, s')) \<and>
   (\<exists>j < 24. peer_idx (socks net_demo_pair ! 0) = int j \<and> peer_idx (socks net_demo_pair ! j) = 0)"
proof -
  have u: "u_used (socks net_demo_pair ! 0)" "peer_idx (socks net_demo_pair ! 0) \<noteq> PEER_NONE"
    by (simp_all add: net_demo_pair_socks)
  from unix_peers_symmetric [OF net_demo_pair_run [unfolded net_demo_def] _ u(1), of "[65]"] u show ?thesis by auto
qed

text \<open>A connection as a byte stream.\<close>

lemma read_pending:
  assumes ok: "net_ok s" and j: "j < 24" "u_used (socks s ! j)" "u_state (socks s ! j) = SK_CONNECTED"
    and ne: "rx_pending (socks s ! j) \<noteq> []"
  shows "\<exists>u. unix_sock_read (128 + int j) len ws s =
    Inr (int (min (unat len) (length (rx_pending (socks s ! j)))), take (unat len) (rx_pending (socks s ! j)), put_sock j u s)"
proof -
  have fd: "unix_is_sockfd (128 + int j) s" "nat (idx_from_fd (128 + int j)) = j"
    using j by (simp_all add: unix_is_sockfd_def idx_from_fd_def)
  have rok: "rx_ok (socks s ! j)" using net_okD(2) [OF ok j(1)] by (simp add: sock_ok_def)
  have "rtl (socks s ! j) \<noteq> rhd (socks s ! j)"
    using ne rok ring_empty_iff [of "rhd (socks s ! j)" 8192 "rtl (socks s ! j)" "rx (socks s ! j)"]
    by (auto simp: rx_pending_def rx_ok_def ring_ok_def)
  moreover obtain u where u: "pop_bytes (unat len) (socks s ! j) = (take (unat len) (rx_pending (socks s ! j)), u)"
    using uq.pop_upto_pending [OF rok, of "unat len"] by (cases "pop_bytes (unat len) (socks s ! j)") (auto simp: pop_bytes_eq)
  moreover have "c_int (of_nat (min (length (rx_pending (socks s ! j))) (unat len))) =
      int (min (length (rx_pending (socks s ! j))) (unat len))"
    using uq.pending_room [OF rok] by (intro c_int_of_nat) simp
  ultimately show ?thesis using fd j(3) by (cases ws) (simp_all add: unix_sock_read_def pop_rx_def min.commute, blast+)
qed

lemma write_then_read:
  assumes run: "net_run (unix_socket_init s0) s" and i: "i < 24" "u_used (socks s ! i)" "peer_idx (socks s ! i) = int j"
    and buf: "buf \<noteq> []" "length buf < 2 ^ 31"
  shows "\<exists>s'. unix_sock_write (128 + int i) buf s =
           Inr (if length (rx_pending (socks s ! j)) + length buf \<le> 8191 then int (length buf) else - ENOMEM, s') \<and>
           (\<exists>s''. unix_sock_read (128 + int j) 8192 [] s' =
              Inr (int (min 8191 (length (rx_pending (socks s ! j)) + length buf)), take 8191 (rx_pending (socks s ! j) @ buf), s''))"
proof -
  have ok: "net_ok s" by (rule net_run_ok [OF run unix_socket_init_ok])
  from ok i(1,2) have j: "j < 24" "u_used (socks s ! j)" "peer_idx (socks s ! j) = int i"
    by (rule net_ok_peer; use i(3) in simp)+
  from ok j(1,2) have st: "u_state (socks s ! j) = SK_CONNECTED" by (rule net_ok_peer) (use j in simp_all)
  let ?v = "push_all rx_push buf (socks s ! j)"
  define s' where "s' = put_sock j ?v s"
  have w: "unix_sock_write (128 + int i) buf s = Inr (push_result (length (rx_pending (socks s ! j)) + length buf \<le> 8191) buf, s')"
    using unix_sock_write_cases [OF ok i(1,2), of buf] i(3) by (simp add: s'_def Let_def)
  have ok': "net_ok s'" by (rule unix_sock_write_ok [OF ok w])
  have v: "socks s' ! j = ?v" using j(1) net_okD(1) [OF ok] by (simp add: s'_def)
  have rok: "rx_ok (socks s ! j)" using net_okD(2) [OF ok j(1)] by (simp add: sock_ok_def)
  from uq.push_all_pending [OF rok, of buf] uq.pending_room [OF rok]
  have p: "rx_pending (socks s' ! j) = take 8191 (rx_pending (socks s ! j) @ buf)" by (simp add: v)
  with buf(1) have "rx_pending (socks s' ! j) \<noteq> []" by simp
  from read_pending [OF ok' j(1) _ _ this, of 8192 "[]"] j(2) st
  obtain s'' where "unix_sock_read (128 + int j) 8192 [] s' =
      Inr (int (min 8192 (length (rx_pending (socks s' ! j)))), take 8192 (rx_pending (socks s' ! j)), s'')"
    by (auto simp: v push_all_frame)
  then have "\<exists>s''. unix_sock_read (128 + int j) 8192 [] s' =
      Inr (int (min 8191 (length (rx_pending (socks s ! j)) + length buf)), take 8191 (rx_pending (socks s ! j) @ buf), s'')"
    unfolding p by (simp add: take_take del: take_append)
  moreover have "c_int (of_nat (length buf)) = int (length buf)" using buf(2) by (rule c_int_of_nat)
  ultimately show ?thesis using w by (simp add: push_result_def)
qed

text \<open>
  C14: in every reachable state, what is written to a connected socket is read at its peer after the bytes already
  there, in order. A write that does not fit in the peer's ring returns \<^verbatim>\<open>-ENOMEM\<close>, and still delivers the bytes that
  do fit.
\<close>

theorem unix_stream_delivery:
  assumes "net_run (unix_socket_init s0) s" "i < 24" "u_used (socks s ! i)" "peer_idx (socks s ! i) = int j"
    and "buf \<noteq> []" "length buf < 2 ^ 31"
  shows "\<exists>s'. unix_sock_write (128 + int i) buf s =
           Inr (if length (rx_pending (socks s ! j)) + length buf \<le> 8191 then int (length buf) else - ENOMEM, s') \<and>
           (\<exists>s''. unix_sock_read (128 + int j) 8192 [] s' =
              Inr (int (min 8191 (length (rx_pending (socks s ! j)) + length buf)), take 8191 (rx_pending (socks s ! j) @ buf), s''))"
  using assms by (rule write_then_read)

theorem unix_stream_delivery_witness:
  "\<exists>s'. unix_sock_write 128 [72, 105] net_demo_pair = Inr (2, s') \<and> (\<exists>s''. unix_sock_read 129 8192 [] s' = Inr (2, [72, 105], s''))"
proof -
  have u: "u_used (socks net_demo_pair ! 0)" "peer_idx (socks net_demo_pair ! 0) = int 1" "rx_pending (socks net_demo_pair ! 1) = []"
    by (simp_all add: net_demo_pair_socks rx_pending_def ring_list_def ring_len_def usock_zero_def)
  from unix_stream_delivery [OF net_demo_pair_run [unfolded net_demo_def] _ u(1,2), of "[72, 105]"] u(3) show ?thesis by simp
qed

end
