(* ===== verification/Printf.thy ===== *)
theory Printf
  imports KString Unsock_Inv
begin

text \<open>
  \<^verbatim>\<open>src/lib/printf.c\<close>: the formatter of the kernel and its output, which goes to the serial port and the text console or
  into a buffer that the shell installs. A \<^verbatim>\<open>va_list\<close> is the list of the remaining arguments: a number is the 64 bits
  of its slot, a string is what the pointer points to (\<open>None\<close> is \<^verbatim>\<open>NULL\<close>); taking an argument that is
  missing or of the other kind is \<open>OutOfBounds\<close>. A directive yields pieces of text, each marked with whether the code
  tests the end of its 2048-byte buffer while writing it.
\<close>

section \<open>Output\<close>

record kio = net +
  kout_buf :: "string option"
  kout_len :: u64
  kout_cap :: u64

definition kout_redirect :: "string \<Rightarrow> u64 \<Rightarrow> 'a kio_scheme \<Rightarrow> 'a kio_scheme" where
  "kout_redirect buf cap s = s\<lparr>kout_buf := Some buf, kout_len := 0, kout_cap := cap\<rparr>"

definition kout_reset :: "'a kio_scheme \<Rightarrow> 'a kio_scheme" where
  "kout_reset s = s\<lparr>kout_buf := None, kout_len := 0, kout_cap := 0\<rparr>"

definition kout_written :: "'a kio_scheme \<Rightarrow> u64" where
  "kout_written s = kout_len s"

definition kputchar :: "char \<Rightarrow> 'a kio_scheme \<Rightarrow> 'a kio_scheme res" where
  "kputchar c s =
     (case kout_buf s of
        Some b \<Rightarrow>
          if kout_len s + 1 < kout_cap s then
            let n = unat (kout_len s)
            in if n + 1 \<ge> length b then Inl OutOfBounds
               else Inr (s\<lparr>kout_buf := Some (b[n := c, n + 1 := NUL]), kout_len := kout_len s + 1\<rparr>)
          else Inr s
      | None \<Rightarrow>
          let s1 = serial_putchar (of_nat (of_char c)) s
          in case vga_putchar (of_nat (of_char c)) (con s1) of
               Inl e \<Rightarrow> Inl e
             | Inr co \<Rightarrow> Inr (s1\<lparr>con := co\<rparr>))"

fun kput_chars :: "string \<Rightarrow> 'a kio_scheme \<Rightarrow> 'a kio_scheme res" where
  "kput_chars [] s = Inr s"
| "kput_chars (c # cs) s = (case kputchar c s of Inl e \<Rightarrow> Inl e | Inr s1 \<Rightarrow> kput_chars cs s1)"

definition kputs_raw :: "string \<Rightarrow> 'a kio_scheme \<Rightarrow> 'a kio_scheme res" where
  "kputs_raw str s = kput_chars (takeWhile (\<lambda>c. c \<noteq> NUL) str) s"

section \<open>Numbers\<close>

definition dig_low :: string where "dig_low = ''0123456789abcdef''"
definition dig_up :: string where "dig_up = ''0123456789ABCDEF''"

text \<open>The digits in \<^verbatim>\<open>tmp\<close>, least significant first; the callers pass the bases 2, 8, 10 and 16.\<close>

function (sequential) num_digits :: "string \<Rightarrow> nat \<Rightarrow> nat \<Rightarrow> string" where
  "num_digits dig base v =
     (if v = 0 \<or> base < 2 then [] else dig ! (v mod base) # num_digits dig base (v div base))"
  by pat_completeness auto
termination
  by (relation "measure (\<lambda>(dig, base, v). v)") auto

definition fmt_uint :: "u64 \<Rightarrow> nat \<Rightarrow> bool \<Rightarrow> int \<Rightarrow> char \<Rightarrow> bool \<Rightarrow> bool \<Rightarrow> bool \<Rightarrow> string" where
  "fmt_uint val base upper width pad left sign_plus negative =
     (let dig = (if upper then dig_up else dig_low);
          tmp = (if val = 0 then ''0'' else num_digits dig base (unat val));
          prefix = (if negative then ''-'' else if sign_plus then ''+'' else []);
          tot = int (length tmp + length prefix);
          padding = (if width > tot then nat (width - tot) else 0)
      in (if \<not> left \<and> pad = CHR '' '' then replicate padding (CHR '' '') else []) @ prefix @
         (if \<not> left \<and> pad = CHR ''0'' then replicate padding (CHR ''0'') else []) @ rev tmp @
         (if left then replicate padding (CHR '' '') else []))"

section \<open>Directives\<close>

datatype karg = Num u64 | Str "string option"

fun fmt_flags :: "string \<Rightarrow> bool \<Rightarrow> bool \<Rightarrow> char \<Rightarrow> bool \<times> bool \<times> char \<times> string" where
  "fmt_flags (c # fs) left pls pad =
     (if c = CHR ''-'' then fmt_flags fs True pls pad
      else if c = CHR ''+'' then fmt_flags fs left True pad
      else if c = CHR ''0'' then fmt_flags fs left pls (CHR ''0'')
      else if c = CHR ''#'' then fmt_flags fs left pls pad
      else (left, pls, pad, c # fs))"
| "fmt_flags [] left pls pad = (left, pls, pad, [])"

definition in_int32 :: "int \<Rightarrow> bool" where
  "in_int32 v \<longleftrightarrow> - (2 ^ 31) \<le> v \<and> v < 2 ^ 31"

fun fmt_width :: "string \<Rightarrow> int \<Rightarrow> (int \<times> string) res" where
  "fmt_width (c # fs) width =
     (if uchar (CHR ''0'') \<le> uchar c \<and> uchar c \<le> uchar (CHR ''9'') then
        let w = width * 10 + (uchar c - uchar (CHR ''0''))
        in if in_int32 w then fmt_width fs w else Inl Overflow
      else Inr (width, c # fs))"
| "fmt_width [] width = Inr (width, [])"

definition va_num :: "karg list \<Rightarrow> (u64 \<times> karg list) res" where
  "va_num ap = (case ap of Num v # ap1 \<Rightarrow> Inr (v, ap1) | _ \<Rightarrow> Inl OutOfBounds)"

definition va_str :: "karg list \<Rightarrow> (string option \<times> karg list) res" where
  "va_str ap = (case ap of Str v # ap1 \<Rightarrow> Inr (v, ap1) | _ \<Rightarrow> Inl OutOfBounds)"

definition fmt_star :: "string \<Rightarrow> karg list \<Rightarrow> (int \<times> string \<times> karg list) res" where
  "fmt_star fs ap =
     (case fs of
        c # gs \<Rightarrow>
          if c = CHR ''*'' then
            case va_num ap of Inl e \<Rightarrow> Inl e | Inr (v, ap1) \<Rightarrow> Inr (c_int v, gs, ap1)
          else case fmt_width fs 0 of Inl e \<Rightarrow> Inl e | Inr (w, hs) \<Rightarrow> Inr (w, hs, ap)
      | [] \<Rightarrow> Inr (0, [], ap))"

text \<open>The length modifier: whether the argument has 64 bits.\<close>

definition fmt_length :: "string \<Rightarrow> bool \<times> string" where
  "fmt_length fs =
     (case fs of
        c # gs \<Rightarrow>
          if c = CHR ''l'' then
            case gs of d # hs \<Rightarrow> if d = CHR ''l'' then (True, hs) else (True, gs) | [] \<Rightarrow> (True, [])
          else if c = CHR ''z'' then (True, gs)
          else (False, fs)
      | [] \<Rightarrow> (False, []))"

type_synonym pieces = "(bool \<times> string) list"

definition fmt_unsigned :: "nat \<Rightarrow> bool \<Rightarrow> bool \<Rightarrow> int \<Rightarrow> char \<Rightarrow> bool \<Rightarrow> karg list \<Rightarrow> (pieces \<times> karg list) res" where
  "fmt_unsigned base upper is64 width pad left ap =
     (case va_num ap of
        Inl e \<Rightarrow> Inl e
      | Inr (v, ap1) \<Rightarrow>
          Inr ([(False, fmt_uint (if is64 then v else ucast (ucast v :: u32)) base upper width pad left False False)], ap1))"

definition fmt_signed :: "bool \<Rightarrow> int \<Rightarrow> char \<Rightarrow> bool \<Rightarrow> bool \<Rightarrow> karg list \<Rightarrow> (pieces \<times> karg list) res" where
  "fmt_signed is64 width pad left pls ap =
     (case va_num ap of
        Inl e \<Rightarrow> Inl e
      | Inr (a, ap1) \<Rightarrow>
          let v = (if is64 then c_int64 a else c_int a)
          in if \<not> in_int64 (- v) then Inl Overflow
             else Inr ([(False, fmt_uint (word_of_int \<bar>v\<bar>) 10 False width pad left pls (v < 0))], ap1))"

definition fmt_string :: "int \<Rightarrow> bool \<Rightarrow> karg list \<Rightarrow> (pieces \<times> karg list) res" where
  "fmt_string width left ap =
     (case va_str ap of
        Inl e \<Rightarrow> Inl e
      | Inr (p, ap1) \<Rightarrow>
          let str = (case p of None \<Rightarrow> ''(null)'' | Some t \<Rightarrow> t);
              slen = c_int (of_nat (length str));
              pad_n = (if width > slen then nat (width - slen) else 0);
              blanks = replicate pad_n (CHR '' '')
          in Inr ([(True, (if left then [] else blanks) @ str @ (if left then blanks else []))], ap1))"

text \<open>Everything after the percent sign: the text, the remaining arguments and the rest of the format.\<close>

definition fmt_directive :: "string \<Rightarrow> karg list \<Rightarrow> (pieces \<times> karg list \<times> string) res" where
  "fmt_directive fs ap =
     (case fmt_flags fs False False (CHR '' '') of (left, pls, pad, fs1) \<Rightarrow>
        case fmt_star fs1 ap of
          Inl e \<Rightarrow> Inl e
        | Inr (width, fs2, ap1) \<Rightarrow>
            (case fmt_length fs2 of (is64, fs3) \<Rightarrow>
               case fs3 of
                 [] \<Rightarrow> Inl OutOfBounds
               | spec # rest \<Rightarrow>
                   map_sum id (\<lambda>(ps, ap2). (ps, ap2, rest))
                     (if spec = CHR ''c'' then
                        map_sum id (\<lambda>(v, ap2). ([(True, [char_of (unat v)])], ap2)) (va_num ap1)
                      else if spec = CHR ''s'' then fmt_string width left ap1
                      else if spec = CHR ''d'' \<or> spec = CHR ''i'' then fmt_signed is64 width pad left pls ap1
                      else if spec = CHR ''u'' then fmt_unsigned 10 False is64 width pad left ap1
                      else if spec = CHR ''x'' \<or> spec = CHR ''X'' then fmt_unsigned 16 (spec = CHR ''X'') is64 width pad left ap1
                      else if spec = CHR ''o'' then fmt_unsigned 8 False is64 width pad left ap1
                      else if spec = CHR ''b'' then fmt_unsigned 2 False True width pad left ap1
                      else if spec = CHR ''p'' then
                        map_sum id (\<lambda>(ps, ap2). ((True, ''0x'') # ps, ap2))
                          (fmt_unsigned 16 False True 16 (CHR ''0'') False ap1)
                      else if spec = CHR ''%'' then Inr ([(True, ''%'')], ap1)
                      else if spec = CHR ''n'' then Inr ([], ap1)
                      else Inr ([(True, ''%''), (True, [spec])], ap1))))"

section \<open>The formatter\<close>

text \<open>Writing into \<^verbatim>\<open>buf[2048]\<close>: \<^verbatim>\<open>EMIT\<close> stops at 2047 characters, \<open>fmt_uint\<close> does not stop.\<close>

fun put_pieces :: "pieces \<Rightarrow> string \<Rightarrow> string res" where
  "put_pieces [] buf = Inr buf"
| "put_pieces ((True, t) # ps) buf = put_pieces ps (buf @ take (2047 - length buf) t)"
| "put_pieces ((False, t) # ps) buf =
     (if length buf + length t > 2048 then Inl OutOfBounds else put_pieces ps (buf @ t))"

lemma fmt_flags_shorter: "fmt_flags fs l p q = (l', p', q', fs') \<Longrightarrow> length fs' \<le> length fs"
  by (induction fs l p q rule: fmt_flags.induct) (fastforce split: if_splits)+

lemma fmt_width_shorter: "fmt_width fs w = Inr (w', fs') \<Longrightarrow> length fs' \<le> length fs"
  by (induction fs w rule: fmt_width.induct) (fastforce simp: Let_def split: if_splits)+

lemma fmt_star_shorter: "fmt_star fs ap = Inr (w, fs', ap') \<Longrightarrow> length fs' \<le> length fs"
  by (auto simp: fmt_star_def simp del: fmt_width.simps dest!: fmt_width_shorter split: list.splits if_splits sum.splits)

lemma fmt_length_shorter: "fmt_length fs = (is64, fs') \<Longrightarrow> length fs' \<le> length fs"
  by (auto simp: fmt_length_def split: list.splits if_splits)

lemma map_sum_Inr: "map_sum f g x = Inr y \<longleftrightarrow> (\<exists>z. x = Inr z \<and> y = g z)"
  by (cases x) auto

lemma fmt_directive_shorter:
  assumes "fmt_directive fs ap = Inr (ps, ap', rest)"
  shows "length rest < length fs"
proof -
  obtain left pls pad fs1 where f: "fmt_flags fs False False (CHR '' '') = (left, pls, pad, fs1)" by (metis prod_cases4)
  with assms obtain width fs2 ap1 where w: "fmt_star fs1 ap = Inr (width, fs2, ap1)"
    by (auto simp: fmt_directive_def split: sum.splits)
  obtain is64 fs3 where l: "fmt_length fs2 = (is64, fs3)" by fastforce
  with assms f w obtain spec where "fs3 = spec # rest"
    by (cases fs3) (auto simp: fmt_directive_def map_sum_Inr)
  with fmt_flags_shorter [OF f] fmt_star_shorter [OF w] fmt_length_shorter [OF l] show ?thesis by simp
qed

function (sequential) kfmt_loop :: "string \<Rightarrow> karg list \<Rightarrow> string \<Rightarrow> string res" where
  "kfmt_loop [] ap buf = Inr buf"
| "kfmt_loop (c # fs) ap buf =
     (if length buf \<ge> 2047 then Inr buf
      else if c \<noteq> CHR ''%'' then kfmt_loop fs ap (buf @ [c])
      else case fmt_directive fs ap of
             Inl e \<Rightarrow> Inl e
           | Inr (ps, ap1, rest) \<Rightarrow>
               (case put_pieces ps buf of Inl e \<Rightarrow> Inl e | Inr buf1 \<Rightarrow> kfmt_loop rest ap1 buf1))"
  by pat_completeness auto
termination
  by (relation "measure (\<lambda>(fs, ap, buf). length fs)") (auto dest!: fmt_directive_shorter)

text \<open>\<open>out\<close> is the size passed for a destination that is not null; the text stored there is the second result.\<close>

definition kvsnprintf :: "u64 option \<Rightarrow> string \<Rightarrow> karg list \<Rightarrow> 'a kio_scheme \<Rightarrow> (int \<times> string \<times> 'a kio_scheme) res" where
  "kvsnprintf out fmt ap s =
     (case kfmt_loop fmt ap [] of
        Inl e \<Rightarrow> Inl e
      | Inr buf \<Rightarrow>
          if length buf \<ge> 2048 then Inl OutOfBounds
          else case out of
                 Some out_size \<Rightarrow>
                   let n = (if of_nat (length buf) < out_size then of_nat (length buf) else out_size - 1) :: u64
                   in if unat n > 2048 then Inl OutOfBounds
                      else Inr (int (length buf), take (unat n) buf @ [NUL], s)
               | None \<Rightarrow>
                   (case kputs_raw buf s of Inl e \<Rightarrow> Inl e | Inr s1 \<Rightarrow> Inr (int (length buf), [], s1)))"

definition kvprintf :: "string \<Rightarrow> karg list \<Rightarrow> 'a kio_scheme \<Rightarrow> (int \<times> string \<times> 'a kio_scheme) res" where
  "kvprintf fmt ap s = kvsnprintf None fmt ap s"

definition kprintf :: "string \<Rightarrow> karg list \<Rightarrow> 'a kio_scheme \<Rightarrow> (int \<times> string \<times> 'a kio_scheme) res" where
  "kprintf fmt ap s = kvsnprintf None fmt ap s"

definition ksprintf :: "u64 \<Rightarrow> string \<Rightarrow> karg list \<Rightarrow> 'a kio_scheme \<Rightarrow> (int \<times> string \<times> 'a kio_scheme) res" where
  "ksprintf n fmt ap s = kvsnprintf (Some n) fmt ap s"

definition kputs :: "string \<Rightarrow> 'a kio_scheme \<Rightarrow> 'a kio_scheme res" where
  "kputs str s = (case kputs_raw str s of Inl e \<Rightarrow> Inl e | Inr s1 \<Rightarrow> kputchar (CHR 0x0A) s1)"

section \<open>The formatter without a buffer\<close>

function (sequential) kfmt_text :: "string \<Rightarrow> karg list \<Rightarrow> string res" where
  "kfmt_text [] ap = Inr []"
| "kfmt_text (c # fs) ap =
     (if c \<noteq> CHR ''%'' then map_sum id (Cons c) (kfmt_text fs ap)
      else case fmt_directive fs ap of
             Inl e \<Rightarrow> Inl e
           | Inr (ps, ap1, rest) \<Rightarrow> map_sum id (append (concat (map snd ps))) (kfmt_text rest ap1))"
  by pat_completeness auto
termination
  by (relation "measure (\<lambda>(fs, ap). length fs)") (auto dest!: fmt_directive_shorter)

lemma put_pieces_room:
  "length buf + length (concat (map snd ps)) \<le> 2047 \<Longrightarrow> put_pieces ps buf = Inr (buf @ concat (map snd ps))"
  by (induction ps buf rule: put_pieces.induct) simp_all

lemma kfmt_loop_text:
  "kfmt_text fs ap = Inr t \<Longrightarrow> length buf + length t \<le> 2047 \<Longrightarrow> kfmt_loop fs ap buf = Inr (buf @ t)"
proof (induction fs ap arbitrary: buf t rule: kfmt_text.induct)
  case (2 c fs ap)
  show ?case
  proof (cases "c = CHR ''%''")
    case False
    with "2.prems" obtain u where u: "kfmt_text fs ap = Inr u" "t = c # u" by (auto simp: map_sum_Inr)
    with "2.IH"(1) [OF False u(1), of "buf @ [c]"] "2.prems"(2) False show ?thesis by simp
  next
    case True
    with "2.prems"(1) obtain ps ap1 rest where d: "fmt_directive fs ap = Inr (ps, ap1, rest)" by (auto split: sum.splits)
    with "2.prems"(1) True obtain u where u: "kfmt_text rest ap1 = Inr u" "t = concat (map snd ps) @ u"
      by (auto simp: map_sum_Inr)
    show ?thesis
    proof (cases "length buf \<ge> 2047")
      case full: True
      with "2.prems"(2) have "t = []" by (cases t) simp_all
      with full show ?thesis by simp
    next
      case False
      from "2.prems"(2) u(2) have "put_pieces ps buf = Inr (buf @ concat (map snd ps))" by (intro put_pieces_room) simp
      with "2.IH"(2) [OF _ d refl refl u(1), of "buf @ concat (map snd ps)"] "2.prems"(2) True False d u show ?thesis by simp
    qed
  qed
qed simp

lemma ksprintf_text:
  assumes t: "kfmt_text fmt ap = Inr t" and len: "length t \<le> 2047" and n: "n \<noteq> 0"
  shows "ksprintf n fmt ap s = Inr (int (length t), take (unat n - 1) t @ [NUL], s)"
proof -
  have l: "unat (of_nat (length t) :: u64) = length t" using len by (simp add: unat_of_nat)
  have n1: "unat (n - 1) = unat n - 1" using n by (rule unat_minus_one)
  have "of_nat (length t) < n \<longleftrightarrow> length t < unat n" by (simp add: word_less_nat_alt l)
  then show ?thesis
    using kfmt_loop_text [OF t, of "[]"] len by (auto simp: ksprintf_def kvsnprintf_def Let_def l n1)
qed

section \<open>Printing and parsing numbers\<close>

lemma dig_low_val: "k < 16 \<Longrightarrow> digit_val (dig_low ! k) = Some (int k) \<and> dig_low ! k \<noteq> NUL"
proof -
  assume "k < 16"
  then have "k \<in> set [0..<16]" by simp
  then show ?thesis by (auto simp: upt_rec dig_low_def digit_val_def uchar_def)
qed

declare num_digits.simps [simp del]

lemma strtol_num_digits:
  assumes "2 \<le> b" "b \<le> 16" "int n < 2 ^ 63"
  shows "strtol_digits (rev (num_digits dig_low b n) @ rest) (int b) 0 = strtol_digits rest (int b) (int n)"
  using assms
proof (induction dig_low b n arbitrary: rest rule: num_digits.induct)
  case (1 b n)
  show ?case
  proof (cases "n = 0")
    case True
    then show ?thesis by (simp add: num_digits.simps)
  next
    case False
    have d: "int (n div b) < 2 ^ 63" using "1.prems"(3) div_le_dividend [of n b] by linarith
    have m: "n mod b < b" "n mod b < 16" using "1.prems"(1,2) mod_less_divisor [of b n] by linarith+
    have e: "int (n div b) * int b + int (n mod b) = int n"
      by (metis div_mult_mod_eq of_nat_add of_nat_mult)
    have "num_digits dig_low b n = dig_low ! (n mod b) # num_digits dig_low b (n div b)"
      using False "1.prems"(1) by (subst num_digits.simps) simp
    then have "strtol_digits (rev (num_digits dig_low b n) @ rest) (int b) 0 =
        strtol_digits (dig_low ! (n mod b) # rest) (int b) (int (n div b))"
      using "1.hyps" [OF _ "1.prems"(1,2) d] False "1.prems"(1) by simp
    also have "\<dots> = strtol_digits rest (int b) (int n)"
      using dig_low_val [OF m(2)] m(1) "1.prems"(3) by (simp add: e in_int64_def)
    finally show ?thesis .
  qed
qed

lemma num_digits_length: "n < b ^ k \<Longrightarrow> 2 \<le> b \<Longrightarrow> length (num_digits dig b n) \<le> k"
proof (induction k arbitrary: n)
  case (Suc k)
  then have "n div b < b ^ k" by (simp add: less_mult_imp_div_less mult.commute)
  with Suc.IH Suc.prems(2) show ?case by (subst num_digits.simps) simp
qed (simp add: num_digits.simps)

lemma num_digits_set: "2 \<le> b \<Longrightarrow> b \<le> 16 \<Longrightarrow> set (num_digits dig_low b n) \<subseteq> set dig_low"
proof (induction dig_low b n rule: num_digits.induct)
  case (1 b n)
  have "n mod b < b" "length dig_low = 16" using "1.prems" by (simp_all add: dig_low_def)
  then have "n mod b < length dig_low" using "1.prems"(2) by linarith
  with 1 show ?case by (subst num_digits.simps) auto
qed

lemma num_digits_clean:
  assumes "2 \<le> b" "b \<le> 16" "c \<in> set (num_digits dig_low b n)"
  shows "c \<noteq> CHR '' '' \<and> c \<noteq> CHR 0x09 \<and> c \<noteq> CHR ''-'' \<and> c \<noteq> CHR ''+''"
  using num_digits_set [OF assms(1,2), of n] assms(3) by (auto simp: dig_low_def)

text \<open>A number without width, as the formatter writes it and as \<open>strtol\<close> reads it.\<close>

definition num_text :: "nat \<Rightarrow> nat \<Rightarrow> string" where
  "num_text b n = (if n = 0 then ''0'' else rev (num_digits dig_low b n))"

lemma num_text_ne: "2 \<le> b \<Longrightarrow> num_text b n \<noteq> []"
  by (simp add: num_text_def num_digits.simps [of dig_low b n])

lemma num_text_strtol_digits:
  assumes "2 \<le> b" "b \<le> 16" "int n < 2 ^ 63"
  shows "strtol_digits (cz (num_text b n)) (int b) 0 = Some (int n, [NUL])"
proof (cases "n = 0")
  case True
  have "digit_val (CHR ''0'') = Some 0" by (simp add: digit_val_def uchar_def)
  with True assms(1) show ?thesis by (simp add: num_text_def cz_def in_int64_def)
next
  case False
  with strtol_num_digits [OF assms, of "[NUL]"] show ?thesis by (simp add: num_text_def cz_def)
qed

lemma num_text_head:
  assumes "2 \<le> b" "b \<le> 16"
  obtains c cs where "num_text b n = c # cs" "c \<noteq> CHR '' ''" "c \<noteq> CHR 0x09" "c \<noteq> CHR ''-''" "c \<noteq> CHR ''+''"
proof -
  obtain c cs where c: "num_text b n = c # cs" using num_text_ne [OF assms(1), of n] by (cases "num_text b n") auto
  have "c = CHR ''0'' \<or> c \<in> set (num_digits dig_low b n)"
    using c by (auto simp: num_text_def split: if_splits dest: arg_cong [of _ _ set])
  with num_digits_clean [OF assms, of c n] c that show thesis by auto
qed

lemma strtol_num_text:
  assumes "int n < 2 ^ 63"
  shows "strtol (cz (num_text 10 n)) 10 = Some (int n, [NUL])"
    and "strtol (cz (CHR ''-'' # num_text 10 n)) 10 = Some (- int n, [NUL])"
proof -
  obtain c cs where c: "num_text 10 n = c # cs" "c \<noteq> CHR '' ''" "c \<noteq> CHR 0x09" "c \<noteq> CHR ''-''" "c \<noteq> CHR ''+''"
    by (rule num_text_head [of 10 n]) simp_all
  have d: "strtol_digits (cz (num_text 10 n)) 10 0 = Some (int n, [NUL])"
    using num_text_strtol_digits [of 10 n] assms by simp
  show "strtol (cz (num_text 10 n)) 10 = Some (int n, [NUL])"
    using c d by (simp add: strtol_def cz_def strtol_base_def Let_def)
  show "strtol (cz (CHR ''-'' # num_text 10 n)) 10 = Some (- int n, [NUL])"
    using d by (simp add: strtol_def cz_def strtol_base_def Let_def)
qed

lemma fmt_uint_plain:
  "fmt_uint v b False 0 (CHR '' '') False False negative = (if negative then ''-'' else []) @ num_text b (unat v)"
  by (simp add: fmt_uint_def Let_def num_text_def unat_eq_zero)

lemma kfmt_text_ld:
  assumes "c_int64 v \<noteq> - (2 ^ 63)"
  shows "kfmt_text ''%ld'' [Num v] =
    Inr ((if c_int64 v < 0 then ''-'' else []) @ num_text 10 (nat \<bar>c_int64 v\<bar>))"
proof -
  have r: "- (2 ^ 63) < c_int64 v" "c_int64 v < 2 ^ 63"
    using sint_ge [of v] sint_lt [of v] assms by (auto simp: c_int64_def)
  then have "in_int64 (- c_int64 v)" by (simp add: in_int64_def)
  moreover have "unat (word_of_int \<bar>c_int64 v\<bar> :: u64) = nat \<bar>c_int64 v\<bar>"
    using r by (simp add: unat_eq_nat_uint uint_word_of_int)
  ultimately have "fmt_directive ''ld'' [Num v] =
    Inr ([(False, (if c_int64 v < 0 then ''-'' else []) @ num_text 10 (nat \<bar>c_int64 v\<bar>))], [], [])"
    by (simp add: fmt_directive_def fmt_star_def fmt_length_def fmt_signed_def va_num_def Let_def fmt_uint_plain uchar_def)
  then show ?thesis by simp
qed

lemma num_text_length: "n < 10 ^ k \<Longrightarrow> 0 < k \<Longrightarrow> length (num_text 10 n) \<le> k"
  using num_digits_length [of n 10 k dig_low] by (simp add: num_text_def)

lemma ksprintf_ld:
  assumes v: "c_int64 v \<noteq> - (2 ^ 63)"
  shows "\<exists>t. ksprintf 32 ''%ld'' [Num v] s = Inr (int (length t), cz t, s) \<and> strtol (cz t) 10 = Some (c_int64 v, [NUL])"
proof -
  let ?n = "nat \<bar>c_int64 v\<bar>"
  define t where "t = (if c_int64 v < 0 then ''-'' else []) @ num_text 10 ?n"
  have r: "int ?n < 2 ^ 63"
    using sint_ge [of v] sint_lt [of v] v by (auto simp: c_int64_def)
  then have "length (num_text 10 ?n) \<le> 19" by (intro num_text_length) simp_all
  then have len: "length t \<le> 20" by (cases "c_int64 v < 0") (simp_all add: t_def)
  have "ksprintf 32 ''%ld'' [Num v] s = Inr (int (length t), cz t, s)"
    using ksprintf_text [OF kfmt_text_ld [OF v], of 32 s] len by (simp add: t_def cz_def)
  moreover have "strtol (cz t) 10 = Some (c_int64 v, [NUL])"
    using strtol_num_text [OF r] by (cases "c_int64 v < 0") (simp_all add: t_def)
  ultimately show ?thesis by blast
qed

text \<open>Text without directives is copied.\<close>

lemma kfmt_loop_plain:
  "CHR ''%'' \<notin> set pre \<Longrightarrow> length buf + length pre \<le> 2047 \<Longrightarrow> kfmt_loop (pre @ fs) ap buf = kfmt_loop fs ap (buf @ pre)"
  by (induction pre arbitrary: buf) auto

lemma fmt_directive_lu:
  "fmt_directive ''lu'' [Num v] = Inr ([(False, num_text 10 (unat v))], [], [])"
  by (simp add: fmt_directive_def fmt_star_def fmt_length_def fmt_unsigned_def va_num_def fmt_uint_plain uchar_def)

lemma number_past_buffer:
  assumes "CHR ''%'' \<notin> set pre" "length pre \<le> 2046" "length pre + length (num_text 10 (unat v)) > 2048"
  shows "ksprintf n (pre @ ''%lu'') [Num v] s = Inl OutOfBounds"
  using kfmt_loop_plain [of pre "[]" "''%lu''" "[Num v]"] assms
  by (simp add: ksprintf_def kvsnprintf_def fmt_directive_lu)

section \<open>Properties\<close>


definition kio_demo :: kio where
  "kio_demo = net.extend net_demo_pair \<lparr>kout_buf = None, kout_len = 0, kout_cap = 0\<rparr>"

lemma fmt_demo: "kfmt_text ''a=%05x|%-4s|%c%%'' [Num 0x2F, Str (Some ''ok''), Num 33] = Inr ''a=0002f|ok  |!%''"
  by code_simp


text \<open>
  C34: a signed number printed with \<^verbatim>\<open>%ld\<close> into a 32-byte buffer and read back with \<open>strtol\<close> is the number (for the
  smallest number the negation in the code overflows).
\<close>

theorem ksprintf_strtol_roundtrip:
  assumes "c_int64 v \<noteq> - (2 ^ 63)"
  shows "\<exists>t. ksprintf 32 ''%ld'' [Num v] s = Inr (int (length t), cz t, s) \<and> strtol (cz t) 10 = Some (c_int64 v, [NUL])"
  using assms by (rule ksprintf_ld)

theorem ksprintf_strtol_roundtrip_witness:
  "\<exists>t. ksprintf 32 ''%ld'' [Num (- 1234)] kio_demo = Inr (int (length t), cz t, kio_demo) \<and> strtol (cz t) 10 = Some (- 1234, [NUL])"
  using ksprintf_strtol_roundtrip [of "- 1234" kio_demo] by (simp add: c_int64_def)

text \<open>
  The digits of a number are written without looking at the end of the 2048-byte buffer: when a text is followed
  by a number that does not fit in the rest of it, the code writes behind the buffer.
\<close>

theorem ksprintf_number_overruns:
  assumes "CHR ''%'' \<notin> set pre" "length pre \<le> 2046" "length pre + length (num_text 10 (unat v)) > 2048"
  shows "ksprintf n (pre @ ''%lu'') [Num v] s = Inl OutOfBounds"
  using assms by (rule number_past_buffer)

theorem ksprintf_number_overruns_witness:
  "ksprintf 64 (replicate 2046 (CHR ''x'') @ ''%lu'') [Num 123] kio_demo = Inl OutOfBounds"
proof -
  have "num_text 10 123 = ''123''" by code_simp
  then show ?thesis
    using ksprintf_number_overruns [of "replicate 2046 (CHR ''x'')" 123 64 kio_demo] by simp
qed

end
