(* ===== verification/Addr_Space.thy ===== *)
theory Addr_Space
  imports Vmm
begin

text \<open>
  A user address space as a memory: what the translations of \<^verbatim>\<open>src/mm/vmm.c\<close> and the frames behind them amount to for a
  program. The loop that gives a program fresh pages appears in the program loader, in \<^verbatim>\<open>brk\<close>, \<^verbatim>\<open>mmap\<close> and the
  creation of user stacks; \<open>map_fresh\<close> is that loop. Stores to user addresses translate every byte.
\<close>

section \<open>Operations\<close>

text \<open>One turn: a frame, cleared if \<open>zero\<close>, mapped with the given flags; \<open>False\<close> when no frame is left.\<close>

definition map_page :: "bool \<Rightarrow> u64 \<Rightarrow> u64 \<Rightarrow> u64 \<Rightarrow> 'a mach_scheme \<Rightarrow> (bool \<times> 'a mach_scheme) res" where
  "map_page zero pml4 va flags s =
     (case pmm_alloc s of (pg, s1) \<Rightarrow>
        if pg = 0 then Inr (False, s1)
        else case vmm_map_in_pml4 pml4 va pg flags
                    (if zero then s1\<lparr>pmem := mem_fill (pmem s1) (unat pg) 4096 0\<rparr> else s1) of
               Inl e \<Rightarrow> Inl e
             | Inr s2 \<Rightarrow> Inr (True, s2))"

fun map_fresh :: "bool \<Rightarrow> nat \<Rightarrow> u64 \<Rightarrow> u64 \<Rightarrow> u64 \<Rightarrow> 'a mach_scheme \<Rightarrow> (bool \<times> 'a mach_scheme) res" where
  "map_fresh zero 0 pml4 va flags s = Inr (True, s)"
| "map_fresh zero (Suc n) pml4 va flags s =
     (case map_page zero pml4 va flags s of
        Inl e \<Rightarrow> Inl e
      | Inr (False, s1) \<Rightarrow> Inr (False, s1)
      | Inr (True, s1) \<Rightarrow> map_fresh zero n pml4 (va + PAGE_SIZE) flags s1)"

text \<open>The source of a copy is what is left of the array it is taken from; the copy ends at an unmapped address.\<close>

fun vnl_copy_to_user_va :: "u64 \<Rightarrow> u64 \<Rightarrow> u8 list \<Rightarrow> nat \<Rightarrow> 'a mach_scheme \<Rightarrow> 'a mach_scheme res" where
  "vnl_copy_to_user_va pml4 va src 0 s = Inr s"
| "vnl_copy_to_user_va pml4 va src (Suc n) s =
     (let pa = vmm_lookup_phys_pml4 pml4 va s
      in if pa = 0 then Inr s
         else case src of
                [] \<Rightarrow> Inl OutOfBounds
              | b # bs \<Rightarrow> vnl_copy_to_user_va pml4 (va + 1) bs n (s\<lparr>pmem := (pmem s)(unat pa := b)\<rparr>))"

section \<open>The frames of the tables\<close>

definition table_frames :: "u64 \<Rightarrow> 'a mach_scheme \<Rightarrow> nat set" where
  "table_frames root s = {unat t div 4096 | p t. valid_path p \<and> table_at (pmem s) 3 root p = Some t}"

definition huge_free :: "u64 \<Rightarrow> 'a mach_scheme \<Rightarrow> bool" where
  "huge_free root s \<longleftrightarrow>
     (\<forall>q t j. valid_path q \<longrightarrow> q \<noteq> [] \<longrightarrow> length q < 3 \<longrightarrow> hd q \<noteq> 511 \<longrightarrow> table_at (pmem s) 3 root q = Some t \<longrightarrow> j < 512 \<longrightarrow>
        rd64 (pmem s) (unat t + j * 8) AND 1 \<noteq> 0 \<longrightarrow> rd64 (pmem s) (unat t + j * 8) AND 0x80 = 0)"

text \<open>
  No entry of the top level but the last has the user bit: in user mode the processor refuses an access unless that
  bit is set in the entry of every level.
\<close>

definition top_private :: "u64 \<Rightarrow> 'a mach_scheme \<Rightarrow> bool" where
  "top_private root s \<longleftrightarrow> (\<forall>i < 511. rd64 (pmem s) (unat root + i * 8) AND VMM_FLAG_USER = 0)"

text \<open>At most \<open>k\<close> free frames have become tables, and only bytes of tables have changed.\<close>

definition tables_grow :: "nat \<Rightarrow> u64 \<Rightarrow> 'a mach_scheme \<Rightarrow> 'a mach_scheme \<Rightarrow> bool" where
  "tables_grow k root s s' \<longleftrightarrow>
     free_set s' \<subseteq> free_set s \<and> card (free_set s) \<le> card (free_set s') + k \<and>
     table_frames root s' = table_frames root s \<union> (free_set s - free_set s') \<and>
     (\<forall>x. x div 4096 \<notin> table_frames root s' \<longrightarrow> pmem s' x = pmem s x) \<and>
     (huge_free root s \<longrightarrow> huge_free root s') \<and> (top_private root s \<longrightarrow> top_private root s')"

lemma tables_grow_refl: "tables_grow 0 root s s"
  by (simp add: tables_grow_def)

lemma tables_grow_trans:
  assumes "tables_grow k root s s1" "tables_grow j root s1 s2"
  shows "tables_grow (k + j) root s s2"
  using assms unfolding tables_grow_def by auto

lemma table_framesI: "valid_path p \<Longrightarrow> table_at (pmem s) 3 root p = Some t \<Longrightarrow> unat t div 4096 \<in> table_frames root s"
  by (auto simp: table_frames_def)

lemma in_frame:
  assumes "page_aligned t" and "unat t \<le> x" and "x < unat t + 4096"
  shows "x div 4096 = unat t div 4096"
proof -
  obtain k where "unat t = 4096 * k" using assms(1) by (auto simp: page_aligned_def mod_eq_0_iff_dvd elim: dvdE)
  with assms(2,3) show ?thesis by (simp add: div_nat_eqI)
qed

lemma entry_in_frame:
  "page_aligned t \<Longrightarrow> j < 512 \<Longrightarrow> unat t + j * 8 \<le> x \<Longrightarrow> x < unat t + j * 8 + 8 \<Longrightarrow> x div 4096 = unat t div 4096"
  by (rule in_frame) simp_all

lemma table_entry_no_user: "page_aligned frame \<Longrightarrow> (frame OR 1 OR 2) AND 4 = (0 :: u64)"
proof -
  assume "page_aligned frame"
  then have "unat (frame AND - 4096) = unat frame"
    using div_mult_mod_eq [of "unat frame" 4096] by (simp add: unat_page_mask page_aligned_def)
  then have f: "frame = push_bit 12 (drop_bit 12 frame)" by (simp add: page_mask_push_drop unat_eq_unat_iff)
  have "\<not> bit frame 2" by (subst f) (simp add: bit_simps)
  then have "\<not> bit (frame OR 1 OR 2) 2" by (simp add: bit_simps bit_1_iff)
  moreover have "(4 :: u64) = 2 ^ 2" by simp
  ultimately show ?thesis by (metis and_exp_eq_0_iff_not_bit)
qed

lemma new_table_grows:
  assumes wf: "pt_wf root s" and inv: "pmm_inv s"
    and p: "valid_path p" "length p < 3" "table_at (pmem s) 3 root p = Some t"
    and i: "i < 512" "rd64 (pmem s) (unat t + i * 8) AND 1 = 0"
    and frame: "page_aligned frame" "frame \<noteq> 0" "unat frame div 4096 \<in> free_set s"
    and s2: "pmem s2 = new_table t i frame (pmem s)" "free_set s2 = free_set s - {unat frame div 4096}"
  shows "tables_grow 1 root s s2"
proof -
  note paths = new_table_paths [OF wf p i frame(1,3)]
  have vpi: "valid_path (p @ [i])" using p(1,2) i(1) by (simp add: valid_path_def)
  have t: "page_aligned t" "t \<noteq> frame" using pt_wf_table [OF wf p(1,3)] frame(3) by auto
  have old: "table_at (pmem s) 3 root (p @ [i]) = None"
  proof -
    obtain l where "3 - length p = Suc l" using p(2) by (cases "3 - length p") auto
    with p(3) i(2) show ?thesis by (simp add: table_at_append)
  qed
  have T: "table_frames root s2 = insert (unat frame div 4096) (table_frames root s)"
  proof (intro set_eqI iffI)
    fix f
    assume "f \<in> table_frames root s2"
    then show "f \<in> insert (unat frame div 4096) (table_frames root s)"
      using paths by (auto simp: table_frames_def s2 split: if_splits)
  next
    fix f
    assume "f \<in> insert (unat frame div 4096) (table_frames root s)"
    then show "f \<in> table_frames root s2"
    proof
      assume "f = unat frame div 4096"
      with table_framesI [OF vpi, of s2 root frame] paths [OF vpi] show ?thesis by (simp add: s2)
    next
      assume "f \<in> table_frames root s"
      then obtain q t' where q: "valid_path q" "table_at (pmem s) 3 root q = Some t'" "f = unat t' div 4096"
        by (auto simp: table_frames_def)
      then have "q \<noteq> p @ [i]" using old by auto
      with table_framesI [OF q(1), of s2 root t'] paths [OF q(1)] q show ?thesis by (simp add: s2)
    qed
  qed
  have "pmem s2 x = pmem s x" if x: "x div 4096 \<notin> table_frames root s2" for x
  proof -
    have "unat t div 4096 \<in> table_frames root s2" unfolding T by (rule insertI2 [OF table_framesI [OF p(1,3)]])
    with x have "x div 4096 \<noteq> unat t div 4096" by metis
    then have "\<not> (unat t + i * 8 \<le> x \<and> x < unat t + i * 8 + 8)" using entry_in_frame [OF t(1) i(1)] by blast
    moreover have "\<not> (unat frame \<le> x \<and> x < unat frame + 4096)"
      using in_frame [OF frame(1), of x] x unfolding T by blast
    ultimately show ?thesis by (auto simp: s2 new_table_def wr64_other_byte mem_fill_def)
  qed
  moreover have "huge_free root s2" if h: "huge_free root s"
    unfolding huge_free_def
  proof (intro allI impI)
    fix q t' j
    assume q: "valid_path q" "q \<noteq> []" "length q < 3" "hd q \<noteq> 511" and t': "table_at (pmem s2) 3 root q = Some t'" and j: "j < 512"
      and pr: "rd64 (pmem s2) (unat t' + j * 8) AND 1 \<noteq> 0"
    show "rd64 (pmem s2) (unat t' + j * 8) AND 0x80 = 0"
    proof (cases "t' = frame")
      case True
      with pr t frame(1) i(1) j show ?thesis by (simp add: s2 new_table_cell_zero)
    next
      case False
      then have o: "table_at (pmem s) 3 root q = Some t'" using t' paths [OF q(1)] by (auto simp: s2 split: if_splits)
      have al: "page_aligned t'" by (rule pt_wf_table(1) [OF wf q(1) o])
      show ?thesis
      proof (cases "t' = t \<and> j = i")
        case True
        then have "rd64 (pmem s2) (unat t' + j * 8) = frame OR 1 OR 2" by (simp add: s2 new_table_def)
        with table_entry_bits(3) [OF frame(1)] show ?thesis by simp
      next
        case False
        with new_table_cell_other [OF t(1) al frame(1) i(1) j \<open>t' \<noteq> frame\<close>] s2
        have "rd64 (pmem s2) (unat t' + j * 8) = rd64 (pmem s) (unat t' + j * 8)" by simp
        with h q o j pr show ?thesis unfolding huge_free_def by auto
      qed
    qed
  qed
  moreover have "top_private root s2" if tp: "top_private root s"
    unfolding top_private_def
  proof (intro allI impI)
    fix j :: nat assume j: "j < 511"
    have root: "page_aligned root" "root \<noteq> frame"
      using pt_wf_table [OF wf, of "[]" root] frame(3) by (auto simp: valid_path_def)
    show "rd64 (pmem s2) (unat root + j * 8) AND 4 = 0"
    proof (cases "root = t \<and> j = i")
      case True
      then have "rd64 (pmem s2) (unat root + j * 8) = frame OR 1 OR 2" by (simp add: s2 new_table_def)
      with table_entry_no_user [OF frame(1)] show ?thesis by simp
    next
      case False
      with new_table_cell_other [OF t(1) root(1) frame(1) i(1) _ root(2), of j] j tp show ?thesis
        by (auto simp: s2 top_private_def)
    qed
  qed
  ultimately show ?thesis
    using frame(3) T by (auto simp: tables_grow_def s2 card_Diff_singleton)
qed

lemma vmm_walk_grows:
  assumes "pt_wf root s" and "pmm_inv s" and "l \<le> 3"
    and "table_at (pmem s) 3 root (take (3 - l) (idx_path virt)) = Some t"
    and "vmm_walk l t virt True s = Inr (pte, s')" and "pte \<noteq> 0"
  shows "tables_grow l root s s'"
  using assms
proof (induction l arbitrary: s t)
  case 0
  then show ?case by (simp add: tables_grow_refl)
next
  case (Suc l)
  let ?p = "take (3 - Suc l) (idx_path virt)" and ?i = "level_idx (Suc l) virt"
  have l: "l < 3" using Suc.prems(3) by simp
  have p: "valid_path ?p" "length ?p < 3" "table_at (pmem s) 3 root ?p = Some t"
    using Suc.prems(4) valid_idx_path_take by (simp_all add: idx_path_def)
  have t: "page_aligned t" using pt_wf_table(1) [OF Suc.prems(1) p(1,3)] .
  have i: "unat ?i < 512" by (rule level_idx_less)
  have a: "unat (t + ?i * 8) = unat t + unat ?i * 8" by (rule unat_entry_addr [OF t i])
  let ?e = "rd64 (pmem s) (unat t + unat ?i * 8)"
  note step = idx_path_level [OF l, of virt]
  show ?case
  proof (cases "?e AND 1 = 0")
    case True
    show ?thesis
      using Suc.prems(2)
    proof (cases rule: alloc_pt_frame_cases)
      case oom
      with Suc.prems(5) True show ?thesis by (simp add: a)
    next
      case (frame frame s1)
      let ?s2 = "s1\<lparr>pmem := wr64 (pmem s1) (unat t + unat ?i * 8) (frame OR 1 OR 2)\<rparr>"
      have s2: "pmem ?s2 = new_table t (unat ?i) frame (pmem s)" "free_set ?s2 = free_set s - {unat frame div 4096}"
        using frame by (simp_all add: new_table_def)
      note st = new_table_state [OF Suc.prems(1,2) p i True frame(3,4,5) s2]
      have "vmm_walk l frame virt True ?s2 = Inr (pte, s')" using Suc.prems(5) True frame(1) by (simp add: a)
      with Suc.IH [OF st(1), of frame] st(2) frame(7) Suc.prems(6) l have "tables_grow l root ?s2 s'" by (simp add: step)
      with tables_grow_trans [OF new_table_grows [OF Suc.prems(1,2) p i True frame(3,4,5) s2]] show ?thesis by simp
    qed
  next
    case False
    have nh: "\<not> (Suc l \<noteq> 3 \<and> ?e AND 0x80 \<noteq> 0)" using Suc.prems(5,6) False by (auto simp: a split: if_splits)
    with Suc.prems(5) False have w: "vmm_walk l (?e AND - 4096) virt True s = Inr (pte, s')" by (auto simp: a)
    have "3 - length ?p = Suc l" using l by (simp add: idx_path_def)
    with p(3) False nh have "table_at (pmem s) 3 root (take (3 - l) (idx_path virt)) = Some (?e AND - 4096)"
      unfolding step by (auto simp: table_at_append Let_def)
    from Suc.IH [OF Suc.prems(1,2) _ this w Suc.prems(6)] l have "tables_grow l root s s'" by simp
    then show ?thesis by (simp add: tables_grow_def)
  qed
qed

text \<open>Mapping a page: what the tables and the memory look like afterwards.\<close>

lemma vmm_map_grows:
  assumes wf: "pt_wf root s" and inv: "pmm_inv s" and ok: "vmm_map_in_pml4 root virt phys flags s = Inr s'"
  shows "tables_grow 3 root s s'"
proof -
  let ?x = "(phys AND PAGE_MASK) OR flags OR VMM_FLAG_PRESENT"
  from ok obtain pte s1 where w: "vmm_walk 3 root virt True s = Inr (pte, s1)" and nz: "pte \<noteq> 0"
    and s': "s' = s1\<lparr>pmem := wr64 (pmem s1) (unat pte) ?x\<rparr>"
    by (auto simp: vmm_map_in_pml4_def vmm_get_pte_pml4_phys_def pte_store_def split: sum.splits prod.splits if_splits)
  from vmm_walk_create [OF wf inv, of 3 virt root, simplified, OF w nz]
  obtain t where s1: "pt_wf root s1" and t: "table_at (pmem s1) 3 root (idx_path virt) = Some t" "pte = t + PT_IDX virt * 8" by blast
  have g: "tables_grow 3 root s s1" by (rule vmm_walk_grows [OF wf inv _ _ w nz]) simp_all
  have p': "pmem s' = wr64 (pmem s1) (unat (t + PT_IDX virt * 8)) ?x" "free_set s' = free_set s1" using s' t(2) by simp_all
  note paths = pte_write(3) [OF s1 t(1) p']
  note tab = pt_wf_table [OF s1 idx_path_valid t(1)]
  have a: "unat (t + PT_IDX virt * 8) = unat t + unat (PT_IDX virt) * 8" by (rule unat_entry_addr [OF tab(1) PT_IDX_less])
  have T: "table_frames root s' = table_frames root s1" by (simp add: table_frames_def paths cong: conj_cong)
  have "pmem s' x = pmem s1 x" if x: "x div 4096 \<notin> table_frames root s1" for x
  proof -
    have "x div 4096 \<noteq> unat t div 4096" using x table_framesI [OF idx_path_valid t(1)] by metis
    then show ?thesis
      using entry_in_frame [OF tab(1) PT_IDX_less, of virt x] unfolding p'(1) a by (intro wr64_other_byte) linarith
  qed
  moreover have "huge_free root s'" if h: "huge_free root s1"
    unfolding huge_free_def
  proof (intro allI impI)
    fix q t' j
    assume q: "valid_path q" "q \<noteq> []" "length q < 3" "hd q \<noteq> 511" and t': "table_at (pmem s') 3 root q = Some t'" and j: "j < 512"
      and pr: "rd64 (pmem s') (unat t' + j * 8) AND 1 \<noteq> 0"
    have o: "table_at (pmem s1) 3 root q = Some t'" using t' paths [OF q(1)] by simp
    have "t' \<noteq> t" using pt_wf_inj [OF s1 q(1) idx_path_valid o] t(1) q(3) by (auto simp: idx_path_def)
    then have "\<not> (unat t = unat t' \<and> unat (PT_IDX virt) = j)" by (auto simp: unat_eq_unat_iff)
    with pt_wf_table(4) [OF s1 q(1) o] tab(4) PT_IDX_less [of virt] j
    have "rd64 (pmem s') (unat t' + j * 8) = rd64 (pmem s1) (unat t' + j * 8)"
      unfolding p'(1) a by (intro rd64_wr64_other entry_disjoint) auto
    with h q o j pr show "rd64 (pmem s') (unat t' + j * 8) AND 0x80 = 0" unfolding huge_free_def by auto
  qed
  moreover have "top_private root s'" if tp: "top_private root s1"
    unfolding top_private_def
  proof (intro allI impI)
    fix j :: nat assume j: "j < 511"
    have r: "valid_path []" "table_at (pmem s1) 3 root [] = Some root" by (simp_all add: valid_path_def)
    have "root \<noteq> t" using pt_wf_inj [OF s1 r(1) idx_path_valid r(2)] t(1) by (auto simp: idx_path_def)
    then have "\<not> (unat t = unat root \<and> unat (PT_IDX virt) = j)" by (auto simp: unat_eq_unat_iff)
    with pt_wf_table(4) [OF s1 r] tab(4) PT_IDX_less [of virt] j
    have "rd64 (pmem s') (unat root + j * 8) = rd64 (pmem s1) (unat root + j * 8)"
      unfolding p'(1) a by (intro rd64_wr64_other entry_disjoint) auto
    with tp j show "rd64 (pmem s') (unat root + j * 8) AND 4 = 0" by (simp add: top_private_def)
  qed
  ultimately have "tables_grow 0 root s1 s'" using T p'(2) by (simp add: tables_grow_def)
  from tables_grow_trans [OF g this] show ?thesis by simp
qed

section \<open>The address space as a memory\<close>

text \<open>The part of the address space that belongs to the program: everything but the top 512 GiB.\<close>

definition user_va :: "u64 \<Rightarrow> bool" where
  "user_va v \<longleftrightarrow> PML4_IDX v \<noteq> 511"

definition mapped :: "u64 \<Rightarrow> 'a mach_scheme \<Rightarrow> u64 \<Rightarrow> bool" where
  "mapped root s v \<longleftrightarrow> pte_of root v (pmem s) AND 1 \<noteq> 0"

definition vframe :: "u64 \<Rightarrow> 'a mach_scheme \<Rightarrow> u64 \<Rightarrow> nat" where
  "vframe root s v = unat (pte_of root v (pmem s)) div 4096"

text \<open>
  The pages of a program lie in frames of their own: managed by the allocator, not free, not holding a table, and no frame is behind two
  pages. The tables on the way hold no huge pages, and the user bit is missing in the top level.
\<close>

definition space_ok :: "u64 \<Rightarrow> 'a mach_scheme \<Rightarrow> bool" where
  "space_ok root s \<longleftrightarrow>
     pt_wf root s \<and> pmm_inv s \<and> huge_free root s \<and> top_private root s \<and>
     (\<forall>v. user_va v \<longrightarrow> mapped root s v \<longrightarrow>
        vframe root s v \<in> {1..<MAX_FRAMES} \<and> vframe root s v \<notin> free_set s \<and> vframe root s v \<notin> table_frames root s) \<and>
     (\<forall>v w. user_va v \<longrightarrow> user_va w \<longrightarrow> mapped root s v \<longrightarrow> mapped root s w \<longrightarrow>
        vframe root s v = vframe root s w \<longrightarrow> vpage v = vpage w)"

text \<open>What a program reads at an address.\<close>

definition uread :: "u64 \<Rightarrow> 'a mach_scheme \<Rightarrow> u64 \<Rightarrow> u8 option" where
  "uread root s v = (if mapped root s v then Some (pmem s (vframe root s v * 4096 + unat v mod 4096)) else None)"

lemma space_okD:
  assumes "space_ok root s"
  shows "pt_wf root s" "pmm_inv s" "huge_free root s"
    and "user_va v \<Longrightarrow> mapped root s v \<Longrightarrow> vframe root s v \<in> {1..<MAX_FRAMES}"
    and "user_va v \<Longrightarrow> mapped root s v \<Longrightarrow> vframe root s v \<notin> free_set s"
    and "user_va v \<Longrightarrow> mapped root s v \<Longrightarrow> vframe root s v \<notin> table_frames root s"
    and "user_va v \<Longrightarrow> user_va w \<Longrightarrow> mapped root s v \<Longrightarrow> mapped root s w \<Longrightarrow> vframe root s v = vframe root s w \<Longrightarrow> vpage v = vpage w"
    and "top_private root s"
  using assms unfolding space_ok_def by blast+

lemma space_okI:
  assumes "pt_wf root s" "pmm_inv s" "huge_free root s" "top_private root s"
    and "\<And>v. user_va v \<Longrightarrow> mapped root s v \<Longrightarrow> vframe root s v \<in> {1..<MAX_FRAMES}"
    and "\<And>v. user_va v \<Longrightarrow> mapped root s v \<Longrightarrow> vframe root s v \<notin> free_set s"
    and "\<And>v. user_va v \<Longrightarrow> mapped root s v \<Longrightarrow> vframe root s v \<notin> table_frames root s"
    and "\<And>v w. user_va v \<Longrightarrow> user_va w \<Longrightarrow> mapped root s v \<Longrightarrow> mapped root s w \<Longrightarrow> vframe root s v = vframe root s w \<Longrightarrow> vpage v = vpage w"
  shows "space_ok root s"
  using assms unfolding space_ok_def by blast

lemma user_va_no_huge:
  assumes "huge_free root s" "user_va v"
  shows "no_huge root v (pmem s)"
proof -
  have hd511: "unat (PML4_IDX v) \<noteq> 511"
    using assms(2) unfolding user_va_def word_unat_eq_iff by simp
  have "rd64 (pmem s) (unat t + idx_path v ! k * 8) AND 0x80 = 0"
    if k: "k = 1 \<or> k = 2" and t: "table_at (pmem s) 3 root (take k (idx_path v)) = Some t"
      and pr: "rd64 (pmem s) (unat t + idx_path v ! k * 8) AND 1 \<noteq> 0" for k t
  proof -
    have "valid_path (take k (idx_path v))" by (rule valid_idx_path_take)
    moreover have "take k (idx_path v) \<noteq> []" "length (take k (idx_path v)) < 3" "hd (take k (idx_path v)) \<noteq> 511" "idx_path v ! k < 512"
      using k hd511 by (auto simp: idx_path_def PDPT_IDX_def PD_IDX_def and_1FF_less)
    ultimately show ?thesis using assms(1) t pr unfolding huge_free_def by blast
  qed
  then show ?thesis unfolding no_huge_def by blast
qed

lemma or_offset: "unat ((e AND - 4096) OR (v AND 4095) :: u64) = unat e div 4096 * 4096 + unat v mod 4096"
proof -
  have "(e AND - 4096) OR (v AND 4095) = (e AND - 4096) + (v AND 4095)"
    by (rule disjunctive_add [symmetric]) (auto simp: bit_simps page_mask_push_drop page_mask_eq_mask)
  moreover have "unat (v AND 4095) = unat v mod 4096"
    unfolding page_mask_eq_mask take_bit_eq_mask [symmetric] by (simp add: take_bit_eq_mod unat_mod)
  moreover have "unat (e AND - 4096) = unat e div 4096 * 4096" by (rule unat_page_mask)
  moreover have "unat e div 4096 * 4096 + unat v mod 4096 < 2 ^ 64"
    using page_aligned_bound [of "e AND - 4096"] unat_page_mask [of e] mod_less_divisor [of 4096 "unat v"] by simp
  ultimately show ?thesis by (simp add: unat_word_ariths)
qed

lemma lookup_mapped:
  assumes "pt_wf root s"
  shows "unat (vmm_lookup_phys_pml4 root v s) = (if mapped root s v then vframe root s v * 4096 + unat v mod 4096 else 0)"
  by (simp add: lookup_of_pte [OF assms] translate_def mapped_def vframe_def or_offset)

text \<open>Bytes outside the tables do not matter for the translation.\<close>

lemma outside_tables:
  assumes wf: "pt_wf root s" and same: "\<forall>x. x div 4096 \<in> table_frames root s \<longrightarrow> pmem s' x = pmem s x"
    and free: "free_set s' \<subseteq> free_set s"
  shows "pt_wf root s'" "pte_of root v (pmem s') = pte_of root v (pmem s)" "table_frames root s' = table_frames root s"
    and "huge_free root s' = huge_free root s" "top_private root s' = top_private root s"
proof -
  have cell: "rd64 (pmem s') (unat t + j * 8) = rd64 (pmem s) (unat t + j * 8)"
    if "valid_path q" "table_at (pmem s) 3 root q = Some t" "j < 512" for q t j
  proof (rule rd64_cong)
    fix x assume "unat t + j * 8 \<le> x" "x < unat t + j * 8 + 8"
    with entry_in_frame [OF pt_wf_table(1) [OF wf that(1,2)] that(3)] table_framesI [OF that(1,2)]
    show "pmem s' x = pmem s x" by (intro same [rule_format]) simp
  qed
  have paths: "table_at (pmem s') 3 root q = table_at (pmem s) 3 root q" if q: "valid_path q" for q
  proof (rule table_at_cong)
    show "page_aligned root" using wf by (simp add: pt_wf_def)
    fix q' r j t'
    assume "q = q' @ j # r" and t': "table_at (pmem s) 3 root q' = Some t'"
    with q have "valid_path q'" "j < 512" by (auto simp: valid_path_def)
    with cell t' show "rd64 (pmem s') (unat t' + j * 8) = rd64 (pmem s) (unat t' + j * 8)" by blast
  qed
  show "pt_wf root s'"
    using wf free unfolding pt_wf_def by (auto simp: paths)
  show "pte_of root v (pmem s') = pte_of root v (pmem s)"
    using cell [OF idx_path_valid _ PT_IDX_less, of v] by (simp add: pte_of_def paths split: option.splits)
  show "table_frames root s' = table_frames root s" by (simp add: table_frames_def paths cong: conj_cong)
  show "huge_free root s' = huge_free root s"
    unfolding huge_free_def using cell by (auto simp: paths)
  show "top_private root s' = top_private root s"
    using cell [of "[]" root] by (simp add: top_private_def valid_path_def)
qed

lemma tables_not_free: "pt_wf root s \<Longrightarrow> f \<in> table_frames root s \<Longrightarrow> f \<notin> free_set s"
  by (auto simp: table_frames_def dest: pt_wf_table(3))

lemma vmm_map_succeeds:
  assumes "space_ok root s" and "user_va va" and "3 \<le> card (free_set s)"
  shows "\<exists>s'. vmm_map_in_pml4 root va phys flags s = Inr s'"
proof -
  note wf = space_okD(1) [OF assms(1)]
  have "table_at (pmem s) 3 root (take (3 - 3) (idx_path va)) = Some root" by simp
  from vmm_walk_create_succeeds [OF wf space_okD(2) [OF assms(1)] order.refl assms(3) this
      no_huge_path_clear [OF user_va_no_huge [OF space_okD(3) [OF assms(1)] assms(2)]]]
  obtain pte s1 where "vmm_walk 3 root va True s = Inr (pte, s1)" "pte \<noteq> 0" by blast
  then show ?thesis by (simp add: vmm_map_in_pml4_def vmm_get_pte_pml4_phys_def pte_store_def)
qed

text \<open>A free frame can be taken and overwritten without the program noticing.\<close>

lemma space_ok_take:
  assumes ok: "space_ok root s" and f: "f \<in> free_set s"
    and s': "free_set s' = free_set s - {f}" "pmm_inv s'" "\<forall>x. x div 4096 \<noteq> f \<longrightarrow> pmem s' x = pmem s x"
  shows "space_ok root s'" "user_va v \<Longrightarrow> uread root s' v = uread root s v" "table_frames root s' = table_frames root s"
    "pte_of root v (pmem s') = pte_of root v (pmem s)"
proof -
  have same: "\<forall>x. x div 4096 \<in> table_frames root s \<longrightarrow> pmem s' x = pmem s x"
    using tables_not_free [OF space_okD(1) [OF ok]] f s'(3) by metis
  have fr: "free_set s' \<subseteq> free_set s" using s'(1) by auto
  have out: "pt_wf root s'" "pte_of root w (pmem s') = pte_of root w (pmem s)" "table_frames root s' = table_frames root s"
    "huge_free root s' = huge_free root s" "top_private root s' = top_private root s" for w
    using outside_tables [OF space_okD(1) [OF ok] same fr] by simp_all
  have m: "mapped root s' = mapped root s" "vframe root s' = vframe root s"
    by (simp_all add: fun_eq_iff mapped_def vframe_def out(2))
  show "space_ok root s'"
  proof (rule space_okI)
    show "huge_free root s'" "top_private root s'" using out(4,5) space_okD(3,8) [OF ok] by simp_all
    show "vframe root s' v \<notin> free_set s'" if "user_va v" "mapped root s' v" for v
      using space_okD(5) [OF ok, of v] that fr by (auto simp: m)
    show "pt_wf root s'" by (rule out(1))
    show "pmm_inv s'" by (rule s'(2))
    show "vframe root s' v \<in> {1..<MAX_FRAMES}" "vframe root s' v \<notin> table_frames root s'" if "user_va v" "mapped root s' v" for v
      using space_okD(4,6) [OF ok, of v] that by (simp_all add: m out(3))
    show "vpage v = vpage w"
      if "user_va v" "user_va w" "mapped root s' v" "mapped root s' w" "vframe root s' v = vframe root s' w" for v w
      using space_okD(7) [OF ok that(1,2)] that(3-5) by (simp add: m)
  qed
  show "uread root s' v = uread root s v" if v: "user_va v"
  proof (cases "mapped root s v")
    case True
    from space_okD(5) [OF ok v True] f have "vframe root s v \<noteq> f" by auto
    then have "(vframe root s v * 4096 + unat v mod 4096) div 4096 \<noteq> f" by simp
    with s'(3) show ?thesis by (simp add: uread_def m)
  qed (simp add: uread_def m)
  show "table_frames root s' = table_frames root s" "pte_of root v (pmem s') = pte_of root v (pmem s)"
    using out(2,3) by simp_all
qed

lemma new_entry_frame:
  assumes "page_aligned pg" and "flags AND - 4096 = 0"
  shows "unat ((pg AND - 4096) OR flags OR 1 :: u64) div 4096 = unat pg div 4096"
proof -
  have "((pg AND - 4096) OR flags OR 1) AND - 4096 = pg AND (- 4096 :: u64)"
    using assms(2) by (simp add: bit.conj_disj_distrib2 and.assoc)
  from arg_cong [OF this, of unat] show ?thesis by (simp add: unat_page_mask)
qed

lemma new_entry_present: "((pg AND - 4096) OR flags OR 1 :: u64) AND 1 \<noteq> 0"
  by (auto dest!: arg_cong [where f = "\<lambda>w. bit w 0"] simp: bit_simps)

text \<open>Mapping a frame that no page has, and that is neither free nor a table.\<close>

lemma map_frame:
  assumes ok: "space_ok root s" and va: "user_va va" and fl: "flags AND - 4096 = 0"
    and pg: "page_aligned pg" "unat pg div 4096 = f" "f \<in> {1..<MAX_FRAMES}" "f \<notin> free_set s" "f \<notin> table_frames root s"
      "\<forall>v. user_va v \<longrightarrow> mapped root s v \<longrightarrow> vframe root s v \<noteq> f"
    and run: "vmm_map_in_pml4 root va pg flags s = Inr s'"
  shows "space_ok root s'" "card (free_set s) \<le> card (free_set s') + 3"
    and "user_va v \<Longrightarrow> uread root s' v =
      (if vpage v = vpage va then Some (pmem s (f * 4096 + unat v mod 4096)) else uread root s v)"
proof -
  let ?x = "(pg AND - 4096) OR flags OR 1 :: u64"
  note wf = space_okD(1) [OF ok] and inv = space_okD(2) [OF ok]
  note pt = vmm_map_in_pml4_ptes [OF wf inv run]
  from vmm_map_grows [OF wf inv run] have g: "free_set s' \<subseteq> free_set s" "card (free_set s) \<le> card (free_set s') + 3"
      "table_frames root s' = table_frames root s \<union> (free_set s - free_set s')" "huge_free root s'" "top_private root s'"
    and mem: "x div 4096 \<notin> table_frames root s' \<Longrightarrow> pmem s' x = pmem s x" for x
    using space_okD(3,8) [OF ok] by (auto simp: tables_grow_def)
  have pte: "pte_of root v (pmem s') = (if vpage v = vpage va then ?x else pte_of root v (pmem s))" for v
    using pt by (simp add: ptes_updated_def)
  have m: "mapped root s' v = (vpage v = vpage va \<or> mapped root s v)"
    and vf: "vframe root s' v = (if vpage v = vpage va then f else vframe root s v)" for v
    using new_entry_present [of pg flags] new_entry_frame [OF pg(1) fl] pg(2) by (auto simp: mapped_def vframe_def pte)
  have fT: "f \<notin> table_frames root s'" using pg(4,5) g(3) by auto
  have oldT: "vframe root s v \<notin> table_frames root s'" if "user_va v" "mapped root s v" for v
    using space_okD(5,6) [OF ok that] g(3) by auto
  show "space_ok root s'"
  proof (rule space_okI)
    show "pt_wf root s'" "pmm_inv s'" "huge_free root s'" "top_private root s'" using pt g(4,5) by simp_all
    show "vframe root s' v \<in> {1..<MAX_FRAMES}" "vframe root s' v \<notin> free_set s'" "vframe root s' v \<notin> table_frames root s'"
      if "user_va v" "mapped root s' v" for v
      using space_okD(4,5) [OF ok that(1)] that oldT fT pg(3,4) g(1) by (auto simp: m vf)
    show "vpage v = vpage w"
      if "user_va v" "user_va w" "mapped root s' v" "mapped root s' w" "vframe root s' v = vframe root s' w" for v w
      using space_okD(7) [OF ok that(1,2)] that pg(6) by (auto simp: m vf split: if_splits)
  qed
  show "card (free_set s) \<le> card (free_set s') + 3" by (rule g(2))
  have fr: "(h * 4096 + unat v mod 4096) div 4096 = h" for h v by simp
  show "uread root s' v = (if vpage v = vpage va then Some (pmem s (f * 4096 + unat v mod 4096)) else uread root s v)" if "user_va v"
    using mem [of "f * 4096 + unat v mod 4096"] mem [of "vframe root s v * 4096 + unat v mod 4096"] fT oldT [OF that]
    by (auto simp: uread_def m vf fr)
qed

text \<open>One fresh page.\<close>

lemma map_page_space:
  assumes ok: "space_ok root s" and va: "user_va va" and fl: "flags AND - 4096 = 0" and room: "4 \<le> card (free_set s)"
  shows "\<exists>s'. map_page True root va flags s = Inr (True, s') \<and> space_ok root s' \<and> card (free_set s) \<le> card (free_set s') + 4 \<and>
    (\<forall>v. user_va v \<longrightarrow> uread root s' v = (if vpage v = vpage va then Some 0 else uread root s v))"
  using space_okD(2) [OF ok]
proof (cases rule: pa.alloc_cases)
  case empty
  with room show ?thesis by simp
next
  case (frame f s1)
  let ?pg = "of_nat f * 4096 :: u64"
  have pg: "unat ?pg = f * 4096" by (rule pa.frame_addr [OF frame(4)])
  then have al: "page_aligned ?pg" "?pg \<noteq> 0" using frame(3) by (auto simp: page_aligned_def)
  define s2 where "s2 = s1\<lparr>pmem := mem_fill (pmem s1) (unat ?pg) 4096 0\<rparr>"
  have pm: "pmem s1 = pmem s" using pmm_alloc_pmem(1) [of s] frame(1) by simp
  have s2: "free_set s2 = free_set s - {f}" "pmm_inv s2" using frame(5,7) by (simp_all add: s2_def)
  have out: "\<forall>x. x div 4096 \<noteq> f \<longrightarrow> pmem s2 x = pmem s x"
    using in_frame [OF al(1)] by (auto simp: s2_def pm mem_fill_def pg)
  note t = space_ok_take [OF ok frame(2) s2 out]
  have c2: "card (free_set s2) = card (free_set s) - 1" using frame(2) by (simp add: s2 card_Diff_singleton)
  then have "3 \<le> card (free_set s2)" using room by linarith
  from vmm_map_succeeds [OF t(1) va this, of ?pg flags] obtain s' where run: "vmm_map_in_pml4 root va ?pg flags s2 = Inr s'" by blast
  have nf: "f \<notin> free_set s2" "f \<notin> table_frames root s2"
    using s2(1) t(3) tables_not_free [OF space_okD(1) [OF ok]] frame(2) by auto
  have nu: "\<forall>v. user_va v \<longrightarrow> mapped root s2 v \<longrightarrow> vframe root s2 v \<noteq> f"
  proof (intro allI impI)
    fix v assume v: "user_va v" "mapped root s2 v"
    have "mapped root s v" "vframe root s2 v = vframe root s v" using v(2) t(4) [of v] by (simp_all add: mapped_def vframe_def)
    with space_okD(5) [OF ok v(1)] frame(2) show "vframe root s2 v \<noteq> f" by auto
  qed
  have pf: "unat ?pg div 4096 = f" "f \<in> {1..<MAX_FRAMES}" using pg frame(3,4) by simp_all
  note m = map_frame [OF t(1) va fl al(1) pf nf nu run]
  have "pmem s2 (f * 4096 + unat v mod 4096) = 0" for v :: u64 by (simp add: s2_def mem_fill_def pg)
  with m(3) t(2) have "uread root s' v = (if vpage v = vpage va then Some 0 else uread root s v)" if "user_va v" for v
    using that by simp
  moreover have "map_page True root va flags s = Inr (True, s')" using frame(1) al(2) run by (simp add: map_page_def s2_def)
  ultimately show ?thesis using m(1,2) frame(3) c2 room by auto
qed

text \<open>One byte.\<close>

lemma page_offset_eq: "(A :: nat) * 4096 + x mod 4096 = B * 4096 + y mod 4096 \<longleftrightarrow> A = B \<and> x mod 4096 = y mod 4096"
proof
  assume h: "A * 4096 + x mod 4096 = B * 4096 + y mod 4096"
  from arg_cong [OF h, of "\<lambda>n. n div 4096"] have "A = B" by simp
  with h show "A = B \<and> x mod 4096 = y mod 4096" by simp
qed simp

lemma store_byte_space:
  assumes ok: "space_ok root s" and va: "user_va va" "mapped root s va"
    and s': "s' = s\<lparr>pmem := (pmem s)(unat (vmm_lookup_phys_pml4 root va s) := b)\<rparr>"
  shows "space_ok root s'" "free_set s' = free_set s"
    and "user_va v \<Longrightarrow> uread root s' v = (if vpage v = vpage va \<and> unat v mod 4096 = unat va mod 4096 then Some b else uread root s v)"
proof -
  let ?x = "vframe root s va * 4096 + unat va mod 4096"
  have x: "unat (vmm_lookup_phys_pml4 root va s) = ?x" using va(2) by (simp add: lookup_mapped [OF space_okD(1) [OF ok]])
  have fr: "(h * 4096 + unat v mod 4096) div 4096 = h" for h v by simp
  have same: "pmem s' y = pmem s y" if "y \<noteq> ?x" for y using that by (simp add: s' x)
  have tab: "\<forall>y. y div 4096 \<in> table_frames root s \<longrightarrow> pmem s' y = pmem s y"
    using space_okD(6) [OF ok va] fr same by metis
  show free: "free_set s' = free_set s" by (simp add: s')
  have out: "pt_wf root s'" "pte_of root w (pmem s') = pte_of root w (pmem s)" "table_frames root s' = table_frames root s"
    "huge_free root s' = huge_free root s" "top_private root s' = top_private root s" for w
    using outside_tables [OF space_okD(1) [OF ok] tab] free by auto
  have m: "mapped root s' = mapped root s" "vframe root s' = vframe root s"
    by (simp_all add: fun_eq_iff mapped_def vframe_def out(2))
  have inv: "pmm_inv s'" using space_okD(2) [OF ok] by (simp add: s')
  show "space_ok root s'"
  proof (rule space_okI)
    show "huge_free root s'" "top_private root s'" using out(4,5) space_okD(3,8) [OF ok] by simp_all
    show "vframe root s' v \<in> {1..<MAX_FRAMES}" "vframe root s' v \<notin> free_set s'" "vframe root s' v \<notin> table_frames root s'"
      if "user_va v" "mapped root s' v" for v
      using space_okD(4-6) [OF ok, of v] that by (simp_all add: m out(3) free)
    show "vpage v = vpage w"
      if "user_va v" "user_va w" "mapped root s' v" "mapped root s' w" "vframe root s' v = vframe root s' w" for v w
      using space_okD(7) [OF ok that(1,2)] that(3-5) by (simp add: m)
  qed (fact out(1), fact inv)
  show "uread root s' v = (if vpage v = vpage va \<and> unat v mod 4096 = unat va mod 4096 then Some b else uread root s v)" if v: "user_va v"
  proof (cases "mapped root s v")
    case True
    have vv: "vframe root s v = vframe root s va \<longleftrightarrow> vpage v = vpage va"
    proof
      show "vpage v = vpage va" if "vframe root s v = vframe root s va" by (rule space_okD(7) [OF ok v va(1) True va(2) that])
      show "vframe root s v = vframe root s va" if "vpage v = vpage va" unfolding vframe_def pte_of_same_page [OF that] ..
    qed
    have "vframe root s v * 4096 + unat v mod 4096 = ?x \<longleftrightarrow> vpage v = vpage va \<and> unat v mod 4096 = unat va mod 4096"
      unfolding page_offset_eq vv ..
    moreover have "pmem s' = (pmem s)(?x := b)" by (simp add: s' x)
    ultimately show ?thesis using True unfolding uread_def m by simp
  next
    case False
    then have "vpage v \<noteq> vpage va" using va(2) pte_of_same_page [of v va root "pmem s"] by (auto simp: mapped_def)
    with False show ?thesis by (simp add: uread_def m)
  qed
qed

section \<open>Loops over user memory\<close>

text \<open>Addresses in the lower half, where bits 12 to 47 number the pages.\<close>

definition low_va :: "u64 \<Rightarrow> bool" where
  "low_va v \<longleftrightarrow> unat v < 2 ^ 47"

lemma low_va_page: "low_va v \<Longrightarrow> vpage v = unat v div 4096"
  by (simp add: low_va_def vpage_def less_mult_imp_div_less)

lemma low_va_user: "low_va v \<Longrightarrow> user_va v"
proof -
  assume v: "low_va v"
  have "unat (PML4_IDX v) = unat v div 2 ^ 39 mod 512" by (simp add: PML4_IDX_def unat_idx)
  moreover have "unat v div 2 ^ 39 < 256" using v by (simp add: low_va_def less_mult_imp_div_less)
  ultimately have "unat (PML4_IDX v) < 256" by simp
  then show ?thesis by (auto simp: user_va_def)
qed

lemma unat_add_small: "unat v + k < 2 ^ 64 \<Longrightarrow> unat (v + of_nat k :: u64) = unat v + k"
  by (simp add: unat_word_ariths unat_of_nat)

lemma map_fresh_space:
  assumes "space_ok root s" and "flags AND - 4096 = 0" and "4 * n \<le> card (free_set s)"
    and "unat va mod 4096 = 0" and "unat va + n * 4096 \<le> 2 ^ 47"
  shows "\<exists>s'. map_fresh True n root va flags s = Inr (True, s') \<and> space_ok root s' \<and> card (free_set s) \<le> card (free_set s') + 4 * n \<and>
    (\<forall>v. low_va v \<longrightarrow> uread root s' v = (if unat va \<le> unat v \<and> unat v < unat va + n * 4096 then Some 0 else uread root s v))"
  using assms
proof (induction n arbitrary: va s)
  case (Suc n)
  have lo: "low_va va" using Suc.prems(5) by (simp add: low_va_def)
  from map_page_space [OF Suc.prems(1) low_va_user [OF lo] Suc.prems(2)] Suc.prems(3)
  obtain s1 where s1: "map_page True root va flags s = Inr (True, s1)" "space_ok root s1" "card (free_set s) \<le> card (free_set s1) + 4"
    "\<forall>v. user_va v \<longrightarrow> uread root s1 v = (if vpage v = vpage va then Some 0 else uread root s v)" by auto
  have nx: "unat (va + 4096) = unat va + 4096" using unat_add_small [of va 4096] Suc.prems(5) by simp
  from Suc.IH [OF s1(2) Suc.prems(2), of "va + 4096"] s1(3) Suc.prems(3-5)
  obtain s' where s': "map_fresh True n root (va + 4096) flags s1 = Inr (True, s')" "space_ok root s'"
    "card (free_set s1) \<le> card (free_set s') + 4 * n"
    "\<forall>v. low_va v \<longrightarrow> uread root s' v = (if unat va + 4096 \<le> unat v \<and> unat v < unat va + 4096 + n * 4096 then Some 0 else uread root s1 v)"
    by (auto simp: nx)
  have pg: "vpage v = vpage va \<longleftrightarrow> unat va \<le> unat v \<and> unat v < unat va + 4096" if "low_va v" for v
  proof -
    obtain k where k: "unat va = 4096 * k" using Suc.prems(4) by (auto simp: mod_eq_0_iff_dvd elim: dvdE)
    have "unat v div 4096 = k \<longleftrightarrow> 4096 * k \<le> unat v \<and> unat v < 4096 * k + 4096" by (auto simp: div_nat_eqI)
    then show ?thesis using k by (simp add: low_va_page [OF that] low_va_page [OF lo])
  qed
  have "uread root s' v = (if unat va \<le> unat v \<and> unat v < unat va + Suc n * 4096 then Some 0 else uread root s v)" if "low_va v" for v
    using s'(4) s1(4) low_va_user [OF that] pg [OF that] that by auto
  with s1 s' show ?case by auto
qed auto

lemma copy_space:
  assumes "space_ok root s" and "unat va + length bs \<le> 2 ^ 47"
    and "\<forall>v :: u64. unat va \<le> unat v \<longrightarrow> unat v < unat va + length bs \<longrightarrow> uread root s v \<noteq> None"
  shows "\<exists>s'. vnl_copy_to_user_va root va (bs @ rest) (length bs) s = Inr s' \<and> space_ok root s' \<and> free_set s' = free_set s \<and>
    (\<forall>v. low_va v \<longrightarrow> uread root s' v =
       (if unat va \<le> unat v \<and> unat v < unat va + length bs then Some (bs ! (unat v - unat va)) else uread root s v))"
  using assms
proof (induction bs arbitrary: va s)
  case (Cons b bs)
  have lo: "low_va va" using Cons.prems(2) by (simp add: low_va_def)
  note u = low_va_user [OF lo]
  have mp: "mapped root s va" using Cons.prems(3) [rule_format, of va] by (auto simp: uread_def split: if_splits)
  define s1 where "s1 = s\<lparr>pmem := (pmem s)(unat (vmm_lookup_phys_pml4 root va s) := b)\<rparr>"
  note st = store_byte_space [OF Cons.prems(1) u mp s1_def]
  have pa: "vmm_lookup_phys_pml4 root va s \<noteq> 0"
    using lookup_mapped [OF space_okD(1) [OF Cons.prems(1)], of va] mp space_okD(4) [OF Cons.prems(1) u mp] by auto
  have nx: "unat (va + 1) = unat va + 1" using unat_add_small [of va 1] Cons.prems(2) by simp
  have at: "vpage v = vpage va \<and> unat v mod 4096 = unat va mod 4096 \<longleftrightarrow> unat v = unat va" if "low_va v" for v
    unfolding low_va_page [OF that] low_va_page [OF lo] by (metis div_mult_mod_eq)
  have rd: "uread root s1 v = (if unat v = unat va then Some b else uread root s v)" if "low_va v" for v
    using st(3) [OF low_va_user [OF that]] at [OF that] by simp
  have "\<forall>v :: u64. unat (va + 1) \<le> unat v \<longrightarrow> unat v < unat (va + 1) + length bs \<longrightarrow> uread root s1 v \<noteq> None"
  proof (intro allI impI)
    fix v :: u64 assume v: "unat (va + 1) \<le> unat v" "unat v < unat (va + 1) + length bs"
    then have "low_va v" using Cons.prems(2) nx by (simp add: low_va_def)
    with rd Cons.prems(3) v nx show "uread root s1 v \<noteq> None" by simp
  qed
  from Cons.IH [OF st(1) _ this] Cons.prems(2) nx
  obtain s' where s': "vnl_copy_to_user_va root (va + 1) (bs @ rest) (length bs) s1 = Inr s'" "space_ok root s'" "free_set s' = free_set s1"
    "\<forall>v. low_va v \<longrightarrow> uread root s' v =
       (if unat va + 1 \<le> unat v \<and> unat v < unat va + 1 + length bs then Some (bs ! (unat v - (unat va + 1))) else uread root s1 v)"
    by auto
  have "uread root s' v = (if unat va \<le> unat v \<and> unat v < unat va + length (b # bs) then Some ((b # bs) ! (unat v - unat va))
      else uread root s v)" if "low_va v" for v
    using s'(4) [rule_format, OF that] rd [OF that] by (auto simp: nth_Cons')
  with s' st(2) pa show ?case by (simp add: s1_def [symmetric])
qed auto

section \<open>A new address space\<close>

lemma table_at_Cons:
  "table_at m 3 t (i # is) =
     (let e = rd64 m (unat t + i * 8) in if e AND 1 = 0 then None else table_at m 2 (e AND - 4096) is)"
  using table_at.simps(3) [of m 2 t i "is"] by (simp add: Let_def)

lemma uspace_create_space:
  assumes wf: "pt_wf (cr3 s) s" and inv: "pmm_inv s" and room: "free_set s \<noteq> {}"
  shows "\<exists>pg s'. uspace_create_pml4 s = (pg, s') \<and> pg \<noteq> 0 \<and> space_ok pg s' \<and> card (free_set s) \<le> card (free_set s') + 1 \<and>
    (\<forall>v. user_va v \<longrightarrow> uread pg s' v = None)"
  using inv
proof (cases rule: alloc_pt_frame_cases)
  case oom
  with room show ?thesis by simp
next
  case (frame pg s1)
  let ?x = "rd64 (pmem s1) (unat (cr3 s + 4088))"
  let ?s2 = "s1\<lparr>pmem := wr64 (pmem s1) (unat (pg + 4088)) ?x\<rparr>"
  have us: "uspace_create_pml4 s = (pg, ?s2)"
    using frame(1,4,8) by (auto simp: uspace_create_pml4_def alloc_pt_frame_def Let_def split: prod.splits if_splits)
  have r: "valid_path []" "table_at (pmem s) 3 (cr3 s) [] = Some (cr3 s)" by (simp_all add: valid_path_def)
  note root = pt_wf_table [OF wf r]
  have ne: "cr3 s \<noteq> pg" using root(3) frame(5) by auto
  have m2: "pmem ?s2 = wr64 (mem_fill (pmem s) (unat pg) 4096 0) (unat (pg + 4088)) ?x" using frame(2) by simp
  have cell: "rd64 (pmem ?s2) (unat t + j * 8) = (if t = pg then if j = 511 then ?x else 0 else rd64 (pmem s) (unat t + j * 8))"
    if "page_aligned t" "j < 512" for t j unfolding m2 by (rule uspace_cells [OF frame(3) that])
  have x: "?x = rd64 (pmem s) (unat (cr3 s) + 511 * 8)"
  proof -
    have "rd64 (pmem s1) (unat (cr3 s) + 511 * 8) = rd64 (pmem s) (unat (cr3 s) + 511 * 8)"
      unfolding frame(2)
    proof (rule rd64_cong)
      fix y assume y: "unat (cr3 s) + 511 * 8 \<le> y" "y < unat (cr3 s) + 511 * 8 + 8"
      from entry_in_frame [OF root(1) _ y] have "y div 4096 = unat (cr3 s) div 4096" by simp
      with root(3) frame(5) in_frame [OF frame(3), of y] show "mem_fill (pmem s) (unat pg) 4096 0 y = pmem s y"
        by (auto simp: mem_fill_def)
    qed
    moreover have "unat (cr3 s + 4088) = unat (cr3 s) + 511 * 8" using unat_entry_addr [OF root(1), of 511] by simp
    ultimately show ?thesis by simp
  qed
  have tab: "table_at (pmem ?s2) 3 pg q =
      (case q of [] \<Rightarrow> Some pg | i # is \<Rightarrow> if i = 511 then table_at (pmem s) 3 (cr3 s) q else None)" if q: "valid_path q" for q
  proof (cases q)
    case (Cons i "is")
    with q have i: "i < 512" by (auto simp: valid_path_def)
    show ?thesis
    proof (cases "i = 511 \<and> ?x AND 1 \<noteq> 0")
      case True
      have "table_at (pmem ?s2) 2 (?x AND - 4096) is = table_at (pmem s) 2 (?x AND - 4096) is"
      proof (rule table_at_cong)
        fix q' r' j t'
        assume sp: "is = q' @ j # r'" and t': "table_at (pmem s) 2 (?x AND - 4096) q' = Some t'"
        then have v: "valid_path (511 # q')" "j < 512" using q Cons by (auto simp: valid_path_def)
        have "table_at (pmem s) 3 (cr3 s) (511 # q') = Some t'" using t' True x by (simp add: table_at_Cons)
        from pt_wf_table [OF wf v(1) this] frame(5) cell [of t' j] v(2)
        show "rd64 (pmem ?s2) (unat t' + j * 8) = rd64 (pmem s) (unat t' + j * 8)" by auto
      qed simp
      with True cell [OF frame(3), of 511] x Cons show ?thesis by (simp add: table_at_Cons)
    next
      case False
      with cell [OF frame(3) i] x Cons show ?thesis by (auto simp: table_at_Cons)
    qed
  qed simp
  have pg511: "q = [] \<and> t = pg \<or> q \<noteq> [] \<and> hd q = 511 \<and> table_at (pmem s) 3 (cr3 s) q = Some t"
    if "valid_path q" "table_at (pmem ?s2) 3 pg q = Some t" for q t
    using that tab [OF that(1)] by (auto split: list.splits if_splits)
  have free: "free_set ?s2 = free_set s - {unat pg div 4096}" using frame(6) by simp
  have wf2: "pt_wf pg ?s2"
    unfolding pt_wf_def
  proof (intro conjI allI impI)
    show "page_aligned pg" by (rule frame(3))
    fix q t assume q: "valid_path q" "table_at (pmem ?s2) 3 pg q = Some t"
    from pg511 [OF q] show "t \<noteq> 0" "unat t div 4096 \<notin> free_set ?s2"
      using pt_wf_table [OF wf q(1)] frame(4) free by auto
  next
    fix p q t assume h: "valid_path p" "valid_path q" "table_at (pmem ?s2) 3 pg p = Some t" "table_at (pmem ?s2) 3 pg q = Some t"
    have np: "table_at (pmem s) 3 (cr3 s) q' \<noteq> Some pg" if "valid_path q'" for q'
      using pt_wf_table(3) [OF wf that] frame(5) by auto
    from pg511 [OF h(1,3)] pg511 [OF h(2,4)] np [OF h(1)] np [OF h(2)] pt_wf_inj [OF wf h(1,2)] show "p = q" by auto
  qed
  have none: "pte_of pg v (pmem ?s2) = 0" if "user_va v" for v
  proof -
    have "unat (PML4_IDX v) \<noteq> 511" using that unfolding user_va_def word_unat_eq_iff by simp
    with tab [OF idx_path_valid, of v] show ?thesis by (simp add: pte_of_def idx_path_def)
  qed
  have "space_ok pg ?s2"
  proof (rule space_okI)
    show "huge_free pg ?s2" unfolding huge_free_def using pg511 by blast
    show "top_private pg ?s2" using cell [OF frame(3)] by (simp add: top_private_def)
    show "pmm_inv ?s2" using frame(7) by simp
  qed (use wf2 none in \<open>simp_all add: mapped_def\<close>)
  moreover have "card (free_set s) \<le> card (free_set ?s2) + 1" using frame(5) by (simp add: frame(6) card_Diff_singleton)
  ultimately show ?thesis using us frame(4) none by (auto simp: uread_def mapped_def)
qed

end
