(* ===== verification/Exec.thy ===== *)
theory Exec
  imports Printf Addr_Space
begin

text \<open>
  \<^verbatim>\<open>src/kernel/elf_load.c\<close>, \<^verbatim>\<open>src/kernel/uaccess.c\<close> and \<^verbatim>\<open>src/kernel/user_task.c\<close>: loading a program from an
  ELF image, starting it, and reading strings of a program. The image is the list of its bytes; a read outside it is
  \<open>OutOfBounds\<close>.
\<close>

section \<open>ELF images\<close>

record Elf64_Ehdr =
  e_ident :: "u8 list"
  e_type :: u16
  e_machine :: u16
  e_entry :: u64
  e_phoff :: u64
  e_phentsize :: u16
  e_phnum :: u16

record Elf64_Phdr =
  p_type :: u32
  p_offset :: u64
  p_vaddr :: u64
  p_filesz :: u64
  p_memsz :: u64

text \<open>The fields that the loader uses, at their offsets in the packed structures.\<close>

definition read_ehdr :: "u8 list \<Rightarrow> Elf64_Ehdr" where
  "read_ehdr elf =
     \<lparr>e_ident = take 16 elf, e_type = of_nat (bytes_at elf 16 2), e_machine = of_nat (bytes_at elf 18 2),
      e_entry = of_nat (bytes_at elf 24 8), e_phoff = of_nat (bytes_at elf 32 8),
      e_phentsize = of_nat (bytes_at elf 54 2), e_phnum = of_nat (bytes_at elf 56 2)\<rparr>"

definition read_phdr :: "u8 list \<Rightarrow> nat \<Rightarrow> Elf64_Phdr" where
  "read_phdr elf a =
     \<lparr>p_type = of_nat (bytes_at elf a 4), p_offset = of_nat (bytes_at elf (a + 8) 8), p_vaddr = of_nat (bytes_at elf (a + 16) 8),
      p_filesz = of_nat (bytes_at elf (a + 32) 8), p_memsz = of_nat (bytes_at elf (a + 40) 8)\<rparr>"

definition ehdr_bad :: "u8 list \<Rightarrow> bool" where
  "ehdr_bad elf \<longleftrightarrow>
     length elf < 64 \<or>
     (let eh = read_ehdr elf
      in take 4 (e_ident eh) \<noteq> [0x7F, 0x45, 0x4C, 0x46] \<or>
         (e_ident eh ! 4 \<noteq> 2 \<or> e_type eh \<noteq> 2 \<or> e_machine eh \<noteq> 62) \<or>
         (e_phentsize eh \<noteq> 56 \<or> e_phnum eh = 0) \<or>
         e_phoff eh + ucast (e_phnum eh) * 56 > of_nat (length elf))"

abbreviation (input) USER_RW :: u64 where "USER_RW \<equiv> 7"

text \<open>
  One loadable segment. The pages from \<open>v0\<close> to \<open>v1\<close> are mapped one after the other; \<open>v1\<close> is not below \<open>v0\<close> and both
  are page aligned, so the loop has exactly that many turns. The first component is an error or the new end.
\<close>

definition elf_segment :: "u64 \<Rightarrow> u8 list \<Rightarrow> Elf64_Phdr \<Rightarrow> u64 \<Rightarrow> 'a mach_scheme \<Rightarrow> ((int + u64) \<times> 'a mach_scheme) res" where
  "elf_segment pml4 elf ph max_end s =
     (let v0 = p_vaddr ph AND PAGE_MASK;
          v1 = ALIGN_UP (p_vaddr ph + p_memsz ph) PAGE_SIZE
      in if v1 < v0 then Inr (Inl (- EINVAL), s)
         else case map_fresh True (unat (v1 - v0) div 4096) pml4 v0 USER_RW s of
                Inl e \<Rightarrow> Inl e
              | Inr (False, s1) \<Rightarrow> Inr (Inl (- ENOMEM), s1)
              | Inr (True, s1) \<Rightarrow>
                  if p_offset ph + p_filesz ph > of_nat (length elf) then Inr (Inl (- ENOEXEC), s1)
                  else case vnl_copy_to_user_va pml4 (p_vaddr ph) (drop (unat (p_offset ph)) elf) (unat (p_filesz ph)) s1 of
                         Inl e \<Rightarrow> Inl e
                       | Inr s2 \<Rightarrow>
                           let seg_end = p_vaddr ph + p_memsz ph
                           in Inr (Inr (if seg_end > max_end then seg_end else max_end), s2))"

text \<open>The program headers from number \<open>i\<close> on, \<open>n\<close> of them.\<close>

fun elf_segments :: "u64 \<Rightarrow> u8 list \<Rightarrow> u64 \<Rightarrow> nat \<Rightarrow> nat \<Rightarrow> u64 \<Rightarrow> 'a mach_scheme \<Rightarrow> ((int + u64) \<times> 'a mach_scheme) res" where
  "elf_segments pml4 elf phoff i 0 max_end s = Inr (Inr max_end, s)"
| "elf_segments pml4 elf phoff i (Suc n) max_end s =
     (let a = unat (phoff + of_nat i * 56)
      in if a + 56 > length elf then Inl OutOfBounds
         else let ph = read_phdr elf a
              in if p_type ph \<noteq> 1 then elf_segments pml4 elf phoff (Suc i) n max_end s
                 else case elf_segment pml4 elf ph max_end s of
                        Inl e \<Rightarrow> Inl e
                      | Inr (Inl r, s1) \<Rightarrow> Inr (Inl r, s1)
                      | Inr (Inr m, s1) \<Rightarrow> elf_segments pml4 elf phoff (Suc i) n m s1)"

text \<open>The result: an error, or the entry point and the end of the image.\<close>

definition elf_load_exec :: "u64 \<Rightarrow> u8 list \<Rightarrow> 'a mach_scheme \<Rightarrow> ((int + u64 \<times> u64) \<times> 'a mach_scheme) res" where
  "elf_load_exec pml4 elf s =
     (if ehdr_bad elf then Inr (Inl (- ENOEXEC), s)
      else let eh = read_ehdr elf
           in case elf_segments pml4 elf (e_phoff eh) 0 (unat (e_phnum eh)) 0 s of
                Inl e \<Rightarrow> Inl e
              | Inr (Inl r, s1) \<Rightarrow> Inr (Inl r, s1)
              | Inr (Inr max_end, s1) \<Rightarrow> Inr (Inr (e_entry eh, ALIGN_UP max_end PAGE_SIZE), s1))"

section \<open>Starting a program\<close>

abbreviation (input) VNL_USER_STACK_BASE :: u64 where "VNL_USER_STACK_BASE \<equiv> 0x7F800000"
abbreviation (input) VNL_USER_STACK_PAGES :: nat where "VNL_USER_STACK_PAGES \<equiv> 48"

text \<open>Reading a file of at most 512 KiB into a heap buffer; the buffer and the bytes read, or an error.\<close>

definition read_image :: "string \<Rightarrow> 'a sched_scheme \<Rightarrow> ((int + u64 \<times> u8 list) \<times> 'a sched_scheme) res" where
  "read_image path s =
     (case vfs_open path 1 s of
        Inl e \<Rightarrow> Inl e
      | Inr (fd, s1) \<Rightarrow>
          if fd < 0 then Inr (Inl (- ENOENT), s1)
          else case kmalloc 0x80000 s1 of
                 Inl e \<Rightarrow> Inl e
               | Inr (buf, s2) \<Rightarrow>
                   if buf = 0 then Inr (Inl (- ENOMEM), snd (vfs_close fd s2))
                   else case vfs_read fd 0x80000 s2 of
                          Inl e \<Rightarrow> Inl e
                        | Inr (n, bs, s3) \<Rightarrow>
                            let s4 = snd (vfs_close fd (s3\<lparr>hmem := store_bytes (hmem s3) (unat buf) bs\<rparr>))
                            in if n < 64 then
                                 case kfree buf s4 of Inl e \<Rightarrow> Inl e | Inr s5 \<Rightarrow> Inr (Inl (- ENOEXEC), s5)
                               else Inr (Inr (buf, bs), s4))"

text \<open>A new address space with the image in it; the buffer is given back on every path.\<close>

definition load_image :: "u64 \<Rightarrow> u8 list \<Rightarrow> 'a sched_scheme \<Rightarrow> ((int + u64 \<times> u64 \<times> u64) \<times> 'a sched_scheme) res" where
  "load_image buf elf s =
     (case uspace_create_pml4 s of (pml4, s1) \<Rightarrow>
        if pml4 = 0 then case kfree buf s1 of Inl e \<Rightarrow> Inl e | Inr s2 \<Rightarrow> Inr (Inl (- ENOMEM), s2)
        else case elf_load_exec pml4 elf s1 of
               Inl e \<Rightarrow> Inl e
             | Inr (Inl r, s2) \<Rightarrow> (case kfree buf s2 of Inl e \<Rightarrow> Inl e | Inr s3 \<Rightarrow> Inr (Inl (- ENOEXEC), s3))
             | Inr (Inr (entry, brk), s2) \<Rightarrow> (case kfree buf s2 of Inl e \<Rightarrow> Inl e | Inr s3 \<Rightarrow> Inr (Inr (pml4, entry, brk), s3)))"

definition vnl_spawn_elf_path :: "string \<Rightarrow> 'a sched_scheme \<Rightarrow> (int \<times> 'a sched_scheme) res" where
  "vnl_spawn_elf_path path s =
     (case read_image path s of
        Inl e \<Rightarrow> Inl e
      | Inr (Inl r, s1) \<Rightarrow> Inr (r, s1)
      | Inr (Inr (buf, elf), s1) \<Rightarrow>
          (case load_image buf elf s1 of
             Inl e \<Rightarrow> Inl e
           | Inr (Inl r, s2) \<Rightarrow> Inr (r, s2)
           | Inr (Inr (pml4, entry, brk), s2) \<Rightarrow>
               (case map_fresh False VNL_USER_STACK_PAGES pml4 VNL_USER_STACK_BASE USER_RW s2 of
                  Inl e \<Rightarrow> Inl e
                | Inr (False, s3) \<Rightarrow> Inr (- ENOMEM, s3)
                | Inr (True, s3) \<Rightarrow>
                    task_create_user ''tinywl'' pml4 entry (VNL_USER_STACK_BASE + of_nat VNL_USER_STACK_PAGES * PAGE_SIZE - 16) brk brk s3)))"

section \<open>Strings of a program\<close>

fun copy_string_loop :: "nat \<Rightarrow> u64 \<Rightarrow> u64 \<Rightarrow> u8 list \<Rightarrow> 'a mach_scheme \<Rightarrow> int \<times> u8 list" where
  "copy_string_loop 0 cr3p uva out s = (- E2BIG, out)"
| "copy_string_loop (Suc n) cr3p uva out s =
     (let pa = vmm_lookup_phys_pml4 cr3p uva s
      in if pa = 0 then (- EFAULT, out)
         else if pa \<ge> 0x100000000 then (- EFAULT, out)
         else let c = pmem s (unat pa)
              in if c = 0 then (0, out) else copy_string_loop n cr3p (uva + 1) (out @ [c]) s)"

definition copy_user_cstring :: "u64 \<Rightarrow> u64 \<Rightarrow> nat \<Rightarrow> 'a mach_scheme \<Rightarrow> int \<times> u8 list" where
  "copy_user_cstring cr3p user_ptr out_cap s =
     (if out_cap < 2 then (- EINVAL, []) else copy_string_loop (out_cap - 1) cr3p user_ptr [] s)"

section \<open>The ring 3 demonstration\<close>

definition ring3_blob :: "u8 list" where
  "ring3_blob =
     [0xb8, 0x01, 0x00, 0x00, 0x00, 0xbf, 0x01, 0x00, 0x00, 0x00, 0x48, 0xbe, 0x30, 0x00, 0x40, 0x00, 0x00, 0x00, 0x00,
      0xba, 0x13, 0x00, 0x00, 0x00, 0xcd, 0x80, 0xb8, 0x3c, 0x00, 0x00, 0x00, 0x31, 0xff, 0xcd, 0x80]"

definition c_bytes :: "string \<Rightarrow> u8 list" where
  "c_bytes str = map (\<lambda>c. of_nat (of_char c)) str @ [0]"

definition ring3_page :: "nat \<Rightarrow> bmem \<Rightarrow> bmem" where
  "ring3_page p m =
     store_bytes (store_bytes (mem_fill m p 4096 0) p ring3_blob) (p + 0x30) (c_bytes (''Hello from ring 3'' @ [CHR 0x0A]))"

definition user_ring3_demo_spawn :: "'a kio_scheme \<Rightarrow> 'a kio_scheme res" where
  "user_ring3_demo_spawn s =
     (case uspace_create_pml4 s of (pml4, s1) \<Rightarrow>
        if pml4 = 0 then map_sum id (snd \<circ> snd) (kprintf (''ring3: cannot create page table'' @ [CHR 0x0A]) [] s1)
        else case pmm_alloc s1 of (cp, s2) \<Rightarrow>
          case pmm_alloc s2 of (sp, s3) \<Rightarrow>
            if cp = 0 \<or> sp = 0 then map_sum id (snd \<circ> snd) (kprintf (''ring3: out of physical pages'' @ [CHR 0x0A]) [] s3)
            else case vmm_map_in_pml4 pml4 0x400000 cp 5 (s3\<lparr>pmem := ring3_page (unat cp) (pmem s3)\<rparr>) of
                   Inl e \<Rightarrow> Inl e
                 | Inr s4 \<Rightarrow>
                     (case vmm_map_in_pml4 pml4 0x801000 sp 7 s4 of
                        Inl e \<Rightarrow> Inl e
                      | Inr s5 \<Rightarrow>
                          (case task_create_user ''ring3'' pml4 0x400000 0x802000 0x400000 0x401000 s5 of
                             Inl e \<Rightarrow> Inl e
                           | Inr (pid, s6) \<Rightarrow>
                               map_sum id (snd \<circ> snd)
                                 (if pid < 0 then kprintf (''ring3: task_create_user failed'' @ [CHR 0x0A]) [] s6
                                  else kprintf (''ring3: user task pid %u (timer will run it)'' @ [CHR 0x0A]) [Num (word_of_int pid)] s6))))"

section \<open>The image of a program\<close>

text \<open>The loadable segments, the pages of one, and the byte that belongs at an address of them.\<close>

definition elf_phdrs :: "u8 list \<Rightarrow> nat \<Rightarrow> nat \<Rightarrow> nat \<Rightarrow> Elf64_Phdr list" where
  "elf_phdrs elf phoff i n = filter (\<lambda>ph. p_type ph = 1) (map (\<lambda>k. read_phdr elf (phoff + k * 56)) [i..<i + n])"

definition seg_lo :: "Elf64_Phdr \<Rightarrow> nat" where
  "seg_lo ph = unat (p_vaddr ph) div 4096 * 4096"

definition seg_hi :: "Elf64_Phdr \<Rightarrow> nat" where
  "seg_hi ph = (unat (p_vaddr ph) + unat (p_memsz ph) + 4095) div 4096 * 4096"

definition seg_pages :: "Elf64_Phdr \<Rightarrow> nat" where
  "seg_pages ph = (seg_hi ph - seg_lo ph) div 4096"

definition seg_byte :: "u8 list \<Rightarrow> Elf64_Phdr \<Rightarrow> nat \<Rightarrow> u8" where
  "seg_byte elf ph a =
     (if unat (p_vaddr ph) \<le> a \<and> a < unat (p_vaddr ph) + unat (p_filesz ph)
      then elf ! (unat (p_offset ph) + (a - unat (p_vaddr ph))) else 0)"

definition seg_ok :: "u8 list \<Rightarrow> Elf64_Phdr \<Rightarrow> bool" where
  "seg_ok elf ph \<longleftrightarrow>
     unat (p_vaddr ph) + unat (p_memsz ph) + 4096 \<le> 2 ^ 47 \<and> unat (p_filesz ph) \<le> unat (p_memsz ph) \<and>
     unat (p_offset ph) + unat (p_filesz ph) \<le> length elf \<and> length elf < 2 ^ 63"

text \<open>The segment that an address belongs to is the last one that has its page.\<close>

definition image_at :: "u8 list \<Rightarrow> Elf64_Phdr list \<Rightarrow> nat \<Rightarrow> u8 option" where
  "image_at elf phs a =
     (case List.find (\<lambda>ph. seg_lo ph \<le> a \<and> a < seg_hi ph) (rev phs) of
        None \<Rightarrow> None
      | Some ph \<Rightarrow> Some (seg_byte elf ph a))"

lemma find_append: "List.find P (xs @ ys) = (case List.find P xs of None \<Rightarrow> List.find P ys | Some x \<Rightarrow> Some x)"
  by (induction xs) simp_all

lemma image_at_Cons:
  "image_at elf (ph # phs) a =
     (case image_at elf phs a of
        None \<Rightarrow> if seg_lo ph \<le> a \<and> a < seg_hi ph then Some (seg_byte elf ph a) else None
      | Some b \<Rightarrow> Some b)"
  by (simp add: image_at_def find_append split: option.splits)

lemma seg_words:
  assumes "seg_ok elf ph"
  shows "unat (p_vaddr ph + p_memsz ph) = unat (p_vaddr ph) + unat (p_memsz ph)"
    and "unat (p_vaddr ph AND - 4096) = seg_lo ph" "unat (ALIGN_UP (p_vaddr ph + p_memsz ph) 4096) = seg_hi ph"
    and "seg_lo ph \<le> unat (p_vaddr ph)" "unat (p_vaddr ph) + unat (p_memsz ph) \<le> seg_hi ph"
    and "seg_lo ph + seg_pages ph * 4096 = seg_hi ph" "seg_hi ph \<le> 2 ^ 47" "seg_lo ph mod 4096 = 0"
proof -
  let ?v = "unat (p_vaddr ph)" and ?m = "unat (p_memsz ph)"
  have b: "?v + ?m + 4096 \<le> 2 ^ 47" using assms by (simp add: seg_ok_def)
  then show e: "unat (p_vaddr ph + p_memsz ph) = ?v + ?m" by (simp add: unat_word_ariths)
  show "unat (p_vaddr ph AND - 4096) = seg_lo ph" by (simp add: unat_page_mask seg_lo_def)
  show "unat (ALIGN_UP (p_vaddr ph + p_memsz ph) 4096) = seg_hi ph"
    using b unat_align_up_page [of "p_vaddr ph + p_memsz ph"] by (simp add: e seg_hi_def)
  show lo: "seg_lo ph \<le> ?v" by (simp add: seg_lo_def)
  show hi: "?v + ?m \<le> seg_hi ph" by (simp add: seg_hi_def)
  show "seg_lo ph mod 4096 = 0" by (simp add: seg_lo_def)
  have "seg_hi ph - seg_lo ph = ((?v + ?m + 4095) div 4096 - ?v div 4096) * 4096" by (simp add: seg_hi_def seg_lo_def diff_mult_distrib)
  with lo hi show "seg_lo ph + seg_pages ph * 4096 = seg_hi ph" by (simp add: seg_pages_def)
  show "seg_hi ph \<le> 2 ^ 47"
    using b div_times_less_eq_dividend [of "?v + ?m + 4095" 4096] unfolding seg_hi_def by linarith
qed

lemma elf_segment_space:
  assumes ok: "space_ok root s" and seg: "seg_ok elf ph" and room: "4 * seg_pages ph \<le> card (free_set s)"
  shows "\<exists>s'. elf_segment root elf ph me s = Inr (Inr (max me (p_vaddr ph + p_memsz ph)), s') \<and> space_ok root s' \<and>
    card (free_set s) \<le> card (free_set s') + 4 * seg_pages ph \<and>
    (\<forall>v. low_va v \<longrightarrow> uread root s' v =
       (if seg_lo ph \<le> unat v \<and> unat v < seg_hi ph then Some (seg_byte elf ph (unat v)) else uread root s v))"
proof -
  note w = seg_words [OF seg]
  let ?v0 = "p_vaddr ph AND - 4096" and ?v1 = "ALIGN_UP (p_vaddr ph + p_memsz ph) 4096"
  have le: "\<not> ?v1 < ?v0" using w by (simp add: word_less_nat_alt)
  then have n: "unat (?v1 - ?v0) div 4096 = seg_pages ph"
    using w by (simp add: unat_sub not_less seg_pages_def)
  have fl: "(7 :: u64) AND - 4096 = 0" by simp
  from map_fresh_space [OF ok fl room, of ?v0] w
  obtain s1 where s1: "map_fresh True (seg_pages ph) root ?v0 7 s = Inr (True, s1)" "space_ok root s1"
    "card (free_set s) \<le> card (free_set s1) + 4 * seg_pages ph"
    "\<forall>v. low_va v \<longrightarrow> uread root s1 v = (if seg_lo ph \<le> unat v \<and> unat v < seg_hi ph then Some 0 else uread root s v)"
    by auto
  define bs where "bs = take (unat (p_filesz ph)) (drop (unat (p_offset ph)) elf)"
  define rest where "rest = drop (unat (p_filesz ph)) (drop (unat (p_offset ph)) elf)"
  have lb: "length bs = unat (p_filesz ph)" using seg by (auto simp: bs_def seg_ok_def)
  have in_seg: "seg_lo ph \<le> unat v \<and> unat v < seg_hi ph" if "unat (p_vaddr ph) \<le> unat v" "unat v < unat (p_vaddr ph) + length bs" for v :: u64
    using that w(4,5) lb seg by (simp add: seg_ok_def)
  have "uread root s1 v \<noteq> None" if "unat (p_vaddr ph) \<le> unat v" "unat v < unat (p_vaddr ph) + length bs" for v
    using in_seg [OF that] s1(4) w(7) by (auto simp: low_va_def)
  then have rd: "\<forall>v :: u64. unat (p_vaddr ph) \<le> unat v \<longrightarrow> unat v < unat (p_vaddr ph) + length bs \<longrightarrow> uread root s1 v \<noteq> None" by blast
  have up: "unat (p_vaddr ph) + length bs \<le> 2 ^ 47" using lb seg by (simp add: seg_ok_def)
  from copy_space [OF s1(2) up rd, of rest]
  obtain s' where s': "vnl_copy_to_user_va root (p_vaddr ph) (bs @ rest) (length bs) s1 = Inr s'" "space_ok root s'" "free_set s' = free_set s1"
    "\<forall>v. low_va v \<longrightarrow> uread root s' v = (if unat (p_vaddr ph) \<le> unat v \<and> unat v < unat (p_vaddr ph) + length bs
       then Some (bs ! (unat v - unat (p_vaddr ph))) else uread root s1 v)" by blast
  have src: "bs @ rest = drop (unat (p_offset ph)) elf" unfolding bs_def rest_def by (rule append_take_drop_id)
  have "\<not> of_nat (length elf) < p_offset ph + p_filesz ph"
    using seg by (simp add: seg_ok_def word_less_nat_alt unat_word_ariths unat_of_nat not_less)
  moreover have "(if p_vaddr ph + p_memsz ph > me then p_vaddr ph + p_memsz ph else me) = max me (p_vaddr ph + p_memsz ph)"
    by (auto simp: max_def)
  ultimately have run: "elf_segment root elf ph me s = Inr (Inr (max me (p_vaddr ph + p_memsz ph)), s')"
    using s1(1) s'(1) le n by (simp add: elf_segment_def Let_def src lb)
  have "uread root s' v = (if seg_lo ph \<le> unat v \<and> unat v < seg_hi ph then Some (seg_byte elf ph (unat v)) else uread root s v)"
    if v: "low_va v" for v
  proof (cases "unat (p_vaddr ph) \<le> unat v \<and> unat v < unat (p_vaddr ph) + length bs")
    case True
    then have "unat v - unat (p_vaddr ph) < unat (p_filesz ph)" using lb by linarith
    then have "bs ! (unat v - unat (p_vaddr ph)) = seg_byte elf ph (unat v)"
      using True lb seg by (auto simp: bs_def seg_byte_def seg_ok_def)
    with True in_seg s'(4) v show ?thesis by simp
  next
    case False
    with s'(4) s1(4) v lb show ?thesis by (auto simp: seg_byte_def)
  qed
  with run s' s1(3) show ?thesis by auto
qed

lemma elf_segments_space:
  assumes "space_ok root s" and "unat phoff + (i + n) * 56 \<le> length elf" and "length elf < 2 ^ 63"
    and "\<forall>ph \<in> set (elf_phdrs elf (unat phoff) i n). seg_ok elf ph"
    and "4 * sum_list (map seg_pages (elf_phdrs elf (unat phoff) i n)) \<le> card (free_set s)"
  shows "\<exists>me' s'. elf_segments root elf phoff i n me s = Inr (Inr me', s') \<and> space_ok root s' \<and>
    (\<forall>v. low_va v \<longrightarrow> uread root s' v =
       (case image_at elf (elf_phdrs elf (unat phoff) i n) (unat v) of None \<Rightarrow> uread root s v | Some b \<Rightarrow> Some b))"
  using assms
proof (induction n arbitrary: i me s)
  case 0
  then show ?case by (simp add: elf_phdrs_def image_at_def)
next
  case (Suc n)
  let ?a = "unat phoff + i * 56" and ?phs = "elf_phdrs elf (unat phoff) (Suc i) n"
  let ?ph = "read_phdr elf ?a"
  have a: "unat (phoff + of_nat i * 56) = ?a"
    using Suc.prems(2,3) by (simp add: unat_word_ariths unat_of_nat)
  have up: "[i..<i + Suc n] = i # [Suc i..<Suc i + n]" by (simp add: upt_rec)
  have phs: "elf_phdrs elf (unat phoff) i (Suc n) = (if p_type ?ph = 1 then [?ph] else []) @ ?phs"
    unfolding elf_phdrs_def up by simp
  have step: "elf_segments root elf phoff i (Suc n) me s =
      (if p_type ?ph \<noteq> 1 then elf_segments root elf phoff (Suc i) n me s
       else case elf_segment root elf ?ph me s of
              Inl e \<Rightarrow> Inl e
            | Inr (Inl r, s1) \<Rightarrow> Inr (Inl r, s1)
            | Inr (Inr m, s1) \<Rightarrow> elf_segments root elf phoff (Suc i) n m s1)"
    using Suc.prems(2) by (simp add: a Let_def)
  show ?case
  proof (cases "p_type ?ph = 1")
    case False
    with Suc.IH [OF Suc.prems(1) _ Suc.prems(3), of "Suc i" me] Suc.prems(2,4,5) show ?thesis
      by (simp add: step phs del: elf_segments.simps)
  next
    case True
    then have seg: "seg_ok elf ?ph" and rest: "\<forall>ph \<in> set ?phs. seg_ok elf ph"
      and room: "4 * seg_pages ?ph + 4 * sum_list (map seg_pages ?phs) \<le> card (free_set s)"
      using Suc.prems(4,5) by (simp_all add: phs)
    from elf_segment_space [OF Suc.prems(1) seg, of me] room
    obtain s1 where s1: "elf_segment root elf ?ph me s = Inr (Inr (max me (p_vaddr ?ph + p_memsz ?ph)), s1)" "space_ok root s1"
      "card (free_set s) \<le> card (free_set s1) + 4 * seg_pages ?ph"
      "\<forall>v. low_va v \<longrightarrow> uread root s1 v =
         (if seg_lo ?ph \<le> unat v \<and> unat v < seg_hi ?ph then Some (seg_byte elf ?ph (unat v)) else uread root s v)" by auto
    have "4 * sum_list (map seg_pages ?phs) \<le> card (free_set s1)" using s1(3) room by linarith
    from Suc.IH [OF s1(2) _ Suc.prems(3) rest this, of "max me (p_vaddr ?ph + p_memsz ?ph)"] Suc.prems(2)
    obtain me' s' where s': "elf_segments root elf phoff (Suc i) n (max me (p_vaddr ?ph + p_memsz ?ph)) s1 = Inr (Inr me', s')"
      "space_ok root s'"
      "\<forall>v. low_va v \<longrightarrow> uread root s' v = (case image_at elf ?phs (unat v) of None \<Rightarrow> uread root s1 v | Some b \<Rightarrow> Some b)" by auto
    have "uread root s' v = (case image_at elf (elf_phdrs elf (unat phoff) i (Suc n)) (unat v) of None \<Rightarrow> uread root s v | Some b \<Rightarrow> Some b)"
      if "low_va v" for v
      using s'(3) s1(4) that True by (simp add: phs image_at_Cons split: option.splits)
    with True s1(1) s'(1,2) show ?thesis by (simp add: step del: elf_segments.simps)
  qed
qed

text \<open>The whole image; the header table must not lie behind an offset that wraps.\<close>

definition elf_loads :: "u8 list \<Rightarrow> Elf64_Phdr list" where
  "elf_loads elf = elf_phdrs elf (unat (e_phoff (read_ehdr elf))) 0 (unat (e_phnum (read_ehdr elf)))"

definition elf_ok :: "u8 list \<Rightarrow> bool" where
  "elf_ok elf \<longleftrightarrow>
     \<not> ehdr_bad elf \<and> length elf < 2 ^ 63 \<and>
     unat (e_phoff (read_ehdr elf)) + unat (e_phnum (read_ehdr elf)) * 56 \<le> length elf \<and>
     (\<forall>ph \<in> set (elf_loads elf). seg_ok elf ph)"

lemma elf_load_exec_space:
  assumes "space_ok root s" and "elf_ok elf" and "4 * sum_list (map seg_pages (elf_loads elf)) \<le> card (free_set s)"
  shows "\<exists>brk s'. elf_load_exec root elf s = Inr (Inr (e_entry (read_ehdr elf), brk), s') \<and> space_ok root s' \<and>
    (\<forall>v. low_va v \<longrightarrow> uread root s' v = (case image_at elf (elf_loads elf) (unat v) of None \<Rightarrow> uread root s v | Some b \<Rightarrow> Some b))"
proof -
  let ?eh = "read_ehdr elf"
  from elf_segments_space [OF assms(1), of "e_phoff ?eh" 0 "unat (e_phnum ?eh)" elf 0] assms(2,3)
  obtain me' s' where "elf_segments root elf (e_phoff ?eh) 0 (unat (e_phnum ?eh)) 0 s = Inr (Inr me', s')" "space_ok root s'"
    "\<forall>v. low_va v \<longrightarrow> uread root s' v = (case image_at elf (elf_loads elf) (unat v) of None \<Rightarrow> uread root s v | Some b \<Rightarrow> Some b)"
    by (auto simp: elf_ok_def elf_loads_def)
  with assms(2) show ?thesis by (simp add: elf_load_exec_def elf_ok_def Let_def)
qed

section \<open>User mode\<close>

text \<open>
  When the processor lets user mode use a page: every entry on the way, down to the page or a huge page, is present and has
  the user bit.
\<close>

fun user_walk :: "nat \<Rightarrow> u64 \<Rightarrow> u64 \<Rightarrow> bmem \<Rightarrow> bool" where
  "user_walk 0 t v m \<longleftrightarrow> rd64 m (unat t + unat (PT_IDX v) * 8) AND 5 = 5"
| "user_walk (Suc l) t v m \<longleftrightarrow>
     (let e = rd64 m (unat t + unat (level_idx (Suc l) v) * 8)
      in e AND 5 = 5 \<and> ((Suc l \<noteq> 3 \<and> e AND 0x80 \<noteq> 0) \<or> user_walk l (e AND PAGE_MASK) v m))"

lemma space_ok_no_user:
  assumes ok: "space_ok root s" and v: "user_va v"
  shows "\<not> user_walk 3 root v (pmem s)"
proof -
  have i: "unat (PML4_IDX v) < 511"
    using level_idx_less [of 3 v] v unfolding user_va_def word_unat_eq_iff by (simp add: level_idx_def)
  let ?e = "rd64 (pmem s) (unat root + unat (PML4_IDX v) * 8)"
  have z: "?e AND 4 = 0" using space_okD(8) [OF ok] i by (simp add: top_private_def)
  have "?e AND 5 \<noteq> 5"
  proof
    assume "?e AND 5 = 5"
    then have "(?e AND 5) AND 4 = 5 AND 4" by simp
    with z show False by (simp add: and.assoc)
  qed
  moreover have "user_walk 3 root v (pmem s) \<longleftrightarrow> ?e AND 5 = 5 \<and> user_walk 2 (?e AND PAGE_MASK) v (pmem s)"
    using user_walk.simps(2) [of 2 root v "pmem s"] by (simp add: level_idx_def Let_def)
  ultimately show ?thesis by simp
qed

section \<open>Strings\<close>

lemma copy_string_loop_spec:
  assumes "space_ok root s" and "unat va + length str < 2 ^ 47" and "0 \<notin> set str"
    and "\<forall>k < length str. uread root s (va + of_nat k) = Some (str ! k)" and "uread root s (va + of_nat (length str)) = Some 0"
  shows "copy_string_loop n root va out s = (if length str < n then (0, out @ str) else (- E2BIG, out @ take n str))"
  using assms
proof (induction n arbitrary: va str out)
  case (Suc n)
  have lo: "low_va va" using Suc.prems(2) by (simp add: low_va_def)
  obtain c where c: "uread root s va = Some c" "c = (if str = [] then 0 else hd str)"
    using Suc.prems(4,5) by (cases str) auto
  then have mp: "mapped root s va" and pm: "pmem s (vframe root s va * 4096 + unat va mod 4096) = c"
    by (auto simp: uread_def split: if_splits)
  let ?pa = "vmm_lookup_phys_pml4 root va s"
  have pa: "unat ?pa = vframe root s va * 4096 + unat va mod 4096"
    using mp by (simp add: lookup_mapped [OF space_okD(1) [OF Suc.prems(1)]])
  note vf = space_okD(4) [OF Suc.prems(1) low_va_user [OF lo] mp]
  have "0 < unat ?pa" using vf by (simp add: pa)
  then have nz: "?pa \<noteq> 0" by auto
  have "unat va mod 4096 < 4096" "vframe root s va \<le> 1048575" using vf by simp_all
  then have "unat ?pa < 4294967296" unfolding pa by linarith
  then have small: "\<not> ?pa \<ge> 0x100000000" by (simp add: word_le_nat_alt)
  show ?case
  proof (cases str)
    case Nil
    with c pm pa nz small show ?thesis by (simp add: Let_def)
  next
    case (Cons d ds)
    have nx: "va + 1 + of_nat k = va + of_nat (Suc k)" for k by simp
    have nx1: "unat (va + 1) = unat va + 1" using unat_add_small [of va 1] Suc.prems(2) by simp
    have tl: "\<forall>k < length ds. uread root s (va + 1 + of_nat k) = Some (ds ! k)"
    proof (intro allI impI)
      fix k assume "k < length ds"
      with Suc.prems(4) [rule_format, of "Suc k"] show "uread root s (va + 1 + of_nat k) = Some (ds ! k)"
        unfolding nx by (simp add: Cons)
    qed
    have z: "uread root s (va + 1 + of_nat (length ds)) = Some 0" using Suc.prems(5) unfolding nx by (simp add: Cons)
    from Suc.IH [OF Suc.prems(1) _ _ tl z, of "out @ [d]"] Suc.prems(2,3) nx1 c pm pa nz small show ?thesis
      by (simp add: Cons Let_def)
  qed
qed simp

lemma user_string_copied:
  assumes ok: "space_ok root s" and up: "unat va + length str < 2 ^ 47" and nz: "0 \<notin> set str"
    and rd: "\<forall>v :: u64. unat va \<le> unat v \<longrightarrow> unat v \<le> unat va + length str \<longrightarrow> uread root s v \<noteq> None"
    and cap: "2 \<le> cap"
  shows "\<exists>s'. vnl_copy_to_user_va root va (str @ [0]) (length str + 1) s = Inr s' \<and> space_ok root s' \<and>
    copy_user_cstring root va cap s' = (if length str + 2 \<le> cap then (0, str) else (- E2BIG, take (cap - 1) str))"
proof -
  have "\<forall>v :: u64. unat va \<le> unat v \<longrightarrow> unat v < unat va + length (str @ [0]) \<longrightarrow> uread root s v \<noteq> None" using rd by simp
  moreover have "unat va + length (str @ [0]) \<le> 2 ^ 47" using up by simp
  ultimately obtain s' where s': "vnl_copy_to_user_va root va (str @ [0]) (length str + 1) s = Inr s'" "space_ok root s'"
    "\<forall>v. low_va v \<longrightarrow> uread root s' v = (if unat va \<le> unat v \<and> unat v < unat va + length (str @ [0])
       then Some ((str @ [0]) ! (unat v - unat va)) else uread root s v)"
    using copy_space [OF ok, of va "str @ [0]" "[]"] by auto
  have u: "unat (va + of_nat k) = unat va + k" if "k \<le> length str" for k
    using unat_add_small [of va k] that up by simp
  have at: "uread root s' (va + of_nat k) = Some ((str @ [0]) ! k)" if "k \<le> length str" for k
    using s'(3) [rule_format, of "va + of_nat k"] u [OF that] that up by (simp add: low_va_def)
  have "uread root s' (va + of_nat (length str)) = Some 0" "\<forall>k < length str. uread root s' (va + of_nat k) = Some (str ! k)"
    using at by (simp_all add: nth_append)
  from copy_string_loop_spec [OF s'(2) up nz this(2,1), of "cap - 1" "[]"] s'(1,2) cap show ?thesis
    by (auto simp: copy_user_cstring_def)
qed

section \<open>Properties\<close>

text \<open>An image with one segment of four bytes at \<^verbatim>\<open>0x400000\<close>, for the witnesses.\<close>

definition elf_demo :: "u8 list" where
  "elf_demo =
     [0x7F, 0x45, 0x4C, 0x46, 2, 1, 1, 0, 0, 0, 0, 0, 0, 0, 0, 0, 2, 0, 0x3E, 0, 1, 0, 0, 0,
      0, 0, 0x40, 0, 0, 0, 0, 0, 0x40, 0, 0, 0, 0, 0, 0, 0, 0, 0, 0, 0, 0, 0, 0, 0,
      0, 0, 0, 0, 0x40, 0, 0x38, 0, 1, 0, 0, 0, 0, 0, 0, 0,
      1, 0, 0, 0, 5, 0, 0, 0, 0x78, 0, 0, 0, 0, 0, 0, 0, 0, 0, 0x40, 0, 0, 0, 0, 0, 0, 0, 0x40, 0, 0, 0, 0, 0,
      4, 0, 0, 0, 0, 0, 0, 0, 8, 0, 0, 0, 0, 0, 0, 0, 0, 0x10, 0, 0, 0, 0, 0, 0,
      0xDE, 0xAD, 0xBE, 0xEF]"

lemma bytes_at_Suc: "bytes_at bs a (Suc n) = bytes_at bs a n + unat (bs ! (a + n)) * 256 ^ n"
  by (simp add: bytes_at_def)

lemma bytes_at_add: "bytes_at bs a (m + n) = bytes_at bs a m + bytes_at bs (a + m) n * 256 ^ m"
  by (induction n) (simp_all add: bytes_at_Suc power_add algebra_simps, simp add: bytes_at_def)

lemma bytes_at_unfold:
  "bytes_at bs a 2 = unat (bs ! a) + unat (bs ! (a + 1)) * 256"
  "bytes_at bs a 4 = bytes_at bs a 2 + bytes_at bs (a + 2) 2 * 65536"
  "bytes_at bs a 8 = bytes_at bs a 4 + bytes_at bs (a + 4) 4 * 4294967296"
proof -
  have "bytes_at bs a 0 = 0" by (simp add: bytes_at_def)
  then show "bytes_at bs a 2 = unat (bs ! a) + unat (bs ! (a + 1)) * 256"
    using bytes_at_Suc [of bs a 1] bytes_at_Suc [of bs a 0] by (simp add: numeral_2_eq_2)
qed (use bytes_at_add [of bs a 2 2] bytes_at_add [of bs a 4 4] in simp_all)

lemma elf_demo_header:
  "length elf_demo = 124"
  "read_ehdr elf_demo = \<lparr>e_ident = [0x7F, 0x45, 0x4C, 0x46, 2, 1, 1, 0, 0, 0, 0, 0, 0, 0, 0, 0], e_type = 2, e_machine = 62,
     e_entry = 0x400000, e_phoff = 64, e_phentsize = 56, e_phnum = 1\<rparr>"
  "read_phdr elf_demo 64 = \<lparr>p_type = 1, p_offset = 0x78, p_vaddr = 0x400000, p_filesz = 4, p_memsz = 8\<rparr>"
  by (simp_all add: read_ehdr_def read_phdr_def elf_demo_def bytes_at_unfold)

lemma elf_demo_loads: "elf_loads elf_demo = [\<lparr>p_type = 1, p_offset = 0x78, p_vaddr = 0x400000, p_filesz = 4, p_memsz = 8\<rparr>]"
  by (simp add: elf_loads_def elf_phdrs_def elf_demo_header)

lemma elf_demo_ok: "elf_ok elf_demo" "sum_list (map seg_pages (elf_loads elf_demo)) = 1"
  by (simp_all add: elf_ok_def ehdr_bad_def elf_demo_loads elf_demo_header seg_ok_def seg_pages_def seg_hi_def seg_lo_def)

lemma mach_demo_space: "space_ok 4096 mach_demo"
proof (rule space_okI)
  have z: "pte_of 4096 v (pmem mach_demo) = 0" for v by (simp add: pte_of_def mach_demo_state table_at_zero idx_path_def)
  then have "\<not> mapped 4096 mach_demo v" for v by (simp add: mapped_def)
  then show "vframe 4096 mach_demo v \<in> {1..<MAX_FRAMES}" "vframe 4096 mach_demo v \<notin> free_set mach_demo"
    "vframe 4096 mach_demo v \<notin> table_frames 4096 mach_demo" if "mapped 4096 mach_demo v" for v
    using that by blast+
  show "vpage v = vpage w" if "mapped 4096 mach_demo v" for v w using that z by (simp add: mapped_def)
  show "huge_free 4096 mach_demo" by (simp add: huge_free_def mach_demo_state rd64_def)
  show "top_private 4096 mach_demo" by (simp add: top_private_def mach_demo_state rd64_def)
qed (use mach_demo_wf mach_demo_state in simp_all)

text \<open>
  C8: loading a well-formed image into an address space with enough free frames succeeds and returns its entry point; then
  the program reads at every address of the pages of its segments the bytes of the file, and zero behind them (for a page
  that two segments share: those of the later segment), and elsewhere what was there before.
\<close>

theorem elf_load_exec_image:
  assumes "space_ok root s" and "elf_ok elf" and "4 * sum_list (map seg_pages (elf_loads elf)) \<le> card (free_set s)"
  shows "\<exists>brk s'. elf_load_exec root elf s = Inr (Inr (e_entry (read_ehdr elf), brk), s') \<and> space_ok root s' \<and>
    (\<forall>v. low_va v \<longrightarrow> uread root s' v = (case image_at elf (elf_loads elf) (unat v) of None \<Rightarrow> uread root s v | Some b \<Rightarrow> Some b))"
  using assms by (rule elf_load_exec_space)

theorem elf_load_exec_image_witness:
  "\<exists>brk s'. elf_load_exec 4096 elf_demo mach_demo = Inr (Inr (0x400000, brk), s') \<and>
     uread 4096 s' 0x400001 = Some 0xAD \<and> uread 4096 s' 0x400004 = Some 0 \<and> uread 4096 s' 0x401000 = None"
proof -
  have room: "4 * sum_list (map seg_pages (elf_loads elf_demo)) \<le> card (free_set mach_demo)"
    by (simp add: elf_demo_ok(2) mach_demo_state)
  from elf_load_exec_image [OF mach_demo_space elf_demo_ok(1) room]
  obtain brk s' where s': "elf_load_exec 4096 elf_demo mach_demo = Inr (Inr (0x400000, brk), s')"
    "\<forall>v. low_va v \<longrightarrow> uread 4096 s' v =
       (case image_at elf_demo (elf_loads elf_demo) (unat v) of None \<Rightarrow> uread 4096 mach_demo v | Some b \<Rightarrow> Some b)"
    by (auto simp: elf_demo_header)
  have at: "elf_demo ! 121 = 0xAD" by (simp add: elf_demo_def)
  have none: "uread 4096 mach_demo v = None" for v
    by (simp add: uread_def mapped_def pte_of_def mach_demo_state table_at_zero idx_path_def)
  have "image_at elf_demo (elf_loads elf_demo) 0x400001 = Some 0xAD" "image_at elf_demo (elf_loads elf_demo) 0x400004 = Some 0"
    "image_at elf_demo (elf_loads elf_demo) 0x401000 = None"
    by (simp_all add: image_at_def elf_demo_loads seg_lo_def seg_hi_def seg_byte_def at)
  with s'(2) none have "uread 4096 s' 0x400001 = Some 0xAD" "uread 4096 s' 0x400004 = Some 0" "uread 4096 s' 0x401000 = None"
    by (simp_all add: low_va_def)
  with s'(1) show ?thesis by blast
qed

text \<open>A machine with ten free frames.\<close>

definition exec_demo :: mach where
  "exec_demo =
     (let d = pmm_init 1064 \<lparr>bitmap = (\<lambda>_. 0), total_frames = 0, free_frames = 0\<rparr>
      in \<lparr>bitmap = bitmap d, total_frames = total_frames d, free_frames = free_frames d,
          pmem = (\<lambda>_. 0), cr3 = 4096, current_pml4 = 4096\<rparr>)"

lemma exec_demo_state: "pmm_inv exec_demo" "card (free_set exec_demo) = 10" "cr3 exec_demo = 4096" "pt_wf 4096 exec_demo"
proof -
  let ?z = "\<lparr>bitmap = (\<lambda>_. 0), total_frames = 0, free_frames = 0\<rparr> :: pmm"
  have "pmm_inv (pmm_init 1064 ?z) \<and> free_set (pmm_init 1064 ?z) = {256..<266}"
    using pmm_init_state [of 1064 ?z] by (simp add: pmm_frames_of_kb_def)
  then have f: "pmm_inv exec_demo" "free_set exec_demo = {256..<266}"
    by (auto simp: exec_demo_def pmm_inv_def free_set_def Let_def)
  then show "pmm_inv exec_demo" "card (free_set exec_demo) = 10" by simp_all
  have "pmem exec_demo = (\<lambda>_. 0)" by (simp add: exec_demo_def Let_def)
  with f(2) show "pt_wf 4096 exec_demo" by (auto simp: pt_wf_def table_at_zero page_aligned_def)
qed (simp add: exec_demo_def Let_def)

text \<open>
  C24: user mode cannot use a single page of a program loaded into a new address space: the tables on the way to the
  pages are entered without the user bit, so the processor refuses every access below the kernel half.
\<close>

theorem loaded_program_unreachable:
  assumes "pt_wf (cr3 s) s" "pmm_inv s" "elf_ok elf" "4 * sum_list (map seg_pages (elf_loads elf)) + 1 \<le> card (free_set s)"
    and "uspace_create_pml4 s = (root, s1)" "elf_load_exec root elf s1 = Inr (Inr (entry, brk), s2)"
    and "user_va v"
  shows "\<not> user_walk 3 root v (pmem s2)"
proof -
  have "free_set s \<noteq> {}" using assms(4) by auto
  from uspace_create_space [OF assms(1,2) this] assms(5)
  have ok: "space_ok root s1" and c: "card (free_set s) \<le> card (free_set s1) + 1" by auto
  have "4 * sum_list (map seg_pages (elf_loads elf)) \<le> card (free_set s1)" using c assms(4) by linarith
  from elf_load_exec_space [OF ok assms(3) this] assms(6) have "space_ok root s2" by auto
  then show ?thesis using assms(7) by (rule space_ok_no_user)
qed

theorem loaded_program_unreachable_witness:
  "\<exists>root s1 entry brk s2. uspace_create_pml4 exec_demo = (root, s1) \<and> elf_load_exec root elf_demo s1 = Inr (Inr (entry, brk), s2) \<and>
     \<not> user_walk 3 root 0x400000 (pmem s2)"
proof -
  note st = exec_demo_state
  have wf: "pt_wf (cr3 exec_demo) exec_demo" using st by simp
  have room: "4 * sum_list (map seg_pages (elf_loads elf_demo)) + 1 \<le> card (free_set exec_demo)"
    by (simp add: elf_demo_ok(2) st(2))
  then have "free_set exec_demo \<noteq> {}" by auto
  from uspace_create_space [OF wf st(1) this] obtain root s1 where u: "uspace_create_pml4 exec_demo = (root, s1)" "space_ok root s1"
    "card (free_set exec_demo) \<le> card (free_set s1) + 1" by blast
  with room have "4 * sum_list (map seg_pages (elf_loads elf_demo)) \<le> card (free_set s1)" by linarith
  from elf_load_exec_space [OF u(2) elf_demo_ok(1) this] obtain entry brk s2
    where l: "elf_load_exec root elf_demo s1 = Inr (Inr (entry, brk), s2)" by blast
  have "user_va 0x400000" by (rule low_va_user) (simp add: low_va_def)
  from loaded_program_unreachable [OF wf st(1) elf_demo_ok(1) room u(1) l this] u(1) l show ?thesis by blast
qed

text \<open>
  C28: a string stored in the memory of a program with \<open>vnl_copy_to_user_va\<close> is what \<open>copy_user_cstring\<close> reads back; when it
  does not fit in the buffer with its terminator the result is \<^verbatim>\<open>-E2BIG\<close> and the buffer holds the beginning.
\<close>

theorem user_string_roundtrip:
  assumes "space_ok root s" and "unat va + length str < 2 ^ 47" and "0 \<notin> set str"
    and "\<forall>v :: u64. unat va \<le> unat v \<longrightarrow> unat v \<le> unat va + length str \<longrightarrow> uread root s v \<noteq> None" and "2 \<le> cap"
  shows "\<exists>s'. vnl_copy_to_user_va root va (str @ [0]) (length str + 1) s = Inr s' \<and> space_ok root s' \<and>
    copy_user_cstring root va cap s' = (if length str + 2 \<le> cap then (0, str) else (- E2BIG, take (cap - 1) str))"
  using assms by (rule user_string_copied)

theorem user_string_roundtrip_witness:
  "\<exists>s s'. map_page True 4096 0x400000 7 mach_demo = Inr (True, s) \<and>
     vnl_copy_to_user_va 4096 0x400000 [104, 105, 0] 3 s = Inr s' \<and> copy_user_cstring 4096 0x400000 32 s' = (0, [104, 105])"
proof -
  have lo: "low_va 0x400000" by (simp add: low_va_def)
  have fl: "(7 :: u64) AND - 4096 = 0" by simp
  have room: "4 \<le> card (free_set mach_demo)" by (simp add: mach_demo_state)
  from map_page_space [OF mach_demo_space low_va_user [OF lo] fl room]
  obtain s where s: "map_page True 4096 0x400000 7 mach_demo = Inr (True, s)" "space_ok 4096 s"
    "\<forall>v. user_va v \<longrightarrow> uread 4096 s v = (if vpage v = vpage 0x400000 then Some 0 else uread 4096 mach_demo v)" by blast
  have rd: "\<forall>v :: u64. unat (0x400000 :: u64) \<le> unat v \<longrightarrow> unat v \<le> unat (0x400000 :: u64) + length [104, 105 :: u8] \<longrightarrow> uread 4096 s v \<noteq> None"
  proof (intro allI impI)
    fix v :: u64
    assume v: "unat (0x400000 :: u64) \<le> unat v" "unat v \<le> unat (0x400000 :: u64) + length [104, 105 :: u8]"
    then have l: "low_va v" by (simp add: low_va_def)
    moreover have "unat v div 4096 = 1024" using v by (intro div_nat_eqI) simp_all
    ultimately have "vpage v = vpage 0x400000" by (simp add: low_va_page [OF l] low_va_page [OF lo])
    with s(3) low_va_user [OF l] show "uread 4096 s v \<noteq> None" by simp
  qed
  from user_string_roundtrip [OF s(2) _ _ rd, of 32] s(1) show ?thesis
    by (auto simp: numeral_3_eq_3 simp del: vnl_copy_to_user_va.simps)
qed

end
