(* ===== verification/User_Mem.thy ===== *)
theory User_Mem
  imports Exec
begin

text \<open>
  What the system calls do with the pointers of a program when they use them directly instead of through
  \<open>vnl_copy_to_user_va\<close>: the processor translates them with the page table of the running task, huge pages included. An
  address without a translation is an exception, which \<^verbatim>\<open>isr_handler\<close> reports before it halts the machine. The code tests
  no pointer, so one into the kernel's own half (the heap, the kernel image) is used like any other; what is there is
  not part of \<open>pmem\<close>, and such an access is \<open>OutOfBounds\<close>.
\<close>

section \<open>Translation\<close>

fun mmu_walk :: "nat \<Rightarrow> u64 \<Rightarrow> u64 \<Rightarrow> bmem \<Rightarrow> u64 option" where
  "mmu_walk 0 table va m =
     (let e = rd64 m (unat (table + PT_IDX va * 8))
      in if e AND VMM_FLAG_PRESENT = 0 then None else Some ((e AND PAGE_MASK) OR (va AND (PAGE_SIZE - 1))))"
| "mmu_walk (Suc l) table va m =
     (let e = rd64 m (unat (table + level_idx (Suc l) va * 8)); off = mask (12 + 9 * Suc l)
      in if e AND VMM_FLAG_PRESENT = 0 then None
         else if Suc l \<noteq> 3 \<and> e AND VMM_FLAG_HUGE \<noteq> 0 then Some ((e AND NOT off) OR (va AND off))
         else mmu_walk l (e AND PAGE_MASK) va m)"

definition canonical :: "u64 \<Rightarrow> bool" where
  "canonical va \<longleftrightarrow> drop_bit 47 va = 0 \<or> drop_bit 47 va = 0x1FFFF"

definition user_addr :: "u64 \<Rightarrow> 'a sched_scheme \<Rightarrow> nat res" where
  "user_addr va s =
     (if \<not> canonical va then Inl (Panic ''General Protection Fault'')
      else if PML4_IDX va = 511 then Inl OutOfBounds
      else case mmu_walk 3 (cr3_phys (sched_current s)) va (pmem s) of
             None \<Rightarrow> Inl (Panic ''Page Fault'')
           | Some pa \<Rightarrow> Inr (unat pa))"

section \<open>Access\<close>

fun uload :: "nat \<Rightarrow> u64 \<Rightarrow> 'a sched_scheme \<Rightarrow> u8 list res" where
  "uload 0 va s = Inr []"
| "uload (Suc n) va s =
     (case user_addr va s of
        Inl e \<Rightarrow> Inl e
      | Inr pa \<Rightarrow> (case uload n (va + 1) s of Inl e \<Rightarrow> Inl e | Inr bs \<Rightarrow> Inr (pmem s pa # bs)))"

fun ustore :: "u64 \<Rightarrow> u8 list \<Rightarrow> 'a sched_scheme \<Rightarrow> 'a sched_scheme res" where
  "ustore va [] s = Inr s"
| "ustore va (b # bs) s =
     (case user_addr va s of
        Inl e \<Rightarrow> Inl e
      | Inr pa \<Rightarrow> ustore (va + 1) bs (s\<lparr>pmem := (pmem s)(pa := b)\<rparr>))"

lemma user_addr_not_last:
  assumes "user_addr va s = Inr pa"
  shows "unat (va + 1) = unat va + 1"
proof -
  have "va \<noteq> - 1"
  proof
    assume "va = - 1"
    then have "PML4_IDX va = 511" by (simp add: PML4_IDX_def mask_eq_exp_minus_1)
    with assms show False by (simp add: user_addr_def split: if_splits)
  qed
  then show ?thesis by (metis Suc_eq_plus1 unatSuc add.commute add_eq_0_iff)
qed

text \<open>A string up to its terminator, and one of which the code reads at most \<open>n\<close> characters.\<close>

function ustr :: "u64 \<Rightarrow> 'a sched_scheme \<Rightarrow> string res" where
  "ustr va s =
     (case user_addr va s of
        Inl e \<Rightarrow> Inl e
      | Inr pa \<Rightarrow>
          if pmem s pa = 0 then Inr []
          else case ustr (va + 1) s of Inl e \<Rightarrow> Inl e | Inr cs \<Rightarrow> Inr (char_of (unat (pmem s pa)) # cs))"
  by pat_completeness auto
termination
proof (relation "measure (\<lambda>(va, s). 2 ^ 64 - unat va)", goal_cases)
  case (2 va s pa)
  then show ?case using unat_less_2p64 [of va] by (simp add: user_addr_not_last del: unat_less_2p64)
qed simp

declare ustr.simps [simp del]

fun ustrn :: "nat \<Rightarrow> u64 \<Rightarrow> 'a sched_scheme \<Rightarrow> string res" where
  "ustrn 0 va s = Inr []"
| "ustrn (Suc n) va s =
     (case user_addr va s of
        Inl e \<Rightarrow> Inl e
      | Inr pa \<Rightarrow>
          if pmem s pa = 0 then Inr []
          else case ustrn n (va + 1) s of Inl e \<Rightarrow> Inl e | Inr cs \<Rightarrow> Inr (char_of (unat (pmem s pa)) # cs))"

section \<open>Programs' memory\<close>

text \<open>Where the software walk of the kernel finds a page, the processor finds the same one.\<close>

lemma mmu_walk_lookup: "vmm_lookup_walk l t va m = pa \<Longrightarrow> pa \<noteq> 0 \<Longrightarrow> mmu_walk l t va m = Some pa"
  by (induction l arbitrary: t) (auto simp: Let_def split: if_splits)


abbreviation (input) task_root :: "'a sched_scheme \<Rightarrow> u64" where
  "task_root s \<equiv> cr3_phys (sched_current s)"

lemma low_va_canonical: "low_va v \<Longrightarrow> canonical v"
  by (simp add: low_va_def canonical_def word_unat_eq_iff drop_bit_eq_div unat_div)

text \<open>In the memory of a program a mapped address is translated to the byte that \<open>uread\<close> shows there.\<close>

lemma user_addr_read:
  assumes ok: "space_ok (task_root s) s" and v: "low_va v" and r: "uread (task_root s) s v = Some b"
  shows "user_addr v s = Inr (unat (vmm_lookup_phys_pml4 (task_root s) v s))"
    and "pmem s (unat (vmm_lookup_phys_pml4 (task_root s) v s)) = b"
    and "vmm_lookup_phys_pml4 (task_root s) v s \<noteq> 0"
proof -
  have mp: "mapped (task_root s) s v" using r by (auto simp: uread_def split: if_splits)
  show z: "vmm_lookup_phys_pml4 (task_root s) v s \<noteq> 0"
    using lookup_mapped [OF space_okD(1) [OF ok], of v] mp space_okD(4) [OF ok low_va_user [OF v] mp] by auto
  show "pmem s (unat (vmm_lookup_phys_pml4 (task_root s) v s)) = b"
    using lookup_mapped [OF space_okD(1) [OF ok], of v] mp r by (simp add: uread_def)
  from mmu_walk_lookup [OF refl, of 3] z low_va_user [OF v] low_va_canonical [OF v]
  show "user_addr v s = Inr (unat (vmm_lookup_phys_pml4 (task_root s) v s))"
    by (simp add: user_addr_def vmm_lookup_phys_pml4_def user_va_def del: mmu_walk.simps vmm_lookup_walk.simps)
qed

definition ureadable :: "u64 \<Rightarrow> nat \<Rightarrow> 'a sched_scheme \<Rightarrow> bool" where
  "ureadable va n s \<longleftrightarrow>
     unat va + n \<le> 2 ^ 47 \<and> (\<forall>v :: u64. unat va \<le> unat v \<longrightarrow> unat v < unat va + n \<longrightarrow> uread (task_root s) s v \<noteq> None)"

definition ubytes :: "u64 \<Rightarrow> nat \<Rightarrow> 'a sched_scheme \<Rightarrow> u8 list" where
  "ubytes va n s = map (\<lambda>k. the (uread (task_root s) s (va + of_nat k))) [0..<n]"

lemma ureadable_Suc:
  assumes "ureadable va (Suc n) s"
  shows "low_va va" "\<exists>b. uread (task_root s) s va = Some b" "ureadable (va + 1) n s" "unat (va + 1) = unat va + 1"
proof -
  show n: "unat (va + 1) = unat va + 1" using assms unat_add_small [of va 1] by (simp add: ureadable_def)
  show "low_va va" "ureadable (va + 1) n s" using assms by (auto simp: ureadable_def low_va_def n)
  show "\<exists>b. uread (task_root s) s va = Some b" using assms by (auto simp: ureadable_def)
qed

lemma ubytes_Suc: "ubytes va (Suc n) s = the (uread (task_root s) s va) # ubytes (va + 1) n s"
  by (simp add: ubytes_def upt_conv_Cons map_Suc_upt [symmetric] add.assoc o_def del: upt_Suc)

lemma uload_ubytes:
  assumes "space_ok (task_root s) s" and "ureadable va n s"
  shows "uload n va s = Inr (ubytes va n s)"
  using assms(2)
proof (induction n arbitrary: va)
  case (Suc n)
  note u = ureadable_Suc [OF Suc.prems]
  from u(2) obtain b where b: "uread (task_root s) s va = Some b" ..
  with user_addr_read [OF assms(1) u(1) b] Suc.IH [OF u(3)] show ?case by (simp add: ubytes_Suc)
qed (simp add: ubytes_def)

lemma ustore_frame: "ustore va bs s = Inr s' \<Longrightarrow> \<exists>m. s' = s\<lparr>pmem := m\<rparr>"
proof (induction bs arbitrary: va s)
  case Nil
  then have "s' = s\<lparr>pmem := pmem s\<rparr>" by simp
  then show ?case by blast
next
  case (Cons b bs)
  then obtain pa where "ustore (va + 1) bs (s\<lparr>pmem := (pmem s)(pa := b)\<rparr>) = Inr s'" by (auto split: sum.splits)
  from Cons.IH [OF this] show ?case by auto
qed

lemma sched_current_pmem [simp]: "sched_current (s\<lparr>pmem := m\<rparr>) = sched_current s"
  by (simp add: sched_current_def)

lemma ustore_is_copy:
  assumes "space_ok (task_root s) s" and "ureadable va (length bs) s"
  shows "ustore va bs s = vnl_copy_to_user_va (task_root s) va bs (length bs) s"
  using assms
proof (induction bs arbitrary: va s)
  case (Cons b bs)
  note u = ureadable_Suc [OF Cons.prems(2) [simplified]]
  from u(2) obtain c where c: "uread (task_root s) s va = Some c" ..
  note ua = user_addr_read [OF Cons.prems(1) u(1) c]
  define s1 where "s1 = s\<lparr>pmem := (pmem s)(unat (vmm_lookup_phys_pml4 (task_root s) va s) := b)\<rparr>"
  have mp: "mapped (task_root s) s va" using c by (auto simp: uread_def split: if_splits)
  note st = store_byte_space [OF Cons.prems(1) low_va_user [OF u(1)] mp s1_def]
  have r: "task_root s1 = task_root s" by (simp add: s1_def)
  have "ureadable (va + 1) (length bs) s1"
    unfolding ureadable_def r
  proof (intro conjI allI impI)
    show "unat (va + 1) + length bs \<le> 2 ^ 47" using u(3) by (simp add: ureadable_def)
    fix v :: u64
    assume v: "unat (va + 1) \<le> unat v" "unat v < unat (va + 1) + length bs"
    then have "user_va v" using u(3) by (intro low_va_user) (simp add: ureadable_def low_va_def)
    from st(3) [OF this] v u(3) show "uread (task_root s) s1 v \<noteq> None" by (auto simp: ureadable_def)
  qed
  from Cons.IH [OF _ this] st(1) ua show ?case by (simp add: r s1_def [symmetric])
qed simp

lemma ustore_space:
  assumes ok: "space_ok (task_root s) s" and r: "ureadable va (length bs) s"
  shows "\<exists>m. ustore va bs s = Inr (s\<lparr>pmem := m\<rparr>) \<and> space_ok (task_root s) (s\<lparr>pmem := m\<rparr>) \<and>
    (\<forall>v. low_va v \<longrightarrow> uread (task_root s) (s\<lparr>pmem := m\<rparr>) v =
       (if unat va \<le> unat v \<and> unat v < unat va + length bs then Some (bs ! (unat v - unat va)) else uread (task_root s) s v))"
proof -
  from copy_space [OF ok, of va bs "[]"] r obtain s' where s': "vnl_copy_to_user_va (task_root s) va bs (length bs) s = Inr s'"
    "space_ok (task_root s) s'"
    "\<forall>v. low_va v \<longrightarrow> uread (task_root s) s' v =
       (if unat va \<le> unat v \<and> unat v < unat va + length bs then Some (bs ! (unat v - unat va)) else uread (task_root s) s v)"
    by (auto simp: ureadable_def)
  with ustore_is_copy [OF ok r] have "ustore va bs s = Inr s'" by simp
  with ustore_frame [OF this] s' show ?thesis by blast
qed

text \<open>What has been stored is what is there afterwards.\<close>

lemma ubytes_eq:
  assumes "unat va + length bs \<le> 2 ^ 47"
    and "\<forall>v :: u64. unat va \<le> unat v \<longrightarrow> unat v < unat va + length bs \<longrightarrow> uread (task_root s) s v = Some (bs ! (unat v - unat va))"
  shows "ubytes va (length bs) s = bs"
proof (rule nth_equalityI)
  fix k assume "k < length (ubytes va (length bs) s)"
  then have k: "k < length bs" by (simp add: ubytes_def)
  with assms(1) have "unat (va + of_nat k) = unat va + k" by (intro unat_add_small) simp
  with assms(2) k show "ubytes va (length bs) s ! k = bs ! k" by (simp add: ubytes_def)
qed (simp add: ubytes_def)

lemma ustore_ubytes:
  assumes "space_ok (task_root s) s" and r: "ureadable va (length bs) s"
  shows "\<exists>m. ustore va bs s = Inr (s\<lparr>pmem := m\<rparr>) \<and> space_ok (task_root s) (s\<lparr>pmem := m\<rparr>) \<and> ubytes va (length bs) (s\<lparr>pmem := m\<rparr>) = bs"
proof -
  from ustore_space [OF assms] obtain m where m: "ustore va bs s = Inr (s\<lparr>pmem := m\<rparr>)" "space_ok (task_root s) (s\<lparr>pmem := m\<rparr>)"
    "\<forall>v. low_va v \<longrightarrow> uread (task_root s) (s\<lparr>pmem := m\<rparr>) v =
       (if unat va \<le> unat v \<and> unat v < unat va + length bs then Some (bs ! (unat v - unat va)) else uread (task_root s) s v)" by blast
  have "ubytes va (length bs) (s\<lparr>pmem := m\<rparr>) = bs"
  proof (rule ubytes_eq)
    show "unat va + length bs \<le> 2 ^ 47" using r by (simp add: ureadable_def)
    then show "\<forall>v :: u64. unat va \<le> unat v \<longrightarrow> unat v < unat va + length bs \<longrightarrow>
        uread (task_root (s\<lparr>pmem := m\<rparr>)) (s\<lparr>pmem := m\<rparr>) v = Some (bs ! (unat v - unat va))"
      using m(3) by (simp add: low_va_def)
  qed
  with m show ?thesis by blast
qed

section \<open>The machine inside a larger state\<close>

definition on_mach :: "mach \<Rightarrow> 'a mach_scheme \<Rightarrow> 'a mach_scheme" where
  "on_mach m s = mach.extend m (mach.more s)"

lemma on_mach_fields [simp]:
  "pmem (on_mach m s) = pmem m" "bitmap (on_mach m s) = bitmap m" "total_frames (on_mach m s) = total_frames m"
  "free_frames (on_mach m s) = free_frames m" "cr3 (on_mach m s) = cr3 m" "mach.more (on_mach m s) = mach.more s"
  by (simp_all add: on_mach_def mach.defs)

lemma space_ok_cong:
  assumes "pmem s' = pmem s" "bitmap s' = bitmap s" "total_frames s' = total_frames s" "free_frames s' = free_frames s"
  shows "space_ok root s' = space_ok root s" "uread root s' = uread root s" "free_set s' = free_set s"
proof -
  have f: "free_set s' = free_set s" by (simp add: free_set_def assms)
  have "pt_wf root s' = pt_wf root s" "pmm_inv s' = pmm_inv s" "huge_free root s' = huge_free root s" "top_private root s' = top_private root s"
    "table_frames root s' = table_frames root s" by (simp_all add: pt_wf_def pmm_inv_def huge_free_def top_private_def table_frames_def f assms)
  moreover have "mapped root s' = mapped root s" "vframe root s' = vframe root s" by (simp_all add: fun_eq_iff mapped_def vframe_def assms)
  ultimately show "space_ok root s' = space_ok root s" "uread root s' = uread root s"
    by (simp_all add: space_ok_def uread_def fun_eq_iff f assms)
  show "free_set s' = free_set s" by (fact f)
qed

lemma on_mach_space [simp]: "space_ok root (on_mach m s) = space_ok root m" "uread root (on_mach m s) = uread root m"
  "free_set (on_mach m s) = free_set m"
  by (rule space_ok_cong; simp)+

lemma on_mach_task [simp]: "sched_current (on_mach m s) = sched_current s"
proof -
  have "tasks (on_mach m s) = tasks s" "current_idx (on_mach m s) = current_idx s"
    by (cases s; simp add: on_mach_def mach.defs)+
  then show ?thesis by (simp add: sched_current_def)
qed

text \<open>One page of a program at 0x400000.\<close>

lemma demo_page:
  "\<exists>m. map_page True 4096 0x400000 7 mach_demo = Inr (True, m) \<and> space_ok 4096 m \<and>
     (\<forall>v :: u64. 0x400000 \<le> unat v \<longrightarrow> unat v < 0x401000 \<longrightarrow> uread 4096 m v = Some 0)"
proof -
  have lo: "low_va 0x400000" by (simp add: low_va_def)
  have fl: "(7 :: u64) AND - 4096 = 0" by simp
  have room: "4 \<le> card (free_set mach_demo)" by (simp add: mach_demo_state)
  from map_page_space [OF mach_demo_space low_va_user [OF lo] fl room]
  obtain m where m: "map_page True 4096 0x400000 7 mach_demo = Inr (True, m)" "space_ok 4096 m"
    "\<forall>v. user_va v \<longrightarrow> uread 4096 m v = (if vpage v = vpage 0x400000 then Some 0 else uread 4096 mach_demo v)" by blast
  have "uread 4096 m v = Some 0" if v: "0x400000 \<le> unat v" "unat v < 0x401000" for v
  proof -
    have l: "low_va v" using v by (simp add: low_va_def)
    moreover have "unat v div 4096 = 1024" using v by (intro div_nat_eqI) simp_all
    ultimately have "vpage v = vpage 0x400000" by (simp add: low_va_page [OF l] low_va_page [OF lo])
    with m(3) low_va_user [OF l] show ?thesis by simp
  qed
  with m show ?thesis by blast
qed

end
