(* ===== verification/Epoll.thy ===== *)
theory Epoll
  imports User_Mem
begin

text \<open>
  The event polling part of \<^verbatim>\<open>src/kernel/syscall.c\<close>: a table of 16 instances, each an array of 32 registered descriptors of
  which the first \<open>ep_count\<close> are in use. \<open>sys_epoll_wait\<close> sleeps a tick between two scans; as for sockets, \<open>waits\<close> is what the
  rest of the system does meanwhile.
\<close>

section \<open>State\<close>

text \<open>The union \<^verbatim>\<open>epoll_data\<close> is kept as its 64 bits. The structure has four bytes of padding before it.\<close>

record epoll_event =
  ev_events :: u32
  ev_data :: u64

record EpollEventEntry =
  ee_fd :: int
  ee_event :: epoll_event

record EpollInstance =
  ep_used :: bool
  ep_fds :: "EpollEventEntry list"
  ep_count :: nat

record sys = kio +
  epolls :: "EpollInstance list"
  fs_base :: u64

abbreviation (input) EPOLL_FD_BASE :: int where "EPOLL_FD_BASE \<equiv> 200"
abbreviation (input) MAX_EPOLLS :: nat where "MAX_EPOLLS \<equiv> 16"
abbreviation (input) MAX_EPOLL_FDS :: nat where "MAX_EPOLL_FDS \<equiv> 32"

definition put_epoll :: "nat \<Rightarrow> EpollInstance \<Rightarrow> 'a sys_scheme \<Rightarrow> 'a sys_scheme" where
  "put_epoll i ep s = s\<lparr>epolls := (epolls s)[i := ep]\<rparr>"

section \<open>Operations\<close>

definition epoll_alloc :: "'a sys_scheme \<Rightarrow> int \<times> 'a sys_scheme" where
  "epoll_alloc s =
     (case find_idx (\<lambda>ep. \<not> ep_used ep) (epolls s) of
        None \<Rightarrow> (- 1, s)
      | Some i \<Rightarrow>
          let ep = epolls s ! i
          in (int i, put_epoll i (ep\<lparr>ep_used := True, ep_count := 0, ep_fds := map (ee_fd_update (\<lambda>_. - 1)) (ep_fds ep)\<rparr>) s))"

definition sys_epoll_create1 :: "'a sys_scheme \<Rightarrow> int \<times> 'a sys_scheme" where
  "sys_epoll_create1 s =
     (case epoll_alloc s of (idx, s1) \<Rightarrow> if idx < 0 then (- ENOMEM, s1) else (EPOLL_FD_BASE + idx, s1))"

definition epoll_bad :: "int \<Rightarrow> 'a sys_scheme \<Rightarrow> bool" where
  "epoll_bad epfd s \<longleftrightarrow>
     (let idx = epfd - EPOLL_FD_BASE in idx < 0 \<or> idx \<ge> int MAX_EPOLLS \<or> \<not> ep_used (epolls s ! nat idx))"

definition ep_find :: "int \<Rightarrow> EpollInstance \<Rightarrow> nat option" where
  "ep_find fd ep = find_idx (\<lambda>e. ee_fd e = fd) (take (ep_count ep) (ep_fds ep))"

definition ep_del :: "int \<Rightarrow> EpollInstance \<Rightarrow> int \<times> EpollInstance" where
  "ep_del fd ep =
     (case ep_find fd ep of
        None \<Rightarrow> (- ENOENT, ep)
      | Some i \<Rightarrow>
          (0, ep\<lparr>ep_fds := map (\<lambda>j. if i \<le> j \<and> j < ep_count ep - 1 then ep_fds ep ! (j + 1) else ep_fds ep ! j) [0..<length (ep_fds ep)],
                 ep_count := ep_count ep - 1\<rparr>))"

definition ep_add :: "int \<Rightarrow> epoll_event \<Rightarrow> EpollInstance \<Rightarrow> int \<times> EpollInstance" where
  "ep_add fd ev ep =
     (if ep_count ep \<ge> MAX_EPOLL_FDS then (- ENOMEM, ep)
      else if ep_find fd ep \<noteq> None then (- EEXIST, ep)
      else (0, ep\<lparr>ep_fds := (ep_fds ep)[ep_count ep := \<lparr>ee_fd = fd, ee_event = ev\<rparr>], ep_count := ep_count ep + 1\<rparr>))"

definition ep_mod :: "int \<Rightarrow> epoll_event \<Rightarrow> EpollInstance \<Rightarrow> int \<times> EpollInstance" where
  "ep_mod fd ev ep =
     (case ep_find fd ep of
        None \<Rightarrow> (- ENOENT, ep)
      | Some i \<Rightarrow> (0, ep\<lparr>ep_fds := (ep_fds ep)[i := (ep_fds ep ! i)\<lparr>ee_event := ev\<rparr>]\<rparr>))"

definition event_of :: "u8 list \<Rightarrow> epoll_event" where
  "event_of bs = \<lparr>ev_events = of_nat (bytes_at bs 0 4), ev_data = of_nat (bytes_at bs 8 8)\<rparr>"

definition event_bytes :: "epoll_event \<Rightarrow> u8 list" where
  "event_bytes ev = le32 (ev_events ev) @ replicate 4 0 @ le64 (ev_data ev)"

text \<open>Removing does not look at the event; every other operation, also an unknown one, copies it first.\<close>

definition sys_epoll_ctl :: "int \<Rightarrow> int \<Rightarrow> int \<Rightarrow> u64 \<Rightarrow> 'a sys_scheme \<Rightarrow> (int \<times> 'a sys_scheme) res" where
  "sys_epoll_ctl epfd op fd event_ptr s =
     (let i = nat (epfd - EPOLL_FD_BASE); ep = epolls s ! i;
          commit = (\<lambda>(r, ep'). Inr (r, put_epoll i ep' s))
      in if epoll_bad epfd s then Inr (- EBADF, s)
         else if op = 2 then commit (ep_del fd ep)
         else case uload 16 event_ptr s of
                Inl e \<Rightarrow> Inl e
              | Inr bs \<Rightarrow>
                  if op = 1 then commit (ep_add fd (event_of bs) ep)
                  else if op = 3 then commit (ep_mod fd (event_of bs) ep)
                  else Inr (- EINVAL, s))"

text \<open>What one registered descriptor has to report: sockets are asked, everything else is always ready.\<close>

definition ep_revents :: "EpollEventEntry \<Rightarrow> 'a net_scheme \<Rightarrow> u32 res" where
  "ep_revents e s =
     (let req_events = ev_events (ee_event e)
      in if unix_is_sockfd (ee_fd e) s
         then map_sum id word_of_int (unix_sock_poll (ee_fd e) (sint req_events) s)
         else Inr (req_events AND (1 OR 4)))"

fun epoll_scan :: "EpollEventEntry list \<Rightarrow> int \<Rightarrow> epoll_event list \<Rightarrow> 'a net_scheme \<Rightarrow> epoll_event list res" where
  "epoll_scan [] maxevents out s = Inr out"
| "epoll_scan (e # es) maxevents out s =
     (case ep_revents e s of
        Inl f \<Rightarrow> Inl f
      | Inr revents \<Rightarrow>
          if revents \<noteq> 0 then
            let out' = out @ [\<lparr>ev_events = revents, ev_data = ev_data (ee_event e)\<rparr>]
            in if int (length out') \<ge> maxevents then Inr out' else epoll_scan es maxevents out' s
          else epoll_scan es maxevents out s)"

fun epoll_loop :: "nat \<Rightarrow> int \<Rightarrow> int \<Rightarrow> int \<Rightarrow> 'a sys_scheme waits \<Rightarrow> 'a sys_scheme \<Rightarrow> (epoll_event list \<times> 'a sys_scheme) res" where
  "epoll_loop idx maxevents timeout loops ws s =
     (let ep = epolls s ! idx
      in case epoll_scan (take (ep_count ep) (ep_fds ep)) maxevents [] s of
           Inl e \<Rightarrow> Inl e
         | Inr out \<Rightarrow>
             if out \<noteq> [] \<or> timeout = 0 then Inr (out, s)
             else if timeout \<ge> 0 \<and> loops \<ge> timeout then Inr (out, s)
             else case ws of
                    [] \<Rightarrow> Inl Diverges
                  | w # ws' \<Rightarrow> epoll_loop idx maxevents timeout (loops + 1) ws' (sleep_tick w s))"

definition sys_epoll_wait :: "int \<Rightarrow> u64 \<Rightarrow> int \<Rightarrow> int \<Rightarrow> 'a sys_scheme waits \<Rightarrow> 'a sys_scheme \<Rightarrow> (int \<times> 'a sys_scheme) res" where
  "sys_epoll_wait epfd events_ptr maxevents timeout ws s =
     (if epoll_bad epfd s then Inr (- EBADF, s)
      else case epoll_loop (nat (epfd - EPOLL_FD_BASE)) maxevents timeout 0 ws s of
             Inl e \<Rightarrow> Inl e
           | Inr (out, s1) \<Rightarrow>
               (case vnl_copy_to_user_va (cr3_phys (sched_current s1)) events_ptr (concat (map event_bytes out)) (16 * length out) s1 of
                  Inl e \<Rightarrow> Inl e
                | Inr s2 \<Rightarrow> Inr (int (length out), s2)))"

section \<open>A table of keyed entries\<close>

text \<open>
  What an instance promises to its clients: a list of entries with different keys, to which an operation appends, from
  which it removes by key without changing the order, and in which it replaces the value of a key.
\<close>

locale keyed_table =
  fixes inv :: "'t \<Rightarrow> bool" and entries :: "'t \<Rightarrow> 'e list" and key :: "'e \<Rightarrow> 'k" and val :: "'e \<Rightarrow> 'v"
    and limit :: nat and full exists missing :: 'r and fine :: 'r
    and add :: "'k \<Rightarrow> 'v \<Rightarrow> 't \<Rightarrow> 'r \<times> 't" and del :: "'k \<Rightarrow> 't \<Rightarrow> 'r \<times> 't" and upd :: "'k \<Rightarrow> 'v \<Rightarrow> 't \<Rightarrow> 'r \<times> 't"
  assumes distinct_keys: "inv t \<Longrightarrow> distinct (map key (entries t))"
    and add_law: "inv t \<Longrightarrow> add k v t = (r, t') \<Longrightarrow>
      (if length (entries t) \<ge> limit then r = full \<and> t' = t
       else if k \<in> key ` set (entries t) then r = exists \<and> t' = t
       else r = fine \<and> inv t' \<and> (\<exists>e. entries t' = entries t @ [e] \<and> key e = k \<and> val e = v))"
    and del_law: "inv t \<Longrightarrow> del k t = (r, t') \<Longrightarrow>
      (if k \<in> key ` set (entries t) then r = fine \<and> inv t' \<and> entries t' = filter (\<lambda>e. key e \<noteq> k) (entries t)
       else r = missing \<and> t' = t)"
    and upd_law: "inv t \<Longrightarrow> upd k v t = (r, t') \<Longrightarrow>
      (if k \<in> key ` set (entries t)
       then r = fine \<and> inv t' \<and> map key (entries t') = map key (entries t) \<and>
            map val (entries t') = map (\<lambda>e. if key e = k then v else val e) (entries t)
       else r = missing \<and> t' = t)"
begin

lemma inv_kept:
  assumes "inv t"
  shows "add k v t = (r, t') \<Longrightarrow> inv t'" "del k t = (r, t') \<Longrightarrow> inv t'" "upd k v t = (r, t') \<Longrightarrow> inv t'"
  using add_law [OF assms] del_law [OF assms] upd_law [OF assms] assms by (metis (full_types))+

text \<open>The table as a partial function from keys to values.\<close>

lemma lookup_dom: "dom (map_of (map (\<lambda>e. (key e, val e)) es)) = key ` set es"
  by (force simp: dom_map_of_conv_image_fst)

lemma lookup_size:
  assumes "inv t"
  shows "card (dom (map_of (map (\<lambda>e. (key e, val e)) (entries t)))) = length (entries t)"
  using distinct_card [OF distinct_keys [OF assms]] by (simp add: lookup_dom)

lemma lookup_append:
  "key e \<notin> key ` set es \<Longrightarrow>
   map_of (map (\<lambda>e. (key e, val e)) (es @ [e])) = (map_of (map (\<lambda>e. (key e, val e)) es))(key e \<mapsto> val e)"
  by (induction es) (auto simp: fun_upd_twist)

lemma lookup_filter:
  "map_of (map (\<lambda>e. (key e, val e)) (filter (\<lambda>e. key e \<noteq> k) es)) = (map_of (map (\<lambda>e. (key e, val e)) es))(k := None)"
  by (induction es) auto

lemma lookup_replace:
  assumes "map key es' = map key es" and "map val es' = map (\<lambda>e. if key e = k then v else val e) es" and "k \<in> key ` set es"
  shows "map_of (map (\<lambda>e. (key e, val e)) es') = (map_of (map (\<lambda>e. (key e, val e)) es))(k \<mapsto> v)"
proof -
  have z: "map (\<lambda>e. (key e, f e)) xs = zip (map key xs) (map f xs)" for f :: "'e \<Rightarrow> 'v" and xs by (induction xs) auto
  have zip_eq: "map (\<lambda>e. (key e, val e)) es' = map (\<lambda>e. (key e, if key e = k then v else val e)) es"
    unfolding z assms(1,2) ..
  have "map_of (map (\<lambda>e. (key e, if key e = k then v else val e)) es) j =
      (if j = k \<and> k \<in> key ` set es then Some v else map_of (map (\<lambda>e. (key e, val e)) es) j)" for j
    by (induction es) auto
  with zip_eq assms(3) show ?thesis by (auto simp: fun_eq_iff)
qed

end

section \<open>Instances as tables\<close>

definition ep_list :: "EpollInstance \<Rightarrow> EpollEventEntry list" where
  "ep_list ep = take (ep_count ep) (ep_fds ep)"

definition ep_ok :: "EpollInstance \<Rightarrow> bool" where
  "ep_ok ep \<longleftrightarrow> length (ep_fds ep) = MAX_EPOLL_FDS \<and> ep_count ep \<le> MAX_EPOLL_FDS \<and> distinct (map ee_fd (ep_list ep))"

lemma ep_list_length: "ep_ok ep \<Longrightarrow> length (ep_list ep) = ep_count ep"
  by (simp add: ep_ok_def ep_list_def)

lemma ep_find_iff: "ep_find fd ep = None \<longleftrightarrow> fd \<notin> ee_fd ` set (ep_list ep)"
  by (auto simp: ep_find_def find_idx_None_iff ep_list_def)

lemma ep_find_SomeD:
  assumes "ep_find fd ep = Some i" and "ep_ok ep"
  shows "i < ep_count ep" "ee_fd (ep_list ep ! i) = fd" "fd \<in> ee_fd ` set (ep_list ep)"
proof -
  show i: "i < ep_count ep" "ee_fd (ep_list ep ! i) = fd"
    using assms by (auto simp: ep_find_def find_idx_Some_iff ep_list_def ep_ok_def)
  have "ep_list ep ! i \<in> set (ep_list ep)" using i(1) ep_list_length [OF assms(2)] by simp
  with i(2) show "fd \<in> ee_fd ` set (ep_list ep)" by blast
qed

lemma ep_add_law:
  assumes ok: "ep_ok ep" and a: "ep_add fd ev ep = (r, ep')"
  shows "if length (ep_list ep) \<ge> 32 then r = - ENOMEM \<and> ep' = ep
         else if fd \<in> ee_fd ` set (ep_list ep) then r = - EEXIST \<and> ep' = ep
         else r = 0 \<and> ep_ok ep' \<and> (\<exists>e. ep_list ep' = ep_list ep @ [e] \<and> ee_fd e = fd \<and> ee_event e = ev)"
proof (cases "length (ep_list ep) \<ge> 32 \<or> fd \<in> ee_fd ` set (ep_list ep)")
  case True
  with a ep_list_length [OF ok] ep_find_iff [of fd ep] show ?thesis by (auto simp: ep_add_def split: if_splits)
next
  case False
  let ?e = "\<lparr>ee_fd = fd, ee_event = ev\<rparr>"
  have new: "r = 0" "ep' = ep\<lparr>ep_fds := (ep_fds ep)[ep_count ep := ?e], ep_count := ep_count ep + 1\<rparr>"
    using False a ep_list_length [OF ok] ep_find_iff [of fd ep] by (auto simp: ep_add_def split: if_splits)
  have l: "ep_list ep' = ep_list ep @ [?e]"
    using ok False ep_list_length [OF ok] by (simp add: new ep_list_def ep_ok_def take_Suc_conv_app_nth)
  have "ep_ok ep'" using ok False ep_list_length [OF ok] l by (auto simp: ep_ok_def new(2))
  with l False new(1) show ?thesis by auto
qed

lemma take_shift:
  assumes "i < n" "n \<le> length xs"
  shows "take (n - 1) (map (\<lambda>j. if i \<le> j \<and> j < n - 1 then xs ! (j + 1) else xs ! j) [0..<length xs]) = take i (take n xs) @ drop (Suc i) (take n xs)"
proof (rule nth_equalityI)
  fix k assume "k < length (take (n - 1) (map (\<lambda>j. if i \<le> j \<and> j < n - 1 then xs ! (j + 1) else xs ! j) [0..<length xs]))"
  then have "k < n - 1" using assms(2) by simp
  with assms show "take (n - 1) (map (\<lambda>j. if i \<le> j \<and> j < n - 1 then xs ! (j + 1) else xs ! j) [0..<length xs]) ! k =
      (take i (take n xs) @ drop (Suc i) (take n xs)) ! k" by (auto simp: nth_append)
qed (use assms in auto)

lemma filter_remove_nth:
  assumes "distinct (map f xs)" "i < length xs"
  shows "filter (\<lambda>x. f x \<noteq> f (xs ! i)) xs = take i xs @ drop (Suc i) xs"
proof -
  have d: "f (xs ! j) = f (xs ! i) \<longleftrightarrow> j = i" if "j < length xs" for j
    using assms that by (simp add: distinct_conv_nth) metis
  have "filter (\<lambda>x. f x \<noteq> f (xs ! i)) (take i xs) = take i xs"
    using d assms(2) by (auto simp: filter_id_conv in_set_conv_nth)
  moreover have "filter (\<lambda>x. f x \<noteq> f (xs ! i)) (drop (Suc i) xs) = drop (Suc i) xs"
    using d by (auto simp: filter_id_conv in_set_conv_nth)
  ultimately have "filter (\<lambda>x. f x \<noteq> f (xs ! i)) (take i xs @ xs ! i # drop (Suc i) xs) = take i xs @ drop (Suc i) xs" by simp
  then show ?thesis by (simp add: id_take_nth_drop [OF assms(2), symmetric])
qed

lemma ep_del_law:
  assumes ok: "ep_ok ep" and a: "ep_del fd ep = (r, ep')"
  shows "if fd \<in> ee_fd ` set (ep_list ep) then r = 0 \<and> ep_ok ep' \<and> ep_list ep' = filter (\<lambda>e. ee_fd e \<noteq> fd) (ep_list ep)
         else r = - ENOENT \<and> ep' = ep"
proof (cases "ep_find fd ep")
  case None
  with a ep_find_iff [of fd ep] show ?thesis by (simp add: ep_del_def)
next
  case (Some i)
  note i = ep_find_SomeD [OF Some ok]
  have l: "ep_list ep' = filter (\<lambda>e. ee_fd e \<noteq> fd) (ep_list ep)" and r: "r = 0" and c: "ep_count ep' = ep_count ep - 1" "length (ep_fds ep') = 32"
    using a Some ok i take_shift [OF i(1), of "ep_fds ep"] filter_remove_nth [of ee_fd "ep_list ep" i]
    by (auto simp: ep_del_def ep_ok_def ep_list_def)
  have "ep_ok ep'" using ok c by (auto simp: ep_ok_def l distinct_map_filter)
  with l r i(3) show ?thesis by simp
qed

lemma ep_mod_law:
  assumes ok: "ep_ok ep" and a: "ep_mod fd ev ep = (r, ep')"
  shows "if fd \<in> ee_fd ` set (ep_list ep)
         then r = 0 \<and> ep_ok ep' \<and> map ee_fd (ep_list ep') = map ee_fd (ep_list ep) \<and>
              map ee_event (ep_list ep') = map (\<lambda>e. if ee_fd e = fd then ev else ee_event e) (ep_list ep)
         else r = - ENOENT \<and> ep' = ep"
proof (cases "ep_find fd ep")
  case None
  with a ep_find_iff [of fd ep] show ?thesis by (simp add: ep_mod_def)
next
  case (Some i)
  note i = ep_find_SomeD [OF Some ok]
  have new: "r = 0" "ep' = ep\<lparr>ep_fds := (ep_fds ep)[i := (ep_fds ep ! i)\<lparr>ee_event := ev\<rparr>]\<rparr>"
    using a Some by (auto simp: ep_mod_def)
  have il: "i < length (ep_list ep)" using i(1) ep_list_length [OF ok] by simp
  have l: "ep_list ep' = (ep_list ep)[i := (ep_list ep ! i)\<lparr>ee_event := ev\<rparr>]"
    using i(1) by (simp add: new ep_list_def take_update_swap)
  have d: "ee_fd (ep_list ep ! j) = fd \<longleftrightarrow> j = i" if "j < length (ep_list ep)" for j
    using ok that il i(2) by (auto simp: ep_ok_def distinct_conv_nth)
  have k: "map ee_fd (ep_list ep') = map ee_fd (ep_list ep)"
    by (rule nth_equalityI) (use il in \<open>auto simp: l nth_list_update\<close>)
  have "map ee_event (ep_list ep') = map (\<lambda>e. if ee_fd e = fd then ev else ee_event e) (ep_list ep)"
    by (rule nth_equalityI) (use il in \<open>auto simp: l nth_list_update d\<close>)
  moreover have "ep_ok ep'" using ok k by (simp add: ep_ok_def new(2))
  ultimately show ?thesis using new(1) k i(3) by simp
qed

interpretation ept: keyed_table ep_ok ep_list ee_fd ee_event 32 "- ENOMEM" "- EEXIST" "- ENOENT" "0 :: int" ep_add ep_del ep_mod
proof unfold_locales
  show "distinct (map ee_fd (ep_list t))" if "ep_ok t" for t using that by (simp add: ep_ok_def)
qed (fact ep_add_law, fact ep_del_law, fact ep_mod_law)

section \<open>Registration as a finite map\<close>

text \<open>What \<^verbatim>\<open>epoll_ctl\<close> is meant to do with the registered descriptors of an instance.\<close>

fun ctl_spec :: "int \<Rightarrow> int \<Rightarrow> epoll_event \<Rightarrow> (int \<rightharpoonup> epoll_event) \<Rightarrow> int \<times> (int \<rightharpoonup> epoll_event)" where
  "ctl_spec op fd ev m =
     (if op = 1 then
        if card (dom m) \<ge> 32 then (- ENOMEM, m) else if fd \<in> dom m then (- EEXIST, m) else (0, m(fd \<mapsto> ev))
      else if op = 2 then if fd \<in> dom m then (0, m(fd := None)) else (- ENOENT, m)
      else if op = 3 then if fd \<in> dom m then (0, m(fd \<mapsto> ev)) else (- ENOENT, m)
      else (- EINVAL, m))"

definition ep_map :: "EpollInstance \<Rightarrow> int \<rightharpoonup> epoll_event" where
  "ep_map ep = map_of (map (\<lambda>e. (ee_fd e, ee_event e)) (ep_list ep))"

lemma ep_add_map:
  assumes ok: "ep_ok ep" and a: "ep_add fd ev ep = (r, ep')"
  shows "ctl_spec 1 fd ev (ep_map ep) = (r, ep_map ep')"
  using ep_add_law [OF assms] ept.lookup_size [OF ok] ept.lookup_append [of _ "ep_list ep"]
  by (auto simp: ep_map_def ept.lookup_dom split: if_splits)

lemma ep_del_map:
  assumes ok: "ep_ok ep" and a: "ep_del fd ep = (r, ep')"
  shows "ctl_spec 2 fd ev (ep_map ep) = (r, ep_map ep')"
  using ep_del_law [OF assms] ept.lookup_filter [of fd "ep_list ep"]
  by (auto simp: ep_map_def ept.lookup_dom split: if_splits)

lemma ep_mod_map:
  assumes ok: "ep_ok ep" and a: "ep_mod fd ev ep = (r, ep')"
  shows "ctl_spec 3 fd ev (ep_map ep) = (r, ep_map ep')"
  using ep_mod_law [OF assms] ept.lookup_replace [of "ep_list ep'" "ep_list ep" fd ev]
  by (auto simp: ep_map_def ept.lookup_dom split: if_splits)

definition epolls_ok :: "'a sys_scheme \<Rightarrow> bool" where
  "epolls_ok s \<longleftrightarrow> length (epolls s) = MAX_EPOLLS \<and> (\<forall>ep \<in> set (epolls s). length (ep_fds ep) = MAX_EPOLL_FDS \<and> (ep_used ep \<longrightarrow> ep_ok ep))"

lemma epolls_ok_put:
  assumes "epolls_ok s" "ep_ok ep"
  shows "epolls_ok (put_epoll i ep s)"
  using assms by (auto simp: epolls_ok_def put_epoll_def ep_ok_def dest!: set_update_subset_insert [THEN subsetD])

lemma live_instance:
  assumes "epolls_ok s" and "\<not> epoll_bad epfd s"
  shows "nat (epfd - 200) < 16" "ep_used (epolls s ! nat (epfd - 200))" "ep_ok (epolls s ! nat (epfd - 200))"
proof -
  show i: "nat (epfd - 200) < 16" "ep_used (epolls s ! nat (epfd - 200))" using assms(2) by (auto simp: epoll_bad_def Let_def)
  then show "ep_ok (epolls s ! nat (epfd - 200))" using assms(1) by (simp add: epolls_ok_def)
qed

lemma epoll_alloc_ok: "epolls_ok s \<Longrightarrow> epolls_ok (snd (epoll_alloc s))"
proof (cases "find_idx (\<lambda>ep. \<not> ep_used ep) (epolls s)")
  case (Some i)
  assume ok: "epolls_ok s"
  with Some have "length (ep_fds (epolls s ! i)) = 32" by (auto simp: find_idx_Some_iff epolls_ok_def)
  with ok Some show ?thesis
    by (auto simp: epoll_alloc_def Let_def ep_ok_def ep_list_def intro!: epolls_ok_put)
qed (simp add: epoll_alloc_def)

lemma epoll_ctl_refines:
  assumes ok: "epolls_ok s" and live: "\<not> epoll_bad epfd s" and ev: "op = 2 \<or> uload 16 event_ptr s = Inr bs"
  shows "\<exists>r s'. sys_epoll_ctl epfd op fd event_ptr s = Inr (r, s') \<and> epolls_ok s' \<and> (\<exists>ep'. s' = put_epoll (nat (epfd - 200)) ep' s \<and>
    ctl_spec op fd (event_of bs) (ep_map (epolls s ! nat (epfd - 200))) = (r, ep_map ep'))"
proof -
  let ?i = "nat (epfd - 200)" and ?ev = "event_of bs"
  let ?ep = "epolls s ! ?i"
  note l = live_instance [OF ok live]
  have fin: ?thesis if "sys_epoll_ctl epfd op fd event_ptr s = Inr (r, put_epoll ?i ep' s)" "ep_ok ep'"
    "ctl_spec op fd ?ev (ep_map ?ep) = (r, ep_map ep')" for r ep'
    using that epolls_ok_put [OF ok that(2)] by blast
  consider "op = 1" | "op = 2" | "op = 3" | "op \<notin> {1, 2, 3}" by blast
  then show ?thesis
  proof cases
    case 1
    obtain r ep' where a: "ep_add fd ?ev ?ep = (r, ep')" by fastforce
    with 1 ev live ep_add_map [OF l(3) a] show ?thesis
      by (intro fin [OF _ ept.inv_kept(1) [OF l(3) a]]) (auto simp: sys_epoll_ctl_def Let_def)
  next
    case 2
    obtain r ep' where a: "ep_del fd ?ep = (r, ep')" by fastforce
    with 2 live ep_del_map [OF l(3) a, of ?ev] show ?thesis
      by (intro fin [OF _ ept.inv_kept(2) [OF l(3) a]]) (auto simp: sys_epoll_ctl_def Let_def)
  next
    case 3
    obtain r ep' where a: "ep_mod fd ?ev ?ep = (r, ep')" by fastforce
    with 3 ev live ep_mod_map [OF l(3) a] show ?thesis
      by (intro fin [OF _ ept.inv_kept(3) [OF l(3) a]]) (auto simp: sys_epoll_ctl_def Let_def)
  next
    case 4
    have "put_epoll ?i ?ep s = s" by (simp add: put_epoll_def)
    with 4 ev live show ?thesis by (intro fin [OF _ l(3)]) (auto simp: sys_epoll_ctl_def Let_def)
  qed
qed

section \<open>Waiting\<close>

text \<open>With a table of sockets in order every registered descriptor can be asked.\<close>

lemma ep_revents_returns: "net_ok s \<Longrightarrow> \<exists>rv. ep_revents e s = Inr rv"
proof -
  assume ok: "net_ok s"
  have "\<exists>v. unix_sock_poll fd evs s = Inr v" if fd: "unix_is_sockfd fd s" for fd evs
  proof -
    let ?i = "nat (idx_from_fd fd)"
    have i: "?i < 24" "u_used (socks s ! ?i)" using fd by (auto simp: unix_is_sockfd_def idx_from_fd_def split: if_splits)
    from net_okD(3) [OF ok this] have "peer_idx (socks s ! ?i) = - 1 \<or> 0 \<le> peer_idx (socks s ! ?i) \<and> peer_idx (socks s ! ?i) < int (length (socks s))"
      by (auto simp: peer_ok_def)
    with fd show ?thesis by (auto simp: unix_sock_poll_def Let_def)
  qed
  from this [of "ee_fd e" "sint (ev_events (ee_event e))"] show ?thesis by (auto simp: ep_revents_def Let_def)
qed

definition ready_events :: "EpollEventEntry list \<Rightarrow> 'a net_scheme \<Rightarrow> epoll_event list" where
  "ready_events es s =
     concat (map (\<lambda>e. case ep_revents e s of Inl _ \<Rightarrow> []
                      | Inr rv \<Rightarrow> if rv = 0 then [] else [\<lparr>ev_events = rv, ev_data = ev_data (ee_event e)\<rparr>]) es)"

lemma epoll_scan_ready:
  assumes "net_ok s" and "int (length out) < max 1 mx"
  shows "epoll_scan es mx out s = Inr (out @ take (nat (max 1 mx) - length out) (ready_events es s))"
  using assms(2)
proof (induction es arbitrary: out)
  case (Cons e es)
  obtain rv where rv: "ep_revents e s = Inr rv" using ep_revents_returns [OF assms(1)] by blast
  let ?v = "\<lparr>ev_events = rv, ev_data = ev_data (ee_event e)\<rparr>"
  have r: "ready_events (e # es) s = (if rv = 0 then [] else [?v]) @ ready_events es s" by (simp add: ready_events_def rv)
  have k: "nat (max 1 mx) - length out = Suc (nat (max 1 mx) - Suc (length out))" using Cons.prems by linarith
  show ?case
  proof (cases "rv = 0 \<or> int (length out) + 1 \<ge> mx")
    case True
    then show ?thesis using Cons rv r k by (auto simp: max_def split: if_splits)
  next
    case False
    then have "epoll_scan es mx (out @ [?v]) s = Inr ((out @ [?v]) @ take (nat (max 1 mx) - length (out @ [?v])) (ready_events es s))"
      using Cons.prems by (intro Cons.IH) auto
    with False rv r k show ?thesis by simp
  qed
qed (simp add: ready_events_def)

lemma length_event_bytes: "length (event_bytes ev) = 16"
  by (simp add: event_bytes_def le32_def le64_def)

lemma length_events: "length (concat (map event_bytes evs)) = 16 * length evs"
  by (induction evs) (auto simp: length_event_bytes)

lemma epoll_wait_ready:
  assumes ok: "net_ok s" and live: "\<not> epoll_bad epfd s"
    and sp: "space_ok (task_root s) s"
    and evs: "evs = take (nat (max 1 maxevents)) (ready_events (ep_list (epolls s ! nat (epfd - 200))) s)" "evs \<noteq> [] \<or> timeout = 0"
    and buf: "ureadable events_ptr (16 * length evs) s"
  shows "\<exists>m. sys_epoll_wait epfd events_ptr maxevents timeout ws s = Inr (int (length evs), s\<lparr>pmem := m\<rparr>) \<and>
    ubytes events_ptr (16 * length evs) (s\<lparr>pmem := m\<rparr>) = concat (map event_bytes evs)"
proof -
  let ?bs = "concat (map event_bytes evs)"
  have scan: "epoll_scan (ep_list (epolls s ! nat (epfd - 200))) maxevents [] s = Inr evs"
    using epoll_scan_ready [OF ok, of "[]" maxevents] evs(1) by simp
  have loop: "epoll_loop (nat (epfd - 200)) maxevents timeout 0 ws s = Inr (evs, s)"
    using scan evs(2) by (subst epoll_loop.simps) (auto simp: Let_def ep_list_def)
  have buf': "ureadable events_ptr (length ?bs) s" using buf by (simp add: length_events)
  from ustore_ubytes [OF sp buf'] obtain m where m: "ustore events_ptr ?bs s = Inr (s\<lparr>pmem := m\<rparr>)"
    "ubytes events_ptr (length ?bs) (s\<lparr>pmem := m\<rparr>) = ?bs" by blast
  from m(1) ustore_is_copy [OF sp buf'] loop live
  have "sys_epoll_wait epfd events_ptr maxevents timeout ws s = Inr (int (length evs), s\<lparr>pmem := m\<rparr>)"
    by (simp add: sys_epoll_wait_def length_events del: epoll_loop.simps)
  with m(2) show ?thesis by (intro exI [of _ m]) (simp add: length_events)
qed

section \<open>Properties\<close>

text \<open>
  C17: as long as the event can be read, \<^verbatim>\<open>epoll_ctl\<close> on a live instance returns and does to the registered descriptors what
  \<open>ctl_spec\<close> says for a finite map from descriptors to events: adding refuses a 33rd descriptor and one that is there,
  changing and removing refuse one that is not. No other instance changes, and the table stays well formed.
\<close>

theorem epoll_ctl_refines_map:
  assumes "epolls_ok s" and "\<not> epoll_bad epfd s" and "op = 2 \<or> uload 16 event_ptr s = Inr bs"
  shows "\<exists>r s'. sys_epoll_ctl epfd op fd event_ptr s = Inr (r, s') \<and> epolls_ok s' \<and> (\<exists>ep'. s' = put_epoll (nat (epfd - 200)) ep' s \<and>
    ctl_spec op fd (event_of bs) (ep_map (epolls s ! nat (epfd - 200))) = (r, ep_map ep'))"
  using assms by (rule epoll_ctl_refines)

text \<open>A task with one page of memory, and an instance with one descriptor registered.\<close>

definition sys_demo :: sys where
  "sys_demo =
     kio.extend (kio_demo\<lparr>tasks := [task_zero\<lparr>cr3_phys := 4096\<rparr>], num_tasks := 1, current_idx := 0\<rparr>)
       \<lparr>epolls = (replicate 16 \<lparr>ep_used = False, ep_fds = replicate 32 \<lparr>ee_fd = 0, ee_event = \<lparr>ev_events = 0, ev_data = 0\<rparr>\<rparr>, ep_count = 0\<rparr>)
          [0 := \<lparr>ep_used = True,
                 ep_fds = (replicate 32 \<lparr>ee_fd = 0, ee_event = \<lparr>ev_events = 0, ev_data = 0\<rparr>\<rparr>)
                   [0 := \<lparr>ee_fd = 5, ee_event = \<lparr>ev_events = 1, ev_data = 7\<rparr>\<rparr>],
                 ep_count = 1\<rparr>],
        fs_base = 0\<rparr>"

lemma on_mach_sys [simp]: "epolls (on_mach m s) = epolls s" "socks (on_mach m s) = socks s"
  by (cases s; simp add: on_mach_def mach.defs)+

lemma sys_demo_root: "cr3_phys (sched_current sys_demo) = 4096"
  by (simp add: sys_demo_def sched_current_def kio.defs)

lemma sys_demo_ok: "epolls_ok sys_demo" "\<not> epoll_bad 200 sys_demo" "net_ok sys_demo"
  "ep_list (epolls sys_demo ! 0) = [\<lparr>ee_fd = 5, ee_event = \<lparr>ev_events = 1, ev_data = 7\<rparr>\<rparr>]"
proof -
  let ?z = "\<lparr>ee_fd = 0, ee_event = \<lparr>ev_events = 0, ev_data = 0\<rparr>\<rparr>" and ?e = "\<lparr>ee_fd = 5, ee_event = \<lparr>ev_events = 1, ev_data = 7\<rparr>\<rparr>"
  have l: "ep_list \<lparr>ep_used = True, ep_fds = (replicate 32 ?z)[0 := ?e], ep_count = 1\<rparr> = [?e]"
    by (simp add: ep_list_def take_Suc_conv_app_nth)
  then show "ep_list (epolls sys_demo ! 0) = [?e]" by (simp add: sys_demo_def kio.defs)
  from l show "epolls_ok sys_demo"
    by (auto simp: epolls_ok_def sys_demo_def kio.defs ep_ok_def dest!: set_update_subset_insert [THEN subsetD])
  show "\<not> epoll_bad 200 sys_demo" by (simp add: epoll_bad_def sys_demo_def kio.defs)
  have "net_ok net_demo_pair" by (rule net_run_ok [OF net_demo_pair_run]) (simp add: net_demo_def unix_socket_init_ok)
  then show "net_ok sys_demo"
    by (rule net_ok_cong [THEN iffD2, rotated]) (simp add: sys_demo_def kio_demo_def kio.defs net.defs)
qed

lemma epolls_ok_on_mach [simp]: "epolls_ok (on_mach m s) = epolls_ok s" "epoll_bad fd (on_mach m s) = epoll_bad fd s"
  "net_ok (on_mach m s) = net_ok s"
  by (simp_all add: epolls_ok_def epoll_bad_def net_ok_def)

text \<open>The page of the demonstration can be read.\<close>

lemma demo_readable:
  assumes "\<forall>v :: u64. 0x400000 \<le> unat v \<longrightarrow> unat v < 0x401000 \<longrightarrow> uread 4096 m v = Some 0" and "n \<le> 4096"
    and "cr3_phys (sched_current s) = 4096"
  shows "ureadable 0x400000 n (on_mach m s)" "ubytes 0x400000 n (on_mach m s) = replicate n 0"
proof -
  show "ureadable 0x400000 n (on_mach m s)" using assms by (simp add: ureadable_def)
  have "ubytes 0x400000 (length (replicate n (0 :: u8))) (on_mach m s) = replicate n 0"
    using assms by (intro ubytes_eq) simp_all
  then show "ubytes 0x400000 n (on_mach m s) = replicate n 0" by simp
qed

theorem epoll_ctl_refines_map_witness:
  "\<exists>m s'. map_page True 4096 0x400000 7 mach_demo = Inr (True, m) \<and>
     sys_epoll_ctl 200 1 128 0x400000 (on_mach m sys_demo) = Inr (0, s') \<and>
     ep_map (epolls s' ! 0) = [5 \<mapsto> \<lparr>ev_events = 1, ev_data = 7\<rparr>, 128 \<mapsto> \<lparr>ev_events = 0, ev_data = 0\<rparr>]"
proof -
  obtain m where m: "map_page True 4096 0x400000 7 mach_demo = Inr (True, m)" "space_ok 4096 m"
    "\<forall>v :: u64. 0x400000 \<le> unat v \<longrightarrow> unat v < 0x401000 \<longrightarrow> uread 4096 m v = Some 0" using demo_page by blast
  have "uload 16 0x400000 (on_mach m sys_demo) = Inr (replicate 16 0)"
    using uload_ubytes [OF _ demo_readable(1) [OF m(3) _ sys_demo_root]] demo_readable(2) [OF m(3) _ sys_demo_root] m(2)
    by (simp add: sys_demo_root del: uload.simps)
  then have ev: "(1 :: int) = 2 \<or> uload 16 0x400000 (on_mach m sys_demo) = Inr (replicate 16 0)" ..
  have e0: "event_of (replicate 16 0) = \<lparr>ev_events = 0, ev_data = 0\<rparr>" by (simp add: event_of_def bytes_at_def)
  have d0: "ep_map (epolls sys_demo ! 0) = [5 \<mapsto> \<lparr>ev_events = 1, ev_data = 7\<rparr>]" by (simp add: ep_map_def sys_demo_ok(4))
  from epoll_ctl_refines_map [OF _ _ ev, of 200 128] obtain r s' ep'
    where "sys_epoll_ctl 200 1 128 0x400000 (on_mach m sys_demo) = Inr (r, s')" "s' = put_epoll 0 ep' (on_mach m sys_demo)"
      "(r, ep_map ep') = (0, [5 \<mapsto> \<lparr>ev_events = 1, ev_data = 7\<rparr>, 128 \<mapsto> \<lparr>ev_events = 0, ev_data = 0\<rparr>])"
    by (auto simp: sys_demo_ok e0 d0)
  moreover from this(2) have "epolls s' ! 0 = ep'" using sys_demo_ok(1) by (simp add: put_epoll_def epolls_ok_def)
  ultimately show ?thesis using m(1) by auto
qed

text \<open>
  C29: when some registered descriptor is ready, or the time limit is 0, \<^verbatim>\<open>epoll_wait\<close> returns without sleeping. It stores the
  first \<open>maxevents\<close> ready ones (one, if that is not positive) in the order of registration, and nothing but the
  memory of the program changes.
\<close>

theorem epoll_wait_reports_ready:
  assumes "net_ok s" and "\<not> epoll_bad epfd s" and "space_ok (task_root s) s"
    and "evs = take (nat (max 1 maxevents)) (ready_events (ep_list (epolls s ! nat (epfd - 200))) s)" and "evs \<noteq> [] \<or> timeout = 0"
    and "ureadable events_ptr (16 * length evs) s"
  shows "\<exists>m. sys_epoll_wait epfd events_ptr maxevents timeout ws s = Inr (int (length evs), s\<lparr>pmem := m\<rparr>) \<and>
    ubytes events_ptr (16 * length evs) (s\<lparr>pmem := m\<rparr>) = concat (map event_bytes evs)"
  using assms by (rule epoll_wait_ready)

theorem epoll_wait_reports_ready_witness:
  "\<exists>m p. map_page True 4096 0x400000 7 mach_demo = Inr (True, m) \<and>
     sys_epoll_wait 200 0x400000 8 (- 1) [] (on_mach m sys_demo) = Inr (1, (on_mach m sys_demo)\<lparr>pmem := p\<rparr>) \<and>
     ubytes 0x400000 16 ((on_mach m sys_demo)\<lparr>pmem := p\<rparr>) = event_bytes \<lparr>ev_events = 1, ev_data = 7\<rparr>"
proof -
  obtain m where m: "map_page True 4096 0x400000 7 mach_demo = Inr (True, m)" "space_ok 4096 m"
    "\<forall>v :: u64. 0x400000 \<le> unat v \<longrightarrow> unat v < 0x401000 \<longrightarrow> uread 4096 m v = Some 0" using demo_page by blast
  have rd: "ready_events (ep_list (epolls (on_mach m sys_demo) ! 0)) (on_mach m sys_demo) = [\<lparr>ev_events = 1, ev_data = 7\<rparr>]"
    by (simp add: sys_demo_ok(4) ready_events_def ep_revents_def unix_is_sockfd_def idx_from_fd_def)
  from epoll_wait_reports_ready [where s = "on_mach m sys_demo" and epfd = 200 and evs = "[\<lparr>ev_events = 1, ev_data = 7\<rparr>]" and
      maxevents = 8 and timeout = "- 1" and events_ptr = "0x400000" and ws = "[]"]
    demo_readable(1) [OF m(3) _ sys_demo_root] m(1,2) rd show ?thesis
    by (auto simp: sys_demo_ok sys_demo_root)
qed

end
