(* ===== verification/Syscall.thy ===== *)
theory Syscall
  imports Epoll
begin

text \<open>
  \<^verbatim>\<open>src/kernel/syscall.c\<close>: the handler of interrupt 0x80, one definition for each case of its switch that does more than
  call one function, and \<open>syscall_handler\<close> itself, which takes the interrupt frame and returns it with the result in
  \<^verbatim>\<open>rax\<close>. A call that does not return (\<^verbatim>\<open>exit\<close>) gives no frame. What the rest of the system does while a call blocks is
  in \<open>sysenv\<close>: the turns of the scheduler, the keyboard interrupts, and the stack pointer of the frame that a final
  switch pushes. A path or message that a call takes by pointer is read as a whole before the call handles it; an
  unmapped page in it is an exception even where an error in an earlier part would have come first.
\<close>

section \<open>Frames\<close>

record Registers =
  r_gs :: u64
  r_fs :: u64
  r_es :: u64
  r_ds :: u64
  r_r15 :: u64
  r_r14 :: u64
  r_r13 :: u64
  r_r12 :: u64
  r_r11 :: u64
  r_r10 :: u64
  r_r9 :: u64
  r_r8 :: u64
  r_rbp :: u64
  r_rdi :: u64
  r_rsi :: u64
  r_rdx :: u64
  r_rcx :: u64
  r_rbx :: u64
  r_rax :: u64
  r_int_no :: u64
  r_err_code :: u64
  r_rip :: u64
  r_cs :: u64
  r_rflags :: u64
  r_rsp :: u64
  r_ss :: u64

record 's sysenv =
  env_waits :: "'s waits"
  env_irqs :: "(u8 \<times> u8) list list"
  env_rsp :: u64

section \<open>Reading and writing\<close>

fun vga_put_bytes :: "u8 list \<Rightarrow> console \<Rightarrow> console res" where
  "vga_put_bytes [] c = Inr c"
| "vga_put_bytes (b # bs) c = (case vga_putchar b c of Inl e \<Rightarrow> Inl e | Inr c1 \<Rightarrow> vga_put_bytes bs c1)"

text \<open>Whether a write to a descriptor gets as far as handling the bytes of the buffer.\<close>

definition takes_bytes :: "int \<Rightarrow> 'a net_scheme \<Rightarrow> bool" where
  "takes_bytes fd s \<longleftrightarrow>
     (if unix_is_sockfd fd s
      then u_state (socks s ! nat (idx_from_fd fd)) = SK_CONNECTED \<and> peer_idx (socks s ! nat (idx_from_fd fd)) \<noteq> PEER_NONE
      else case vfs_node_from_fd fd s of
             None \<Rightarrow> False
           | Some i \<Rightarrow>
               let n = nodes s ! i
               in o_write (f_flags (fds s ! nat fd)) \<and>
                  (n_type n = VFS_FILE \<or> n_type n = VFS_CHR \<and> n_major n \<in> {DEV_SHM_MAJOR, DEV_SERIAL_MAJOR}))"

definition write_fd :: "int \<Rightarrow> u64 \<Rightarrow> u64 \<Rightarrow> 'a net_scheme \<Rightarrow> (int \<times> 'a net_scheme) res" where
  "write_fd fd buf len s =
     (let put = (\<lambda>bs. if unix_is_sockfd fd s then unix_sock_write fd bs s else vfs_write fd bs s)
      in if takes_bytes fd s
         then (case uload (unat len) buf s of Inl e \<Rightarrow> Inl e | Inr bs \<Rightarrow> put bs)
         else put (replicate (unat len) 0))"

definition sys_write :: "int \<Rightarrow> u64 \<Rightarrow> u64 \<Rightarrow> 'a net_scheme \<Rightarrow> (int \<times> 'a net_scheme) res" where
  "sys_write fd buf len s =
     (if fd = 1 \<or> fd = 2 then
        (case uload (unat len) buf s of
           Inl e \<Rightarrow> Inl e
         | Inr bs \<Rightarrow> (case vga_put_bytes bs (con s) of Inl e \<Rightarrow> Inl e | Inr c \<Rightarrow> write_fd fd buf len (s\<lparr>con := c\<rparr>)))
      else write_fd fd buf len s)"

definition read_fd :: "int \<Rightarrow> u64 \<Rightarrow> u64 \<Rightarrow> 'a net_scheme waits \<Rightarrow> 'a net_scheme \<Rightarrow> (int \<times> 'a net_scheme) res" where
  "read_fd fd buf len ws s =
     (case (if unix_is_sockfd fd s then unix_sock_read fd len ws s else vfs_read fd len s) of
        Inl e \<Rightarrow> Inl e
      | Inr (r, bs, s1) \<Rightarrow> (case ustore buf bs s1 of Inl e \<Rightarrow> Inl e | Inr s2 \<Rightarrow> Inr (r, s2)))"

text \<open>Standard input without data waits for a key.\<close>

definition sys_read :: "int \<Rightarrow> u64 \<Rightarrow> u64 \<Rightarrow> 'a net_scheme sysenv \<Rightarrow> 'a net_scheme \<Rightarrow> (int \<times> 'a net_scheme) res" where
  "sys_read fd buf len env s =
     (case read_fd fd buf len (env_waits env) s of
        Inl e \<Rightarrow> Inl e
      | Inr (r, s1) \<Rightarrow>
          if \<not> unix_is_sockfd fd s \<and> r \<le> 0 \<and> fd = 0 then
            case keyboard_getchar (env_irqs env) (kbd_dev s1) of
              None \<Rightarrow> Inl Diverges
            | Some (c, _, k) \<Rightarrow>
                (case ustore buf [word_of_int c] (s1\<lparr>kbd_dev := k\<rparr>) of Inl e \<Rightarrow> Inl e | Inr s2 \<Rightarrow> Inr (1, s2))
          else Inr (r, s1))"

definition with_path :: "u64 \<Rightarrow> (string \<Rightarrow> 'a sched_scheme \<Rightarrow> 'r res) \<Rightarrow> 'a sched_scheme \<Rightarrow> 'r res" where
  "with_path ptr f s = (case ustr ptr s of Inl e \<Rightarrow> Inl e | Inr path \<Rightarrow> f path s)"

definition sys_ioctl :: "int \<Rightarrow> u64 \<Rightarrow> u64 \<Rightarrow> 'a sched_scheme \<Rightarrow> (int \<times> 'a sched_scheme) res" where
  "sys_ioctl fd request arg s =
     (case vfs_ioctl fd request arg s of (r, bs) \<Rightarrow>
        (case ustore arg bs s of Inl e \<Rightarrow> Inl e | Inr s1 \<Rightarrow> Inr (r, s1)))"

section \<open>Memory\<close>

definition put_current :: "task \<Rightarrow> 'a sched_scheme \<Rightarrow> 'a sched_scheme" where
  "put_current t s = put_task (current_idx s) t s"

text \<open>
  The loop of \<^verbatim>\<open>brk\<close> goes from one page boundary to another in page steps: when the new end is above the old one it has exactly that many turns.
\<close>

definition sys_brk :: "u64 \<Rightarrow> 'a sched_scheme \<Rightarrow> (int \<times> 'a sched_scheme) res" where
  "sys_brk nb s =
     (let t = sched_current s
      in if brk_start t = 0 \<and> brk_end t = 0 then Inr (if nb = 0 then 0 else - ENOMEM, s)
         else if nb = 0 then Inr (c_int64 (brk_end t), s)
         else if nb < brk_start t then Inr (c_int64 (brk_end t), s)
         else let old_pg = ALIGN_UP (brk_end t) PAGE_SIZE; new_pg = ALIGN_UP nb PAGE_SIZE
              in case map_fresh True (if old_pg < new_pg then unat (new_pg - old_pg) div 4096 else 0) (cr3_phys t) old_pg USER_RW s of
                   Inl e \<Rightarrow> Inl e
                 | Inr (False, s1) \<Rightarrow> Inr (c_int64 (brk_end t), s1)
                 | Inr (True, s1) \<Rightarrow> Inr (c_int64 nb, put_current ((sched_current s1)\<lparr>brk_end := nb\<rparr>) s1))"

fun map_phys :: "nat \<Rightarrow> u64 \<Rightarrow> u64 \<Rightarrow> u64 \<Rightarrow> 'a mach_scheme \<Rightarrow> 'a mach_scheme res" where
  "map_phys 0 pml4 va pa s = Inr s"
| "map_phys (Suc n) pml4 va pa s =
     (case vmm_map_in_pml4 pml4 va pa USER_RW s of
        Inl e \<Rightarrow> Inl e
      | Inr s1 \<Rightarrow> map_phys n pml4 (va + PAGE_SIZE) (pa + PAGE_SIZE) s1)"

fun map_shm :: "nat \<Rightarrow> int \<Rightarrow> u64 \<Rightarrow> u64 \<Rightarrow> u64 \<Rightarrow> 'a shm_scheme \<Rightarrow> (bool \<times> 'a shm_scheme) res" where
  "map_shm 0 idx off pml4 va s = Inr (True, s)"
| "map_shm (Suc n) idx off pml4 va s =
     (let phys = shm_get_page_phys idx off s
      in if phys = 0 then Inr (False, s)
         else case vmm_map_in_pml4 pml4 va phys USER_RW s of
                Inl e \<Rightarrow> Inl e
              | Inr s1 \<Rightarrow> map_shm n idx (off + PAGE_SIZE) pml4 (va + PAGE_SIZE) s1)"

abbreviation (input) VNL_MAP_FIXED :: nat where "VNL_MAP_FIXED \<equiv> 4"
abbreviation (input) VNL_MAP_ANONYMOUS :: nat where "VNL_MAP_ANONYMOUS \<equiv> 5"

text \<open>The part of \<^verbatim>\<open>mmap\<close> behind the choice of the address.\<close>

definition mmap_device :: "u64 \<Rightarrow> u64 \<Rightarrow> int \<Rightarrow> u64 \<Rightarrow> 'a sched_scheme \<Rightarrow> (int \<times> 'a sched_scheme) res" where
  "mmap_device va len fd off s =
     (if fd < 0 then Inr (- EBADF, s)
      else case vfs_node_from_fd fd s of
        None \<Rightarrow> Inr (- ENODEV, s)
      | Some i \<Rightarrow>
          let fn = nodes s ! i; cr3p = cr3_phys (sched_current s)
          in if n_type fn \<noteq> VFS_CHR then Inr (- ENODEV, s)
             else if n_major fn = DEV_FB_MAJOR then
               (case fb_get_mmap_region (con s) of
                  None \<Rightarrow> Inr (- ENODEV, s)
                | Some (p0, ln, _) \<Rightarrow>
                    if off \<noteq> 0 then Inr (- EINVAL, s)
                    else let file_map = (if len > ln then ln else len)
                         in case map_phys (unat (ALIGN_UP file_map PAGE_SIZE div PAGE_SIZE)) cr3p va p0 s of
                              Inl e \<Rightarrow> Inl e
                            | Inr s1 \<Rightarrow> Inr (c_int64 va, s1))
             else if n_major fn = DEV_SHM_MAJOR then
               (case map_shm (unat (ALIGN_UP len PAGE_SIZE div PAGE_SIZE)) (uint (n_minor fn)) off cr3p va s of
                  Inl e \<Rightarrow> Inl e
                | Inr (ok, s1) \<Rightarrow> Inr (if ok then c_int64 va else - EINVAL, s1))
             else Inr (- ENODEV, s))"

definition sys_mmap :: "u64 \<Rightarrow> u64 \<Rightarrow> int \<Rightarrow> int \<Rightarrow> u64 \<Rightarrow> 'a sched_scheme \<Rightarrow> (int \<times> 'a sched_scheme) res" where
  "sys_mmap addr len flags fd off s =
     (if len = 0 \<or> len > 64 * 1024 * 1024 then Inr (- EINVAL, s)
      else let t = sched_current s; map_len = ALIGN_UP len PAGE_SIZE;
               (va, s1) = (if bit flags VNL_MAP_FIXED then (addr AND NOT (PAGE_SIZE - 1), s)
                           else (mmap_next t, put_current (t\<lparr>mmap_next := mmap_next t + map_len\<rparr>) s))
           in if bit flags VNL_MAP_ANONYMOUS then
                if off \<noteq> 0 then Inr (- EINVAL, s1)
                else case map_fresh True (unat (map_len div PAGE_SIZE)) (cr3_phys t) va USER_RW s1 of
                       Inl e \<Rightarrow> Inl e
                     | Inr (ok, s2) \<Rightarrow> Inr (if ok then c_int64 va else - ENOMEM, s2)
              else mmap_device va len fd off s1)"

definition sys_munmap :: "u64 \<Rightarrow> u64 \<Rightarrow> 'a sched_scheme \<Rightarrow> (int \<times> 'a sched_scheme) res" where
  "sys_munmap addr len s =
     (case vmm_unmap_range_pml4 (cr3_phys (sched_current s)) addr len s of Inl e \<Rightarrow> Inl e | Inr s1 \<Rightarrow> Inr (0, s1))"

section \<open>Tasks and programs\<close>

definition of_bytes :: "u8 list \<Rightarrow> string" where
  "of_bytes bs = map (\<lambda>b. char_of (unat b)) bs"

text \<open>A task of a program gets a stack of 32 KiB; a kernel task runs with the name and entry point it is given.\<close>

definition sys_task_create :: "u64 \<Rightarrow> u64 \<Rightarrow> u64 \<Rightarrow> 'a sched_scheme \<Rightarrow> (int \<times> 'a sched_scheme) res" where
  "sys_task_create cs fn name_ptr s =
     (let t = sched_current s
      in if cs = 0x1B then
           (case copy_user_cstring (cr3_phys t) name_ptr 32 s of (r, name) \<Rightarrow>
              if r < 0 then Inr (- EFAULT, s)
              else let va_base = mmap_next t;
                       s1 = put_current (t\<lparr>mmap_next := va_base + 32 * 1024\<rparr>) s
                   in case map_fresh True 8 (cr3_phys t) va_base USER_RW s1 of
                        Inl e \<Rightarrow> Inl e
                      | Inr (False, s2) \<Rightarrow> Inr (- ENOMEM, s2)
                      | Inr (True, s2) \<Rightarrow>
                          task_create_user (of_bytes name) (cr3_phys t) fn (va_base + 32 * 1024 - 16) (brk_start t) (brk_end t) s2)
         else case ustrn 31 name_ptr s of Inl e \<Rightarrow> Inl e | Inr name \<Rightarrow> task_create name fn s)"

definition sys_task_sleep :: "u64 \<Rightarrow> 'a net_scheme waits \<Rightarrow> 'a net_scheme \<Rightarrow> (int \<times> 'a net_scheme) res" where
  "sys_task_sleep ms ws s =
     (case ws of
        [] \<Rightarrow> Inl Diverges
      | (rsp, others) # _ \<Rightarrow> Inr (0, others (snd (task_sleep (boot_top s) ms rsp s))))"

text \<open>The new program replaces the memory of the task and the registers it returns with.\<close>

definition sys_execve :: "Registers \<Rightarrow> 'a sched_scheme \<Rightarrow> (int \<times> Registers \<times> 'a sched_scheme) res" where
  "sys_execve r s =
     (if r_cs r \<noteq> 0x1B then Inr (- EPERM, r, s)
      else case copy_user_cstring (cr3_phys (sched_current s)) (r_rdi r) 256 s of (rc, path) \<Rightarrow>
        if rc < 0 then Inr (- EFAULT, r, s)
        else case read_image (of_bytes path) s of
          Inl e \<Rightarrow> Inl e
        | Inr (Inl er, s1) \<Rightarrow> Inr (er, r, s1)
        | Inr (Inr (buf, elf), s1) \<Rightarrow>
            (case load_image buf elf s1 of
               Inl e \<Rightarrow> Inl e
             | Inr (Inl er, s2) \<Rightarrow> Inr (er, r, s2)
             | Inr (Inr (new_pml4, entry, brk), s2) \<Rightarrow>
                 (case map_fresh True VNL_USER_STACK_PAGES new_pml4 VNL_USER_STACK_BASE USER_RW s2 of
                    Inl e \<Rightarrow> Inl e
                  | Inr (False, s3) \<Rightarrow> Inr (- ENOMEM, r, s3)
                  | Inr (True, s3) \<Rightarrow>
                      let sp = VNL_USER_STACK_BASE + of_nat VNL_USER_STACK_PAGES * PAGE_SIZE - 0x40
                      in case vnl_copy_to_user_va new_pml4 sp (le64 0) 8 s3 of
                           Inl e \<Rightarrow> Inl e
                         | Inr s4 \<Rightarrow>
                             (case vnl_copy_to_user_va new_pml4 (sp + 8) (le64 0) 8 s4 of
                                Inl e \<Rightarrow> Inl e
                              | Inr s5 \<Rightarrow>
                                  Inr (0, r\<lparr>r_rip := entry, r_rsp := sp, r_rdi := 0, r_rsi := sp + 8\<rparr>,
                                       (put_current ((sched_current s5)\<lparr>cr3_phys := new_pml4, brk_start := brk, brk_end := brk,
                                                                       mmap_next := 0x40000000\<rparr>) s5)\<lparr>cr3 := new_pml4\<rparr>)))))"

section \<open>Sockets\<close>

definition sys_socketpair :: "int \<Rightarrow> int \<Rightarrow> u64 \<Rightarrow> 'a net_scheme \<Rightarrow> (int \<times> 'a net_scheme) res" where
  "sys_socketpair domain ty sv s =
     (case unix_socketpair domain ty s of
        (r, None, s1) \<Rightarrow> Inr (r, s1)
      | (r, Some (a, b), s1) \<Rightarrow>
          (case vnl_copy_to_user_va (cr3_phys (sched_current s1)) sv (le32 (word_of_int a) @ le32 (word_of_int b)) 8 s1 of
             Inl e \<Rightarrow> Inl e
           | Inr s2 \<Rightarrow> Inr (r, s2)))"

text \<open>
  The address of \<^verbatim>\<open>bind\<close> and \<^verbatim>\<open>connect\<close>: nothing of it is read when the socket is in another state, the pointer is null or
  the length below 3, and only the family when the length is too large.
\<close>

definition sock_addr :: "int \<Rightarrow> u64 \<Rightarrow> u64 \<Rightarrow> 'a net_scheme \<Rightarrow> u8 list res" where
  "sock_addr fd addr addrlen s =
     (if \<not> unix_is_sockfd fd s \<or> u_state (socks s ! nat (idx_from_fd fd)) \<noteq> SK_CREATED \<or> addr = 0 \<or> addrlen < 3 then Inr []
      else if addrlen < 122 then uload (unat addrlen) addr s
      else map_sum id (\<lambda>bs. bs @ replicate 120 0) (uload 2 addr s))"

definition sys_bind :: "int \<Rightarrow> u64 \<Rightarrow> u64 \<Rightarrow> 'a net_scheme \<Rightarrow> (int \<times> 'a net_scheme) res" where
  "sys_bind fd addr addrlen s = (case sock_addr fd addr addrlen s of Inl e \<Rightarrow> Inl e | Inr bs \<Rightarrow> unix_bind fd bs s)"

definition sys_connect :: "int \<Rightarrow> u64 \<Rightarrow> u64 \<Rightarrow> 'a net_scheme \<Rightarrow> (int \<times> 'a net_scheme) res" where
  "sys_connect fd addr addrlen s = (case sock_addr fd addr addrlen s of Inl e \<Rightarrow> Inl e | Inr bs \<Rightarrow> Inr (unix_connect fd bs s))"

definition sys_accept :: "int \<Rightarrow> u64 \<Rightarrow> 'a net_scheme waits \<Rightarrow> 'a net_scheme \<Rightarrow> (int \<times> 'a net_scheme) res" where
  "sys_accept fd addrlen ws s =
     (case (if addrlen \<noteq> 0 then ustore addrlen (le64 0) s else Inr s) of Inl e \<Rightarrow> Inl e | Inr s1 \<Rightarrow> unix_accept fd ws s1)"

text \<open>The fields of a message header, and its segments as address and length.\<close>

definition uload_msghdr :: "u64 \<Rightarrow> 'a sched_scheme \<Rightarrow> (u64 \<times> u64 \<times> u64 \<times> u64) res" where
  "uload_msghdr p s =
     (case uload 56 p s of
        Inl e \<Rightarrow> Inl e
      | Inr bs \<Rightarrow> Inr (of_nat (bytes_at bs 16 8), of_nat (bytes_at bs 24 8), of_nat (bytes_at bs 32 8), of_nat (bytes_at bs 40 8)))"

fun uload_iov :: "nat \<Rightarrow> u64 \<Rightarrow> 'a sched_scheme \<Rightarrow> (u64 \<times> u64) list res" where
  "uload_iov 0 p s = Inr []"
| "uload_iov (Suc n) p s =
     (case uload 16 p s of
        Inl e \<Rightarrow> Inl e
      | Inr bs \<Rightarrow>
          (case uload_iov n (p + 16) s of
             Inl e \<Rightarrow> Inl e
           | Inr iov \<Rightarrow> Inr ((of_nat (bytes_at bs 0 8), of_nat (bytes_at bs 8 8)) # iov)))"

fun uload_segments :: "(u64 \<times> u64) list \<Rightarrow> 'a sched_scheme \<Rightarrow> u8 list option list res" where
  "uload_segments [] s = Inr []"
| "uload_segments ((base, len) # iov) s =
     (case uload_segments iov s of
        Inl e \<Rightarrow> Inl e
      | Inr segs \<Rightarrow>
          if len = 0 then Inr (Some [] # segs)
          else if base = 0 then Inr (None # segs)
          else case uload (unat len) base s of Inl e \<Rightarrow> Inl e | Inr bs \<Rightarrow> Inr (Some bs # segs))"

definition msg_connected :: "int \<Rightarrow> 'a net_scheme \<Rightarrow> bool" where
  "msg_connected fd s \<longleftrightarrow> u_state (socks s ! nat (idx_from_fd fd)) = SK_CONNECTED"

definition sys_sendmsg :: "int \<Rightarrow> u64 \<Rightarrow> 'a net_scheme \<Rightarrow> (int \<times> 'a net_scheme) res" where
  "sys_sendmsg fd msg s =
     (if \<not> unix_is_sockfd fd s then Inr (- ENOTSOCK, s)
      else if \<not> msg_connected fd s \<or> peer_idx (socks s ! nat (idx_from_fd fd)) = PEER_NONE then Inr (- ENOTCONN, s)
      else if msg = 0 then Inr (- EFAULT, s)
      else case uload_msghdr msg s of
        Inl e \<Rightarrow> Inl e
      | Inr (iov, iovlen, control, controllen) \<Rightarrow>
          (case uload_iov (unat iovlen) iov s of
             Inl e \<Rightarrow> Inl e
           | Inr segs \<Rightarrow>
               (case uload_segments segs s of
                  Inl e \<Rightarrow> Inl e
                | Inr data \<Rightarrow>
                    (case (if control = 0 \<or> controllen < 16 then Inr None else map_sum id Some (uload (unat controllen) control s)) of
                       Inl e \<Rightarrow> Inl e
                     | Inr ctl \<Rightarrow> unix_sock_sendmsg fd data ctl s))))"

text \<open>The bytes received go to the segments that are not empty, in order.\<close>

fun ustore_segments :: "(u64 \<times> u64) list \<Rightarrow> u8 list list \<Rightarrow> 'a sched_scheme \<Rightarrow> 'a sched_scheme res" where
  "ustore_segments ((base, len) # iov) (bs # bss) s =
     (if len = 0 then ustore_segments iov (bs # bss) s
      else case ustore base bs s of Inl e \<Rightarrow> Inl e | Inr s1 \<Rightarrow> ustore_segments iov bss s1)"
| "ustore_segments iov bss s = Inr s"

definition ustore_control :: "u64 \<Rightarrow> u64 \<Rightarrow> int list \<Rightarrow> u64 \<Rightarrow> 'a sched_scheme \<Rightarrow> 'a sched_scheme res" where
  "ustore_control msg control fs clen s =
     (case (if fs = [] then Inr s
            else ustore control (le64 clen @ le32 1 @ le32 1 @ concat (map (\<lambda>fd. le32 (word_of_int fd)) fs)) s) of
        Inl e \<Rightarrow> Inl e
      | Inr s1 \<Rightarrow> ustore (msg + 40) (le64 clen) s1)"

definition sys_recvmsg :: "int \<Rightarrow> u64 \<Rightarrow> 'a net_scheme waits \<Rightarrow> 'a net_scheme \<Rightarrow> (int \<times> 'a net_scheme) res" where
  "sys_recvmsg fd msg ws s =
     (if \<not> unix_is_sockfd fd s then Inr (- ENOTSOCK, s)
      else if \<not> msg_connected fd s then Inr (- ENOTCONN, s)
      else if msg = 0 then Inr (- EFAULT, s)
      else case uload_msghdr msg s of
        Inl e \<Rightarrow> Inl e
      | Inr (iov, iovlen, control, controllen) \<Rightarrow>
          (case uload_iov (unat iovlen) iov s of
             Inl e \<Rightarrow> Inl e
           | Inr segs \<Rightarrow>
               (case unix_sock_recvmsg fd (map (\<lambda>(base, len). if len \<noteq> 0 \<and> base = 0 then None else Some len) segs)
                       (if control = 0 then None else Some controllen) ws s of
                  Inl e \<Rightarrow> Inl e
                | Inr (r, bss, fs, clen, s1) \<Rightarrow>
                    (case ustore_segments segs bss s1 of
                       Inl e \<Rightarrow> Inl e
                     | Inr s2 \<Rightarrow>
                         if r < 0 then Inr (r, s2)
                         else case ustore_control msg control fs clen s2 of Inl e \<Rightarrow> Inl e | Inr s3 \<Rightarrow> Inr (r, s3)))))"

section \<open>Files\<close>

definition stat_mode :: "VFSNodeType \<Rightarrow> u32" where
  "stat_mode t = (case t of VFS_DIR \<Rightarrow> 0x41ED | VFS_CHR \<Rightarrow> 0x21B6 | VFS_FILE \<Rightarrow> 0x81A4)"

definition linux_stat :: "VFSNodeType \<Rightarrow> u64 \<Rightarrow> u8 list" where
  "linux_stat t sz =
     replicate 24 0 @ le32 (stat_mode t) @ replicate 12 0 @ le64 0 @ le64 sz @ le64 512 @ le64 ((sz + 511) div 512) @ replicate 48 0"

definition sys_stat :: "u64 \<Rightarrow> u64 \<Rightarrow> 'a sched_scheme \<Rightarrow> (int \<times> 'a sched_scheme) res" where
  "sys_stat path_ptr st_ptr s =
     (let cr3p = cr3_phys (sched_current s)
      in case copy_user_cstring cr3p path_ptr 256 s of (rc, path) \<Rightarrow>
           if rc < 0 then Inr (- EFAULT, s)
           else case vfs_stat (of_bytes path) s of
                  None \<Rightarrow> Inr (- ENOENT, s)
                | Some (t, sz) \<Rightarrow>
                    (case vnl_copy_to_user_va cr3p st_ptr (linux_stat t sz) 120 s of Inl e \<Rightarrow> Inl e | Inr s1 \<Rightarrow> Inr (0, s1)))"

definition sys_fstat :: "int \<Rightarrow> u64 \<Rightarrow> 'a sched_scheme \<Rightarrow> (int \<times> 'a sched_scheme) res" where
  "sys_fstat fd st_ptr s =
     (case vfs_node_from_fd fd s of
        None \<Rightarrow> Inr (- EBADF, s)
      | Some i \<Rightarrow>
          (case vnl_copy_to_user_va (cr3_phys (sched_current s)) st_ptr (linux_stat (n_type (nodes s ! i)) (n_size (nodes s ! i))) 120 s of
             Inl e \<Rightarrow> Inl e
           | Inr s1 \<Rightarrow> Inr (0, s1)))"

definition sys_getcwd :: "u64 \<Rightarrow> u64 \<Rightarrow> 'a sched_scheme \<Rightarrow> (int \<times> 'a sched_scheme) res" where
  "sys_getcwd ptr sz s =
     (case vfs_getcwd (replicate 256 NUL) 256 s of
        Inl e \<Rightarrow> Inl e
      | Inr None \<Rightarrow> Inr (- ERANGE, s)
      | Inr (Some b) \<Rightarrow>
          let str = takeWhile (\<lambda>c. c \<noteq> NUL) b; len = length str + 1
          in if of_nat len > sz then Inr (- ERANGE, s)
             else case vnl_copy_to_user_va (cr3_phys (sched_current s)) ptr (c_bytes str) len s of
                    Inl e \<Rightarrow> Inl e
                  | Inr s1 \<Rightarrow> Inr (int len, s1))"

definition sys_getdents64 :: "int \<Rightarrow> u64 \<Rightarrow> u64 \<Rightarrow> 'a sched_scheme \<Rightarrow> (int \<times> 'a sched_scheme) res" where
  "sys_getdents64 fd dirp count s =
     (case kmalloc count s of
        Inl e \<Rightarrow> Inl e
      | Inr (kbuf, s1) \<Rightarrow>
          if kbuf = 0 then Inr (- ENOMEM, s1)
          else case vfs_getdents64 fd count (s1\<lparr>hmem := mem_fill (hmem s1) (unat kbuf) (unat count) 0\<rparr>) of (r, bs, s2) \<Rightarrow>
            let s3 = s2\<lparr>hmem := store_bytes (hmem s2) (unat kbuf) bs\<rparr>
            in if r < 0 then case kfree kbuf s3 of Inl e \<Rightarrow> Inl e | Inr s4 \<Rightarrow> Inr (r, s4)
               else case vnl_copy_to_user_va (cr3_phys (sched_current s3)) dirp bs (nat r) s3 of
                      Inl e \<Rightarrow> Inl e
                    | Inr s4 \<Rightarrow> (case kfree kbuf s4 of Inl e \<Rightarrow> Inl e | Inr s5 \<Rightarrow> Inr (r, s5)))"

definition uname_str :: string where
  "uname_str = ''VNL 0.2.0 (Vibe Not Linux) x86_64''"

text \<open>\<open>strncpy\<close> with a limit of 128 stores 129 bytes; they go to the pointer of the caller.\<close>

definition sys_uname :: "u64 \<Rightarrow> 'a sched_scheme \<Rightarrow> (int \<times> 'a sched_scheme) res" where
  "sys_uname buf s =
     (if buf = 0 then Inr (- ENOSYS, s)
      else case strncpy (replicate 129 NUL) (cz uname_str) 128 of
             None \<Rightarrow> Inl OutOfBounds
           | Some b \<Rightarrow> (case ustore buf (bytes_of b) s of Inl e \<Rightarrow> Inl e | Inr s1 \<Rightarrow> Inr (0, s1)))"

section \<open>The handler\<close>

abbreviation (input) MSR_FS_BASE_CALL :: u64 where "MSR_FS_BASE_CALL \<equiv> 0x1002"

text \<open>The calls on descriptors and paths.\<close>

definition sys_file_call :: "'a sys_scheme sysenv \<Rightarrow> Registers \<Rightarrow> 'a sys_scheme \<Rightarrow> (int \<times> 'a sys_scheme) res option" where
  "sys_file_call env r s =
     (let num = r_rax r; arg1 = r_rdi r; arg2 = r_rsi r; arg3 = r_rdx r; fd = c_int arg1
      in if num = 0 then Some (sys_read fd arg2 arg3 env s)
         else if num = 1 then Some (sys_write fd arg2 arg3 s)
         else if num = 2 then Some (with_path arg1 (\<lambda>path. vfs_open path (c_int arg2)) s)
         else if num = 3 then Some (if unix_is_sockfd fd s then unix_sock_close fd s else Inr (vfs_close fd s))
         else if num = 4 \<or> num = 6 then Some (sys_stat arg1 arg2 s)
         else if num = 5 then Some (sys_fstat fd arg2 s)
         else if num = 8 then Some (Inr (vfs_lseek fd (c_int64 arg2) (c_int arg3) s))
         else if num = 16 then Some (sys_ioctl fd arg2 arg3 s)
         else if num = 32 then Some (Inr (vfs_dup fd s))
         else if num = 33 then Some (Inr (vfs_dup2 fd (c_int arg2) s))
         else if num = 72 then
           Some (Inr (if unix_is_sockfd fd s then unix_sock_fcntl fd (c_int arg2) (c_int64 arg3) s
                      else vfs_fcntl fd (c_int arg2) (c_int64 arg3) s))
         else if num = 77 then Some (vfs_ftruncate fd arg2 s)
         else if num = 79 then Some (sys_getcwd arg1 arg2 s)
         else if num = 83 then Some (with_path arg1 (\<lambda>path s. Inr (vfs_mkdir path s)) s)
         else if num = 87 then Some (with_path arg1 vfs_unlink s)
         else if num = 89 then Some (Inr (- EINVAL, s))
         else if num = 217 then Some (sys_getdents64 fd arg2 arg3 s)
         else None)"

text \<open>The calls on sockets and event descriptors.\<close>

definition sys_sock_call :: "'a sys_scheme sysenv \<Rightarrow> Registers \<Rightarrow> 'a sys_scheme \<Rightarrow> (int \<times> 'a sys_scheme) res option" where
  "sys_sock_call env r s =
     (let num = r_rax r; arg1 = r_rdi r; arg2 = r_rsi r; arg3 = r_rdx r; fd = c_int arg1; ws = env_waits env
      in if num = 41 then Some (Inr (unix_socket fd (c_int arg2) s))
         else if num = 42 then Some (sys_connect fd arg2 arg3 s)
         else if num = 43 then Some (sys_accept fd arg3 ws s)
         else if num = 44 then Some (if r_r8 r \<noteq> 0 then Inr (- ENOSYS, s) else write_fd fd arg2 arg3 s)
         else if num = 45 then Some (if r_r8 r \<noteq> 0 then Inr (- ENOSYS, s) else read_fd fd arg2 arg3 ws s)
         else if num = 46 then Some (sys_sendmsg fd arg2 s)
         else if num = 47 then Some (sys_recvmsg fd arg2 ws s)
         else if num = 49 then Some (sys_bind fd arg2 arg3 s)
         else if num = 50 then Some (Inr (unix_listen fd s))
         else if num = 53 then Some (sys_socketpair fd (c_int arg2) (r_r10 r) s)
         else if num = 232 then Some (sys_epoll_wait fd arg2 (c_int arg3) (c_int (r_r10 r)) ws s)
         else if num = 233 then Some (sys_epoll_ctl fd (c_int arg2) (c_int arg3) (r_r10 r) s)
         else if num = 290 then Some (Inr (unix_eventfd (ucast arg1) (c_int arg2) s))
         else if num = 291 then Some (Inr (sys_epoll_create1 s))
         else None)"

text \<open>Memory, tasks and the rest; every other number is \<^verbatim>\<open>-ENOSYS\<close>.\<close>

definition sys_task_call :: "'a sys_scheme sysenv \<Rightarrow> Registers \<Rightarrow> 'a sys_scheme \<Rightarrow> (int \<times> 'a sys_scheme) res" where
  "sys_task_call env r s =
     (let num = r_rax r; arg1 = r_rdi r; arg2 = r_rsi r; arg3 = r_rdx r
      in if num = 9 then sys_mmap arg1 arg2 (c_int (r_r10 r)) (c_int (r_r8 r)) (r_r9 r) s
         else if num = 10 then Inr (0, s)
         else if num = 11 then sys_munmap arg1 arg2 s
         else if num = 12 then sys_brk arg1 s
         else if num = 39 \<or> num = 218 then Inr (uint (t_pid (sched_current s)), s)
         else if num = 63 then sys_uname arg1 s
         else if num = 100 then Inr (c_int64 (timer_ticks (cpu_st s)), s)
         else if num = 101 then sys_task_create (r_cs r) arg1 arg2 s
         else if num = 103 then sys_task_sleep arg1 (env_waits env) s
         else if num \<in> {102, 104, 105, 106, 107, 108} then Inr (0, s)
         else if num = 158 then
           (if arg1 = MSR_FS_BASE_CALL then Inr (0, s\<lparr>fs_base := arg2\<rparr>) else Inr (- EINVAL, s))
         else Inr (- ENOSYS, s))"

definition syscall_ret :: "'a sys_scheme sysenv \<Rightarrow> Registers \<Rightarrow> 'a sys_scheme \<Rightarrow> (int \<times> 'a sys_scheme) res" where
  "syscall_ret env r s =
     (case sys_file_call env r s of
        Some x \<Rightarrow> x
      | None \<Rightarrow> (case sys_sock_call env r s of Some x \<Rightarrow> x | None \<Rightarrow> sys_task_call env r s))"

definition syscall_handler :: "'a sys_scheme sysenv \<Rightarrow> Registers \<Rightarrow> 'a sys_scheme \<Rightarrow> (Registers option \<times> 'a sys_scheme) res" where
  "syscall_handler env r s =
     (if r_rax r = 60 \<or> r_rax r = 231 then Inr (None, snd (task_exit (boot_top s) (env_rsp env) s))
      else if r_rax r = 59 then
        (case sys_execve r s of Inl e \<Rightarrow> Inl e | Inr (ret, r1, s1) \<Rightarrow> Inr (Some (r1\<lparr>r_rax := word_of_int ret\<rparr>), s1))
      else
        (case syscall_ret env r s of Inl e \<Rightarrow> Inl e | Inr (ret, s1) \<Rightarrow> Inr (Some (r\<lparr>r_rax := word_of_int ret\<rparr>), s1)))"

definition syscall_init :: "nat \<Rightarrow> 'a sys_scheme \<Rightarrow> 'a sys_scheme" where
  "syscall_init handler s = s\<lparr>cpu_st := idt_set_interrupt_dpl 0x80 3 (idt_set_handler 0x80 (Some handler) (cpu_st s))\<rparr>"

section \<open>Memory calls\<close>

lemma vmm_walk_more: "vmm_walk l t v c s = Inr (p, s') \<Longrightarrow> mach.more s' = mach.more s"
proof (induction l arbitrary: t s)
  case (Suc l)
  then show ?case
    by (auto simp: Let_def alloc_pt_frame_def split: if_splits sum.splits prod.splits dest!: pmm_alloc_more)
qed simp

lemma vmm_map_more: "vmm_map_in_pml4 root v pa fl s = Inr s' \<Longrightarrow> mach.more s' = mach.more s"
  by (auto simp: vmm_map_in_pml4_def vmm_get_pte_pml4_phys_def pte_store_def split: sum.splits if_splits prod.splits dest!: vmm_walk_more)

lemma map_page_more: "map_page z root va fl s = Inr (ok, s') \<Longrightarrow> mach.more s' = mach.more s"
  by (auto simp: map_page_def split: prod.splits sum.splits if_splits dest!: vmm_map_more pmm_alloc_more)

lemma map_fresh_more: "map_fresh z n root va fl s = Inr (ok, s') \<Longrightarrow> mach.more s' = mach.more s"
proof (induction n arbitrary: va s)
  case (Suc n)
  then obtain b s1 where p: "map_page z root va fl s = Inr (b, s1)" by (auto split: sum.splits)
  with Suc.prems Suc.IH [of "va + 4096" s1] map_page_more [OF p] show ?case by (cases b) simp_all
qed simp

lemma mach_more_task:
  assumes "mach.more s' = mach.more s"
  shows "sched_current s' = sched_current s" "tasks s' = tasks s" "current_idx s' = current_idx s"
  using assms by (cases s; cases s'; simp add: sched_current_def)+

definition cur_ok :: "'a sched_scheme \<Rightarrow> bool" where
  "cur_ok s \<longleftrightarrow> current_idx s < length (tasks s)"

lemma put_current_simps [simp]:
  "cur_ok s \<Longrightarrow> sched_current (put_current t s) = t"
  "space_ok root (put_current t s) = space_ok root s" "uread root (put_current t s) = uread root s"
  "free_set (put_current t s) = free_set s" "cur_ok (put_current t s) = cur_ok s"
proof -
  show "cur_ok s \<Longrightarrow> sched_current (put_current t s) = t" "cur_ok (put_current t s) = cur_ok s"
    by (simp_all add: put_current_def put_task_def sched_current_def cur_ok_def)
  show "space_ok root (put_current t s) = space_ok root s" "uread root (put_current t s) = uread root s" "free_set (put_current t s) = free_set s"
    by (rule space_ok_cong; simp add: put_current_def put_task_def)+
qed

lemma c_int64_low: "unat (x :: u64) < 2 ^ 63 \<Longrightarrow> c_int64 x = int (unat x)"
proof -
  assume "unat x < 2 ^ 63"
  then have "int (unat x) < int (2 ^ 63)" by (simp only: of_nat_less_iff)
  then have u: "uint x < 2 ^ 63" by simp
  have "- (2 ^ 63) \<le> uint x" by (rule order_trans [OF _ uint_ge_0]) simp
  with u show ?thesis by (simp add: c_int64_def sint_uint signed_take_bit_int_eq_self)
qed

lemma page_ceil: "(e + 4095) div 4096 \<le> q \<longleftrightarrow> e \<le> q * 4096" for e q :: nat
  using div_less_iff_less_mult [of 4096 "e + 4095" "Suc q"] by (simp add: less_Suc_eq_le)

lemma brk_grows:
  assumes ok: "space_ok (task_root s) s" and cur: "cur_ok s"
    and hp: "brk_start (sched_current s) \<le> nb" "0 < brk_start (sched_current s)" "unat (brk_end (sched_current s)) \<le> unat nb" "unat nb + 4095 < 2 ^ 47"
    and room: "4 * ((unat nb + 4095) div 4096) \<le> card (free_set s) + 4 * ((unat (brk_end (sched_current s)) + 4095) div 4096)"
  shows "\<exists>s'. sys_brk nb s = Inr (int (unat nb), s') \<and> space_ok (task_root s) s' \<and>
    sched_current s' = (sched_current s)\<lparr>brk_end := nb\<rparr> \<and>
    (\<forall>v. low_va v \<longrightarrow> uread (task_root s) s' v =
       (if unat (brk_end (sched_current s)) \<le> unat v div 4096 * 4096 \<and> unat v div 4096 * 4096 < unat nb then Some 0 else uread (task_root s) s v))"
proof -
  let ?t = "sched_current s"
  let ?old = "(unat (brk_end ?t) + 4095) div 4096" and ?new = "(unat nb + 4095) div 4096"
  have up: "unat (ALIGN_UP nb 4096) = ?new * 4096" "unat (ALIGN_UP (brk_end ?t) 4096) = ?old * 4096"
    using hp(3,4) by (simp_all add: unat_align_up_page)
  have le: "?old \<le> ?new" using hp(3) by (intro div_le_mono) simp
  have n: "(if ALIGN_UP (brk_end ?t) 4096 < ALIGN_UP nb 4096 then unat (ALIGN_UP nb 4096 - ALIGN_UP (brk_end ?t) 4096) div 4096 else 0) = ?new - ?old"
    using up le by (auto simp: word_less_nat_alt unat_sub word_le_nat_alt simp flip: diff_mult_distrib)
  have pg: "unat (ALIGN_UP (brk_end ?t) 4096) mod 4096 = 0" "4 * (?new - ?old) \<le> card (free_set s)"
    "unat (ALIGN_UP (brk_end ?t) 4096) + (?new - ?old) * 4096 = ?new * 4096" "?new * 4096 \<le> 2 ^ 47"
    using le room hp(4) by (simp_all add: up diff_mult_distrib)
  have fl: "(7 :: u64) AND - 4096 = 0" by simp
  from map_fresh_space [OF ok fl pg(2,1), unfolded pg(3), OF pg(4)] obtain s1
    where s1: "map_fresh True (?new - ?old) (cr3_phys ?t) (ALIGN_UP (brk_end ?t) 4096) 7 s = Inr (True, s1)" "space_ok (cr3_phys ?t) s1"
    "\<forall>v. low_va v \<longrightarrow> uread (cr3_phys ?t) s1 v = (if ?old * 4096 \<le> unat v \<and> unat v < ?new * 4096 then Some 0 else uread (cr3_phys ?t) s v)"
    unfolding up by blast
  note more = mach_more_task [OF map_fresh_more [OF s1(1)]]
  have "cur_ok s1" using cur more by (simp add: cur_ok_def)
  moreover have "sys_brk nb s = Inr (c_int64 nb, put_current (?t\<lparr>brk_end := nb\<rparr>) s1)"
  proof -
    have "brk_start ?t \<noteq> 0" "nb \<noteq> 0" "\<not> nb < brk_start ?t" using hp(1,2) by auto
    with s1(1) n more(1) show ?thesis by (simp add: sys_brk_def Let_def)
  qed
  moreover have "c_int64 nb = int (unat nb)" using hp(4) by (intro c_int64_low) simp
  moreover have "?old * 4096 \<le> unat v \<and> unat v < ?new * 4096 \<longleftrightarrow> unat (brk_end ?t) \<le> unat v div 4096 * 4096 \<and> unat v div 4096 * 4096 < unat nb" for v :: u64
    using page_ceil [of "unat (brk_end ?t)" "unat v div 4096"] page_ceil [of "unat nb" "unat v div 4096"]
      less_eq_div_iff_mult_less_eq [of 4096 ?old "unat v"] div_less_iff_less_mult [of 4096 "unat v" ?new] by auto
  ultimately show ?thesis using s1(2,3) by (intro exI [of _ "put_current (?t\<lparr>brk_end := nb\<rparr>) s1"]) simp
qed

lemma mmap_fresh_pages:
  assumes ok: "space_ok (task_root s) s" and cur: "cur_ok s"
    and len: "0 < len" "len \<le> 0x4000000" and fl: "bit flags 5" "\<not> bit flags 4"
    and nx: "unat (mmap_next (sched_current s)) mod 4096 = 0" "unat (mmap_next (sched_current s)) + unat len + 4095 < 2 ^ 47"
    and room: "4 * ((unat len + 4095) div 4096) \<le> card (free_set s)"
  shows "\<exists>s'. sys_mmap addr len flags fd 0 s = Inr (int (unat (mmap_next (sched_current s))), s') \<and> space_ok (task_root s) s' \<and>
    sched_current s' = (sched_current s)\<lparr>mmap_next := mmap_next (sched_current s) + ALIGN_UP len 4096\<rparr> \<and>
    (\<forall>v. low_va v \<longrightarrow> uread (task_root s) s' v =
       (if unat (mmap_next (sched_current s)) \<le> unat v \<and> unat v < unat (mmap_next (sched_current s)) + (unat len + 4095) div 4096 * 4096
        then Some 0 else uread (task_root s) s v))"
proof -
  let ?t = "sched_current s" and ?n = "(unat len + 4095) div 4096"
  let ?s0 = "put_current (?t\<lparr>mmap_next := mmap_next ?t + ALIGN_UP len 4096\<rparr>) s"
  have n: "unat (ALIGN_UP len 4096 div 4096) = ?n"
  proof -
    have "unat len + 4095 < 2 ^ 64" using nx(2) by simp
    from unat_align_up_page [OF this] show ?thesis by (simp add: unat_div)
  qed
  have w: "(7 :: u64) AND - 4096 = 0" by simp
  have end_le: "unat (mmap_next ?t) + ?n * 4096 \<le> 2 ^ 47"
  proof -
    have "?n * 4096 \<le> unat len + 4095" by (rule div_times_less_eq_dividend)
    with nx(2) show ?thesis by linarith
  qed
  from map_fresh_space [of "cr3_phys ?t" ?s0, OF _ w _ nx(1) end_le] ok room obtain s'
    where s': "map_fresh True ?n (cr3_phys ?t) (mmap_next ?t) 7 ?s0 = Inr (True, s')" "space_ok (cr3_phys ?t) s'"
      "\<forall>v. low_va v \<longrightarrow> uread (cr3_phys ?t) s' v =
         (if unat (mmap_next ?t) \<le> unat v \<and> unat v < unat (mmap_next ?t) + ?n * 4096 then Some 0 else uread (cr3_phys ?t) s v)"
    by auto
  have "\<not> len = 0" "\<not> len > 0x4000000" using len by auto
  moreover have "c_int64 (mmap_next ?t) = int (unat (mmap_next ?t))" using nx(2) by (intro c_int64_low) simp
  ultimately have "sys_mmap addr len flags fd 0 s = Inr (int (unat (mmap_next ?t)), s')"
    using s'(1) fl by (simp add: sys_mmap_def Let_def n)
  with s' mach_more_task(1) [OF map_fresh_more [OF s'(1)]] cur show ?thesis by simp
qed

section \<open>Data through the handler\<close>

lemma ubytes_sock [simp]: "ubytes va n (put_sock j u s) = ubytes va n s" "ureadable va n (put_sock j u s) = ureadable va n s"
  "space_ok root (put_sock j u s) = space_ok root s" "task_root (put_sock j u s) = task_root s"
proof -
  have t: "task_root (put_sock j u s) = task_root s" by (simp add: put_sock_def sched_current_def)
  have r: "uread root (put_sock j u s) = uread root s" "space_ok root (put_sock j u s) = space_ok root s" for root
    by (rule space_ok_cong; simp add: put_sock_def)+
  show "ubytes va n (put_sock j u s) = ubytes va n s" "ureadable va n (put_sock j u s) = ureadable va n s"
    by (simp_all add: ubytes_def ureadable_def t r)
  show "space_ok root (put_sock j u s) = space_ok root s" by (fact r)
  show "task_root (put_sock j u s) = task_root s" by (fact t)
qed

lemma c_int_sockfd: "i < 24 \<Longrightarrow> c_int (128 + of_nat i) = 128 + int i"
  using c_int_of_nat [of "128 + i"] by simp

lemma handler_write_socket:
  assumes ok: "net_ok s" and sp: "space_ok (task_root s) s" and i: "i < 24" "u_used (socks s ! i)" "peer_idx (socks s ! i) = int j"
    and room: "length (rx_pending (socks s ! j)) + unat n \<le> 8191" and buf: "ureadable p (unat n) s"
    and r: "r_rax w = 1" "r_rdi w = 128 + of_nat i" "r_rsi w = p" "r_rdx w = n"
  shows "syscall_handler env w s = Inr (Some (w\<lparr>r_rax := n\<rparr>), put_sock j (push_all rx_push (ubytes p (unat n) s) (socks s ! j)) s)"
proof -
  have fd: "unix_is_sockfd (128 + int i) s" "nat (idx_from_fd (128 + int i)) = i"
    using i by (simp_all add: unix_is_sockfd_def idx_from_fd_def)
  from ok i(1,2) have st: "u_state (socks s ! i) = SK_CONNECTED" by (rule net_ok_peer) (use i(3) in simp_all)
  have len: "length (ubytes p (unat n) s) = unat n" by (simp add: ubytes_def)
  have "write_fd (128 + int i) p n s = Inr (int (unat n), put_sock j (push_all rx_push (ubytes p (unat n) s) (socks s ! j)) s)"
    using unix_sock_write_cases [OF ok i(1,2), of "ubytes p (unat n) s"] uload_ubytes [OF sp buf] room i(3) st fd
      c_int_of_nat [of "unat n"] by (simp add: write_fd_def takes_bytes_def push_result_def len)
  then show ?thesis using i(1) by (simp add: syscall_handler_def syscall_ret_def sys_file_call_def sys_write_def r c_int_sockfd)
qed

lemma handler_read_socket:
  assumes ok: "net_ok s" and sp: "space_ok (task_root s) s" and j: "j < 24" "u_used (socks s ! j)" "u_state (socks s ! j) = SK_CONNECTED"
    and pend: "rx_pending (socks s ! j) = bs" "bs \<noteq> []" "length bs \<le> unat n" and buf: "ureadable q (length bs) s"
    and r: "r_rax d = 0" "r_rdi d = 128 + of_nat j" "r_rsi d = q" "r_rdx d = n"
  shows "\<exists>s'. syscall_handler env d s = Inr (Some (d\<lparr>r_rax := of_nat (length bs)\<rparr>), s') \<and> ubytes q (length bs) s' = bs"
proof -
  have fd: "unix_is_sockfd (128 + int j) s" using j by (simp add: unix_is_sockfd_def idx_from_fd_def)
  from read_pending [OF ok j, of n "env_waits env"] pend
  obtain u where u: "unix_sock_read (128 + int j) n (env_waits env) s = Inr (int (length bs), bs, put_sock j u s)" by auto
  have sp': "space_ok (task_root (put_sock j u s)) (put_sock j u s)" and buf': "ureadable q (length bs) (put_sock j u s)"
    using sp buf by simp_all
  from ustore_ubytes [OF sp' buf'] obtain m where m: "ustore q bs (put_sock j u s) = Inr ((put_sock j u s)\<lparr>pmem := m\<rparr>)"
    "ubytes q (length bs) ((put_sock j u s)\<lparr>pmem := m\<rparr>) = bs" by blast
  have "sys_read (128 + int j) q n env s = Inr (int (length bs), (put_sock j u s)\<lparr>pmem := m\<rparr>)"
    using fd u m(1) by (simp add: sys_read_def read_fd_def)
  with m(2) j(1) show ?thesis by (simp add: syscall_handler_def syscall_ret_def sys_file_call_def r c_int_sockfd)
qed

lemma stream_through_handler:
  assumes ok: "net_ok s" and sp: "space_ok (task_root s) s" and i: "i < 24" "u_used (socks s ! i)" "peer_idx (socks s ! i) = int j"
    and em: "rx_pending (socks s ! j) = []" and n: "0 < unat n" "unat n \<le> 8191"
    and buf: "ureadable p (unat n) s" "ureadable q (unat n) s"
    and w: "r_rax w = 1" "r_rdi w = 128 + of_nat i" "r_rsi w = p" "r_rdx w = n"
    and d: "r_rax d = 0" "r_rdi d = 128 + of_nat j" "r_rsi d = q" "r_rdx d = n"
  shows "\<exists>s1 s2. syscall_handler env w s = Inr (Some (w\<lparr>r_rax := n\<rparr>), s1) \<and>
    syscall_handler env' d s1 = Inr (Some (d\<lparr>r_rax := n\<rparr>), s2) \<and> ubytes q (unat n) s2 = ubytes p (unat n) s"
proof -
  let ?bs = "ubytes p (unat n) s"
  let ?s1 = "put_sock j (push_all rx_push ?bs (socks s ! j)) s"
  have len: "length ?bs = unat n" by (simp add: ubytes_def)
  from ok i(1,2) have j: "j < 24" "u_used (socks s ! j)" "peer_idx (socks s ! j) = int i"
    by (rule net_ok_peer; use i(3) in simp)+
  from ok j(1,2) have st: "u_state (socks s ! j) = SK_CONNECTED" by (rule net_ok_peer) (use j in simp_all)
  have w1: "syscall_handler env w s = Inr (Some (w\<lparr>r_rax := n\<rparr>), ?s1)"
    using em n(2) by (intro handler_write_socket [OF ok sp i _ buf(1) w]) simp
  have rok: "rx_ok (socks s ! j)" using net_okD(2) [OF ok j(1)] by (simp add: sock_ok_def)
  have u: "socks ?s1 ! j = push_all rx_push ?bs (socks s ! j)" using j(1) net_okD(1) [OF ok] by simp
  have pend: "rx_pending (socks ?s1 ! j) = ?bs"
    unfolding u using uq.push_all_pending [OF rok, of ?bs] em n(2) len by simp
  have ok1: "net_ok ?s1"
    by (rule net_ok_put [OF ok j(1)]) (use net_okD(2) [OF ok j(1)] in \<open>simp_all add: push_all_sock_ok push_all_frame\<close>)
  have j1: "u_used (socks ?s1 ! j)" "u_state (socks ?s1 ! j) = SK_CONNECTED" unfolding u using j(2) st by (simp_all add: push_all_frame)
  have "?bs \<noteq> []" "length ?bs \<le> unat n" using n(1) len by auto
  moreover have "space_ok (task_root ?s1) ?s1" "ureadable q (length ?bs) ?s1" using sp buf(2) by (simp_all add: len)
  ultimately obtain s2 where "syscall_handler env' d ?s1 = Inr (Some (d\<lparr>r_rax := of_nat (length ?bs)\<rparr>), s2)" "ubytes q (length ?bs) s2 = ?bs"
    using handler_read_socket [OF ok1 _ j(1) j1 pend _ _ _ d] by blast
  with w1 show ?thesis by (auto simp: len)
qed

section \<open>Properties\<close>

text \<open>
  C25: with enough free frames \<^verbatim>\<open>brk\<close> moves the end of the heap of a program up to the address it is given and returns that
  address. Every page that begins between the old end and the new one now holds zeros, every other byte of the program is what
  it was, and the pages still lie in frames of their own.
\<close>

theorem sys_brk_grows:
  assumes "space_ok (task_root s) s" and "cur_ok s"
    and "brk_start (sched_current s) \<le> nb" "0 < brk_start (sched_current s)" "unat (brk_end (sched_current s)) \<le> unat nb" "unat nb + 4095 < 2 ^ 47"
    and "4 * ((unat nb + 4095) div 4096) \<le> card (free_set s) + 4 * ((unat (brk_end (sched_current s)) + 4095) div 4096)"
  shows "\<exists>s'. sys_brk nb s = Inr (int (unat nb), s') \<and> space_ok (task_root s) s' \<and>
    sched_current s' = (sched_current s)\<lparr>brk_end := nb\<rparr> \<and>
    (\<forall>v. low_va v \<longrightarrow> uread (task_root s) s' v =
       (if unat (brk_end (sched_current s)) \<le> unat v div 4096 * 4096 \<and> unat v div 4096 * 4096 < unat nb then Some 0 else uread (task_root s) s v))"
  using assms by (rule brk_grows)

definition brk_demo :: sys where
  "brk_demo = on_mach mach_demo
     (sys_demo\<lparr>tasks := [task_zero\<lparr>cr3_phys := 4096, brk_start := 0x400000, brk_end := 0x400000, mmap_next := 0x40000000\<rparr>], current_idx := 0\<rparr>)"

lemma brk_demo_state:
  "sched_current brk_demo = task_zero\<lparr>cr3_phys := 4096, brk_start := 0x400000, brk_end := 0x400000, mmap_next := 0x40000000\<rparr>"
  "cur_ok brk_demo" "space_ok 4096 brk_demo" "card (free_set brk_demo) = 4"
proof -
  have "tasks (on_mach m s) = tasks s" "current_idx (on_mach m s) = current_idx s" for m and s :: sys
    by (cases s; simp add: on_mach_def mach.defs)+
  then show "cur_ok brk_demo" by (simp add: brk_demo_def cur_ok_def)
  show "sched_current brk_demo = task_zero\<lparr>cr3_phys := 4096, brk_start := 0x400000, brk_end := 0x400000, mmap_next := 0x40000000\<rparr>"
    by (simp add: brk_demo_def) (simp add: sched_current_def)
qed (use mach_demo_space mach_demo_state in \<open>simp_all add: brk_demo_def\<close>)

theorem sys_brk_grows_witness:
  "\<exists>s'. sys_brk 0x400123 brk_demo = Inr (0x400123, s') \<and> uread 4096 s' 0x400FFF = Some 0 \<and> brk_end (sched_current s') = 0x400123"
proof -
  from sys_brk_grows [where s = brk_demo and nb = "0x400123"] obtain s' where "sys_brk 0x400123 brk_demo = Inr (0x400123, s')"
    "sched_current s' = (sched_current brk_demo)\<lparr>brk_end := 0x400123\<rparr>"
    "\<forall>v. low_va v \<longrightarrow> uread 4096 s' v = (if 0x400000 \<le> unat v div 4096 * 4096 \<and> unat v div 4096 * 4096 < 0x400123 then Some 0 else uread 4096 brk_demo v)"
    by (auto simp: brk_demo_state)
  moreover from this(3) [rule_format, of "0x400FFF"] have "uread 4096 s' 0x400FFF = Some 0" by (simp add: low_va_def)
  ultimately show ?thesis by simp
qed

text \<open>
  C26: an anonymous mapping without a fixed address is put at the task's next free mapping address and returns it; its pages hold
  zeros, nothing else of the program changes, and the next mapping goes behind it.
\<close>

theorem sys_mmap_fresh:
  assumes "space_ok (task_root s) s" and "cur_ok s"
    and "0 < len" "len \<le> 0x4000000" and "bit flags 5" "\<not> bit flags 4"
    and "unat (mmap_next (sched_current s)) mod 4096 = 0" "unat (mmap_next (sched_current s)) + unat len + 4095 < 2 ^ 47"
    and "4 * ((unat len + 4095) div 4096) \<le> card (free_set s)"
  shows "\<exists>s'. sys_mmap addr len flags fd 0 s = Inr (int (unat (mmap_next (sched_current s))), s') \<and> space_ok (task_root s) s' \<and>
    sched_current s' = (sched_current s)\<lparr>mmap_next := mmap_next (sched_current s) + ALIGN_UP len 4096\<rparr> \<and>
    (\<forall>v. low_va v \<longrightarrow> uread (task_root s) s' v =
       (if unat (mmap_next (sched_current s)) \<le> unat v \<and> unat v < unat (mmap_next (sched_current s)) + (unat len + 4095) div 4096 * 4096
        then Some 0 else uread (task_root s) s v))"
  using assms by (rule mmap_fresh_pages)

theorem sys_mmap_fresh_witness:
  "\<exists>s'. sys_mmap 0 100 0x22 (- 1) 0 brk_demo = Inr (0x40000000, s') \<and> uread 4096 s' 0x40000063 = Some 0"
proof -
  from sys_mmap_fresh [where s = brk_demo and len = 100 and flags = "0x22" and addr = 0 and fd = "- 1"] obtain s' where "sys_mmap 0 100 0x22 (- 1) 0 brk_demo = Inr (0x40000000, s')"
    "\<forall>v. low_va v \<longrightarrow> uread 4096 s' v = (if 0x40000000 \<le> unat v \<and> unat v < 0x40001000 then Some 0 else uread 4096 brk_demo v)"
    by (auto simp: brk_demo_state bit_numeral_rec bit_simps)
  moreover from this(2) [rule_format, of "0x40000063"] have "uread 4096 s' 0x40000063 = Some 0" by (simp add: low_va_def)
  ultimately show ?thesis by blast
qed

text \<open>
  C15: bytes that a program writes to a socket with the system call are in its memory again, unchanged and in order, after it has read
  from the other end; both calls return the number of bytes.
\<close>

theorem syscall_stream_roundtrip:
  assumes "net_ok s" and "space_ok (task_root s) s" and "i < 24" "u_used (socks s ! i)" "peer_idx (socks s ! i) = int j"
    and "rx_pending (socks s ! j) = []" and "0 < unat n" "unat n \<le> 8191"
    and "ureadable p (unat n) s" "ureadable q (unat n) s"
    and "r_rax w = 1" "r_rdi w = 128 + of_nat i" "r_rsi w = p" "r_rdx w = n"
    and "r_rax d = 0" "r_rdi d = 128 + of_nat j" "r_rsi d = q" "r_rdx d = n"
  shows "\<exists>s1 s2. syscall_handler env w s = Inr (Some (w\<lparr>r_rax := n\<rparr>), s1) \<and>
    syscall_handler env' d s1 = Inr (Some (d\<lparr>r_rax := n\<rparr>), s2) \<and> ubytes q (unat n) s2 = ubytes p (unat n) s"
  using assms by (rule stream_through_handler)

definition regs_zero :: Registers where
  "regs_zero =
     \<lparr>r_gs = 0, r_fs = 0, r_es = 0, r_ds = 0, r_r15 = 0, r_r14 = 0, r_r13 = 0, r_r12 = 0, r_r11 = 0, r_r10 = 0, r_r9 = 0, r_r8 = 0,
      r_rbp = 0, r_rdi = 0, r_rsi = 0, r_rdx = 0, r_rcx = 0, r_rbx = 0, r_rax = 0, r_int_no = 0x80, r_err_code = 0,
      r_rip = 0, r_cs = 0x1B, r_rflags = 0x202, r_rsp = 0, r_ss = 0x23\<rparr>"

theorem syscall_stream_roundtrip_witness:
  "\<exists>m env s1 s2. map_page True 4096 0x400000 7 mach_demo = Inr (True, m) \<and>
     syscall_handler env (regs_zero\<lparr>r_rax := 1, r_rdi := 128, r_rsi := 0x400000, r_rdx := 3\<rparr>) (on_mach m sys_demo) =
       Inr (Some (regs_zero\<lparr>r_rax := 3, r_rdi := 128, r_rsi := 0x400000, r_rdx := 3\<rparr>), s1) \<and>
     syscall_handler env (regs_zero\<lparr>r_rax := 0, r_rdi := 129, r_rsi := 0x400800, r_rdx := 3\<rparr>) s1 =
       Inr (Some (regs_zero\<lparr>r_rax := 3, r_rdi := 129, r_rsi := 0x400800, r_rdx := 3\<rparr>), s2) \<and> ubytes 0x400800 3 s2 = [0, 0, 0]"
proof -
  let ?env = "\<lparr>env_waits = [], env_irqs = [], env_rsp = 0\<rparr> :: sys sysenv"
  obtain m where m: "map_page True 4096 0x400000 7 mach_demo = Inr (True, m)" "space_ok 4096 m"
    "\<forall>v :: u64. 0x400000 \<le> unat v \<longrightarrow> unat v < 0x401000 \<longrightarrow> uread 4096 m v = Some 0" using demo_page by blast
  let ?s = "on_mach m sys_demo"
  have so: "socks ?s = socks net_demo_pair" by (simp add: sys_demo_def kio_demo_def kio.defs net.defs)
  have u: "u_used (socks ?s ! 0)" "peer_idx (socks ?s ! 0) = int 1" "rx_pending (socks ?s ! 1) = []"
    unfolding so by (simp_all add: net_demo_pair_socks rx_pending_def ring_list_def ring_len_def usock_zero_def)
  have b: "ureadable 0x400000 3 ?s" "ubytes 0x400000 3 ?s = [0, 0, 0]" "ureadable 0x400800 3 ?s"
    using demo_readable [OF m(3) _ sys_demo_root, of 3] m(3) by (simp_all add: ureadable_def sys_demo_root numeral_3_eq_3)
  let ?w = "regs_zero\<lparr>r_rax := 1, r_rdi := 128, r_rsi := 0x400000, r_rdx := 3\<rparr>"
  let ?d = "regs_zero\<lparr>r_rax := 0, r_rdi := 129, r_rsi := 0x400800, r_rdx := 3\<rparr>"
  have sp: "net_ok ?s" "space_ok (task_root ?s) ?s" using m(2) by (simp_all add: sys_demo_ok sys_demo_root)
  have n: "(0 :: nat) < 24" "0 < unat (3 :: u64)" "unat (3 :: u64) \<le> 8191" "ureadable 0x400000 (unat (3 :: u64)) ?s"
    "ureadable 0x400800 (unat (3 :: u64)) ?s" using b(1,3) by simp_all
  have r: "r_rax ?w = 1" "r_rdi ?w = 128 + of_nat 0" "r_rsi ?w = 0x400000" "r_rdx ?w = 3"
    "r_rax ?d = 0" "r_rdi ?d = 128 + of_nat 1" "r_rsi ?d = 0x400800" "r_rdx ?d = 3" by simp_all
  from syscall_stream_roundtrip [OF sp n(1) u n(2-5) r, of ?env ?env] obtain s1 s2
    where "syscall_handler ?env ?w ?s = Inr (Some (?w\<lparr>r_rax := 3\<rparr>), s1)" "syscall_handler ?env ?d s1 = Inr (Some (?d\<lparr>r_rax := 3\<rparr>), s2)"
      "ubytes 0x400800 (unat (3 :: u64)) s2 = ubytes 0x400000 (unat (3 :: u64)) ?s" by blast
  with m(1) b(2) show ?thesis by (intro exI [of _ m] exI [of _ ?env] exI [of _ s1] exI [of _ s2]) simp
qed

end
