(* ===== verification/Syscall_Inv.thy ===== *)
theory Syscall_Inv
  imports Syscall
begin

text \<open>
  The system calls as a whole: whatever call a program makes with whatever arguments, the table of sockets and the table of
  event polling instances stay well formed, also across the points where a call sleeps and others run.
\<close>

section \<open>What the calls leave alone\<close>

text \<open>Everything behind the scheduler's part of the state is untouched by a call that works on files, memory or tasks only.\<close>

lemma mach_more_sched: "mach.more s' = mach.more s \<Longrightarrow> sched.more s' = sched.more (s :: 'a sched_scheme)"
  by (cases s; cases s') simp

lemma heap_more_sched_more: "heap.more s' = heap.more s \<Longrightarrow> sched.more s' = sched.more (s :: 'a sched_scheme)"
  by (cases s; cases s') simp

lemma vfs_more_net: "vfs.more s' = vfs.more s \<Longrightarrow> net.more s' = net.more (s :: 'a net_scheme)"
  by (cases s; cases s') simp

lemma sched_more_sys: "sched.more s' = sched.more s \<Longrightarrow> socks s' = socks s \<and> epolls s' = epolls (s :: 'a sys_scheme)"
  by (cases s; cases s') simp

lemma net_more_sys: "net.more s' = net.more s \<Longrightarrow> epolls s' = epolls (s :: 'a sys_scheme)"
  by (cases s; cases s') simp

lemma serial_read_loop_more: "serial_read_loop n acc s = Inr (bs, s') \<Longrightarrow> vfs.more s' = vfs.more s"
  by (induction n acc s rule: serial_read_loop.induct) (auto simp: serial_getchar_def split: if_splits sum.splits list.splits)

lemma serial_out_more: "vfs.more (fold serial_putchar cs s) = vfs.more s"
  by (induction cs arbitrary: s) (auto simp: serial_putchar_def)

lemma devfs_chr_read_more: "devfs_chr_read n len off s = Inr (r, bs, off', s') \<Longrightarrow> vfs.more s' = vfs.more s"
  by (auto simp: devfs_chr_read_def dest: serial_read_loop_more split: if_splits sum.splits prod.splits)

lemma devfs_chr_write_more: "devfs_chr_write n buf off s = Inr (r, off', s') \<Longrightarrow> vfs.more s' = vfs.more s"
  by (auto simp: devfs_chr_write_def serial_out_more dest: shm_write_more [THEN shm_more_vfs_more] split: if_splits)

lemma vfs_read_more: "vfs_read fd len s = Inr (r, bs, s') \<Longrightarrow> vfs.more s' = vfs.more s"
  by (auto simp: vfs_read_def Let_def dest: devfs_chr_read_more split: if_splits sum.splits option.splits prod.splits)

lemma write_reserve_more: "write_reserve e n s = Inr (x, s') \<Longrightarrow> vfs.more s' = vfs.more s"
  by (auto simp: write_reserve_def Let_def dest: krealloc_more [THEN heap_more_vfs_more] split: if_splits sum.splits)

lemma vfs_write_more: "vfs_write fd buf s = Inr (r, s') \<Longrightarrow> vfs.more s' = vfs.more s"
  by (auto simp: vfs_write_def Let_def dest: devfs_chr_write_more write_reserve_more split: if_splits sum.splits option.splits prod.splits)

lemma vfs_ftruncate_more: "vfs_ftruncate fd len s = Inr (r, s') \<Longrightarrow> vfs.more s' = vfs.more s"
  by (auto simp: vfs_ftruncate_def Let_def dest!: krealloc_more [THEN heap_more_vfs_more] shm_truncate_more [THEN shm_more_vfs_more]
      split: if_splits sum.splits option.splits)

lemma vfs_mkdir_more: "vfs.more (snd (vfs_mkdir path s)) = vfs.more s"
  by (auto simp: vfs_mkdir_def Let_def dest: make_node_more split: if_splits option.splits prod.splits)

lemma vfs_small_more:
  "vfs.more (snd (vfs_dup2 a b s)) = vfs.more s" "vfs.more (snd (vfs_lseek fd off wh s)) = vfs.more s"
  "vfs.more (snd (vfs_fcntl fd cmd arg s)) = vfs.more s" "vfs.more (snd (snd (vfs_getdents64 fd cnt s))) = vfs.more s"
  by (auto simp: vfs_dup2_def vfs_lseek_def vfs_fcntl_def vfs_getdents64_def Let_def split: option.splits prod.splits)

lemma copy_more: "vnl_copy_to_user_va root va src n s = Inr s' \<Longrightarrow> mach.more s' = mach.more s"
  by (induction root va src n s rule: vnl_copy_to_user_va.induct) (auto simp: Let_def split: if_splits list.splits)

lemma ustore_more: "ustore va bs s = Inr s' \<Longrightarrow> mach.more s' = mach.more s"
  by (drule ustore_frame) auto

lemma put_current_more [simp]: "sched.more (put_current t s) = sched.more s"
  by (simp add: put_current_def put_task_def)

lemma uspace_create_more: "uspace_create_pml4 s = (p, s') \<Longrightarrow> mach.more s' = mach.more s"
  by (auto simp: uspace_create_pml4_def Let_def dest!: pmm_alloc_more split: prod.splits if_splits)

lemma elf_segment_more: "elf_segment root elf ph me s = Inr (r, s') \<Longrightarrow> mach.more s' = mach.more s"
  by (auto simp: elf_segment_def Let_def dest!: map_fresh_more copy_more split: sum.splits if_splits bool.splits)

lemma elf_segments_more: "elf_segments root elf po i n me s = Inr (r, s') \<Longrightarrow> mach.more s' = mach.more s"
proof (induction n arbitrary: i me s)
  case (Suc n)
  then show ?case by (auto simp: Let_def dest!: elf_segment_more split: if_splits sum.splits)
qed simp

lemma elf_load_more: "elf_load_exec root elf s = Inr (r, s') \<Longrightarrow> mach.more s' = mach.more s"
  by (auto simp: elf_load_exec_def Let_def dest!: elf_segments_more split: sum.splits if_splits)

lemma read_image_more: "read_image path s = Inr (r, s') \<Longrightarrow> vfs.more s' = vfs.more s"
  by (auto simp: read_image_def Let_def vfs_close_more
      dest!: vfs_open_more vfs_read_more kmalloc_more [THEN heap_more_vfs_more] kfree_more [THEN heap_more_vfs_more] split: sum.splits if_splits)

lemma load_image_more: "load_image buf elf s = Inr (r, s') \<Longrightarrow> sched.more s' = sched.more s"
  by (auto simp: load_image_def
      dest!: uspace_create_more [THEN mach_more_sched] elf_load_more [THEN mach_more_sched] kfree_more [THEN heap_more_sched_more]
      split: sum.splits if_splits prod.splits)

lemma build_frame_more:
  "build_fake_frame a b s = (f, s') \<Longrightarrow> sched.more s' = sched.more s" "build_user_frame a b c s = (f, s') \<Longrightarrow> sched.more s' = sched.more s"
  by (auto simp: build_fake_frame_def build_user_frame_def Let_def)

lemma add_task_more: "sched.more (snd (add_task t s)) = sched.more s"
  by (simp add: add_task_def put_task_def)

lemma task_create_more: "task_create name e s = Inr (r, s') \<Longrightarrow> sched.more s' = sched.more s"
  "task_create_user name c rip rsp b0 b1 s = Inr (r, s') \<Longrightarrow> sched.more s' = sched.more s"
  by (auto simp: task_create_def task_create_user_def add_task_def put_task_def
      dest!: kmalloc_more [THEN heap_more_sched_more] build_frame_more split: if_splits sum.splits prod.splits)

section \<open>The invariant\<close>

definition sys_inv :: "'a sys_scheme \<Rightarrow> bool" where
  "sys_inv s \<longleftrightarrow> net_ok s \<and> epolls_ok s"

text \<open>What others do while a call sleeps keeps the invariant.\<close>

definition waits_ok :: "'a sys_scheme waits \<Rightarrow> bool" where
  "waits_ok ws \<longleftrightarrow> (\<forall>w \<in> set ws. \<forall>s. sys_inv s \<longrightarrow> sys_inv (snd w s))"

lemma sys_inv_cong: "socks s' = socks s \<Longrightarrow> epolls s' = epolls s \<Longrightarrow> sys_inv s' = sys_inv s"
  by (simp add: sys_inv_def net_ok_def epolls_ok_def)

lemma sys_inv_frame: "sched.more s' = sched.more s \<Longrightarrow> sys_inv s \<Longrightarrow> sys_inv s'"
  using sched_more_sys sys_inv_cong by blast

lemma sys_inv_net: "net.more s' = net.more s \<Longrightarrow> net_ok s' \<Longrightarrow> sys_inv s \<Longrightarrow> sys_inv s'"
  using net_more_sys [of s' s] by (simp add: sys_inv_def epolls_ok_def)

lemma task_sleep_more: "sched.more (snd (task_sleep bst t rsp s)) = sched.more s"
  by (simp add: task_sleep_def sched_yield_c_def do_switch_def save_current_def set_state_def put_task_def Let_def split: option.split)

lemma task_exit_more: "sched.more (snd (task_exit bst rsp s)) = sched.more s"
  by (simp add: task_exit_def sched_yield_c_def do_switch_def save_current_def set_state_def put_task_def Let_def split: option.split)

lemma waits_ok_Cons: "waits_ok (w # ws) \<longleftrightarrow> (\<forall>s. sys_inv s \<longrightarrow> sys_inv (snd w s)) \<and> waits_ok ws" "waits_ok []"
  by (auto simp: waits_ok_def)

lemma sleep_tick_inv: "waits_ok (w # ws) \<Longrightarrow> sys_inv s \<Longrightarrow> sys_inv (sleep_tick w s)"
  using sys_inv_frame [OF task_sleep_more, of s "boot_top s" 1 "fst w"] by (cases w) (auto simp: sleep_tick_def waits_ok_Cons)

section \<open>Calls on sockets\<close>

lemma put_sock_more [simp]: "net.more (put_sock i u s) = net.more s"
  by (simp add: put_sock_def)

lemma alloc_slot_more: "alloc_slot s = Some (i, s') \<Longrightarrow> net.more s' = net.more s"
  by (auto simp: alloc_slot_def split: option.splits)

lemma unix_small_more:
  "net.more (snd (unix_socket domain ty s)) = net.more s" "net.more (snd (unix_listen fd s)) = net.more s"
  "net.more (snd (unix_sock_fcntl fd cmd arg s)) = net.more s" "net.more (snd (accept_take i s)) = net.more s"
  "net.more (snd (unix_eventfd iv fl s)) = net.more s"
  by (auto simp: unix_socket_def unix_listen_def unix_sock_fcntl_def accept_take_def unix_eventfd_def Let_def
      dest: alloc_slot_more split: option.splits)

lemma unix_socketpair_more: "net.more (snd (snd (unix_socketpair domain ty s))) = net.more s"
  by (auto simp: unix_socketpair_def dest!: alloc_slot_more split: option.splits)

lemma unix_connect_more: "net.more (snd (unix_connect fd addr s)) = net.more s"
  by (auto simp: unix_connect_def Let_def dest!: alloc_slot_more split: option.splits)

lemma unix_bind_more: "unix_bind fd addr s = Inr (r, s') \<Longrightarrow> net.more s' = net.more s"
  by (auto simp: unix_bind_def Let_def vfs_close_more [THEN vfs_more_net] dest!: vfs_open_more [THEN vfs_more_net] split: if_splits sum.splits)

lemma peer_push_more: "peer_push i buf s = Inr (ok, s') \<Longrightarrow> net.more s' = net.more s"
  by (auto simp: peer_push_def Let_def split: if_splits prod.splits)

lemma unix_sock_write_more: "unix_sock_write fd buf s = Inr (r, s') \<Longrightarrow> net.more s' = net.more s"
  by (auto simp: unix_sock_write_def Let_def dest!: peer_push_more split: if_splits sum.splits)

lemma unpeer_more: "net.more (unpeer i s) = net.more s"
  by (simp add: unpeer_def Let_def)

lemma close_passed_more: "net.more (close_passed n i s) = net.more s"
  by (induction n i s rule: close_passed.induct) (auto simp: Let_def vfs_close_more [THEN vfs_more_net])

lemma unix_sock_close_more: "unix_sock_close fd s = Inr (r, s') \<Longrightarrow> net.more s' = net.more s"
  by (auto simp: unix_sock_close_def Let_def close_passed_more unpeer_more dest!: vfs_unlink_more [THEN vfs_more_net]
      split: if_splits sum.splits)

lemma send_iov_more: "send_iov i iov tot s = Inr (r, s') \<Longrightarrow> net.more s' = net.more s"
  by (induction i iov tot s rule: send_iov.induct) (auto dest!: peer_push_more split: sum.splits bool.splits)

lemma pass_fd_more: "pass_fd p fd s = (r, s') \<Longrightarrow> net.more s' = net.more s"
  by (auto simp: pass_fd_def Let_def vfs_close_more [THEN vfs_more_net] split: if_splits prod.splits
      dest!: arg_cong [where f = "\<lambda>x. net.more (snd x)"] simp: vfs_dup_more [THEN vfs_more_net])

lemma pass_fds_more: "pass_fds p ctl n a s = Inr (r, s') \<Longrightarrow> net.more s' = net.more s"
proof (induction n arbitrary: a s)
  case (Suc n)
  then show ?case by (auto dest!: pass_fd_more split: if_splits prod.splits option.splits)
qed simp

lemma send_control_more: "send_control k p ctl off s = Inr (r, s') \<Longrightarrow> net.more s' = net.more s"
proof (induction k arbitrary: off s)
  case (Suc k)
  then show ?case by (auto simp: Let_def dest!: pass_fds_more split: if_splits sum.splits option.splits)
qed simp

lemma unix_sock_sendmsg_more: "unix_sock_sendmsg fd iov ctl s = Inr (r, s') \<Longrightarrow> net.more s' = net.more s"
  by (auto simp: unix_sock_sendmsg_def Let_def dest!: send_iov_more send_control_more split: if_splits sum.splits option.splits)

lemma pop_take_inv:
  assumes inv: "sys_inv s" and i: "i < 24" and p: "pop_bytes n (socks s ! i) = (cs, u)"
  shows "sys_inv (put_sock i u s)"
proof (rule sys_inv_net [OF _ _ inv])
  have ok: "net_ok s" using inv by (simp add: sys_inv_def)
  show "net_ok (put_sock i u s)"
    by (rule net_ok_same [OF ok i pop_bytes_sock_ok [OF net_okD(2) [OF ok i] p]]) (use pop_bytes_frame [OF p] in auto)
qed simp

lemma pop_wait_inv:
  assumes "pop_wait i ws s = Inr (b, ws', s')" "sys_inv s" "waits_ok ws"
  shows "sys_inv s' \<and> waits_ok ws'"
  using assms
proof (induction ws arbitrary: s)
  case (Cons w ws)
  with sleep_tick_inv [OF Cons.prems(3,2)] show ?case by (auto simp: Let_def waits_ok_Cons split: if_splits)
qed (auto simp: Let_def split: if_splits)

lemma pop_rx_inv:
  assumes r: "pop_rx i len ws s = Inr (r, bs, ws', s')" and inv: "sys_inv s" "waits_ok ws" and i: "i < 24"
  shows "sys_inv s' \<and> waits_ok ws'"
proof -
  from r obtain b ws1 s1 where w: "pop_wait i ws s = Inr (b, ws1, s1)" by (auto simp: pop_rx_def split: sum.splits)
  note w1 = pop_wait_inv [OF w inv]
  with r w pop_take_inv [of s1, OF _ i] show ?thesis
    by (cases b) (auto simp: pop_rx_def split: prod.splits)
qed

lemma accept_wait_inv:
  assumes "accept_wait i ws s = Inr (b, s')" "sys_inv s" "waits_ok ws"
  shows "sys_inv s'"
  using assms
proof (induction ws arbitrary: s)
  case (Cons w ws)
  with sleep_tick_inv [OF Cons.prems(3,2)] show ?case by (auto simp: waits_ok_Cons split: if_splits)
qed (auto split: if_splits)

lemma recv_iov_inv:
  assumes "recv_iov i iov tot acc ws s = Inr (r, acc', s')" "sys_inv s" "waits_ok ws" "i < 24"
  shows "sys_inv s'"
  using assms
proof (induction iov arbitrary: tot acc ws s)
  case (Cons seg iov)
  show ?case
  proof (cases "seg = None \<or> seg = Some 0")
    case False
    then obtain len where len: "seg = Some len" "len \<noteq> 0" by auto
    with Cons.prems(1) obtain q bs ws1 s1 where p: "pop_rx i len ws s = Inr (q, bs, ws1, s1)" by (auto split: sum.splits)
    note p1 = pop_rx_inv [OF p Cons.prems(2-4)]
    with Cons.prems(1,4) p len Cons.IH [where s = s1 and ws = ws1] show ?thesis by (auto split: if_splits)
  qed (use Cons in auto)
qed auto

section \<open>Every call keeps the invariant\<close>

lemmas to_sched = mach_more_sched heap_more_sched_more vfs_more_sched

lemma sys_inv_vfs: "vfs.more s' = vfs.more s \<Longrightarrow> sys_inv s \<Longrightarrow> sys_inv s'"
  by (rule sys_inv_frame [OF vfs_more_sched])

lemma sys_inv_mach: "mach.more s' = mach.more s \<Longrightarrow> sys_inv s \<Longrightarrow> sys_inv s'"
  by (rule sys_inv_frame [OF mach_more_sched])

lemma sys_invD: "sys_inv s \<Longrightarrow> net_ok s" "sys_inv s \<Longrightarrow> epolls_ok s"
  by (simp_all add: sys_inv_def)

lemma write_fd_inv: "write_fd fd buf len s = Inr (r, s') \<Longrightarrow> sys_inv s \<Longrightarrow> sys_inv s'"
  by (auto simp: write_fd_def Let_def split: if_splits sum.splits
      intro: sys_inv_net [OF unix_sock_write_more unix_sock_write_ok [OF sys_invD(1)]] sys_inv_vfs [OF vfs_write_more])

lemma sys_write_inv: "sys_write fd buf len s = Inr (r, s') \<Longrightarrow> sys_inv s \<Longrightarrow> sys_inv s'"
proof -
  assume w: "sys_write fd buf len s = Inr (r, s')" and inv: "sys_inv s"
  have "sys_inv (s\<lparr>con := c\<rparr>)" for c by (rule sys_inv_frame [OF _ inv]) simp
  with w inv show ?thesis by (auto simp: sys_write_def split: if_splits sum.splits intro: write_fd_inv)
qed

lemma unix_sock_read_inv:
  assumes "unix_sock_read fd len ws s = Inr (r, bs, s')" "sys_inv s" "waits_ok ws"
  shows "sys_inv s'"
proof (cases "unix_is_sockfd fd s")
  case True
  then obtain i where i: "i < 24" "nat (idx_from_fd fd) = i" by (rule sockfdE)
  from assms(1,2) True show ?thesis
    unfolding unix_sock_read_def Let_def i(2)
    by (auto split: if_splits sum.splits dest: pop_rx_inv [OF _ assms(2,3) i(1)])
qed (use assms in \<open>simp add: unix_sock_read_def\<close>)

lemma read_fd_inv:
  assumes "read_fd fd buf len ws s = Inr (r, s')" "sys_inv s" "waits_ok ws"
  shows "sys_inv s'"
proof -
  from assms(1) obtain bs s1 where b: "(if unix_is_sockfd fd s then unix_sock_read fd len ws s else vfs_read fd len s) = Inr (r, bs, s1)"
    "ustore buf bs s1 = Inr s'" by (auto simp: read_fd_def split: sum.splits)
  have "sys_inv s1" using b(1) assms(2,3) by (auto split: if_splits intro: unix_sock_read_inv sys_inv_vfs [OF vfs_read_more])
  then show ?thesis by (rule sys_inv_mach [OF ustore_more [OF b(2)]])
qed

lemma sys_read_inv:
  assumes r: "sys_read fd buf len env s = Inr (r, s')" and inv: "sys_inv s" "waits_ok (env_waits env)"
  shows "sys_inv s'"
proof -
  from r obtain q s1 where b: "read_fd fd buf len (env_waits env) s = Inr (q, s1)" by (auto simp: sys_read_def split: sum.splits)
  note i1 = read_fd_inv [OF b inv]
  have k: "sys_inv (s1\<lparr>kbd_dev := kk\<rparr>)" for kk by (rule sys_inv_frame [OF _ i1]) simp
  from r b i1 show ?thesis
    by (auto simp: sys_read_def split: if_splits sum.splits option.splits intro: sys_inv_mach [OF ustore_more k] simp del: ustore.simps)
qed

lemma with_path_inv:
  assumes "with_path ptr f s = Inr (r, s')" "sys_inv s" "\<And>path r s'. f path s = Inr (r, s') \<Longrightarrow> vfs.more s' = vfs.more s"
  shows "sys_inv s'"
  using assms by (auto simp: with_path_def split: sum.splits intro: sys_inv_vfs)

lemma frame_calls:
  "sys_ioctl fd req arg s = Inr (r, s') \<Longrightarrow> sched.more s' = sched.more s"
  "sys_munmap a n s = Inr (r, s') \<Longrightarrow> sched.more s' = sched.more s"
  "sys_stat a b s = Inr (r, s') \<Longrightarrow> sched.more s' = sched.more s"
  "sys_fstat fd b s = Inr (r, s') \<Longrightarrow> sched.more s' = sched.more s"
  "sys_getcwd a b s = Inr (r, s') \<Longrightarrow> sched.more s' = sched.more s"
  "sys_uname a s = Inr (r, s') \<Longrightarrow> sched.more s' = sched.more s"
proof -
  have un: "vmm_unmap_loop k root v e s = Inr s' \<Longrightarrow> mach.more s' = mach.more s" for k root v e and s s' :: "'a sched_scheme"
  proof (induction k arbitrary: v s)
    case (Suc k)
    then show ?case by (auto simp: vmm_get_pte_pml4_phys_def split: if_splits sum.splits dest!: vmm_walk_more)
  qed simp
  show "sys_munmap a n s = Inr (r, s') \<Longrightarrow> sched.more s' = sched.more s"
    by (auto simp: sys_munmap_def vmm_unmap_range_pml4_def Let_def split: sum.splits if_splits dest!: un mach_more_sched)
qed (auto simp: sys_ioctl_def sys_stat_def sys_fstat_def sys_getcwd_def sys_uname_def Let_def
    split: sum.splits prod.splits if_splits option.splits dest!: ustore_more copy_more mach_more_sched simp del: ustore.simps vnl_copy_to_user_va.simps)

lemma sys_brk_more: "sys_brk nb s = Inr (r, s') \<Longrightarrow> sched.more s' = sched.more s"
  by (auto simp: sys_brk_def Let_def split: if_splits sum.splits bool.splits dest!: map_fresh_more mach_more_sched)

lemma map_phys_more: "map_phys n root va pa s = Inr s' \<Longrightarrow> mach.more s' = mach.more s"
proof (induction n arbitrary: va pa s)
  case (Suc n)
  then show ?case by (auto split: sum.splits dest!: vmm_map_more)
qed simp

lemma map_shm_more: "map_shm n idx off root va s = Inr (ok, s') \<Longrightarrow> mach.more s' = mach.more s"
proof (induction n arbitrary: off va s)
  case (Suc n)
  then show ?case by (auto simp: Let_def split: sum.splits if_splits dest!: vmm_map_more)
qed simp

lemma mmap_device_more: "mmap_device va len fd off s = Inr (r, s') \<Longrightarrow> sched.more s' = sched.more s"
  by (auto simp: mmap_device_def Let_def split: if_splits sum.splits option.splits dest!: map_phys_more map_shm_more mach_more_sched)

lemma sys_mmap_more: "sys_mmap addr len flags fd off s = Inr (r, s') \<Longrightarrow> sched.more s' = sched.more s"
  by (auto simp: sys_mmap_def Let_def split: if_splits sum.splits dest!: map_fresh_more [THEN mach_more_sched] mmap_device_more)

lemma sys_getdents64_more: "sys_getdents64 fd p n s = Inr (r, s') \<Longrightarrow> sched.more s' = sched.more s"
proof -
  have g: "vfs_getdents64 fd c s = (q, bs, s') \<Longrightarrow> sched.more s' = sched.more s" for c q bs and s s' :: "'a sched_scheme"
    using vfs_small_more(4) [of fd c s, THEN vfs_more_sched] by simp
  show "sys_getdents64 fd p n s = Inr (r, s') \<Longrightarrow> sched.more s' = sched.more s"
    by (auto simp: sys_getdents64_def Let_def split: if_splits sum.splits prod.splits
        dest!: kmalloc_more [THEN heap_more_sched_more] kfree_more [THEN heap_more_sched_more] copy_more [THEN mach_more_sched] g)
qed

lemma sys_task_create_more: "sys_task_create cs fn p s = Inr (r, s') \<Longrightarrow> sched.more s' = sched.more s"
  by (auto simp: sys_task_create_def Let_def split: if_splits sum.splits prod.splits bool.splits
      dest!: map_fresh_more [THEN mach_more_sched] task_create_more)

lemma sys_execve_more: "sys_execve r s = Inr (q, r', s') \<Longrightarrow> sched.more s' = sched.more s"
  by (auto simp: sys_execve_def Let_def split: if_splits sum.splits prod.splits bool.splits
      dest!: read_image_more [THEN vfs_more_sched] load_image_more map_fresh_more [THEN mach_more_sched] copy_more [THEN mach_more_sched])

lemma sock_calls_inv:
  assumes inv: "sys_inv s"
  shows "sys_socketpair d ty sv s = Inr (r, s') \<Longrightarrow> sys_inv s'" "sys_bind fd a n s = Inr (r, s') \<Longrightarrow> sys_inv s'"
    "sys_connect fd a n s = Inr (r, s') \<Longrightarrow> sys_inv s'" "sys_sendmsg fd m s = Inr (r, s') \<Longrightarrow> sys_inv s'"
proof -
  note ok = sys_invD(1) [OF inv]
  have "sys_inv (snd (snd (unix_socketpair d ty s)))" by (rule sys_inv_net [OF unix_socketpair_more unix_socketpair_ok [OF ok] inv])
  then show "sys_socketpair d ty sv s = Inr (r, s') \<Longrightarrow> sys_inv s'"
    by (auto simp: sys_socketpair_def split: prod.splits option.splits sum.splits dest!: copy_more intro: sys_inv_mach simp del: vnl_copy_to_user_va.simps)
  show "sys_bind fd a n s = Inr (r, s') \<Longrightarrow> sys_inv s'"
    by (auto simp: sys_bind_def split: sum.splits intro: sys_inv_net [OF unix_bind_more unix_bind_ok [OF ok] inv])
  have "sys_inv (snd (unix_connect fd bs s))" for bs by (rule sys_inv_net [OF unix_connect_more unix_connect_ok [OF ok] inv])
  then show "sys_connect fd a n s = Inr (r, s') \<Longrightarrow> sys_inv s'" by (auto simp: sys_connect_def split: sum.splits) (metis snd_conv)
  show "sys_sendmsg fd m s = Inr (r, s') \<Longrightarrow> sys_inv s'"
    using inv by (auto simp: sys_sendmsg_def split: sum.splits if_splits prod.splits
        intro: sys_inv_net [OF unix_sock_sendmsg_more unix_sock_sendmsg_ok [OF ok] inv])
qed

lemma unix_accept_inv:
  assumes r: "unix_accept fd ws s = Inr (r, s')" and inv: "sys_inv s" "waits_ok ws"
  shows "sys_inv s'"
proof (cases "unix_is_sockfd fd s \<and> u_state (socks s ! nat (idx_from_fd fd)) = SK_LISTENING")
  case True
  then obtain i where i: "i < 24" "nat (idx_from_fd fd) = i" by (auto elim: sockfdE)
  from r True i(2) obtain b s1 where w: "accept_wait i ws s = Inr (b, s1)" by (auto simp: unix_accept_def Let_def split: sum.splits)
  note i1 = accept_wait_inv [OF w inv]
  have "sys_inv (snd (accept_take i s1))"
    by (rule sys_inv_net [OF unix_small_more(4) accept_take_ok [OF sys_invD(1) [OF i1] i(1)] i1])
  with r True i(2) w i1 show ?thesis
    by (cases b) (auto simp: unix_accept_def Let_def dest!: arg_cong [where f = snd])
qed (use assms in \<open>auto simp: unix_accept_def Let_def split: if_splits\<close>)

lemma sys_accept_inv:
  assumes "sys_accept fd p ws s = Inr (r, s')" "sys_inv s" "waits_ok ws"
  shows "sys_inv s'"
  using assms by (auto simp: sys_accept_def split: if_splits sum.splits simp del: ustore.simps
      intro: unix_accept_inv sys_inv_mach [OF ustore_more])

lemma ustore_segments_more: "ustore_segments iov bss s = Inr s' \<Longrightarrow> mach.more s' = mach.more s"
  by (induction iov bss s rule: ustore_segments.induct) (auto split: if_splits sum.splits dest!: ustore_more)

lemma ustore_control_more: "ustore_control m c fs n s = Inr s' \<Longrightarrow> mach.more s' = mach.more s"
  by (auto simp: ustore_control_def split: if_splits sum.splits dest!: ustore_more simp del: ustore.simps)

lemma unix_sock_recvmsg_inv:
  assumes r: "unix_sock_recvmsg fd iov cl ws s = Inr (r, bss, fs, n, s')" and inv: "sys_inv s" "waits_ok ws"
  shows "sys_inv s'"
proof (cases "unix_is_sockfd fd s \<and> u_state (socks s ! nat (idx_from_fd fd)) = SK_CONNECTED")
  case True
  then obtain i where i: "i < 24" "nat (idx_from_fd fd) = i" by (auto elim: sockfdE)
  from r True i(2) obtain x acc s1 where w: "recv_iov i iov 0 [] ws s = Inr (x, acc, s1)"
    by (auto simp: unix_sock_recvmsg_def Let_def split: sum.splits)
  note i1 = recv_iov_inv [OF w inv i(1)]
  have "sys_inv (put_sock i (snd (pop_fds k (socks s1 ! i))) s1)" for k
    by (rule sys_inv_net [OF put_sock_more take_fds_ok [OF sys_invD(1) [OF i1] i(1)] i1])
  with r True i(2) w i1 show ?thesis
    by (auto simp: unix_sock_recvmsg_def Let_def split: sum.splits if_splits prod.splits) (metis snd_conv)+
qed (use assms in \<open>auto simp: unix_sock_recvmsg_def Let_def split: if_splits\<close>)

lemma sys_recvmsg_inv:
  assumes "sys_recvmsg fd m ws s = Inr (r, s')" "sys_inv s" "waits_ok ws"
  shows "sys_inv s'"
proof -
  have seg: "sys_inv s2" if "ustore_segments iov bss s1 = Inr s2" "sys_inv s1" for iov bss s1 s2
    using ustore_segments_more [OF that(1)] that(2) by (rule sys_inv_mach)
  have con: "sys_inv s2" if "ustore_control a b c d s1 = Inr s2" "sys_inv s1" for a b c d s1 s2
    using ustore_control_more [OF that(1)] that(2) by (rule sys_inv_mach)
  from assms show ?thesis
    by (auto simp: sys_recvmsg_def split: sum.splits if_splits prod.splits
        dest!: unix_sock_recvmsg_inv [OF _ assms(2,3)] dest: seg con)
qed

lemma put_epoll_more: "socks (put_epoll i ep s) = socks s"
  by (simp add: put_epoll_def)

lemma epoll_create_inv: "sys_inv s \<Longrightarrow> sys_inv (snd (sys_epoll_create1 s))"
proof -
  assume inv: "sys_inv s"
  have "socks (snd (epoll_alloc s)) = socks s" by (simp add: epoll_alloc_def Let_def put_epoll_more split: option.split)
  with inv epoll_alloc_ok [of s] have "sys_inv (snd (epoll_alloc s))" by (simp add: sys_inv_def net_ok_def)
  then show ?thesis by (cases "epoll_alloc s") (simp add: sys_epoll_create1_def)
qed

lemma epoll_ctl_inv:
  assumes r: "sys_epoll_ctl epfd op fd p s = Inr (r, s')" and inv: "sys_inv s"
  shows "sys_inv s'"
proof (cases "epoll_bad epfd s")
  case False
  have "op = 2 \<or> (\<exists>bs. uload 16 p s = Inr bs)"
    using r False by (auto simp: sys_epoll_ctl_def Let_def split: if_splits sum.splits)
  then obtain bs where "op = 2 \<or> uload 16 p s = Inr bs" by blast
  from epoll_ctl_refines [OF sys_invD(2) [OF inv] False this, of fd] r obtain ep where "epolls_ok s'" "s' = put_epoll (nat (epfd - 200)) ep s" by auto
  with inv show ?thesis by (simp add: sys_inv_def net_ok_def put_epoll_more)
qed (use r inv in \<open>simp add: sys_epoll_ctl_def Let_def\<close>)

lemma epoll_loop_inv:
  assumes "epoll_loop idx mx t k ws s = Inr (out, s')" "sys_inv s" "waits_ok ws"
  shows "sys_inv s'"
  using assms
proof (induction ws arbitrary: k s)
  case Nil
  then show ?case by (subst (asm) epoll_loop.simps) (auto simp: Let_def split: sum.splits if_splits)
next
  case (Cons w ws)
  from Cons.prems(1) Cons.IH [OF _ sleep_tick_inv [OF Cons.prems(3,2)]] Cons.prems(2,3) show ?case
    by (subst (asm) epoll_loop.simps) (auto simp: Let_def waits_ok_Cons split: sum.splits if_splits simp del: epoll_loop.simps)
qed

lemma epoll_wait_inv:
  assumes "sys_epoll_wait epfd p mx t ws s = Inr (r, s')" "sys_inv s" "waits_ok ws"
  shows "sys_inv s'"
  using assms by (auto simp: sys_epoll_wait_def split: if_splits sum.splits simp del: epoll_loop.simps vnl_copy_to_user_va.simps
      intro: sys_inv_mach [OF copy_more epoll_loop_inv])

lemma sys_sleep_inv:
  assumes "sys_task_sleep ms ws s = Inr (r, s')" "sys_inv s" "waits_ok ws"
  shows "sys_inv s'"
  using assms sys_inv_frame [OF task_sleep_more assms(2)] by (auto simp: sys_task_sleep_def waits_ok_Cons split: list.splits)

section \<open>The handler\<close>

definition res_inv :: "(int \<times> 'a sys_scheme) res \<Rightarrow> bool" where
  "res_inv x \<longleftrightarrow> (\<forall>r s'. x = Inr (r, s') \<longrightarrow> sys_inv s')"

lemma res_invI: "(\<And>r s'. x = Inr (r, s') \<Longrightarrow> sys_inv s') \<Longrightarrow> res_inv x"
  by (simp add: res_inv_def)

lemma res_inv_Inr: "res_inv (Inr p) = sys_inv (snd p)"
  by (cases p) (simp add: res_inv_def)

lemma file_calls_keep:
  assumes inv: "sys_inv s" and ws: "waits_ok (env_waits env)"
  shows "res_inv (sys_read fd a b env s)" "res_inv (sys_write fd a b s)" "res_inv (with_path a (\<lambda>path. vfs_open path fl) s)"
    "res_inv (unix_sock_close fd s)" "res_inv (Inr (vfs_close fd s))" "res_inv (sys_stat a b s)" "res_inv (sys_fstat fd a s)"
    "res_inv (Inr (vfs_lseek fd off wh s))" "res_inv (sys_ioctl fd a b s)" "res_inv (Inr (vfs_dup fd s))" "res_inv (Inr (vfs_dup2 fd fd' s))"
    "res_inv (Inr (unix_sock_fcntl fd cmd arg s))" "res_inv (Inr (vfs_fcntl fd cmd arg s))" "res_inv (vfs_ftruncate fd a s)"
    "res_inv (sys_getcwd a b s)" "res_inv (with_path a (\<lambda>path s. Inr (vfs_mkdir path s)) s)" "res_inv (with_path a vfs_unlink s)"
    "res_inv (sys_getdents64 fd a b s)"
proof -
  note ok = sys_invD(1) [OF inv]
  show "res_inv (sys_read fd a b env s)" by (rule res_invI, erule sys_read_inv [OF _ inv ws])
  show "res_inv (sys_write fd a b s)" by (rule res_invI, erule sys_write_inv [OF _ inv])
  show "res_inv (with_path a (\<lambda>path. vfs_open path fl) s)" by (rule res_invI, erule with_path_inv [OF _ inv], erule vfs_open_more)
  show "res_inv (with_path a vfs_unlink s)" by (rule res_invI, erule with_path_inv [OF _ inv], erule vfs_unlink_more)
  have "vfs.more t = vfs.more s" if "Inr (vfs_mkdir path s) = (Inr (x, t) :: (int \<times> 'a sys_scheme) res)" for path x t
    using vfs_mkdir_more [of path s] that by simp
  then show "res_inv (with_path a (\<lambda>path s. Inr (vfs_mkdir path s)) s)" by (intro res_invI, elim with_path_inv [OF _ inv])
  show "res_inv (unix_sock_close fd s)"
    by (rule res_invI, rule sys_inv_net [OF unix_sock_close_more unix_sock_close_ok [OF ok] inv])
  show "res_inv (vfs_ftruncate fd a s)" by (rule res_invI, rule sys_inv_vfs [OF vfs_ftruncate_more inv])
  show "res_inv (sys_getdents64 fd a b s)" by (rule res_invI, rule sys_inv_frame [OF sys_getdents64_more inv])
  show "res_inv (sys_stat a b s)" "res_inv (sys_fstat fd a s)" "res_inv (sys_ioctl fd a b s)" "res_inv (sys_getcwd a b s)"
    by (rule res_invI, erule frame_calls [THEN sys_inv_frame, OF _ inv])+
  show "res_inv (Inr (unix_sock_fcntl fd cmd arg s))"
    unfolding res_inv_Inr by (rule sys_inv_net [OF unix_small_more(3) unix_fcntl_ok [OF ok] inv])
qed (simp_all add: res_inv_Inr sys_inv_vfs [OF vfs_close_more inv] sys_inv_vfs [OF vfs_dup_more inv] vfs_small_more [THEN sys_inv_vfs, OF inv])

lemma sock_calls_keep:
  assumes inv: "sys_inv s" and ws: "waits_ok (env_waits env)"
  shows "res_inv (Inr (unix_socket d ty s))" "res_inv (sys_connect fd a b s)" "res_inv (sys_accept fd a (env_waits env) s)"
    "res_inv (write_fd fd a b s)" "res_inv (read_fd fd a b (env_waits env) s)" "res_inv (sys_sendmsg fd a s)"
    "res_inv (sys_recvmsg fd a (env_waits env) s)" "res_inv (sys_bind fd a b s)" "res_inv (Inr (unix_listen fd s))"
    "res_inv (sys_socketpair d ty a s)" "res_inv (sys_epoll_wait fd a mx t (env_waits env) s)" "res_inv (sys_epoll_ctl fd op fd' a s)"
    "res_inv (Inr (unix_eventfd iv fl s))" "res_inv (Inr (sys_epoll_create1 s))"
proof -
  note ok = sys_invD(1) [OF inv]
  show "res_inv (Inr (unix_socket d ty s))" "res_inv (Inr (unix_listen fd s))" "res_inv (Inr (unix_eventfd iv fl s))"
    unfolding res_inv_Inr
    by (rule sys_inv_net [OF _ unix_socket_ok [OF ok] inv] sys_inv_net [OF _ unix_listen_ok [OF ok] inv]
        sys_inv_net [OF _ unix_eventfd_ok [OF ok] inv], rule unix_small_more)+
  show "res_inv (Inr (sys_epoll_create1 s))" unfolding res_inv_Inr by (rule epoll_create_inv [OF inv])
qed (rule res_invI, erule sock_calls_inv [OF inv] sys_accept_inv [OF _ inv ws] write_fd_inv [OF _ inv] read_fd_inv [OF _ inv ws]
    sys_recvmsg_inv [OF _ inv ws] epoll_wait_inv [OF _ inv ws] epoll_ctl_inv [OF _ inv])+

lemma task_calls_keep:
  assumes inv: "sys_inv s" and ws: "waits_ok (env_waits env)"
  shows "res_inv (sys_task_call env r s)"
proof -
  have fs: "res_inv (Inr (q, s))" "res_inv (Inr (q, s\<lparr>fs_base := b\<rparr>))" for q b
    using inv sys_inv_cong [of "s\<lparr>fs_base := b\<rparr>" s] by (simp_all add: res_inv_Inr)
  have "res_inv (sys_mmap a b c d e s)" "res_inv (sys_munmap a b s)" "res_inv (sys_brk a s)" "res_inv (sys_uname a s)"
    "res_inv (sys_task_create cs a b s)" "res_inv (sys_task_sleep a (env_waits env) s)" for a b c d e cs
    by (rule res_invI, (erule frame_calls [THEN sys_inv_frame, OF _ inv] sys_mmap_more [THEN sys_inv_frame, OF _ inv]
          sys_brk_more [THEN sys_inv_frame, OF _ inv] sys_task_create_more [THEN sys_inv_frame, OF _ inv] sys_sleep_inv [OF _ inv ws]))+
  then show ?thesis unfolding sys_task_call_def Let_def by (simp add: fs)
qed

lemma syscall_handler_inv:
  assumes h: "syscall_handler env r s = Inr (f, s')" and inv: "sys_inv s" and ws: "waits_ok (env_waits env)"
  shows "sys_inv s'"
proof -
  have same: "res_inv (Inr (q, s))" for q using inv by (simp add: res_inv_Inr)
  have "res_inv x" if "sys_file_call env r s = Some x" for x
    using that unfolding sys_file_call_def Let_def by (auto simp: file_calls_keep [OF inv ws] same split: if_splits)
  moreover have "res_inv x" if "sys_sock_call env r s = Some x" for x
    using that unfolding sys_sock_call_def Let_def by (auto simp: sock_calls_keep [OF inv ws] same split: if_splits)
  ultimately have "res_inv (syscall_ret env r s)"
    using task_calls_keep [OF inv ws] by (simp add: syscall_ret_def split: option.split)
  with h inv show ?thesis
    by (auto simp: syscall_handler_def res_inv_def split: if_splits sum.splits
        intro: sys_inv_frame [OF task_exit_more] sys_inv_frame [OF sys_execve_more])
qed

section \<open>Runs of the system\<close>

text \<open>Calls of programs, one after the other, with timer, keyboard and mouse interrupts between them.\<close>

inductive sys_run :: "'a sys_scheme \<Rightarrow> 'a sys_scheme \<Rightarrow> bool" where
  Run_start: "sys_run s s"
| Run_call: "sys_run s t \<Longrightarrow> waits_ok (env_waits env) \<Longrightarrow> syscall_handler env r t = Inr (f, u) \<Longrightarrow> sys_run s u"
| Run_timer: "sys_run s t \<Longrightarrow> sys_run s (snd (sched_timer_c (boot_top t) rsp t))"
| Run_keyboard: "sys_run s t \<Longrightarrow> sys_run s (t\<lparr>kbd_dev := keyboard_irq io (kbd_dev t)\<rparr>)"
| Run_mouse: "sys_run s t \<Longrightarrow> sys_run s (t\<lparr>mouse_dev := mouse_irq io (mouse_dev t)\<rparr>)"

lemma sched_timer_more: "sched.more (snd (sched_timer_c bst rsp s)) = sched.more s"
  by (simp add: sched_timer_c_def wake_tasks_def do_switch_def save_current_def set_state_def put_task_def Let_def split: option.split)

lemma sys_run_inv: "sys_run s t \<Longrightarrow> sys_inv s \<Longrightarrow> sys_inv t"
proof (induction rule: sys_run.induct)
  case (Run_call s t env r f u)
  then show ?case by (blast intro: syscall_handler_inv)
next
  case (Run_timer s t rsp)
  then show ?case by (blast intro: sys_inv_frame [OF sched_timer_more])
next
  case (Run_keyboard s t io)
  then show ?case using sys_inv_frame [of "t\<lparr>kbd_dev := keyboard_irq io (kbd_dev t)\<rparr>" t] by simp
next
  case (Run_mouse s t io)
  then show ?case using sys_inv_frame [of "t\<lparr>mouse_dev := mouse_irq io (mouse_dev t)\<rparr>" t] by simp
qed simp



end
