(* ===== verification/Sh_Store.thy ===== *)
theory Sh_Store
  imports Printf
begin

text \<open>
  \<^verbatim>\<open>src/shell/sh.c\<close>, the tables of the command interpreter: variables, functions, aliases and the positional
  parameters. A table is an array of structures with fixed character arrays and a count of the entries in use. A
  \<^verbatim>\<open>const char *\<close> argument is the text before its terminator; the character arrays are lists that include it.
  Function bodies are copies in the kernel heap.
\<close>

section \<open>Character arrays\<close>

definition cstr :: "string \<Rightarrow> string" where
  "cstr a = takeWhile (\<lambda>c. c \<noteq> NUL) a"

text \<open>An array of \<open>n\<close> characters whose last one is the terminator, as the zeroed static tables have them.\<close>

definition carr :: "nat \<Rightarrow> string \<Rightarrow> bool" where
  "carr n a \<longleftrightarrow> length a = n \<and> n \<noteq> 0 \<and> a ! (n - 1) = NUL"

lemma cstr_clean: "NUL \<notin> set (cstr a)"
  by (auto simp: cstr_def dest: set_takeWhileD)

lemma cstr_cz: "NUL \<notin> set s \<Longrightarrow> cstr (cz s @ r) = s"
  by (induction s) (auto simp: cstr_def cz_def)

lemma carr_split:
  assumes "carr n a"
  obtains r where "a = cz (cstr a) @ r"
proof -
  from assms have "last a = NUL" "a \<noteq> []" by (auto simp: carr_def last_conv_nth)
  then have "dropWhile (\<lambda>c. c \<noteq> NUL) a \<noteq> []" by (metis (mono_tags, lifting) dropWhile_eq_Nil_conv last_in_set)
  moreover from this have "hd (dropWhile (\<lambda>c. c \<noteq> NUL) a) = NUL" using hd_dropWhile [of "\<lambda>c. c \<noteq> NUL" a] by simp
  ultimately have "a = cz (cstr a) @ tl (dropWhile (\<lambda>c. c \<noteq> NUL) a)"
    by (metis append.assoc append_Cons append_Nil cstr_def cz_def list.collapse takeWhile_dropWhile_id)
  with that show thesis by blast
qed

lemma carr_cstr_length:
  assumes "carr n a"
  shows "length (cstr a) < n"
proof -
  obtain r where "a = cz (cstr a) @ r" using assms by (rule carr_split)
  from arg_cong [OF this, of length] assms show ?thesis by (simp add: carr_def cz_def)
qed

lemma strcmp_ext:
  assumes "NUL \<notin> set s" and "NUL \<notin> set t"
  shows "strcmp (cz s @ r) (cz t @ q) = strcmp (cz s) (cz t)"
  using assms
proof (induction s arbitrary: t)
  case Nil
  then show ?case by (cases t) (auto simp: cz_def)
next
  case (Cons a s)
  then show ?case by (cases t) (auto simp: cz_def)
qed

lemma strcmp_carr:
  assumes "carr n a" and "NUL \<notin> set t"
  shows "\<exists>r. strcmp a (cz t) = Some r \<and> (r = 0 \<longleftrightarrow> cstr a = t)"
proof -
  obtain r where "a = cz (cstr a) @ r" using assms(1) by (rule carr_split)
  then show ?thesis
    using strcmp_ext [OF cstr_clean assms(2), of a r "[]"] strcmp_total [OF cstr_clean assms(2), of a] by simp
qed

lemma strncpy_carr:
  assumes "carr (Suc n) a" and "NUL \<notin> set s"
  shows "\<exists>a'. strncpy a (cz s) n = Some a' \<and> carr (Suc n) a' \<and> cstr a' = take n s"
proof (cases "length s < n")
  case True
  have "strncpy a (cz s) n = Some (s @ replicate (Suc n - length s) NUL)"
    using strncpy_short [OF assms(2) True, of a "[]"] assms(1) by (simp add: carr_def)
  moreover have "s @ replicate (Suc n - length s) NUL = cz s @ replicate (n - length s) NUL"
    using True by (simp add: cz_def Suc_diff_le)
  ultimately show ?thesis
    using True cstr_cz [OF assms(2), of "replicate (n - length s) NUL"] by (auto simp: carr_def nth_append cz_def)
next
  case False
  then have t: "take n (cz s) = take n s" "NUL \<notin> set (take n s)"
    using assms(2) by (auto simp: cz_def dest: in_set_takeD)
  have a: "length a = Suc n" "a ! n = NUL" using assms(1) by (auto simp: carr_def)
  then have d: "drop n a = [NUL]" by (metis Cons_nth_drop_Suc drop_all lessI order_refl)
  have "strncpy a (cz s) n = Some (take n s @ drop n a)"
    using strncpy_long [of n "cz s" a] t a False by (simp add: cz_def)
  with d have "strncpy a (cz s) n = Some (cz (take n s) @ [])" by (simp add: cz_def)
  moreover have "carr (Suc n) (cz (take n s) @ [])" using False by (simp add: carr_def cz_def nth_append)
  ultimately show ?thesis using cstr_cz [OF t(2), of "[]"] by blast
qed

section \<open>State\<close>

abbreviation (input) SH_MAX_VARS :: nat where "SH_MAX_VARS \<equiv> 128"
abbreviation (input) SH_VAR_NAMSZ :: nat where "SH_VAR_NAMSZ \<equiv> 64"
abbreviation (input) SH_VAR_VALSZ :: nat where "SH_VAR_VALSZ \<equiv> 512"
abbreviation (input) SH_MAX_ARGS :: nat where "SH_MAX_ARGS \<equiv> 64"
abbreviation (input) SH_MAX_FUNCS :: nat where "SH_MAX_FUNCS \<equiv> 32"
abbreviation (input) SH_MAX_ALIASES :: nat where "SH_MAX_ALIASES \<equiv> 32"
abbreviation (input) SH_PIPE_BUF :: nat where "SH_PIPE_BUF \<equiv> 4096"
abbreviation (input) SH_LINE_MAX :: nat where "SH_LINE_MAX \<equiv> 1024"
abbreviation (input) SH_EXPAND_MAX :: nat where "SH_EXPAND_MAX \<equiv> 2048"
abbreviation (input) SH_ARITH_MAX :: nat where "SH_ARITH_MAX \<equiv> 64"

record ShVar =
  v_name :: string
  v_val :: string
  v_exported :: bool

record ShFunc =
  fn_name :: string
  fn_body :: u64

record ShAlias =
  a_name :: string
  a_val :: string

text \<open>The signals of \<open>sh_flow\<close>.\<close>

datatype flow = SH_FLOW_NONE | SH_FLOW_BREAK | SH_FLOW_CONTINUE | SH_FLOW_RETURN

text \<open>
  The static buffers that capture output: those of the two command substitutions, of a redirection and of a
  pipeline. \<open>kout_dst\<close> says which of them \<^verbatim>\<open>kout_buf\<close> points to; while it does, its contents are those of
  \<open>kout_buf\<close>. The other static arrays of the interpreter are the stages of a pipeline and the names of its
  redirections. \<open>key_irqs\<close> is the sequence of keyboard interrupts still to come.
\<close>

datatype obuf = SubstBuf | TickBuf | RedirBuf | PipeBuf

text \<open>A pointer in \<open>sh_argv\<close> is the text it points to, \<open>None\<close> the null pointer.\<close>

record sh = kio +
  sh_last_status :: int
  sh_vars :: "ShVar list"
  sh_nvar :: nat
  sh_funcs :: "ShFunc list"
  sh_nfunc :: nat
  sh_aliases :: "ShAlias list"
  sh_nalias :: nat
  sh_argv :: "string option list"
  sh_argc :: int
  sh_script_name :: string
  sh_flow :: flow
  sh_return_val :: int
  st_subst :: string
  st_tick :: string
  st_redir :: string
  st_pipe :: string
  st_stages :: "string list"
  st_out :: string
  st_app :: string
  st_in :: string
  kout_dst :: "obuf option"
  key_irqs :: "(u8 \<times> u8) list list"

section \<open>Operations\<close>

text \<open>The loop all lookups share: the first entry whose name compares equal.\<close>

fun scan_names :: "string list \<Rightarrow> string \<Rightarrow> nat \<Rightarrow> nat option res" where
  "scan_names [] name i = Inr None"
| "scan_names (a # as) name i =
     (case strcmp a (cz name) of
        None \<Rightarrow> Inl OutOfBounds
      | Some r \<Rightarrow> if r = 0 then Inr (Some i) else scan_names as name (Suc i))"

definition var_find :: "string \<Rightarrow> 'a sh_scheme \<Rightarrow> nat option res" where
  "var_find name s = scan_names (map v_name (take (sh_nvar s) (sh_vars s))) name 0"

definition put_var :: "nat \<Rightarrow> ShVar \<Rightarrow> 'a sh_scheme \<Rightarrow> 'a sh_scheme" where
  "put_var i v s = s\<lparr>sh_vars := (sh_vars s)[i := v]\<rparr>"

text \<open>The last two statements of \<open>var_set\<close>.\<close>

definition var_store :: "nat \<Rightarrow> ShVar \<Rightarrow> string option \<Rightarrow> bool \<Rightarrow> 'a sh_scheme \<Rightarrow> 'a sh_scheme res" where
  "var_store i v val exported s =
     (case strncpy (v_val v) (cz (case val of None \<Rightarrow> [] | Some t \<Rightarrow> t)) (SH_VAR_VALSZ - 1) of
        None \<Rightarrow> Inl OutOfBounds
      | Some a \<Rightarrow> Inr (put_var i (v\<lparr>v_val := a, v_exported := v_exported v \<or> exported\<rparr>) s))"

definition var_set :: "string \<Rightarrow> string option \<Rightarrow> bool \<Rightarrow> 'a sh_scheme \<Rightarrow> 'a sh_scheme res" where
  "var_set name val exported s =
     (case var_find name s of
        Inl e \<Rightarrow> Inl e
      | Inr (Some i) \<Rightarrow> var_store i (sh_vars s ! i) val exported s
      | Inr None \<Rightarrow>
          if sh_nvar s \<ge> SH_MAX_VARS then Inr s
          else let i = sh_nvar s; v = sh_vars s ! i
               in case strncpy (v_name v) (cz name) (SH_VAR_NAMSZ - 1) of
                    None \<Rightarrow> Inl OutOfBounds
                  | Some a \<Rightarrow>
                      var_store i (v\<lparr>v_name := a, v_exported := exported\<rparr>) val exported (s\<lparr>sh_nvar := Suc i\<rparr>))"

definition var_get :: "string \<Rightarrow> 'a sh_scheme \<Rightarrow> string option res" where
  "var_get name s =
     (case var_find name s of
        Inl e \<Rightarrow> Inl e
      | Inr None \<Rightarrow> Inr None
      | Inr (Some i) \<Rightarrow> Inr (Some (cstr (v_val (sh_vars s ! i)))))"

definition var_unset :: "string \<Rightarrow> 'a sh_scheme \<Rightarrow> 'a sh_scheme res" where
  "var_unset name s =
     (case var_find name s of
        Inl e \<Rightarrow> Inl e
      | Inr None \<Rightarrow> Inr s
      | Inr (Some i) \<Rightarrow>
          let n = sh_nvar s - 1 in Inr (put_var i (sh_vars s ! n) (s\<lparr>sh_nvar := n\<rparr>)))"

definition sh_getvar :: "string \<Rightarrow> 'a sh_scheme \<Rightarrow> string option res" where
  "sh_getvar name s = var_get name s"

definition strdup :: "string \<Rightarrow> 'a heap_scheme \<Rightarrow> (u64 \<times> 'a heap_scheme) res" where
  "strdup t s =
     (case kmalloc (of_nat (length t + 1)) s of
        Inl e \<Rightarrow> Inl e
      | Inr (p, s1) \<Rightarrow>
          Inr (p, if p \<noteq> 0 then s1\<lparr>hmem := store_bytes (hmem s1) (unat p) (map (\<lambda>c. of_nat (of_char c)) (cz t))\<rparr>
                  else s1))"

definition func_find :: "string \<Rightarrow> 'a sh_scheme \<Rightarrow> nat option res" where
  "func_find name s = scan_names (map fn_name (take (sh_nfunc s) (sh_funcs s))) name 0"

definition func_store :: "nat \<Rightarrow> ShFunc \<Rightarrow> string \<Rightarrow> 'a sh_scheme \<Rightarrow> 'a sh_scheme res" where
  "func_store i f body s =
     (case kfree (fn_body f) s of
        Inl e \<Rightarrow> Inl e
      | Inr s1 \<Rightarrow>
          (case strdup body s1 of
             Inl e \<Rightarrow> Inl e
           | Inr (p, s2) \<Rightarrow> Inr (s2\<lparr>sh_funcs := (sh_funcs s2)[i := f\<lparr>fn_body := p\<rparr>]\<rparr>)))"

definition func_set :: "string \<Rightarrow> string \<Rightarrow> 'a sh_scheme \<Rightarrow> 'a sh_scheme res" where
  "func_set name body s =
     (case func_find name s of
        Inl e \<Rightarrow> Inl e
      | Inr (Some i) \<Rightarrow> func_store i (sh_funcs s ! i) body s
      | Inr None \<Rightarrow>
          if sh_nfunc s \<ge> SH_MAX_FUNCS then Inr s
          else let i = sh_nfunc s; f = sh_funcs s ! i
               in case strncpy (fn_name f) (cz name) (SH_VAR_NAMSZ - 1) of
                    None \<Rightarrow> Inl OutOfBounds
                  | Some a \<Rightarrow> func_store i (f\<lparr>fn_name := a, fn_body := 0\<rparr>) body (s\<lparr>sh_nfunc := Suc i\<rparr>))"

definition alias_find :: "string \<Rightarrow> 'a sh_scheme \<Rightarrow> nat option res" where
  "alias_find name s = scan_names (map a_name (take (sh_nalias s) (sh_aliases s))) name 0"

definition alias_get :: "string \<Rightarrow> 'a sh_scheme \<Rightarrow> string option res" where
  "alias_get name s =
     (case alias_find name s of
        Inl e \<Rightarrow> Inl e
      | Inr None \<Rightarrow> Inr None
      | Inr (Some i) \<Rightarrow> Inr (Some (cstr (a_val (sh_aliases s ! i)))))"

definition alias_set :: "string \<Rightarrow> string \<Rightarrow> 'a sh_scheme \<Rightarrow> 'a sh_scheme res" where
  "alias_set name val s =
     (case alias_find name s of
        Inl e \<Rightarrow> Inl e
      | Inr (Some i) \<Rightarrow>
          (case strncpy (a_val (sh_aliases s ! i)) (cz val) (SH_VAR_VALSZ - 1) of
             None \<Rightarrow> Inl OutOfBounds
           | Some a \<Rightarrow> Inr (s\<lparr>sh_aliases := (sh_aliases s)[i := (sh_aliases s ! i)\<lparr>a_val := a\<rparr>]\<rparr>))
      | Inr None \<Rightarrow>
          if sh_nalias s \<ge> SH_MAX_ALIASES then Inr s
          else let i = sh_nalias s; x = sh_aliases s ! i
               in case (strncpy (a_name x) (cz name) (SH_VAR_NAMSZ - 1), strncpy (a_val x) (cz val) (SH_VAR_VALSZ - 1)) of
                    (Some a, Some b) \<Rightarrow>
                      Inr (s\<lparr>sh_aliases := (sh_aliases s)[i := x\<lparr>a_name := a, a_val := b\<rparr>], sh_nalias := Suc i\<rparr>)
                  | _ \<Rightarrow> Inl OutOfBounds)"

section \<open>Tables as partial functions\<close>

lemma scan_names_eq:
  assumes "\<forall>a \<in> set as. carr n a" and "NUL \<notin> set name"
  shows "scan_names as name i = Inr (map_option ((+) i) (find_idx (\<lambda>a. cstr a = name) as))"
  using assms(1)
proof (induction as arbitrary: i)
  case (Cons a as)
  obtain r where r: "strcmp a (cz name) = Some r" "r = 0 \<longleftrightarrow> cstr a = name"
    using strcmp_carr [of n a name] Cons.prems assms(2) by auto
  with Cons show ?case by (cases "find_idx (\<lambda>a. cstr a = name) as") auto
qed simp

lemma scan_names_eq_0:
  assumes "\<forall>a \<in> set as. carr n a" and "NUL \<notin> set name"
  shows "scan_names as name 0 = Inr (find_idx (\<lambda>a. cstr a = name) as)"
  using scan_names_eq [OF assms, of 0] by (cases "find_idx (\<lambda>a. cstr a = name) as") auto

lemma find_idx_map: "find_idx P (map f xs) = find_idx (\<lambda>x. P (f x)) xs"
  by (induction xs) auto

lemma map_of_find_idx:
  "map_of (map (\<lambda>x. (k x, f x)) xs) key = map_option (\<lambda>i. f (xs ! i)) (find_idx (\<lambda>x. k x = key) xs)"
  by (induction xs) (auto simp: option.map_comp o_def)

lemma map_of_table_update:
  assumes "distinct (map k xs)" and "i < length xs" and "k x = k (xs ! i)"
  shows "map_of (map (\<lambda>x. (k x, f x)) (xs[i := x])) = (map_of (map (\<lambda>x. (k x, f x)) xs))(k x \<mapsto> f x)"
proof
  fix j
  show "map_of (map (\<lambda>x. (k x, f x)) (xs[i := x])) j = ((map_of (map (\<lambda>x. (k x, f x)) xs))(k x \<mapsto> f x)) j"
    using assms
  proof (induction xs arbitrary: i)
    case (Cons a xs)
    show ?case
    proof (cases i)
      case (Suc m)
      with Cons.prems have "k (xs ! m) \<in> k ` set xs" "k a \<notin> k ` set xs" by auto
      then have "k a \<noteq> k (xs ! m)" by metis
      with Suc Cons show ?thesis by auto
    qed (use Cons in auto)
  qed simp
qed

lemma map_of_table_append:
  assumes "k x \<notin> k ` set xs"
  shows "map_of (map (\<lambda>x. (k x, f x)) (xs @ [x])) = (map_of (map (\<lambda>x. (k x, f x)) xs))(k x \<mapsto> f x)"
  using assms by (induction xs) (auto simp: fun_upd_twist)

text \<open>Removing an entry by moving the last one into its place.\<close>

lemma map_of_table_remove:
  assumes d: "distinct (map k (xs @ [y]))" and i: "i \<le> length xs" and e: "e = (xs @ [y]) ! i"
  shows "map_of (map (\<lambda>x. (k x, f x)) (take (length xs) ((xs @ [y])[i := y]))) =
           (map_of (map (\<lambda>x. (k x, f x)) (xs @ [y])))(k e := None)"
    and "distinct (map k (take (length xs) ((xs @ [y])[i := y])))"
proof -
  let ?ys = "take (length xs) ((xs @ [y])[i := y])"
  have ys: "?ys = (if i < length xs then xs[i := y] else xs)" using i by (simp add: list_update_append)
  have inj: "inj_on k (set (xs @ [y]))" "distinct (xs @ [y])" using d by (auto simp: distinct_map)
  have s: "set ?ys = set (xs @ [y]) - {e}"
    using i e inj(2) by (auto simp: ys nth_append set_update_distinct)
  have "distinct ?ys" using inj(2) i by (auto simp: ys distinct_list_update)
  moreover have "inj_on k (set ?ys)" unfolding s using inj(1) by (rule inj_on_subset) auto
  ultimately show dy: "distinct (map k ?ys)" by (simp add: distinct_map)
  have e': "e \<in> set (xs @ [y])" using i e by (auto simp: nth_append)
  have filt: "((map_of (map (\<lambda>x. (k x, f x)) zs))(key := None)) j =
      map_of (map (\<lambda>x. (k x, f x)) (filter (\<lambda>x. k x \<noteq> key) zs)) j" for zs key j
    by (induction zs) auto
  have "set (filter (\<lambda>x. k x \<noteq> k e) (xs @ [y])) = set ?ys" using inj(1) e' by (auto simp: s inj_on_def)
  moreover have "distinct (map k (filter (\<lambda>x. k x \<noteq> k e) (xs @ [y])))" using d by (rule distinct_map_filter)
  ultimately have "map_of (map (\<lambda>x. (k x, f x)) (filter (\<lambda>x. k x \<noteq> k e) (xs @ [y]))) = map_of (map (\<lambda>x. (k x, f x)) ?ys)"
    using dy by (intro map_of_inject_set [THEN iffD2]) (auto simp: o_def)
  then show "map_of (map (\<lambda>x. (k x, f x)) ?ys) = (map_of (map (\<lambda>x. (k x, f x)) (xs @ [y])))(k e := None)"
    by (intro ext) (simp only: filt)
qed

section \<open>Variables\<close>

definition vars_wf :: "'a sh_scheme \<Rightarrow> bool" where
  "vars_wf s \<longleftrightarrow> length (sh_vars s) = SH_MAX_VARS \<and> sh_nvar s \<le> SH_MAX_VARS \<and>
     (\<forall>v \<in> set (sh_vars s). carr SH_VAR_NAMSZ (v_name v) \<and> carr SH_VAR_VALSZ (v_val v))"

definition live_vars :: "'a sh_scheme \<Rightarrow> ShVar list" where
  "live_vars s = take (sh_nvar s) (sh_vars s)"

definition var_key :: "ShVar \<Rightarrow> string" where
  "var_key v = cstr (v_name v)"

definition vars_distinct :: "'a sh_scheme \<Rightarrow> bool" where
  "vars_distinct s \<longleftrightarrow> distinct (map var_key (live_vars s))"

definition var_map :: "'a sh_scheme \<Rightarrow> string \<rightharpoonup> string" where
  "var_map s = map_of (map (\<lambda>v. (var_key v, cstr (v_val v))) (live_vars s))"

lemma var_find_eq:
  assumes "vars_wf s" and "NUL \<notin> set name"
  shows "var_find name s = Inr (find_idx (\<lambda>v. var_key v = name) (live_vars s))"
proof -
  have "\<forall>a \<in> set (map v_name (live_vars s)). carr SH_VAR_NAMSZ a"
    using assms(1) by (auto simp: vars_wf_def live_vars_def dest: in_set_takeD)
  from scan_names_eq_0 [OF this assms(2)] show ?thesis
    unfolding var_find_def live_vars_def [symmetric] by (simp add: find_idx_map var_key_def)
qed

lemma var_get_map:
  assumes "vars_wf s" and "NUL \<notin> set name"
  shows "var_get name s = Inr (var_map s name)"
proof (cases "find_idx (\<lambda>v. var_key v = name) (live_vars s)")
  case None
  then show ?thesis using var_find_eq [OF assms] by (simp add: var_get_def var_map_def map_of_find_idx)
next
  case (Some i)
  then have "i < length (live_vars s)" using find_idx_SomeD by fastforce
  then have "live_vars s ! i = sh_vars s ! i" by (simp add: live_vars_def)
  with Some show ?thesis using var_find_eq [OF assms] by (simp add: var_get_def var_map_def map_of_find_idx)
qed

lemma live_vars_put:
  assumes "vars_wf s" and "i < length (live_vars s)"
  shows "live_vars (put_var i v s) = (live_vars s)[i := v]" and "live_vars s ! i = sh_vars s ! i"
  using assms by (simp_all add: live_vars_def put_var_def take_update_swap)

lemma live_vars_new:
  assumes "vars_wf s" and "sh_nvar s < SH_MAX_VARS"
  shows "live_vars (put_var (sh_nvar s) v (s\<lparr>sh_nvar := Suc (sh_nvar s)\<rparr>)) = live_vars s @ [v]"
  using assms by (simp add: live_vars_def put_var_def vars_wf_def take_Suc_conv_app_nth)

lemma vars_wf_put:
  assumes "vars_wf s" and "n \<le> SH_MAX_VARS" and "carr SH_VAR_NAMSZ (v_name v)" and "carr SH_VAR_VALSZ (v_val v)"
  shows "vars_wf (put_var i v (s\<lparr>sh_nvar := n\<rparr>))"
  using assms by (auto simp: vars_wf_def put_var_def dest!: set_update_subset_insert [THEN subsetD])

text \<open>What an assignment of \<open>v\<close> to \<open>name\<close> does to an abstract table with a limit, for names that fit.\<close>

definition assign :: "nat \<Rightarrow> string \<Rightarrow> string \<Rightarrow> (string \<rightharpoonup> string) \<Rightarrow> (string \<rightharpoonup> string)" where
  "assign limit name v m = (if name \<notin> dom m \<and> limit \<le> card (dom m) then m else m(name \<mapsto> take (SH_VAR_VALSZ - 1) v))"

lemma var_map_dom: "dom (var_map s) = var_key ` set (live_vars s)"
  by (auto simp: var_map_def dom_map_of_conv_image_fst image_image)

lemma var_map_card: "vars_wf s \<Longrightarrow> vars_distinct s \<Longrightarrow> card (dom (var_map s)) = sh_nvar s"
  using distinct_card [of "map var_key (live_vars s)"]
  by (simp add: var_map_dom vars_distinct_def) (simp add: live_vars_def vars_wf_def)

lemma var_store_eq:
  assumes "carr SH_VAR_VALSZ (v_val v)" and "NUL \<notin> set val"
  shows "\<exists>a. var_store i v (Some val) ex s = Inr (put_var i (v\<lparr>v_val := a, v_exported := v_exported v \<or> ex\<rparr>) s) \<and>
           carr SH_VAR_VALSZ a \<and> cstr a = take (SH_VAR_VALSZ - 1) val"
  using strncpy_carr [of 511 "v_val v" val] assms by (auto simp: var_store_def)

lemma var_set_new:
  assumes wf: "vars_wf s" and nm: "NUL \<notin> set name" and vl: "NUL \<notin> set val"
    and new: "name \<notin> var_key ` set (live_vars s)" and room: "sh_nvar s < SH_MAX_VARS"
  shows "\<exists>w. let s' = put_var (sh_nvar s) w (s\<lparr>sh_nvar := Suc (sh_nvar s)\<rparr>)
           in var_set name (Some val) ex s = Inr s' \<and> vars_wf s' \<and> live_vars s' = live_vars s @ [w] \<and>
              var_key w = take (SH_VAR_NAMSZ - 1) name \<and> cstr (v_val w) = take (SH_VAR_VALSZ - 1) val"
proof -
  let ?i = "sh_nvar s" let ?v = "sh_vars s ! ?i" let ?s = "s\<lparr>sh_nvar := Suc ?i\<rparr>"
  have "find_idx (\<lambda>v. var_key v = name) (live_vars s) = None" using new by (auto simp: find_idx_None_iff)
  then have find: "var_find name s = Inr None" using var_find_eq [OF wf nm] by simp
  have "?v \<in> set (sh_vars s)" using room wf by (simp add: vars_wf_def)
  with wf have c: "carr SH_VAR_NAMSZ (v_name ?v)" "carr SH_VAR_VALSZ (v_val ?v)" by (auto simp: vars_wf_def)
  obtain b where b: "strncpy (v_name ?v) (cz name) 63 = Some b" "carr SH_VAR_NAMSZ b" "cstr b = take 63 name"
    using strncpy_carr [of 63 "v_name ?v" name] c(1) nm by auto
  let ?u = "?v\<lparr>v_name := b, v_exported := ex\<rparr>"
  obtain a where a: "var_store ?i ?u (Some val) ex ?s = Inr (put_var ?i (?v\<lparr>v_name := b, v_val := a, v_exported := ex\<rparr>) ?s)"
      "carr SH_VAR_VALSZ a" "cstr a = take (SH_VAR_VALSZ - 1) val"
    using var_store_eq [of ?u val ?i ex ?s] c(2) vl by auto
  let ?w = "?v\<lparr>v_name := b, v_val := a, v_exported := ex\<rparr>"
  have "var_set name (Some val) ex s = Inr (put_var ?i ?w ?s)"
    using find room b(1) a(1) by (simp add: var_set_def Let_def)
  moreover have "live_vars (put_var ?i ?w ?s) = live_vars s @ [?w]" using live_vars_new [OF wf room, of ?w] .
  moreover have "vars_wf (put_var ?i ?w ?s)" using vars_wf_put [OF wf, of "Suc ?i" ?w ?i] room b(2) a(2) by simp
  ultimately show ?thesis using a(3) b(3) by (intro exI [of _ ?w]) (simp add: Let_def var_key_def)
qed

lemma var_set_spec:
  assumes wf: "vars_wf s" and nm: "NUL \<notin> set name" and vl: "NUL \<notin> set val"
  shows "\<exists>s'. var_set name (Some val) ex s = Inr s' \<and> vars_wf s' \<and> s' = s\<lparr>sh_vars := sh_vars s', sh_nvar := sh_nvar s'\<rparr> \<and>
           (vars_distinct s \<and> length name < SH_VAR_NAMSZ \<longrightarrow>
              vars_distinct s' \<and> var_map s' = assign SH_MAX_VARS name val (var_map s))"
proof (cases "find_idx (\<lambda>v. var_key v = name) (live_vars s)")
  case (Some i)
  let ?v = "sh_vars s ! i"
  have i: "i < length (live_vars s)" and key: "var_key (live_vars s ! i) = name" using find_idx_SomeD [OF Some] by auto
  have "?v \<in> set (sh_vars s)" using i by (simp add: live_vars_def)
  with wf have c: "carr SH_VAR_NAMSZ (v_name ?v)" "carr SH_VAR_VALSZ (v_val ?v)" by (auto simp: vars_wf_def)
  obtain a where a: "var_store i ?v (Some val) ex s = Inr (put_var i (?v\<lparr>v_val := a, v_exported := v_exported ?v \<or> ex\<rparr>) s)"
      "carr SH_VAR_VALSZ a" "cstr a = take (SH_VAR_VALSZ - 1) val"
    using var_store_eq [OF c(2) vl, of i ex s] by blast
  let ?w = "?v\<lparr>v_val := a, v_exported := v_exported ?v \<or> ex\<rparr>"
  have set: "var_set name (Some val) ex s = Inr (put_var i ?w s)"
    using var_find_eq [OF wf nm] Some a(1) by (simp add: var_set_def)
  have lv: "live_vars (put_var i ?w s) = (live_vars s)[i := ?w]" "live_vars s ! i = ?v" by (rule live_vars_put [OF wf i])+
  then have k: "var_key ?w = var_key (live_vars s ! i)" by (simp add: var_key_def)
  have dist: "vars_distinct (put_var i ?w s)" if "vars_distinct s"
    using that i k by (simp add: vars_distinct_def lv(1) map_update list_update_id del: lv(2))
      (metis i length_map list_update_id map_update nth_map)
  have "name \<in> dom (var_map s)" using i key by (auto simp: var_map_dom)
  then have "var_map (put_var i ?w s) = assign SH_MAX_VARS name val (var_map s)" if "vars_distinct s"
    using map_of_table_update [OF _ i k, of "\<lambda>v. cstr (v_val v)"] that key k a(3)
    by (simp add: var_map_def lv(1) vars_distinct_def assign_def)
  moreover have "vars_wf (put_var i ?w s)"
    using vars_wf_put [OF wf, of "sh_nvar s" ?w i] wf c a(2) by (simp add: vars_wf_def)
  ultimately show ?thesis using set dist by (auto simp: put_var_def)
next
  case None
  have find: "var_find name s = Inr None" using var_find_eq [OF wf nm] None by simp
  have new: "name \<notin> var_key ` set (live_vars s)" using None by (auto simp: find_idx_None_iff)
  show ?thesis
  proof (cases "sh_nvar s \<ge> SH_MAX_VARS")
    case True
    then have "var_map s = assign SH_MAX_VARS name val (var_map s)" if "vars_distinct s"
      using new var_map_card [OF wf that] by (simp add: assign_def var_map_dom)
    with find True wf show ?thesis by (simp add: var_set_def)
  next
    case False
    let ?i = "sh_nvar s" let ?s = "s\<lparr>sh_nvar := Suc ?i\<rparr>"
    obtain w where w: "var_set name (Some val) ex s = Inr (put_var ?i w ?s)" "vars_wf (put_var ?i w ?s)"
        "live_vars (put_var ?i w ?s) = live_vars s @ [w]" "var_key w = take 63 name" "cstr (v_val w) = take 511 val"
      using var_set_new [OF wf nm vl new, of ex] False by (auto simp: Let_def)
    have "vars_distinct (put_var ?i w ?s) \<and> var_map (put_var ?i w ?s) = assign SH_MAX_VARS name val (var_map s)"
      if "vars_distinct s" "length name < SH_VAR_NAMSZ"
      using that new map_of_table_append [of var_key w "live_vars s" "\<lambda>v. cstr (v_val v)"] w(4,5) False
        var_map_card [OF wf that(1)]
      by (simp add: vars_distinct_def var_map_def w(3) assign_def)
    with w(1,2) show ?thesis by (auto simp: put_var_def)
  qed
qed

lemma var_unset_spec:
  assumes wf: "vars_wf s" and nm: "NUL \<notin> set name"
  shows "\<exists>s'. var_unset name s = Inr s' \<and> vars_wf s' \<and> s' = s\<lparr>sh_vars := sh_vars s', sh_nvar := sh_nvar s'\<rparr> \<and>
           (vars_distinct s \<longrightarrow> vars_distinct s' \<and> var_map s' = (var_map s)(name := None))"
proof (cases "find_idx (\<lambda>v. var_key v = name) (live_vars s)")
  case None
  then have "var_map s name = None" by (simp add: var_map_def map_of_find_idx)
  then show ?thesis using var_find_eq [OF wf nm] None wf by (simp add: var_unset_def fun_upd_idem)
next
  case (Some i)
  have i: "i < length (live_vars s)" and key: "var_key (live_vars s ! i) = name" using find_idx_SomeD [OF Some] by auto
  let ?n = "sh_nvar s - 1" let ?s = "put_var i (sh_vars s ! ?n) (s\<lparr>sh_nvar := ?n\<rparr>)"
  have n: "Suc ?n = sh_nvar s" "?n < length (sh_vars s)" "i \<le> ?n" using i wf by (auto simp: live_vars_def vars_wf_def)
  have unset: "var_unset name s = Inr ?s" using var_find_eq [OF wf nm] Some by (simp add: var_unset_def Let_def)
  let ?xs = "take ?n (sh_vars s)" let ?y = "sh_vars s ! ?n"
  have xs: "live_vars s = ?xs @ [?y]" "length ?xs = ?n"
    using n by (simp_all add: live_vars_def flip: take_Suc_conv_app_nth)
  have new: "live_vars ?s = take (length ?xs) ((?xs @ [?y])[i := ?y])"
    using n by (simp add: live_vars_def put_var_def take_update_swap)
  have "?y \<in> set (sh_vars s)" using n(2) by simp
  with wf have "vars_wf ?s" using vars_wf_put [OF wf, of ?n ?y i] n by (simp add: vars_wf_def)
  moreover have "vars_distinct ?s \<and> var_map ?s = (var_map s)(name := None)" if "vars_distinct s"
  proof -
    have d: "distinct (map var_key (?xs @ [?y]))" using that by (simp add: vars_distinct_def xs(1) del: distinct_append map_append)
    have e: "live_vars s ! i = (?xs @ [?y]) ! i" by (simp only: xs(1))
    have il: "i \<le> length ?xs" using n xs(2) by simp
    show ?thesis
      using map_of_table_remove(1) [OF d il e, of "\<lambda>v. cstr (v_val v)"] map_of_table_remove(2) [OF d il e] key
      unfolding vars_distinct_def var_map_def new xs(1) [symmetric] by simp
  qed
  ultimately show ?thesis using unset by (auto simp: put_var_def)
qed

section \<open>Aliases\<close>

definition aliases_wf :: "'a sh_scheme \<Rightarrow> bool" where
  "aliases_wf s \<longleftrightarrow> length (sh_aliases s) = SH_MAX_ALIASES \<and> sh_nalias s \<le> SH_MAX_ALIASES \<and>
     (\<forall>x \<in> set (sh_aliases s). carr SH_VAR_NAMSZ (a_name x) \<and> carr SH_VAR_VALSZ (a_val x))"

definition live_aliases :: "'a sh_scheme \<Rightarrow> ShAlias list" where
  "live_aliases s = take (sh_nalias s) (sh_aliases s)"

definition alias_key :: "ShAlias \<Rightarrow> string" where
  "alias_key x = cstr (a_name x)"

definition aliases_distinct :: "'a sh_scheme \<Rightarrow> bool" where
  "aliases_distinct s \<longleftrightarrow> distinct (map alias_key (live_aliases s))"

definition alias_map :: "'a sh_scheme \<Rightarrow> string \<rightharpoonup> string" where
  "alias_map s = map_of (map (\<lambda>x. (alias_key x, cstr (a_val x))) (live_aliases s))"

lemma alias_find_eq:
  assumes "aliases_wf s" and "NUL \<notin> set name"
  shows "alias_find name s = Inr (find_idx (\<lambda>x. alias_key x = name) (live_aliases s))"
proof -
  have "\<forall>a \<in> set (map a_name (live_aliases s)). carr SH_VAR_NAMSZ a"
    using assms(1) by (auto simp: aliases_wf_def live_aliases_def dest: in_set_takeD)
  from scan_names_eq_0 [OF this assms(2)] show ?thesis
    unfolding alias_find_def live_aliases_def [symmetric] by (simp add: find_idx_map alias_key_def)
qed

lemma alias_get_map:
  assumes "aliases_wf s" and "NUL \<notin> set name"
  shows "alias_get name s = Inr (alias_map s name)"
proof (cases "find_idx (\<lambda>x. alias_key x = name) (live_aliases s)")
  case None
  then show ?thesis using alias_find_eq [OF assms] by (simp add: alias_get_def alias_map_def map_of_find_idx)
next
  case (Some i)
  then have "i < length (live_aliases s)" using find_idx_SomeD by fastforce
  then have "live_aliases s ! i = sh_aliases s ! i" by (simp add: live_aliases_def)
  with Some show ?thesis using alias_find_eq [OF assms] by (simp add: alias_get_def alias_map_def map_of_find_idx)
qed

lemma alias_map_dom: "dom (alias_map s) = alias_key ` set (live_aliases s)"
  by (auto simp: alias_map_def dom_map_of_conv_image_fst image_image)

lemma alias_map_card: "aliases_wf s \<Longrightarrow> aliases_distinct s \<Longrightarrow> card (dom (alias_map s)) = sh_nalias s"
  using distinct_card [of "map alias_key (live_aliases s)"]
  by (simp add: alias_map_dom aliases_distinct_def) (simp add: live_aliases_def aliases_wf_def)

lemma aliases_wf_put:
  assumes "aliases_wf s" and "n \<le> SH_MAX_ALIASES" and "carr SH_VAR_NAMSZ (a_name x)" and "carr SH_VAR_VALSZ (a_val x)"
  shows "aliases_wf (s\<lparr>sh_aliases := (sh_aliases s)[i := x], sh_nalias := n\<rparr>)"
  using assms by (auto simp: aliases_wf_def dest!: set_update_subset_insert [THEN subsetD])

lemma alias_set_spec:
  assumes wf: "aliases_wf s" and nm: "NUL \<notin> set name" and vl: "NUL \<notin> set val"
  shows "\<exists>s'. alias_set name val s = Inr s' \<and> aliases_wf s' \<and> s' = s\<lparr>sh_aliases := sh_aliases s', sh_nalias := sh_nalias s'\<rparr> \<and>
           (aliases_distinct s \<and> length name < SH_VAR_NAMSZ \<longrightarrow>
              aliases_distinct s' \<and> alias_map s' = assign SH_MAX_ALIASES name val (alias_map s))"
proof (cases "find_idx (\<lambda>x. alias_key x = name) (live_aliases s)")
  case (Some i)
  let ?x = "sh_aliases s ! i"
  have i: "i < length (live_aliases s)" and key: "alias_key (live_aliases s ! i) = name" using find_idx_SomeD [OF Some] by auto
  have "?x \<in> set (sh_aliases s)" using i by (simp add: live_aliases_def)
  with wf have c: "carr SH_VAR_NAMSZ (a_name ?x)" "carr SH_VAR_VALSZ (a_val ?x)" by (auto simp: aliases_wf_def)
  obtain a where a: "strncpy (a_val ?x) (cz val) 511 = Some a" "carr SH_VAR_VALSZ a" "cstr a = take 511 val"
    using strncpy_carr [of 511 "a_val ?x" val] c(2) vl by auto
  let ?w = "?x\<lparr>a_val := a\<rparr>" let ?s = "s\<lparr>sh_aliases := (sh_aliases s)[i := ?w]\<rparr>"
  have set: "alias_set name val s = Inr ?s" using alias_find_eq [OF wf nm] Some a(1) by (simp add: alias_set_def)
  have lv: "live_aliases ?s = (live_aliases s)[i := ?w]" "live_aliases s ! i = ?x"
    using i by (simp_all add: live_aliases_def take_update_swap)
  then have k: "alias_key ?w = alias_key (live_aliases s ! i)" by (simp add: alias_key_def)
  have dist: "aliases_distinct ?s" if "aliases_distinct s"
    using that i k unfolding aliases_distinct_def lv(1) map_update by (metis length_map list_update_id nth_map)
  have "name \<in> dom (alias_map s)" using i key by (auto simp: alias_map_dom)
  then have "alias_map ?s = assign SH_MAX_ALIASES name val (alias_map s)" if "aliases_distinct s"
    using map_of_table_update [OF _ i k, of "\<lambda>v. cstr (a_val v)"] that key k a(3)
    by (simp add: alias_map_def lv(1) aliases_distinct_def assign_def)
  moreover have "aliases_wf ?s"
    using aliases_wf_put [OF wf, of "sh_nalias s" ?w i] wf c a(2) by (simp add: aliases_wf_def)
  ultimately show ?thesis using set dist by auto
next
  case None
  have find: "alias_find name s = Inr None" using alias_find_eq [OF wf nm] None by simp
  have new: "name \<notin> alias_key ` set (live_aliases s)" using None by (auto simp: find_idx_None_iff)
  show ?thesis
  proof (cases "sh_nalias s \<ge> SH_MAX_ALIASES")
    case True
    then have "alias_map s = assign SH_MAX_ALIASES name val (alias_map s)" if "aliases_distinct s"
      using new alias_map_card [OF wf that] by (simp add: assign_def alias_map_dom)
    with find True wf show ?thesis by (simp add: alias_set_def)
  next
    case False
    let ?i = "sh_nalias s" let ?x = "sh_aliases s ! ?i"
    have "?x \<in> set (sh_aliases s)" using False wf by (simp add: aliases_wf_def)
    with wf have c: "carr SH_VAR_NAMSZ (a_name ?x)" "carr SH_VAR_VALSZ (a_val ?x)" by (auto simp: aliases_wf_def)
    obtain b where b: "strncpy (a_name ?x) (cz name) 63 = Some b" "carr SH_VAR_NAMSZ b" "cstr b = take 63 name"
      using strncpy_carr [of 63 "a_name ?x" name] c(1) nm by auto
    obtain a where a: "strncpy (a_val ?x) (cz val) 511 = Some a" "carr SH_VAR_VALSZ a" "cstr a = take 511 val"
      using strncpy_carr [of 511 "a_val ?x" val] c(2) vl by auto
    let ?w = "?x\<lparr>a_name := b, a_val := a\<rparr>"
    let ?s = "s\<lparr>sh_aliases := (sh_aliases s)[?i := ?w], sh_nalias := Suc ?i\<rparr>"
    have set: "alias_set name val s = Inr ?s" using find False b(1) a(1) by (simp add: alias_set_def Let_def)
    have lv: "live_aliases ?s = live_aliases s @ [?w]"
      using False wf by (simp add: live_aliases_def aliases_wf_def take_Suc_conv_app_nth)
    have k: "alias_key ?w = name" if "length name < SH_VAR_NAMSZ" using that b(3) by (simp add: alias_key_def)
    have wf': "aliases_wf ?s" using aliases_wf_put [OF wf, of "Suc ?i" ?w ?i] False b(2) a(2) by simp
    have "aliases_distinct ?s \<and> alias_map ?s = assign SH_MAX_ALIASES name val (alias_map s)"
      if "aliases_distinct s" "length name < SH_VAR_NAMSZ"
      using that(1) k [OF that(2)] new map_of_table_append [of alias_key ?w "live_aliases s" "\<lambda>v. cstr (a_val v)"] a(3) False
        alias_map_card [OF wf that(1)]
      by (simp add: aliases_distinct_def alias_map_def lv assign_def)
    with set wf' show ?thesis by auto
  qed
qed

section \<open>Stores of named texts\<close>

text \<open>A sequence of operations on a store and its effect on the abstract table.\<close>

datatype store_op = Assign string string | Remove string

fun run_ops :: "(string \<Rightarrow> string \<Rightarrow> 's \<Rightarrow> 's res) \<Rightarrow> (string \<Rightarrow> 's \<Rightarrow> 's res) \<Rightarrow> store_op list \<Rightarrow> 's \<Rightarrow> 's res" where
  "run_ops put del [] s = Inr s"
| "run_ops put del (x # xs) s =
     (case (case x of Assign n v \<Rightarrow> put n v s | Remove n \<Rightarrow> del n s) of
        Inl e \<Rightarrow> Inl e
      | Inr s1 \<Rightarrow> run_ops put del xs s1)"

fun spec_op :: "nat \<Rightarrow> store_op \<Rightarrow> (string \<rightharpoonup> string) \<Rightarrow> (string \<rightharpoonup> string)" where
  "spec_op limit (Assign n v) m = assign limit n v m"
| "spec_op limit (Remove n) m = m(n := None)"

fun op_ok :: "store_op \<Rightarrow> bool" where
  "op_ok (Assign n v) \<longleftrightarrow> NUL \<notin> set n \<and> NUL \<notin> set v \<and> length n < SH_VAR_NAMSZ"
| "op_ok (Remove n) \<longleftrightarrow> NUL \<notin> set n"

locale name_store =
  fixes inv :: "'s \<Rightarrow> bool" and tab :: "'s \<Rightarrow> (string \<rightharpoonup> string)" and limit :: nat
    and get :: "string \<Rightarrow> 's \<Rightarrow> string option res" and put :: "string \<Rightarrow> string \<Rightarrow> 's \<Rightarrow> 's res"
  assumes get_law: "inv s \<Longrightarrow> NUL \<notin> set n \<Longrightarrow> get n s = Inr (tab s n)"
    and put_law: "inv s \<Longrightarrow> op_ok (Assign n v) \<Longrightarrow> \<exists>s'. put n v s = Inr s' \<and> inv s' \<and> tab s' = assign limit n v (tab s)"
begin

lemma put_get:
  assumes "inv s" and "op_ok (Assign n v)" and "n \<in> dom (tab s) \<or> card (dom (tab s)) < limit"
  shows "\<exists>s'. put n v s = Inr s' \<and> get n s' = Inr (Some (take (SH_VAR_VALSZ - 1) v)) \<and>
           (\<forall>m. m \<noteq> n \<and> NUL \<notin> set m \<longrightarrow> get m s' = get m s)"
  using put_law [OF assms(1,2)] get_law assms by (auto simp: assign_def)

end

locale name_store_del = name_store +
  fixes del :: "string \<Rightarrow> 's \<Rightarrow> 's res"
  assumes del_law: "inv s \<Longrightarrow> NUL \<notin> set n \<Longrightarrow> \<exists>s'. del n s = Inr s' \<and> inv s' \<and> tab s' = (tab s)(n := None)"
begin

lemma run_refines:
  assumes "inv s" and "\<forall>x \<in> set xs. op_ok x"
  shows "\<exists>s'. run_ops put del xs s = Inr s' \<and> inv s' \<and> tab s' = fold (spec_op limit) xs (tab s)"
  using assms
proof (induction xs arbitrary: s)
  case (Cons x xs)
  have "\<exists>s1. (case x of Assign n v \<Rightarrow> put n v s | Remove n \<Rightarrow> del n s) = Inr s1 \<and> inv s1 \<and> tab s1 = spec_op limit x (tab s)"
    using put_law [OF Cons.prems(1)] del_law [OF Cons.prems(1)] Cons.prems(2) by (cases x) auto
  then obtain s1 where "(case x of Assign n v \<Rightarrow> put n v s | Remove n \<Rightarrow> del n s) = Inr s1" "inv s1"
      "tab s1 = spec_op limit x (tab s)" by blast
  with Cons.IH [of s1] Cons.prems(2) show ?case by simp
qed simp

lemma run_get:
  assumes "inv s" and "\<forall>x \<in> set xs. op_ok x" and "NUL \<notin> set n"
  shows "\<exists>s'. run_ops put del xs s = Inr s' \<and> get n s' = Inr (fold (spec_op limit) xs (tab s) n)"
  using run_refines [OF assms(1,2)] get_law [OF _ assms(3)] by auto

end

interpretation vstore: name_store_del "\<lambda>s. vars_wf s \<and> vars_distinct s" var_map SH_MAX_VARS var_get
  "\<lambda>n v s. var_set n (Some v) ex s" var_unset for ex
  using var_get_map var_set_spec [of _ _ _ ex] var_unset_spec by unfold_locales (auto, blast+)

interpretation astore: name_store "\<lambda>s. aliases_wf s \<and> aliases_distinct s" alias_map SH_MAX_ALIASES alias_get alias_set
  using alias_get_map alias_set_spec by unfold_locales (auto, blast)

section \<open>Properties\<close>

definition var_zero :: ShVar where
  "var_zero = \<lparr>v_name = replicate SH_VAR_NAMSZ NUL, v_val = replicate SH_VAR_VALSZ NUL, v_exported = False\<rparr>"

definition func_zero :: ShFunc where
  "func_zero = \<lparr>fn_name = replicate SH_VAR_NAMSZ NUL, fn_body = 0\<rparr>"

definition alias_zero :: ShAlias where
  "alias_zero = \<lparr>a_name = replicate SH_VAR_NAMSZ NUL, a_val = replicate SH_VAR_VALSZ NUL\<rparr>"

text \<open>The tables as the loader leaves them: zeroed, with the initialisers of the source.\<close>

definition sh_boot :: "kio \<Rightarrow> sh" where
  "sh_boot k = kio.extend k
     \<lparr>sh_last_status = 0, sh_vars = replicate SH_MAX_VARS var_zero, sh_nvar = 0,
      sh_funcs = replicate SH_MAX_FUNCS func_zero, sh_nfunc = 0,
      sh_aliases = replicate SH_MAX_ALIASES alias_zero, sh_nalias = 0,
      sh_argv = replicate SH_MAX_ARGS None, sh_argc = 0, sh_script_name = ''sh'',
      sh_flow = SH_FLOW_NONE, sh_return_val = 0,
      st_subst = replicate SH_PIPE_BUF NUL, st_tick = replicate SH_PIPE_BUF NUL,
      st_redir = replicate SH_PIPE_BUF NUL, st_pipe = replicate SH_PIPE_BUF NUL,
      st_stages = replicate 9 [], st_out = [], st_app = [], st_in = [], kout_dst = None, key_irqs = []\<rparr>"

lemmas sh_boot_defs = sh_boot_def kio.defs

lemma carr_replicate: "0 < n \<Longrightarrow> carr n (replicate n NUL)"
  by (simp add: carr_def)

lemma sh_boot_vars: "vars_wf (sh_boot k)" "vars_distinct (sh_boot k)" "var_map (sh_boot k) = Map.empty"
  by (simp_all add: vars_wf_def vars_distinct_def var_map_def live_vars_def sh_boot_defs var_zero_def carr_replicate)

lemma sh_boot_aliases: "aliases_wf (sh_boot k)" "aliases_distinct (sh_boot k)" "alias_map (sh_boot k) = Map.empty"
  by (simp_all add: aliases_wf_def aliases_distinct_def alias_map_def live_aliases_def sh_boot_defs alias_zero_def carr_replicate)

text \<open>
  C11: the variables of the interpreter are a finite map with 128 places. Whatever sequence of assignments and removals
  is made (with names that fit), no call leaves its arrays, and a lookup afterwards returns what the same sequence of
  updates of the map gives: the last value assigned, cut to 511 characters, or nothing.
\<close>

theorem sh_vars_refine_map:
  assumes "vars_wf s" and "vars_distinct s" and "\<forall>x \<in> set ops. op_ok x" and "NUL \<notin> set name"
  shows "\<exists>s'. run_ops (\<lambda>n v. var_set n (Some v) ex) var_unset ops s = Inr s' \<and>
           var_get name s' = Inr (fold (spec_op SH_MAX_VARS) ops (var_map s) name)"
  using assms by (intro vstore.run_get) auto

theorem sh_vars_refine_map_witness:
  "\<exists>s'. run_ops (\<lambda>n v. var_set n (Some v) True) var_unset
          [Assign ''A'' ''1'', Assign ''B'' ''2'', Remove ''A'', Assign ''B'' ''3''] (sh_boot kio_demo) = Inr s' \<and>
        var_get ''B'' s' = Inr (Some ''3'')"
  using sh_vars_refine_map [OF sh_boot_vars(1,2),
      of "[Assign ''A'' ''1'', Assign ''B'' ''2'', Remove ''A'', Assign ''B'' ''3'']" "''B''" True kio_demo]
  by (simp add: sh_boot_vars assign_def)

text \<open>
  A name of 64 or more characters is stored cut to 63, so it is never found again: every assignment to it
  takes a new place in the table, and reading it finds nothing.
\<close>

theorem sh_long_name_leaks:
  assumes "vars_wf s" and "NUL \<notin> set name" and "NUL \<notin> set val" and "length name \<ge> SH_VAR_NAMSZ" and "sh_nvar s < SH_MAX_VARS"
  shows "\<exists>s'. var_set name (Some val) ex s = Inr s' \<and> sh_nvar s' = Suc (sh_nvar s) \<and> var_get name s' = Inr None"
proof -
  have short: "name \<notin> var_key ` set (live_vars s)"
    using assms(1,4) carr_cstr_length by (fastforce simp: vars_wf_def live_vars_def var_key_def dest: in_set_takeD)
  obtain w where w: "var_set name (Some val) ex s = Inr (put_var (sh_nvar s) w (s\<lparr>sh_nvar := Suc (sh_nvar s)\<rparr>))"
      "vars_wf (put_var (sh_nvar s) w (s\<lparr>sh_nvar := Suc (sh_nvar s)\<rparr>))"
      "live_vars (put_var (sh_nvar s) w (s\<lparr>sh_nvar := Suc (sh_nvar s)\<rparr>)) = live_vars s @ [w]"
      "var_key w = take 63 name"
    using var_set_new [OF assms(1-3) short assms(5), of ex] by (auto simp: Let_def)
  have "length (var_key w) < length name" using w(4) assms(4) by simp
  then have "name \<noteq> var_key w" by auto
  with short have "var_map (put_var (sh_nvar s) w (s\<lparr>sh_nvar := Suc (sh_nvar s)\<rparr>)) name = None"
    using w(3) var_map_dom [of "put_var (sh_nvar s) w (s\<lparr>sh_nvar := Suc (sh_nvar s)\<rparr>)"] by (auto simp: domIff)
  with w(1,2) assms(2) show ?thesis by (auto simp: var_get_map put_var_def)
qed

end
