(* ===== verification/Sh_Arith.thy ===== *)
theory Sh_Arith
  imports Sh_Store
begin

text \<open>
  \<^verbatim>\<open>src/shell/sh.c\<close>, the evaluator of \<^verbatim>\<open>$((expr))\<close>: a recursive descent over the text with one function
  per level of precedence. The pointer \<^verbatim>\<open>*p\<close> is the text from it to the terminator. Signed arithmetic outside 64 bits, a
  shift by less than 0 or more than 63 places and a left shift of a negative number are \<open>Overflow\<close>; a variable name
  of 64 characters or more leaves the array \<^verbatim>\<open>vname\<close>. The nesting and the loops are bounded by the length of the
  text, which is proved to be enough.
\<close>

section \<open>Operators\<close>

datatype aop =
  OMul | ODiv | OMod | OAdd | OSub | OShl | OShr | OLt | OLe | OGt | OGe | OEq | ONe | OBand | OBxor | OBor | OLand | OLor

definition int64 :: "int \<Rightarrow> int res" where
  "int64 v = (if in_int64 v then Inr v else Inl Overflow)"

abbreviation (input) c_bool :: "bool \<Rightarrow> int" where "c_bool b \<equiv> if b then 1 else 0"

fun apply_op :: "aop \<Rightarrow> int \<Rightarrow> int \<Rightarrow> int res" where
  "apply_op OMul v r = int64 (v * r)"
| "apply_op ODiv v r = (if r = 0 then Inr 0 else int64 (c_div v r))"
| "apply_op OMod v r = (if r = 0 then Inr 0 else if in_int64 (c_div v r) then Inr (v - c_div v r * r) else Inl Overflow)"
| "apply_op OAdd v r = int64 (v + r)"
| "apply_op OSub v r = int64 (v - r)"
| "apply_op OShl v r = (if r < 0 \<or> r > 63 \<or> v < 0 then Inl Overflow else int64 (v * 2 ^ nat r))"
| "apply_op OShr v r = (if r < 0 \<or> r > 63 then Inl Overflow else Inr (v div 2 ^ nat r))"
| "apply_op OLt v r = Inr (c_bool (v < r))"
| "apply_op OLe v r = Inr (c_bool (v \<le> r))"
| "apply_op OGt v r = Inr (c_bool (v > r))"
| "apply_op OGe v r = Inr (c_bool (v \<ge> r))"
| "apply_op OEq v r = Inr (c_bool (v = r))"
| "apply_op ONe v r = Inr (c_bool (v \<noteq> r))"
| "apply_op OBand v r = Inr (v AND r)"
| "apply_op OBxor v r = Inr (v XOR r)"
| "apply_op OBor v r = Inr (v OR r)"
| "apply_op OLand v r = Inr (c_bool (v \<noteq> 0 \<and> r \<noteq> 0))"
| "apply_op OLor v r = Inr (c_bool (v \<noteq> 0 \<or> r \<noteq> 0))"

text \<open>The loop conditions of the levels: the operator at the pointer and the text behind it.\<close>

definition at_char :: "char \<Rightarrow> string \<Rightarrow> bool" where
  "at_char c p \<longleftrightarrow> (case p of [] \<Rightarrow> False | d # _ \<Rightarrow> d = c)"

definition mul_op :: "string \<Rightarrow> (aop \<times> string) option" where
  "mul_op p =
     (if at_char (CHR ''*'') p then Some (OMul, tl p)
      else if at_char (CHR ''/'') p then Some (ODiv, tl p)
      else if at_char (CHR ''%'') p then Some (OMod, tl p) else None)"

definition add_op :: "string \<Rightarrow> (aop \<times> string) option" where
  "add_op p =
     (if at_char (CHR ''+'') p then Some (OAdd, tl p)
      else if at_char (CHR ''-'') p then Some (OSub, tl p) else None)"

definition shift_op :: "string \<Rightarrow> (aop \<times> string) option" where
  "shift_op p =
     (if at_char (CHR ''<'') p \<and> at_char (CHR ''<'') (tl p) then Some (OShl, drop 2 p)
      else if at_char (CHR ''>'') p \<and> at_char (CHR ''>'') (tl p) then Some (OShr, drop 2 p) else None)"

definition rel_op :: "string \<Rightarrow> (aop \<times> string) option" where
  "rel_op p =
     (let eq = at_char (CHR ''='') (tl p)
      in if at_char (CHR ''<'') p then Some (if eq then (OLe, drop 2 p) else (OLt, tl p))
         else if at_char (CHR ''>'') p then Some (if eq then (OGe, drop 2 p) else (OGt, tl p)) else None)"

definition eq_op :: "string \<Rightarrow> (aop \<times> string) option" where
  "eq_op p =
     (if at_char (CHR ''='') p \<and> at_char (CHR ''='') (tl p) then Some (OEq, drop 2 p)
      else if at_char (CHR ''!'') p \<and> at_char (CHR ''='') (tl p) then Some (ONe, drop 2 p) else None)"

definition band_op :: "string \<Rightarrow> (aop \<times> string) option" where
  "band_op p = (if at_char (CHR ''&'') p \<and> \<not> at_char (CHR ''&'') (tl p) then Some (OBand, tl p) else None)"

definition bxor_op :: "string \<Rightarrow> (aop \<times> string) option" where
  "bxor_op p = (if at_char (CHR ''^'') p then Some (OBxor, tl p) else None)"

definition bor_op :: "string \<Rightarrow> (aop \<times> string) option" where
  "bor_op p = (if at_char (CHR ''|'') p \<and> \<not> at_char (CHR ''|'') (tl p) then Some (OBor, tl p) else None)"

definition land_op :: "string \<Rightarrow> (aop \<times> string) option" where
  "land_op p = (if at_char (CHR ''&'') p \<and> at_char (CHR ''&'') (tl p) then Some (OLand, drop 2 p) else None)"

definition lor_op :: "string \<Rightarrow> (aop \<times> string) option" where
  "lor_op p = (if at_char (CHR ''|'') p \<and> at_char (CHR ''|'') (tl p) then Some (OLor, drop 2 p) else None)"

section \<open>Levels\<close>

type_synonym parser = "string \<Rightarrow> (int \<times> string) res"

text \<open>\<^verbatim>\<open>while (operator at *p) { skip it; r = nxt(p); v = v op r; }\<close>\<close>

fun arith_loop :: "nat \<Rightarrow> (string \<Rightarrow> (aop \<times> string) option) \<Rightarrow> parser \<Rightarrow> int \<Rightarrow> string \<Rightarrow> (int \<times> string) res" where
  "arith_loop 0 rd nxt v p = Inl Diverges"
| "arith_loop (Suc n) rd nxt v p =
     (case rd p of
        None \<Rightarrow> Inr (v, p)
      | Some (opr, p1) \<Rightarrow>
          (case nxt p1 of
             Inl e \<Rightarrow> Inl e
           | Inr (r, p2) \<Rightarrow>
               (case apply_op opr v r of Inl e \<Rightarrow> Inl e | Inr v1 \<Rightarrow> arith_loop n rd nxt v1 p2)))"

definition arith_level :: "(string \<Rightarrow> (aop \<times> string) option) \<Rightarrow> parser \<Rightarrow> parser" where
  "arith_level rd nxt p =
     (case nxt p of Inl e \<Rightarrow> Inl e | Inr (v, p1) \<Rightarrow> arith_loop (Suc (length p1)) rd nxt v p1)"

definition arith_mul :: "parser \<Rightarrow> parser" where "arith_mul prim = arith_level mul_op prim"
definition arith_add :: "parser \<Rightarrow> parser" where "arith_add prim = arith_level add_op (arith_mul prim)"
definition arith_shift :: "parser \<Rightarrow> parser" where "arith_shift prim = arith_level shift_op (arith_add prim)"
definition arith_rel :: "parser \<Rightarrow> parser" where "arith_rel prim = arith_level rel_op (arith_shift prim)"
definition arith_eq :: "parser \<Rightarrow> parser" where "arith_eq prim = arith_level eq_op (arith_rel prim)"
definition arith_band :: "parser \<Rightarrow> parser" where "arith_band prim = arith_level band_op (arith_eq prim)"
definition arith_bxor :: "parser \<Rightarrow> parser" where "arith_bxor prim = arith_level bxor_op (arith_band prim)"
definition arith_bor :: "parser \<Rightarrow> parser" where "arith_bor prim = arith_level bor_op (arith_bxor prim)"
definition arith_land :: "parser \<Rightarrow> parser" where "arith_land prim = arith_level land_op (arith_bor prim)"
definition arith_lor :: "parser \<Rightarrow> parser" where "arith_lor prim = arith_level lor_op (arith_land prim)"

section \<open>Primaries\<close>

definition is_name_char :: "char \<Rightarrow> bool" where
  "is_name_char c \<longleftrightarrow>
     (uchar (CHR ''a'') \<le> uchar c \<and> uchar c \<le> uchar (CHR ''z'')) \<or>
     (uchar (CHR ''A'') \<le> uchar c \<and> uchar c \<le> uchar (CHR ''Z'')) \<or>
     (uchar (CHR ''0'') \<le> uchar c \<and> uchar c \<le> uchar (CHR ''9'')) \<or> c = CHR ''_''"

text \<open>\<^verbatim>\<open>while (**p && depth)\<close>: the text behind the parenthesis that closes \<open>depth\<close> open ones.\<close>

fun skip_paren :: "string \<Rightarrow> nat \<Rightarrow> string" where
  "skip_paren p 0 = p"
| "skip_paren [] (Suc d) = []"
| "skip_paren (c # p) (Suc d) =
     skip_paren p (if c = CHR ''('' then Suc (Suc d) else if c = CHR '')'' then d else Suc d)"

definition strtol_text :: "string \<Rightarrow> int \<Rightarrow> (int \<times> string) res" where
  "strtol_text p base = (case strtol (cz p) base of None \<Rightarrow> Inl Overflow | Some (v, r) \<Rightarrow> Inr (v, butlast r))"

definition var_value :: "string \<Rightarrow> 'a sh_scheme \<Rightarrow> int res" where
  "var_value name s =
     (if length name \<ge> SH_VAR_NAMSZ then Inl OutOfBounds
      else case var_get name s of
             Inl e \<Rightarrow> Inl e
           | Inr None \<Rightarrow> Inr 0
           | Inr (Some v) \<Rightarrow> map_sum id fst (strtol_text v 0))"

definition arith_var :: "string \<Rightarrow> 'a sh_scheme \<Rightarrow> (int \<times> string) res" where
  "arith_var p s =
     (let (name, rest) =
        (if at_char (CHR ''{'') p
         then (takeWhile (\<lambda>c. c \<noteq> CHR ''}'') (tl p), tl (dropWhile (\<lambda>c. c \<noteq> CHR ''}'') (tl p)))
         else (takeWhile is_name_char p, dropWhile is_name_char p))
      in map_sum id (\<lambda>v. (v, rest)) (var_value name s))"

fun arith_primary :: "nat \<Rightarrow> 'a sh_scheme \<Rightarrow> parser" where
  "arith_primary 0 s p = Inl Diverges"
| "arith_primary (Suc n) s p =
     (let p1 = dropWhile (\<lambda>c. c = CHR '' '') p; q = tl p1
      in if at_char (CHR ''('') p1 then
           (case arith_lor (arith_primary n s) q of Inl e \<Rightarrow> Inl e | Inr (v, _) \<Rightarrow> Inr (v, skip_paren q 1))
         else if at_char (CHR ''-'') p1 then
           (case arith_primary n s q of
              Inl e \<Rightarrow> Inl e
            | Inr (v, r) \<Rightarrow> map_sum id (\<lambda>w. (w, r)) (int64 (- v)))
         else if at_char (CHR ''+'') p1 then arith_primary n s q
         else if at_char (CHR ''~'') p1 then map_sum id (map_prod (\<lambda>v. NOT v) id) (arith_primary n s q)
         else if at_char (CHR ''!'') p1 then map_sum id (map_prod (\<lambda>v. c_bool (v = 0)) id) (arith_primary n s q)
         else if at_char (CHR ''$'') p1 then arith_var q s
         else strtol_text p1 0)"

definition arith_eval :: "string \<Rightarrow> 'a sh_scheme \<Rightarrow> int res" where
  "arith_eval expr s = map_sum id fst (arith_lor (arith_primary (Suc (length expr)) s) expr)"

section \<open>The text bounds the work\<close>

text \<open>A parser that never grows the text and does not give up on texts shorter than \<open>n\<close>.\<close>

definition sound :: "nat \<Rightarrow> parser \<Rightarrow> bool" where
  "sound n f \<longleftrightarrow> (\<forall>p v q. f p = Inr (v, q) \<longrightarrow> length q \<le> length p) \<and> (\<forall>p. length p < n \<longrightarrow> f p \<noteq> Inl Diverges)"

definition reader :: "(string \<Rightarrow> (aop \<times> string) option) \<Rightarrow> bool" where
  "reader rd \<longleftrightarrow> (\<forall>p opr q. rd p = Some (opr, q) \<longrightarrow> length q < length p)"

lemma apply_op_returns: "apply_op opr v r \<noteq> Inl Diverges"
  by (cases opr) (auto simp: int64_def)

lemma at_char_length: "at_char c p \<Longrightarrow> length (tl p) < length p"
  by (auto simp: at_char_def split: list.splits)

lemma drop2_length: "at_char c p \<Longrightarrow> length (drop 2 p) < length p"
  by (auto simp: at_char_def split: list.splits)

lemmas op_defs = mul_op_def add_op_def shift_op_def rel_op_def eq_op_def band_op_def bxor_op_def bor_op_def land_op_def lor_op_def

lemma readers:
  "reader mul_op" "reader add_op" "reader shift_op" "reader rel_op" "reader eq_op"
  "reader band_op" "reader bxor_op" "reader bor_op" "reader land_op" "reader lor_op"
  unfolding reader_def op_defs Let_def
  by (auto split: if_splits dest: at_char_length drop2_length)

lemma arith_loop_sound:
  assumes rd: "reader rd" and s: "sound n nxt"
  shows "arith_loop k rd nxt v p = Inr (w, q) \<Longrightarrow> length q \<le> length p"
    and "length p < k \<Longrightarrow> length p < n \<Longrightarrow> arith_loop k rd nxt v p \<noteq> Inl Diverges"
proof (induction k arbitrary: v p)
  case (Suc k)
  {
    case 1
    with rd s Suc.IH(1) show ?case
      by (fastforce simp: reader_def sound_def split: option.splits sum.splits)
  next
    case 2
    show ?case
    proof (cases "rd p")
      case (Some op1)
      obtain opr p1 where r: "rd p = Some (opr, p1)" using Some by (cases op1) auto
      with rd have l: "length p1 < length p" by (auto simp: reader_def)
      show ?thesis
      proof (cases "nxt p1")
        case (Inl e)
        with r s l 2 show ?thesis by (auto simp: sound_def)
      next
        case (Inr rp)
        obtain x p2 where x: "nxt p1 = Inr (x, p2)" using Inr by (cases rp) auto
        with s l have l2: "length p2 < length p" by (fastforce simp: sound_def)
        with r x 2 Suc.IH(2) [of p2] apply_op_returns [of opr v x] show ?thesis by (auto split: sum.splits)
      qed
    qed simp
  }
qed simp_all

lemma arith_level_sound:
  assumes "reader rd" and "sound n nxt"
  shows "sound n (arith_level rd nxt)"
  unfolding sound_def
proof (intro conjI allI impI)
  fix p v q
  assume "arith_level rd nxt p = Inr (v, q)"
  then obtain w p1 where "nxt p = Inr (w, p1)" "arith_loop (Suc (length p1)) rd nxt w p1 = Inr (v, q)"
    by (auto simp: arith_level_def split: sum.splits)
  with arith_loop_sound(1) [OF assms] assms(2) show "length q \<le> length p" by (fastforce simp: sound_def)
next
  fix p :: string
  assume l: "length p < n"
  show "arith_level rd nxt p \<noteq> Inl Diverges"
  proof (cases "nxt p")
    case (Inl e)
    with l assms(2) show ?thesis by (auto simp: sound_def arith_level_def)
  next
    case (Inr vp)
    obtain v p1 where v: "nxt p = Inr (v, p1)" using Inr by (cases vp) auto
    with l assms(2) have "length p1 < n" by (fastforce simp: sound_def)
    with v arith_loop_sound(2) [OF assms, of p1 "Suc (length p1)" v] show ?thesis by (simp add: arith_level_def)
  qed
qed

lemma arith_lor_sound: "sound n prim \<Longrightarrow> sound n (arith_lor prim)"
  unfolding arith_lor_def arith_land_def arith_bor_def arith_bxor_def arith_band_def arith_eq_def arith_rel_def arith_shift_def
    arith_add_def arith_mul_def
  by (intro arith_level_sound readers)

lemma skip_paren_length: "length (skip_paren p d) \<le> length p"
  by (induction p d rule: skip_paren.induct) (auto intro: le_SucI)

lemma strtol_digits_length: "strtol_digits s b v = Some (w, r) \<Longrightarrow> length r \<le> length s \<and> (last s = NUL \<longrightarrow> r \<noteq> [])"
  by (induction s b v rule: strtol_digits.induct) (auto split: if_splits option.splits)

lemma skip_blanks_length: "length (skip_blanks s) \<le> length s"
  by (induction s rule: skip_blanks.induct) auto

lemma strtol_length: "strtol s b = Some (v, r) \<Longrightarrow> length r \<le> length s"
proof -
  assume a: "strtol s b = Some (v, r)"
  then obtain c cs where c: "skip_blanks s = c # cs" by (auto simp: strtol_def split: list.splits)
  let ?s1 = "if c = CHR ''-'' \<or> c = CHR ''+'' then cs else c # cs"
  obtain b2 s2 where b: "strtol_base ?s1 b = (b2, s2)" by fastforce
  have l2: "length s2 \<le> length ?s1"
    using b by (auto simp: strtol_base_def split: list.splits if_splits)
  obtain w where "strtol_digits s2 b2 0 = Some (w, r)"
    using a c b by (auto simp: strtol_def Let_def split: option.splits if_splits)
  then have "length r \<le> length s2" using strtol_digits_length by blast
  with l2 c skip_blanks_length [of s] show ?thesis by (auto split: if_splits)
qed

lemma strtol_text_sound: "strtol_text p b = Inr (v, q) \<Longrightarrow> length q \<le> length p" "strtol_text p b \<noteq> Inl Diverges"
  by (auto simp: strtol_text_def cz_def split: option.splits dest!: strtol_length)

lemma scan_names_returns: "scan_names as name i \<noteq> Inl Diverges"
  by (induction as name i rule: scan_names.induct) (auto split: option.splits)

lemma var_get_returns: "var_get name s \<noteq> Inl Diverges"
  using scan_names_returns by (fastforce simp: var_get_def var_find_def split: sum.splits option.splits)

lemma map_sum_id_Inl: "map_sum id g x = Inl e \<longleftrightarrow> x = Inl e"
  by (cases x) auto

lemma var_value_returns: "var_value name s \<noteq> Inl Diverges"
  using var_get_returns [of name s] strtol_text_sound(2) [of _ 0]
  by (auto simp: var_value_def map_sum_id_Inl split: sum.splits option.splits)

lemma dropWhile_length: "length (dropWhile P p) \<le> length p"
  by (induction p) auto

lemma arith_var_sound: "arith_var p s = Inr (v, q) \<Longrightarrow> length q \<le> length p" "arith_var p s \<noteq> Inl Diverges"
proof -
  show "arith_var p s = Inr (v, q) \<Longrightarrow> length q \<le> length p"
    using dropWhile_length [of is_name_char p] dropWhile_length [of "\<lambda>c. c \<noteq> CHR ''}''" "tl p"]
    by (auto simp: arith_var_def map_sum_Inr split: if_splits)
  show "arith_var p s \<noteq> Inl Diverges"
    by (auto simp: arith_var_def Let_def map_sum_id_Inl var_value_returns split: prod.splits)
qed

lemma arith_primary_sound: "sound n (arith_primary n s)"
proof (induction n)
  case (Suc n)
  note lor = arith_lor_sound [OF Suc.IH]
  show ?case
    unfolding sound_def
  proof (intro conjI allI impI)
    fix p v q
    assume a: "arith_primary (Suc n) s p = Inr (v, q)"
    let ?p = "dropWhile (\<lambda>c. c = CHR '' '') p"
    have l: "length ?p \<le> length p" by (rule dropWhile_length)
    have t: "length (tl ?p) \<le> length ?p" by simp
    have ih: "arith_primary n s (tl ?p) = Inr (w, q) \<Longrightarrow> length q \<le> length ?p" for w
      using Suc.IH t unfolding sound_def by (meson order_trans)
    have vs: "arith_var (tl ?p) s = Inr (v, q) \<Longrightarrow> length q \<le> length ?p" using arith_var_sound(1) t by (meson order_trans)
    have sk: "length (skip_paren (tl ?p) 1) \<le> length ?p" using skip_paren_length t by (meson order_trans)
    have "length q \<le> length ?p"
      using a ih vs sk strtol_text_sound(1) [of ?p 0 v q]
      by (auto simp: Let_def map_sum_Inr int64_def split: if_splits sum.splits)
    with l show "length q \<le> length p" by linarith
  next
    fix p :: string
    assume "length p < Suc n"
    let ?p = "dropWhile (\<lambda>c. c = CHR '' '') p"
    have "length (tl ?p) < n" if "at_char c ?p" for c
      using at_char_length [OF that] dropWhile_length [of "\<lambda>c. c = CHR '' ''" p] \<open>length p < Suc n\<close> by linarith
    with Suc.IH lor arith_var_sound(2) [of "tl ?p" s] strtol_text_sound(2) [of ?p 0] show "arith_primary (Suc n) s p \<noteq> Inl Diverges"
      unfolding sound_def by (auto simp: Let_def map_sum_id_Inl int64_def split: sum.splits)
  qed
qed (simp add: sound_def)

lemma arith_eval_returns: "arith_eval expr s \<noteq> Inl Diverges"
  using arith_lor_sound [OF arith_primary_sound [of "Suc (length expr)" s]]
  by (simp add: arith_eval_def map_sum_id_Inl sound_def)

text \<open>With enough fuel the loop does not depend on it.\<close>

lemma arith_loop_fuel:
  assumes rd: "reader rd" and s: "sound n nxt"
  shows "length p < k \<Longrightarrow> length p < j \<Longrightarrow> arith_loop k rd nxt v p = arith_loop j rd nxt v p"
proof (induction k arbitrary: j v p)
  case (Suc k)
  then obtain i where j: "j = Suc i" by (cases j) auto
  show ?case
  proof (cases "rd p")
    case (Some op1)
    obtain opr p1 where r: "rd p = Some (opr, p1)" using Some by (cases op1) auto
    with rd have l: "length p1 < length p" by (auto simp: reader_def)
    show ?thesis
    proof (cases "nxt p1")
      case (Inr rp)
      obtain x p2 where x: "nxt p1 = Inr (x, p2)" using Inr by (cases rp) auto
      with s l have "length p2 < length p" by (fastforce simp: sound_def)
      with r x Suc.IH [of p2 i] Suc.prems j show ?thesis by (auto split: sum.splits)
    qed (use r j in auto)
  qed (use j in auto)
qed simp

section \<open>Expressions\<close>

text \<open>
  The expressions the evaluator is for, their value, and their text without blanks and with parentheses where the
  precedence of the operators asks for them. \<open>looseness\<close> counts from the tightest level.
\<close>

datatype aexp =
  ANum nat | AVar string | ANeg aexp | APos aexp | ACpl aexp | ANot aexp | ABin aop aexp aexp

fun looseness :: "aop \<Rightarrow> nat" where
  "looseness OMul = 0" | "looseness ODiv = 0" | "looseness OMod = 0"
| "looseness OAdd = 1" | "looseness OSub = 1"
| "looseness OShl = 2" | "looseness OShr = 2"
| "looseness OLt = 3" | "looseness OLe = 3" | "looseness OGt = 3" | "looseness OGe = 3"
| "looseness OEq = 4" | "looseness ONe = 4"
| "looseness OBand = 5" | "looseness OBxor = 6" | "looseness OBor = 7" | "looseness OLand = 8" | "looseness OLor = 9"

fun op_text :: "aop \<Rightarrow> string" where
  "op_text OMul = ''*''" | "op_text ODiv = ''/''" | "op_text OMod = ''%''"
| "op_text OAdd = ''+''" | "op_text OSub = ''-''"
| "op_text OShl = ''<<''" | "op_text OShr = ''>>''"
| "op_text OLt = ''<''" | "op_text OLe = ''<=''" | "op_text OGt = ''>''" | "op_text OGe = ''>=''"
| "op_text OEq = ''==''" | "op_text ONe = ''!=''"
| "op_text OBand = ''&''" | "op_text OBxor = ''^''" | "op_text OBor = ''|''" | "op_text OLand = ''&&''" | "op_text OLor = ''||''"

fun exp_text :: "nat \<Rightarrow> aexp \<Rightarrow> string" where
  "exp_text d (ANum n) = num_text 10 n"
| "exp_text d (AVar x) = CHR ''$'' # x"
| "exp_text d (ANeg e) = CHR ''-'' # exp_text 0 e"
| "exp_text d (APos e) = CHR ''+'' # exp_text 0 e"
| "exp_text d (ACpl e) = CHR ''~'' # exp_text 0 e"
| "exp_text d (ANot e) = CHR ''!'' # exp_text 0 e"
| "exp_text d (ABin opr l r) =
     (let t = exp_text (Suc (looseness opr)) l @ op_text opr @ exp_text (looseness opr) r
      in if looseness opr < d then t else CHR ''('' # t @ '')'')"

fun exp_val :: "'a sh_scheme \<Rightarrow> aexp \<Rightarrow> int res" where
  "exp_val s (ANum n) = Inr (int n)"
| "exp_val s (AVar x) = var_value x s"
| "exp_val s (ANeg e) = (case exp_val s e of Inl f \<Rightarrow> Inl f | Inr v \<Rightarrow> int64 (- v))"
| "exp_val s (APos e) = exp_val s e"
| "exp_val s (ACpl e) = map_sum id (\<lambda>v. NOT v) (exp_val s e)"
| "exp_val s (ANot e) = map_sum id (\<lambda>v. c_bool (v = 0)) (exp_val s e)"
| "exp_val s (ABin opr l r) =
     (case exp_val s l of
        Inl f \<Rightarrow> Inl f
      | Inr v \<Rightarrow> (case exp_val s r of Inl f \<Rightarrow> Inl f | Inr w \<Rightarrow> apply_op opr v w))"

fun exp_ok :: "aexp \<Rightarrow> bool" where
  "exp_ok (ANum n) \<longleftrightarrow> int n < 2 ^ 63"
| "exp_ok (AVar x) \<longleftrightarrow> x \<noteq> [] \<and> (\<forall>c \<in> set x. is_name_char c)"
| "exp_ok (ANeg e) = exp_ok e"
| "exp_ok (APos e) = exp_ok e"
| "exp_ok (ACpl e) = exp_ok e"
| "exp_ok (ANot e) = exp_ok e"
| "exp_ok (ABin opr l r) \<longleftrightarrow> exp_ok l \<and> exp_ok r"

section \<open>Reading the text of an expression\<close>

definition op_at :: "nat \<Rightarrow> string \<Rightarrow> (aop \<times> string) option" where
  "op_at d = [mul_op, add_op, shift_op, rel_op, eq_op, band_op, bxor_op, bor_op, land_op, lor_op] ! d"

fun at_level :: "parser \<Rightarrow> nat \<Rightarrow> parser" where
  "at_level prim 0 = prim"
| "at_level prim (Suc d) = arith_level (op_at d) (at_level prim d)"

lemma at_level_lor: "arith_lor prim = at_level prim 10"
  by (simp add: eval_nat_numeral op_at_def arith_lor_def arith_land_def arith_bor_def arith_bxor_def arith_band_def arith_eq_def
      arith_rel_def arith_shift_def arith_add_def arith_mul_def)

lemma op_at_reader: "d < 10 \<Longrightarrow> reader (op_at d)"
  using readers by (simp add: eval_nat_numeral less_Suc_eq) (auto simp: op_at_def)

lemma at_level_sound: "sound n prim \<Longrightarrow> d \<le> 10 \<Longrightarrow> sound n (at_level prim d)"
  by (induction d) (auto intro!: arith_level_sound op_at_reader)

lemma dig_low_dec: "k < 10 \<Longrightarrow> dig_low ! k \<in> set ''0123456789''"
proof -
  assume "k < 10"
  then have "k \<in> set [0..<10]" by simp
  then show ?thesis by (auto simp: upt_rec dig_low_def)
qed

lemma num_digits_dec: "c \<in> set (num_digits dig_low 10 n) \<Longrightarrow> c \<in> set ''0123456789''"
proof (induction n rule: less_induct)
  case (less n)
  show ?case
  proof (cases "n = 0")
    case False
    have "dig_low ! (n mod 10) \<in> set ''0123456789''" by (rule dig_low_dec) simp
    moreover have "c = dig_low ! (n mod 10) \<or> c \<in> set (num_digits dig_low 10 (n div 10))"
      using less.prems False num_digits.simps [of dig_low 10 n] by simp
    ultimately show ?thesis using less.IH [of "n div 10"] False by auto
  qed (use less.prems in \<open>simp add: num_digits.simps\<close>)
qed

lemma num_text_first:
  assumes "n \<noteq> 0"
  shows "\<exists>c cs. num_text 10 n = c # cs \<and> c \<noteq> CHR ''0'' \<and> c \<in> set ''0123456789''"
  using assms
proof (induction n rule: less_induct)
  case (less n)
  have nt: "num_text 10 n = rev (num_digits dig_low 10 (n div 10)) @ [dig_low ! (n mod 10)]"
    using less.prems num_digits.simps [of dig_low 10 n] by (simp add: num_text_def)
  show ?case
  proof (cases "n div 10 = 0")
    case True
    then have "n mod 10 = n" "n < 10" by auto
    then have "n \<in> set [1..<10]" using less.prems by simp
    with nt True \<open>n mod 10 = n\<close> show ?thesis by (auto simp: upt_rec dig_low_def num_digits.simps)
  next
    case False
    then obtain c cs where "num_text 10 (n div 10) = c # cs" "c \<noteq> CHR ''0''" "c \<in> set ''0123456789''"
      using less.IH [of "n div 10"] less.prems by auto
    with False nt show ?thesis by (simp add: num_text_def)
  qed
qed

text \<open>The first character of an operand.\<close>

definition starts :: "char \<Rightarrow> bool" where
  "starts c \<longleftrightarrow> c \<in> set ''0123456789$-+~!(''"

lemma starts_no_op: "starts c \<Longrightarrow> c \<notin> set ''=&|<>''"
  by (auto simp: starts_def)

lemma op_at_simps:
  "op_at 0 = mul_op" "op_at (Suc 0) = add_op" "op_at 2 = shift_op" "op_at 3 = rel_op" "op_at 4 = eq_op"
  "op_at 5 = band_op" "op_at 6 = bxor_op" "op_at 7 = bor_op" "op_at 8 = land_op" "op_at 9 = lor_op"
  by (simp_all add: op_at_def)

lemma looseness_cases:
  assumes "d \<le> looseness opr"
  obtains "d = 0" | "d = 1" | "d = 2" | "d = 3" | "d = 4" | "d = 5" | "d = 6" | "d = 7" | "d = 8" | "d = 9"
proof -
  have "d \<le> 9" using assms by (cases opr) auto
  then have "d = 0 \<or> d = 1 \<or> d = 2 \<or> d = 3 \<or> d = 4 \<or> d = 5 \<or> d = 6 \<or> d = 7 \<or> d = 8 \<or> d = 9" by presburger
  with that show thesis by blast
qed

lemma op_at_op_text:
  assumes "starts c" and "d \<le> looseness opr"
  shows "op_at d (op_text opr @ c # r) = (if d = looseness opr then Some (opr, c # r) else None)"
  using starts_no_op [OF assms(1)] assms(2)
  by (rule_tac looseness_cases [OF assms(2)]; cases opr; simp add: op_at_simps op_defs at_char_def)

lemma exp_text_starts: "\<exists>c t. exp_text d e = c # t \<and> starts c"
proof (induction e arbitrary: d)
  case (ANum n)
  obtain c cs where c: "num_text 10 n = c # cs" using num_text_ne [of 10 n] by (cases "num_text 10 n") auto
  have "rev (num_digits dig_low 10 n) = c # cs \<Longrightarrow> c \<in> set (num_digits dig_low 10 n)" by (metis list.set_intros(1) set_rev)
  with c have "c = CHR ''0'' \<or> c \<in> set (num_digits dig_low 10 n)" by (auto simp: num_text_def split: if_splits)
  then have "starts c" using num_digits_dec [of c n] by (auto simp: starts_def)
  with c show ?case by simp
next
  case (ABin opr l r)
  obtain c t where "exp_text (Suc (looseness opr)) l = c # t" "starts c" using ABin.IH(1) by blast
  then show ?case by (auto simp: starts_def Let_def)
qed (auto simp: starts_def)

text \<open>The text behind an expression ends its last token, and no operator of the levels below \<open>d\<close> stands there.\<close>

definition ends :: "nat \<Rightarrow> string \<Rightarrow> bool" where
  "ends d r \<longleftrightarrow> (r = [] \<or> \<not> is_name_char (hd r)) \<and> (\<forall>o' < d. op_at o' r = None)"

lemma ends_mono: "ends d r \<Longrightarrow> d' \<le> d \<Longrightarrow> ends d' r"
  by (auto simp: ends_def)

lemma ends_op:
  "starts c \<Longrightarrow> ends (looseness opr) (op_text opr @ c # r)"
  by (auto simp: ends_def op_at_op_text) (cases opr; simp add: is_name_char_def uchar_def)

lemma op_at_stop: "op_at d [] = None" "c \<in> {CHR '')'', CHR '' ''} \<Longrightarrow> op_at d (c # r) = None" if "d < 10"
proof -
  have "d \<le> looseness OLor" using that by simp
  then show "op_at d [] = None" "c \<in> {CHR '')'', CHR '' ''} \<Longrightarrow> op_at d (c # r) = None"
    by (rule looseness_cases; auto simp: op_at_simps op_defs at_char_def)+
qed

lemma ends_stop: "d \<le> 10 \<Longrightarrow> ends d []" "d \<le> 10 \<Longrightarrow> ends d (CHR '')'' # r)" "d \<le> 10 \<Longrightarrow> ends d (CHR '' '' # r)"
  by (auto simp: ends_def op_at_stop is_name_char_def uchar_def)

lemma strtol_num_rest:
  assumes "int n < 2 ^ 63" and "r = [] \<or> \<not> is_name_char (hd r)"
  shows "strtol_text (num_text 10 n @ r) 0 = Inr (int n, r)"
proof -
  have stop: "strtol_digits (cz r) b v = Some (v, cz r)" if "8 \<le> b" "b \<le> 10" for b v
  proof (cases r)
    case (Cons c cs)
    with assms(2) have "\<not> is_name_char c" by simp
    then have "digit_val c = None" by (auto simp: digit_val_def is_name_char_def uchar_def)
    with Cons show ?thesis by (simp add: cz_def)
  qed (simp add: cz_def)
  show ?thesis
  proof (cases "n = 0")
    case True
    have "strtol (cz (''0'' @ r)) 0 = Some (0, cz r)"
    proof (cases r)
      case (Cons c cs)
      with assms(2) have "\<not> is_x c" by (auto simp: is_x_def is_name_char_def uchar_def)
      with Cons stop [of 8 0] show ?thesis by (simp add: strtol_def strtol_base_def cz_def)
    qed (simp add: strtol_def strtol_base_def cz_def is_x_def)
    with True show ?thesis by (simp add: strtol_text_def num_text_def cz_def)
  next
    case False
    have nt: "num_text 10 n = rev (num_digits dig_low 10 n)" using False by (simp add: num_text_def)
    obtain c cs where c: "num_text 10 n = c # cs" "c \<noteq> CHR ''0''" "c \<in> set ''0123456789''"
      using num_text_first [OF False] by blast
    have "strtol_digits (num_text 10 n @ cz r) 10 0 = Some (int n, cz r)"
      using strtol_num_digits [of 10 n "cz r"] assms(1) stop [of 10 "int n"] by (simp add: nt)
    moreover have "strtol_base (c # cs @ cz r) 0 = (10, c # cs @ cz r)" using c(2) by (auto simp: strtol_base_def split: list.splits)
    moreover have "skip_blanks (c # cs @ cz r) = c # cs @ cz r" "c \<noteq> CHR ''-''" "c \<noteq> CHR ''+''" using c(3) by auto
    ultimately have "strtol (cz (num_text 10 n @ r)) 0 = Some (int n, cz r)" using c(1) by (simp add: strtol_def cz_def)
    then show ?thesis by (simp add: strtol_text_def cz_def)
  qed
qed

lemma skip_paren_plain: "CHR ''('' \<notin> set t \<Longrightarrow> CHR '')'' \<notin> set t \<Longrightarrow> skip_paren (t @ r) (Suc k) = skip_paren r (Suc k)"
  by (induction t) auto

lemma skip_paren_exp: "exp_ok e \<Longrightarrow> skip_paren (exp_text d e @ r) (Suc k) = skip_paren r (Suc k)"
proof (induction e arbitrary: d r k)
  case (ANum n)
  have "set (num_text 10 n) \<subseteq> set ''0123456789''" using num_digits_dec by (auto simp: num_text_def)
  then show ?case by (auto intro!: skip_paren_plain)
next
  case (AVar x)
  then have "CHR ''('' \<notin> set x" "CHR '')'' \<notin> set x" by (auto simp: is_name_char_def uchar_def)
  then show ?case using skip_paren_plain [of "CHR ''$'' # x" r k] by simp
next
  case (ABin opr l r')
  have "skip_paren (op_text opr @ q) (Suc j) = skip_paren q (Suc j)" for q j
    by (rule skip_paren_plain) (cases opr; simp)+
  then have "skip_paren (exp_text (Suc (looseness opr)) l @ op_text opr @ exp_text (looseness opr) r' @ q) (Suc j) = skip_paren q (Suc j)" for q j
    using ABin by simp
  then show ?case by (simp add: Let_def)
qed auto

text \<open>Value and rest at a level, and the loop that continues from there.\<close>

definition then_loop :: "int res \<Rightarrow> nat \<Rightarrow> parser \<Rightarrow> string \<Rightarrow> (int \<times> string) res" where
  "then_loop x d prim r =
     (case x of Inl f \<Rightarrow> Inl f | Inr v \<Rightarrow> arith_loop (Suc (length r)) (op_at d) (at_level prim d) v r)"

lemma at_level_loop:
  "at_level prim d p = map_sum id (\<lambda>v. (v, r)) x \<Longrightarrow> at_level prim (Suc d) p = then_loop x d prim r"
  by (cases x) (simp_all add: arith_level_def then_loop_def)

lemma then_loop_ends: "ends (Suc d) r \<Longrightarrow> then_loop x d prim r = map_sum id (\<lambda>v. (v, r)) x"
  by (cases x) (simp_all add: then_loop_def ends_def)

lemma at_level_climb:
  assumes "at_level prim d0 p = map_sum id (\<lambda>v. (v, r)) x" and "d0 \<le> d" and "ends d r"
  shows "at_level prim d p = map_sum id (\<lambda>v. (v, r)) x"
  using assms(2,3)
proof (induction d rule: dec_induct)
  case (step d)
  then have "at_level prim d p = map_sum id (\<lambda>v. (v, r)) x" using ends_mono by (metis le_SucI order_refl)
  from at_level_loop [OF this] show ?case by (simp only: then_loop_ends [OF step.prems])
qed (rule assms(1))

definition reads :: "'a sh_scheme \<Rightarrow> aexp \<Rightarrow> bool" where
  "reads s e \<longleftrightarrow> (\<forall>n d r. d \<le> 10 \<longrightarrow> ends d r \<longrightarrow> length (exp_text d e @ r) < n \<longrightarrow>
     at_level (arith_primary n s) d (exp_text d e @ r) = map_sum id (\<lambda>v. (v, r)) (exp_val s e))"

definition folds :: "'a sh_scheme \<Rightarrow> aexp \<Rightarrow> bool" where
  "folds s e \<longleftrightarrow> (\<forall>n d r. d < 10 \<longrightarrow> ends d r \<longrightarrow> length (exp_text (Suc d) e @ r) < n \<longrightarrow>
     at_level (arith_primary n s) (Suc d) (exp_text (Suc d) e @ r) = then_loop (exp_val s e) d (arith_primary n s) r)"

text \<open>Expressions whose text is the same at every level.\<close>

lemma reads_atom:
  assumes "\<And>d. exp_text d e = exp_text 0 e"
    and "\<And>n r. ends 0 r \<Longrightarrow> length (exp_text 0 e @ r) < n \<Longrightarrow>
      arith_primary n s (exp_text 0 e @ r) = map_sum id (\<lambda>v. (v, r)) (exp_val s e)"
  shows "reads s e \<and> folds s e"
proof -
  have r: "at_level (arith_primary n s) d (exp_text 0 e @ r) = map_sum id (\<lambda>v. (v, r)) (exp_val s e)"
    if "ends d r" "length (exp_text 0 e @ r) < n" for n d r
    using at_level_climb [of "arith_primary n s" 0] assms(2) [OF ends_mono [OF that(1)] that(2)] that(1) by simp
  moreover have "at_level (arith_primary n s) (Suc d) (exp_text 0 e @ r) = then_loop (exp_val s e) d (arith_primary n s) r"
    if "ends d r" "length (exp_text 0 e @ r) < n" for n d r
    using at_level_loop [OF r [OF that]] .
  ultimately show ?thesis unfolding reads_def folds_def assms(1) [of "Suc _"] using assms(1) by (metis (no_types, lifting))
qed

lemma reads_prim: "reads s e \<Longrightarrow> ends 0 r \<Longrightarrow> length (exp_text 0 e @ r) < n \<Longrightarrow>
    arith_primary n s (exp_text 0 e @ r) = map_sum id (\<lambda>v. (v, r)) (exp_val s e)"
  unfolding reads_def by (metis at_level.simps(1) zero_le)

lemma prim_atoms:
  assumes "exp_ok e" and "\<And>e'. size e' < size e \<Longrightarrow> exp_ok e' \<Longrightarrow> reads s e'" and "\<And>opr l r. e \<noteq> ABin opr l r"
    and "ends 0 r" and "length (exp_text 0 e @ r) < n"
  shows "arith_primary n s (exp_text 0 e @ r) = map_sum id (\<lambda>v. (v, r)) (exp_val s e)"
proof -
  obtain m where n: "n = Suc m" using assms(5) by (cases n) auto
  have sub: "arith_primary m s (exp_text 0 e' @ r) = map_sum id (\<lambda>v. (v, r)) (exp_val s e')"
    if "exp_text 0 e = c # exp_text 0 e'" "size e' < size e" "exp_ok e'" for c e'
    using reads_prim [OF assms(2) [OF that(2,3)] assms(4), of m] assms(5) n that(1) by simp
  show ?thesis
  proof (cases e)
    case (ANum k)
    obtain c cs where c: "num_text 10 k = c # cs" "c \<in> set ''0123456789''"
    proof (cases "k = 0")
      case False
      then show ?thesis using num_text_first that by blast
    qed (use that in \<open>simp add: num_text_def\<close>)
    have "strtol_text (num_text 10 k @ r) 0 = Inr (int k, r)"
      using assms(1,4) ANum by (intro strtol_num_rest) (auto simp: ends_def)
    with c ANum n show ?thesis by (auto simp: at_char_def Let_def)
  next
    case (AVar x)
    have x: "\<forall>c \<in> set x. is_name_char c" "x \<noteq> []" using assms(1) AVar by simp_all
    have r: "r = [] \<or> \<not> is_name_char (hd r)" using assms(4) by (simp add: ends_def)
    then have "takeWhile is_name_char (x @ r) = x" "dropWhile is_name_char (x @ r) = r"
      using x(1) by (cases r; simp add: takeWhile_append dropWhile_append)+
    moreover have "\<not> at_char (CHR ''{'') (x @ r)"
      using x by (cases x) (auto simp: at_char_def is_name_char_def uchar_def)
    ultimately show ?thesis using AVar n by (simp add: at_char_def arith_var_def)
  next
    case (ANeg e')
    with sub [of "CHR ''-''" e'] assms(1) n show ?thesis by (cases "exp_val s e'") (auto simp: at_char_def)
  next
    case (APos e')
    with sub [of "CHR ''+''" e'] assms(1) n show ?thesis by (simp add: at_char_def)
  next
    case (ACpl e')
    with sub [of "CHR ''~''" e'] assms(1) n show ?thesis by (cases "exp_val s e'") (simp_all add: at_char_def)
  next
    case (ANot e')
    with sub [of "CHR ''!''" e'] assms(1) n show ?thesis by (cases "exp_val s e'") (simp_all add: at_char_def)
  qed (use assms(3) in auto)
qed

abbreviation (input) bin_text :: "aop \<Rightarrow> aexp \<Rightarrow> aexp \<Rightarrow> string" where
  "bin_text opr l r \<equiv> exp_text (Suc (looseness opr)) l @ op_text opr @ exp_text (looseness opr) r"

lemma looseness_less: "looseness opr < 10"
  by (cases opr) simp_all

lemma bin_loop:
  assumes l: "folds s l" and r: "reads s r" and q: "ends (looseness opr) q" "length (bin_text opr l r @ q) < n"
  shows "at_level (arith_primary n s) (Suc (looseness opr)) (bin_text opr l r @ q) =
           then_loop (exp_val s (ABin opr l r)) (looseness opr) (arith_primary n s) q"
proof -
  let ?o = "looseness opr" let ?P = "arith_primary n s" and ?q = "op_text opr @ exp_text ?o r @ q"
  obtain c t where c: "exp_text ?o r = c # t" "starts c" using exp_text_starts by blast
  have "ends ?o ?q" using ends_op [OF c(2), of opr "t @ q"] c(1) by simp
  moreover have "length (exp_text (Suc ?o) l @ ?q) < n" using q(2) by simp
  ultimately have L: "at_level ?P (Suc ?o) (exp_text (Suc ?o) l @ ?q) = then_loop (exp_val s l) ?o ?P ?q"
    using l looseness_less unfolding folds_def by blast
  have rd: "op_at ?o ?q = Some (opr, exp_text ?o r @ q)" using op_at_op_text [OF c(2), of ?o opr "t @ q"] c(1) by simp
  have R: "at_level ?P ?o (exp_text ?o r @ q) = map_sum id (\<lambda>v. (v, q)) (exp_val s r)"
    using r looseness_less [of opr] q unfolding reads_def by simp
  have S: "sound n (at_level ?P ?o)"
    using looseness_less [of opr] by (intro at_level_sound [OF arith_primary_sound]) simp
  have F: "arith_loop (length ?q) (op_at ?o) (at_level ?P ?o) v q = arith_loop (Suc (length q)) (op_at ?o) (at_level ?P ?o) v q" for v
    using c(1) by (intro arith_loop_fuel [OF op_at_reader [OF looseness_less] S]) (cases opr; simp)+
  have "then_loop (exp_val s l) ?o ?P ?q = then_loop (exp_val s (ABin opr l r)) ?o ?P q"
  proof (cases "exp_val s l")
    case (Inr v)
    then show ?thesis using rd R F by (cases "exp_val s r") (auto simp: then_loop_def split: sum.splits)
  qed (simp add: then_loop_def)
  with L show ?thesis by simp
qed

lemma reads_bin:
  assumes ok: "exp_ok (ABin opr l r)" and l: "folds s l" and r: "reads s r"
  shows "reads s (ABin opr l r) \<and> folds s (ABin opr l r)"
proof -
  let ?e = "ABin opr l r" and ?o = "looseness opr" and ?t = "bin_text opr l r"
  note loop = bin_loop [OF l r] and o10 = looseness_less [of opr]
  have tight: "exp_text d ?e = ?t" if "?o < d" for d using that by (simp add: Let_def)
  have paren: "exp_text d ?e = CHR ''('' # ?t @ '')''" if "\<not> ?o < d" for d using that by (simp add: Let_def)
  have wide: "at_level (arith_primary n s) d (?t @ q) = map_sum id (\<lambda>v. (v, q)) (exp_val s ?e)"
    if "?o < d" "ends d q" "length (?t @ q) < n" for n d q
  proof (rule at_level_climb [OF _ Suc_leI [OF that(1)] that(2)])
    show "at_level (arith_primary n s) (Suc ?o) (?t @ q) = map_sum id (\<lambda>v. (v, q)) (exp_val s ?e)"
      using loop [OF ends_mono [OF that(2)] that(3)] then_loop_ends [OF ends_mono [OF that(2)]] that(1) by (metis Suc_leI less_imp_le)
  qed
  have prim: "arith_primary n s (CHR ''('' # ?t @ CHR '')'' # q) = map_sum id (\<lambda>v. (v, q)) (exp_val s ?e)"
    if len: "length (CHR ''('' # ?t @ CHR '')'' # q) < n" for n q
  proof -
    obtain m where n: "n = Suc m" using len by (cases n) auto
    have "arith_lor (arith_primary m s) (?t @ CHR '')'' # q) = map_sum id (\<lambda>v. (v, CHR '')'' # q)) (exp_val s ?e)"
      using wide [of 10 "CHR '')'' # q" m] ends_stop(2) [of 10 q] o10 len n by (simp add: at_level_lor)
    moreover have "skip_paren (?t @ CHR '')'' # q) 1 = q"
      using skip_paren_exp [of ?e 10 "CHR '')'' # q" 0] ok tight [of 10] o10 by simp
    ultimately show ?thesis using n by (cases "exp_val s ?e") (simp_all add: at_char_def)
  qed
  have reads: "at_level (arith_primary n s) d (exp_text d ?e @ q) = map_sum id (\<lambda>v. (v, q)) (exp_val s ?e)"
    if "ends d q" "length (exp_text d ?e @ q) < n" for n d q
  proof (cases "?o < d")
    case True
    with that show ?thesis using wide [OF True that(1)] by (simp only: tight [OF True])
  next
    case False
    have "at_level (arith_primary n s) 0 (exp_text d ?e @ q) = map_sum id (\<lambda>v. (v, q)) (exp_val s ?e)"
      using prim [of q n] that(2) unfolding paren [OF False] by simp
    from at_level_climb [OF this _ that(1)] show ?thesis by simp
  qed
  moreover have "at_level (arith_primary n s) (Suc d) (exp_text (Suc d) ?e @ q) = then_loop (exp_val s ?e) d (arith_primary n s) q"
    if q: "ends d q" "length (exp_text (Suc d) ?e @ q) < n" for n d q
  proof (cases "d = ?o")
    case True
    with q loop show ?thesis by (simp only: tight [OF lessI])
  next
    case False
    then have "exp_text (Suc d) ?e = exp_text d ?e" by (cases "?o < d") (simp_all add: Let_def)
    with q at_level_loop [OF reads [of d q n]] show ?thesis by simp
  qed
  ultimately show ?thesis unfolding reads_def folds_def by blast
qed

lemma exp_reads: "exp_ok e \<Longrightarrow> reads s e \<and> folds s e"
proof (induction "size e" arbitrary: e rule: less_induct)
  case less
  show ?case
  proof (cases "\<exists>opr l r. e = ABin opr l r")
    case True
    then obtain opr l r where e: "e = ABin opr l r" by blast
    with less have "folds s l" "reads s r" by simp_all
    with less.prems show ?thesis unfolding e by (intro reads_bin)
  next
    case False
    show ?thesis
    proof (rule reads_atom)
      show "exp_text d e = exp_text 0 e" for d using False by (cases e) auto
      show "arith_primary n s (exp_text 0 e @ r) = map_sum id (\<lambda>v. (v, r)) (exp_val s e)"
        if "ends 0 r" "length (exp_text 0 e @ r) < n" for n r
        using less False that by (intro prim_atoms) auto
    qed
  qed
qed

section \<open>Properties\<close>

lemma arith_eval_exp:
  assumes "exp_ok e" and "ends 10 r"
  shows "arith_eval (exp_text 10 e @ r) s = exp_val s e"
proof -
  have "at_level (arith_primary (Suc (length (exp_text 10 e @ r))) s) 10 (exp_text 10 e @ r) =
      map_sum id (\<lambda>v. (v, r)) (exp_val s e)"
    using exp_reads [OF assms(1), of s] assms(2) unfolding reads_def by blast
  then show ?thesis by (cases "exp_val s e") (simp_all add: arith_eval_def at_level_lor)
qed



text \<open>
  Blanks are skipped only before an operand. A blank before an operator ends the expression: whatever follows it is
  ignored, and the value is that of the part before the blank.
\<close>

theorem arith_blank_ends:
  assumes "exp_ok e"
  shows "arith_eval (exp_text 10 e @ '' '' @ r) s = exp_val s e"
  using arith_eval_exp [OF assms ends_stop(3)] by simp

theorem arith_blank_ends_witness:
  "arith_eval ''1 + 2'' (sh_boot kio_demo) = Inr 1"
proof -
  have "num_text 10 1 = ''1''" by code_simp
  then show ?thesis using arith_blank_ends [of "ANum 1" "''+ 2''" "sh_boot kio_demo"] by simp
qed

end
