(* ===== verification/Sh_Funcs.thy ===== *)
theory Sh_Funcs
  imports Sh_Store
begin

text \<open>
  The function table of \<^verbatim>\<open>src/shell/sh.c\<close> over the kernel heap: every body in the table is the text of a live
  allocation, and defining a function keeps it so.
\<close>

section \<open>Texts in the heap\<close>

abbreviation (input) chars :: "string \<Rightarrow> u8 list" where
  "chars t \<equiv> map (\<lambda>c. of_nat (of_char c)) t"

text \<open>Reading a C string at an address, up to \<open>n\<close> characters; the bodies of functions have at most 8191.\<close>

fun mem_str :: "nat \<Rightarrow> bmem \<Rightarrow> nat \<Rightarrow> string option" where
  "mem_str 0 m a = None"
| "mem_str (Suc n) m a =
     (if m a = 0 then Some [] else map_option (Cons (char_of (unat (m a)))) (mem_str n m (Suc a)))"

definition text_at :: "u64 \<Rightarrow> 'a heap_scheme \<Rightarrow> string option" where
  "text_at p s = mem_str (SH_LINE_MAX * 8) (hmem s) (unat p)"

lemma char_byte: "char_of (unat (of_nat (of_char c) :: u8)) = c"
  by (simp add: unat_of_nat)

lemma char_byte_0: "(of_nat (of_char c) :: u8) = 0 \<longleftrightarrow> c = NUL"
proof
  assume "(of_nat (of_char c) :: u8) = 0"
  then have "unat (of_nat (of_char c) :: u8) = 0" by simp
  then have "(of_char c :: nat) = of_char NUL" by (simp add: unat_of_nat)
  then show "c = NUL" by (simp only: of_char_eq_iff)
qed simp

lemma mem_str_load:
  assumes "NUL \<notin> set t" and "length t < n" and "load_bytes m a (Suc (length t)) = chars (cz t)"
  shows "mem_str n m a = Some t"
  using assms
proof (induction t arbitrary: n a)
  case Nil
  then have "load_bytes m a (Suc 0) ! 0 = 0" by (simp add: cz_def)
  then have "m a = 0" by simp
  with Nil show ?case by (cases n) auto
next
  case (Cons c t)
  then obtain k where n: "n = Suc k" "length t < k" by (cases n) auto
  have l: "load_bytes m a (Suc (length (c # t))) ! i = chars (cz (c # t)) ! i" for i using Cons.prems(3) by simp
  have "m a = of_nat (of_char c)" using l [of 0] by (simp add: cz_def)
  moreover have "load_bytes m (Suc a) (Suc (length t)) = chars (cz t)"
  proof (rule nth_equalityI)
    fix i assume "i < length (load_bytes m (Suc a) (Suc (length t)))"
    then show "load_bytes m (Suc a) (Suc (length t)) ! i = chars (cz t) ! i" using l [of "Suc i"] by (simp add: cz_def)
  qed (simp add: cz_def)
  ultimately show ?case using Cons.IH [OF _ n(2), of "Suc a"] Cons.prems(1) n(1) by (auto simp: char_byte char_byte_0)
qed

text \<open>The allocation at \<open>p\<close> holds the text \<open>t\<close> and its terminator.\<close>

definition holds_text :: "(u64 \<rightharpoonup> nat) \<Rightarrow> bmem \<Rightarrow> u64 \<Rightarrow> string \<Rightarrow> bool" where
  "holds_text L m p t \<longleftrightarrow>
     NUL \<notin> set t \<and> (\<exists>k. L p = Some k \<and> length t < k) \<and> load_bytes m (unat p) (Suc (length t)) = chars (cz t)"

lemma holds_text_keeps:
  assumes "holds_text L m p t" and "keeps L' m m'" and "L' p = L p"
  shows "holds_text L' m' p t"
proof -
  obtain k where k: "L' p = Some k" "length t < k" using assms(1,3) by (auto simp: holds_text_def)
  have "load_bytes m' (unat p) (Suc (length t)) = load_bytes m (unat p) (Suc (length t))"
    using keepsD [OF assms(2) k(1)] k(2) by (intro nth_equalityI) auto
  with assms(1) k show ?thesis by (auto simp: holds_text_def)
qed

lemma text_at_eq: "holds_text L (hmem s) p t \<Longrightarrow> length t < SH_LINE_MAX * 8 \<Longrightarrow> text_at p s = Some t"
  unfolding text_at_def holds_text_def by (blast intro: mem_str_load)

lemma strdup_spec:
  assumes h: "heap_live L s" and t: "NUL \<notin> set t" and r: "heap_room s (length t + 1)" and l: "length t < 2 ^ 63"
    and d: "strdup t s = Inr (p, s')"
  shows "p \<noteq> 0 \<and> L p = None \<and> keeps L (hmem s) (hmem s') \<and> heap.more s' = heap.more s \<and>
           (\<exists>k. heap_live (L(p \<mapsto> k)) s' \<and> holds_text (L(p \<mapsto> k)) (hmem s') p t)"
proof -
  let ?n = "of_nat (length t + 1) :: u64"
  have n: "unat ?n = length t + 1" using l by (intro unat_of_nat_small) simp
  then have n0: "?n \<noteq> 0" by (metis add_is_0 one_neq_zero unat_0)
  obtain s1 where m: "kmalloc ?n s = Inr (p, s1)" using d by (auto simp: strdup_def split: sum.splits)
  have "heap_room s (unat ?n)" using r by (simp only: n)
  from ka.malloc_ok [OF h n0 this m] n obtain k where k: "p \<noteq> 0" "L p = None" "keeps L (hmem s) (hmem s1)"
      "length t + 1 \<le> k" "heap_live (L(p \<mapsto> k)) s1" by auto
  have s': "s' = s1\<lparr>hmem := store_bytes (hmem s1) (unat p) (chars (cz t))\<rparr>"
    using d m k(1) by (simp add: strdup_def del: of_nat_add)
  have len: "length (chars (cz t)) = Suc (length t)" by (simp add: cz_def)
  have pk: "(L(p \<mapsto> k)) p = Some k" "0 + length (chars (cz t)) \<le> k" using k(4) len by simp_all
  note st = ka.store_ok [where L = "L(p \<mapsto> k)", OF k(5) pk]
  have "(L(p \<mapsto> k))(p := None) = L" using k(2) by auto
  from st(2) [unfolded this] have "keeps L (hmem s1) (hmem s')" by (simp add: s')
  moreover have "load_bytes (hmem s') (unat p) (Suc (length t)) = chars (cz t)"
    using load_store_bytes_same [of "hmem s1" "unat p" "chars (cz t)"] unfolding len s' by simp
  moreover have "heap.more s' = heap.more s" using kmalloc_more [OF m] by (simp add: s')
  ultimately show ?thesis
    using k st(1) t keeps_trans by (auto simp: holds_text_def s' intro!: exI [of _ k])
qed

section \<open>The function table\<close>

definition live_funcs :: "'a sh_scheme \<Rightarrow> ShFunc list" where
  "live_funcs s = take (sh_nfunc s) (sh_funcs s)"

definition func_key :: "ShFunc \<Rightarrow> string" where
  "func_key f = cstr (fn_name f)"

definition funcs_ok :: "(u64 \<rightharpoonup> nat) \<Rightarrow> 'a sh_scheme \<Rightarrow> bool" where
  "funcs_ok L s \<longleftrightarrow> heap_live L s \<and> length (sh_funcs s) = SH_MAX_FUNCS \<and> sh_nfunc s \<le> SH_MAX_FUNCS \<and>
     (\<forall>f \<in> set (sh_funcs s). carr SH_VAR_NAMSZ (fn_name f)) \<and>
     distinct (map func_key (live_funcs s)) \<and> distinct (map fn_body (live_funcs s)) \<and>
     (\<forall>f \<in> set (live_funcs s). \<exists>t. length t < SH_LINE_MAX * 8 \<and> holds_text L (hmem s) (fn_body f) t)"

definition func_text :: "'a sh_scheme \<Rightarrow> string \<rightharpoonup> string" where
  "func_text s = map_of (map (\<lambda>f. (func_key f, the (text_at (fn_body f) s))) (live_funcs s))"

lemma func_find_eq:
  assumes "funcs_ok L s" and "NUL \<notin> set name"
  shows "func_find name s = Inr (find_idx (\<lambda>f. func_key f = name) (live_funcs s))"
proof -
  have "\<forall>a \<in> set (map fn_name (live_funcs s)). carr SH_VAR_NAMSZ a"
    using assms(1) by (auto simp: funcs_ok_def live_funcs_def dest: in_set_takeD)
  from scan_names_eq_0 [OF this assms(2)] show ?thesis
    unfolding func_find_def live_funcs_def [symmetric] by (simp add: find_idx_map func_key_def)
qed

lemma heap_more_funcs: "heap.more s' = heap.more s \<Longrightarrow> sh_funcs s' = sh_funcs s \<and> sh_nfunc s' = sh_nfunc (s :: 'a sh_scheme)"
  by (cases s; cases s') simp

lemma heap_live_funcs [simp]: "heap_live L (s\<lparr>sh_funcs := fs\<rparr>) = heap_live L s" "heap_live L (s\<lparr>sh_nfunc := n\<rparr>) = heap_live L s"
  by (simp_all add: heap_live_def heap_ok_def heap_core_def)

lemma kfree_live:
  assumes "heap_live L s" and "p = 0 \<or> (\<exists>k. L p = Some k)"
  shows "\<exists>s'. kfree p s = Inr s' \<and> heap_live (L(p := None)) s' \<and> keeps (L(p := None)) (hmem s) (hmem s') \<and>
           heap_end s' = heap_end s \<and> heap.more s' = heap.more s"
proof (cases "p = 0")
  case True
  with live_0 [OF assms(1)] assms(1) show ?thesis by (simp add: kfree_def fun_upd_idem)
next
  case False
  with assms obtain B k where B: "heap_ok B s" "L = live B" "live B p = Some k" by (auto simp: heap_live_def)
  from kfree_spec [OF B(1,3)] obtain B' s' where "kfree p s = Inr s'" "heap_ok B' s'" "live B' = (live B)(p := None)"
      "keeps (live B') (hmem s) (hmem s')" "heap_end s' = heap_end s" by metis
  with B(2) kfree_more show ?thesis by (auto simp: heap_live_def)
qed

lemma func_store_spec:
  assumes h: "heap_live L s" and f: "fn_body f = 0 \<or> (\<exists>k. L (fn_body f) = Some k)"
    and t: "NUL \<notin> set body" "length body < SH_LINE_MAX * 8" "heap_room s (length body + 1)"
  shows "case func_store i f body s of
           Inl e \<Rightarrow> e \<noteq> Diverges
         | Inr s' \<Rightarrow> (\<exists>p k. sh_funcs s' = (sh_funcs s)[i := f\<lparr>fn_body := p\<rparr>] \<and> sh_nfunc s' = sh_nfunc s \<and>
             (L(fn_body f := None)) p = None \<and> keeps (L(fn_body f := None)) (hmem s) (hmem s') \<and>
             heap_live ((L(fn_body f := None))(p \<mapsto> k)) s' \<and> holds_text ((L(fn_body f := None))(p \<mapsto> k)) (hmem s') p body)"
proof -
  let ?L = "L(fn_body f := None)"
  obtain s1 where s1: "kfree (fn_body f) s = Inr s1" "heap_live ?L s1" "keeps ?L (hmem s) (hmem s1)"
      "heap_end s1 = heap_end s" "heap.more s1 = heap.more s" using kfree_live [OF h f] by blast
  have room: "heap_room s1 (length body + 1)" using t(3) s1(4) by (simp add: heap_room_def)
  have len: "length body < 2 ^ 63" using t(2) by simp
  show ?thesis
  proof (cases "strdup body s1")
    case (Inl e)
    have n: "unat (of_nat (length body + 1) :: u64) = length body + 1" using len by (intro unat_of_nat_small) simp
    then have "(of_nat (length body + 1) :: u64) \<noteq> 0" by (metis add_is_0 one_neq_zero unat_0)
    with ka.malloc_err [OF s1(2), of "of_nat (length body + 1)" e] Inl room s1(1) n show ?thesis
      by (auto simp: func_store_def strdup_def split: sum.splits)
  next
    case (Inr ps)
    obtain p s2 where d: "strdup body s1 = Inr (p, s2)" using Inr by (cases ps) auto
    from strdup_spec [OF s1(2) t(1) room len d] obtain k where k: "?L p = None" "keeps ?L (hmem s1) (hmem s2)"
        "heap.more s2 = heap.more s1" "heap_live (?L(p \<mapsto> k)) s2" "holds_text (?L(p \<mapsto> k)) (hmem s2) p body" by blast
    have fs: "sh_funcs s2 = sh_funcs s" "sh_nfunc s2 = sh_nfunc s"
      using heap_more_funcs [OF k(3)] heap_more_funcs [OF s1(5)] by simp_all
    have "func_store i f body s = Inr (s2\<lparr>sh_funcs := (sh_funcs s)[i := f\<lparr>fn_body := p\<rparr>]\<rparr>)"
      using s1(1) d fs by (simp add: func_store_def)
    then show ?thesis using k fs keeps_trans [OF s1(3) k(2)] by (simp del: fun_upd_apply) blast
  qed
qed

text \<open>The table after an entry was replaced or added: \<open>i\<close> is its place among the live entries.\<close>

lemma funcs_ok_put:
  fixes s s' :: "'a sh_scheme"
  assumes ok: "funcs_ok L s" and g: "carr SH_VAR_NAMSZ (fn_name g)" "func_key g = name" "length body < SH_LINE_MAX * 8"
    and fs: "length (sh_funcs s') = SH_MAX_FUNCS" "sh_nfunc s' \<le> SH_MAX_FUNCS" "set (sh_funcs s') \<subseteq> insert g (set (sh_funcs s))"
    and lf: "set (live_funcs s') = insert g {f \<in> set (live_funcs s). func_key f \<noteq> name}"
      "distinct (map func_key (live_funcs s'))" "distinct (map fn_body (live_funcs s'))"
    and L: "\<forall>f \<in> set (live_funcs s). func_key f \<noteq> name \<longrightarrow> L0 (fn_body f) = L (fn_body f)" "L0 (fn_body g) = None"
      "keeps L0 (hmem s) (hmem s')" "heap_live (L0(fn_body g \<mapsto> k)) s'" "holds_text (L0(fn_body g \<mapsto> k)) (hmem s') (fn_body g) body"
  shows "funcs_ok (L0(fn_body g \<mapsto> k)) s' \<and> func_text s' = (func_text s)(name \<mapsto> body)"
proof -
  have old: "\<exists>t. length t < SH_LINE_MAX * 8 \<and> holds_text (L0(fn_body g \<mapsto> k)) (hmem s') (fn_body f) t \<and>
      text_at (fn_body f) s = Some t \<and> text_at (fn_body f) s' = Some t"
    if f: "f \<in> set (live_funcs s)" "func_key f \<noteq> name" for f
  proof -
    obtain t where t: "length t < SH_LINE_MAX * 8" "holds_text L (hmem s) (fn_body f) t" using ok f(1) by (auto simp: funcs_ok_def)
    have "L0 (fn_body f) = L (fn_body f)" using L(1) f by blast
    then have "holds_text L0 (hmem s') (fn_body f) t" using holds_text_keeps [OF t(2) L(3)] by simp
    moreover from this L(2) have "fn_body f \<noteq> fn_body g" by (auto simp: holds_text_def)
    ultimately have "holds_text (L0(fn_body g \<mapsto> k)) (hmem s') (fn_body f) t" by (simp add: holds_text_def)
    with t text_at_eq [OF t(2,1)] text_at_eq [OF this t(1)] show ?thesis by blast
  qed
  have "funcs_ok (L0(fn_body g \<mapsto> k)) s'"
    using ok g fs lf old L(4,5) unfolding funcs_ok_def by (simp del: fun_upd_apply) blast
  moreover have "func_text s' x = ((func_text s)(name \<mapsto> body)) x" for x
  proof -
    have mem: "func_text u x = Some v \<longleftrightarrow> (\<exists>f \<in> set (live_funcs u). x = func_key f \<and> v = the (text_at (fn_body f) u))"
      if "distinct (map func_key (live_funcs u))" for u :: "'a sh_scheme" and v
      using that map_of_eq_Some_iff [of "map (\<lambda>f. (func_key f, the (text_at (fn_body f) u))) (live_funcs u)" x v]
      by (auto simp: func_text_def o_def)
    have ds: "distinct (map func_key (live_funcs s))" using ok by (simp add: funcs_ok_def)
    have new: "text_at (fn_body g) s' = Some body" using L(5) g(3) by (rule text_at_eq)
    have "func_text s' x = Some v \<longleftrightarrow> ((func_text s)(name \<mapsto> body)) x = Some v" for v
    proof (cases "x = name")
      case True
      then show ?thesis unfolding mem [OF lf(2)] lf(1) using g(2) new by auto
    next
      case False
      have "(\<exists>f \<in> set (live_funcs s'). x = func_key f \<and> v = the (text_at (fn_body f) s')) \<longleftrightarrow>
          (\<exists>f \<in> set (live_funcs s). x = func_key f \<and> v = the (text_at (fn_body f) s))"
        unfolding lf(1) using False g(2) old by fastforce
      with False show ?thesis by (simp add: mem [OF lf(2)] mem [OF ds])
    qed
    then show ?thesis by (metis not_Some_eq)
  qed
  ultimately show ?thesis by blast
qed

lemma func_set_spec:
  assumes ok: "funcs_ok L s" and nm: "NUL \<notin> set name" "length name < SH_VAR_NAMSZ"
    and bd: "NUL \<notin> set body" "length body < SH_LINE_MAX * 8" "heap_room s (length body + 1)"
  shows "case func_set name body s of
           Inl e \<Rightarrow> e \<noteq> Diverges
         | Inr s' \<Rightarrow> if name \<notin> dom (func_text s) \<and> sh_nfunc s = SH_MAX_FUNCS then s' = s
                    else (\<exists>L'. funcs_ok L' s') \<and> func_text s' = (func_text s)(name \<mapsto> body)"
proof (cases "find_idx (\<lambda>f. func_key f = name) (live_funcs s)")
  case (Some i)
  let ?f = "sh_funcs s ! i" let ?ls = "live_funcs s"
  have i: "i < length ?ls" and key: "func_key (?ls ! i) = name" using find_idx_SomeD [OF Some] by auto
  have li: "?ls ! i = ?f" "i < length (sh_funcs s)" using i by (simp_all add: live_funcs_def)
  have dom: "name \<in> dom (func_text s)"
    using i key by (auto simp: func_text_def dom_map_of_conv_image_fst image_image)
  have f: "?f \<in> set ?ls" using i li(1) by (metis nth_mem)
  have d: "distinct (map func_key ?ls)" "distinct (map fn_body ?ls)" using ok by (auto simp: funcs_ok_def)
  have set: "func_set name body s = func_store i ?f body s" using func_find_eq [OF ok nm(1)] Some by (simp add: func_set_def)
  have h: "heap_live L s" "\<exists>k. L (fn_body ?f) = Some k" using ok f by (auto simp: funcs_ok_def holds_text_def)
  let ?L0 = "L(fn_body ?f := None)"
  show ?thesis
  proof (cases "func_store i ?f body s")
    case (Inl e)
    with func_store_spec [OF h(1) disjI2 [OF h(2)] bd, of i] set show ?thesis by simp
  next
    case (Inr s')
    with func_store_spec [OF h(1) disjI2 [OF h(2)] bd, of i] obtain p k where
      s': "sh_funcs s' = (sh_funcs s)[i := ?f\<lparr>fn_body := p\<rparr>]" "sh_nfunc s' = sh_nfunc s" "?L0 p = None"
        "keeps ?L0 (hmem s) (hmem s')" "heap_live (?L0(p \<mapsto> k)) s'" "holds_text (?L0(p \<mapsto> k)) (hmem s') p body" by auto
    let ?g = "?f\<lparr>fn_body := p\<rparr>"
    have ls': "live_funcs s' = ?ls[i := ?g]" by (simp add: live_funcs_def s'(1,2) take_update_swap)
    have gk: "func_key ?g = name" using key li(1) by (simp add: func_key_def)
    have inj: "func_key x = name \<longleftrightarrow> x = ?f" "fn_body x = fn_body ?f \<longleftrightarrow> x = ?f" if "x \<in> set ?ls" for x
      using d that f key li(1) by (auto simp: distinct_map inj_on_def)
    have s1: "set (live_funcs s') = insert ?g {x \<in> set ?ls. func_key x \<noteq> name}"
      using inj set_update_distinct [of ?ls i ?g] d(1) i li(1) by (auto simp: ls' distinct_map)
    have s2: "distinct (map func_key (live_funcs s'))"
      using d(1) gk key i unfolding ls' map_update by (metis length_map list_update_id nth_map)
    have "p \<noteq> fn_body x" if "x \<in> set ?ls" "x \<noteq> ?f" for x
      using that inj(2) s'(3) ok by (fastforce simp: funcs_ok_def holds_text_def)
    then have s3: "distinct (map fn_body (live_funcs s'))"
      using d(2) i li(1) inj unfolding ls' map_update
      by (intro distinct_list_update) (auto simp: distinct_map)
    have g: "carr SH_VAR_NAMSZ (fn_name ?g)" using ok li(2) by (auto simp: funcs_ok_def)
    have n: "length (sh_funcs s') = SH_MAX_FUNCS" "sh_nfunc s' \<le> SH_MAX_FUNCS" "set (sh_funcs s') \<subseteq> insert ?g (set (sh_funcs s))"
      using ok s'(2) by (simp_all add: s'(1) funcs_ok_def set_update_subset_insert)
    have same: "\<forall>x \<in> set ?ls. func_key x \<noteq> name \<longrightarrow> ?L0 (fn_body x) = L (fn_body x)" using inj by auto
    from funcs_ok_put [where g = ?g and ?L0.0 = ?L0, OF ok g gk bd(2) n s1 s2 s3 same] s'(3-6)
    have "funcs_ok (?L0(p \<mapsto> k)) s' \<and> func_text s' = (func_text s)(name \<mapsto> body)" by (simp del: fun_upd_apply)
    then show ?thesis using Inr set dom by (auto simp del: fun_upd_apply)
  qed
next
  case None
  let ?ls = "live_funcs s" let ?i = "sh_nfunc s" let ?f = "sh_funcs s ! ?i"
  have find: "func_find name s = Inr None" using func_find_eq [OF ok nm(1)] None by simp
  have new: "\<forall>x \<in> set ?ls. func_key x \<noteq> name" using None by (auto simp: find_idx_None_iff)
  then have dom: "name \<notin> dom (func_text s)" by (auto simp: func_text_def dom_map_of_conv_image_fst)
  show ?thesis
  proof (cases "?i \<ge> SH_MAX_FUNCS")
    case True
    with ok find dom show ?thesis by (simp add: func_set_def funcs_ok_def)
  next
    case False
    have len: "?i < length (sh_funcs s)" using False ok by (simp add: funcs_ok_def)
    then have "?f \<in> set (sh_funcs s)" by simp
    with ok have c: "carr SH_VAR_NAMSZ (fn_name ?f)" by (auto simp: funcs_ok_def)
    obtain b where b: "strncpy (fn_name ?f) (cz name) 63 = Some b" "carr SH_VAR_NAMSZ b" "cstr b = take 63 name"
      using strncpy_carr [of 63 "fn_name ?f" name] c nm(1) by auto
    let ?u = "?f\<lparr>fn_name := b, fn_body := 0\<rparr>" let ?s = "s\<lparr>sh_nfunc := Suc ?i\<rparr>"
    have set: "func_set name body s = func_store ?i ?u body ?s" using find False b(1) by (simp add: func_set_def Let_def)
    have h: "heap_live L ?s" "heap_room ?s (length body + 1)" using ok bd(3) by (simp_all add: funcs_ok_def heap_room_def)
    have L0: "L(0 := None) = L" using live_0 [OF h(1)] by (simp add: fun_upd_idem)
    note st = func_store_spec [OF h(1) _ bd(1,2) h(2), of ?u ?i]
    show ?thesis
    proof (cases "func_store ?i ?u body ?s")
      case (Inl e)
      with st set show ?thesis by simp
    next
      case (Inr s')
      with st obtain p k where
        s': "sh_funcs s' = (sh_funcs s)[?i := ?u\<lparr>fn_body := p\<rparr>]" "sh_nfunc s' = Suc ?i" "L p = None"
          "keeps L (hmem s) (hmem s')" "heap_live (L(p \<mapsto> k)) s'" "holds_text (L(p \<mapsto> k)) (hmem s') p body" by (auto simp: L0 simp del: fun_upd_apply)
      let ?g = "?u\<lparr>fn_body := p\<rparr>"
      have ls': "live_funcs s' = ?ls @ [?g]"
        using len by (simp add: live_funcs_def s'(1,2) take_Suc_conv_app_nth)
      have gk: "func_key ?g = name" using nm(2) b(3) by (simp add: func_key_def)
      have d: "distinct (map func_key ?ls)" "distinct (map fn_body ?ls)" using ok by (auto simp: funcs_ok_def)
      have n: "length (sh_funcs s') = SH_MAX_FUNCS" "sh_nfunc s' \<le> SH_MAX_FUNCS" "set (sh_funcs s') \<subseteq> insert ?g (set (sh_funcs s))"
        using ok s'(2) False by (simp_all add: s'(1) funcs_ok_def set_update_subset_insert)
      have s1: "set (live_funcs s') = insert ?g {x \<in> set ?ls. func_key x \<noteq> name}" using new by (auto simp: ls')
      have s2: "distinct (map func_key (live_funcs s'))" using d(1) new gk by (auto simp: ls')
      have "p \<noteq> fn_body x" if "x \<in> set ?ls" for x using that s'(3) ok by (fastforce simp: funcs_ok_def holds_text_def)
      then have s3: "distinct (map fn_body (live_funcs s'))" using d(2) by (auto simp: ls')
      have g: "carr SH_VAR_NAMSZ (fn_name ?g)" using b(2) by simp
      from funcs_ok_put [where g = ?g and ?L0.0 = L, OF ok g gk bd(2) n s1 s2 s3] s'(3-6)
      have "funcs_ok (L(p \<mapsto> k)) s' \<and> func_text s' = (func_text s)(name \<mapsto> body)" by (simp del: fun_upd_apply)
      then show ?thesis using Inr set False by (auto simp del: fun_upd_apply)
    qed
  qed
qed

section \<open>Properties\<close>

lemma sh_boot_funcs: "heap_live L k \<Longrightarrow> funcs_ok L (sh_boot k)" "func_text (sh_boot k) = Map.empty"
proof -
  assume "heap_live L k"
  then have "heap_live L (sh_boot k)" by (simp add: heap_live_def heap_ok_def heap_core_def sh_boot_defs)
  then show "funcs_ok L (sh_boot k)"
    by (simp add: funcs_ok_def live_funcs_def) (simp add: sh_boot_defs func_zero_def carr_replicate)
qed (simp add: func_text_def live_funcs_def sh_boot_defs)


definition kio_heap :: kio where
  "kio_heap = kio_demo\<lparr>hmem := hmem heap_demo, free_list := free_list heap_demo, heap_end := heap_end heap_demo\<rparr>"

lemma kio_heap_ok: "heap_ok demo_blocks (sh_boot kio_heap)" "heap_end (sh_boot kio_heap) = 0x11000"
  using heap_demo_ok heap_demo_end by (simp_all add: heap_ok_def heap_core_def kio_heap_def sh_boot_defs)


end
