(* ===== verification/Sh_Expand.thy ===== *)
theory Sh_Expand
  imports Sh_Arith Sh_Funcs
begin

text \<open>
  \<^verbatim>\<open>src/shell/sh.c\<close>, word expansion and the tokenizer. Both run commands (command substitution), so they take the
  executor \<^verbatim>\<open>sh_exec\<close> as an argument; the theory of the executor passes it. \<^verbatim>\<open>expand_word\<close> writes its output array only
  when it produces a character: an empty result leaves the caller's array unwritten, and reading it then is \<open>Uninit\<close>.
\<close>

type_synonym 'a exec = "string \<Rightarrow> 'a sh_scheme \<Rightarrow> (int \<times> 'a sh_scheme) res"

section \<open>Capturing output\<close>

fun static_buf :: "obuf \<Rightarrow> 'a sh_scheme \<Rightarrow> string" where
  "static_buf SubstBuf s = st_subst s"
| "static_buf TickBuf s = st_tick s"
| "static_buf RedirBuf s = st_redir s"
| "static_buf PipeBuf s = st_pipe s"

fun set_static :: "obuf \<Rightarrow> string \<Rightarrow> 'a sh_scheme \<Rightarrow> 'a sh_scheme" where
  "set_static SubstBuf x s = s\<lparr>st_subst := x\<rparr>"
| "set_static TickBuf x s = s\<lparr>st_tick := x\<rparr>"
| "set_static RedirBuf x s = s\<lparr>st_redir := x\<rparr>"
| "set_static PipeBuf x s = s\<lparr>st_pipe := x\<rparr>"

text \<open>The array \<^verbatim>\<open>kout_buf\<close> points to holds what was printed; \<open>buf_sync\<close> stores it back under its name.\<close>

definition buf_sync :: "'a sh_scheme \<Rightarrow> 'a sh_scheme" where
  "buf_sync s = (case (kout_dst s, kout_buf s) of (Some b, Some x) \<Rightarrow> set_static b x s | _ \<Rightarrow> s)"

definition sh_redirect :: "obuf \<Rightarrow> 'a sh_scheme \<Rightarrow> 'a sh_scheme" where
  "sh_redirect b s = (let s1 = buf_sync s in (kout_redirect (static_buf b s1) (of_nat SH_PIPE_BUF) s1)\<lparr>kout_dst := Some b\<rparr>)"

definition sh_reset :: "'a sh_scheme \<Rightarrow> 'a sh_scheme" where
  "sh_reset s = (kout_reset (buf_sync s))\<lparr>kout_dst := None\<rparr>"

text \<open>\<^verbatim>\<open>kout_redirect(buf, sizeof(buf)); sh_exec(cmd); kout_reset();\<close>\<close>

definition sh_capture :: "'a exec \<Rightarrow> obuf \<Rightarrow> string \<Rightarrow> 'a sh_scheme \<Rightarrow> (int \<times> 'a sh_scheme) res" where
  "sh_capture exec b cmd s =
     (case exec cmd (sh_redirect b s) of Inl e \<Rightarrow> Inl e | Inr (r, s1) \<Rightarrow> Inr (r, sh_reset s1))"

text \<open>Strip trailing newlines, in the array.\<close>

definition strip_newlines :: "string \<Rightarrow> string res" where
  "strip_newlines a =
     (case strlen a of
        None \<Rightarrow> Inl OutOfBounds
      | Some n \<Rightarrow>
          let t = rev (dropWhile (\<lambda>c. c = CHR 0x0A \<or> c = CHR 0x0D) (rev (take n a)))
          in Inr (t @ replicate (n - length t) NUL @ drop n a))"

definition substitute :: "'a exec \<Rightarrow> obuf \<Rightarrow> string \<Rightarrow> 'a sh_scheme \<Rightarrow> (string \<times> 'a sh_scheme) res" where
  "substitute exec b cmd s =
     (case sh_capture exec b cmd s of
        Inl e \<Rightarrow> Inl e
      | Inr (_, s1) \<Rightarrow>
          (case strip_newlines (static_buf b s1) of
             Inl e \<Rightarrow> Inl e
           | Inr a \<Rightarrow> Inr (cstr a, set_static b a s1)))"

section \<open>Output of the expansion\<close>

text \<open>\<^verbatim>\<open>OUT(c)\<close> and \<^verbatim>\<open>OUTS(s)\<close>: \<open>out\<close> is what \<^verbatim>\<open>dst\<close> holds so far, \<open>sz\<close> its size.\<close>

definition OUTS :: "nat \<Rightarrow> string \<Rightarrow> string \<Rightarrow> string" where
  "OUTS sz out t = out @ take (sz - 1 - length out) t"

abbreviation OUT :: "nat \<Rightarrow> string \<Rightarrow> char \<Rightarrow> string" where
  "OUT sz out c \<equiv> OUTS sz out [c]"

text \<open>The caller reads \<^verbatim>\<open>dst\<close>.\<close>

definition dst_text :: "string \<Rightarrow> string res" where
  "dst_text out = (if out = [] then Inl Uninit else Inr out)"

text \<open>A number printed into a small array.\<close>

definition num_str :: "u64 \<Rightarrow> string \<Rightarrow> u64 \<Rightarrow> 'a sh_scheme \<Rightarrow> string res" where
  "num_str sz fmt v s = (case ksprintf sz fmt [Num v] s of Inl e \<Rightarrow> Inl e | Inr (_, t, _) \<Rightarrow> Inr (cstr t))"

section \<open>Dollar expansions\<close>

type_synonym 'a expansion = "(string \<times> string \<times> 'a sh_scheme) res"

text \<open>\<^verbatim>\<open>$((expr))\<close>; \<open>start\<close> is the text behind the parentheses.\<close>

definition expand_arith :: "nat \<Rightarrow> string \<Rightarrow> string \<Rightarrow> 'a sh_scheme \<Rightarrow> 'a expansion" where
  "expand_arith sz start out s =
     (let rest = skip_paren start 2; used = length start - length rest
      in if used < 2 then Inl OutOfBounds
         else case arith_eval (take (min (used - 2) (SH_ARITH_MAX - 1)) start) s of
                Inl e \<Rightarrow> Inl e
              | Inr v \<Rightarrow>
                  (case num_str 32 ''%lld'' (word_of_int v) s of
                     Inl e \<Rightarrow> Inl e
                   | Inr t \<Rightarrow> Inr (rest, OUTS sz out t, s)))"

text \<open>\<^verbatim>\<open>$(cmd)\<close>\<close>

definition expand_command :: "'a exec \<Rightarrow> nat \<Rightarrow> string \<Rightarrow> string \<Rightarrow> 'a sh_scheme \<Rightarrow> 'a expansion" where
  "expand_command exec sz start out s =
     (let rest = skip_paren start 1; used = length start - length rest
      in if used < 1 then Inl OutOfBounds
         else case substitute exec SubstBuf (take (min (used - 1) (SH_LINE_MAX - 1)) start) s of
                Inl e \<Rightarrow> Inl e
              | Inr (t, s1) \<Rightarrow> Inr (rest, OUTS sz out t, s1))"

text \<open>\<^verbatim>\<open>${...}\<close>; \<open>self\<close> expands the default value.\<close>

definition expand_brace ::
  "(string \<Rightarrow> 'a sh_scheme \<Rightarrow> (string \<times> 'a sh_scheme) res) \<Rightarrow> nat \<Rightarrow> string \<Rightarrow> string \<Rightarrow> 'a sh_scheme \<Rightarrow> 'a expansion" where
  "expand_brace self sz src out s =
     (let name = take (SH_VAR_NAMSZ - 1) (takeWhile (\<lambda>c. c \<noteq> CHR ''}'' \<and> c \<noteq> CHR '':'' \<and> c \<noteq> CHR ''#'') src);
          p = drop (length name) src;
          behind = (\<lambda>q. tl (dropWhile (\<lambda>c. c \<noteq> CHR ''}'') q))
      in case var_get name s of
           Inl e \<Rightarrow> Inl e
         | Inr v \<Rightarrow>
             if at_char (CHR ''#'') p then
               (case num_str 16 ''%u'' (of_nat (case v of None \<Rightarrow> 0 | Some t \<Rightarrow> length t)) s of
                  Inl e \<Rightarrow> Inl e
                | Inr t \<Rightarrow> Inr (behind (tl p), OUTS sz out t, s))
             else if at_char (CHR '':'') p \<and> at_char (CHR ''-'') (tl p) then
               (let start = drop 2 p
                in case v of
                     Some (c # t) \<Rightarrow> Inr (behind start, OUTS sz out (c # t), s)
                   | _ \<Rightarrow>
                       (case self (take (SH_VAR_VALSZ - 1) (takeWhile (\<lambda>c. c \<noteq> CHR ''}'') start)) s of
                          Inl e \<Rightarrow> Inl e
                        | Inr (d, s1) \<Rightarrow>
                            (case dst_text d of Inl e \<Rightarrow> Inl e | Inr t \<Rightarrow> Inr (behind start, OUTS sz out t, s1))))
             else Inr (if at_char (CHR ''}'') p then tl p else p, (case v of None \<Rightarrow> out | Some t \<Rightarrow> OUTS sz out t), s))"

text \<open>\<^verbatim>\<open>$*\<close> and \<^verbatim>\<open>$@\<close>: the positional parameters, with blanks between them.\<close>

definition param :: "nat \<Rightarrow> 'a sh_scheme \<Rightarrow> string res" where
  "param i s =
     (if i < length (sh_argv s) then case sh_argv s ! i of None \<Rightarrow> Inl NullDeref | Some t \<Rightarrow> Inr t
      else Inl OutOfBounds)"

fun expand_params :: "nat \<Rightarrow> nat \<Rightarrow> nat \<Rightarrow> string \<Rightarrow> 'a sh_scheme \<Rightarrow> string res" where
  "expand_params 0 i sz out s = Inr out"
| "expand_params (Suc k) i sz out s =
     (case param i s of
        Inl e \<Rightarrow> Inl e
      | Inr t \<Rightarrow> expand_params k (Suc i) sz (OUTS sz (if i = 0 then out else OUT sz out (CHR '' '')) t) s)"

definition expand_dollar ::
  "'a exec \<Rightarrow> (string \<Rightarrow> 'a sh_scheme \<Rightarrow> (string \<times> 'a sh_scheme) res) \<Rightarrow> nat \<Rightarrow> string \<Rightarrow> string \<Rightarrow> 'a sh_scheme \<Rightarrow> 'a expansion" where
  "expand_dollar exec self sz src out s =
     (let q = tl src; emit = (\<lambda>x. case x of Inl e \<Rightarrow> Inl e | Inr t \<Rightarrow> Inr (q, OUTS sz out t, s))
      in if at_char (CHR ''('') src then
           (if at_char (CHR ''('') q then expand_arith sz (tl q) out s else expand_command exec sz q out s)
         else if at_char (CHR ''{'') src then expand_brace self sz q out s
         else if at_char (CHR ''?'') src then emit (num_str 16 ''%d'' (word_of_int (sh_last_status s)) s)
         else if at_char (CHR ''#'') src then emit (num_str 16 ''%d'' (word_of_int (sh_argc s)) s)
         else if at_char (CHR ''$'') src then emit (Inr ''1'')
         else if at_char (CHR ''*'') src \<or> at_char (CHR ''@'') src then
           (case expand_params (nat (sh_argc s)) 0 sz out s of Inl e \<Rightarrow> Inl e | Inr o1 \<Rightarrow> Inr (q, o1, s))
         else if at_char (CHR ''0'') src then emit (Inr (sh_script_name s))
         else if src \<noteq> [] \<and> hd src \<in> set ''123456789'' then
           (let idx = uchar (hd src) - uchar (CHR ''0'')
            in if idx \<le> sh_argc s then emit (param (nat (idx - 1)) s) else Inr (q, out, s))
         else if take 6 src = ''RANDOM'' then
           (case num_str 16 ''%llu'' (timer_ticks (cpu_st s) mod 32768) s of
              Inl e \<Rightarrow> Inl e
            | Inr t \<Rightarrow> Inr (drop 6 src, OUTS sz out t, s))
         else
           (let name = take (SH_VAR_NAMSZ - 1) (takeWhile is_name_char src)
            in case var_get name s of
                 Inl e \<Rightarrow> Inl e
               | Inr v \<Rightarrow> Inr (drop (length name) src, (case v of None \<Rightarrow> out | Some t \<Rightarrow> OUTS sz out t), s)))"

text \<open>\<^verbatim>\<open>`cmd`\<close>\<close>

definition expand_backtick :: "'a exec \<Rightarrow> nat \<Rightarrow> string \<Rightarrow> string \<Rightarrow> 'a sh_scheme \<Rightarrow> 'a expansion" where
  "expand_backtick exec sz src out s =
     (case substitute exec TickBuf (take (SH_LINE_MAX - 1) (takeWhile (\<lambda>c. c \<noteq> CHR ''`'') src)) s of
        Inl e \<Rightarrow> Inl e
      | Inr (t, s1) \<Rightarrow> Inr (tl (dropWhile (\<lambda>c. c \<noteq> CHR ''`'') src), OUTS sz out t, s1))"

section \<open>Words\<close>

text \<open>
  The text between double quotes up to the closing quote or the first expansion. The result is the output, the rest
  of the text, and whether an expansion stands there; the code jumps out of the quotes then and does not come back.
\<close>

fun quoted_part :: "nat \<Rightarrow> string \<Rightarrow> string \<Rightarrow> string \<times> string \<times> bool" where
  "quoted_part sz [] out = (out, [], False)"
| "quoted_part sz (c # q) out =
     (if c = CHR 0x22 then (out, q, False)
      else if c = CHR 0x5C \<and> q \<noteq> [] \<and> hd q \<in> {CHR 0x22, CHR 0x5C, CHR ''$'', CHR ''`''}
      then quoted_part sz (tl q) (OUT sz out (hd q))
      else if c = CHR ''$'' \<or> c = CHR ''`'' then (out, c # q, True)
      else quoted_part sz q (OUT sz out c))"

text \<open>The label \<^verbatim>\<open>handle_special\<close>.\<close>

definition expand_special ::
  "'a exec \<Rightarrow> (string \<Rightarrow> 'a sh_scheme \<Rightarrow> (string \<times> 'a sh_scheme) res) \<Rightarrow> nat \<Rightarrow> string \<Rightarrow> string \<Rightarrow> 'a sh_scheme \<Rightarrow> 'a expansion" where
  "expand_special exec self sz src out s =
     (if at_char (CHR ''$'') src then expand_dollar exec self sz (tl src) out s
      else if at_char (CHR ''`'') src then expand_backtick exec sz (tl src) out s
      else Inr (tl src, OUTS sz out (take 1 src), s))"

fun expand_loop :: "nat \<Rightarrow> 'a exec \<Rightarrow> nat \<Rightarrow> string \<Rightarrow> string \<Rightarrow> 'a sh_scheme \<Rightarrow> (string \<times> 'a sh_scheme) res" where
  "expand_loop 0 exec sz src out s = Inl Diverges"
| "expand_loop (Suc n) exec sz src out s =
     (let special = (\<lambda>p o1.
            case expand_special exec (\<lambda>d. expand_loop n exec SH_VAR_VALSZ d []) sz p o1 s of
              Inl e \<Rightarrow> Inl e
            | Inr (p2, o2, s2) \<Rightarrow> expand_loop n exec sz p2 o2 s2)
      in case src of
           [] \<Rightarrow> Inr (out, s)
         | c # q \<Rightarrow>
             if \<not> length out + 1 < sz then Inr (out, s)
             else if c = CHR 0x5C then expand_loop n exec sz (tl q) (OUTS sz out (take 1 q)) s
             else if c = CHR 0x27 then
               expand_loop n exec sz (tl (dropWhile (\<lambda>c. c \<noteq> CHR 0x27) q)) (OUTS sz out (takeWhile (\<lambda>c. c \<noteq> CHR 0x27) q)) s
             else if c = CHR 0x22 then
               (case quoted_part sz q out of
                  (o1, p1, True) \<Rightarrow> special p1 o1
                | (o1, p1, False) \<Rightarrow> expand_loop n exec sz p1 o1 s)
             else special src out)"

definition expand_word :: "'a exec \<Rightarrow> string \<Rightarrow> nat \<Rightarrow> 'a sh_scheme \<Rightarrow> (string \<times> 'a sh_scheme) res" where
  "expand_word exec src sz s = expand_loop (Suc (length src)) exec sz src [] s"

section \<open>Tokens\<close>

text \<open>The characters that end a token.\<close>

definition token_end :: "char \<Rightarrow> bool" where
  "token_end c \<longleftrightarrow> c = CHR '' '' \<or> c = CHR 0x09 \<or> c = CHR 0x0A \<or> c = CHR '';'' \<or> c = CHR ''#''"

text \<open>The text up to the closing double quote, with its escapes.\<close>

fun dq_content :: "string \<Rightarrow> string" where
  "dq_content (c # d # p) =
     (if c = CHR 0x5C then c # d # dq_content p
      else if c = CHR 0x22 then [] else c # dq_content (d # p))"
| "dq_content [c] = (if c = CHR 0x22 then [] else [c])"
| "dq_content [] = []"

text \<open>The piece that starts with a dollar sign or a backtick.\<close>

definition dollar_piece :: "string \<Rightarrow> string" where
  "dollar_piece p =
     (if at_char (CHR ''$'') p then
        (let q = tl p
         in if at_char (CHR ''('') q then take (length p - length (skip_paren (tl q) 1)) p
            else if at_char (CHR ''{'') q
            then take (length p - length (tl (dropWhile (\<lambda>c. c \<noteq> CHR ''}'') (tl q)))) p
            else CHR ''$'' # takeWhile (\<lambda>c. is_name_char c \<or> c \<in> set ''?#*@$'') q)
      else take (length p - length (tl (dropWhile (\<lambda>c. c \<noteq> CHR ''`'') (tl p)))) p)"

text \<open>An expanded piece goes into the buffer when it fits as a whole.\<close>

definition add_piece :: "'a exec \<Rightarrow> nat \<Rightarrow> string \<Rightarrow> string \<Rightarrow> nat \<Rightarrow> 'a sh_scheme \<Rightarrow> (string \<times> nat \<times> 'a sh_scheme) res" where
  "add_piece exec bufsz piece cur bi s =
     (case expand_word exec piece SH_EXPAND_MAX s of
        Inl e \<Rightarrow> Inl e
      | Inr (d, s1) \<Rightarrow>
          (case dst_text d of
             Inl e \<Rightarrow> Inl e
           | Inr t \<Rightarrow> Inr (if bi + length t < bufsz then (cur @ t, bi + length t, s1) else (cur, bi, s1))))"

text \<open>
  One token: \<open>cur\<close> is its text so far, \<open>bi\<close> the place in the string buffer. Single characters that do not fit are
  dropped.
\<close>

fun token_loop ::
  "nat \<Rightarrow> 'a exec \<Rightarrow> nat \<Rightarrow> string \<Rightarrow> string \<Rightarrow> nat \<Rightarrow> 'a sh_scheme \<Rightarrow> (string \<times> string \<times> nat \<times> 'a sh_scheme) res" where
  "token_loop 0 exec bufsz p cur bi s = Inl Diverges"
| "token_loop (Suc n) exec bufsz p cur bi s =
     (if p = [] \<or> token_end (hd p) then Inr (p, cur, bi, s)
      else if hd p = CHR 0x27 then
        (let t = take (bufsz - 1 - bi) (takeWhile (\<lambda>c. c \<noteq> CHR 0x27) (tl p))
         in token_loop n exec bufsz (tl (dropWhile (\<lambda>c. c \<noteq> CHR 0x27) (tl p))) (cur @ t) (bi + length t) s)
      else if hd p = CHR 0x22 then
        (let body = dq_content (tl p); rest = drop (length body) (tl p);
             quoted = take (SH_LINE_MAX - 1) (CHR 0x22 # body @ (if rest = [] then [] else [CHR 0x22]))
         in case add_piece exec bufsz quoted cur bi s of
              Inl e \<Rightarrow> Inl e
            | Inr (cur1, bi1, s1) \<Rightarrow> token_loop n exec bufsz (tl rest) cur1 bi1 s1)
      else if hd p = CHR ''$'' \<or> hd p = CHR ''`'' then
        (let piece = dollar_piece p
         in case add_piece exec bufsz (take (SH_EXPAND_MAX - 1) piece) cur bi s of
              Inl e \<Rightarrow> Inl e
            | Inr (cur1, bi1, s1) \<Rightarrow> token_loop n exec bufsz (drop (length piece) p) cur1 bi1 s1)
      else if bi + 1 < bufsz then token_loop n exec bufsz (tl p) (cur @ [hd p]) (bi + 1) s
      else token_loop n exec bufsz (tl p) cur bi s)"

text \<open>
  The terminator of a token is written when it fits; a token that begins at the end of the buffer has none, and
  any use of it would read behind the buffer.
\<close>

fun tokenize_loop ::
  "nat \<Rightarrow> 'a exec \<Rightarrow> nat \<Rightarrow> nat \<Rightarrow> string \<Rightarrow> string list \<Rightarrow> nat \<Rightarrow> 'a sh_scheme \<Rightarrow> (string list \<times> 'a sh_scheme) res" where
  "tokenize_loop 0 exec maxargs bufsz p argv bi s = Inl Diverges"
| "tokenize_loop (Suc n) exec maxargs bufsz p argv bi s =
     (if p = [] \<or> \<not> length argv < maxargs - 1 then Inr (argv, s)
      else let q = skip_blanks p
           in if q = [] \<or> hd q = CHR ''#'' \<or> hd q = CHR 0x0A \<or> hd q = CHR '';'' then Inr (argv, s)
              else case token_loop (Suc (length q)) exec bufsz q [] bi s of
                     Inl e \<Rightarrow> Inl e
                   | Inr (r, tok, bi1, s1) \<Rightarrow>
                       if bi1 < bufsz then tokenize_loop n exec maxargs bufsz r (argv @ [tok]) (bi1 + 1) s1
                       else Inl OutOfBounds)"

definition tokenize :: "'a exec \<Rightarrow> string \<Rightarrow> nat \<Rightarrow> nat \<Rightarrow> 'a sh_scheme \<Rightarrow> (string list \<times> 'a sh_scheme) res" where
  "tokenize exec line maxargs bufsz s = tokenize_loop (Suc (length line)) exec maxargs bufsz line [] 0 s"

section \<open>The expansion stays in its buffer and returns\<close>

lemma OUTS_length: "length out < sz \<Longrightarrow> length (OUTS sz out t) < sz"
  by (simp add: OUTS_def)

lemma OUTS_append: "length out < sz \<Longrightarrow> OUTS sz (OUTS sz out t) u = OUTS sz out (t @ u)"
  by (simp add: OUTS_def min_def)

lemma OUTS_Nil [simp]: "OUTS sz out [] = out"
  by (simp add: OUTS_def)

lemma OUTS_full: "\<not> length out + 1 < sz \<Longrightarrow> OUTS sz out t = out"
  by (simp add: OUTS_def)

lemma OUTS_start: "OUTS sz [] t = take (sz - 1) t"
  by (simp add: OUTS_def)

lemma fmt_width_returns: "fmt_width fs w \<noteq> Inl Diverges"
  by (induction fs w rule: fmt_width.induct) (auto simp: Let_def)

lemma fmt_directive_returns: "fmt_directive fs ap \<noteq> Inl Diverges"
proof -
  obtain l p pad fs1 where f: "fmt_flags fs False False (CHR '' '') = (l, p, pad, fs1)" by (metis prod_cases4)
  show ?thesis
  proof (cases "fmt_star fs1 ap")
    case (Inl e)
    then have "e \<noteq> Diverges"
      using fmt_width_returns
      by (auto simp: fmt_star_def va_num_def simp del: fmt_width.simps split: list.splits if_splits sum.splits karg.splits)
    with f Inl show ?thesis by (simp add: fmt_directive_def)
  next
    case (Inr w)
    with f show ?thesis
      by (cases w) (auto simp: fmt_directive_def fmt_unsigned_def fmt_signed_def fmt_string_def va_num_def va_str_def
          map_sum_id_Inl Let_def split: list.splits karg.splits prod.splits sum.splits if_splits)
  qed
qed

lemma put_pieces_returns: "put_pieces ps buf \<noteq> Inl Diverges"
  by (induction ps buf rule: put_pieces.induct) auto

lemma kfmt_loop_returns: "kfmt_loop fmt ap buf \<noteq> Inl Diverges"
proof (induction fmt ap buf rule: kfmt_loop.induct)
  case (2 c fs ap buf)
  then show ?case
    using fmt_directive_returns [of fs ap] put_pieces_returns
    by (auto simp del: put_pieces.simps split: sum.splits)
qed simp

lemma num_str_returns: "num_str sz fmt v s \<noteq> Inl Diverges"
  using kfmt_loop_returns [of fmt "[Num v]" "[]"]
  by (auto simp: num_str_def ksprintf_def kvsnprintf_def Let_def split: sum.splits if_splits)

lemma param_returns: "param i s \<noteq> Inl Diverges"
  by (auto simp: param_def split: option.splits)

lemma expand_params_sound:
  "expand_params k i sz out s \<noteq> Inl Diverges"
  "expand_params k i sz out s = Inr o1 \<Longrightarrow> length out < sz \<Longrightarrow> length o1 < sz"
proof (induction k arbitrary: i out)
  case (Suc k)
  {
    case 1
    show ?case using Suc.IH(1) param_returns [of i s] by (auto split: sum.splits)
  next
    case 2
    then show ?case using Suc.IH(2) OUTS_length by (auto split: sum.splits)
  }
qed auto

text \<open>An expansion consumes text and keeps the output inside its array.\<close>

definition shrinks :: "nat \<Rightarrow> string \<Rightarrow> string \<Rightarrow> 'a expansion \<Rightarrow> bool" where
  "shrinks sz src out x \<longleftrightarrow>
     (\<forall>p o1 s. x = Inr (p, o1, s) \<longrightarrow> length p \<le> length src \<and> (length out < sz \<longrightarrow> length o1 < sz))"

lemma tl_drop_length: "length (tl (dropWhile P p)) \<le> length p"
  using dropWhile_length [of P p] by simp

lemma expand_arith_shrinks: "shrinks sz start out (expand_arith sz start out s)"
  using skip_paren_length [of start 2] OUTS_length
  by (auto simp: shrinks_def expand_arith_def Let_def split: sum.splits if_splits)

lemma expand_command_shrinks: "shrinks sz start out (expand_command exec sz start out s)"
  using skip_paren_length [of start 1] OUTS_length
  by (auto simp: shrinks_def expand_command_def Let_def split: sum.splits if_splits)

lemma expand_brace_shrinks: "shrinks sz src out (expand_brace self sz src out s)"
proof -
  define name where "name = take (SH_VAR_NAMSZ - 1) (takeWhile (\<lambda>c. c \<noteq> CHR ''}'' \<and> c \<noteq> CHR '':'' \<and> c \<noteq> CHR ''#'') src)"
  define p where "p = drop (length name) src"
  have l: "length p \<le> length src" by (simp add: p_def)
  have b: "length (tl (dropWhile (\<lambda>c. c \<noteq> CHR ''}'') q)) \<le> length src" if "length q \<le> length p" for q
    using tl_drop_length that l by (meson order_trans)
  have q: "length (tl p) \<le> length p" "length (drop 2 p) \<le> length p" by simp_all
  show ?thesis
    unfolding shrinks_def expand_brace_def name_def [symmetric] p_def [symmetric] Let_def
    using OUTS_length l b [OF q(1)] b [OF q(2)] order_trans [OF q(1) l]
    by (auto split: sum.splits if_splits option.splits list.splits)
qed

lemma shrinks_mono: "shrinks sz p out x \<Longrightarrow> length p \<le> length src \<Longrightarrow> shrinks sz src out x"
  by (auto simp: shrinks_def dest: order_trans)

lemma shrinks_if: "(b \<Longrightarrow> shrinks sz src out x) \<Longrightarrow> (\<not> b \<Longrightarrow> shrinks sz src out y) \<Longrightarrow> shrinks sz src out (if b then x else y)"
  by simp

lemma shrinks_emit:
  "length q \<le> length src \<Longrightarrow> shrinks sz src out (case x of Inl e \<Rightarrow> Inl e | Inr t \<Rightarrow> Inr (q, OUTS sz out t, s))"
  "length q \<le> length src \<Longrightarrow> shrinks sz src out (Inr (q, out, s))"
  using OUTS_length by (auto simp: shrinks_def split: sum.splits)

lemma expand_dollar_shrinks: "shrinks sz src out (expand_dollar exec self sz src out s)"
  unfolding expand_dollar_def Let_def
proof (intro shrinks_if)
  show "shrinks sz src out (expand_arith sz (tl (tl src)) out s)" by (rule shrinks_mono [OF expand_arith_shrinks]) simp
  show "shrinks sz src out (expand_command exec sz (tl src) out s)" by (rule shrinks_mono [OF expand_command_shrinks]) simp
  show "shrinks sz src out (expand_brace self sz (tl src) out s)" by (rule shrinks_mono [OF expand_brace_shrinks]) simp
  show "shrinks sz src out (case expand_params (nat (sh_argc s)) 0 sz out s of Inl e \<Rightarrow> Inl e | Inr o1 \<Rightarrow> Inr (tl src, o1, s))"
    using expand_params_sound(2) by (auto simp: shrinks_def split: sum.splits)
  show "shrinks sz src out
     (case var_get (take (SH_VAR_NAMSZ - 1) (takeWhile is_name_char src)) s of Inl e \<Rightarrow> Inl e
      | Inr v \<Rightarrow> Inr (drop (length (take (SH_VAR_NAMSZ - 1) (takeWhile is_name_char src))) src,
                      case v of None \<Rightarrow> out | Some t \<Rightarrow> OUTS sz out t, s))"
    using OUTS_length by (auto simp: shrinks_def split: sum.splits option.splits)
qed (rule shrinks_emit; simp)+

lemma expand_special_shrinks:
  assumes "src \<noteq> []" and "expand_special exec self sz src out s = Inr (p, o1, s1)"
  shows "length p < length src" and "length out < sz \<Longrightarrow> length o1 < sz"
proof -
  have l: "length (tl src) < length src" using assms(1) by simp
  note d = expand_dollar_shrinks [of sz "tl src" out exec self s, unfolded shrinks_def, rule_format]
  have "length p \<le> length (tl src) \<and> (length out < sz \<longrightarrow> length o1 < sz)"
    using assms(2) d tl_drop_length [of _ "tl src"] OUTS_length
    by (auto simp: expand_special_def expand_backtick_def split: if_splits sum.splits)
  with l show "length p < length src" "length out < sz \<Longrightarrow> length o1 < sz" by linarith+
qed

lemma quoted_part_sound:
  "quoted_part sz q out = (o1, p1, b) \<Longrightarrow> length p1 \<le> length q \<and> (b \<longrightarrow> p1 \<noteq> []) \<and> (length out < sz \<longrightarrow> length o1 < sz)"
proof (induction sz q out rule: quoted_part.induct)
  case (2 sz c q out)
  have "length (tl q) \<le> length q" by simp
  with 2 show ?case using OUTS_length by (auto split: if_splits dest: order_trans)
qed auto

lemma expand_loop_bounded:
  "expand_loop n exec sz src out s = Inr (o1, s1) \<Longrightarrow> length out < sz \<Longrightarrow> length o1 < sz"
proof (induction n arbitrary: src out s)
  case (Suc n)
  show ?case
  proof (cases src)
    case (Cons c q)
    let ?self = "\<lambda>d. expand_loop n exec SH_VAR_VALSZ d []"
    have sp: "length o1 < sz"
      if x: "(case expand_special exec ?self sz p o0 s of Inl e \<Rightarrow> Inl e | Inr (p2, o2, s2) \<Rightarrow> expand_loop n exec sz p2 o2 s2) = Inr (o1, s1)"
        and p: "p \<noteq> []" "length o0 < sz" for p o0
    proof -
      obtain p2 o2 s2 where e: "expand_special exec ?self sz p o0 s = Inr (p2, o2, s2)" "expand_loop n exec sz p2 o2 s2 = Inr (o1, s1)"
        using x by (auto split: sum.splits)
      show ?thesis using Suc.IH [OF e(2) expand_special_shrinks(2) [OF p(1) e(1) p(2)]] .
    qed
    show ?thesis
      using Suc.prems Cons sp Suc.IH OUTS_length quoted_part_sound
      by (auto simp: Let_def split: if_splits prod.splits bool.splits)
  qed (use Suc.prems in simp)
qed simp

lemma strip_newlines_returns: "strip_newlines a \<noteq> Inl Diverges"
  by (auto simp: strip_newlines_def Let_def split: option.splits)

lemma substitute_returns: "\<forall>c s. exec c s \<noteq> Inl Diverges \<Longrightarrow> substitute exec b cmd s \<noteq> Inl Diverges"
  using strip_newlines_returns by (auto simp: substitute_def sh_capture_def split: sum.splits)

lemma expand_brace_returns:
  assumes "\<And>d s. length d < length src \<Longrightarrow> self d s \<noteq> Inl Diverges"
  shows "expand_brace self sz src out s \<noteq> Inl Diverges"
proof -
  define name where "name = take (SH_VAR_NAMSZ - 1) (takeWhile (\<lambda>c. c \<noteq> CHR ''}'' \<and> c \<noteq> CHR '':'' \<and> c \<noteq> CHR ''#'') src)"
  define p where "p = drop (length name) src"
  define d where "d = take (SH_VAR_VALSZ - 1) (takeWhile (\<lambda>c. c \<noteq> CHR ''}'') (drop 2 p))"
  have "length d < length src" if "at_char (CHR '':'') p"
  proof -
    have "length d \<le> length (drop 2 p)" unfolding d_def
      using length_takeWhile_le [of "\<lambda>c. c \<noteq> CHR ''}''" "drop 2 p"] by simp
    also have "\<dots> < length p" using drop2_length [OF that] .
    finally show ?thesis by (simp add: p_def)
  qed
  then have self: "at_char (CHR '':'') p \<Longrightarrow> self d s \<noteq> Inl Diverges" using assms by blast
  show ?thesis
    unfolding expand_brace_def name_def [symmetric] p_def [symmetric] Let_def d_def [symmetric]
    using self var_get_returns [of name s] num_str_returns
    by (auto simp: dst_text_def split: sum.splits option.splits list.splits)
qed

lemma if_ne: "x \<noteq> z \<Longrightarrow> y \<noteq> z \<Longrightarrow> (if b then x else y) \<noteq> z"
  by simp

lemma expand_dollar_returns:
  assumes "\<forall>c s. exec c s \<noteq> Inl Diverges" and "\<And>d s. length d < length src \<Longrightarrow> self d s \<noteq> Inl Diverges"
  shows "expand_dollar exec self sz src out s \<noteq> Inl Diverges"
proof -
  have a: "expand_arith sz q o1 s \<noteq> Inl Diverges" for q o1
    by (auto simp: expand_arith_def Let_def arith_eval_returns num_str_returns split: sum.splits)
  have c: "expand_command exec sz q o1 s \<noteq> Inl Diverges" for q o1
    using substitute_returns [OF assms(1)] by (auto simp: expand_command_def Let_def split: sum.splits)
  have b: "expand_brace self sz (tl src) out s \<noteq> Inl Diverges"
    using assms(2) by (intro expand_brace_returns) simp
  have e: "(case x of Inl e \<Rightarrow> Inl e | Inr t \<Rightarrow> Inr (f t)) = Inl Diverges \<longleftrightarrow> x = Inl Diverges" for x :: "'c res" and f :: "'c \<Rightarrow> 'd"
    by (cases x) auto
  show ?thesis
    unfolding expand_dollar_def Let_def
    by (intro if_ne) (simp_all add: a b c e num_str_returns param_returns expand_params_sound(1) var_get_returns)
qed

lemma expand_loop_returns:
  assumes ex: "\<forall>c s. exec c s \<noteq> Inl Diverges"
  shows "length src < n \<Longrightarrow> expand_loop n exec sz src out s \<noteq> Inl Diverges"
proof (induction n arbitrary: sz src out s)
  case (Suc n)
  let ?self = "\<lambda>d. expand_loop n exec SH_VAR_VALSZ d []"
  have sp: "(case expand_special exec ?self sz p o0 s of Inl e \<Rightarrow> Inl e | Inr (p2, o2, s2) \<Rightarrow> expand_loop n exec sz p2 o2 s2) \<noteq> Inl Diverges"
    if p: "p \<noteq> []" "length p \<le> length src" for p o0
  proof -
    have l: "length (tl p) < n" using p Suc.prems by (cases p) auto
    have "expand_special exec ?self sz p o0 s \<noteq> Inl Diverges"
      using expand_dollar_returns [OF ex, of "tl p" ?self sz o0 s] Suc.IH l substitute_returns [OF ex]
      by (auto simp: expand_special_def expand_backtick_def split: sum.splits)
    moreover have "length p2 < n" if "expand_special exec ?self sz p o0 s = Inr (p2, o2, s2)" for p2 o2 s2
      using expand_special_shrinks(1) [OF p(1) that] p(2) Suc.prems by linarith
    ultimately show ?thesis using Suc.IH by (auto split: sum.splits)
  qed
  show ?case
  proof (cases src)
    case (Cons c q)
    have q: "length q < n" "length (tl q) < n" "length (tl (dropWhile P q)) < n" for P
      using Suc.prems Cons tl_drop_length [of P q] by auto
    have "(case quoted_part sz q out of (o1, p1, True) \<Rightarrow> F o1 p1 | (o1, p1, False) \<Rightarrow> expand_loop n exec sz p1 o1 s) \<noteq> Inl Diverges"
      if "\<And>o1 p1. p1 \<noteq> [] \<Longrightarrow> length p1 \<le> length src \<Longrightarrow> F o1 p1 \<noteq> Inl Diverges" for F
    proof -
      obtain o1 p1 b where qp: "quoted_part sz q out = (o1, p1, b)" by (metis prod_cases3)
      from quoted_part_sound [OF this] that [of p1 o1] Suc.IH [of p1] q(1) Cons show ?thesis by (cases b) (auto simp: qp)
    qed
    note dq = this [of "\<lambda>o1 p1. case expand_special exec ?self sz p1 o1 s of Inl e \<Rightarrow> Inl e | Inr (p2, o2, s2) \<Rightarrow> expand_loop n exec sz p2 o2 s2", OF sp]
    show ?thesis
      unfolding expand_loop.simps Let_def Cons list.case
      using sp [of "c # q" out] Cons dq Suc.IH q by (intro if_ne) auto
  qed simp
qed simp

section \<open>Tokens: returning, and plain words\<close>

lemma expand_word_returns: "\<forall>c s. exec c s \<noteq> Inl Diverges \<Longrightarrow> expand_word exec src sz s \<noteq> Inl Diverges"
  unfolding expand_word_def by (intro expand_loop_returns) simp_all

lemma add_piece_returns: "\<forall>c s. exec c s \<noteq> Inl Diverges \<Longrightarrow> add_piece exec bufsz piece cur bi s \<noteq> Inl Diverges"
  using expand_word_returns [of exec piece SH_EXPAND_MAX s] by (auto simp: add_piece_def dst_text_def split: sum.splits)

lemma dollar_piece_ne: "p \<noteq> [] \<Longrightarrow> dollar_piece p \<noteq> []"
proof -
  assume p: "p \<noteq> []"
  have l: "length (tl (dropWhile P q)) < length p" if "length q \<le> length (tl p)" for P q
    using tl_drop_length [of P q] that p by (cases p) simp_all
  have "length (skip_paren (tl (tl p)) 1) < length p" using skip_paren_length [of "tl (tl p)" 1] p by (cases p) simp_all
  moreover have "length (tl (tl p)) \<le> length (tl p)" by simp
  note l [OF this, of "\<lambda>c. c \<noteq> CHR ''}''"]
  ultimately show ?thesis using l [of "tl p" "\<lambda>c. c \<noteq> CHR ''`''"] p
    by (auto simp: dollar_piece_def Let_def)
qed

lemma token_loop_sound:
  assumes ex: "\<forall>c s. exec c s \<noteq> Inl Diverges"
  shows "length p < n \<Longrightarrow> token_loop n exec bufsz p cur bi s \<noteq> Inl Diverges"
    and "token_loop n exec bufsz p cur bi s = Inr (r, tok, bi1, s1) \<Longrightarrow>
      length r \<le> length p \<and> (p \<noteq> [] \<and> \<not> token_end (hd p) \<longrightarrow> length r < length p)"
proof (induction n arbitrary: p cur bi s)
  case (Suc n)
  have step: "length (tl p) < length p" "length (tl (dropWhile P (tl p))) < length p"
      "length (tl (drop k (tl p))) < length p" "length (drop (length (dollar_piece p)) p) < length p" if "p \<noteq> []" for P k p
    using that tl_drop_length [of P "tl p"] dollar_piece_ne [OF that] by (cases p; auto)+
  {
    case 1
    show ?case
    proof (cases "p = [] \<or> token_end (hd p)")
      case False
      then have p: "p \<noteq> []" by simp
      have "length (tl p) < n" "length (tl (dropWhile P (tl p))) < n"
        "length (tl (drop k (tl p))) < n" "length (drop (length (dollar_piece p)) p) < n" for P k
        using step(1) [OF p] step(2) [OF p, of P] step(3) [OF p, of k] step(4) [OF p] 1 by linarith+
      with False Suc.IH(1) add_piece_returns [OF ex] show ?thesis by (auto simp: Let_def split: sum.splits)
    qed auto
  next
    case 2
    show ?case
    proof (cases "p = [] \<or> token_end (hd p)")
      case False
      then have p: "p \<noteq> []" by simp
      have ih: "length r < length p" if "token_loop n exec bufsz q cur' bi' s' = Inr (r, tok, bi1, s1)" "length q < length p" for q cur' bi' s'
        using Suc.IH(2) [OF that(1)] that(2) by linarith
      have "length ([] :: string) < length p" using p by simp
      with 2 False ih [OF _ step(1) [OF p]] ih [OF _ step(2) [OF p]] ih [OF _ step(3) [OF p]] ih [OF _ step(4) [OF p]] ih [of "[]"]
      have "length r < length p" by (auto simp: Let_def split: if_splits sum.splits)
      then show ?thesis by simp
    qed (use 2 in auto)
  }
qed simp_all

lemma skip_blanks_hd: "skip_blanks p \<noteq> [] \<Longrightarrow> hd (skip_blanks p) \<noteq> CHR '' '' \<and> hd (skip_blanks p) \<noteq> CHR 0x09"
  by (induction p rule: skip_blanks.induct) auto

lemma tokenize_loop_returns:
  assumes ex: "\<forall>c s. exec c s \<noteq> Inl Diverges"
  shows "length p < n \<Longrightarrow> tokenize_loop n exec maxargs bufsz p argv bi s \<noteq> Inl Diverges"
proof (induction n arbitrary: p argv bi s)
  case (Suc n)
  let ?q = "skip_blanks p"
  show ?case
  proof (cases "p = [] \<or> \<not> length argv < maxargs - 1 \<or> ?q = [] \<or> hd ?q = CHR ''#'' \<or> hd ?q = CHR 0x0A \<or> hd ?q = CHR '';''")
    case False
    then have nb: "\<not> token_end (hd ?q)" using skip_blanks_hd [of p] by (auto simp: token_end_def)
    show ?thesis
    proof (cases "token_loop (Suc (length ?q)) exec bufsz ?q [] bi s")
      case (Inl e)
      with token_loop_sound(1) [OF ex, of ?q "Suc (length ?q)" bufsz "[]" bi s] False show ?thesis by (auto simp: Let_def)
    next
      case (Inr x)
      obtain r tok bi1 s1 where r: "token_loop (Suc (length ?q)) exec bufsz ?q [] bi s = Inr (r, tok, bi1, s1)" using Inr by (cases x) auto
      have "length r < length ?q" using token_loop_sound(2) [OF ex r] nb False by blast
      then have "length r < n" using skip_blanks_length [of p] Suc.prems by linarith
      with r False Suc.IH [of r] show ?thesis by (simp add: Let_def del: token_loop.simps)
    qed
  qed (auto simp: Let_def)
qed simp

lemma tokenize_returns: "\<forall>c s. exec c s \<noteq> Inl Diverges \<Longrightarrow> tokenize exec line maxargs bufsz s \<noteq> Inl Diverges"
  unfolding tokenize_def by (intro tokenize_loop_returns) simp_all

text \<open>A character that means itself, and a word of such characters.\<close>

definition plain :: "char \<Rightarrow> bool" where
  "plain c \<longleftrightarrow> \<not> token_end c \<and> c \<notin> {CHR 0x27, CHR 0x22, CHR ''$'', CHR ''`'', CHR 0x5C, NUL}"

lemma token_loop_plain:
  assumes "\<forall>c \<in> set w. plain c" and "r = [] \<or> token_end (hd r)" and "bi + length w < bufsz" and "length w < n"
  shows "token_loop n exec bufsz (w @ r) cur bi s = Inr (r, cur @ w, bi + length w, s)"
  using assms
proof (induction w arbitrary: n cur bi)
  case Nil
  then show ?case by (cases n) auto
next
  case (Cons c w)
  then obtain m where "n = Suc m" "length w < m" by (cases n) auto
  with Cons show ?case by (auto simp: plain_def)
qed

text \<open>Words separated by blanks.\<close>

fun unwords :: "string list \<Rightarrow> string" where
  "unwords [] = []"
| "unwords [w] = w"
| "unwords (w # ws) = w @ CHR '' '' # unwords ws"

lemma unwords_hd:
  assumes "w \<noteq> []" and "\<forall>c \<in> set w. plain c"
  shows "\<exists>c r. unwords (w # ws) = c # r \<and> plain c"
  using assms by (cases w; cases ws) auto

lemma plain_no_skip: "plain c \<Longrightarrow> skip_blanks (c # r) = c # r" "plain c \<Longrightarrow> c \<notin> {CHR ''#'', CHR 0x0A, CHR '';''}"
  by (auto simp: plain_def token_end_def)

lemma tokenize_loop_plain:
  assumes "\<forall>w \<in> set ws. w \<noteq> [] \<and> (\<forall>c \<in> set w. plain c)" and "length argv + length ws < maxargs"
    and "bi + length (unwords ws) + 1 < bufsz" and "length (unwords ws) < n"
  shows "tokenize_loop n exec maxargs bufsz (unwords ws) argv bi s = Inr (argv @ ws, s)"
  using assms
proof (induction ws arbitrary: n argv bi)
  case Nil
  then show ?case by (cases n) auto
next
  case (Cons w ws)
  obtain m where n: "n = Suc m" using Cons.prems(4) by (cases n) auto
  obtain c r where c: "unwords (w # ws) = c # r" "plain c" using unwords_hd [of w ws] Cons.prems(1) by auto
  note sk = plain_no_skip(1) [OF c(2), of r] plain_no_skip(2) [OF c(2)]
  show ?case
  proof (cases ws)
    case Nil
    have "token_loop (Suc (length w)) exec bufsz (w @ []) [] bi s = Inr ([], [] @ w, bi + length w, s)"
      using Cons.prems Nil by (intro token_loop_plain) auto
    with Nil n c sk Cons.prems show ?thesis
      by (cases m) (auto simp: Let_def simp del: token_loop.simps)
  next
    case (Cons v vs)
    let ?q = "CHR '' '' # unwords ws"
    have u: "unwords (w # ws) = w @ ?q" using Cons by simp
    have len: "bi + length w + 1 + length (unwords ws) + 1 < bufsz" "length (unwords ws) + length w + 1 < n"
      using Cons.prems(3,4) u by simp_all
    have tk: "token_loop (Suc (length (w @ ?q))) exec bufsz (w @ ?q) [] bi s = Inr (?q, [] @ w, bi + length w, s)"
      using Cons.prems(1) len by (intro token_loop_plain) (auto simp: token_end_def)
    obtain c' r' where c': "unwords ws = c' # r'" "plain c'" using unwords_hd [of v vs] Cons.prems(1) Cons by auto
    have "tokenize_loop m exec maxargs bufsz ?q (argv @ [w]) (bi + length w + 1) s =
        tokenize_loop m exec maxargs bufsz (unwords ws) (argv @ [w]) (bi + length w + 1) s"
      using c' plain_no_skip(1) [OF c'(2), of r'] plain_no_skip(2) [OF c'(2)] by (cases m) (simp_all add: Let_def del: token_loop.simps)
    also have "\<dots> = Inr ((argv @ [w]) @ ws, s)"
      using Cons.prems(1,2) len n by (intro Cons.IH) auto
    finally have "tokenize_loop m exec maxargs bufsz ?q (argv @ [w]) (bi + length w + 1) s = Inr (argv @ w # ws, s)" by simp
    moreover have "length argv < maxargs - 1" using Cons.prems(2) by simp
    moreover have "bi + length w < bufsz" using len by simp
    ultimately show ?thesis using n c sk tk unfolding u [symmetric] c(1)
      by (simp add: Let_def del: token_loop.simps)
  qed
qed

section \<open>Quoting\<close>

definition bs_quote :: "string \<Rightarrow> string" where
  "bs_quote t = concat (map (\<lambda>c. [CHR 0x5C, c]) t)"

definition sq_quote :: "string \<Rightarrow> string" where
  "sq_quote t = CHR 0x27 # t @ [CHR 0x27]"

lemma OUT_OUTS: "length out < sz \<Longrightarrow> OUTS sz (OUT sz out c) t = OUTS sz out (c # t)"
  using OUTS_append [of out sz "[c]" t] by simp

lemma expand_loop_bs:
  "length out < sz \<Longrightarrow> length t < n \<Longrightarrow> expand_loop n exec sz (bs_quote t) out s = Inr (OUTS sz out t, s)"
proof (induction t arbitrary: n out)
  case Nil
  then show ?case by (cases n) (simp_all add: bs_quote_def)
next
  case (Cons c t)
  then obtain m where n: "n = Suc m" "length t < m" by (cases n) auto
  have q: "bs_quote (c # t) = CHR 0x5C # c # bs_quote t" by (simp add: bs_quote_def)
  show ?case
  proof (cases "length out + 1 < sz")
    case True
    with n Cons.IH [OF OUTS_length [OF Cons.prems(1)] n(2), of "[c]"] Cons.prems(1) show ?thesis
      by (simp add: q OUT_OUTS)
  next
    case False
    with n OUTS_full [OF False] show ?thesis by (simp add: q)
  qed
qed





text \<open>
  C35: the tokenizer is the inverse of joining words with blanks: words of plain characters (none that ends a word,
  quotes or expands) come back as they are, as long as they fit the argument array and the buffer.
\<close>

theorem tokenize_unwords:
  assumes "\<forall>w \<in> set ws. w \<noteq> [] \<and> (\<forall>c \<in> set w. plain c)" and "length ws < maxargs" and "length (unwords ws) + 1 < bufsz"
  shows "tokenize exec (unwords ws) maxargs bufsz s = Inr (ws, s)"
  unfolding tokenize_def using tokenize_loop_plain [OF assms(1), of "[]" maxargs 0 bufsz "Suc (length (unwords ws))" exec s] assms(2,3)
  by (simp del: tokenize_loop.simps)

theorem tokenize_unwords_witness:
  "tokenize (\<lambda>c s. Inr (0, s)) ''ls -l /tmp'' SH_MAX_ARGS 2048 (sh_boot kio_demo) = Inr ([''ls'', ''-l'', ''/tmp''], sh_boot kio_demo)"
  using tokenize_unwords [of "[''ls'', ''-l'', ''/tmp'']" SH_MAX_ARGS 2048 "\<lambda>c s. Inr (0, s)" "sh_boot kio_demo"]
  by (simp add: plain_def token_end_def)

text \<open>
  The length of a variable is always reported as 0: the name is read up to the sign \<^verbatim>\<open>#\<close>, so it is empty.
\<close>

lemma fmt_0: "kfmt_text ''%u'' [Num 0] = Inr ''0''"
  by code_simp

theorem expand_length_is_0:
  assumes "vars_wf s" and "var_map s [] = None" and "\<forall>c \<in> set x. is_name_char c" and "1 < sz"
  shows "expand_word exec (''${#'' @ x @ ''}'') sz s = Inr (''0'', s)"
proof -
  have v: "var_get [] s = Inr None" using var_get_map [OF assms(1), of "[]"] assms(2) by simp
  have n: "num_str 16 ''%u'' 0 s = Inr ''0''"
    using ksprintf_text [OF fmt_0, of 16 s] by (simp add: num_str_def cstr_def del: kfmt_text.simps)
  have "CHR ''}'' \<notin> set x" using assms(3) by (auto simp: is_name_char_def uchar_def)
  then have b: "tl (dropWhile (\<lambda>c. c \<noteq> CHR ''}'') (x @ ''}'')) = []" by (induction x) auto
  have "expand_brace self sz (''#'' @ x @ ''}'') [] s = Inr ([], ''0'', s)" for self
    using v n b assms(4) by (simp add: expand_brace_def at_char_def OUTS_start)
  then show ?thesis using assms(4)
    by (simp add: expand_word_def expand_special_def expand_dollar_def at_char_def)
qed

end
