(* ===== verification/Sh_Builtins.thy ===== *)
theory Sh_Builtins
  imports Sh_Expand Exec
begin

text \<open>
  \<^verbatim>\<open>src/shell/sh.c\<close>, the builtin commands of the interpreter that run no other command, and from
  \<^verbatim>\<open>src/shell/shell.c\<close> the test for program files. \<open>argv\<close> is the list of the arguments, the command first.
\<close>

section \<open>Output\<close>

definition sh_print :: "string \<Rightarrow> karg list \<Rightarrow> 'a sh_scheme \<Rightarrow> 'a sh_scheme res" where
  "sh_print fmt args s = (case kprintf fmt args s of Inl e \<Rightarrow> Inl e | Inr (_, _, s1) \<Rightarrow> Inr s1)"

definition print_char :: "char \<Rightarrow> 'a sh_scheme \<Rightarrow> 'a sh_scheme res" where
  "print_char c s = sh_print ''%c'' [Num (of_nat (of_char c))] s"

abbreviation (input) newline :: string where "newline \<equiv> [CHR 0x0A]"
abbreviation (input) backslash :: string where "backslash \<equiv> [CHR 0x5C]"

section \<open>echo and printf\<close>

fun echo_text :: "string \<Rightarrow> 'a sh_scheme \<Rightarrow> 'a sh_scheme res" where
  "echo_text [] s = Inr s"
| "echo_text [c] s = print_char c s"
| "echo_text (c # d # t) s =
     (if c = CHR 0x5C then
        (case (if d = CHR ''n'' then sh_print newline [] s
               else if d = CHR ''t'' then sh_print [CHR 0x09] [] s
               else if d = CHR ''r'' then sh_print [CHR 0x0D] [] s
               else if d = CHR 0x5C then sh_print backslash [] s
               else if d = CHR ''e'' \<or> d = CHR ''E'' then Inr s
               else case sh_print backslash [] s of Inl e \<Rightarrow> Inl e | Inr s1 \<Rightarrow> print_char d s1) of
           Inl e \<Rightarrow> Inl e
         | Inr s2 \<Rightarrow> echo_text t s2)
      else case print_char c s of Inl e \<Rightarrow> Inl e | Inr s1 \<Rightarrow> echo_text (d # t) s1)"

text \<open>The words of \<^verbatim>\<open>echo\<close>, with a blank before every one but the first.\<close>

fun echo_words :: "bool \<Rightarrow> string list \<Rightarrow> 'a sh_scheme \<Rightarrow> 'a sh_scheme res" where
  "echo_words first [] s = Inr s"
| "echo_words first (w # ws) s =
     (case (if first then Inr s else sh_print '' '' [] s) of
        Inl e \<Rightarrow> Inl e
      | Inr s1 \<Rightarrow> (case echo_text w s1 of Inl e \<Rightarrow> Inl e | Inr s2 \<Rightarrow> echo_words False ws s2))"

definition bi_echo :: "string list \<Rightarrow> 'a sh_scheme \<Rightarrow> (int \<times> 'a sh_scheme) res" where
  "bi_echo argv s =
     (let no_newline = (length argv > 1 \<and> argv ! 1 = ''-n'')
      in case echo_words True (drop (if no_newline then 2 else 1) argv) s of
           Inl e \<Rightarrow> Inl e
         | Inr s1 \<Rightarrow>
             (case (if no_newline then Inr s1 else sh_print newline [] s1) of Inl e \<Rightarrow> Inl e | Inr s2 \<Rightarrow> Inr (0, s2)))"

text \<open>\<^verbatim>\<open>(int)strtol(arg, NULL, base)\<close>, 0 without an argument.\<close>

definition arg_int :: "string list \<Rightarrow> int \<Rightarrow> (u64 \<times> string list) res" where
  "arg_int args base =
     (case args of
        [] \<Rightarrow> Inr (0, [])
      | a # rest \<Rightarrow> map_sum id (\<lambda>(v, _). (word_of_int (c_int (word_of_int v)), rest)) (strtol_text a base))"

text \<open>One conversion of \<^verbatim>\<open>printf\<close>: the rest of the arguments and the new state.\<close>

definition printf_conv :: "char \<Rightarrow> string list \<Rightarrow> 'a sh_scheme \<Rightarrow> (string list \<times> 'a sh_scheme) res" where
  "printf_conv c args s =
     (let number = (\<lambda>fmt base. case arg_int args base of
            Inl e \<Rightarrow> Inl e
          | Inr (v, rest) \<Rightarrow> map_sum id (Pair rest) (sh_print fmt [Num v] s))
      in if c = CHR ''s'' then
           map_sum id (Pair (tl args)) (sh_print ''%s'' [Str (Some (if args = [] then [] else hd args))] s)
         else if c = CHR ''d'' then number ''%d'' 10
         else if c = CHR ''i'' then number ''%d'' 0
         else if c = CHR ''x'' then number ''%x'' 0
         else if c = CHR ''X'' then number ''%X'' 0
         else if c = CHR ''o'' then number ''%o'' 0
         else if c = CHR ''%'' then map_sum id (Pair args) (sh_print ''%%'' [] s)
         else map_sum id (Pair args) (sh_print ''%%%c'' [Num (of_nat (of_char c))] s))"

text \<open>
  A backslash at the end of the format reads its terminator as the escape and then moves behind it.
\<close>

fun printf_loop :: "string \<Rightarrow> string list \<Rightarrow> 'a sh_scheme \<Rightarrow> 'a sh_scheme res" where
  "printf_loop [] args s = Inr s"
| "printf_loop [c] args s = (if c = CHR 0x5C then Inl OutOfBounds else print_char c s)"
| "printf_loop (c # d # fmt) args s =
     (if c = CHR ''%'' then
        (case printf_conv d args s of Inl e \<Rightarrow> Inl e | Inr (rest, s1) \<Rightarrow> printf_loop fmt rest s1)
      else if c = CHR 0x5C then
        (case (if d = CHR ''n'' then sh_print newline [] s
               else if d = CHR ''t'' then sh_print [CHR 0x09] [] s
               else if d = CHR 0x5C then sh_print backslash [] s
               else sh_print (backslash @ ''%c'') [Num (of_nat (of_char d))] s) of
           Inl e \<Rightarrow> Inl e
         | Inr s1 \<Rightarrow> printf_loop fmt args s1)
      else case print_char c s of Inl e \<Rightarrow> Inl e | Inr s1 \<Rightarrow> printf_loop (d # fmt) args s1)"

definition bi_printf :: "string list \<Rightarrow> 'a sh_scheme \<Rightarrow> (int \<times> 'a sh_scheme) res" where
  "bi_printf argv s =
     (if length argv < 2 then Inr (1, s)
      else map_sum id (Pair 0) (printf_loop (argv ! 1) (drop 2 argv) s))"

section \<open>read\<close>

text \<open>
  The next key; waiting for a key that no interrupt brings does not return.
\<close>

definition sh_getkey :: "'a sh_scheme \<Rightarrow> (int \<times> 'a sh_scheme) res" where
  "sh_getkey s =
     (case keyboard_getkey (key_irqs s) (kbd_dev s) of
        None \<Rightarrow> Inl Diverges
      | Some (c, irqs, k) \<Rightarrow> Inr (c, s\<lparr>key_irqs := irqs, kbd_dev := k\<rparr>))"

text \<open>A bound on the keys that can still come: those in the queue and one for every byte of an interrupt.\<close>

definition key_budget :: "'a sh_scheme \<Rightarrow> nat" where
  "key_budget s = KBD_BUF_SIZE + sum_list (map length (key_irqs s))"

fun read_loop :: "nat \<Rightarrow> string \<Rightarrow> 'a sh_scheme \<Rightarrow> (string \<times> 'a sh_scheme) res" where
  "read_loop 0 buf s = Inl Diverges"
| "read_loop (Suc n) buf s =
     (case sh_getkey s of
        Inl e \<Rightarrow> Inl e
      | Inr (c, s1) \<Rightarrow>
          if c = 10 \<or> c = 13 \<or> \<not> length buf < 255 then Inr (buf, s1)
          else if c = 8 then read_loop n (butlast buf) s1
          else read_loop n (buf @ [char_of (nat c)]) s1)"

definition bi_read :: "string list \<Rightarrow> 'a sh_scheme \<Rightarrow> (int \<times> 'a sh_scheme) res" where
  "bi_read argv s =
     (case read_loop (Suc (key_budget s)) [] s of
        Inl e \<Rightarrow> Inl e
      | Inr (buf, s1) \<Rightarrow>
          (case sh_print newline [] s1 of
             Inl e \<Rightarrow> Inl e
           | Inr s2 \<Rightarrow>
               if length argv > 1 then map_sum id (Pair 0) (var_set (argv ! 1) (Some (cstr buf)) False s2) else Inr (0, s2)))"

section \<open>Variables and aliases\<close>

text \<open>The part before the first equals sign, cut to the size of a name, and the part behind it.\<close>

definition split_assign :: "string \<Rightarrow> (string \<times> string) option" where
  "split_assign a =
     (if CHR ''='' \<in> set a
      then Some (take (SH_VAR_NAMSZ - 1) (takeWhile (\<lambda>c. c \<noteq> CHR ''='') a), tl (dropWhile (\<lambda>c. c \<noteq> CHR ''='') a))
      else None)"

definition export_one :: "string \<Rightarrow> 'a sh_scheme \<Rightarrow> 'a sh_scheme res" where
  "export_one a s =
     (case split_assign a of
        Some (name, val) \<Rightarrow> var_set name (Some val) True s
      | None \<Rightarrow>
          (case var_find a s of
             Inl e \<Rightarrow> Inl e
           | Inr (Some i) \<Rightarrow> Inr (put_var i ((sh_vars s ! i)\<lparr>v_exported := True\<rparr>) s)
           | Inr None \<Rightarrow> var_set a (Some []) True s))"

fun each_arg :: "(string \<Rightarrow> 'a sh_scheme \<Rightarrow> 'a sh_scheme res) \<Rightarrow> string list \<Rightarrow> 'a sh_scheme \<Rightarrow> 'a sh_scheme res" where
  "each_arg f [] s = Inr s"
| "each_arg f (a # as) s = (case f a s of Inl e \<Rightarrow> Inl e | Inr s1 \<Rightarrow> each_arg f as s1)"

text \<open>\<^verbatim>\<open>for (i = 0; i + n < sh_argc; i++) sh_argv[i] = sh_argv[i + n];\<close> with \<open>k\<close> turns left\<close>

fun shift_loop :: "nat \<Rightarrow> int \<Rightarrow> int \<Rightarrow> string option list \<Rightarrow> string option list res" where
  "shift_loop 0 i n av = Inr av"
| "shift_loop (Suc k) i n av =
     (if i + n < 0 \<or> nat (i + n) \<ge> length av \<or> nat i \<ge> length av then Inl OutOfBounds
      else shift_loop k (i + 1) n (av[nat i := av ! nat (i + n)]))"

definition bi_shift :: "string list \<Rightarrow> 'a sh_scheme \<Rightarrow> (int \<times> 'a sh_scheme) res" where
  "bi_shift argv s =
     (case (if length argv > 1 then map_sum id (\<lambda>(v, _). c_int (word_of_int v)) (strtol_text (argv ! 1) 10) else Inr 1) of
        Inl e \<Rightarrow> Inl e
      | Inr n0 \<Rightarrow>
          let n = (if n0 > sh_argc s then sh_argc s else n0)
          in case shift_loop (nat (sh_argc s - n)) 0 n (sh_argv s) of
               Inl e \<Rightarrow> Inl e
             | Inr av \<Rightarrow>
                 if in_int32 (sh_argc s - n) then Inr (0, s\<lparr>sh_argv := av, sh_argc := sh_argc s - n\<rparr>) else Inl Overflow)"

definition alias_line :: "string \<Rightarrow> string \<Rightarrow> 'a sh_scheme \<Rightarrow> 'a sh_scheme res" where
  "alias_line name val s = sh_print (''alias %s='' @ [CHR 0x27] @ ''%s'' @ [CHR 0x27, CHR 0x0A]) [Str (Some name), Str (Some val)] s"

text \<open>The value of an alias without the quotes around it.\<close>

definition unquote :: "string \<Rightarrow> string" where
  "unquote v =
     (if v \<noteq> [] \<and> (hd v = CHR 0x27 \<or> hd v = CHR 0x22) \<and> last v = hd v then butlast (tl v) else v)"

definition alias_one :: "string \<Rightarrow> 'a sh_scheme \<Rightarrow> 'a sh_scheme res" where
  "alias_one a s =
     (case split_assign a of
        Some (name, val) \<Rightarrow> alias_set name (unquote val) s
      | None \<Rightarrow>
          (case alias_get a s of
             Inl e \<Rightarrow> Inl e
           | Inr None \<Rightarrow> Inr s
           | Inr (Some v) \<Rightarrow> alias_line a v s))"

fun list_aliases :: "ShAlias list \<Rightarrow> 'a sh_scheme \<Rightarrow> 'a sh_scheme res" where
  "list_aliases [] s = Inr s"
| "list_aliases (x # xs) s =
     (case alias_line (cstr (a_name x)) (cstr (a_val x)) s of Inl e \<Rightarrow> Inl e | Inr s1 \<Rightarrow> list_aliases xs s1)"

definition bi_alias :: "string list \<Rightarrow> 'a sh_scheme \<Rightarrow> (int \<times> 'a sh_scheme) res" where
  "bi_alias argv s =
     map_sum id (Pair 0)
       (if length argv = 1 then list_aliases (take (sh_nalias s) (sh_aliases s)) s else each_arg alias_one (tl argv) s)"

definition type_one :: "string \<Rightarrow> 'a sh_scheme \<Rightarrow> 'a sh_scheme res" where
  "type_one a s =
     (case alias_get a s of
        Inl e \<Rightarrow> Inl e
      | Inr (Some v) \<Rightarrow> sh_print (''%s: aliased to %s'' @ newline) [Str (Some a), Str (Some v)] s
      | Inr None \<Rightarrow>
          (case func_find a s of
             Inl e \<Rightarrow> Inl e
           | Inr (Some _) \<Rightarrow> sh_print (''%s is a shell function'' @ newline) [Str (Some a)] s
           | Inr None \<Rightarrow> sh_print (''%s is a shell builtin/command'' @ newline) [Str (Some a)] s))"

fun list_env :: "ShVar list \<Rightarrow> 'a sh_scheme \<Rightarrow> 'a sh_scheme res" where
  "list_env [] s = Inr s"
| "list_env (v # vs) s =
     (case (if v_exported v
            then sh_print (''%s=%s'' @ newline) [Str (Some (cstr (v_name v))), Str (Some (cstr (v_val v)))] s
            else Inr s) of
        Inl e \<Rightarrow> Inl e
      | Inr s1 \<Rightarrow> list_env vs s1)"

section \<open>test\<close>

abbreviation (input) status :: "bool \<Rightarrow> int" where "status b \<equiv> if b then 0 else 1"

definition test_num :: "string \<Rightarrow> int \<Rightarrow> int \<Rightarrow> int" where
  "test_num opr a b =
     (if opr = ''-eq'' then status (a = b)
      else if opr = ''-ne'' then status (a \<noteq> b)
      else if opr = ''-lt'' then status (a < b)
      else if opr = ''-le'' then status (a \<le> b)
      else if opr = ''-gt'' then status (a > b)
      else if opr = ''-ge'' then status (a \<ge> b)
      else 1)"

definition bi_test :: "string list \<Rightarrow> 'a sh_scheme \<Rightarrow> int res" where
  "bi_test argv s =
     (let args = (if argv ! 0 = ''['' \<and> length argv > 1 \<and> last argv = '']'' then butlast argv else argv)
      in case tl args of
           [] \<Rightarrow> Inr 1
         | [a] \<Rightarrow> Inr (status (a \<noteq> []))
         | [a, b] \<Rightarrow>
             Inr (if a = ''-z'' then status (b = [])
                  else if a = ''-n'' then status (b \<noteq> [])
                  else if a = ''-f'' then status (map_option fst (vfs_stat b s) = Some VFS_FILE)
                  else if a = ''-d'' then status (map_option fst (vfs_stat b s) = Some VFS_DIR)
                  else if a = ''-e'' then status (vfs_resolve b s \<ge> 0)
                  else 1)
         | [a, b, c] \<Rightarrow>
             if b = ''='' then Inr (status (a = c))
             else if b = ''!='' then Inr (status (a \<noteq> c))
             else (case (strtol_text a 10, strtol_text c 10) of
                     (Inr (x, _), Inr (y, _)) \<Rightarrow> Inr (test_num b x y)
                   | _ \<Rightarrow> Inl Overflow)
         | _ \<Rightarrow> Inr 1)"

section \<open>Program files\<close>

definition is_elf_file :: "string \<Rightarrow> 'a vfs_scheme \<Rightarrow> (bool \<times> 'a vfs_scheme) res" where
  "is_elf_file path s =
     (case vfs_open path 1 s of
        Inl e \<Rightarrow> Inl e
      | Inr (fd, s1) \<Rightarrow>
          if fd < 0 then Inr (False, s1)
          else case vfs_read fd 4 s1 of
                 Inl e \<Rightarrow> Inl e
               | Inr (n, bs, s2) \<Rightarrow>
                   (case vfs_close fd s2 of (_, s3) \<Rightarrow> Inr (n = 4 \<and> take 4 bs = [0x7F, 0x45, 0x4C, 0x46], s3)))"

end
