(* ===== verification/Shell_Cmds.thy ===== *)
theory Shell_Cmds
  imports Sh_Builtins "HOL-Library.List_Lexorder" "HOL-Library.Char_ord" "HOL-Library.Multiset"
begin

text \<open>
  The commands of \<^verbatim>\<open>src/shell/shell.c\<close> that need nothing of the interpreter: text filters, files and directories, tasks and
  the screen. A command is a function of its arguments, the name of the command first. A command without input from a
  file reads the variable \<^verbatim>\<open>STDIN_CONTENT\<close>, where a pipeline leaves the output of the stage before.
\<close>

section \<open>Text\<close>

abbreviation (input) LF :: char where "LF \<equiv> CHR 0x0A"

definition skip_line :: "string \<Rightarrow> string" where
  "skip_line p = tl (dropWhile (\<lambda>c. c \<noteq> LF) p)"

definition is_prefix :: "string \<Rightarrow> string \<Rightarrow> bool" where
  "is_prefix k t \<longleftrightarrow> take (length k) t = k"

text \<open>The text before the first occurrence of \<open>k\<close>, as \<^verbatim>\<open>strstr\<close> finds it, and the text behind it.\<close>

fun break_at :: "string \<Rightarrow> string \<Rightarrow> (string \<times> string) option" where
  "break_at k [] = (if k = [] then Some ([], []) else None)"
| "break_at k (c # t) =
     (if is_prefix k (c # t) then Some ([], drop (length k) (c # t))
      else map_option (\<lambda>(a, b). (c # a, b)) (break_at k t))"

definition bytes_text :: "u8 list \<Rightarrow> string" where
  "bytes_text bs = cstr (map (\<lambda>b. char_of (unat b)) bs)"

text \<open>The loop over the lines of a text: up to a newline, which is skipped.\<close>

function lines_of :: "string \<Rightarrow> string list" where
  "lines_of t = (if t = [] then [] else takeWhile (\<lambda>c. c \<noteq> LF) t # lines_of (skip_line t))"
  by pat_completeness auto
termination
proof (relation "measure length")
  fix t :: string
  assume "t \<noteq> []"
  then have "length (tl (dropWhile (\<lambda>c. c \<noteq> LF) t)) < length t"
    using length_dropWhile_le [of "\<lambda>c. c \<noteq> LF" t] by (cases t) (auto split: if_splits simp: less_Suc_eq_le)
  then show "(skip_line t, t) \<in> measure length" by (simp add: skip_line_def)
qed simp

declare lines_of.simps [simp del]

text \<open>Commands of a list, one after the other.\<close>

fun seq_all :: "('s \<Rightarrow> 's res) list \<Rightarrow> 's \<Rightarrow> 's res" where
  "seq_all [] s = Inr s"
| "seq_all (f # fs) s = (case f s of Inl e \<Rightarrow> Inl e | Inr s1 \<Rightarrow> seq_all fs s1)"

definition say :: "string \<Rightarrow> 'a sh_scheme \<Rightarrow> 'a sh_scheme res" where
  "say t s = sh_print t [] s"

definition say_str :: "string \<Rightarrow> string \<Rightarrow> 'a sh_scheme \<Rightarrow> 'a sh_scheme res" where
  "say_str fmt t s = sh_print fmt [Str (Some t)] s"

definition colour :: "u8 \<Rightarrow> u8 \<Rightarrow> 'a sh_scheme \<Rightarrow> 'a sh_scheme res" where
  "colour fg bg s = Inr (s\<lparr>con := vga_set_color fg bg (con s)\<rparr>)"

text \<open>A line cut to the array \<^verbatim>\<open>char[256]\<close> and printed.\<close>

definition print_line :: "string \<Rightarrow> 'a sh_scheme \<Rightarrow> 'a sh_scheme res" where
  "print_line l s = say_str (''%s'' @ newline) (take 255 l) s"

section \<open>Input\<close>

definition stdin_text :: "'a sh_scheme \<Rightarrow> string res" where
  "stdin_text s = map_sum id (\<lambda>v. case v of None \<Rightarrow> [] | Some t \<Rightarrow> t) (sh_getvar ''STDIN_CONTENT'' s)"

text \<open>The first 4095 bytes of a file; \<open>None\<close> when it cannot be opened.\<close>

definition file_text :: "string \<Rightarrow> 'a sh_scheme \<Rightarrow> (string option \<times> 'a sh_scheme) res" where
  "file_text path s =
     (case vfs_open path 1 s of
        Inl e \<Rightarrow> Inl e
      | Inr (fd, s1) \<Rightarrow>
          if fd < 0 then Inr (None, s1)
          else case vfs_read fd (of_nat (SH_PIPE_BUF - 1)) s1 of
                 Inl e \<Rightarrow> Inl e
               | Inr (n, bs, s2) \<Rightarrow> Inr (Some (bytes_text (take (nat n) bs)), snd (vfs_close fd s2)))"

text \<open>The input of a filter, from a file or from the pipe, and what is done with it; \<open>missing\<close> reports a file that is not there.\<close>

definition with_input ::
  "string option \<Rightarrow> ('a sh_scheme \<Rightarrow> 'a sh_scheme res) \<Rightarrow> (string \<Rightarrow> 'a sh_scheme \<Rightarrow> 'a sh_scheme res) \<Rightarrow> 'a sh_scheme \<Rightarrow> 'a sh_scheme res" where
  "with_input path missing f s =
     (case path of
        None \<Rightarrow> (case stdin_text s of Inl e \<Rightarrow> Inl e | Inr t \<Rightarrow> f t s)
      | Some p \<Rightarrow>
          (case file_text p s of
             Inl e \<Rightarrow> Inl e
           | Inr (None, s1) \<Rightarrow> missing s1
           | Inr (Some t, s1) \<Rightarrow> f t s1))"

section \<open>Filters\<close>

definition cmd_grep :: "string list \<Rightarrow> 'a sh_scheme \<Rightarrow> 'a sh_scheme res" where
  "cmd_grep argv s =
     (if length argv < 2 then say (''Usage: grep <pattern> [file]'' @ newline) s
      else with_input (if length argv > 2 then Some (argv ! 2) else None) (say_str (''grep: %s: not found'' @ newline) (argv ! 2))
             (\<lambda>t. seq_all (map print_line (filter (\<lambda>l. break_at (argv ! 1) l \<noteq> None) (map (take 255) (lines_of t))))) s)"

text \<open>The counters of \<^verbatim>\<open>wc\<close>: lines, words, characters and whether the last character was part of a word.\<close>

definition wc_step :: "char \<Rightarrow> nat \<times> nat \<times> nat \<times> bool \<Rightarrow> nat \<times> nat \<times> nat \<times> bool" where
  "wc_step c x =
     (case x of (ls, ws, cs, inw) \<Rightarrow>
        let ls1 = (if c = LF then ls + 1 else ls)
        in if c = CHR '' '' \<or> c = CHR 0x09 \<or> c = LF then (ls1, ws, cs + 1, False)
           else if \<not> inw then (ls1, ws + 1, cs + 1, True) else (ls1, ws, cs + 1, inw))"

definition wc_text :: "string \<Rightarrow> nat \<times> nat \<times> nat" where
  "wc_text t = (case fold wc_step t (0, 0, 0, False) of (ls, ws, cs, _) \<Rightarrow> (ls, ws, cs))"

definition cmd_wc :: "string list \<Rightarrow> 'a sh_scheme \<Rightarrow> 'a sh_scheme res" where
  "cmd_wc argv s =
     with_input (if length argv > 1 then Some (argv ! 1) else None) (say_str (''wc: %s: not found'' @ newline) (argv ! 1))
       (\<lambda>t. case wc_text t of (ls, ws, cs) \<Rightarrow> sh_print (''%d %d %d'' @ newline) [Num (of_nat ls), Num (of_nat ws), Num (of_nat cs)]) s"

text \<open>The options of \<^verbatim>\<open>head\<close> and \<^verbatim>\<open>tail\<close>: the number behind \<^verbatim>\<open>-n\<close>, and any other word as the path.\<close>

fun count_opts :: "string list \<Rightarrow> int \<Rightarrow> string option \<Rightarrow> (int \<times> string option) res" where
  "count_opts (a # b # r) n path =
     (if a = ''-n'' then (case strtol_text b 10 of Inl e \<Rightarrow> Inl e | Inr (v, _) \<Rightarrow> count_opts r (c_int (word_of_int v)) path)
      else count_opts (b # r) n (Some a))"
| "count_opts [a] n path = Inr (n, Some a)"
| "count_opts [] n path = Inr (n, path)"

definition cmd_head :: "string list \<Rightarrow> 'a sh_scheme \<Rightarrow> 'a sh_scheme res" where
  "cmd_head argv s =
     (case count_opts (tl argv) 10 None of
        Inl e \<Rightarrow> Inl e
      | Inr (n, path) \<Rightarrow>
          with_input path (say (''head: not found'' @ newline)) (\<lambda>t. seq_all (map print_line (take (nat n) (lines_of t)))) s)"

text \<open>The text behind the newline whose number is \<open>skip\<close>; without such a newline, the end of the text.\<close>

fun behind_newline :: "string \<Rightarrow> int \<Rightarrow> int \<Rightarrow> string" where
  "behind_newline [] ln skip = []"
| "behind_newline (c # p) ln skip =
     (if c = LF then if ln + 1 = skip then p else behind_newline p (ln + 1) skip else behind_newline p ln skip)"

definition tail_text :: "int \<Rightarrow> string \<Rightarrow> string" where
  "tail_text n t = (let total = int (count_list t LF) in behind_newline t 0 (if total > n then total - n else 0))"

definition cmd_tail :: "string list \<Rightarrow> 'a sh_scheme \<Rightarrow> 'a sh_scheme res" where
  "cmd_tail argv s =
     (case count_opts (tl argv) 10 None of
        Inl e \<Rightarrow> Inl e
      | Inr (n, path) \<Rightarrow> with_input path (say (''tail: not found'' @ newline)) (\<lambda>t. say_str ''%s'' (tail_text n t)) s)"

text \<open>The sort: entries \<open>i\<close> and \<open>j\<close> change places when they are out of order.\<close>

definition text_gt :: "string \<Rightarrow> string \<Rightarrow> bool" where
  "text_gt a b = (case strcmp (cz a) (cz b) of None \<Rightarrow> False | Some r \<Rightarrow> r > 0)"

definition swap_if :: "nat \<Rightarrow> nat \<Rightarrow> string list \<Rightarrow> string list" where
  "swap_if i j xs = (if text_gt (xs ! i) (xs ! j) then xs[i := xs ! j, j := xs ! i] else xs)"

definition sort_lines :: "string list \<Rightarrow> string list" where
  "sort_lines xs = fold (\<lambda>i. fold (swap_if i) [i + 1..<length xs]) [0..<length xs - 1] xs"

definition cmd_sort :: "string list \<Rightarrow> 'a sh_scheme \<Rightarrow> 'a sh_scheme res" where
  "cmd_sort argv s =
     (case sh_getvar ''STDIN_CONTENT'' s of
        Inl e \<Rightarrow> Inl e
      | Inr None \<Rightarrow> Inr s
      | Inr (Some t) \<Rightarrow> seq_all (map (say_str (''%s'' @ newline)) (sort_lines (take 256 (lines_of t)))) s)"

text \<open>
  \<^verbatim>\<open>prev = lb\<close> keeps a pointer to the array of the loop body, which is the array of the next line too: from the second
  line on the comparison is of the line with itself.
\<close>

definition cmd_uniq :: "string list \<Rightarrow> 'a sh_scheme \<Rightarrow> 'a sh_scheme res" where
  "cmd_uniq argv s =
     (case stdin_text s of
        Inl e \<Rightarrow> Inl e
      | Inr t \<Rightarrow>
          (case lines_of t of
             [] \<Rightarrow> Inr s
           | l # _ \<Rightarrow> if take 255 l = [] then Inr s else print_line l s))"

text \<open>One character of \<^verbatim>\<open>tr\<close>: what is printed for it.\<close>

definition tr_char :: "string \<Rightarrow> string \<Rightarrow> char \<Rightarrow> string" where
  "tr_char from to c =
     (case find_idx (\<lambda>x. x = c) from of None \<Rightarrow> [c] | Some i \<Rightarrow> if i < length to then [to ! i] else [])"

definition cmd_tr :: "string list \<Rightarrow> 'a sh_scheme \<Rightarrow> 'a sh_scheme res" where
  "cmd_tr argv s =
     (if length argv < 3 then say (''Usage: tr <from> <to>'' @ newline) s
      else case stdin_text s of
             Inl e \<Rightarrow> Inl e
           | Inr t \<Rightarrow> seq_all (map print_char (concat (map (tr_char (argv ! 1) (argv ! 2)) t))) s)"

text \<open>Writing texts to an open file.\<close>

definition fd_put :: "int \<Rightarrow> string \<Rightarrow> 'a sh_scheme \<Rightarrow> 'a sh_scheme res" where
  "fd_put fd t s = map_sum id snd (vfs_write fd (chars t) s)"

definition write_file :: "string \<Rightarrow> ('a sh_scheme \<Rightarrow> 'a sh_scheme res) \<Rightarrow> string list \<Rightarrow> 'a sh_scheme \<Rightarrow> 'a sh_scheme res" where
  "write_file path missing ts s =
     (case vfs_open path 14 s of
        Inl e \<Rightarrow> Inl e
      | Inr (fd, s1) \<Rightarrow>
          if fd < 0 then missing s1
          else map_sum id (\<lambda>s2. snd (vfs_close fd s2)) (seq_all (map (fd_put fd) ts) s1))"

definition cmd_tee :: "string list \<Rightarrow> 'a sh_scheme \<Rightarrow> 'a sh_scheme res" where
  "cmd_tee argv s =
     (case stdin_text s of
        Inl e \<Rightarrow> Inl e
      | Inr t \<Rightarrow>
          (case say_str ''%s'' t s of
             Inl e \<Rightarrow> Inl e
           | Inr s1 \<Rightarrow> if length argv > 1 then write_file (argv ! 1) Inr [t] s1 else Inr s1))"

section \<open>Files and directories\<close>

definition cmd_ls :: "string list \<Rightarrow> 'a sh_scheme \<Rightarrow> 'a sh_scheme res" where
  "cmd_ls argv s =
     (let path = (if length argv > 1 then argv ! 1 else ''.'')
      in case vfs_readdir path 256 s of (n, names) \<Rightarrow>
           if n < 0 then say_str (''ls: %s: no such directory'' @ newline) path s
           else seq_all (concat (map (\<lambda>nm. if nm \<noteq> [] \<and> last nm = CHR ''/''
                                          then [colour 9 0, say_str (''%s'' @ newline) (butlast nm)]
                                          else [colour 15 0, say_str (''%s'' @ newline) nm]) names) @ [colour 15 0]) s)"

text \<open>The loop of \<^verbatim>\<open>cat\<close>; \<open>None\<close> when it does not end, as on a device that always has more to read.\<close>

partial_function (option) cat_loop :: "int \<Rightarrow> 'a sh_scheme \<Rightarrow> 'a sh_scheme res option" where
  "cat_loop fd s =
     (case vfs_read fd 255 s of
        Inl e \<Rightarrow> Some (Inl e)
      | Inr (n, bs, s1) \<Rightarrow>
          if \<not> n > 0 then Some (Inr s1)
          else case say_str ''%s'' (bytes_text (take (nat n) bs)) s1 of
                 Inl e \<Rightarrow> Some (Inl e)
               | Inr s2 \<Rightarrow> cat_loop fd s2)"

definition cmd_cat :: "string list \<Rightarrow> 'a sh_scheme \<Rightarrow> 'a sh_scheme res" where
  "cmd_cat argv s =
     (if length argv < 2 then say (''Usage: cat <file>'' @ newline) s
      else case vfs_open (argv ! 1) 1 s of
             Inl e \<Rightarrow> Inl e
           | Inr (fd, s1) \<Rightarrow>
               if fd < 0 then say_str (''cat: %s: not found'' @ newline) (argv ! 1) s1
               else case cat_loop fd s1 of
                      None \<Rightarrow> Inl Diverges
                    | Some (Inl e) \<Rightarrow> Inl e
                    | Some (Inr s2) \<Rightarrow> say newline (snd (vfs_close fd s2)))"

text \<open>The texts \<^verbatim>\<open>write\<close> stores: its words with blanks between them, and a newline.\<close>

fun write_texts :: "string list \<Rightarrow> string list" where
  "write_texts [] = [newline]"
| "write_texts [w] = [w, newline]"
| "write_texts (w # ws) = w # '' '' # write_texts ws"

definition cmd_write :: "string list \<Rightarrow> 'a sh_scheme \<Rightarrow> 'a sh_scheme res" where
  "cmd_write argv s =
     (if length argv < 3 then say (''Usage: write <file> <text...>'' @ newline) s
      else write_file (argv ! 1) (say_str (''write: cannot open %s'' @ newline) (argv ! 1)) (write_texts (drop 2 argv)) s)"

definition cmd_mkdir :: "string list \<Rightarrow> 'a sh_scheme \<Rightarrow> 'a sh_scheme res" where
  "cmd_mkdir argv s =
     (if length argv < 2 then say (''Usage: mkdir <dir>'' @ newline) s
      else case vfs_mkdir (argv ! 1) s of (r, s1) \<Rightarrow> if r < 0 then say (''mkdir: failed'' @ newline) s1 else Inr s1)"

definition cmd_rm :: "string list \<Rightarrow> 'a sh_scheme \<Rightarrow> 'a sh_scheme res" where
  "cmd_rm argv s =
     (if length argv < 2 then say (''Usage: rm <path>'' @ newline) s
      else case vfs_unlink (argv ! 1) s of
             Inl e \<Rightarrow> Inl e
           | Inr (r, s1) \<Rightarrow> if r < 0 then say (''rm: failed'' @ newline) s1 else Inr s1)"

definition cmd_cd :: "string list \<Rightarrow> 'a sh_scheme \<Rightarrow> 'a sh_scheme res" where
  "cmd_cd argv s =
     (let path = (if length argv > 1 then argv ! 1 else ''/''); inode = vfs_resolve path s
      in if inode < 0 then say_str (''cd: %s: not found'' @ newline) path s
         else case vfs_stat path s of
                None \<Rightarrow> Inl Uninit
              | Some (t, _) \<Rightarrow>
                  if t \<noteq> VFS_DIR then say (''cd: not a directory'' @ newline) s else Inr (vfs_set_cwd (word_of_int inode) s))"

definition cmd_pwd :: "string list \<Rightarrow> 'a sh_scheme \<Rightarrow> 'a sh_scheme res" where
  "cmd_pwd argv s =
     (case vfs_getcwd (replicate 256 NUL) 256 s of
        Inl e \<Rightarrow> Inl e
      | Inr b \<Rightarrow> sh_print (''%s'' @ newline) [Str (map_option cstr b)] s)"

section \<open>Tasks\<close>

text \<open>\<^verbatim>\<open>katoi\<close>: signed 64-bit arithmetic, undefined outside its range.\<close>

fun katoi_loop :: "string \<Rightarrow> int \<Rightarrow> int res" where
  "katoi_loop [] v = Inr v"
| "katoi_loop (c # p) v =
     (if uchar (CHR ''0'') \<le> uchar c \<and> uchar c \<le> uchar (CHR ''9'')
      then (case int64 (v * 10 + (uchar c - uchar (CHR ''0''))) of Inl e \<Rightarrow> Inl e | Inr v1 \<Rightarrow> katoi_loop p v1)
      else Inr v)"

definition katoi :: "string \<Rightarrow> int res" where
  "katoi t = (if at_char (CHR ''-'') t then map_sum id uminus (katoi_loop (tl t) 0) else katoi_loop t 0)"

fun state_name :: "TaskState \<Rightarrow> string" where
  "state_name TASK_RUNNING = ''RUN''"
| "state_name TASK_READY = ''RDY''"
| "state_name TASK_SLEEPING = ''SLP''"
| "state_name TASK_DEAD = ''DED''"

definition cmd_ps :: "string list \<Rightarrow> 'a sh_scheme \<Rightarrow> 'a sh_scheme res" where
  "cmd_ps argv s =
     seq_all (say (''PID  STATE  NAME'' @ newline) #
       map (\<lambda>t. sh_print (''%-4u %-6s %s'' @ newline) [Num (ucast (t_pid t)), Str (Some (state_name (t_state t))), Str (Some (t_name t))])
         (take (num_tasks s) (tasks s))) s"

definition cmd_kill :: "string list \<Rightarrow> 'a sh_scheme \<Rightarrow> 'a sh_scheme res" where
  "cmd_kill argv s =
     (if length argv < 2 then say (''Usage: kill <pid>'' @ newline) s
      else case katoi (argv ! 1) of
             Inl e \<Rightarrow> Inl e
           | Inr v \<Rightarrow>
               let pid = word_of_int v :: u32
               in case find_idx (\<lambda>t. t_pid t = pid) (take (num_tasks s) (tasks s)) of
                    None \<Rightarrow> sh_print (''kill: pid %u not found'' @ newline) [Num (ucast pid)] s
                  | Some i \<Rightarrow>
                      if i = current_idx s then say (''kill: cannot kill self'' @ newline) s
                      else sh_print (''Killed pid %u'' @ newline) [Num (ucast pid)] (set_state i TASK_DEAD s))"

text \<open>A task that sleeps or waits takes what the other tasks do meanwhile.\<close>

definition cmd_sleep :: "(u64 \<times> ('a sh_scheme \<Rightarrow> 'a sh_scheme)) list \<Rightarrow> string list \<Rightarrow> 'a sh_scheme \<Rightarrow> 'a sh_scheme res" where
  "cmd_sleep ws argv s =
     (if length argv < 2 then say (''Usage: sleep <ms>'' @ newline) s
      else case katoi (argv ! 1) of
             Inl e \<Rightarrow> Inl e
           | Inr v \<Rightarrow>
               (case ws of
                  [] \<Rightarrow> Inl Diverges
                | (rsp, others) # _ \<Rightarrow> Inr (others (snd (task_sleep (boot_top s) (word_of_int v) rsp s)))))"

definition sh_wait_pid :: "u32 \<Rightarrow> (u64 \<times> ('a sh_scheme \<Rightarrow> 'a sh_scheme)) list \<Rightarrow> 'a sh_scheme \<Rightarrow> 'a sh_scheme res" where
  "sh_wait_pid pid ws s =
     (case sched_wait_pid (boot_top s) pid ws s of None \<Rightarrow> Inl Diverges | Some s1 \<Rightarrow> Inr s1)"

definition cmd_desktop :: "(u64 \<times> ('a sh_scheme \<Rightarrow> 'a sh_scheme)) list \<Rightarrow> string list \<Rightarrow> 'a sh_scheme \<Rightarrow> 'a sh_scheme res" where
  "cmd_desktop ws argv s =
     (case vnl_spawn_elf_path ''/usr/bin/tinywl'' s of
        Inl e \<Rightarrow> Inl e
      | Inr (pid, s1) \<Rightarrow>
          if pid \<ge> 0 then sh_wait_pid (word_of_int pid) ws s1
          else say (''ERROR: Failed to launch /usr/bin/tinywl'' @ newline) s1)"

definition cmd_gui :: "(u64 \<times> ('a sh_scheme \<Rightarrow> 'a sh_scheme)) list \<Rightarrow> string list \<Rightarrow> 'a sh_scheme \<Rightarrow> 'a sh_scheme res" where
  "cmd_gui ws argv s =
     (if \<not> fb_ok (con s) then say (''gui: linear framebuffer required (boot base entry with 1024x768 FB).'' @ newline) s
      else case say (''Launching tinywl Wayland compositor...'' @ newline) s of
             Inl e \<Rightarrow> Inl e
           | Inr s1 \<Rightarrow> cmd_desktop ws argv s1)"

section \<open>The screen and the system\<close>

definition cmd_help :: "string list \<Rightarrow> 'a sh_scheme \<Rightarrow> 'a sh_scheme res" where
  "cmd_help argv =
     seq_all (map (\<lambda>l. say (l @ newline))
       [''Commands: help neofetch uname mem uptime clear echo color hello'',
        ''          ls cat write mkdir rm cd pwd'',
        ''          ps kill sleep lspci poweroff reboot panic halt'',
        ''          sh bash eval source ring3test gui guiinfo vinstall vpkg desktop'',
        ''          neovim htop'',
        ''          grep wc head tail sort uniq tr tee'',
        ''Shell: Variables, if/while/for, pipes, redirects, functions''])"

definition cmd_uname :: "string list \<Rightarrow> 'a sh_scheme \<Rightarrow> 'a sh_scheme res" where
  "cmd_uname argv = say (''VNL 0.2.0 (Vibe Not Linux) #1 SMP x86_64'' @ newline)"

definition mib :: "u64 \<Rightarrow> u64" where
  "mib pages = (pages * 4096) div (1024 * 1024)"

definition cmd_mem :: "string list \<Rightarrow> 'a sh_scheme \<Rightarrow> 'a sh_scheme res" where
  "cmd_mem argv s =
     (let fp = pmm_free_pages s; tp = pmm_total_pages s
      in sh_print (''Total: %llu MiB  Used: %llu MiB  Free: %llu MiB'' @ newline) [Num (mib tp), Num (mib (tp - fp)), Num (mib fp)] s)"

definition cmd_uptime :: "string list \<Rightarrow> 'a sh_scheme \<Rightarrow> 'a sh_scheme res" where
  "cmd_uptime argv s =
     (let t = timer_ticks (cpu_st s); sec = t div 1000; m = sec div 60
      in sh_print (''Uptime: %llu:%02llu:%02llu.%03llu'' @ newline) [Num (m div 60), Num (m mod 60), Num (sec mod 60), Num (t mod 1000)] s)"

definition cmd_clear :: "string list \<Rightarrow> 'a sh_scheme \<Rightarrow> 'a sh_scheme res" where
  "cmd_clear argv s = Inr (s\<lparr>con := vga_clear (con s)\<rparr>)"

fun echo_args :: "string list \<Rightarrow> ('a sh_scheme \<Rightarrow> 'a sh_scheme res) list" where
  "echo_args [] = []"
| "echo_args [w] = [say_str ''%s'' w]"
| "echo_args (w # ws) = say_str ''%s'' w # say '' '' # echo_args ws"

definition cmd_echo :: "string list \<Rightarrow> 'a sh_scheme \<Rightarrow> 'a sh_scheme res" where
  "cmd_echo argv = seq_all (echo_args (tl argv) @ [say newline])"

definition cmd_color :: "string list \<Rightarrow> 'a sh_scheme \<Rightarrow> 'a sh_scheme res" where
  "cmd_color argv s =
     (if length argv < 3 then say (''Usage: color <fg> <bg>'' @ newline) s
      else case katoi (argv ! 1) of
             Inl e \<Rightarrow> Inl e
           | Inr fg \<Rightarrow>
               (case katoi (argv ! 2) of
                  Inl e \<Rightarrow> Inl e
                | Inr bg \<Rightarrow> colour (word_of_int (fg mod 16)) (word_of_int (bg mod 16)) s))"

text \<open>A tilde stands for a backslash.\<close>

definition bs_text :: "string \<Rightarrow> string" where
  "bs_text t = map (\<lambda>c. if c = CHR ''~'' then CHR 0x5C else c) t"

definition cmd_hello :: "string list \<Rightarrow> 'a sh_scheme \<Rightarrow> 'a sh_scheme res" where
  "cmd_hello argv =
     seq_all ([colour 11 0] @
       map (\<lambda>l. say (bs_text l @ newline))
         [''  ____   ____  _   _ _     '',
          '' / ___| / ___|| | | | |    '',
          '' ~___ ~| |    | |_| | |    '',
          ''  ___) | |___ |  _  | |___ '',
          '' |____/ ~____||_| |_|_____|''] @
       [say (newline @ ''  Vibe Not Linux - It'' @ [CHR 0x27] @ ''s a vibe.'' @ newline @ newline), colour 15 0])"

definition logo :: "(u8 \<times> string) list" where
  "logo =
     [(11, ''   ____    ____   ''), (11, ''   ~   ~  /   /   ''), (9, ''    ~   ~/   /    ''), (9, ''     ~      /     ''),
      (13, ''      ~    /      ''), (12, ''       ~  /       ''), (12, ''        ~/        ''), (15, ''                  ''),
      (10, ''      V I B E     '')]"

definition info_row :: "string \<Rightarrow> (string \<Rightarrow> 'a sh_scheme \<Rightarrow> 'a sh_scheme res) \<Rightarrow> string \<Rightarrow> ('a sh_scheme \<Rightarrow> 'a sh_scheme res) list" where
  "info_row label f val = [colour 10 0, say label, colour 15 0, f val]"

definition palette :: "nat list \<Rightarrow> ('a sh_scheme \<Rightarrow> 'a sh_scheme res) list" where
  "palette cs = concat (map (\<lambda>c. [colour 15 (of_nat c), say ''  '']) cs) @ [colour 15 0, say newline]"

definition info_rows :: "string \<Rightarrow> string \<Rightarrow> ('a sh_scheme \<Rightarrow> 'a sh_scheme res) list list" where
  "info_rows uptline memline =
     (let line = (\<lambda>t. say (t @ newline)); str = say_str (''%s'' @ newline)
      in [[colour 10 0, line ''vnl@vnl''], [line ''-------''], info_row ''OS: '' line ''Vibe Not Linux x86_64'',
          info_row ''Kernel: '' line ''VNL 0.2.0'', info_row ''Uptime: '' str uptline, info_row ''Shell: '' line ''sh'',
          info_row ''DE: '' line ''VNL 9x'', info_row ''Memory: '' str memline, [line []], palette [0..<8], palette [8..<16], [line []]])"

definition cmd_neofetch :: "string list \<Rightarrow> 'a sh_scheme \<Rightarrow> 'a sh_scheme res" where
  "cmd_neofetch argv s =
     (let sec = timer_ticks (cpu_st s) div 1000; r = sec mod 86400; fp = pmm_free_pages s; tp = pmm_total_pages s
      in case ksprintf 80 ''%llu d, %llu h, %llu m'' [Num (sec div 86400), Num (r div 3600), Num (r mod 3600 div 60)] s of
           Inl e \<Rightarrow> Inl e
         | Inr (_, ut, _) \<Rightarrow>
             (case ksprintf 80 ''%llu MiB / %llu MiB'' [Num (mib (tp - fp)), Num (mib tp)] s of
                Inl e \<Rightarrow> Inl e
              | Inr (_, mm, _) \<Rightarrow>
                  let rows = info_rows (cstr ut) (cstr mm);
                      row = (\<lambda>i. (if i < 9 then [colour (fst (logo ! i)) 0, say_str ''%s'' (bs_text (snd (logo ! i)))]
                                  else [say ''                  '']) @ [say ''   '', colour 15 0] @ rows ! i)
                  in seq_all (concat (map row [0..<12]) @ [colour 15 0]) s))"

definition cmd_guiinfo :: "string list \<Rightarrow> 'a sh_scheme \<Rightarrow> 'a sh_scheme res" where
  "cmd_guiinfo argv =
     seq_all (map (\<lambda>l. say (l @ newline))
       [''VNL Bare-Metal GUI Subsystem:'',
        ''  Direct-mapped linear framebuffer (1024x768x32)'',
        ''  Double-buffered software pointer and vector widget rendering'',
        ''  Type '' @ [CHR 0x27] @ ''gui'' @ [CHR 0x27] @ '' to launch the interactive environment.''])"

definition net_ping :: "string \<Rightarrow> 'a sh_scheme \<Rightarrow> 'a sh_scheme res" where
  "net_ping ip =
     seq_all
       [sh_print (''PING %s (%s): 56 data bytes'' @ newline) [Str (Some ip), Str (Some ip)],
        say_str (''64 bytes from %s: icmp_seq=1 ttl=64 time=1.42 ms'' @ newline) ip,
        say_str (''64 bytes from %s: icmp_seq=2 ttl=64 time=1.38 ms'' @ newline) ip,
        say_str (''--- %s ping statistics ---'' @ newline) ip,
        say (''2 packets transmitted, 2 received, 0%% packet loss'' @ newline)]"

definition cmd_ping :: "string list \<Rightarrow> 'a sh_scheme \<Rightarrow> 'a sh_scheme res" where
  "cmd_ping argv s = (if length argv < 2 then say (''Usage: ping <ip>'' @ newline) s else net_ping (argv ! 1) s)"

definition cmd_panic :: "string list \<Rightarrow> 'a sh_scheme \<Rightarrow> 'a sh_scheme res" where
  "cmd_panic argv s = Inl (Panic (if length argv > 1 then argv ! 1 else ''Manual panic''))"

text \<open>\<^verbatim>\<open>halt_loop\<close> does not return.\<close>

definition cmd_halt :: "string list \<Rightarrow> 'a sh_scheme \<Rightarrow> 'a sh_scheme res" where
  "cmd_halt argv s = (case say (''Halting.'' @ newline) s of Inl e \<Rightarrow> Inl e | Inr _ \<Rightarrow> Inl Diverges)"

section \<open>The table\<close>

text \<open>The commands of the table \<^verbatim>\<open>cmds\<close> that this theory has, in its order.\<close>

definition plain_cmds ::
  "(u64 \<times> ('a sh_scheme \<Rightarrow> 'a sh_scheme)) list \<Rightarrow> (string \<times> (string list \<Rightarrow> 'a sh_scheme \<Rightarrow> 'a sh_scheme res)) list" where
  "plain_cmds ws =
     [(''help'', cmd_help), (''neofetch'', cmd_neofetch), (''uname'', cmd_uname), (''mem'', cmd_mem), (''uptime'', cmd_uptime),
      (''clear'', cmd_clear), (''echo'', cmd_echo), (''color'', cmd_color), (''hello'', cmd_hello), (''ls'', cmd_ls), (''cat'', cmd_cat),
      (''write'', cmd_write), (''mkdir'', cmd_mkdir), (''rm'', cmd_rm), (''cd'', cmd_cd), (''pwd'', cmd_pwd), (''ps'', cmd_ps),
      (''kill'', cmd_kill), (''sleep'', cmd_sleep ws), (''panic'', cmd_panic), (''halt'', cmd_halt),
      (''ring3test'', \<lambda>_. user_ring3_demo_spawn), (''gui'', cmd_gui ws), (''guiinfo'', cmd_guiinfo), (''grep'', cmd_grep),
      (''wc'', cmd_wc), (''head'', cmd_head), (''tail'', cmd_tail), (''sort'', cmd_sort), (''uniq'', cmd_uniq), (''tr'', cmd_tr),
      (''tee'', cmd_tee), (''test'', \<lambda>_. Inr), (''desktop'', cmd_desktop ws), (''ping'', cmd_ping)]"

section \<open>Sorting\<close>

text \<open>Comparing with \<^verbatim>\<open>strcmp\<close> is the lexicographic order of the characters.\<close>

lemma uchar_less_iff: "uchar a < uchar b \<longleftrightarrow> a < b"
  by (simp add: uchar_def less_char_def)

lemma text_gt_iff:
  assumes "NUL \<notin> set a" and "NUL \<notin> set b"
  shows "text_gt a b \<longleftrightarrow> b < a"
  using assms
proof (induction a arbitrary: b)
  case Nil
  then show ?case by (cases b) (auto simp: text_gt_def cz_def uchar_def)
next
  case (Cons x a)
  show ?case
  proof (cases b)
    case Nil
    have "of_char x \<noteq> (0 :: nat)" using Cons.prems(1) of_char_eq_iff [of x NUL, where ?'a = nat] by auto
    with Nil Cons.prems show ?thesis by (auto simp: text_gt_def cz_def uchar_def)
  next
    case (Cons y ys)
    with Cons.IH [of ys] Cons.prems show ?thesis by (auto simp: text_gt_def cz_def uchar_less_iff)
  qed
qed

definition ex_swap :: "nat \<Rightarrow> nat \<Rightarrow> 'b :: linorder list \<Rightarrow> 'b list" where
  "ex_swap i j xs = (if xs ! j < xs ! i then xs[i := xs ! j, j := xs ! i] else xs)"

lemma ex_swap_props:
  assumes "i < j" and "j < length xs"
  shows "length (ex_swap i j xs) = length xs" and "mset (ex_swap i j xs) = mset xs" and "take i (ex_swap i j xs) = take i xs"
    and "ex_swap i j xs ! i = min (xs ! i) (xs ! j)" and "ex_swap i j xs ! j = max (xs ! i) (xs ! j)"
    and "k \<noteq> i \<Longrightarrow> k \<noteq> j \<Longrightarrow> ex_swap i j xs ! k = xs ! k"
  using assms by (auto simp: ex_swap_def mset_swap min_def max_def)

text \<open>The inner loop brings the least of the entries from \<open>i\<close> on to place \<open>i\<close>.\<close>

lemma ex_inner:
  assumes "i < m" and "m \<le> length xs"
  defines "ys \<equiv> fold (ex_swap i) [Suc i..<m] xs"
  shows "length ys = length xs \<and> mset ys = mset xs \<and> take i ys = take i xs \<and> (\<forall>k. i < k \<and> k < m \<longrightarrow> ys ! i \<le> ys ! k)"
  unfolding ys_def using assms(1,2)
proof (induction m)
  case (Suc m)
  show ?case
  proof (cases "i < m")
    case True
    let ?ys = "fold (ex_swap i) [Suc i..<m] xs"
    have IH: "length ?ys = length xs" "mset ?ys = mset xs" "take i ?ys = take i xs" "\<forall>k. i < k \<and> k < m \<longrightarrow> ?ys ! i \<le> ?ys ! k"
      using Suc True by auto
    then have m: "m < length ?ys" using Suc.prems by simp
    note p = ex_swap_props [OF True m]
    have "ex_swap i m ?ys ! i \<le> ex_swap i m ?ys ! k" if "i < k" "k < Suc m" for k
      using that IH(4) p(4,5) p(6) [of k] by (cases "k = m") (auto simp: min_le_iff_disj)
    with True p(1-3) IH show ?thesis by simp
  next
    case False
    with Suc.prems have "i = m" by simp
    then show ?thesis by auto
  qed
qed simp

lemma ex_outer:
  assumes "i \<le> length xs"
  defines "ys \<equiv> fold (\<lambda>i. fold (ex_swap i) [Suc i..<length xs]) [0..<i] xs"
  shows "length ys = length xs \<and> mset ys = mset xs \<and> sorted (take i ys) \<and> (\<forall>a k. a < i \<and> i \<le> k \<and> k < length xs \<longrightarrow> ys ! a \<le> ys ! k)"
  unfolding ys_def using assms(1)
proof (induction i)
  case (Suc i)
  define z where "z = fold (\<lambda>i. fold (ex_swap i) [Suc i..<length xs]) [0..<i] xs"
  define y where "y = fold (ex_swap i) [Suc i..<length z] z"
  have z: "length z = length xs" "mset z = mset xs" "sorted (take i z)" "\<forall>a k. a < i \<and> i \<le> k \<and> k < length xs \<longrightarrow> z ! a \<le> z ! k"
    using Suc by (auto simp: z_def)
  have y: "length y = length z" "mset y = mset z" "take i y = take i z" "\<forall>k. i < k \<and> k < length z \<longrightarrow> y ! i \<le> y ! k"
    using ex_inner [of i "length z" z] Suc.prems z(1) unfolding y_def [symmetric] by auto
  have "mset (take i y) + mset (drop i y) = mset (take i z) + mset (drop i z)" using y(2) by (metis append_take_drop_id mset_append)
  then have d: "set (drop i y) = set (drop i z)" using y(3) by (metis add_left_cancel set_mset_mset)
  have low: "y ! a \<le> y ! k" if "a < i" "i \<le> k" "k < length xs" for a k
  proof -
    have "y ! k = drop i y ! (k - i)" "k - i < length (drop i y)" using that y(1) z(1) by simp_all
    then have "y ! k \<in> set (drop i z)" using d nth_mem by metis
    then obtain h where "h < length (drop i z)" "drop i z ! h = y ! k" by (auto simp: in_set_conv_nth)
    then obtain k' where k': "i \<le> k'" "k' < length z" "z ! k' = y ! k" by (intro that [of "i + h"]) auto
    have "y ! a = z ! a" using that(1) arg_cong [OF y(3), of "\<lambda>l. l ! a"] by simp
    moreover have "z ! a \<le> z ! k'" using z(1,4) that(1) k'(1,2) by simp
    ultimately show ?thesis using k'(3) by simp
  qed
  have "x \<le> y ! i" if "x \<in> set (take i y)" for x
    using that low [of _ i] Suc.prems by (auto simp: in_set_conv_nth)
  then have "sorted (take (Suc i) y)"
    using y(1,3) z(1,3) Suc.prems by (simp add: take_Suc_conv_app_nth sorted_append)
  moreover have "y ! a \<le> y ! k" if "a < Suc i" "Suc i \<le> k" "k < length xs" for a k
    using that low [of a k] y(4) z(1) by (cases "a = i") auto
  moreover have "fold (\<lambda>i. fold (ex_swap i) [Suc i..<length xs]) [0..<Suc i] xs = y" by (simp add: y_def z(1)) (simp add: z_def)
  ultimately show ?case using y(1,2) z(1,2) by (metis (no_types, lifting))
qed simp

lemma ex_sort_is_sort: "fold (\<lambda>i. fold (ex_swap i) [Suc i..<length xs]) [0..<length xs - 1] xs = sort xs"
proof (cases "xs = []")
  case False
  let ?n = "length xs - 1" let ?y = "fold (\<lambda>i. fold (ex_swap i) [Suc i..<length xs]) [0..<?n] xs"
  have y: "length ?y = length xs" "mset ?y = mset xs" "sorted (take ?n ?y)" "\<forall>a k. a < ?n \<and> ?n \<le> k \<and> k < length xs \<longrightarrow> ?y ! a \<le> ?y ! k"
    using ex_outer [of ?n xs] by auto
  have "?y = take ?n ?y @ [?y ! ?n]" using y(1) False by (metis Suc_pred' diff_less length_greater_0_conv order_refl take_Suc_conv_app_nth take_all zero_less_one)
  moreover have "sorted (take ?n ?y @ [?y ! ?n])" using y False by (auto simp: sorted_append in_set_conv_nth)
  ultimately have "sorted ?y" by simp
  with y(2) show ?thesis by (metis properties_for_sort)
qed simp

lemma fold_inv_cong:
  assumes "\<And>j x. j \<in> set js \<Longrightarrow> Q x \<Longrightarrow> f j x = g j x \<and> Q (g j x)" and "Q x"
  shows "fold f js x = fold g js x \<and> Q (fold g js x)"
  using assms by (induction js arbitrary: x) auto

lemma sort_lines_is_sort:
  assumes "\<forall>l \<in> set xs. NUL \<notin> set l"
  shows "sort_lines xs = sort xs"
proof -
  define Q where "Q ys \<longleftrightarrow> length ys = length xs \<and> (\<forall>l \<in> set ys. NUL \<notin> set l)" for ys
  have sw: "swap_if i j ys = ex_swap i j ys \<and> Q (ex_swap i j ys)" if "i < j" "j < length xs" "Q ys" for i j ys
  proof -
    have "NUL \<notin> set (ys ! i)" "NUL \<notin> set (ys ! j)" using that by (simp_all add: Q_def)
    then have "swap_if i j ys = ex_swap i j ys" by (simp add: swap_if_def ex_swap_def text_gt_iff)
    with that ex_swap_props(1,2) [of i j ys] show ?thesis unfolding Q_def by (metis set_mset_mset)
  qed
  have "fold (swap_if i) [i + 1..<length xs] ys = fold (ex_swap i) [Suc i..<length xs] ys \<and> Q (fold (ex_swap i) [Suc i..<length xs] ys)"
    if "Q ys" for i ys
    unfolding Suc_eq_plus1 [symmetric] by (rule fold_inv_cong) (use sw that in \<open>auto simp: Suc_le_eq\<close>)
  then have "fold (\<lambda>i. fold (swap_if i) [i + 1..<length xs]) [0..<length xs - 1] xs =
      fold (\<lambda>i. fold (ex_swap i) [Suc i..<length xs]) [0..<length xs - 1] xs \<and>
      Q (fold (\<lambda>i. fold (ex_swap i) [Suc i..<length xs]) [0..<length xs - 1] xs)"
    by (intro fold_inv_cong) (use assms in \<open>auto simp: Q_def\<close>)
  then have "sort_lines xs = fold (\<lambda>i. fold (ex_swap i) [Suc i..<length xs]) [0..<length xs - 1] xs"
    by (simp add: sort_lines_def)
  then show ?thesis using ex_sort_is_sort [of xs] by (simp only:)
qed

lemma lines_of_chars: "l \<in> set (lines_of t) \<Longrightarrow> set l \<subseteq> set t"
proof (induction t rule: lines_of.induct)
  case (1 t)
  have "skip_line t = drop (Suc (length (takeWhile (\<lambda>c. c \<noteq> LF) t))) t" by (simp add: skip_line_def dropWhile_eq_drop drop_Suc tl_drop)
  then have "set (skip_line t) \<subseteq> set t" by (simp add: set_drop_subset)
  moreover have "l \<in> set (if t = [] then [] else takeWhile (\<lambda>c. c \<noteq> LF) t # lines_of (skip_line t))"
    using 1(2) by (subst (asm) lines_of.simps)
  ultimately show ?case using 1(1) by (auto split: if_splits dest: set_takeWhileD)
qed

section \<open>Counting\<close>

definition blank :: "char \<Rightarrow> bool" where
  "blank c \<longleftrightarrow> c = CHR '' '' \<or> c = CHR 0x09 \<or> c = LF"

text \<open>The words of a text: what stands between blanks.\<close>

fun words_from :: "string \<Rightarrow> bool \<Rightarrow> nat" where
  "words_from [] inw = 0"
| "words_from (c # t) inw = (if blank c then words_from t False else (if inw then 0 else 1) + words_from t True)"

lemma wc_fold:
  "fold wc_step t (ls, ws, cs, inw) =
     (ls + count_list t LF, ws + words_from t inw, cs + length t, if t = [] then inw else \<not> blank (last t))"
  by (induction t arbitrary: ls ws cs inw) (auto simp: wc_step_def blank_def Let_def)

section \<open>The end of a text\<close>

lemma behind_newline_none: "skip \<le> ln \<Longrightarrow> behind_newline t ln skip = []"
  by (induction t ln skip rule: behind_newline.induct) auto

lemma behind_newline_some:
  assumes "ln < skip" and "skip \<le> ln + int (count_list t LF)"
  shows "\<exists>pre. t = pre @ LF # behind_newline t ln skip \<and> int (count_list pre LF) = skip - ln - 1"
  using assms
proof (induction t arbitrary: ln)
  case (Cons c t)
  show ?case
  proof (cases "c = LF \<and> ln + 1 = skip")
    case True
    then show ?thesis by (intro exI [of _ "[]"]) auto
  next
    case False
    let ?ln = "if c = LF then ln + 1 else ln"
    from False Cons.prems have "?ln < skip" "skip \<le> ?ln + int (count_list t LF)" by (auto split: if_splits)
    from Cons.IH [OF this] obtain pre where "t = pre @ LF # behind_newline t ?ln skip" "int (count_list pre LF) = skip - ?ln - 1" by blast
    with False show ?thesis by (intro exI [of _ "c # pre"]) (auto split: if_splits)
  qed
qed simp

section \<open>Properties\<close>

text \<open>
  C40: the command \<^verbatim>\<open>sort\<close> sorts. It prints the lines of its input, up to 256 of them, in the order of the library's sort by the
  lexicographic order of the characters: its exchange of out-of-order pairs computes exactly that list.
\<close>

theorem cmd_sort_prints_sorted:
  assumes "sh_getvar ''STDIN_CONTENT'' s = Inr (Some t)"
  shows "cmd_sort argv s = seq_all (map (say_str (''%s'' @ newline)) (sort (take 256 (lines_of t)))) s"
proof -
  have "NUL \<notin> set t"
    using assms cstr_clean by (auto simp: sh_getvar_def var_get_def split: sum.splits option.splits)
  then have "\<forall>l \<in> set (take 256 (lines_of t)). NUL \<notin> set l" using lines_of_chars by (blast dest: in_set_takeD)
  with assms show ?thesis by (simp add: cmd_sort_def sort_lines_is_sort)
qed

lemma demo_stdin: "\<exists>s. sh_getvar ''STDIN_CONTENT'' s = Inr (Some (''b'' @ LF # ''a'')) \<and> var_set ''STDIN_CONTENT'' (Some (''b'' @ LF # ''a'')) False (sh_boot kio_demo) = Inr s"
  using var_set_spec [OF sh_boot_vars(1), of "''STDIN_CONTENT''" "''b'' @ LF # ''a''" False kio_demo] sh_boot_vars(2,3) [of kio_demo]
  by (auto simp: sh_getvar_def var_get_map assign_def)

theorem cmd_sort_prints_sorted_witness:
  "\<exists>s :: sh. sh_getvar ''STDIN_CONTENT'' s = Inr (Some (''b'' @ LF # ''a'')) \<and>
       cmd_sort [''sort''] s = seq_all [say_str (''%s'' @ newline) ''a'', say_str (''%s'' @ newline) ''b''] s"
proof -
  obtain s :: sh where s: "sh_getvar ''STDIN_CONTENT'' s = Inr (Some (''b'' @ LF # ''a''))" using demo_stdin by blast
  have "lines_of (''b'' @ LF # ''a'') = [''b'', ''a'']" by (simp add: lines_of.simps skip_line_def)
  moreover have "sort [''b'', ''a''] = [''a'', ''b'']" by (simp add: less_char_def)
  ultimately show ?thesis using s cmd_sort_prints_sorted [OF s, of "[''sort'']"] by auto
qed

text \<open>
  The command \<^verbatim>\<open>tail\<close> prints the last lines only of a text that has more. With more newlines than lines asked for, what it
  prints is the end of the text behind a newline, with exactly that many newlines in it; with as many or fewer, it prints
  nothing at all.
\<close>

theorem tail_text_lines:
  assumes "0 \<le> n"
  shows "if n < int (count_list t LF)
         then (\<exists>pre. t = pre @ LF # tail_text n t) \<and> int (count_list (tail_text n t) LF) = n
         else tail_text n t = []"
proof (cases "n < int (count_list t LF)")
  case True
  let ?skip = "int (count_list t LF) - n"
  have b: "tail_text n t = behind_newline t 0 ?skip" using True by (simp add: tail_text_def Let_def)
  obtain pre where p: "t = pre @ LF # tail_text n t" "int (count_list pre LF) = ?skip - 0 - 1"
    unfolding b using behind_newline_some [of 0 ?skip t] True assms by auto
  have "count_list (pre @ LF # u) LF = count_list pre LF + Suc (count_list u LF)" for u by simp
  from this [of "tail_text n t"] p(1) have "count_list t LF = count_list pre LF + Suc (count_list (tail_text n t) LF)" by simp
  with p True show ?thesis by auto
next
  case False
  then show ?thesis by (simp add: tail_text_def Let_def behind_newline_none)
qed

theorem tail_text_lines_witness: "tail_text 10 (''a'' @ LF # ''b'' @ [LF]) = []"
  using tail_text_lines [of 10 "''a'' @ LF # ''b'' @ [LF]"] by simp

text \<open>
  The command \<^verbatim>\<open>pwd\<close> overruns its array in the root directory: it passes all 256 bytes of it, and the copy of the
  path writes one byte more.
\<close>

theorem pwd_root_overruns:
  assumes "vfs_cwd s = VFS_INODE_ROOT"
  shows "cmd_pwd argv s = Inl OutOfBounds"
proof -
  have "strncpy (replicate 256 NUL) (cz ''/'') 256 = None" using strncpy_short [of "''/''" 256 "replicate 256 NUL" "[]"] by simp
  with assms show ?thesis by (simp add: cmd_pwd_def vfs_getcwd_def)
qed

theorem pwd_root_overruns_witness:
  "cmd_pwd [''pwd''] ((sh_boot kio_demo)\<lparr>vfs_cwd := VFS_INODE_ROOT\<rparr>) = Inl OutOfBounds"
  by (rule pwd_root_overruns) simp

text \<open>The counters of \<^verbatim>\<open>wc\<close> are the newlines, the words and the characters.\<close>

theorem wc_text_counts: "wc_text t = (count_list t LF, words_from t False, length t)"
  by (simp add: wc_text_def wc_fold)

end
