(* ===== verification/Sh_Exec.thy ===== *)
theory Sh_Exec
  imports Shell_Cmds
begin

text \<open>
  \<^verbatim>\<open>src/shell/sh.c\<close>, the executor: simple commands, pipelines with redirections, the script interpreter with its
  control flow, and from \<^verbatim>\<open>src/shell/shell.c\<close> the dispatch of external commands. The functions call each other; a
  call is a value of the type \<open>call\<close>, each function takes the meaning of the calls it makes as an argument, and
  \<open>sh_call\<close> closes the recursion with a bound on its depth (a loop iteration of a script counts as one level). Not
  returning within the bound is \<open>Diverges\<close>. A text passed to a function is the text before its terminator.
\<close>

section \<open>Calls\<close>

datatype call =
    SimpleCmd "string list"
  | PipelineCmd string
  | StageCmds nat nat int
  | BlockFrom string bool int
  | ElifFrom string bool bool
  | WhileFrom string string string int
  | ForFrom string "string list" string string int
  | CaseFrom string string bool bool int
  | RunFile string
  | ExecCmd string

text \<open>The status, the pointer a block leaves behind, and the state.\<close>

type_synonym 'a reply = "(int \<times> string \<times> 'a sh_scheme) res"
type_synonym 'a caller = "call \<Rightarrow> 'a sh_scheme \<Rightarrow> 'a reply"

definition exec_by :: "'a caller \<Rightarrow> 'a exec" where
  "exec_by rc cmd s = map_sum id (\<lambda>(r, _, s1). (r, s1)) (rc (ExecCmd cmd) s)"

definition reply :: "(int \<times> 'a sh_scheme) res \<Rightarrow> 'a reply" where
  "reply x = map_sum id (\<lambda>(r, s). (r, [], s)) x"

text \<open>
  What the interpreter uses of the rest of the system: the commands of the table of \<^verbatim>\<open>shell.c\<close> that are not modelled (those of
  other files, and the ones that drive the bus and the power management), and what the other tasks do while it waits for a
  program.
\<close>

record 'a shenv =
  cmds :: "string \<Rightarrow> (string list \<Rightarrow> 'a sh_scheme \<Rightarrow> 'a sh_scheme res) option"
  waits :: "(u64 \<times> ('a sh_scheme \<Rightarrow> 'a sh_scheme)) list"

section \<open>External commands\<close>

text \<open>
  The search for a program: \<^verbatim>\<open>strncpy\<close> of an absolute path into \<^verbatim>\<open>tpath[128]\<close> leaves it without a terminator when the
  path has 127 characters or more.
\<close>

definition tpath_of :: "string \<Rightarrow> 'a sh_scheme \<Rightarrow> string res" where
  "tpath_of a s =
     (if at_char (CHR ''/'') a then (if length a \<ge> 127 then Inl Uninit else Inr a)
      else case ksprintf 128 ''/usr/bin/%s'' [Str (Some a)] s of Inl e \<Rightarrow> Inl e | Inr (_, t, _) \<Rightarrow> Inr (cstr t))"

definition run_program :: "'a shenv \<Rightarrow> 'a caller \<Rightarrow> string \<Rightarrow> 'a sh_scheme \<Rightarrow> 'a reply" where
  "run_program env rc exe s =
     (case is_elf_file exe s of
        Inl e \<Rightarrow> Inl e
      | Inr (False, s1) \<Rightarrow> rc (RunFile exe) s1
      | Inr (True, s1) \<Rightarrow>
          (case vnl_spawn_elf_path exe s1 of
             Inl e \<Rightarrow> Inl e
           | Inr (pid, s2) \<Rightarrow>
               if pid \<ge> 0 then
                 case sh_wait_pid (word_of_int pid) (waits env) s2 of Inl e \<Rightarrow> Inl e | Inr s3 \<Rightarrow> Inr (0, [], s3)
               else
                 case sh_print (''sh: cannot execute binary %s'' @ newline) [Str (Some exe)] s2 of
                   Inl e \<Rightarrow> Inl e
                 | Inr s3 \<Rightarrow> Inr (126, [], s3)))"

definition sh_run_string :: "'a caller \<Rightarrow> string \<Rightarrow> 'a sh_scheme \<Rightarrow> 'a reply" where
  "sh_run_string rc script s = rc (BlockFrom script True 0) (s\<lparr>sh_flow := SH_FLOW_NONE\<rparr>)"

text \<open>The commands that run scripts; they ignore the status.\<close>

definition only_state :: "'a reply \<Rightarrow> 'a sh_scheme res" where
  "only_state x = map_sum id (\<lambda>(_, _, s). s) x"

definition cmd_sh :: "'a caller \<Rightarrow> string list \<Rightarrow> 'a sh_scheme \<Rightarrow> 'a sh_scheme res" where
  "cmd_sh rc argv s =
     (if length argv > 1 then only_state (rc (RunFile (argv ! 1)) s)
      else seq_all [say (''sh: interactive sub-shell disabled. Please use the primary VNL shell.'' @ newline),
                    say (''    Usage: sh <script_file>'' @ newline)] s)"

definition cmd_bash :: "'a caller \<Rightarrow> string list \<Rightarrow> 'a sh_scheme \<Rightarrow> 'a sh_scheme res" where
  "cmd_bash rc argv s =
     (if length argv > 1 then only_state (rc (RunFile (argv ! 1)) s)
      else seq_all [say (''bash: interactive sub-shell disabled. Please use the primary VNL shell.'' @ newline),
                    say (''      Usage: bash <script_file>'' @ newline)] s)"

text \<open>The words are joined with blanks, as far as the array \<^verbatim>\<open>script[1024]\<close> goes.\<close>

definition cmd_eval :: "'a caller \<Rightarrow> string list \<Rightarrow> 'a sh_scheme \<Rightarrow> 'a sh_scheme res" where
  "cmd_eval rc argv s =
     (if length argv < 2 then say (''Usage: eval <script>'' @ newline) s
      else only_state (sh_run_string rc (take 1023 (unwords (tl argv))) s))"

definition cmd_source :: "'a caller \<Rightarrow> string list \<Rightarrow> 'a sh_scheme \<Rightarrow> 'a sh_scheme res" where
  "cmd_source rc argv s =
     (if length argv < 2 then say (''Usage: source <file>'' @ newline) s else only_state (rc (RunFile (argv ! 1)) s))"

text \<open>The table: the command of the first word, or \<open>None\<close>. The entry of \<^verbatim>\<open>vbrowser\<close> is a null pointer.\<close>

definition run_command :: "'a shenv \<Rightarrow> 'a caller \<Rightarrow> string list \<Rightarrow> 'a sh_scheme \<Rightarrow> 'a sh_scheme res option" where
  "run_command env rc argv s =
     (let a = hd argv
      in if a = ''sh'' then Some (cmd_sh rc argv s)
         else if a = ''bash'' then Some (cmd_bash rc argv s)
         else if a = ''eval'' then Some (cmd_eval rc argv s)
         else if a = ''source'' \<or> a = ''.'' then Some (cmd_source rc argv s)
         else if a = ''vbrowser'' then Some (Inl NullDeref)
         else case map_of (plain_cmds (waits env)) a of
                Some f \<Rightarrow> Some (f argv s)
              | None \<Rightarrow> map_option (\<lambda>f. f argv s) (cmds env a))"

definition shell_exec_builtin :: "'a shenv \<Rightarrow> 'a caller \<Rightarrow> string list \<Rightarrow> 'a sh_scheme \<Rightarrow> 'a reply" where
  "shell_exec_builtin env rc argv s =
     (if argv = [] then Inr (0, [], s)
      else let a = hd argv
           in case run_command env rc argv s of
                Some x \<Rightarrow> (case x of Inl e \<Rightarrow> Inl e | Inr s1 \<Rightarrow> Inr (sh_last_status s1, [], s1))
              | None \<Rightarrow>
                  (case tpath_of a s of
                     Inl e \<Rightarrow> Inl e
                   | Inr tpath \<Rightarrow>
                       if vfs_resolve tpath s \<ge> 0 then run_program env rc tpath s
                       else if vfs_resolve a s \<ge> 0 then run_program env rc a s
                       else case sh_print (''sh: %s: command not found'' @ newline) [Str (Some a)] s of
                              Inl e \<Rightarrow> Inl e
                            | Inr s1 \<Rightarrow> Inr (127, [], s1)))"

section \<open>Simple commands\<close>

text \<open>\<^verbatim>\<open>VAR=val\<close> in front of a command or alone.\<close>

definition run_assign :: "'a caller \<Rightarrow> string list \<Rightarrow> string \<times> string \<Rightarrow> 'a sh_scheme \<Rightarrow> 'a reply" where
  "run_assign rc argv nv s =
     (case expand_word (exec_by rc) (snd nv) SH_VAR_VALSZ s of
        Inl e \<Rightarrow> Inl e
      | Inr (d, s1) \<Rightarrow>
          (case dst_text d of
             Inl e \<Rightarrow> Inl e
           | Inr v \<Rightarrow>
               (case var_set (fst nv) (Some v) False s1 of
                  Inl e \<Rightarrow> Inl e
                | Inr s2 \<Rightarrow> if length argv > 1 then rc (SimpleCmd (tl argv)) s2 else Inr (0, [], s2))))"

text \<open>A call of a shell function: the positional parameters are replaced for its duration.\<close>

definition run_function :: "'a caller \<Rightarrow> string list \<Rightarrow> u64 \<Rightarrow> 'a sh_scheme \<Rightarrow> 'a reply" where
  "run_function rc argv body s =
     (let params = map Some (tl argv)
      in if length params > length (sh_argv s) then Inl OutOfBounds
         else case text_at body s of
                None \<Rightarrow> Inl OutOfBounds
              | Some script \<Rightarrow>
                  (case sh_run_string rc script
                          (s\<lparr>sh_argc := int (length params), sh_argv := params @ drop (length params) (sh_argv s)\<rparr>) of
                     Inl e \<Rightarrow> Inl e
                   | Inr (r, p, s1) \<Rightarrow> Inr (r, [], s1\<lparr>sh_argc := sh_argc s, sh_argv := sh_argv s\<rparr>)))"

text \<open>The text of an alias with the remaining arguments behind it; \<^verbatim>\<open>strncat\<close> cuts it to the array.\<close>

definition alias_command :: "string \<Rightarrow> string list \<Rightarrow> string" where
  "alias_command t args =
     fold (\<lambda>a b. let c = b @ take (SH_LINE_MAX - length b - 1) '' '' in c @ take (SH_LINE_MAX - length c - 1) a) args t"

definition run_alias :: "'a caller \<Rightarrow> string list \<Rightarrow> string \<Rightarrow> 'a sh_scheme \<Rightarrow> 'a reply" where
  "run_alias rc argv aliased s =
     (case expand_word (exec_by rc) aliased SH_LINE_MAX s of
        Inl e \<Rightarrow> Inl e
      | Inr (d, s1) \<Rightarrow>
          (case dst_text d of
             Inl e \<Rightarrow> Inl e
           | Inr t \<Rightarrow> rc (ExecCmd (alias_command t (tl argv))) s1))"

text \<open>What is left when no builtin has the name: an assignment, a function, an alias, an external command.\<close>

definition run_other :: "'a shenv \<Rightarrow> 'a caller \<Rightarrow> string list \<Rightarrow> 'a sh_scheme \<Rightarrow> 'a reply" where
  "run_other env rc argv s =
     (let cmd = hd argv
      in case (if at_char (CHR ''='') cmd then None else split_assign cmd) of
           Some nv \<Rightarrow> run_assign rc argv nv s
         | None \<Rightarrow>
             (case func_find cmd s of
                Inl e \<Rightarrow> Inl e
              | Inr fn \<Rightarrow>
                  let body = (case fn of None \<Rightarrow> 0 | Some i \<Rightarrow> fn_body (sh_funcs s ! i))
                  in if body \<noteq> 0 then run_function rc argv body s
                     else case alias_get cmd s of
                            Inl e \<Rightarrow> Inl e
                          | Inr (Some t) \<Rightarrow> run_alias rc argv t s
                          | Inr None \<Rightarrow> shell_exec_builtin env rc argv s))"

definition sh_run_simple :: "'a shenv \<Rightarrow> 'a caller \<Rightarrow> string list \<Rightarrow> 'a sh_scheme \<Rightarrow> 'a reply" where
  "sh_run_simple env rc argv s =
     (if argv = [] then Inr (0, [], s)
      else let cmd = hd argv
           in if cmd = ''true'' then Inr (0, [], s)
              else if cmd = ''false'' then Inr (1, [], s)
              else if cmd = '':'' then Inr (0, [], s)
              else if cmd = ''echo'' then reply (bi_echo argv s)
              else if cmd = ''printf'' then reply (bi_printf argv s)
              else if cmd = ''read'' then reply (bi_read argv s)
              else if cmd = ''export'' then reply (map_sum id (Pair 0) (each_arg export_one (tl argv) s))
              else if cmd = ''unset'' then reply (map_sum id (Pair 0) (each_arg var_unset (tl argv) s))
              else if cmd = ''shift'' then reply (bi_shift argv s)
              else if cmd = ''alias'' then reply (bi_alias argv s)
              else if cmd = ''type'' \<or> cmd = ''which'' then reply (map_sum id (Pair 0) (each_arg type_one (tl argv) s))
              else if cmd = ''env'' then reply (map_sum id (Pair 0) (list_env (take (sh_nvar s) (sh_vars s)) s))
              else if cmd = ''test'' \<or> cmd = ''['' then map_sum id (\<lambda>r. (r, [], s)) (bi_test argv s)
              else run_other env rc argv s)"

definition sh_exec :: "'a caller \<Rightarrow> string \<Rightarrow> 'a sh_scheme \<Rightarrow> 'a reply" where
  "sh_exec rc cmdline s =
     (case expand_word (exec_by rc) cmdline SH_LINE_MAX s of
        Inl e \<Rightarrow> Inl e
      | Inr (d, s1) \<Rightarrow>
          (case dst_text d of
             Inl e \<Rightarrow> Inl e
           | Inr line \<Rightarrow>
               (case tokenize (exec_by rc) line SH_MAX_ARGS (SH_LINE_MAX * 2) s1 of
                  Inl e \<Rightarrow> Inl e
                | Inr (argv, s2) \<Rightarrow> if argv = [] then Inr (0, [], s2) else rc (SimpleCmd argv) s2)))"

section \<open>Pipelines\<close>

text \<open>
  The line split at the pipe signs outside quotes and parentheses: the stages, each cut to 1023 characters. Splitting
  stops at the eighth sign.
\<close>

fun split_stages :: "string \<Rightarrow> string list \<Rightarrow> string \<Rightarrow> int \<Rightarrow> bool \<Rightarrow> bool \<Rightarrow> string list" where
  "split_stages [] done1 cur depth sq dq = done1 @ [cur]"
| "split_stages (c # p) done1 cur depth sq dq =
     (if length done1 \<ge> 8 then done1 @ [cur]
      else let add = cur @ take (SH_LINE_MAX - 1 - length cur) [c]
           in if c = CHR 0x27 \<and> \<not> dq then split_stages p done1 add depth (\<not> sq) dq
              else if c = CHR 0x22 \<and> \<not> sq then split_stages p done1 add depth sq (\<not> dq)
              else if \<not> sq \<and> \<not> dq \<and> c = CHR ''('' then split_stages p done1 add (depth + 1) sq dq
              else if \<not> sq \<and> \<not> dq \<and> c = CHR '')'' then split_stages p done1 add (depth - 1) sq dq
              else if \<not> sq \<and> \<not> dq \<and> c = CHR ''|'' \<and> depth = 0 \<and> \<not> at_char (CHR ''|'') p
              then split_stages p (done1 @ [cur]) [] depth sq dq
              else split_stages p done1 add depth sq dq)"

text \<open>The scanner for redirections: the command without them and the names it met.\<close>

record redirs =
  rd_line :: string
  rd_out :: "string option"
  rd_app :: "string option"
  rd_in :: "string option"

definition redir_name :: "string \<Rightarrow> string \<times> string" where
  "redir_name cp =
     (let q = dropWhile (\<lambda>c. c = CHR '' '') cp; name = take 127 (takeWhile (\<lambda>c. c \<noteq> CHR '' '') q)
      in (name, drop (length name) q))"

lemma redir_name_shorter: "(n, q) = redir_name cp \<Longrightarrow> length q \<le> length cp"
proof -
  assume "(n, q) = redir_name cp"
  then have "length q \<le> length (dropWhile (\<lambda>c. c = CHR '' '') cp)" by (simp add: redir_name_def Let_def)
  with dropWhile_length [of "\<lambda>c. c = CHR '' ''" cp] show ?thesis by linarith
qed

lemma redir_name_shorter_tl: "(n, q) = redir_name (tl cp) \<Longrightarrow> length q \<le> length cp"
  using redir_name_shorter [of n q "tl cp"] by simp

function (sequential) scan_redirs :: "string \<Rightarrow> redirs \<Rightarrow> redirs" where
  "scan_redirs [] x = x"
| "scan_redirs (c # cp) x =
     (if c = CHR ''>'' \<and> at_char (CHR ''>'') cp then
        (case redir_name (tl cp) of (n, q) \<Rightarrow> scan_redirs q (x\<lparr>rd_app := Some n\<rparr>))
      else if c = CHR ''2'' \<and> take 3 cp = ''>&1'' then scan_redirs (drop 3 cp) x
      else if c = CHR ''2'' \<and> at_char (CHR ''>'') cp then (case redir_name (tl cp) of (n, q) \<Rightarrow> scan_redirs q x)
      else if c = CHR ''>'' then (case redir_name cp of (n, q) \<Rightarrow> scan_redirs q (x\<lparr>rd_out := Some n\<rparr>))
      else if c = CHR ''<'' then (case redir_name cp of (n, q) \<Rightarrow> scan_redirs q (x\<lparr>rd_in := Some n\<rparr>))
      else scan_redirs cp (x\<lparr>rd_line := rd_line x @ [c]\<rparr>))"
  by pat_completeness auto
termination
  by (relation "measure (\<lambda>(cp, x). length cp)") (auto dest: redir_name_shorter redir_name_shorter_tl simp: less_Suc_eq_le)

text \<open>Reading a file into \<^verbatim>\<open>STDIN_CONTENT\<close>, and writing the captured output.\<close>

definition redirect_in :: "'a sh_scheme \<Rightarrow> 'a sh_scheme res" where
  "redirect_in s =
     (case vfs_open (st_in s) 1 s of
        Inl e \<Rightarrow> Inl e
      | Inr (fd, s1) \<Rightarrow>
          if fd < 0 then Inr s1
          else case vfs_read fd (of_nat (SH_PIPE_BUF - 1)) s1 of
                 Inl e \<Rightarrow> Inl e
               | Inr (n, bs, s2) \<Rightarrow>
                   (case vfs_close fd s2 of (_, s3) \<Rightarrow>
                      var_set ''STDIN_CONTENT'' (Some (bytes_text (take (nat n) bs))) False s3))"

definition redirect_out :: "string \<Rightarrow> int \<Rightarrow> 'a sh_scheme \<Rightarrow> 'a sh_scheme res" where
  "redirect_out name flags s =
     (case vfs_open name flags s of
        Inl e \<Rightarrow> Inl e
      | Inr (fd, s1) \<Rightarrow>
          if fd < 0 then Inr s1
          else case strlen (st_redir s1) of
                 None \<Rightarrow> Inl OutOfBounds
               | Some n \<Rightarrow>
                   (case vfs_write fd (chars (take n (st_redir s1))) s1 of
                      Inl e \<Rightarrow> Inl e
                    | Inr (_, s2) \<Rightarrow> Inr (snd (vfs_close fd s2))))"

text \<open>
  One command with its redirections. The names are in static arrays: what the command itself redirects changes them before
  they are used.
\<close>

definition run_redirected :: "'a caller \<Rightarrow> string \<Rightarrow> 'a sh_scheme \<Rightarrow> 'a reply" where
  "run_redirected rc stage s =
     (if length stage \<ge> SH_LINE_MAX - 1 then Inl Uninit
      else let x = scan_redirs stage \<lparr>rd_line = [], rd_out = None, rd_app = None, rd_in = None\<rparr>;
               s1 = s\<lparr>st_out := (case rd_out x of None \<Rightarrow> st_out s | Some n \<Rightarrow> n),
                     st_app := (case rd_app x of None \<Rightarrow> st_app s | Some n \<Rightarrow> n),
                     st_in := (case rd_in x of None \<Rightarrow> st_in s | Some n \<Rightarrow> n)\<rparr>
           in case (if rd_in x = None then Inr s1 else redirect_in s1) of
                Inl e \<Rightarrow> Inl e
              | Inr s2 \<Rightarrow>
                  if rd_out x \<noteq> None then
                    (case sh_capture (exec_by rc) RedirBuf (rd_line x) s2 of
                       Inl e \<Rightarrow> Inl e
                     | Inr (r, s3) \<Rightarrow> map_sum id (\<lambda>s4. (r, [], s4)) (redirect_out (st_out s3) 14 s3))
                  else if rd_app x \<noteq> None then
                    (case sh_capture (exec_by rc) RedirBuf (rd_line x) s2 of
                       Inl e \<Rightarrow> Inl e
                     | Inr (r, s3) \<Rightarrow> map_sum id (\<lambda>s4. (r, [], s4)) (redirect_out (st_app s3) 6 s3))
                  else rc (ExecCmd (rd_line x)) s2)"

text \<open>The contents of a static buffer, which \<^verbatim>\<open>kout_buf\<close> may point to, and a store into it.\<close>

definition buf_get :: "obuf \<Rightarrow> 'a sh_scheme \<Rightarrow> string" where
  "buf_get b s = static_buf b (buf_sync s)"

definition buf_clear :: "obuf \<Rightarrow> 'a sh_scheme \<Rightarrow> 'a sh_scheme" where
  "buf_clear b s =
     (let x = (buf_get b s)[0 := NUL]; s1 = set_static b x s
      in if kout_dst s = Some b \<and> kout_buf s \<noteq> None then s1\<lparr>kout_buf := Some x\<rparr> else s1)"

text \<open>The stages from \<open>i\<close> on, read from the static array when their turn comes.\<close>

definition run_stage :: "'a caller \<Rightarrow> nat \<Rightarrow> nat \<Rightarrow> int \<Rightarrow> 'a sh_scheme \<Rightarrow> 'a reply" where
  "run_stage rc i nstages ret s =
     (if \<not> i < nstages then Inr (ret, [], s)
      else case expand_word (exec_by rc) (st_stages s ! i) SH_LINE_MAX s of
             Inl e \<Rightarrow> Inl e
           | Inr (d, s1) \<Rightarrow>
               (case dst_text d of
                  Inl e \<Rightarrow> Inl e
                | Inr cmd \<Rightarrow>
                    (case (if i > 0 then var_set ''STDIN_CONTENT'' (Some (cstr (buf_get PipeBuf s1))) False s1 else Inr s1) of
                       Inl e \<Rightarrow> Inl e
                     | Inr s2 \<Rightarrow>
                         (case (if i < nstages - 1 then sh_capture (exec_by rc) PipeBuf cmd s2 else exec_by rc cmd s2) of
                            Inl e \<Rightarrow> Inl e
                          | Inr (r, s3) \<Rightarrow> rc (StageCmds (Suc i) nstages r) s3))))"

definition sh_run_pipeline :: "'a caller \<Rightarrow> string \<Rightarrow> 'a sh_scheme \<Rightarrow> 'a reply" where
  "sh_run_pipeline rc line s =
     (let stages = split_stages line [] [] 0 False False; n = length stages;
          s1 = s\<lparr>st_stages := stages @ drop n (st_stages s)\<rparr>
      in if n = 1 then run_redirected rc (hd stages) s1
         else rc (StageCmds 0 n 0) (buf_clear PipeBuf s1))"

section \<open>Scripts\<close>

text \<open>A keyword at the start of a logical line: it ends there or a blank follows.\<close>

definition keyword :: "string \<Rightarrow> string \<Rightarrow> bool" where
  "keyword k t \<longleftrightarrow> is_prefix k t \<and> (drop (length k) t = [] \<or> at_char (CHR '' '') (drop (length k) t))"

definition cut_at :: "string \<Rightarrow> string \<Rightarrow> string" where
  "cut_at k t = (case break_at k t of None \<Rightarrow> t | Some (a, _) \<Rightarrow> a)"

text \<open>A logical line: its characters (at most 1023) and the text behind it.\<close>

fun logical_line :: "string \<Rightarrow> string \<Rightarrow> string \<times> string" where
  "logical_line [] acc = (acc, [])"
| "logical_line (c # p) acc =
     (if c = LF \<or> c = CHR '';'' then (acc, p)
      else if c = CHR 0x5C \<and> at_char LF p then logical_line (tl p) acc
      else if c = CHR ''#'' then (acc, skip_line p)
      else logical_line p (acc @ take (SH_LINE_MAX - 1 - length acc) [c]))"

definition trim_right :: "string \<Rightarrow> string" where
  "trim_right t = rev (dropWhile (\<lambda>c. c = CHR '' '' \<or> c = CHR 0x09) (rev t))"

text \<open>
  The head of a function definition. Without the word \<^verbatim>\<open>function\<close> the first word of every line is copied into
  \<^verbatim>\<open>fname[64]\<close> with no test of its length.
\<close>

definition func_head :: "string \<Rightarrow> string option res" where
  "func_head line =
     (let fl = dropWhile (\<lambda>c. c = CHR '' '') line
      in if is_prefix ''function '' fl then
           Inr (Some (take (SH_VAR_NAMSZ - 1)
             (takeWhile (\<lambda>c. c \<noteq> CHR '' '' \<and> c \<noteq> CHR ''('') (dropWhile (\<lambda>c. c = CHR '' '') (drop 9 fl)))))
         else
           let fname = takeWhile (\<lambda>c. c \<noteq> CHR ''('' \<and> c \<noteq> CHR '' '') fl; tp = drop (length fname) fl
           in if length fname \<ge> SH_VAR_NAMSZ then Inl OutOfBounds
              else if is_prefix ''()'' tp \<and> at_char (CHR ''{'') (dropWhile (\<lambda>c. c = CHR '' '') (drop 2 tp))
              then Inr (Some fname) else Inr None)"

text \<open>
  The lines up to one that \<open>stop\<close> accepts, each followed by a newline, cut to \<open>lim\<close> characters; the body of a function
  and of a case are collected this way.
\<close>

fun collect_lines :: "nat \<Rightarrow> (string \<Rightarrow> string option) \<Rightarrow> nat \<Rightarrow> string \<Rightarrow> string \<Rightarrow> string \<times> string" where
  "collect_lines 0 stop lim p acc = (acc, p)"
| "collect_lines (Suc n) stop lim p acc =
     (if p = [] then (acc, [])
      else let q = skip_blanks p
           in case stop q of
                Some r \<Rightarrow> (acc, r)
              | None \<Rightarrow>
                  let l = takeWhile (\<lambda>c. c \<noteq> LF) q; acc1 = acc @ take (lim - length acc) l
                  in collect_lines n stop lim (skip_line q) (acc1 @ take (lim - length acc1) [LF]))"

definition func_end :: "string \<Rightarrow> string option" where
  "func_end q = (if at_char (CHR ''}'') q then Some (skip_line (tl q)) else None)"

definition case_end :: "string \<Rightarrow> string option" where
  "case_end q =
     (if is_prefix '';;'' q then Some (skip_line (drop 2 q)) else if is_prefix ''esac'' q then Some q else None)"

section \<open>if\<close>

definition if_cond :: "string \<Rightarrow> string res" where
  "if_cond line =
     (if length line < 3 then Inl Uninit
      else case break_at '' then'' line of
             None \<Rightarrow> Inr (drop 3 line)
           | Some (a, _) \<Rightarrow> if length a < 3 then Inl OutOfBounds else Inr (drop 3 a))"

text \<open>\<^verbatim>\<open>if (execute) cond_true = sh_exec(cond) == 0\<close>\<close>

definition cond_true :: "'a caller \<Rightarrow> bool \<Rightarrow> string \<Rightarrow> 'a sh_scheme \<Rightarrow> (bool \<times> 'a sh_scheme) res" where
  "cond_true rc execute cond s =
     (if execute then map_sum id (\<lambda>(r, s1). (r = 0, s1)) (exec_by rc cond s) else Inr (False, s))"

text \<open>
  The condition of an \<^verbatim>\<open>elif\<close>: the copy stops advancing when the array is full, and then never ends.
\<close>

definition elif_cond :: "string \<Rightarrow> string res" where
  "elif_cond ep =
     (let c = cut_at '' then'' (takeWhile (\<lambda>c. c \<noteq> LF) ep)
      in if length c > SH_LINE_MAX - 1 then Inl Diverges else Inr c)"

definition at_delim :: "string \<Rightarrow> string \<Rightarrow> bool" where
  "at_delim ds p \<longleftrightarrow> p \<noteq> [] \<and> hd p \<in> set ds"

text \<open>The loop over \<^verbatim>\<open>elif\<close>, \<^verbatim>\<open>else\<close> and \<^verbatim>\<open>fi\<close>; it returns the pointer behind them.\<close>

definition run_elif :: "'a caller \<Rightarrow> string \<Rightarrow> bool \<Rightarrow> bool \<Rightarrow> 'a sh_scheme \<Rightarrow> 'a reply" where
  "run_elif rc p0 execute chosen s =
     (let p = skip_blanks p0
      in if p0 = [] then Inr (0, [], s)
         else if is_prefix ''elif '' p then
           (case elif_cond (drop 5 p) of
              Inl e \<Rightarrow> Inl e
            | Inr cond \<Rightarrow>
                (case cond_true rc (execute \<and> \<not> chosen) cond s of
                   Inl e \<Rightarrow> Inl e
                 | Inr (c, s1) \<Rightarrow>
                     (case rc (BlockFrom (skip_line (drop 5 p)) (execute \<and> \<not> chosen \<and> c) 0) s1 of
                        Inl e \<Rightarrow> Inl e
                      | Inr (_, q, s2) \<Rightarrow> rc (ElifFrom q execute (chosen \<or> c)) s2)))
         else if is_prefix ''else'' p \<and> at_delim [LF, CHR '' '', CHR '';''] (drop 4 p) then
           (case rc (BlockFrom (skip_line p) (execute \<and> \<not> chosen) 0) s of
              Inl e \<Rightarrow> Inl e
            | Inr (_, q, s1) \<Rightarrow> rc (ElifFrom q execute chosen) s1)
         else if is_prefix ''fi'' p \<and> (drop 2 p = [] \<or> at_delim [LF, CHR '' '', CHR '';''] (drop 2 p))
         then Inr (0, skip_line p, s)
         else Inr (0, p, s))"

definition run_if :: "'a caller \<Rightarrow> string \<Rightarrow> string \<Rightarrow> bool \<Rightarrow> 'a sh_scheme \<Rightarrow> 'a reply" where
  "run_if rc line p execute s =
     (case if_cond line of
        Inl e \<Rightarrow> Inl e
      | Inr cond \<Rightarrow>
          (case cond_true rc execute cond s of
             Inl e \<Rightarrow> Inl e
           | Inr (c, s1) \<Rightarrow>
               (case rc (BlockFrom p (execute \<and> c) 0) s1 of
                  Inl e \<Rightarrow> Inl e
                | Inr (_, q, s2) \<Rightarrow> rc (ElifFrom q execute c) s2)))"

section \<open>Loops\<close>

text \<open>
  One turn of \<^verbatim>\<open>while (execute)\<close>: \<open>p\<close> is the pointer the loop leaves when its condition fails, which is the start
  of the body unless the last turn ended with \<^verbatim>\<open>continue\<close>.
\<close>

definition run_while :: "'a caller \<Rightarrow> string \<Rightarrow> string \<Rightarrow> string \<Rightarrow> int \<Rightarrow> 'a sh_scheme \<Rightarrow> 'a reply" where
  "run_while rc cond start p last_ret s =
     (case exec_by rc cond s of
        Inl e \<Rightarrow> Inl e
      | Inr (r, s1) \<Rightarrow>
          if r \<noteq> 0 then Inr (last_ret, p, s1)
          else case rc (BlockFrom start True 0) s1 of
                 Inl e \<Rightarrow> Inl e
               | Inr (r1, q, s2) \<Rightarrow>
                   (case sh_flow s2 of
                      SH_FLOW_BREAK \<Rightarrow> Inr (r1, q, s2\<lparr>sh_flow := SH_FLOW_NONE\<rparr>)
                    | SH_FLOW_CONTINUE \<Rightarrow> rc (WhileFrom cond start q r1) (s2\<lparr>sh_flow := SH_FLOW_NONE\<rparr>)
                    | SH_FLOW_RETURN \<Rightarrow> Inr (r1, q, s2)
                    | SH_FLOW_NONE \<Rightarrow> rc (WhileFrom cond start start r1) s2))"

definition run_for :: "'a caller \<Rightarrow> string \<Rightarrow> string list \<Rightarrow> string \<Rightarrow> string \<Rightarrow> int \<Rightarrow> 'a sh_scheme \<Rightarrow> 'a reply" where
  "run_for rc name words start p last_ret s =
     (case words of
        [] \<Rightarrow> Inr (last_ret, p, s)
      | w # ws \<Rightarrow>
          (case var_set name (Some w) False s of
             Inl e \<Rightarrow> Inl e
           | Inr s1 \<Rightarrow>
               (case rc (BlockFrom start True 0) s1 of
                  Inl e \<Rightarrow> Inl e
                | Inr (r1, q, s2) \<Rightarrow>
                    (case sh_flow s2 of
                       SH_FLOW_BREAK \<Rightarrow> Inr (r1, q, s2\<lparr>sh_flow := SH_FLOW_NONE\<rparr>)
                     | SH_FLOW_CONTINUE \<Rightarrow> rc (ForFrom name ws start q r1) (s2\<lparr>sh_flow := SH_FLOW_NONE\<rparr>)
                     | SH_FLOW_RETURN \<Rightarrow> Inr (r1, q, s2)
                     | SH_FLOW_NONE \<Rightarrow> rc (ForFrom name ws start start r1) s2))))"

text \<open>
  The head of a \<^verbatim>\<open>for\<close>: the variable and the word list. Copying a variable name of 64 characters or more never ends.
\<close>

definition for_head :: "string \<Rightarrow> (string \<times> string) res" where
  "for_head line =
     (let fp = drop 4 line; name = takeWhile (\<lambda>c. c \<noteq> CHR '' '') fp;
          q = dropWhile (\<lambda>c. c = CHR '' '') (drop (length name) fp);
          wl = (if is_prefix ''in '' q then drop 3 q else q)
      in if length name > SH_VAR_NAMSZ - 1 then Inl Diverges
         else Inr (name, cut_at '' do'' (cut_at ''; do'' wl)))"

text \<open>Skipping the block of a loop that is not executed.\<close>

definition skip_block :: "'a caller \<Rightarrow> string \<Rightarrow> int \<Rightarrow> 'a sh_scheme \<Rightarrow> 'a reply" where
  "skip_block rc p last_ret s =
     (case rc (BlockFrom p False 0) s of Inl e \<Rightarrow> Inl e | Inr (_, q, s1) \<Rightarrow> Inr (last_ret, q, s1))"

definition start_while :: "'a caller \<Rightarrow> string \<Rightarrow> string \<Rightarrow> bool \<Rightarrow> int \<Rightarrow> 'a sh_scheme \<Rightarrow> 'a reply" where
  "start_while rc line p execute last_ret s =
     (if length line < 6 then Inl Uninit
      else if execute then rc (WhileFrom (cut_at '' do'' (cut_at ''; do'' (drop 6 line))) p p last_ret) s
      else skip_block rc p last_ret s)"

definition start_for :: "'a caller \<Rightarrow> string \<Rightarrow> string \<Rightarrow> bool \<Rightarrow> int \<Rightarrow> 'a sh_scheme \<Rightarrow> 'a reply" where
  "start_for rc line p execute last_ret s =
     (case for_head line of
        Inl e \<Rightarrow> Inl e
      | Inr (name, wl) \<Rightarrow>
          (case expand_word (exec_by rc) wl SH_EXPAND_MAX s of
             Inl e \<Rightarrow> Inl e
           | Inr (d, s1) \<Rightarrow>
               (case dst_text d of
                  Inl e \<Rightarrow> Inl e
                | Inr t \<Rightarrow>
                    (case tokenize (exec_by rc) t SH_MAX_ARGS SH_LINE_MAX s1 of
                       Inl e \<Rightarrow> Inl e
                     | Inr (words, s2) \<Rightarrow>
                         if execute then rc (ForFrom name words p p last_ret) s2 else skip_block rc p last_ret s2))))"

section \<open>case\<close>

text \<open>A pattern: alternatives separated by bars, blanks around them dropped.\<close>

definition trim_blanks :: "string \<Rightarrow> string" where
  "trim_blanks t = rev (dropWhile (\<lambda>c. c = CHR '' '') (rev (dropWhile (\<lambda>c. c = CHR '' '') t)))"

fun split_bars :: "string \<Rightarrow> string \<Rightarrow> string list" where
  "split_bars [] cur = [cur]"
| "split_bars (c # t) cur = (if c = CHR ''|'' then cur # split_bars t [] else split_bars t (cur @ [c]))"

definition pat_match :: "string \<Rightarrow> string \<Rightarrow> bool" where
  "pat_match pat word \<longleftrightarrow> (\<exists>a \<in> set (split_bars pat []). trim_blanks a = ''*'' \<or> trim_blanks a = word)"

text \<open>One turn of the loop over the patterns.\<close>

definition run_case :: "'a caller \<Rightarrow> string \<Rightarrow> string \<Rightarrow> bool \<Rightarrow> bool \<Rightarrow> int \<Rightarrow> 'a sh_scheme \<Rightarrow> 'a reply" where
  "run_case rc word p0 matched execute last_ret s =
     (if p0 = [] then Inr (last_ret, [], s)
      else let p = dropWhile (\<lambda>c. c = CHR '' '' \<or> c = CHR 0x09 \<or> c = LF) p0
           in if is_prefix ''esac'' p \<and> (drop 4 p = [] \<or> at_delim [LF, CHR '' ''] (drop 4 p)) then Inr (last_ret, skip_line p, s)
              else let pat = take (SH_VAR_NAMSZ * 2 - 1) (takeWhile (\<lambda>c. c \<noteq> CHR '')'') p);
                       p1 = drop (length pat) p; p2 = (if at_char (CHR '')'') p1 then tl p1 else p1);
                       this_match = (\<not> matched \<and> execute \<and> pat_match pat word)
                   in case collect_lines (Suc (length p2)) case_end (SH_LINE_MAX * 4 - 1) p2 [] of
                        (body, p3) \<Rightarrow>
                          if this_match then
                            (case sh_run_string rc body s of
                               Inl e \<Rightarrow> Inl e
                             | Inr (r, _, s1) \<Rightarrow> rc (CaseFrom word p3 True execute r) s1)
                          else rc (CaseFrom word p3 matched execute last_ret) s)"

definition start_case :: "'a caller \<Rightarrow> string \<Rightarrow> string \<Rightarrow> bool \<Rightarrow> int \<Rightarrow> 'a sh_scheme \<Rightarrow> 'a reply" where
  "start_case rc line p execute last_ret s =
     (case expand_word (exec_by rc) (cut_at '' in'' (drop 5 line)) SH_LINE_MAX s of
        Inl e \<Rightarrow> Inl e
      | Inr (d, s1) \<Rightarrow>
          (case dst_text d of
             Inl e \<Rightarrow> Inl e
           | Inr word \<Rightarrow> rc (CaseFrom word p False execute last_ret) s1))"

section \<open>Command lists and blocks\<close>

text \<open>The first of \<^verbatim>\<open>&&\<close> and \<^verbatim>\<open>||\<close> on a line: whether it is \<^verbatim>\<open>&&\<close>, and the two sides.\<close>

definition split_logic :: "string \<Rightarrow> (bool \<times> string \<times> string) option" where
  "split_logic line =
     (case (break_at '' && '' line, break_at '' || '' line) of
        (None, None) \<Rightarrow> None
      | (Some (a, b), None) \<Rightarrow> Some (True, a, b)
      | (None, Some (a, b)) \<Rightarrow> Some (False, a, b)
      | (Some (a, b), Some (c, d)) \<Rightarrow> if length a < length c then Some (True, a, b) else Some (False, c, d))"

definition run_logic :: "'a caller \<Rightarrow> bool \<Rightarrow> bool \<times> string \<times> string \<Rightarrow> 'a sh_scheme \<Rightarrow> (int \<times> 'a sh_scheme) res" where
  "run_logic rc execute x s =
     (case x of (is_and, lhs, rhs) \<Rightarrow>
        (case (if execute then exec_by rc lhs s else Inr (0, s)) of
           Inl e \<Rightarrow> Inl e
         | Inr (r1, s1) \<Rightarrow>
             let s2 = s1\<lparr>sh_last_status := r1\<rparr>
             in case (if execute \<and> (if is_and then r1 = 0 else r1 \<noteq> 0) then exec_by rc rhs s2 else Inr (r1, s2)) of
                  Inl e \<Rightarrow> Inl e
                | Inr (r2, s3) \<Rightarrow> Inr (r2, s3\<lparr>sh_last_status := r2\<rparr>)))"

text \<open>A line that is no keyword.\<close>

definition run_line :: "'a caller \<Rightarrow> string \<Rightarrow> 'a sh_scheme \<Rightarrow> (int \<times> 'a sh_scheme) res" where
  "run_line rc line s =
     (case expand_word (exec_by rc) line SH_LINE_MAX s of
        Inl e \<Rightarrow> Inl e
      | Inr (d, s1) \<Rightarrow>
          (case dst_text d of
             Inl e \<Rightarrow> Inl e
           | Inr t \<Rightarrow>
               (case rc (PipelineCmd t) s1 of
                  Inl e \<Rightarrow> Inl e
                | Inr (r, _, s2) \<Rightarrow> Inr (r, s2\<lparr>sh_last_status := r\<rparr>))))"

text \<open>\<^verbatim>\<open>return\<close>: the value behind it, or the last status.\<close>

definition return_value :: "string \<Rightarrow> int \<Rightarrow> int res" where
  "return_value line last_ret =
     (let rv = dropWhile (\<lambda>c. c = CHR '' '') (drop 6 line)
      in if rv = [] then Inr last_ret else map_sum id (\<lambda>(v, _). c_int (word_of_int v)) (strtol_text rv 10))"

text \<open>
  One logical line of a block. \<open>p\<close> is the text behind the line, \<open>here\<close> the text that starts with it. A statement
  continues the block with \<open>next\<close>; a terminator, \<^verbatim>\<open>break\<close>, \<^verbatim>\<open>continue\<close> and \<^verbatim>\<open>return\<close> leave it.
\<close>

definition run_statement :: "'a caller \<Rightarrow> string \<Rightarrow> string \<Rightarrow> string \<Rightarrow> bool \<Rightarrow> int \<Rightarrow> 'a sh_scheme \<Rightarrow> 'a reply" where
  "run_statement rc line here p execute last_ret s =
     (let goon = (\<lambda>x. case x of Inl e \<Rightarrow> Inl e | Inr (r, q, s1) \<Rightarrow> rc (BlockFrom q execute r) s1)
      in if is_prefix ''if '' line \<or> line = ''if'' then
           goon (map_sum id (\<lambda>(_, q, s1). (0, q, s1)) (run_if rc line p execute s))
         else if keyword ''fi'' line \<or> keyword ''done'' line \<or> keyword ''esac'' line \<or> at_char (CHR ''}'') line
         then Inr (last_ret, p, s)
         else if keyword ''then'' line \<or> keyword ''do'' line then rc (BlockFrom p execute last_ret) s
         else if keyword ''else'' line then Inr (last_ret, p, s)
         else if is_prefix ''elif'' line then Inr (last_ret, here, s)
         else if is_prefix ''while '' line \<or> line = ''while'' then goon (start_while rc line p execute last_ret s)
         else if is_prefix ''for '' line then goon (start_for rc line p execute last_ret s)
         else if is_prefix ''case '' line then goon (start_case rc line p execute last_ret s)
         else if line = ''break'' then Inr (last_ret, p, s\<lparr>sh_flow := SH_FLOW_BREAK\<rparr>)
         else if line = ''continue'' then Inr (last_ret, p, s\<lparr>sh_flow := SH_FLOW_CONTINUE\<rparr>)
         else if is_prefix ''return'' line then
           (if \<not> execute then rc (BlockFrom p execute last_ret) s
            else case return_value line last_ret of
                   Inl e \<Rightarrow> Inl e
                 | Inr v \<Rightarrow> Inr (v, p, s\<lparr>sh_return_val := v, sh_flow := SH_FLOW_RETURN\<rparr>))
         else case split_logic line of
                Some x \<Rightarrow> goon (map_sum id (\<lambda>(r, s1). (r, p, s1)) (run_logic rc execute x s))
              | None \<Rightarrow>
                  if execute then goon (map_sum id (\<lambda>(r, s1). (r, p, s1)) (run_line rc line s))
                  else rc (BlockFrom p execute last_ret) s)"

definition run_block :: "'a caller \<Rightarrow> string \<Rightarrow> bool \<Rightarrow> int \<Rightarrow> 'a sh_scheme \<Rightarrow> 'a reply" where
  "run_block rc p0 execute last_ret s =
     (let p1 = skip_blanks p0
      in if p1 = [] then Inr (last_ret, [], s)
         else if hd p1 = LF then rc (BlockFrom (tl p1) execute last_ret) s
         else if hd p1 = CHR ''#'' then rc (BlockFrom (dropWhile (\<lambda>c. c \<noteq> LF) p1) execute last_ret) s
         else case logical_line p1 [] of
                (raw, p) \<Rightarrow>
                  let line = trim_right raw
                  in if line = [] then rc (BlockFrom p execute last_ret) s
                     else case func_head line of
                            Inl e \<Rightarrow> Inl e
                          | Inr (Some fname) \<Rightarrow>
                              (case collect_lines (Suc (length p)) func_end (SH_LINE_MAX * 8 - 1) p [] of
                                 (body, q) \<Rightarrow>
                                   (case (if execute then func_set fname body s else Inr s) of
                                      Inl e \<Rightarrow> Inl e
                                    | Inr s1 \<Rightarrow> rc (BlockFrom q execute last_ret) s1))
                          | Inr None \<Rightarrow> run_statement rc line p1 p execute last_ret s)"

section \<open>Script files and the closing of the recursion\<close>

definition script_start :: "string \<Rightarrow> string" where
  "script_start t = (if is_prefix ''#!'' t then skip_line t else t)"

definition sh_run_file :: "'a caller \<Rightarrow> string \<Rightarrow> 'a sh_scheme \<Rightarrow> 'a reply" where
  "sh_run_file rc path s =
     (case vfs_open path 1 s of
        Inl e \<Rightarrow> Inl e
      | Inr (fd, s1) \<Rightarrow>
          if fd < 0 then
            map_sum id (\<lambda>s2. (127, [], s2)) (sh_print (''sh: %s: not found'' @ newline) [Str (Some path)] s1)
          else case kmalloc (of_nat (SH_LINE_MAX * 32)) s1 of
                 Inl e \<Rightarrow> Inl e
               | Inr (buf, s2) \<Rightarrow>
                   if buf = 0 then Inr (1, [], snd (vfs_close fd s2))
                   else case vfs_read fd (of_nat (SH_LINE_MAX * 32 - 1)) s2 of
                          Inl e \<Rightarrow> Inl e
                        | Inr (n, bs, s3) \<Rightarrow>
                            let text = take (nat n) bs;
                                s4 = s3\<lparr>hmem := store_bytes (hmem s3) (unat buf) (text @ [0])\<rparr>;
                                s5 = (snd (vfs_close fd s4))\<lparr>sh_script_name := path\<rparr>
                            in case sh_run_string rc (script_start (bytes_text text)) s5 of
                                 Inl e \<Rightarrow> Inl e
                               | Inr (r, _, s6) \<Rightarrow> map_sum id (\<lambda>s7. (r, [], s7)) (kfree buf s6))"

definition sh_body :: "'a shenv \<Rightarrow> 'a caller \<Rightarrow> 'a caller" where
  "sh_body env rc c s =
     (case c of
        SimpleCmd argv \<Rightarrow> sh_run_simple env rc argv s
      | PipelineCmd line \<Rightarrow> sh_run_pipeline rc line s
      | StageCmds i n ret \<Rightarrow> run_stage rc i n ret s
      | BlockFrom p execute ret \<Rightarrow> run_block rc p execute ret s
      | ElifFrom p execute chosen \<Rightarrow> run_elif rc p execute chosen s
      | WhileFrom cond start p ret \<Rightarrow> run_while rc cond start p ret s
      | ForFrom name words start p ret \<Rightarrow> run_for rc name words start p ret s
      | CaseFrom word p matched execute ret \<Rightarrow> run_case rc word p matched execute ret s
      | RunFile path \<Rightarrow> sh_run_file rc path s
      | ExecCmd cmd \<Rightarrow> sh_exec rc cmd s)"

primrec sh_call :: "nat \<Rightarrow> 'a shenv \<Rightarrow> 'a caller" where
  "sh_call 0 env c s = Inl Diverges"
| "sh_call (Suc n) env c s = sh_body env (sh_call n env) c s"

end
