(* ===== verification/Sh_Mono.thy ===== *)
theory Sh_Mono
  imports Sh_Exec
begin

text \<open>
  The bound of \<open>sh_call\<close> is only a bound: a result other than \<open>Diverges\<close> does not depend on it. Every function of the
  interpreter is monotone in the meaning of the calls it makes, for the order in which \<open>Diverges\<close> is below everything.
  Then the meaning of a call is the result for any bound that is large enough, and laws about scripts can be stated
  without one: sequencing of lines, and what becomes of loops and branches.
\<close>

section \<open>The order on results\<close>

definition below :: "'x res \<Rightarrow> 'x res \<Rightarrow> bool" where
  "below x y \<longleftrightarrow> x = Inl Diverges \<or> x = y"

named_theorems below_intros

lemma below_refl [below_intros]: "below x x"
  by (simp add: below_def)

lemma below_bind [below_intros]:
  assumes "below x y" and "\<And>v. below (f v) (g v)"
  shows "below (case x of Inl e \<Rightarrow> Inl e | Inr v \<Rightarrow> f v) (case y of Inl e \<Rightarrow> Inl e | Inr v \<Rightarrow> g v)"
proof (cases "x = Inl Diverges")
  case False
  with assms(1) have "x = y" by (simp add: below_def)
  with assms(2) show ?thesis by (cases y) (simp_all add: below_refl)
qed (simp add: below_def)

lemma below_if [below_intros]:
  "below x x' \<Longrightarrow> below y y' \<Longrightarrow> below (if b then x else y) (if b then x' else y')"
  by simp

lemma below_prod [below_intros]:
  "(\<And>a b. below (f a b) (g a b)) \<Longrightarrow> below (case p of (a, b) \<Rightarrow> f a b) (case p of (a, b) \<Rightarrow> g a b)"
  by (cases p) simp

lemma below_option [below_intros]:
  "below x x' \<Longrightarrow> (\<And>v. below (f v) (g v)) \<Longrightarrow>
   below (case a of None \<Rightarrow> x | Some v \<Rightarrow> f v) (case a of None \<Rightarrow> x' | Some v \<Rightarrow> g v)"
  by (cases a) simp_all

lemma below_list [below_intros]:
  "below x x' \<Longrightarrow> (\<And>v vs. below (f v vs) (g v vs)) \<Longrightarrow>
   below (case a of [] \<Rightarrow> x | v # vs \<Rightarrow> f v vs) (case a of [] \<Rightarrow> x' | v # vs \<Rightarrow> g v vs)"
  by (cases a) simp_all

lemma below_bool [below_intros]:
  "below x x' \<Longrightarrow> below y y' \<Longrightarrow> below (case b of True \<Rightarrow> x | False \<Rightarrow> y) (case b of True \<Rightarrow> x' | False \<Rightarrow> y')"
  by (cases b) simp_all

lemma below_flow [below_intros]:
  "below a a' \<Longrightarrow> below b b' \<Longrightarrow> below c c' \<Longrightarrow> below d d' \<Longrightarrow>
   below (case x of SH_FLOW_NONE \<Rightarrow> a | SH_FLOW_BREAK \<Rightarrow> b | SH_FLOW_CONTINUE \<Rightarrow> c | SH_FLOW_RETURN \<Rightarrow> d)
         (case x of SH_FLOW_NONE \<Rightarrow> a' | SH_FLOW_BREAK \<Rightarrow> b' | SH_FLOW_CONTINUE \<Rightarrow> c' | SH_FLOW_RETURN \<Rightarrow> d')"
  by (cases x) simp_all

lemma below_map [below_intros]: "below x y \<Longrightarrow> below (map_sum id f x) (map_sum id f y)"
  by (cases x) (auto simp: below_def)

text \<open>The meanings of calls, and of commands, ordered point by point.\<close>

definition calls_below :: "'a caller \<Rightarrow> 'a caller \<Rightarrow> bool" where
  "calls_below rc rc' \<longleftrightarrow> (\<forall>c s. below (rc c s) (rc' c s))"

definition exec_below :: "'a exec \<Rightarrow> 'a exec \<Rightarrow> bool" where
  "exec_below ex ex' \<longleftrightarrow> (\<forall>c s. below (ex c s) (ex' c s))"

lemma calls_belowD: "calls_below rc rc' \<Longrightarrow> below (rc c s) (rc' c s)"
  by (simp add: calls_below_def)

lemma exec_belowD: "exec_below ex ex' \<Longrightarrow> below (ex c s) (ex' c s)"
  by (simp add: exec_below_def)

lemma exec_by_below [below_intros]: "calls_below rc rc' \<Longrightarrow> exec_below (exec_by rc) (exec_by rc')"
  unfolding exec_below_def exec_by_def by (intro allI below_map calls_belowD)

lemma exec_by_run_below [below_intros]: "calls_below rc rc' \<Longrightarrow> below (exec_by rc cmd s) (exec_by rc' cmd s)"
  unfolding exec_by_def by (intro below_map calls_belowD)

lemma reply_below [below_intros]: "below x y \<Longrightarrow> below (reply x) (reply y)"
  unfolding reply_def by (rule below_map)

section \<open>Expansion and tokens\<close>

lemma substitute_below [below_intros]:
  assumes "exec_below ex ex'"
  shows "below (substitute ex b cmd s) (substitute ex' b cmd s)"
  unfolding substitute_def sh_capture_def by (intro below_intros exec_belowD [OF assms])

lemma sh_capture_below [below_intros]:
  assumes "exec_below ex ex'"
  shows "below (sh_capture ex b cmd s) (sh_capture ex' b cmd s)"
  unfolding sh_capture_def by (intro below_intros exec_belowD [OF assms])

lemma expand_brace_below [below_intros]:
  assumes "\<And>d s. below (self d s) (self' d s)"
  shows "below (expand_brace self sz src out s) (expand_brace self' sz src out s)"
  unfolding expand_brace_def Let_def by (intro below_intros assms)

lemma expand_special_below [below_intros]:
  assumes "exec_below ex ex'" and "\<And>d s. below (self d s) (self' d s)"
  shows "below (expand_special ex self sz src out s) (expand_special ex' self' sz src out s)"
  unfolding expand_special_def expand_dollar_def expand_command_def expand_backtick_def Let_def
  by (intro below_intros assms)

lemma expand_loop_below:
  assumes "exec_below ex ex'"
  shows "below (expand_loop n ex sz src out s) (expand_loop n ex' sz src out s)"
proof (induction n arbitrary: sz src out s)
  case 0
  show ?case by (simp add: below_refl)
next
  case (Suc n)
  show ?case unfolding expand_loop.simps Let_def by (intro below_intros assms Suc.IH)
qed

lemma expand_word_below [below_intros]:
  "exec_below ex ex' \<Longrightarrow> below (expand_word ex src sz s) (expand_word ex' src sz s)"
  unfolding expand_word_def by (rule expand_loop_below)

lemma token_loop_below [below_intros]:
  assumes "exec_below ex ex'"
  shows "below (token_loop n ex bufsz p cur bi s) (token_loop n ex' bufsz p cur bi s)"
proof (induction n arbitrary: p cur bi s)
  case 0
  show ?case by (simp add: below_refl)
next
  case (Suc n)
  show ?case unfolding token_loop.simps Let_def add_piece_def by (intro below_intros assms Suc.IH)
qed

lemma tokenize_below [below_intros]:
  assumes "exec_below ex ex'"
  shows "below (tokenize ex line maxargs bufsz s) (tokenize ex' line maxargs bufsz s)"
proof -
  have "below (tokenize_loop n ex maxargs bufsz p argv bi s) (tokenize_loop n ex' maxargs bufsz p argv bi s)" for n p argv bi s
  proof (induction n arbitrary: p argv bi s)
    case 0
    show ?case by (simp add: below_refl)
  next
    case (Suc n)
    show ?case unfolding tokenize_loop.simps Let_def by (intro below_intros assms Suc.IH)
  qed
  then show ?thesis unfolding tokenize_def .
qed

section \<open>The executor\<close>

lemma sh_run_string_below [below_intros]:
  "calls_below rc rc' \<Longrightarrow> below (sh_run_string rc t s) (sh_run_string rc' t s)"
  unfolding sh_run_string_def by (rule calls_belowD)

lemma below_option_rel:
  assumes "rel_option below a a'" and "below x x'" and "\<And>v v'. below v v' \<Longrightarrow> below (f v) (g v')"
  shows "below (case a of None \<Rightarrow> x | Some v \<Rightarrow> f v) (case a' of None \<Rightarrow> x' | Some v \<Rightarrow> g v)"
  using assms by (cases a; cases a') auto

lemma run_command_below:
  assumes "calls_below rc rc'"
  shows "rel_option below (run_command env rc argv s) (run_command env rc' argv s)"
proof -
  have "below (cmd_sh rc argv s) (cmd_sh rc' argv s)" "below (cmd_bash rc argv s) (cmd_bash rc' argv s)"
    "below (cmd_eval rc argv s) (cmd_eval rc' argv s)" "below (cmd_source rc argv s) (cmd_source rc' argv s)"
    unfolding cmd_sh_def cmd_bash_def cmd_eval_def cmd_source_def only_state_def
    by (intro below_intros calls_belowD [OF assms] assms)+
  then show ?thesis by (auto simp: run_command_def Let_def below_refl option.rel_map option.rel_refl split: option.split)
qed

lemma shell_exec_builtin_below [below_intros]:
  assumes "calls_below rc rc'"
  shows "below (shell_exec_builtin env rc argv s) (shell_exec_builtin env rc' argv s)"
  unfolding shell_exec_builtin_def run_program_def Let_def
  by (intro below_if below_refl below_option_rel [OF run_command_below [OF assms]]) (intro below_intros calls_belowD [OF assms] | assumption)+

lemma sh_run_simple_below:
  assumes "calls_below rc rc'"
  shows "below (sh_run_simple env rc argv s) (sh_run_simple env rc' argv s)"
  unfolding sh_run_simple_def run_other_def run_assign_def run_function_def run_alias_def Let_def
  by (intro below_intros calls_belowD [OF assms] assms)

lemma sh_run_pipeline_below:
  assumes "calls_below rc rc'"
  shows "below (sh_run_pipeline rc line s) (sh_run_pipeline rc' line s)"
  unfolding sh_run_pipeline_def run_redirected_def Let_def by (intro below_intros calls_belowD [OF assms] assms)

lemma run_stage_below:
  assumes "calls_below rc rc'"
  shows "below (run_stage rc i n ret s) (run_stage rc' i n ret s)"
  unfolding run_stage_def by (intro below_intros calls_belowD [OF assms] assms)

lemma run_statement_below [below_intros]:
  assumes "calls_below rc rc'"
  shows "below (run_statement rc line here p execute ret s) (run_statement rc' line here p execute ret s)"
  unfolding run_statement_def run_if_def cond_true_def start_while_def skip_block_def start_for_def start_case_def
    run_logic_def run_line_def Let_def
  by (intro below_intros calls_belowD [OF assms] assms)

lemma run_block_below:
  assumes "calls_below rc rc'"
  shows "below (run_block rc p execute ret s) (run_block rc' p execute ret s)"
  unfolding run_block_def Let_def by (intro below_intros calls_belowD [OF assms] assms)

lemma run_loops_below:
  assumes "calls_below rc rc'"
  shows "below (run_elif rc p execute chosen s) (run_elif rc' p execute chosen s)"
    and "below (run_while rc cond start p ret s) (run_while rc' cond start p ret s)"
    and "below (run_for rc name words start p ret s) (run_for rc' name words start p ret s)"
    and "below (run_case rc word p matched execute ret s) (run_case rc' word p matched execute ret s)"
  unfolding run_elif_def run_while_def run_for_def run_case_def cond_true_def Let_def by (intro below_intros calls_belowD [OF assms] assms)+

lemma sh_run_file_below:
  assumes "calls_below rc rc'"
  shows "below (sh_run_file rc path s) (sh_run_file rc' path s)"
  unfolding sh_run_file_def Let_def by (intro below_intros calls_belowD [OF assms] assms)

lemma sh_exec_below:
  assumes "calls_below rc rc'"
  shows "below (sh_exec rc cmd s) (sh_exec rc' cmd s)"
  unfolding sh_exec_def by (intro below_intros calls_belowD [OF assms] assms)

lemma sh_body_below:
  assumes "calls_below rc rc'"
  shows "below (sh_body env rc c s) (sh_body env rc' c s)"
  using assms
  by (cases c)
     (simp_all add: sh_body_def sh_run_simple_below sh_run_pipeline_below run_stage_below run_block_below run_loops_below
        sh_run_file_below sh_exec_below)

section \<open>Bounds that are large enough\<close>

lemma sh_call_below: "calls_below (sh_call n env) (sh_call (n + k) env)"
proof (induction n)
  case 0
  show ?case by (simp add: calls_below_def below_def)
next
  case (Suc n)
  then show ?case by (simp add: calls_below_def sh_body_below)
qed

text \<open>The outcome of a call: its result for every bound that is large enough.\<close>

definition runs :: "'a shenv \<Rightarrow> call \<Rightarrow> 'a sh_scheme \<Rightarrow> (int \<times> string \<times> 'a sh_scheme) res \<Rightarrow> bool" where
  "runs env c s x \<longleftrightarrow> x \<noteq> Inl Diverges \<and> (\<exists>n. sh_call n env c s = x)"

lemma sh_call_mono: "sh_call n env c s = x \<Longrightarrow> x \<noteq> Inl Diverges \<Longrightarrow> sh_call (n + k) env c s = x"
  using sh_call_below [of n env k] unfolding calls_below_def below_def by metis

lemma sh_call_le: "sh_call n env c s = x \<Longrightarrow> x \<noteq> Inl Diverges \<Longrightarrow> n \<le> m \<Longrightarrow> sh_call m env c s = x"
  using sh_call_mono [of n env c s x "m - n"] by simp

lemma runsI: "sh_call n env c s = x \<Longrightarrow> x \<noteq> Inl Diverges \<Longrightarrow> runs env c s x"
  by (auto simp: runs_def)

lemma runs_at:
  assumes "runs env c s x"
  obtains n where "\<forall>m \<ge> n. sh_call m env c s = x"
  using assms sh_call_le by (metis runs_def)

lemma runs_unique: "runs env c s x \<Longrightarrow> runs env c s y \<Longrightarrow> x = y"
  by (metis nat_le_linear runs_at)

text \<open>A call whose body, for large bounds, is another call has the outcome of that call.\<close>

lemma runs_step:
  assumes "\<And>m. n \<le> m \<Longrightarrow> sh_body env (sh_call m env) c s = sh_call m env c' s'"
  shows "runs env c s x \<longleftrightarrow> runs env c' s' x"
proof
  assume r: "runs env c s x"
  then obtain k where "\<forall>m \<ge> k. sh_call m env c s = x" by (rule runs_at)
  then have "sh_call (Suc (max n k)) env c s = x" by (simp del: sh_call.simps add: le_SucI)
  with assms [of "max n k"] have "sh_call (max n k) env c' s' = x" by simp
  with r show "runs env c' s' x" by (auto simp: runs_def)
next
  assume r: "runs env c' s' x"
  then obtain k where "\<forall>m \<ge> k. sh_call m env c' s' = x" by (rule runs_at)
  with assms have "sh_call (Suc (max n k)) env c s = x" by simp
  from runsI [OF this] r show "runs env c s x" by (simp add: runs_def del: sh_call.simps)
qed

end
