(* ===== verification/Sh_Script.thy ===== *)
theory Sh_Script
  imports Sh_Mono
begin

text \<open>
  Laws of the script interpreter of \<^verbatim>\<open>src/shell/sh.c\<close>, over the outcomes of calls: a script of command lines runs them in
  order; a loop that ends by its condition runs its body once more; both branches of a condition are run when it holds; an
  alias for itself does not return.
\<close>

section \<open>Command lines\<close>

text \<open>The first word of a statement the interpreter treats itself.\<close>

definition reserved :: "string \<Rightarrow> bool" where
  "reserved l \<longleftrightarrow>
     (\<exists>k \<in> set [''if'', ''fi'', ''done'', ''esac'', ''then'', ''do'', ''else'']. keyword k l) \<or>
     (\<exists>k \<in> set [''if '', ''}'', ''elif'', ''while '', ''for '', ''case '', ''return'']. is_prefix k l) \<or>
     l = ''while'' \<or> l = ''break'' \<or> l = ''continue''"

text \<open>Characters that end or continue a logical line.\<close>

definition line_char :: "char \<Rightarrow> bool" where
  "line_char c \<longleftrightarrow> c \<noteq> LF \<and> c \<noteq> CHR '';'' \<and> c \<noteq> CHR ''#'' \<and> c \<noteq> CHR 0x5C"

definition clean_line :: "string \<Rightarrow> bool" where
  "clean_line l \<longleftrightarrow>
     l \<noteq> [] \<and> list_all line_char l \<and> length l < SH_LINE_MAX \<and>
     hd l \<notin> {CHR '' '', CHR 0x09} \<and> last l \<notin> {CHR '' '', CHR 0x09}"

definition is_command :: "string \<Rightarrow> bool" where
  "is_command l \<longleftrightarrow> clean_line l \<and> func_head l = Inr None \<and> \<not> reserved l \<and> split_logic l = None"

lemma logical_line_clean:
  assumes "list_all line_char l" and "length acc + length l < SH_LINE_MAX"
  shows "logical_line (l @ LF # rest) acc = (acc @ l, rest)"
  using assms
proof (induction l arbitrary: acc)
  case (Cons c l)
  from Cons.prems Cons.IH [of "acc @ [c]"] show ?case by (simp add: line_char_def)
qed simp

lemma clean_line_hd: "clean_line l \<Longrightarrow> l \<noteq> [] \<and> hd l \<notin> {CHR '' '', CHR 0x09, LF, CHR ''#''}"
  by (cases l) (auto simp: clean_line_def line_char_def)

lemma skip_blanks_clean: "clean_line l \<Longrightarrow> skip_blanks (l @ r) = l @ r"
  using clean_line_hd [of l] by (cases l) auto

lemma trim_right_clean: "clean_line l \<Longrightarrow> trim_right l = l"
  by (cases l rule: rev_cases) (auto simp: trim_right_def clean_line_def)

text \<open>One turn of the block loop on a line that defines no function.\<close>

lemma run_block_line:
  assumes "clean_line l" and "func_head l = Inr None"
  shows "run_block rc (l @ LF # rest) execute ret s = run_statement rc l (l @ LF # rest) rest execute ret s"
  using assms clean_line_hd [OF assms(1)] skip_blanks_clean [OF assms(1), of "LF # rest"] trim_right_clean [OF assms(1)]
    logical_line_clean [of l "[]" rest]
  by (simp add: run_block_def Let_def clean_line_def)

lemma at_char_prefix: "at_char c l \<longleftrightarrow> is_prefix [c] l"
  by (cases l) (auto simp: at_char_def is_prefix_def)

lemma not_reserved:
  assumes "\<not> reserved l"
  shows "\<not> is_prefix ''if '' l" "l \<noteq> ''if''" "\<not> keyword ''fi'' l" "\<not> keyword ''done'' l" "\<not> keyword ''esac'' l"
    "\<not> at_char (CHR ''}'') l" "\<not> keyword ''then'' l" "\<not> keyword ''do'' l" "\<not> keyword ''else'' l" "\<not> is_prefix ''elif'' l"
    "\<not> is_prefix ''while '' l" "l \<noteq> ''while''" "\<not> is_prefix ''for '' l" "\<not> is_prefix ''case '' l" "l \<noteq> ''break''"
    "l \<noteq> ''continue''" "\<not> is_prefix ''return'' l"
proof -
  have "keyword ''if'' ''if''" by (simp add: keyword_def is_prefix_def)
  moreover have "\<not> keyword ''if'' l" using assms by (simp add: reserved_def)
  ultimately show "l \<noteq> ''if''" by blast
qed (use assms in \<open>simp_all add: reserved_def at_char_prefix\<close>)

lemma run_statement_command:
  assumes "is_command l"
  shows "run_statement rc l here p True ret s =
    (case run_line rc l s of Inl e \<Rightarrow> Inl e | Inr (r, s1) \<Rightarrow> rc (BlockFrom p True r) s1)"
proof -
  from assms have n: "\<not> reserved l" and sl: "split_logic l = None" by (simp_all add: is_command_def)
  show ?thesis
    unfolding run_statement_def Let_def sl using not_reserved [OF n]
    by (cases "run_line rc l s") auto
qed

section \<open>Outcomes of lines and scripts\<close>

text \<open>A part of a call that is monotone in the bound, and its outcome.\<close>

definition outcome :: "(nat \<Rightarrow> 'x res) \<Rightarrow> 'x res \<Rightarrow> bool" where
  "outcome f y \<longleftrightarrow> y \<noteq> Inl Diverges \<and> (\<exists>n. f n = y)"

definition rising :: "(nat \<Rightarrow> 'x res) \<Rightarrow> bool" where
  "rising f \<longleftrightarrow> (\<forall>n m. n \<le> m \<longrightarrow> below (f n) (f m))"

lemma outcome_at:
  assumes "rising f" and "outcome f y"
  obtains n where "\<forall>m \<ge> n. f m = y"
  using assms unfolding rising_def outcome_def below_def by metis

lemma calls_rising: "n \<le> m \<Longrightarrow> calls_below (sh_call n env) (sh_call m env)"
  using sh_call_below [of n env "m - n"] by simp

text \<open>A call that runs such a part and goes on with another call.\<close>

lemma runs_bind:
  assumes "rising f"
    and "\<And>n. sh_body env (sh_call n env) c s =
           (case f n of Inl e \<Rightarrow> Inl e | Inr v \<Rightarrow> sh_call n env (k v) (g v))"
  shows "runs env c s x \<longleftrightarrow>
    (\<exists>e. outcome f (Inl e) \<and> x = Inl e) \<or> (\<exists>v. outcome f (Inr v) \<and> runs env (k v) (g v) x)"
    (is "?L \<longleftrightarrow> ?R")
proof
  assume L: ?L
  then obtain n where n: "sh_call (Suc n) env c s = x" "x \<noteq> Inl Diverges"
    by (metis nat.exhaust runs_def sh_call.simps(1))
  then show ?R
  proof (cases "f n")
    case (Inl e)
    with n assms(2) [of n] show ?thesis by (auto simp: outcome_def)
  next
    case (Inr v)
    with n assms(2) [of n] have "outcome f (Inr v)" "runs env (k v) (g v) x" by (auto simp: outcome_def runs_def)
    then show ?thesis by blast
  qed
next
  assume ?R
  then show ?L
  proof (elim disjE exE conjE)
    fix e assume e: "outcome f (Inl e)" "x = Inl e"
    then obtain n where "f n = Inl e" "e \<noteq> Diverges" by (auto simp: outcome_def)
    with e(2) assms(2) [of n] show ?L by (intro runsI [of "Suc n"]) simp_all
  next
    fix v assume o: "outcome f (Inr v)" and x: "runs env (k v) (g v) x"
    obtain n where n: "\<forall>m \<ge> n. f m = Inr v" using outcome_at [OF assms(1) o] by blast
    obtain n' where n': "\<forall>m \<ge> n'. sh_call m env (k v) (g v) = x" using runs_at [OF x] by blast
    from n n' assms(2) [of "max n n'"] have "sh_call (Suc (max n n')) env c s = x" by simp
    from runsI [OF this] x show ?L by (simp add: runs_def del: sh_call.simps)
  qed
qed

lemma outcome_unique: "rising f \<Longrightarrow> outcome f x \<Longrightarrow> outcome f y \<Longrightarrow> x = y"
  by (metis nat_le_linear outcome_at)

lemma runs_outcome: "runs env c s = outcome (\<lambda>n. sh_call n env c s)"
  by (intro ext) (simp add: runs_def outcome_def)

lemma sh_call_rising: "rising (\<lambda>n. sh_call n env c s)"
  unfolding rising_def by (intro allI impI calls_belowD calls_rising)

text \<open>Such a part that is a call itself, with a known outcome.\<close>

lemma runs_after:
  assumes "\<And>n. sh_body env (sh_call n env) c s =
             (case sh_call n env c1 s of Inl e \<Rightarrow> Inl e | Inr v \<Rightarrow> sh_call n env (k v) (g v))"
    and "runs env c1 s (Inr v)"
  shows "runs env c s x \<longleftrightarrow> runs env (k v) (g v) x"
  using runs_bind [OF sh_call_rising assms(1), of x] assms(2) outcome_unique [OF sh_call_rising]
  unfolding runs_outcome by blast

definition line_outcome :: "'a shenv \<Rightarrow> string \<Rightarrow> 'a sh_scheme \<Rightarrow> (int \<times> 'a sh_scheme) res \<Rightarrow> bool" where
  "line_outcome env l s = outcome (\<lambda>n. run_line (sh_call n env) l s)"

lemma run_line_rising: "rising (\<lambda>n. run_line (sh_call n env) l s)"
  unfolding rising_def run_line_def by (intro allI impI below_intros calls_belowD calls_rising)

lemma runs_command:
  assumes "is_command l"
  shows "runs env (BlockFrom (l @ LF # rest) True ret) s x \<longleftrightarrow>
    (\<exists>e. line_outcome env l s (Inl e) \<and> x = Inl e) \<or>
    (\<exists>r s1. line_outcome env l s (Inr (r, s1)) \<and> runs env (BlockFrom rest True r) s1 x)"
  unfolding line_outcome_def
proof (subst runs_bind [OF run_line_rising, where k = "\<lambda>v. BlockFrom rest True (fst v)" and g = snd])
  fix n
  from assms show "sh_body env (sh_call n env) (BlockFrom (l @ LF # rest) True ret) s =
      (case run_line (sh_call n env) l s of Inl e \<Rightarrow> Inl e | Inr v \<Rightarrow> sh_call n env (BlockFrom rest True (fst v)) (snd v))"
    by (simp add: sh_body_def run_block_line run_statement_command is_command_def split: sum.splits)
qed auto

text \<open>Running the lines of a script one after the other: the reference.\<close>

inductive script_runs :: "'a shenv \<Rightarrow> string list \<Rightarrow> int \<Rightarrow> 'a sh_scheme \<Rightarrow> (int \<times> 'a sh_scheme) res \<Rightarrow> bool" for env where
  finished: "script_runs env [] ret s (Inr (ret, s))"
| failed: "line_outcome env l s (Inl e) \<Longrightarrow> script_runs env (l # ls) ret s (Inl e)"
| next_line: "line_outcome env l s (Inr (r, s1)) \<Longrightarrow> script_runs env ls r s1 y \<Longrightarrow> script_runs env (l # ls) ret s y"

inductive_simps script_runs_simps [simp]: "script_runs env [] ret s y" "script_runs env (l # ls) ret s y"

definition script_text :: "string list \<Rightarrow> string" where
  "script_text ls = concat (map (\<lambda>l. l @ [LF]) ls)"

lemma script_text_simps [simp]: "script_text [] = []" "script_text (l # ls) = l @ LF # script_text ls"
  by (simp_all add: script_text_def)

lemma runs_script:
  assumes "\<forall>l \<in> set ls. is_command l"
  shows "runs env (BlockFrom (script_text ls @ rest) True ret) s x \<longleftrightarrow>
    (\<exists>e. script_runs env ls ret s (Inl e) \<and> x = Inl e) \<or>
    (\<exists>r s1. script_runs env ls ret s (Inr (r, s1)) \<and> runs env (BlockFrom rest True r) s1 x)"
  using assms
proof (induction ls arbitrary: ret s)
  case (Cons l ls)
  then have "is_command l" by simp
  from runs_command [OF this, of env "script_text ls @ rest" ret s x] Cons show ?case by simp blast
qed auto

lemma runs_end: "runs env (BlockFrom [] execute ret) s x \<longleftrightarrow> x = Inr (ret, [], s)"
proof
  assume "runs env (BlockFrom [] execute ret) s x"
  then obtain n where "sh_call (Suc n) env (BlockFrom [] execute ret) s = x"
    by (metis nat.exhaust runs_def sh_call.simps(1))
  then show "x = Inr (ret, [], s)" by (simp add: sh_body_def run_block_def)
qed (auto intro!: runsI [of 1] simp: sh_body_def run_block_def)

section \<open>Loops\<close>

text \<open>The condition of a \<^verbatim>\<open>while\<close> line, which the interpreter reads back from it.\<close>

definition is_while :: "string \<Rightarrow> bool" where
  "is_while cond \<longleftrightarrow> clean_line (''while '' @ cond) \<and> cut_at '' do'' (cut_at ''; do'' cond) = cond"

lemma func_head_while: "func_head (''while '' @ cond) = Inr None"
  by (simp add: func_head_def is_prefix_def Let_def)

lemma run_statement_while:
  assumes "cut_at '' do'' (cut_at ''; do'' cond) = cond"
  shows "run_statement rc (''while '' @ cond) here p True ret s =
    (case rc (WhileFrom cond p p ret) s of Inl e \<Rightarrow> Inl e | Inr (r, q, s1) \<Rightarrow> rc (BlockFrom q True r) s1)"
  using assms by (simp add: run_statement_def start_while_def keyword_def is_prefix_def at_char_def Let_def)

lemma runs_while:
  assumes "is_while cond" and "runs env (WhileFrom cond body body ret) s (Inr (r, q, s1))"
  shows "runs env (BlockFrom (''while '' @ cond @ LF # body) True ret) s x \<longleftrightarrow> runs env (BlockFrom q True r) s1 x"
proof -
  have "sh_body env (sh_call n env) (BlockFrom (''while '' @ cond @ LF # body) True ret) s =
      (case sh_call n env (WhileFrom cond body body ret) s of
         Inl e \<Rightarrow> Inl e
       | Inr v \<Rightarrow> sh_call n env (BlockFrom (fst (snd v)) True (fst v)) (snd (snd v)))" for n
    using assms(1) run_block_line [of "''while '' @ cond" "sh_call n env" body True ret s]
    by (simp add: is_while_def sh_body_def func_head_while run_statement_while del: append_Cons)
       (simp split: sum.splits)
  from runs_after [OF this assms(2)] show ?thesis by simp
qed


text \<open>The turns of a loop up to the one whose condition fails; no turn changes the flow of control.\<close>

inductive while_turns ::
  "'a shenv \<Rightarrow> string \<Rightarrow> string \<Rightarrow> int \<Rightarrow> 'a sh_scheme \<Rightarrow> int \<Rightarrow> 'a sh_scheme \<Rightarrow> bool" for env cond body where
  last_turn: "runs env (ExecCmd cond) s (Inr (v, q, s1)) \<Longrightarrow> v \<noteq> 0 \<Longrightarrow> while_turns env cond body ret s ret s1"
| turn: "runs env (ExecCmd cond) s (Inr (0, q, s1)) \<Longrightarrow> runs env (BlockFrom body True 0) s1 (Inr (r1, q1, s2)) \<Longrightarrow>
         sh_flow s2 = SH_FLOW_NONE \<Longrightarrow> while_turns env cond body r1 s2 r s' \<Longrightarrow> while_turns env cond body ret s r s'"

lemma exec_by_call: "sh_call n env (ExecCmd cmd) s = Inr (v, q, s1) \<Longrightarrow> exec_by (sh_call n env) cmd s = Inr (v, s1)"
  by (simp add: exec_by_def)

lemma while_turns_runs:
  "while_turns env cond body ret s r s' \<Longrightarrow> runs env (WhileFrom cond body body ret) s (Inr (r, body, s'))"
proof (induction rule: while_turns.induct)
  case (last_turn s v q s1 ret)
  then obtain n where "sh_call n env (ExecCmd cond) s = Inr (v, q, s1)" by (auto simp: runs_def)
  from exec_by_call [OF this] last_turn(2) show ?case
    by (intro runsI [of "Suc n"]) (simp_all add: sh_body_def run_while_def)
next
  case (turn s q s1 r1 q1 s2 r s' ret)
  obtain n where n: "\<forall>m \<ge> n. sh_call m env (ExecCmd cond) s = Inr (0, q, s1)" using runs_at [OF turn(1)] by blast
  obtain k where k: "\<forall>m \<ge> k. sh_call m env (BlockFrom body True 0) s1 = Inr (r1, q1, s2)" using runs_at [OF turn(2)] by blast
  obtain i where i: "\<forall>m \<ge> i. sh_call m env (WhileFrom cond body body r1) s2 = Inr (r, body, s')" using runs_at [OF turn.IH] by blast
  let ?m = "max n (max k i)"
  have "exec_by (sh_call ?m env) cond s = Inr (0, s1)" using n by (intro exec_by_call) simp
  with k i turn(3) show ?case by (intro runsI [of "Suc ?m"]) (simp_all add: sh_body_def run_while_def)
qed

section \<open>Conditions\<close>

definition is_if :: "string \<Rightarrow> bool" where
  "is_if cond \<longleftrightarrow> clean_line (''if '' @ cond) \<and> break_at '' then'' (''if '' @ cond) = None"

lemma func_head_if: "func_head (''if '' @ cond) = Inr None"
  by (simp add: func_head_def is_prefix_def Let_def)

lemma is_prefix_iff: "is_prefix k t \<longleftrightarrow> (\<exists>r. t = k @ r)"
  by (auto simp: is_prefix_def) (metis append_take_drop_id)

lemma is_prefix_append: "is_prefix (a @ b) m \<Longrightarrow> is_prefix a m"
  by (auto simp: is_prefix_iff)

lemma is_prefix_line:
  assumes "is_prefix k (m @ LF # r)" and "LF \<notin> set k"
  shows "is_prefix k m"
proof -
  from assms(1) have k: "k = take (length k) m @ take (length k - length m) (LF # r)" by (simp add: is_prefix_def)
  have "length k \<le> length m"
  proof (rule ccontr)
    assume "\<not> length k \<le> length m"
    then have "LF \<in> set (take (length k - length m) (LF # r))" by (cases "length k - length m") auto
    then have "LF \<in> set k" by (subst k) simp
    with assms(2) show False by simp
  qed
  with k show ?thesis by (simp add: is_prefix_def)
qed

lemma not_keyword_line:
  assumes "clean_line m" and "\<not> keyword k m" and "LF \<notin> set k" and n: "n = length k"
  shows "\<not> (is_prefix k (m @ LF # r) \<and>
    (drop n (m @ LF # r) = [] \<or> at_delim [LF, CHR '' '', CHR '';''] (drop n (m @ LF # r))))"
proof
  assume a: "is_prefix k (m @ LF # r) \<and>
    (drop n (m @ LF # r) = [] \<or> at_delim [LF, CHR '' '', CHR '';''] (drop n (m @ LF # r)))"
  then have p: "is_prefix k m" using assms(3) is_prefix_line by blast
  then obtain u where u: "m = k @ u" by (auto simp: is_prefix_iff)
  with p assms(2) have "u \<noteq> []" "hd u \<noteq> CHR '' ''" by (auto simp: keyword_def at_char_def split: list.splits)
  moreover have "line_char (hd u)" using assms(1) u \<open>u \<noteq> []\<close> by (cases u) (auto simp: clean_line_def)
  ultimately show False using a u n by (auto simp: at_delim_def line_char_def)
qed

text \<open>The interpreter looks for \<^verbatim>\<open>elif\<close>, \<^verbatim>\<open>else\<close> and \<^verbatim>\<open>fi\<close> behind a branch; a command there ends the search.\<close>

lemma runs_elif_command:
  assumes "is_command m"
  shows "runs env (ElifFrom (m @ LF # r) execute chosen) s (Inr (0, m @ LF # r, s))"
proof -
  from assms have c: "clean_line m" and n: "\<not> reserved m" by (simp_all add: is_command_def)
  have e: "\<not> is_prefix ''elif '' (m @ LF # r)"
  proof
    assume "is_prefix ''elif '' (m @ LF # r)"
    then have "is_prefix ''elif '' m" using is_prefix_line [of "''elif ''" m r] by simp
    then have "is_prefix ''elif'' m" using is_prefix_append [of "''elif''" "'' ''" m] by simp
    with not_reserved(10) [OF n] show False by simp
  qed
  have "\<not> (is_prefix ''else'' (m @ LF # r) \<and> at_delim [LF, CHR '' '', CHR '';''] (drop 4 (m @ LF # r)))"
    using not_keyword_line [OF c not_reserved(9) [OF n], of 4 r] by auto
  moreover have "\<not> (is_prefix ''fi'' (m @ LF # r) \<and> (drop 2 (m @ LF # r) = [] \<or> at_delim [LF, CHR '' '', CHR '';''] (drop 2 (m @ LF # r))))"
    using not_keyword_line [OF c not_reserved(3) [OF n], of 2 r] by auto
  moreover have "m @ LF # r \<noteq> []" by simp
  ultimately have "run_elif rc (m @ LF # r) execute chosen s = Inr (0, m @ LF # r, s)" for rc
    unfolding run_elif_def Let_def skip_blanks_clean [OF c] using e by (simp only: if_False)
  then show ?thesis by (intro runsI [of 1]) (simp_all add: sh_body_def)
qed

lemma runs_keyword:
  shows "runs env (BlockFrom (''fi'' @ LF # rest) True r) s (Inr (r, rest, s))"
    and "runs env (BlockFrom (''else'' @ LF # rest) True r) s (Inr (r, rest, s))"
proof -
  have "clean_line ''fi''" "func_head ''fi'' = Inr None" "clean_line ''else''" "func_head ''else'' = Inr None"
    by (simp_all add: clean_line_def line_char_def func_head_def is_prefix_def)
  note l = run_block_line [OF this(1,2), of _ rest True r s] run_block_line [OF this(3,4), of _ rest True r s]
  show "runs env (BlockFrom (''fi'' @ LF # rest) True r) s (Inr (r, rest, s))"
    and "runs env (BlockFrom (''else'' @ LF # rest) True r) s (Inr (r, rest, s))"
    using l by (auto intro!: runsI [of 1] simp: sh_body_def run_statement_def keyword_def is_prefix_def at_char_def)
qed

lemma runs_if:
  assumes "is_if cond" and "runs env (ExecCmd cond) s (Inr (v, q, s1))"
    and "runs env (BlockFrom p (v = 0) 0) s1 (Inr (r1, q1, s2))" and "runs env (ElifFrom q1 True (v = 0)) s2 (Inr (r2, q2, s3))"
    and "runs env (BlockFrom q2 True 0) s3 x"
  shows "runs env (BlockFrom (''if '' @ cond @ LF # p) True ret) s x"
proof -
  obtain a where a: "\<forall>m \<ge> a. sh_call m env (ExecCmd cond) s = Inr (v, q, s1)" using runs_at [OF assms(2)] by blast
  obtain b where b: "\<forall>m \<ge> b. sh_call m env (BlockFrom p (v = 0) 0) s1 = Inr (r1, q1, s2)" using runs_at [OF assms(3)] by blast
  obtain c where c: "\<forall>m \<ge> c. sh_call m env (ElifFrom q1 True (v = 0)) s2 = Inr (r2, q2, s3)" using runs_at [OF assms(4)] by blast
  obtain d where d: "\<forall>m \<ge> d. sh_call m env (BlockFrom q2 True 0) s3 = x" using runs_at [OF assms(5)] by blast
  let ?m = "a + b + c + d" let ?rc = "sh_call ?m env"
  have e: "exec_by ?rc cond s = Inr (v, s1)" using a by (intro exec_by_call) simp
  from assms(1) have ic: "if_cond (''if '' @ cond) = Inr cond" by (simp add: is_if_def if_cond_def)
  have i: "run_if ?rc (''if '' @ cond) p True s = Inr (r2, q2, s3)"
    unfolding run_if_def ic using e b c by (simp add: cond_true_def)
  have "run_statement ?rc (''if '' @ cond) here p True ret s = x" for here
    unfolding run_statement_def i using d by (simp add: is_prefix_def)
  then have "run_block ?rc ((''if '' @ cond) @ LF # p) True ret s = x"
    using run_block_line [of "''if '' @ cond" ?rc p True ret s] assms(1) func_head_if [of cond] by (simp only: is_if_def)
  then have "sh_call (Suc ?m) env (BlockFrom (''if '' @ cond @ LF # p) True ret) s = x" by (simp add: sh_body_def)
  from runsI [OF this] assms(5) show ?thesis by (simp add: runs_def del: sh_call.simps)
qed

lemma runs_script_then:
  assumes "\<forall>l \<in> set ls. is_command l" and "script_runs env ls ret s (Inr (r, s1))" and "runs env (BlockFrom rest True r) s1 x"
  shows "runs env (BlockFrom (script_text ls @ rest) True ret) s x"
  using runs_script [OF assms(1), of env rest ret s x] assms(2,3) by blast

lemma runs_else:
  assumes "is_if cond" and "runs env (ExecCmd cond) s (Inr (0, q, s1))"
    and "\<forall>l \<in> set ls. is_command l" and "\<forall>l \<in> set (m # ms). is_command l"
    and "script_runs env ls 0 s1 (Inr (r1, s2))" and "script_runs env (m # ms) 0 s2 (Inr (r2, s3))"
  shows "runs env (BlockFrom (script_text ((''if '' @ cond) # ls @ ''else'' # (m # ms) @ [''fi'']) @ rest) True ret) s (Inr (r2, rest, s3))"
proof -
  let ?X = "script_text (m # ms) @ ''fi'' @ LF # rest"
  have st: "script_text (xs @ ys) = script_text xs @ script_text ys" for xs ys by (simp add: script_text_def)
  have "runs env (BlockFrom (script_text ls @ ''else'' @ LF # ?X) True 0) s1 (Inr (r1, ?X, s2))"
    by (rule runs_script_then [OF assms(3,5) runs_keyword(2)])
  moreover have "runs env (ElifFrom ?X True True) s2 (Inr (0, ?X, s2))"
    using runs_elif_command [of m env "script_text ms @ ''fi'' @ LF # rest" True True s2] assms(4) by simp
  moreover have "runs env (BlockFrom ?X True 0) s2 (Inr (r2, rest, s3))"
    by (rule runs_script_then [OF assms(4,6) runs_keyword(1)])
  ultimately have "runs env (BlockFrom (''if '' @ cond @ LF # script_text ls @ ''else'' @ LF # ?X) True ret) s (Inr (r2, rest, s3))"
    by (intro runs_if [OF assms(1,2)]) simp_all
  then show ?thesis by (simp add: st)
qed

section \<open>Plain commands\<close>

text \<open>Text that expansion leaves alone.\<close>

definition literal :: "char \<Rightarrow> bool" where
  "literal c \<longleftrightarrow> c \<notin> {CHR 0x27, CHR 0x22, CHR ''$'', CHR ''`'', CHR 0x5C}"

lemma expand_loop_literal:
  "list_all literal t \<Longrightarrow> length out + length t < sz \<Longrightarrow> length t < n \<Longrightarrow> expand_loop n exec sz t out s = Inr (out @ t, s)"
proof (induction t arbitrary: n out)
  case Nil
  then show ?case by (cases n) simp_all
next
  case (Cons c t)
  then obtain m where n: "n = Suc m" "length t < m" by (cases n) auto
  have "OUTS sz out [c] = out @ [c]" using Cons.prems(2) by (simp add: OUTS_def)
  with n Cons.prems Cons.IH [of "out @ [c]" m] show ?case
    by (simp add: literal_def expand_special_def at_char_def Let_def)
qed

lemma expand_literal: "list_all literal t \<Longrightarrow> length t < sz \<Longrightarrow> expand_word exec t sz s = Inr (t, s)"
  unfolding expand_word_def using expand_loop_literal [of t "[]" sz "Suc (length t)" exec s] by simp

text \<open>A word of a command without quotes, expansions, pipes and redirections.\<close>

definition shell_word :: "string \<Rightarrow> bool" where
  "shell_word w \<longleftrightarrow> w \<noteq> [] \<and> (\<forall>c \<in> set w. plain c \<and> c \<notin> {CHR ''|'', CHR ''<'', CHR ''>''})"

lemma unwords_chars:
  assumes "\<forall>w \<in> set ws. shell_word w" and "c \<in> set (unwords ws)"
  shows "c = CHR '' '' \<or> plain c \<and> c \<notin> {CHR ''|'', CHR ''<'', CHR ''>''}"
  using assms by (induction ws rule: unwords.induct) (auto simp: shell_word_def)

lemma unwords_literal: "\<forall>w \<in> set ws. shell_word w \<Longrightarrow> list_all literal (unwords ws)"
  using unwords_chars [of ws] by (fastforce simp: list_all_iff literal_def plain_def)

lemma unwords_Nil: "\<forall>w \<in> set ws. shell_word w \<Longrightarrow> unwords ws = [] \<longleftrightarrow> ws = []"
  by (cases ws rule: unwords.cases) (auto simp: shell_word_def)

text \<open>A command: words that fit the line and the argument array.\<close>

definition shell_cmd :: "string list \<Rightarrow> bool" where
  "shell_cmd ws \<longleftrightarrow> ws \<noteq> [] \<and> (\<forall>w \<in> set ws. shell_word w) \<and> length ws < SH_MAX_ARGS \<and> length (unwords ws) < SH_LINE_MAX - 1"

lemma sh_exec_words:
  assumes "shell_cmd ws"
  shows "sh_exec rc (unwords ws) s = rc (SimpleCmd ws) s"
proof -
  have "expand_word (exec_by rc) (unwords ws) SH_LINE_MAX s = Inr (unwords ws, s)"
    using assms unwords_literal [of ws] by (intro expand_literal) (auto simp: shell_cmd_def)
  moreover have "tokenize (exec_by rc) (unwords ws) SH_MAX_ARGS (SH_LINE_MAX * 2) s = Inr (ws, s)"
    unfolding tokenize_def
    using assms tokenize_loop_plain [of ws "[]" SH_MAX_ARGS 0 "SH_LINE_MAX * 2" "Suc (length (unwords ws))" "exec_by rc" s]
    by (simp add: shell_cmd_def shell_word_def del: tokenize_loop.simps)
  ultimately show ?thesis
    using assms unwords_Nil [of ws] by (simp add: sh_exec_def dst_text_def shell_cmd_def)
qed

lemma split_stages_none:
  assumes "\<forall>c \<in> set t. c \<notin> {CHR ''|'', CHR 0x27, CHR 0x22}" and "length cur + length t < SH_LINE_MAX"
  shows "split_stages t [] cur depth False False = [cur @ t]"
  using assms
proof (induction t arbitrary: cur depth)
  case (Cons c t)
  then have "cur @ take (SH_LINE_MAX - 1 - length cur) [c] = cur @ [c]" by simp
  with Cons show ?case by (simp add: Let_def)
qed simp

lemma scan_redirs_none:
  assumes "\<forall>c \<in> set t. c \<notin> {CHR ''<'', CHR ''>''}"
  shows "scan_redirs t x = x\<lparr>rd_line := rd_line x @ t\<rparr>"
  using assms
proof (induction t arbitrary: x)
  case (Cons c t)
  then have "take 3 t \<noteq> ''>&1''" "\<not> at_char (CHR ''>'') t"
    by (cases t; auto simp: at_char_def)+
  with Cons show ?case by simp
qed simp

text \<open>The line of a command is stored in the array of stages before it is run.\<close>

definition staged :: "string \<Rightarrow> 'a sh_scheme \<Rightarrow> 'a sh_scheme" where
  "staged l s = s\<lparr>st_stages := l # tl (st_stages s)\<rparr>"

lemma sh_run_pipeline_words:
  assumes "shell_cmd ws"
  shows "sh_run_pipeline rc (unwords ws) s = rc (ExecCmd (unwords ws)) (staged (unwords ws) s)"
proof -
  have c: "\<forall>c \<in> set (unwords ws). c \<notin> {CHR ''|'', CHR 0x27, CHR 0x22} \<and> c \<notin> {CHR ''<'', CHR ''>''}"
    using assms unwords_chars [of ws] by (fastforce simp: shell_cmd_def plain_def)
  have "split_stages (unwords ws) [] [] 0 False False = [unwords ws]"
    using c assms split_stages_none [of "unwords ws" "[]" 0] by (simp add: shell_cmd_def)
  moreover have "scan_redirs (unwords ws) x = x\<lparr>rd_line := rd_line x @ unwords ws\<rparr>" for x
    using c by (intro scan_redirs_none) blast
  ultimately show ?thesis
    using assms by (simp add: sh_run_pipeline_def run_redirected_def shell_cmd_def staged_def drop_Suc Let_def)
qed

lemma runs_words:
  assumes "shell_cmd ws"
  shows "runs env (ExecCmd (unwords ws)) s x \<longleftrightarrow> runs env (SimpleCmd ws) s x"
    and "runs env (PipelineCmd (unwords ws)) s x \<longleftrightarrow> runs env (SimpleCmd ws) (staged (unwords ws) s) x"
proof -
  show e: "runs env (ExecCmd (unwords ws)) s x \<longleftrightarrow> runs env (SimpleCmd ws) s x" for s
    by (rule runs_step [of 0]) (simp add: sh_body_def sh_exec_words [OF assms])
  have "runs env (PipelineCmd (unwords ws)) s x \<longleftrightarrow> runs env (ExecCmd (unwords ws)) (staged (unwords ws) s) x"
    by (rule runs_step [of 0]) (simp add: sh_body_def sh_run_pipeline_words [OF assms])
  with e show "runs env (PipelineCmd (unwords ws)) s x \<longleftrightarrow> runs env (SimpleCmd ws) (staged (unwords ws) s) x" by simp
qed

text \<open>The line of a command has the outcome of the command, and stores its status.\<close>

lemma outcome_map: "outcome (\<lambda>n. map_sum id h (f n)) y \<longleftrightarrow> (\<exists>x. outcome f x \<and> y = map_sum id h x)"
proof
  assume "outcome (\<lambda>n. map_sum id h (f n)) y"
  then obtain n where n: "y = map_sum id h (f n)" "y \<noteq> Inl Diverges" by (auto simp: outcome_def)
  then have "outcome f (f n)" by (auto simp: outcome_def)
  with n(1) show "\<exists>x. outcome f x \<and> y = map_sum id h x" by blast
next
  assume "\<exists>x. outcome f x \<and> y = map_sum id h x"
  then obtain x n where "f n = x" "x \<noteq> Inl Diverges" "y = map_sum id h x" by (auto simp: outcome_def)
  then show "outcome (\<lambda>n. map_sum id h (f n)) y" unfolding outcome_def by (cases x) (auto intro!: exI [of _ n])
qed

lemma eq_map_sum:
  "Inl e = map_sum id h x \<longleftrightarrow> x = Inl e"
  "Inr v = map_sum id h x \<longleftrightarrow> (\<exists>w. x = Inr w \<and> v = h w)"
  by (cases x; auto)+

lemma line_outcome_words:
  assumes "shell_cmd ws"
  shows "line_outcome env (unwords ws) s y \<longleftrightarrow>
    (\<exists>x. runs env (SimpleCmd ws) (staged (unwords ws) s) x \<and> y = map_sum id (\<lambda>(r, _, s1). (r, s1\<lparr>sh_last_status := r\<rparr>)) x)"
proof -
  have "expand_word ex (unwords ws) SH_LINE_MAX s = Inr (unwords ws, s)" for ex
    using assms unwords_literal [of ws] by (intro expand_literal) (auto simp: shell_cmd_def)
  then have "run_line rc (unwords ws) s = map_sum id (\<lambda>(r, _, s1). (r, s1\<lparr>sh_last_status := r\<rparr>)) (rc (PipelineCmd (unwords ws)) s)" for rc
    using assms unwords_Nil [of ws] by (cases "rc (PipelineCmd (unwords ws)) s") (auto simp: run_line_def dst_text_def shell_cmd_def)
  then show ?thesis
    unfolding line_outcome_def using runs_words(2) [OF assms, of env s] by (simp add: outcome_map runs_outcome)
qed

lemma line_outcome_cases:
  assumes "shell_cmd ws"
  shows "line_outcome env (unwords ws) s (Inl e) \<longleftrightarrow> runs env (SimpleCmd ws) (staged (unwords ws) s) (Inl e)"
    and "line_outcome env (unwords ws) s (Inr (r, s2)) \<longleftrightarrow>
      (\<exists>q s1. runs env (SimpleCmd ws) (staged (unwords ws) s) (Inr (r, q, s1)) \<and> s2 = s1\<lparr>sh_last_status := r\<rparr>)"
  by (auto simp: line_outcome_words [OF assms] eq_map_sum)

text \<open>Commands run one after the other, each with the status of the one before it: the reference for scripts of plain commands.\<close>

inductive commands_run :: "'a shenv \<Rightarrow> string list list \<Rightarrow> int \<Rightarrow> 'a sh_scheme \<Rightarrow> (int \<times> 'a sh_scheme) res \<Rightarrow> bool" for env where
  no_command: "commands_run env [] ret s (Inr (ret, s))"
| command_fails: "runs env (SimpleCmd ws) (staged (unwords ws) s) (Inl e) \<Longrightarrow> commands_run env (ws # wss) ret s (Inl e)"
| command_returns: "runs env (SimpleCmd ws) (staged (unwords ws) s) (Inr (r, q, s1)) \<Longrightarrow>
    commands_run env wss r (s1\<lparr>sh_last_status := r\<rparr>) y \<Longrightarrow> commands_run env (ws # wss) ret s y"

inductive_simps commands_run_simps [simp]: "commands_run env [] ret s y" "commands_run env (ws # wss) ret s y"

lemma script_commands:
  assumes "\<forall>ws \<in> set wss. shell_cmd ws"
  shows "script_runs env (map unwords wss) ret s y \<longleftrightarrow> commands_run env wss ret s y"
  using assms
proof (induction wss arbitrary: ret s)
  case (Cons ws wss)
  then have "shell_cmd ws" by simp
  with Cons show ?case by (simp add: line_outcome_cases) blast
qed simp

section \<open>Aliases\<close>

lemma alias_command_unwords:
  assumes "length (unwords (w # args)) < SH_LINE_MAX"
  shows "alias_command w args = unwords (w # args)"
  using assms
proof (induction args arbitrary: w)
  case (Cons a args)
  have "alias_command w (a # args) = alias_command (w @ '' '' @ a) args"
    using Cons.prems by (cases args) (simp_all add: alias_command_def Let_def)
  moreover have "unwords ((w @ '' '' @ a) # args) = unwords (w # a # args)" by (cases args) simp_all
  ultimately show ?case using Cons.IH [of "w @ '' '' @ a"] Cons.prems by simp
qed (simp add: alias_command_def)

text \<open>The names the interpreter runs itself.\<close>

definition builtin :: "string \<Rightarrow> bool" where
  "builtin w \<longleftrightarrow> w \<in> set [''true'', ''false'', '':'', ''echo'', ''printf'', ''read'', ''export'', ''unset'', ''shift'', ''alias'',
     ''type'', ''which'', ''env'', ''test'', ''['']"

lemma run_simple_alias:
  assumes "shell_cmd (w # args)" and "\<not> builtin w" and "CHR ''='' \<notin> set w"
    and "func_find w s = Inr None" and "alias_get w s = Inr (Some w)"
  shows "sh_run_simple env rc (w # args) s = rc (ExecCmd (unwords (w # args))) s"
proof -
  have e: "expand_word (exec_by rc) w SH_LINE_MAX s = Inr (w, s)"
    using assms(1) unwords_literal [of "[w]"] by (intro expand_literal) (cases args; simp add: shell_cmd_def)+
  have "split_assign w = None" using assms(3) by (simp add: split_assign_def)
  with assms e have "run_other env rc (w # args) s = rc (ExecCmd (alias_command w args)) s"
    by (simp add: run_other_def run_alias_def dst_text_def shell_cmd_def shell_word_def Let_def)
  moreover have "alias_command w args = unwords (w # args)" using assms(1) by (intro alias_command_unwords) (simp add: shell_cmd_def)
  ultimately show ?thesis using assms(2) by (simp add: sh_run_simple_def builtin_def)
qed

lemma alias_loop:
  assumes "shell_cmd (w # args)" and "\<not> builtin w" and "CHR ''='' \<notin> set w"
    and "func_find w s = Inr None" and "alias_get w s = Inr (Some w)"
  shows "sh_call n env (SimpleCmd (w # args)) s = Inl Diverges"
proof (induction n rule: less_induct)
  case (less n)
  show ?case
  proof (cases n)
    case (Suc m)
    then have "sh_call n env (SimpleCmd (w # args)) s = sh_call m env (ExecCmd (unwords (w # args))) s"
      by (simp add: sh_body_def run_simple_alias [OF assms])
    also have "\<dots> = Inl Diverges"
    proof (cases m)
      case (Suc k)
      then have "sh_call m env (ExecCmd (unwords (w # args))) s = sh_call k env (SimpleCmd (w # args)) s"
        by (simp add: sh_body_def sh_exec_words [OF assms(1)] del: unwords.simps)
      with less.IH [of k] \<open>n = Suc m\<close> Suc show ?thesis by simp
    qed simp
    finally show ?thesis .
  qed simp
qed

section \<open>Properties\<close>

text \<open>
  C9: a script runs its commands in order. For any lines of plain words the outcome of interpreting their text is the outcome of
  running each command with its words as arguments, in the state and with the status the one before it left; the script
  ends with the status of the last command, or where one of them does not return.
\<close>

theorem script_runs_commands:
  assumes "\<forall>ws \<in> set wss. shell_cmd ws \<and> is_command (unwords ws)"
  shows "runs env (BlockFrom (script_text (map unwords wss)) True ret) s x \<longleftrightarrow>
    (\<exists>y. commands_run env wss ret s y \<and> x = map_sum id (\<lambda>(r, s'). (r, [], s')) y)"
proof -
  have "\<forall>l \<in> set (map unwords wss). is_command l" using assms by auto
  from runs_script [OF this, of env "[]" ret s x] have "runs env (BlockFrom (script_text (map unwords wss)) True ret) s x \<longleftrightarrow>
      (\<exists>e. commands_run env wss ret s (Inl e) \<and> x = Inl e) \<or>
      (\<exists>r s1. commands_run env wss ret s (Inr (r, s1)) \<and> x = Inr (r, [], s1))"
    using assms by (simp add: script_commands runs_end)
  also have "\<dots> \<longleftrightarrow> (\<exists>y. commands_run env wss ret s y \<and> x = map_sum id (\<lambda>(r, s'). (r, [], s')) y)"
  proof
    assume "\<exists>y. commands_run env wss ret s y \<and> x = map_sum id (\<lambda>(r, s'). (r, [], s')) y"
    then obtain y where "commands_run env wss ret s y" "x = map_sum id (\<lambda>(r, s'). (r, [], s')) y" by blast
    then show "(\<exists>e. commands_run env wss ret s (Inl e) \<and> x = Inl e) \<or>
      (\<exists>r s1. commands_run env wss ret s (Inr (r, s1)) \<and> x = Inr (r, [], s1))" by (cases y) auto
  qed force
  finally show ?thesis .
qed

definition no_env :: "'a shenv" where
  "no_env = \<lparr>cmds = (\<lambda>_. None), waits = []\<rparr>"

lemma runs_true_false:
  "runs env (SimpleCmd [''true'']) s (Inr (0, [], s))" "runs env (SimpleCmd [''false'']) s (Inr (1, [], s))"
  by (auto intro!: runsI [of 1] simp: sh_body_def sh_run_simple_def)

lemma commands_true: "\<exists>s'. commands_run env [[''true'']] ret s (Inr (0, s')) \<and> sh_last_status s' = 0"
  using runs_true_false(1) [of env "staged ''true'' s"] by (intro exI [of _ "(staged ''true'' s)\<lparr>sh_last_status := 0\<rparr>"]) auto

lemma commands_false: "\<exists>s'. commands_run env [[''false'']] ret s (Inr (1, s')) \<and> sh_last_status s' = 1"
  using runs_true_false(2) [of env "staged ''false'' s"] by (intro exI [of _ "(staged ''false'' s)\<lparr>sh_last_status := 1\<rparr>"]) auto

lemma commands_Cons:
  "commands_run env [ws] ret s (Inr (r, s1)) \<Longrightarrow> commands_run env wss r s1 y \<Longrightarrow> commands_run env (ws # wss) ret s y"
  by auto

lemma demo_cmds: "\<forall>ws \<in> set [[''true''], [''false'']]. shell_cmd ws \<and> is_command (unwords ws)"
  by code_simp

theorem script_runs_commands_witness:
  "\<exists>s'. runs no_env (BlockFrom (''true'' @ LF # ''false'' @ [LF]) True 0) (sh_boot kio_demo) (Inr (1, [], s')) \<and> sh_last_status s' = 1"
proof -
  let ?s = "sh_boot kio_demo"
  obtain s1 where "commands_run no_env [[''true'']] 0 ?s (Inr (0, s1))" using commands_true by blast
  moreover obtain s2 where s2: "commands_run no_env [[''false'']] 0 s1 (Inr (1, s2))" "sh_last_status s2 = 1" using commands_false by blast
  ultimately have "commands_run no_env [[''true''], [''false'']] 0 ?s (Inr (1, s2))" by (blast intro: commands_Cons)
  then have "runs no_env (BlockFrom (script_text (map unwords [[''true''], [''false'']])) True 0) ?s (Inr (1, [], s2))"
    unfolding script_runs_commands [OF demo_cmds] by (intro exI [of _ "Inr (1, s2)"]) simp
  with s2(2) show ?thesis by (intro exI [of _ s2]) simp
qed

text \<open>
  C37: a loop that ends by its condition runs its body once more. However many turns a \<^verbatim>\<open>while\<close> loop makes, when its condition
  fails the interpreter goes on at the start of the body, as straight code, and not behind the loop; a loop whose condition
  fails at once runs its body.
\<close>

theorem while_body_runs_again:
  assumes "is_while cond" and "while_turns env cond body ret s r s'"
  shows "runs env (BlockFrom (''while '' @ cond @ LF # body) True ret) s x \<longleftrightarrow> runs env (BlockFrom body True r) s' x"
  using assms(1) while_turns_runs [OF assms(2)] by (rule runs_while)

lemma demo_while: "is_while ''false''" "shell_cmd [''false'']" "is_command ''false''"
  by code_simp+

theorem while_body_runs_again_witness:
  "\<exists>s'. runs no_env (BlockFrom (''while false'' @ LF # ''false'' @ [LF]) True 0) (sh_boot kio_demo) (Inr (1, [], s')) \<and> sh_last_status s' = 1"
proof -
  let ?s = "sh_boot kio_demo"
  have "runs no_env (ExecCmd ''false'') ?s (Inr (1, [], ?s))"
    using runs_words(1) [OF demo_while(2), of no_env ?s] runs_true_false(2) [of no_env ?s] by simp
  then have t: "while_turns no_env ''false'' (''false'' @ [LF]) 0 ?s 0 ?s" by (rule last_turn) simp
  obtain s2 where s2: "commands_run no_env [[''false'']] 0 ?s (Inr (1, s2))" "sh_last_status s2 = 1" using commands_false by blast
  then have "script_runs no_env [''false''] 0 ?s (Inr (1, s2))" using script_commands [of "[[''false'']]" no_env 0 ?s] demo_while(2)
    by (simp del: script_runs_simps commands_run_simps)
  then have "runs no_env (BlockFrom (''false'' @ [LF]) True 0) ?s (Inr (1, [], s2))"
    using runs_script_then [of "[''false'']" no_env 0 ?s 1 s2 "[]"] demo_while(3) by (simp add: runs_end del: script_runs_simps)
  with while_body_runs_again [OF demo_while(1) t, of "Inr (1, [], s2)"] s2(2) show ?thesis by (intro exI [of _ s2]) simp
qed


lemma demo_if: "is_if ''true''" "shell_cmd [''true'']" "is_command ''true''"
  by code_simp+


text \<open>
  C39: a command that is an alias for itself does not return: expanding an alias has no test for recursion, so its first word is
  looked up again, whatever the arguments. (Interactive bash mode defines such an alias for \<^verbatim>\<open>grep\<close>.)
\<close>

theorem self_alias_diverges:
  assumes "shell_cmd (w # args)" and "\<not> builtin w" and "CHR ''='' \<notin> set w"
    and "func_find w s = Inr None" and "alias_get w s = Inr (Some w)"
  shows "\<forall>n. sh_call n env (SimpleCmd (w # args)) s = Inl Diverges"
  using alias_loop [OF assms] by blast

lemma demo_grep: "shell_cmd [''grep'', ''x'']" "\<not> builtin ''grep''"
  by code_simp+

theorem self_alias_diverges_witness:
  "\<exists>s'. alias_set ''grep'' ''grep'' (sh_boot kio_demo) = Inr s' \<and>
        (\<forall>n. sh_call n no_env (SimpleCmd [''grep'', ''x'']) s' = Inl Diverges)"
proof -
  let ?s = "sh_boot kio_demo"
  obtain s' where s': "alias_set ''grep'' ''grep'' ?s = Inr s'" "aliases_wf s'"
      "s' = ?s\<lparr>sh_aliases := sh_aliases s', sh_nalias := sh_nalias s'\<rparr>"
      "alias_map s' = assign SH_MAX_ALIASES ''grep'' ''grep'' (alias_map ?s)"
    using alias_set_spec [OF sh_boot_aliases(1), of "''grep''" "''grep''" kio_demo] sh_boot_aliases(2) [of kio_demo] by auto
  have "alias_get ''grep'' s' = Inr (Some ''grep'')"
    using alias_get_map [OF s'(2), of "''grep''"] s'(4) by (simp add: assign_def sh_boot_aliases)
  moreover have "sh_nfunc s' = 0" by (subst s'(3)) (simp add: sh_boot_defs)
  then have "func_find ''grep'' s' = Inr None" by (simp add: func_find_def)
  ultimately show ?thesis using self_alias_diverges [OF demo_grep, of s' no_env] s'(1) by auto
qed

end
