(* ===== verification/Spec2Isabelle.thy ===== *)
theory Spec2Isabelle
  imports Syscall_Inv Sh_Script
begin

text \<open>
  Verification of VNL, a hobby operating system kernel for x86-64 (the C sources under \<^verbatim>\<open>src/src\<close>, headers under
  \<^verbatim>\<open>src/include\<close>).

  \<^bold>\<open>The program.\<close> The boot loader enters \<^verbatim>\<open>kmain\<close> with the first 4 GiB of physical memory mapped at their own address and the kernel in
  the top 512 GiB. The physical memory manager hands out frames from a bitmap; the virtual memory manager keeps four-level
  page tables in frames; the kernel heap is a boundary-tag allocator on pages it maps. On the heap stand the files of the
  file system; shared memory objects are lists of frames. Devices (keyboard, mouse, serial port, framebuffer, text screen) are
  reached as character devices of the file system. The scheduler switches round-robin between kernel and user tasks at
  timer ticks; local sockets connect tasks; programs are ELF images loaded into an address space of their own, and enter the
  kernel through interrupt 0x80, whose handler calls all of the others. A command interpreter in the kernel runs scripts on these
  services: it expands and splits lines, runs its builtins, commands and programs, and captures their output.

  \<^bold>\<open>The state\<close> is one record that grows with the components, in the order of their dependencies: \<open>pmm\<close> (bitmap and counters),
  \<open>mach\<close> (physical memory and the page table register), \<open>heap\<close>, \<open>shm\<close>, \<open>vfs\<close> (nodes, descriptors and the devices), \<open>sched\<close> (tasks and the
  tables of the processor), \<open>net\<close> (sockets), \<open>kio\<close> (the output of printf) and on top of it \<open>sys\<close> (polling instances) and \<open>sh\<close> (the tables
  and static buffers of the interpreter). Every operation is a
  function on the part it needs and is polymorphic in the rest, so that what it leaves alone is visible in its type. A
  result \<open>Inl\<close> is an outcome other than returning: a kernel panic or an exception that halts the machine, an access through a null
  pointer or outside an array, a loop that does not end, or signed overflow. Machine integers are words of their width.

  \<^bold>\<open>Theories and sources.\<close>
  \<^item> \<open>Kernel_Prelude\<close>: integer types, errno values, alignment, byte memory, table scans, simp collections.
  \<^item> \<open>Pmm\<close>: \<^verbatim>\<open>mm/pmm.c\<close>. The bitmap is the set of its free frames; \<open>frame_allocator\<close> is the interface the other managers use.
  \<^item> \<open>Vmm\<close>, \<open>Addr_Space\<close>: \<^verbatim>\<open>mm/vmm.c\<close>, \<^verbatim>\<open>mm/uspace.c\<close>. Page tables as trees of distinct frames, translation before and after each operation;
    then the address space of a program as a memory of bytes.
  \<^item> \<open>Heap\<close>: \<^verbatim>\<open>mm/heap.c\<close>. The block list, the free list and the map of live allocations.
  \<^item> \<open>KString\<close>, \<open>Printf\<close>: \<^verbatim>\<open>lib/string.c\<close>, \<^verbatim>\<open>lib/printf.c\<close>. Strings with explicit terminators; the formatter against one without a
    buffer.
  \<^item> \<open>Ring\<close>, \<open>Input\<close>: \<^verbatim>\<open>drivers/keyboard.c\<close>, \<^verbatim>\<open>drivers/mouse.c\<close>. Ring buffers as queues behind one interface.
  \<^item> \<open>Console\<close>: \<^verbatim>\<open>drivers/fb.c\<close>, \<^verbatim>\<open>drivers/vga.c\<close>, \<^verbatim>\<open>lib/fonts.c\<close>.
  \<^item> \<open>Shm\<close>: \<^verbatim>\<open>kernel/shm.c\<close>.
  \<^item> \<open>Vfs\<close>, \<open>Vfs_Tree\<close>: \<^verbatim>\<open>fs/vfs.c\<close>, \<^verbatim>\<open>fs/devfs.c\<close>, \<^verbatim>\<open>drivers/serial.c\<close>. Operations and file contents; then the tree of names and its invariant over all
    call sequences.
  \<^item> \<open>Cpu\<close>, \<open>Sched\<close>: \<^verbatim>\<open>cpu/gdt.c\<close>, \<^verbatim>\<open>cpu/idt.c\<close>, \<^verbatim>\<open>cpu/irq.c\<close>, \<^verbatim>\<open>drivers/timer.c\<close>, \<^verbatim>\<open>kernel/sched.c\<close>.
  \<^item> \<open>Unsock\<close>, \<open>Unsock_Inv\<close>: \<^verbatim>\<open>net/un_socket.c\<close>. Operations; then the invariant over all call sequences and connections as byte streams.
  \<^item> \<open>Exec\<close>: \<^verbatim>\<open>kernel/elf_load.c\<close>, \<^verbatim>\<open>kernel/uaccess.c\<close>, \<^verbatim>\<open>kernel/user_task.c\<close>.
  \<^item> \<open>User_Mem\<close>, \<open>Epoll\<close>, \<open>Syscall\<close>, \<open>Syscall_Inv\<close>: \<^verbatim>\<open>kernel/syscall.c\<close>. Direct use of program pointers; event polling; the handler; the invariant over
    runs of calls and interrupts.
  \<^item> \<open>Sh_Store\<close>, \<open>Sh_Funcs\<close>, \<open>Sh_Arith\<close>, \<open>Sh_Expand\<close>, \<open>Sh_Builtins\<close>, \<open>Sh_Exec\<close>: \<^verbatim>\<open>shell/sh.c\<close> and the program dispatch of \<^verbatim>\<open>shell/shell.c\<close>. Variables and aliases as
    finite maps, functions in the heap, the arithmetic evaluator, expansion and tokens, the builtins, then pipelines, redirections and
    scripts.
  \<^item> \<open>Shell_Cmds\<close>: the commands of \<^verbatim>\<open>shell/shell.c\<close> and their table, \<^verbatim>\<open>net_ping\<close> of \<^verbatim>\<open>net/vnet.c\<close>. The sort against the sort of the library, the
    counters of \<^verbatim>\<open>wc\<close>, the end of a text.
  \<^item> \<open>Sh_Mono\<close>, \<open>Sh_Script\<close>: the same functions of \<^verbatim>\<open>shell/sh.c\<close> without a bound. Every function of the interpreter is monotone in the calls it makes, so a result
    other than not returning does not depend on the bound; then scripts of plain commands against the sequence of their commands, and the loops,
    conditions and aliases that do not do what they mean to.

  \<^bold>\<open>What is shown.\<close> Each allocator refines its abstract specification (sets of frames, maps of live blocks) and keeps its invariant;
  translation, file contents, shared memory, sockets and user memory are what was stored there; the trees and tables of the file
  system, the sockets and the polling instances are consistent in every reachable state; ready tasks run after a bounded number of
  switches; the formatter, the loader, the polling calls, the tables and the arithmetic of the interpreter refine reference definitions;
  expansion returns and stays in its arrays; a script runs its commands in order. Several theorems state defects: a copy that
  writes one byte too many, loops that do not end, sums that wrap, pages that user mode cannot reach, a loop body that runs once too often.

  \<^bold>\<open>Bounds.\<close> Loops that the code ends by a counter are structural recursions on what is left. \<open>vmm_unmap_loop\<close> has $2^{52}$ turns, the
  number of pages there are, before its counter is back where it began; the tag loop of the framebuffer has $2^{32}$, the number of
  addresses; the control loop of \<open>unix_sock_sendmsg\<close> has \<open>16 * (length + 1)\<close>, more than the descriptors and offsets there are. \<open>kmalloc\<close>
  walks at most as many free blocks as there are addresses and retries at most once for each frame of the machine, since every retry
  has taken one. A call that sleeps takes the turns of the others as a list. The functions of the
  interpreter call each other without a bound in the code; \<open>sh_call\<close> bounds the depth of the calls, counting a turn of a loop as a call.
  No result depends on it: what a bound gives other than \<open>Diverges\<close> every greater one gives too (\<open>Sh_Mono\<close>), and not returning is
  \<open>Diverges\<close> at every bound.
  Its loops over text have the length of the text as their bound. A function body read from the heap has at most 8191 characters, since
  the array it was collected in has 8192.

  \<^bold>\<open>Assumptions.\<close> Physical memory is reached at its own address, as the code assumes (\<^verbatim>\<open>P2V\<close>); kernel data that is not on the
  heap is in the records and not in \<open>pmem\<close>. Interrupts arrive between operations, not inside them. The register save and restore
  of the assembly stubs, \<^verbatim>\<open>invlpg\<close> and the loading of descriptor tables have no state beyond what the records hold.

  \<^bold>\<open>Not modelled.\<close> The graphical programs (\<^verbatim>\<open>kernel/desktop.c\<close>, \<^verbatim>\<open>gui.c\<close>, \<^verbatim>\<open>gui_env.c\<close>, the image data of \<^verbatim>\<open>desktop_resources.c\<close>, \<^verbatim>\<open>stb_impl.c\<close>),
  which mostly draw; the floating point routines of \<^verbatim>\<open>kernel/math.c\<close>; boot code and stubs in assembly; ACPI, PCI and network card
  probing, which is port and firmware access; the line editor and the read loops of \<^verbatim>\<open>shell.c\<close> and of the interpreter; the commands that reach such hardware
  or stand in other files (a parameter of the interpreter: a function on its state for every name), the editor, installer and games among them; the C library and programs of user space; the vendored libraries
  under \<^verbatim>\<open>ports\<close>.
\<close>

end
